(* ===== verification/Prelude.thy ===== *)
theory Prelude
  imports Main "HOL-Library.Sublist"
begin

text \<open>
  Shared vocabulary of the development: the parts of Rust's \<open>str\<close>, \<open>char\<close>, \<open>Option\<close> and
  slice library that \<open>crates/z-engine-policy\<close> uses, and the lemmas on them that the component
  theories share.

  A Rust \<open>String\<close> is a sequence of UTF-8 bytes and a HOL \<^typ>\<open>string\<close> is a list of 8-bit
  \<^typ>\<open>char\<close>, so a \<open>String\<close> is modelled by its bytes: \<open>len\<close>, slicing, prefixes, suffixes
  and ASCII tests are then the list operations. Where the code looks at whole \<open>char\<close>s in a way
  that bytes cannot show (Unicode white space, \<open>chars()\<close> of a sed script), \<open>uchars\<close> splits the
  bytes into encoded scalar values first.
\<close>

section \<open>Collections of facts\<close>

named_theorems str_simps \<open>equations of the Rust string operations\<close>
named_theorems ascii_simps \<open>definitions of the ASCII classes\<close>
named_theorems path_simps \<open>equations of the path operations\<close>
named_theorems policy_simps \<open>equations of the policy's accessors\<close>

section \<open>Characters\<close>

abbreviation NUL :: char where "NUL \<equiv> CHR 0x00"
abbreviation TAB :: char where "TAB \<equiv> CHR 0x09"
abbreviation NL :: char where "NL \<equiv> CHR 0x0A"
abbreviation SPACE :: char where "SPACE \<equiv> CHR 0x20"
abbreviation DQUOTE :: char where "DQUOTE \<equiv> CHR 0x22"
abbreviation DOLLAR :: char where "DOLLAR \<equiv> CHR 0x24"
abbreviation QUOTE :: char where "QUOTE \<equiv> CHR 0x27"
abbreviation BACKSLASH :: char where "BACKSLASH \<equiv> CHR 0x5C"
abbreviation BACKTICK :: char where "BACKTICK \<equiv> CHR 0x60"

abbreviation code :: "char \<Rightarrow> nat" where "code c \<equiv> of_char c"

definition is_ascii_digit :: "char \<Rightarrow> bool" where
  [ascii_simps]: "is_ascii_digit c \<longleftrightarrow> 48 \<le> code c \<and> code c \<le> 57"

definition is_ascii_lowercase :: "char \<Rightarrow> bool" where
  [ascii_simps]: "is_ascii_lowercase c \<longleftrightarrow> 97 \<le> code c \<and> code c \<le> 122"

definition is_ascii_uppercase :: "char \<Rightarrow> bool" where
  [ascii_simps]: "is_ascii_uppercase c \<longleftrightarrow> 65 \<le> code c \<and> code c \<le> 90"

definition is_ascii_alphabetic :: "char \<Rightarrow> bool" where
  [ascii_simps]: "is_ascii_alphabetic c \<longleftrightarrow> is_ascii_lowercase c \<or> is_ascii_uppercase c"

definition is_ascii_alphanumeric :: "char \<Rightarrow> bool" where
  [ascii_simps]: "is_ascii_alphanumeric c \<longleftrightarrow> is_ascii_alphabetic c \<or> is_ascii_digit c"

definition is_ascii_hexdigit :: "char \<Rightarrow> bool" where
  [ascii_simps]: "is_ascii_hexdigit c \<longleftrightarrow> is_ascii_digit c \<or> (97 \<le> code c \<and> code c \<le> 102) \<or>
     (65 \<le> code c \<and> code c \<le> 70)"

definition to_ascii_lower :: "char \<Rightarrow> char" where
  "to_ascii_lower c = (if is_ascii_uppercase c then char_of (code c + 32) else c)"

definition to_ascii_lowercase :: "string \<Rightarrow> string" where
  "to_ascii_lowercase s = map to_ascii_lower s"

definition eq_ignore_ascii_case :: "string \<Rightarrow> string \<Rightarrow> bool" where
  "eq_ignore_ascii_case s t \<longleftrightarrow> to_ascii_lowercase s = to_ascii_lowercase t"

text \<open>\<open>char::to_digit\<close> for a radix of at most 16.\<close>

definition to_digit :: "nat \<Rightarrow> char \<Rightarrow> nat option" where
  "to_digit radix c =
     (let d = (if is_ascii_digit c then code c - 48
               else if 97 \<le> code c \<and> code c \<le> 102 then code c - 87
               else if 65 \<le> code c \<and> code c \<le> 70 then code c - 55
               else radix)
      in if d < radix then Some d else None)"

section \<open>UTF-8\<close>

definition is_continuation :: "char \<Rightarrow> bool" where
  [ascii_simps]: "is_continuation c \<longleftrightarrow> 128 \<le> code c \<and> code c < 192"

text \<open>\<open>str::chars\<close>: one byte string per encoded scalar value.\<close>

function uchars :: "string \<Rightarrow> string list" where
  "uchars [] = []"
| "uchars (c # cs) = (c # takeWhile is_continuation cs) # uchars (dropWhile is_continuation cs)"
  by pat_completeness auto
termination
  by (relation "measure length") (auto simp: le_imp_less_Suc length_dropWhile_le)

text \<open>\<open>String::push(char)\<close> for the scalar value \<open>n\<close>: its UTF-8 encoding.\<close>

definition utf8_encode :: "nat \<Rightarrow> string" where
  "utf8_encode n =
     (if n < 128 then [char_of n]
      else if n < 2048 then [char_of (192 + n div 64), char_of (128 + n mod 64)]
      else if n < 65536 then
        [char_of (224 + n div 4096), char_of (128 + n div 64 mod 64), char_of (128 + n mod 64)]
      else [char_of (240 + n div 262144), char_of (128 + n div 4096 mod 64),
            char_of (128 + n div 64 mod 64), char_of (128 + n mod 64)])"

text \<open>\<open>char::from_u32\<close>: no surrogates, nothing above \<open>0x10FFFF\<close>.\<close>

definition char_from_u32 :: "nat \<Rightarrow> nat option" where
  "char_from_u32 n = (if n \<le> 1114111 \<and> \<not> (55296 \<le> n \<and> n \<le> 57343) then Some n else None)"

text \<open>\<open>char::is_whitespace\<close> on one encoded scalar value (Unicode \<open>White_Space\<close>).\<close>

definition is_whitespace :: "string \<Rightarrow> bool" where
  "is_whitespace u \<longleftrightarrow>
     u \<in> set [[CHR 0x09], [CHR 0x0A], [CHR 0x0B], [CHR 0x0C], [CHR 0x0D], [CHR 0x20],
              [CHR 0xC2, CHR 0x85], [CHR 0xC2, CHR 0xA0], [CHR 0xE1, CHR 0x9A, CHR 0x80],
              [CHR 0xE2, CHR 0x80, CHR 0x80], [CHR 0xE2, CHR 0x80, CHR 0x81],
              [CHR 0xE2, CHR 0x80, CHR 0x82], [CHR 0xE2, CHR 0x80, CHR 0x83],
              [CHR 0xE2, CHR 0x80, CHR 0x84], [CHR 0xE2, CHR 0x80, CHR 0x85],
              [CHR 0xE2, CHR 0x80, CHR 0x86], [CHR 0xE2, CHR 0x80, CHR 0x87],
              [CHR 0xE2, CHR 0x80, CHR 0x88], [CHR 0xE2, CHR 0x80, CHR 0x89],
              [CHR 0xE2, CHR 0x80, CHR 0x8A], [CHR 0xE2, CHR 0x80, CHR 0xA8],
              [CHR 0xE2, CHR 0x80, CHR 0xA9], [CHR 0xE2, CHR 0x80, CHR 0xAF],
              [CHR 0xE2, CHR 0x81, CHR 0x9F], [CHR 0xE3, CHR 0x80, CHR 0x80]]"

text \<open>
  \<open>String::from_utf8_lossy\<close>: valid sequences are kept, and each maximal invalid run (a lead byte
  with the continuations accepted so far) becomes U+FFFD. \<open>utf8_seq\<close> gives how many bytes the
  sequence at the head takes and whether it is valid.
\<close>

definition between :: "nat \<Rightarrow> nat \<Rightarrow> char \<Rightarrow> bool" where
  "between lo hi c \<longleftrightarrow> lo \<le> code c \<and> code c \<le> hi"

fun conts :: "nat \<Rightarrow> string \<Rightarrow> nat" where
  "conts 0 s = 0"
| "conts (Suc n) [] = 0"
| "conts (Suc n) (c # s) = (if is_continuation c then Suc (conts n s) else 0)"

definition utf8_second_ok :: "char \<Rightarrow> string \<Rightarrow> bool" where
  "utf8_second_ok c s = (case s of [] \<Rightarrow> False | d # _ \<Rightarrow>
     if code c = 224 then between 160 191 d
     else if code c = 237 then between 128 159 d
     else if code c = 240 then between 144 191 d
     else if code c = 244 then between 128 143 d
     else is_continuation d)"

definition utf8_width :: "char \<Rightarrow> nat" where
  "utf8_width c = (if code c < 128 then 1 else if between 194 223 c then 2
     else if between 224 239 c then 3 else if between 240 244 c then 4 else 0)"

definition utf8_seq :: "char \<Rightarrow> string \<Rightarrow> nat \<times> bool" where
  "utf8_seq c s =
     (let w = utf8_width c in
      if w = 1 then (1, True)
      else if w = 0 \<or> \<not> utf8_second_ok c s then (1, False)
      else let k = 2 + conts (w - 2) (tl s) in (k, k = w))"

function from_utf8_lossy :: "string \<Rightarrow> string" where
  "from_utf8_lossy [] = []"
| "from_utf8_lossy (c # s) =
     (let (k, valid) = utf8_seq c s in
      (if valid then take k (c # s) else utf8_encode 65533) @ from_utf8_lossy (drop (k - 1) s))"
  by pat_completeness auto
termination
  by (relation "measure length") auto

section \<open>String slices\<close>

definition starts_with :: "'a list \<Rightarrow> 'a list \<Rightarrow> bool" where
  [str_simps]: "starts_with p s \<longleftrightarrow> take (length p) s = p"

definition ends_with :: "'a list \<Rightarrow> 'a list \<Rightarrow> bool" where
  [str_simps]: "ends_with p s \<longleftrightarrow> starts_with (rev p) (rev s)"

definition strip_prefix :: "'a list \<Rightarrow> 'a list \<Rightarrow> 'a list option" where
  "strip_prefix p s = (if starts_with p s then Some (drop (length p) s) else None)"

definition strip_suffix :: "'a list \<Rightarrow> 'a list \<Rightarrow> 'a list option" where
  "strip_suffix p s = (if ends_with p s then Some (take (length s - length p) s) else None)"

text \<open>\<open>str::split_once\<close>: before and after the first occurrence of the separator.\<close>

fun split_once :: "string \<Rightarrow> string \<Rightarrow> (string \<times> string) option" where
  "split_once d s =
     (case strip_prefix d s of
        Some r \<Rightarrow> Some ([], r)
      | None \<Rightarrow> (case s of [] \<Rightarrow> None
                 | c # cs \<Rightarrow> map_option (\<lambda>(a, b). (c # a, b)) (split_once d cs)))"

declare split_once.simps [simp del]

definition contains_char :: "char \<Rightarrow> string \<Rightarrow> bool" where
  [str_simps]: "contains_char c s \<longleftrightarrow> c \<in> set s"

definition contains_str :: "string \<Rightarrow> string \<Rightarrow> bool" where
  "contains_str d s \<longleftrightarrow> split_once d s \<noteq> None"

text \<open>\<open>str::split(char)\<close>; the result is never empty.\<close>

fun split_on :: "char \<Rightarrow> string \<Rightarrow> string list" where
  "split_on d [] = [[]]"
| "split_on d (c # cs) =
     (if c = d then [] # split_on d cs
      else (case split_on d cs of w # ws \<Rightarrow> (c # w) # ws | [] \<Rightarrow> [[c]]))"

fun join_with :: "string \<Rightarrow> string list \<Rightarrow> string" where
  "join_with sep [] = []"
| "join_with sep [s] = s"
| "join_with sep (s # t # ts) = s @ sep @ join_with sep (t # ts)"

definition trim_start :: "string \<Rightarrow> string" where
  "trim_start s = concat (dropWhile is_whitespace (uchars s))"

definition trim_end :: "string \<Rightarrow> string" where
  "trim_end s = concat (rev (dropWhile is_whitespace (rev (uchars s))))"

definition trim :: "string \<Rightarrow> string" where
  "trim s = trim_end (trim_start s)"

definition trim_start_matches :: "(char \<Rightarrow> bool) \<Rightarrow> string \<Rightarrow> string" where
  "trim_start_matches P s = dropWhile P s"

definition trim_end_matches :: "(char \<Rightarrow> bool) \<Rightarrow> string \<Rightarrow> string" where
  "trim_end_matches P s = rev (dropWhile P (rev s))"

definition trim_matches :: "(char \<Rightarrow> bool) \<Rightarrow> string \<Rightarrow> string" where
  "trim_matches P s = trim_end_matches P (trim_start_matches P s)"

text \<open>\<open>str::replace\<close> of one character by a string.\<close>

definition replace_char :: "char \<Rightarrow> string \<Rightarrow> string \<Rightarrow> string" where
  "replace_char c t s = concat (map (\<lambda>x. if x = c then t else [x]) s)"

text \<open>A \<open>Vec\<close> extended only by values that are not yet in it.\<close>

definition push_new :: "('a \<Rightarrow> 'a \<Rightarrow> bool) \<Rightarrow> 'a \<Rightarrow> 'a list \<Rightarrow> 'a list" where
  "push_new eq x xs = (if (\<exists>y \<in> set xs. eq y x) then xs else xs @ [x])"

section \<open>Lemmas on slices\<close>

lemma if_eqE:
  assumes "(if b then x else y) = z"
  obtains "b" "x = z" | "\<not> b" "y = z"
  using assms by (cases b) auto

lemma starts_with_Nil [simp]: "starts_with [] s"
  by (simp add: starts_with_def)

lemma starts_with_Cons [simp]:
  "starts_with (c # p) (d # s) \<longleftrightarrow> c = d \<and> starts_with p s"
  "\<not> starts_with (c # p) []"
  by (auto simp: starts_with_def)

lemma starts_with_prefix: "starts_with p s \<longleftrightarrow> prefix p s"
  by (metis append_eq_conv_conj prefix_def starts_with_def)

lemma strip_prefix_Nil [simp]: "strip_prefix [] s = Some s"
  by (simp add: strip_prefix_def)

lemma strip_prefix_Cons [simp]:
  "strip_prefix (c # p) (d # s) = (if c = d then strip_prefix p s else None)"
  "strip_prefix (c # p) [] = None"
  by (auto simp: strip_prefix_def)

lemma strip_prefix_Some_iff: "strip_prefix p s = Some r \<longleftrightarrow> s = p @ r"
  by (auto simp: strip_prefix_def starts_with_prefix prefix_def)

lemma strip_prefix_append [simp]: "strip_prefix p (p @ r) = Some r"
  by (simp add: strip_prefix_Some_iff)

lemma strip_suffix_Some_iff: "strip_suffix p s = Some r \<longleftrightarrow> s = r @ p"
proof -
  have *: "starts_with (rev p) (rev s) \<longleftrightarrow> (\<exists>r. s = r @ p)"
    by (metis prefix_def rev_append rev_rev_ident starts_with_prefix)
  show ?thesis
    by (auto simp: strip_suffix_def ends_with_def *)
qed

lemma strip_suffix_append [simp]: "strip_suffix p (r @ p) = Some r"
  by (simp add: strip_suffix_Some_iff)

lemma ends_with_suffix: "ends_with p s \<longleftrightarrow> suffix p s"
  by (metis ends_with_def starts_with_prefix suffix_to_prefix)

lemma split_once_char_notin: "d \<notin> set s \<Longrightarrow> split_once [d] s = None"
  by (induction s) (auto simp: split_once.simps)

lemma split_once_char: "d \<notin> set a \<Longrightarrow> split_once [d] (a @ d # b) = Some (a, b)"
  by (induction a) (auto simp: split_once.simps)

lemma split_once_Some: "split_once d s = Some (a, b) \<Longrightarrow> s = a @ d @ b"
proof (induction d s arbitrary: a b rule: split_once.induct)
  case (1 d s)
  then show ?case
    by (subst (asm) split_once.simps)
       (auto simp: strip_prefix_Some_iff split: option.splits list.splits)
qed

lemma split_once_length: "split_once d s = Some (a, b) \<Longrightarrow> length s = length a + length d + length b"
  by (drule split_once_Some) simp

lemma split_on_not_Nil [simp]: "split_on d s \<noteq> []"
  by (induction s) (auto split: list.splits)

lemma split_on_notin: "d \<notin> set s \<Longrightarrow> split_on d s = [s]"
  by (induction s) auto

lemma join_with_split_on: "join_with [d] (split_on d s) = s"
proof (induction s)
  case (Cons c s)
  obtain w ws where "split_on d s = w # ws"
    by (cases "split_on d s") auto
  with Cons show ?case by (cases ws) auto
qed simp

section \<open>Lemmas on trimming\<close>

text \<open>
  A list of encoded scalar values: every entry is a lead byte with continuation bytes, and only the
  first entry may start with a stray continuation byte.
\<close>

definition wf_uchar :: "string \<Rightarrow> bool" where
  "wf_uchar u \<longleftrightarrow> u \<noteq> [] \<and> (\<forall>c \<in> set (tl u). is_continuation c)"

fun wf_uchars :: "string list \<Rightarrow> bool" where
  "wf_uchars [] = True"
| "wf_uchars (u # us) \<longleftrightarrow> wf_uchar u \<and> (\<forall>v \<in> set us. wf_uchar v \<and> \<not> is_continuation (hd v))"

lemma uchars_Nil_iff [simp]: "uchars s = [] \<longleftrightarrow> s = []"
  by (cases s) auto

lemma concat_uchars [simp]: "concat (uchars s) = s"
  by (induction s rule: uchars.induct) auto

lemma wf_uchars_uchars: "wf_uchars (uchars s)"
proof (induction s rule: uchars.induct)
  case (2 c cs)
  let ?r = "dropWhile is_continuation cs"
  have c: "wf_uchar (c # takeWhile is_continuation cs)"
    by (auto simp: wf_uchar_def dest: set_takeWhileD)
  show ?case
  proof (cases ?r)
    case Nil
    with c show ?thesis by (simp del: dropWhile_eq_Nil_conv)
  next
    case (Cons d ds)
    then have "\<not> is_continuation d"
      by (metis dropWhile_eq_Cons_conv)
    with c "2.IH" Cons show ?thesis by simp
  qed
qed simp

lemma takeWhile_all_append: "\<forall>x \<in> set xs. P x \<Longrightarrow> takeWhile P (xs @ ys) = xs @ takeWhile P ys"
  by (induction xs) auto

lemma dropWhile_all_append: "\<forall>x \<in> set xs. P x \<Longrightarrow> dropWhile P (xs @ ys) = dropWhile P ys"
  by (induction xs) auto

lemma wf_uchars_tl: "wf_uchars (u # us) \<Longrightarrow> wf_uchars us"
  by (cases us) auto

lemma concat_no_continuation:
  assumes "\<forall>v \<in> set us. wf_uchar v \<and> \<not> is_continuation (hd v)"
  shows "takeWhile is_continuation (concat us) = []"
    and "dropWhile is_continuation (concat us) = concat us"
  using assms by (cases us; cases "hd us"; auto simp: wf_uchar_def)+

lemma uchars_concat: "wf_uchars us \<Longrightarrow> uchars (concat us) = us"
proof (induction us)
  case (Cons u us)
  obtain c t where u: "u = c # t" "\<forall>c \<in> set t. is_continuation c"
    using Cons.prems by (cases u) (auto simp: wf_uchar_def)
  have us: "\<forall>v \<in> set us. wf_uchar v \<and> \<not> is_continuation (hd v)"
    using Cons.prems by simp
  show ?case
    using u Cons.IH [OF wf_uchars_tl [OF Cons.prems]]
    by (simp add: takeWhile_all_append dropWhile_all_append concat_no_continuation [OF us])
qed simp

lemma wf_uchars_dropWhile: "wf_uchars us \<Longrightarrow> wf_uchars (dropWhile P us)"
proof (induction us)
  case (Cons u us)
  then show ?case using wf_uchars_tl [OF Cons.prems] by simp
qed simp

lemma wf_uchars_append: "wf_uchars (us @ vs) \<Longrightarrow> wf_uchars us"
  by (cases us) auto

lemma wf_uchars_dropWhile_rev:
  assumes "wf_uchars us"
  shows "wf_uchars (rev (dropWhile P (rev us)))"
proof -
  have "us = rev (dropWhile P (rev us)) @ rev (takeWhile P (rev us))"
    by (metis rev_append rev_rev_ident takeWhile_dropWhile_id)
  with assms show ?thesis by (metis wf_uchars_append)
qed

lemma uchars_trim_start: "uchars (trim_start s) = dropWhile is_whitespace (uchars s)"
  by (simp add: trim_start_def uchars_concat wf_uchars_dropWhile wf_uchars_uchars)

lemma uchars_trim_end: "uchars (trim_end s) = rev (dropWhile is_whitespace (rev (uchars s)))"
  by (simp add: trim_end_def uchars_concat wf_uchars_dropWhile_rev wf_uchars_uchars)

text \<open>A string that neither starts nor ends with white space.\<close>

definition trimmed :: "string \<Rightarrow> bool" where
  "trimmed s \<longleftrightarrow> s \<noteq> [] \<longrightarrow>
     \<not> is_whitespace (hd (uchars s)) \<and> \<not> is_whitespace (last (uchars s))"

lemma dropWhile_hd: "xs = [] \<or> \<not> P (hd xs) \<Longrightarrow> dropWhile P xs = xs"
  by (cases xs) auto

lemma trim_trimmed: "trimmed s \<Longrightarrow> trim s = s"
  unfolding trim_def trim_start_def trim_end_def trimmed_def
  by (cases "s = []") (simp_all add: dropWhile_hd hd_rev)

lemma trimmed_trim: "trimmed (trim s)"
proof -
  let ?a = "dropWhile is_whitespace (uchars s)"
  let ?b = "rev (dropWhile is_whitespace (rev ?a))"
  have u: "uchars (trim s) = ?b"
    by (simp add: trim_def uchars_trim_end uchars_trim_start)
  have l: "\<not> is_whitespace (last ?b)" if "?b \<noteq> []"
    using that by (simp add: last_rev hd_dropWhile)
  have h: "\<not> is_whitespace (hd ?b)" if ne: "?b \<noteq> []"
  proof -
    obtain w where "?a = ?b @ w"
      by (metis rev_append rev_rev_ident takeWhile_dropWhile_id)
    then have "hd ?b = hd ?a" and "?a \<noteq> []"
      using ne by (metis hd_append2, metis append_is_Nil_conv)
    then show ?thesis by (metis hd_dropWhile)
  qed
  show ?thesis
    using l h u by (auto simp: trimmed_def simp flip: uchars_Nil_iff)
qed

lemma to_ascii_lower_idem [simp]: "to_ascii_lower (to_ascii_lower c) = to_ascii_lower c"
  by (auto simp: to_ascii_lower_def is_ascii_uppercase_def)

lemma to_ascii_lowercase_idem [simp]: "to_ascii_lowercase (to_ascii_lowercase s) = to_ascii_lowercase s"
  by (simp add: to_ascii_lowercase_def)

lemma trim_idem [simp]: "trim (trim s) = trim s"
  by (rule trim_trimmed) (rule trimmed_trim)

text \<open>Chunks of a concatenation, and what trimming leaves of it.\<close>

lemma uchars_append:
  "t = [] \<or> \<not> is_continuation (hd t) \<Longrightarrow> uchars (s @ t) = uchars s @ uchars t"
proof (induction s rule: uchars.induct)
  case (2 c cs)
  have t: "takeWhile is_continuation t = []" "dropWhile is_continuation t = t"
    using "2.prems" by (cases t; simp)+
  have "takeWhile is_continuation (cs @ t) = takeWhile is_continuation cs"
    "dropWhile is_continuation (cs @ t) = dropWhile is_continuation cs @ t"
    using t by (induction cs) auto
  with "2.IH" [OF "2.prems"] show ?case by simp
qed simp

lemma trim_end_idem [simp]: "trim_end (trim_end s) = trim_end s"
proof -
  let ?b = "rev (dropWhile is_whitespace (rev (uchars s)))"
  have "dropWhile is_whitespace (rev ?b) = rev ?b"
    by (metis (no_types) dropWhile_idem rev_rev_ident)
  then show ?thesis
    unfolding trim_end_def [of "trim_end s"] uchars_trim_end by (simp add: trim_end_def)
qed

lemma hd_uchars_trim_end:
  assumes "trim_end s \<noteq> []"
  shows "hd (uchars (trim_end s)) = hd (uchars s)"
proof -
  obtain w where "uchars s = uchars (trim_end s) @ w"
    unfolding uchars_trim_end by (metis rev_append rev_rev_ident takeWhile_dropWhile_id)
  then show ?thesis using assms by (metis hd_append2 uchars_Nil_iff)
qed

lemma trim_end_trimmed: "s = [] \<or> \<not> is_whitespace (last (uchars s)) \<Longrightarrow> trim_end s = s"
  unfolding trim_end_def by (cases "s = []") (simp_all add: dropWhile_hd hd_rev)

text \<open>Printable ASCII, the characters of tool names and of a rule's own punctuation.\<close>

definition printable :: "char \<Rightarrow> bool" where
  "printable c \<longleftrightarrow> 32 < code c \<and> code c < 127"

lemma printable_simps:
  assumes "printable c"
  shows "\<not> is_continuation c" "\<not> is_whitespace [c]" "c \<noteq> SPACE"
  using assms by (auto simp: printable_def is_continuation_def is_whitespace_def)

lemma uchars_printable: "printable c \<Longrightarrow> uchars [c] = [[c]]"
  by simp

lemma trimmed_ends:
  assumes "s = c # d # t" "printable c" "\<not> is_continuation d" "printable (last s)"
  shows "trimmed s"
proof -
  have "uchars (butlast s @ [last s]) = uchars (butlast s) @ uchars [last s]"
    by (rule uchars_append) (simp add: printable_simps(1) [OF assms(4)])
  moreover have "butlast s @ [last s] = s" using assms(1) by (metis append_butlast_last_id list.distinct(1))
  ultimately have "uchars s = uchars (butlast s) @ [[last s]]" by (metis uchars_printable [OF assms(4)])
  then have "last (uchars s) = [last s]" by simp
  moreover have "hd (uchars s) = [c]" using assms(1,3) by simp
  ultimately show ?thesis using assms(2,4) by (simp add: trimmed_def printable_simps)
qed

lemma is_whitespace_hd: "is_whitespace u \<Longrightarrow> \<not> printable (hd u)"
  by (auto simp: is_whitespace_def printable_def)

lemma printable_last:
  assumes "s \<noteq> []" "printable (last s)"
  shows "last (uchars s) = [last s]" "trim_end s = s"
proof -
  have "uchars (butlast s @ [last s]) = uchars (butlast s) @ uchars [last s]"
    by (rule uchars_append) (simp add: printable_simps(1) [OF assms(2)])
  then show l: "last (uchars s) = [last s]" using assms(1) by simp
  show "trim_end s = s"
    by (rule trim_end_trimmed) (simp add: l printable_simps(2) [OF assms(2)])
qed

lemma trimmed_printable: "s \<noteq> [] \<Longrightarrow> printable (hd s) \<Longrightarrow> printable (last s) \<Longrightarrow> trimmed s"
  using is_whitespace_hd [of "hd (uchars s)"] printable_last(1) [of s] printable_simps(2) [of "last s"]
  unfolding trimmed_def by (cases s) (fastforce simp del: last.simps)+

lemma all_printable_trim:
  assumes "\<forall>c \<in> set s. printable c"
  shows "trim s = s" "trim_end s = s"
proof -
  have u: "uchars s = map (\<lambda>c. [c]) s"
    using assms
  proof (induction s)
    case (Cons c s)
    then have "takeWhile is_continuation s = []" "dropWhile is_continuation s = s"
      by (cases s; simp add: printable_simps)+
    with Cons show ?case by simp
  qed simp
  show "trim s = s"
    by (rule trim_trimmed) (use assms u in \<open>auto simp: trimmed_def printable_simps hd_map last_map\<close>)
  show "trim_end s = s"
    by (rule trim_end_trimmed) (use assms u in \<open>auto simp: printable_simps last_map\<close>)
qed

section \<open>Decimal numbers and ASCII text\<close>

abbreviation CR :: char where "CR \<equiv> CHR 0x0D"

definition is_ascii_whitespace :: "char \<Rightarrow> bool" where
  "is_ascii_whitespace c \<longleftrightarrow> c \<in> {SPACE, TAB, NL, CHR 0x0C, CR}"

abbreviation ticked :: "string \<Rightarrow> string" where
  "ticked s \<equiv> [BACKTICK] @ s @ [BACKTICK]"

text \<open>\<open>format!\<close> of an unsigned number.\<close>

fun nat_str :: "nat \<Rightarrow> string" where
  "nat_str n = (if n < 10 then [char_of (48 + n)] else nat_str (n div 10) @ [char_of (48 + n mod 10)])"

declare nat_str.simps [simp del]

lemma nat_str_digits: "\<forall>c \<in> set (nat_str n). is_ascii_digit c" "nat_str n \<noteq> []"
proof (induction n rule: nat_str.induct)
  case (1 n)
  { case 1
    then show ?case using "1.IH" by (subst nat_str.simps) (auto simp: is_ascii_digit_def) }
  { case 2
    then show ?case by (subst nat_str.simps) simp }
qed

lemma nat_str_value: "foldl (\<lambda>v c. v * 10 + (code c - 48)) 0 (nat_str n) = n"
proof (induction n rule: nat_str.induct)
  case (1 n)
  have digit: "code (char_of (48 + k mod 10)) - 48 = k mod (10::nat)" for k :: nat by simp
  show ?case
  proof (cases "n < 10")
    case True
    then show ?thesis by (subst nat_str.simps) simp
  next
    case False
    then show ?thesis using "1.IH" by (subst nat_str.simps) simp
  qed
qed

lemma nat_str_length: "n < 10 ^ k \<Longrightarrow> k > 0 \<Longrightarrow> length (nat_str n) \<le> k"
proof (induction n arbitrary: k rule: nat_str.induct)
  case (1 n)
  show ?case
  proof (cases "n < 10")
    case True
    then show ?thesis using "1.prems" by (subst nat_str.simps) simp
  next
    case False
    then obtain j where k: "k = Suc j" "j > 0" using "1.prems" by (cases k; cases "k - 1") auto
    then have "n div 10 < 10 ^ j" using "1.prems"(1) by (simp add: less_mult_imp_div_less mult.commute)
    then have "length (nat_str (n div 10)) \<le> j" using "1.IH" False k(2) by blast
    then show ?thesis using False k(1) by (subst nat_str.simps) simp
  qed
qed

lemma from_utf8_lossy_ascii: "code c < 128 \<Longrightarrow> from_utf8_lossy (c # s) = c # from_utf8_lossy s"
  by (simp add: utf8_seq_def utf8_width_def)

lemma from_utf8_lossy_all_ascii: "\<forall>c \<in> set s. code c < 128 \<Longrightarrow> from_utf8_lossy s = s"
  by (induction s) (simp_all add: from_utf8_lossy_ascii del: from_utf8_lossy.simps(2))

section \<open>Positions\<close>

lemma map_filter_append: "List.map_filter f (xs @ ys) = List.map_filter f xs @ List.map_filter f ys"
  by (simp add: List.map_filter_def)

text \<open>\<open>Iterator::position\<close>.\<close>

fun position :: "('a \<Rightarrow> bool) \<Rightarrow> 'a list \<Rightarrow> nat option" where
  "position P [] = None"
| "position P (x # xs) = (if P x then Some 0 else map_option Suc (position P xs))"

lemma position_None_iff: "position P xs = None \<longleftrightarrow> (\<forall>x \<in> set xs. \<not> P x)"
  by (induction xs) auto

lemma position_Some_iff:
  "position P xs = Some n \<longleftrightarrow> n < length xs \<and> P (xs ! n) \<and> (\<forall>x \<in> set (take n xs). \<not> P x)"
proof (induction xs arbitrary: n)
  case (Cons x xs)
  then show ?case by (cases n) auto
qed simp

lemma position_split:
  "position P xs = Some n \<Longrightarrow> \<exists>x ys. P x \<and> xs = take n xs @ x # ys \<and> (\<forall>y \<in> set (take n xs). \<not> P y)"
  using id_take_nth_drop [of n xs] unfolding position_Some_iff by blast

lemma position_append_skip:
  "\<forall>x \<in> set xs. \<not> P x \<Longrightarrow> position P (xs @ ys) = map_option ((+) (length xs)) (position P ys)"
  by (induction xs; cases "position P ys") auto

end
