(* ===== verification/Modes.thy ===== *)
theory Modes
  imports Prelude
begin

text \<open>\<open>crates/z-engine-protocol/src/permission.rs\<close>: the permission modes of a session.\<close>

datatype permission_mode = Default | AcceptEdits | Plan | Bypass

fun label :: "permission_mode \<Rightarrow> string" where
  "label Default = ''default''"
| "label AcceptEdits = ''acceptEdits''"
| "label Plan = ''plan''"
| "label Bypass = ''bypass''"

definition mode_parse :: "string \<Rightarrow> permission_mode option" where
  "mode_parse v0 =
     (let v = trim v0 in
      if v \<in> {''default'', ''normal'', ''ask''} then Some Default
      else if v \<in> {''acceptEdits'', ''accept_edits'', ''accept-edits'', ''auto-accept edits''} then Some AcceptEdits
      else if v \<in> {''plan'', ''readOnly'', ''read-only''} then Some Plan
      else if v \<in> {''bypass'', ''bypassPermissions''} then Some Bypass
      else None)"

end
