(* ===== verification/Protocol.thy ===== *)
theory Protocol
  imports Modes "HOL-Library.Word"
begin

text \<open>
  Data of \<open>crates/z-engine-protocol/src\<close> that sessions are made of: messages (\<open>content.rs\<close>), token counts
  (\<open>usage.rs\<close>), turns, compactions and checkpoints (\<open>session.rs\<close>), agents (\<open>agents.rs\<close>), todos and questions
  (\<open>interaction.rs\<close>), checks (\<open>verification.rs\<close>) and task views (\<open>decisions.rs\<close>).

  Identifiers are their text. \<open>u64\<close> and \<open>u32\<close> are words, so sums wrap around as in a release build. The type
  variable \<open>'v\<close> stands for \<open>serde_json::Value\<close> and \<open>'f\<close> for \<open>f64\<close>; nothing is assumed of them.
\<close>

type_synonym u64 = "64 word"
type_synonym u32 = "32 word"

section \<open>Usage (usage.rs)\<close>

record usage =
  input_tokens :: u64
  output_tokens :: u64
  cache_read_tokens :: u64
  cache_write_tokens :: u64
  reasoning_tokens :: u64

definition no_usage :: usage where
  "no_usage = \<lparr>input_tokens = 0, output_tokens = 0, cache_read_tokens = 0, cache_write_tokens = 0, reasoning_tokens = 0\<rparr>"

definition prompt_tokens :: "usage \<Rightarrow> u64" where
  "prompt_tokens u = input_tokens u + cache_read_tokens u + cache_write_tokens u"

definition total_tokens :: "usage \<Rightarrow> u64" where
  "total_tokens u = prompt_tokens u + output_tokens u"

definition usage_is_empty :: "usage \<Rightarrow> bool" where
  "usage_is_empty u \<longleftrightarrow> u = no_usage"

definition usage_add :: "usage \<Rightarrow> usage \<Rightarrow> usage" where
  "usage_add u v =
     \<lparr>input_tokens = input_tokens u + input_tokens v,
      output_tokens = output_tokens u + output_tokens v,
      cache_read_tokens = cache_read_tokens u + cache_read_tokens v,
      cache_write_tokens = cache_write_tokens u + cache_write_tokens v,
      reasoning_tokens = reasoning_tokens u + reasoning_tokens v\<rparr>"

lemma usage_add_assoc: "usage_add (usage_add u v) w = usage_add u (usage_add v w)"
  by (simp add: usage_add_def add.assoc)

lemma usage_add_commute: "usage_add u v = usage_add v u"
  by (simp add: usage_add_def add.commute)

lemma usage_add_no_usage [simp]: "usage_add no_usage u = u" "usage_add u no_usage = u"
  by (simp_all add: usage_add_def no_usage_def)

lemma total_tokens_add: "total_tokens (usage_add u v) = total_tokens u + total_tokens v"
  by (simp add: total_tokens_def prompt_tokens_def usage_add_def)

section \<open>Messages (content.rs)\<close>

datatype role = User | Assistant

datatype media_source = Base64 string string | Url string

datatype tool_result_part = PartText string | PartImage media_source

datatype 'v content_block =
    TextBlock string
  | ImageBlock media_source
  | DocumentBlock media_source "string option"
  | ThinkingBlock string "string option"
  | RedactedThinking string
  | ToolUse string string 'v
  | ToolResult string "tool_result_part list" bool

record 'v message =
  msg_id :: string
  msg_role :: role
  msg_content :: "'v content_block list"
  msg_created_at :: u64

definition tool_result :: "string \<Rightarrow> string \<Rightarrow> bool \<Rightarrow> 'v content_block" where
  "tool_result tool_use_id t is_error = ToolResult tool_use_id [PartText t] is_error"

definition message_text :: "'v message \<Rightarrow> string" where
  "message_text m = foldl (\<lambda>out b. case b of
     TextBlock t \<Rightarrow> (if out \<noteq> [] then out @ [NL] else out) @ t
   | _ \<Rightarrow> out) [] (msg_content m)"

definition tool_uses :: "'v message \<Rightarrow> (string \<times> string \<times> 'v) list" where
  "tool_uses m = List.map_filter (\<lambda>b. case b of ToolUse i n v \<Rightarrow> Some (i, n, v) | _ \<Rightarrow> None) (msg_content m)"

definition has_tool_use :: "'v message \<Rightarrow> bool" where
  "has_tool_use m \<longleftrightarrow> tool_uses m \<noteq> []"

definition is_tool_results :: "'v message \<Rightarrow> bool" where
  "is_tool_results m \<longleftrightarrow>
     msg_content m \<noteq> [] \<and> (\<forall>b \<in> set (msg_content m). case b of ToolResult _ _ _ \<Rightarrow> True | _ \<Rightarrow> False)"

section \<open>Agents (agents.rs)\<close>

datatype isolation = Shared | Worktree

datatype agent_status = AgentRunning | AgentWaiting | AgentCompleted | AgentFailed | AgentCancelled

definition is_terminal :: "agent_status \<Rightarrow> bool" where
  "is_terminal s \<longleftrightarrow> s \<in> {AgentCompleted, AgentFailed, AgentCancelled}"

datatype worktree_state = WtPending | WtApplied | WtDiscarded | WtConflicted | WtEmpty

record worktree_info =
  wt_path :: string
  wt_branch :: string
  wt_base :: string
  wt_state :: worktree_state
  wt_files_changed :: u32
  wt_diffstat :: string

record 'f agent_info =
  ai_agent_id :: string
  ai_parent_id :: "string option"
  ai_call_id :: "string option"
  ai_agent_type :: string
  ai_description :: string
  ai_model :: string
  ai_background :: bool
  ai_isolation :: isolation
  ai_worktree :: "worktree_info option"
  ai_status :: agent_status
  ai_depth :: u32
  ai_started_at :: u64
  ai_finished_at :: "u64 option"
  ai_usage :: usage
  ai_cost_usd :: 'f
  ai_tool_calls :: u32
  ai_result_preview :: "string option"
  ai_error :: "string option"

section \<open>Todos and questions (interaction.rs)\<close>

datatype todo_status = TodoPending | TodoInProgress | TodoCompleted

record todo_item =
  td_content :: string
  td_active_form :: string
  td_status :: todo_status

record question_option =
  qo_label :: string
  qo_description :: "string option"

record question =
  q_question :: string
  q_header :: string
  q_options :: "question_option list"
  q_multi_select :: bool

record question_answer =
  qa_question :: string
  qa_answers :: "string list"

section \<open>Checks (verification.rs)\<close>

datatype check_kind = Test | Build | Lint | Typecheck | Format | Custom

definition check_kind_parse :: "string \<Rightarrow> check_kind option" where
  "check_kind_parse v =
     (let s = to_ascii_lowercase (trim v) in
      if s \<in> {''test'', ''tests''} then Some Test
      else if s \<in> {''build'', ''compile''} then Some Build
      else if s = ''lint'' then Some Lint
      else if s \<in> {''typecheck'', ''types'', ''check''} then Some Typecheck
      else if s \<in> {''format'', ''fmt''} then Some Format
      else if s = ''custom'' then Some Custom
      else None)"

fun check_kind_label :: "check_kind \<Rightarrow> string" where
  "check_kind_label Test = ''test''"
| "check_kind_label Build = ''build''"
| "check_kind_label Lint = ''lint''"
| "check_kind_label Typecheck = ''typecheck''"
| "check_kind_label Format = ''format''"
| "check_kind_label Custom = ''custom''"

record test_counts =
  tc_passed :: u32
  tc_failed :: u32
  tc_skipped :: u32

record check_record =
  cr_record_id :: string
  cr_check_id :: string
  cr_label :: string
  cr_kind :: check_kind
  cr_command :: string
  cr_cwd :: string
  cr_agent_id :: string
  cr_exit_code :: "int option"
  cr_passed :: bool
  cr_timed_out :: bool
  cr_started_at :: u64
  cr_duration_ms :: u64
  cr_tests :: "test_counts option"
  cr_artifact :: "string option"
  cr_fingerprint_before :: string
  cr_fingerprint_after :: string
  cr_output_tail :: string

datatype verification_outcome =
    NotApplicable
  | Unverified string
  | Verified "string list"
  | VerificationFailed string

fun outcome_label :: "verification_outcome \<Rightarrow> string" where
  "outcome_label NotApplicable = ''not applicable''"
| "outcome_label (Unverified _) = ''unverified''"
| "outcome_label (Verified _) = ''verified''"
| "outcome_label (VerificationFailed _) = ''failed''"

section \<open>Turns, compactions, checkpoints and task views (session.rs, decisions.rs)\<close>

datatype effort = Low | Medium | High | MaxEffort

definition effort_parse :: "string \<Rightarrow> effort option" where
  "effort_parse v =
     (let s = trim v in
      if s \<in> {''low'', ''minimal''} then Some Low
      else if s = ''medium'' then Some Medium
      else if s = ''high'' then Some High
      else if s \<in> {''max'', ''xhigh''} then Some MaxEffort
      else None)"

fun effort_label :: "effort \<Rightarrow> string" where
  "effort_label Low = ''low''"
| "effort_label Medium = ''medium''"
| "effort_label High = ''high''"
| "effort_label MaxEffort = ''max''"

datatype turn_outcome =
    TurnCompleted
  | TurnCancelled
  | TurnFailed string
  | BudgetExhausted string
  | Interrupted

record 'f turn_record =
  tr_turn_id :: string
  tr_message_id :: string
  tr_outcome :: turn_outcome
  tr_verification :: verification_outcome
  tr_usage :: usage
  tr_cost_usd :: 'f
  tr_started_at :: u64
  tr_finished_at :: u64

record compaction_marker =
  cm_keep_from :: "string option"
  cm_summary :: string
  cm_tokens_before :: u64
  cm_tokens_after :: u64
  cm_created_at :: u64

record checkpoint_info =
  cp_checkpoint_id :: string
  cp_message_id :: string
  cp_created_at :: u64

record task_view_info =
  tv_boundary :: string
  tv_set_aside :: u32
  tv_tokens :: u64
  tv_restored :: bool
  tv_created_at :: u64

text \<open>Labels are read back.\<close>

lemma labels_printable: "\<forall>c \<in> set (effort_label e). printable c" "\<forall>c \<in> set (check_kind_label k). printable c"
  by (cases e; simp add: printable_def) (cases k; simp add: printable_def)

lemma effort_label_parse: "effort_parse (effort_label e) = Some e"
proof -
  have "trim (effort_label e) = effort_label e" by (intro all_printable_trim labels_printable)
  then show ?thesis by (cases e) (simp_all add: effort_parse_def)
qed

lemma check_kind_label_parse: "check_kind_parse (check_kind_label k) = Some k"
proof -
  have "trim (check_kind_label k) = check_kind_label k" by (intro all_printable_trim labels_printable)
  moreover have "to_ascii_lowercase (check_kind_label k) = check_kind_label k"
    by (cases k) (simp_all add: to_ascii_lowercase_def to_ascii_lower_def is_ascii_uppercase_def)
  ultimately show ?thesis by (cases k) (simp_all add: check_kind_parse_def)
qed

end
