(* ===== verification/Replay.thy ===== *)
theory Replay
  imports Protocol
begin

text \<open>
  \<open>crates/z-engine-store/src/record.rs\<close>, \<open>replay.rs\<close>, \<open>meta.rs\<close> and \<open>heal.rs\<close>: the records of a session log, the
  state that replaying them gives, and the summary kept beside the log.

  \<open>ReplayState::apply\<close> never touches the totals, so replaying is a fold over the records that conversation
  rewinds left (\<open>effective_records\<close>) followed by a fold of all records into the totals.
\<close>

section \<open>Records (record.rs)\<close>

definition SESSION_SCHEMA :: u32 where "SESSION_SCHEMA = 2"

datatype ('v, 'f) log_record =
    SessionStarted u32 string string string permission_mode u64
  | MessageRec "'v message" "string option"
  | TurnStarted string string u64
  | TurnFinished "'f turn_record"
  | Todos string "todo_item list"
  | PlanProposed string string string
  | PlanResolved string bool "string option" "string option"
  | QuestionAsked string string "question list"
  | QuestionAnswered string "question_answer list option"
  | Approval string string string bool "string option"
  | AgentUpdated "'f agent_info"
  | Check check_record
  | Checkpoint checkpoint_info string
  | Compacted compaction_marker "'v message"
  | Rewound string bool bool
  | ModeChanged permission_mode
  | ModelChanged string
  | EffortChanged "effort option"
  | Title string
  | UsageRec string usage 'f
  | Note string
  | TaskView task_view_info "string list" "'v message option"

section \<open>Replay (replay.rs)\<close>

record ('v, 'f) replay_state =
  rs_info :: "(string \<times> string \<times> u64) option"
  rs_transcript :: "'v message list"
  rs_working :: "'v message list"
  rs_compactions :: "compaction_marker list"
  rs_turns :: "'f turn_record list"
  rs_todos :: "string \<rightharpoonup> todo_item list"
  rs_agents :: "'f agent_info list"
  rs_checks :: "check_record list"
  rs_checkpoints :: "(checkpoint_info \<times> string) list"
  rs_mode :: permission_mode
  rs_model :: "string option"
  rs_effort :: "effort option"
  rs_title :: "string option"
  rs_usage :: usage
  rs_cost_usd :: 'f
  rs_open_turn :: "(string \<times> string) option"
  rs_pending_plans :: "(string \<times> string \<times> string) list"
  rs_pending_questions :: "(string \<times> string \<times> question list) list"
  rs_full_working :: "'v message list option"
  rs_task_views :: "task_view_info list"

definition default_state :: "('v, 'f::zero) replay_state" where
  "default_state = \<lparr>rs_info = None, rs_transcript = [], rs_working = [], rs_compactions = [], rs_turns = [],
     rs_todos = Map.empty, rs_agents = [], rs_checks = [], rs_checkpoints = [], rs_mode = Default, rs_model = None,
     rs_effort = None, rs_title = None, rs_usage = no_usage, rs_cost_usd = 0, rs_open_turn = None,
     rs_pending_plans = [], rs_pending_questions = [], rs_full_working = None, rs_task_views = []\<rparr>"

text \<open>\<open>Vec::retain\<close> of the other keys, then \<open>push\<close>.\<close>

definition retain_others :: "string \<Rightarrow> (string \<times> 'a) list \<Rightarrow> (string \<times> 'a) list" where
  "retain_others k xs = filter (\<lambda>(i, _). i \<noteq> k) xs"

definition finish_turn :: "'f turn_record \<Rightarrow> ('v, 'f) replay_state \<Rightarrow> ('v, 'f) replay_state" where
  "finish_turn t s =
     s\<lparr>rs_open_turn := (case rs_open_turn s of
          Some (i, m) \<Rightarrow> if i = tr_turn_id t then None else Some (i, m)
        | None \<Rightarrow> None),
       rs_turns := rs_turns s @ [t]\<rparr>"

fun replace_agent :: "'f agent_info \<Rightarrow> 'f agent_info list \<Rightarrow> 'f agent_info list" where
  "replace_agent a [] = [a]"
| "replace_agent a (b # bs) = (if ai_agent_id b = ai_agent_id a then a # bs else b # replace_agent a bs)"

definition update_agent :: "'f agent_info \<Rightarrow> ('v, 'f) replay_state \<Rightarrow> ('v, 'f) replay_state" where
  "update_agent a s = s\<lparr>rs_agents := replace_agent a (rs_agents s)\<rparr>"

definition compact :: "compaction_marker \<Rightarrow> 'v message \<Rightarrow> ('v, 'f) replay_state \<Rightarrow> ('v, 'f) replay_state" where
  "compact marker summary s =
     (let kept = (case Option.bind (cm_keep_from marker) (\<lambda>i. position (\<lambda>m. msg_id m = i) (rs_working s)) of
        Some start \<Rightarrow> drop start (rs_working s)
      | None \<Rightarrow> [])
      in s\<lparr>rs_working := summary # kept, rs_compactions := rs_compactions s @ [marker], rs_full_working := None\<rparr>)"

definition task_view ::
  "task_view_info \<Rightarrow> string list \<Rightarrow> 'v message option \<Rightarrow> ('v, 'f) replay_state \<Rightarrow> ('v, 'f) replay_state" where
  "task_view view kept index s0 =
     (let s = s0\<lparr>rs_task_views := filter (\<lambda>seen. tv_boundary seen \<noteq> tv_boundary view) (rs_task_views s0) @ [view]\<rparr> in
      if tv_restored view then
        (case rs_full_working s of Some f \<Rightarrow> s\<lparr>rs_full_working := None, rs_working := f\<rparr> | None \<Rightarrow> s)
      else
        (let full = (case rs_full_working s of Some f \<Rightarrow> f | None \<Rightarrow> rs_working s);
             by_id = map_of (rev (map (\<lambda>m. (msg_id m, m)) (full @ (case index of Some m \<Rightarrow> [m] | None \<Rightarrow> []))))
         in s\<lparr>rs_working := List.map_filter by_id kept, rs_full_working := Some full\<rparr>))"

fun apply_record :: "('v, 'f) replay_state \<Rightarrow> ('v, 'f) log_record \<Rightarrow> ('v, 'f) replay_state" where
  "apply_record s (SessionStarted schema session_id project_root model mode created_at) =
     (if rs_info s = None
      then s\<lparr>rs_info := Some (session_id, project_root, created_at), rs_mode := mode, rs_model := Some model\<rparr> else s)"
| "apply_record s (MessageRec m _) =
     s\<lparr>rs_transcript := rs_transcript s @ [m], rs_working := rs_working s @ [m],
       rs_full_working := map_option (\<lambda>f. f @ [m]) (rs_full_working s)\<rparr>"
| "apply_record s (TurnStarted turn_id message_id _) = s\<lparr>rs_open_turn := Some (turn_id, message_id)\<rparr>"
| "apply_record s (TurnFinished t) = finish_turn t s"
| "apply_record s (Todos agent_id todos) = s\<lparr>rs_todos := (rs_todos s)(agent_id \<mapsto> todos)\<rparr>"
| "apply_record s (PlanProposed i agent_id plan) =
     s\<lparr>rs_pending_plans := retain_others i (rs_pending_plans s) @ [(i, agent_id, plan)]\<rparr>"
| "apply_record s (PlanResolved i _ _ _) = s\<lparr>rs_pending_plans := retain_others i (rs_pending_plans s)\<rparr>"
| "apply_record s (QuestionAsked i agent_id questions) =
     s\<lparr>rs_pending_questions := retain_others i (rs_pending_questions s) @ [(i, agent_id, questions)]\<rparr>"
| "apply_record s (QuestionAnswered i _) = s\<lparr>rs_pending_questions := retain_others i (rs_pending_questions s)\<rparr>"
| "apply_record s (AgentUpdated info) = update_agent info s"
| "apply_record s (Check r) = s\<lparr>rs_checks := rs_checks s @ [r]\<rparr>"
| "apply_record s (Checkpoint info snapshot) = s\<lparr>rs_checkpoints := rs_checkpoints s @ [(info, snapshot)]\<rparr>"
| "apply_record s (Compacted marker summary) = compact marker summary s"
| "apply_record s (ModeChanged mode) = s\<lparr>rs_mode := mode\<rparr>"
| "apply_record s (ModelChanged model) = s\<lparr>rs_model := Some model\<rparr>"
| "apply_record s (EffortChanged effort) = s\<lparr>rs_effort := effort\<rparr>"
| "apply_record s (Title t) = s\<lparr>rs_title := if trim t \<noteq> [] then Some (trim t) else None\<rparr>"
| "apply_record s (TaskView view kept index) = task_view view kept index s"
| "apply_record s (Approval _ _ _ _ _) = s"
| "apply_record s (Rewound _ _ _) = s"
| "apply_record s (Note _) = s"
| "apply_record s (UsageRec _ _ _) = s"

fun is_message :: "string \<Rightarrow> ('v, 'f) log_record \<Rightarrow> bool" where
  "is_message i (MessageRec m _) = (msg_id m = i)"
| "is_message i _ = False"

definition push_effective :: "('v, 'f) log_record list \<Rightarrow> ('v, 'f) log_record \<Rightarrow> ('v, 'f) log_record list" where
  "push_effective effective r =
     (case r of
        Rewound i True _ \<Rightarrow> (case position (is_message i) effective of Some n \<Rightarrow> take n effective | None \<Rightarrow> effective)
      | _ \<Rightarrow> effective) @ [r]"

definition effective_records :: "('v, 'f) log_record list \<Rightarrow> ('v, 'f) log_record list" where
  "effective_records records = foldl push_effective [] records"

fun add_totals :: "('v, 'f::{zero,plus}) replay_state \<Rightarrow> ('v, 'f) log_record \<Rightarrow> ('v, 'f) replay_state" where
  "add_totals s (TurnFinished t) =
     s\<lparr>rs_usage := usage_add (rs_usage s) (tr_usage t), rs_cost_usd := rs_cost_usd s + tr_cost_usd t\<rparr>"
| "add_totals s (UsageRec _ u c) = s\<lparr>rs_usage := usage_add (rs_usage s) u, rs_cost_usd := rs_cost_usd s + c\<rparr>"
| "add_totals s _ = s"

definition replay :: "('v, 'f::{zero,plus}) log_record list \<Rightarrow> ('v, 'f) replay_state" where
  "replay records = foldl add_totals (foldl apply_record default_state (effective_records records)) records"

section \<open>Summaries (meta.rs, heal.rs)\<close>

record 'f session_meta =
  sm_schema :: u32
  sm_session_id :: string
  sm_title :: "string option"
  sm_project_root :: string
  sm_model :: string
  sm_created_at :: u64
  sm_updated_at :: u64
  sm_message_count :: u32
  sm_cost_usd :: 'f
  sm_last_outcome :: "turn_outcome option"
  sm_legacy :: bool

text \<open>\<open>id_timestamp_ms\<close>, the time inside a ULID, is an argument.\<close>

definition from_state ::
  "(string \<Rightarrow> u64 option) \<Rightarrow> string \<Rightarrow> ('v, 'f) replay_state \<Rightarrow> u64 \<Rightarrow> bool \<Rightarrow> 'f session_meta" where
  "from_state id_timestamp_ms i s updated_at legacy =
     (let (project_root, created_at) = (case rs_info s of
            Some (_, root, created) \<Rightarrow> (root, created)
          | None \<Rightarrow> ([], case id_timestamp_ms i of Some t \<Rightarrow> t | None \<Rightarrow> updated_at));
          last_outcome = (if rs_open_turn s \<noteq> None then Some Interrupted
            else if rs_turns s = [] then None else Some (tr_outcome (last (rs_turns s))))
      in \<lparr>sm_schema = SESSION_SCHEMA, sm_session_id = i, sm_title = rs_title s, sm_project_root = project_root,
          sm_model = (case rs_model s of Some m \<Rightarrow> m | None \<Rightarrow> []), sm_created_at = created_at,
          sm_updated_at = max updated_at created_at,
          sm_message_count = (if length (rs_transcript s) < 2 ^ 32 then of_nat (length (rs_transcript s)) else - 1),
          sm_cost_usd = rs_cost_usd s, sm_last_outcome = last_outcome, sm_legacy = legacy\<rparr>)"

definition latest_activity :: "('v, 'f) replay_state \<Rightarrow> u64 option" where
  "latest_activity s =
     (case map msg_created_at (rs_transcript s) @ map tr_finished_at (rs_turns s) @
          (case rs_info s of Some (_, _, t) \<Rightarrow> [t] | None \<Rightarrow> []) of
        [] \<Rightarrow> None
      | t # ts \<Rightarrow> Some (foldl max t ts))"

text \<open>\<open>rebuild_meta\<close>, with the log's modification time and whether a v1 file lies beside it as arguments.\<close>

definition rebuild_meta ::
  "(string \<Rightarrow> u64 option) \<Rightarrow> u64 option \<Rightarrow> bool \<Rightarrow> string \<Rightarrow> ('v, 'f) replay_state \<Rightarrow> 'f session_meta" where
  "rebuild_meta id_timestamp_ms modified_ms v1_file i s =
     (let updated_at = (case latest_activity s of Some t \<Rightarrow> t | None \<Rightarrow> (case modified_ms of Some t \<Rightarrow> t | None \<Rightarrow> 0))
      in from_state id_timestamp_ms i s updated_at v1_file)"

section \<open>Replaying in steps\<close>

abbreviation replay_kept :: "('v, 'f::{zero,plus}) log_record list \<Rightarrow> ('v, 'f) replay_state" where
  "replay_kept records \<equiv> foldl apply_record default_state (effective_records records)"

abbreviation spent :: "('v, 'f) log_record list \<Rightarrow> (usage \<times> 'f) list" where
  "spent records \<equiv> List.map_filter (\<lambda>r. case r of
     TurnFinished t \<Rightarrow> Some (tr_usage t, tr_cost_usd t) | UsageRec _ u c \<Rightarrow> Some (u, c) | _ \<Rightarrow> None) records"

lemma add_totals_only:
  "foldl add_totals s rs = s\<lparr>rs_usage := foldl usage_add (rs_usage s) (map fst (spent rs)),
     rs_cost_usd := foldl (+) (rs_cost_usd s) (map snd (spent rs))\<rparr>"
proof (induction rs arbitrary: s)
  case (Cons r rs)
  then show ?case by (cases r) (simp_all add: List.map_filter_simps)
qed (simp add: List.map_filter_simps)

lemma apply_keeps_totals [simp]:
  "rs_usage (apply_record s r) = rs_usage s" "rs_cost_usd (apply_record s r) = rs_cost_usd s"
  by (cases r; auto simp: finish_turn_def update_agent_def compact_def task_view_def Let_def split: option.split)+

lemma fold_apply_keeps_totals [simp]:
  "rs_usage (foldl apply_record s rs) = rs_usage s" "rs_cost_usd (foldl apply_record s rs) = rs_cost_usd s"
  by (induction rs arbitrary: s) simp_all

lemma replay_split:
  "replay rs = (replay_kept rs)\<lparr>rs_usage := foldl usage_add no_usage (map fst (spent rs)),
     rs_cost_usd := foldl (+) 0 (map snd (spent rs))\<rparr>"
  by (simp add: replay_def add_totals_only default_state_def)

lemma foldl_usage_add: "foldl usage_add u us = usage_add u (foldl usage_add no_usage us)"
proof (induction us arbitrary: u)
  case (Cons v us)
  show ?case using Cons.IH [of "usage_add u v"] Cons.IH [of v] by (simp add: usage_add_assoc)
qed simp

section \<open>Rewinds\<close>

lemma effective_Nil [simp]: "effective_records [] = []"
  by (simp add: effective_records_def)

lemma effective_snoc: "effective_records (rs @ [r]) = push_effective (effective_records rs) r"
  by (simp add: effective_records_def)

lemma effective_append: "effective_records (rs @ rs') = foldl push_effective (effective_records rs) rs'"
  by (simp add: effective_records_def)

fun rewinds_to :: "('v, 'f) log_record \<Rightarrow> string option" where
  "rewinds_to (Rewound i True _) = Some i"
| "rewinds_to _ = None"

lemma push_effective_other: "rewinds_to r = None \<Longrightarrow> push_effective eff r = eff @ [r]"
  by (cases r) (auto simp: push_effective_def split: bool.splits)

lemma push_effective_rewind:
  "rewinds_to r = Some i \<Longrightarrow> push_effective eff r =
     (case position (is_message i) eff of Some n \<Rightarrow> take n eff | None \<Rightarrow> eff) @ [r]"
  by (cases r) (auto simp: push_effective_def split: bool.splits)

text \<open>Records after a kept prefix stay behind it as long as no rewind reaches into the prefix.\<close>

lemma effective_behind_prefix:
  assumes "\<forall>r \<in> set rs. \<forall>i. rewinds_to r = Some i \<longrightarrow> (\<forall>k \<in> set pre. \<not> is_message i k)"
  shows "\<exists>kept. foldl push_effective (pre @ post) rs = pre @ kept"
  using assms
proof (induction rs arbitrary: post)
  case (Cons r rs)
  have "\<exists>kept. push_effective (pre @ post) r = pre @ kept"
  proof (cases "rewinds_to r")
    case (Some i)
    then have "position (is_message i) (pre @ post) = map_option ((+) (length pre)) (position (is_message i) post)"
      using Cons.prems by (intro position_append_skip) simp
    then show ?thesis using Some by (cases "position (is_message i) post") (auto simp: push_effective_rewind)
  qed (simp add: push_effective_other)
  then obtain kept where "push_effective (pre @ post) r = pre @ kept" by blast
  then show ?case using Cons by simp
qed simp

lemma effective_rewind:
  assumes "\<forall>k \<in> set (effective_records pre). \<not> is_message (msg_id m) k"
    "\<forall>r \<in> set mid. \<forall>i. rewinds_to r = Some i \<longrightarrow>
       i \<noteq> msg_id m \<and> (\<forall>k \<in> set (effective_records pre). \<not> is_message i k)"
  shows "effective_records (pre @ MessageRec m t # mid @ [Rewound (msg_id m) True b]) =
    effective_records pre @ [Rewound (msg_id m) True b]"
proof -
  let ?pre = "effective_records pre" and ?m = "MessageRec m t :: ('a, 'b) log_record"
  have "\<exists>kept. foldl push_effective ((?pre @ [?m]) @ []) mid = (?pre @ [?m]) @ kept"
    using assms(2) by (intro effective_behind_prefix) auto
  then obtain kept where kept: "effective_records (pre @ ?m # mid) = ?pre @ ?m # kept"
    using effective_append [of pre "?m # mid"] by (auto simp: push_effective_other)
  have "position (is_message (msg_id m)) (?pre @ ?m # kept) = Some (length ?pre)"
    using assms(1) by (simp add: position_append_skip)
  then show ?thesis using effective_snoc [of "pre @ ?m # mid" "Rewound (msg_id m) True b"]
    by (simp add: kept push_effective_rewind)
qed

text \<open>Kept records hold no rewind whose target is still before it.\<close>

definition settled :: "('v, 'f) log_record list \<Rightarrow> bool" where
  "settled eff \<longleftrightarrow> (\<forall>pre r post i. eff = pre @ r # post \<and> rewinds_to r = Some i \<longrightarrow> (\<forall>k \<in> set pre. \<not> is_message i k))"

lemma settled_Nil: "settled []"
  by (simp add: settled_def)

lemma settled_snoc:
  "settled (eff @ [r]) \<longleftrightarrow> settled eff \<and> (\<forall>i. rewinds_to r = Some i \<longrightarrow> (\<forall>k \<in> set eff. \<not> is_message i k))"
proof
  assume a: "settled (eff @ [r])"
  have "settled eff" unfolding settled_def
  proof (intro allI impI, elim conjE)
    fix pre x post i
    assume "eff = pre @ x # post" "rewinds_to x = Some i"
    then show "\<forall>k \<in> set pre. \<not> is_message i k" using a [unfolded settled_def, rule_format, of pre x "post @ [r]" i] by simp
  qed
  then show "settled eff \<and> (\<forall>i. rewinds_to r = Some i \<longrightarrow> (\<forall>k \<in> set eff. \<not> is_message i k))"
    using a [unfolded settled_def, rule_format, of eff r "[]"] by blast
next
  assume a: "settled eff \<and> (\<forall>i. rewinds_to r = Some i \<longrightarrow> (\<forall>k \<in> set eff. \<not> is_message i k))"
  show "settled (eff @ [r])" unfolding settled_def
  proof (intro allI impI, elim conjE)
    fix pre x post i
    assume x: "eff @ [r] = pre @ x # post" "rewinds_to x = Some i"
    show "\<forall>k \<in> set pre. \<not> is_message i k"
    proof (cases post rule: rev_cases)
      case Nil
      then show ?thesis using x a by simp
    next
      case (snoc post' y)
      then have "eff = pre @ x # post'" using x(1) by simp
      then show ?thesis using x(2) a unfolding settled_def by blast
    qed
  qed
qed

lemma settled_take: "settled eff \<Longrightarrow> settled (take n eff)"
proof -
  assume a: "settled eff"
  { fix pre r post
    assume "take n eff = pre @ r # post"
    then have "eff = pre @ r # (post @ drop n eff)" using append_take_drop_id [of n eff] by simp }
  then show ?thesis using a unfolding settled_def by blast
qed

lemma settled_effective: "settled (effective_records rs)"
proof (induction rs rule: rev_induct)
  case Nil
  then show ?case by (simp add: settled_Nil)
next
  case (snoc r rs)
  show ?case
  proof (cases "rewinds_to r")
    case None
    then show ?thesis using snoc by (simp add: effective_snoc push_effective_other settled_snoc)
  next
    case (Some i)
    then show ?thesis using snoc settled_take position_split [of "is_message i" "effective_records rs"]
      by (auto simp: effective_snoc push_effective_rewind settled_snoc position_None_iff split: option.split)
  qed
qed

lemma effective_settled: "settled eff \<Longrightarrow> effective_records eff = eff"
proof (induction eff rule: rev_induct)
  case (snoc r eff)
  then show ?case
    by (cases "rewinds_to r")
      (auto simp: settled_snoc effective_snoc push_effective_other push_effective_rewind
         position_None_iff [THEN iffD2] split: option.split dest: position_None_iff [THEN iffD2])
qed simp

lemma effective_idempotent: "effective_records (effective_records rs) = effective_records rs"
  by (rule effective_settled [OF settled_effective])

section \<open>What the state says of the records\<close>

lemmas apply_defs = finish_turn_def update_agent_def compact_def task_view_def Let_def

text \<open>Lists that a record extends and none shortens.\<close>

lemma fold_transcript:
  "rs_transcript (foldl apply_record s rs) =
     rs_transcript s @ List.map_filter (\<lambda>r. case r of MessageRec m _ \<Rightarrow> Some m | _ \<Rightarrow> None) rs"
proof (induction rs arbitrary: s)
  case (Cons r rs)
  then show ?case by (cases r) (auto simp: List.map_filter_simps apply_defs split: option.split)
qed (simp add: List.map_filter_simps)

lemma fold_turns:
  "rs_turns (foldl apply_record s rs) =
     rs_turns s @ List.map_filter (\<lambda>r. case r of TurnFinished t \<Rightarrow> Some t | _ \<Rightarrow> None) rs"
proof (induction rs arbitrary: s)
  case (Cons r rs)
  then show ?case by (cases r) (auto simp: List.map_filter_simps apply_defs split: option.split)
qed (simp add: List.map_filter_simps)

text \<open>Something that happened and was not undone since.\<close>

definition since :: "('a \<Rightarrow> bool) \<Rightarrow> ('a \<Rightarrow> bool) \<Rightarrow> 'a list \<Rightarrow> bool" where
  "since P Q xs \<longleftrightarrow> (\<exists>pre x post. xs = pre @ x # post \<and> P x \<and> (\<forall>y \<in> set post. \<not> Q y))"

lemma since_cong: "(\<And>x. P x = P' x) \<Longrightarrow> (\<And>x. Q x = Q' x) \<Longrightarrow> xs = ys \<Longrightarrow> since P Q xs = since P' Q' ys"
  by (simp add: since_def)

lemma since_Nil [simp]: "\<not> since P Q []"
  by (simp add: since_def)

lemma since_snoc: "since P Q (xs @ [x]) \<longleftrightarrow> P x \<or> since P Q xs \<and> \<not> Q x" (is "?l \<longleftrightarrow> ?r")
proof
  assume ?l
  then obtain pre y post where y: "xs @ [x] = pre @ y # post" "P y" "\<forall>z \<in> set post. \<not> Q z" by (auto simp: since_def)
  then show ?r by (cases post rule: rev_cases) (auto simp: since_def)
next
  assume ?r
  then show ?l
  proof
    assume "since P Q xs \<and> \<not> Q x"
    then obtain pre y post where "xs = pre @ y # post" "P y" "\<forall>z \<in> set (post @ [x]). \<not> Q z" by (auto simp: since_def)
    then show ?l unfolding since_def by (metis append.assoc append_Cons)
  qed (fastforce simp: since_def)
qed

text \<open>
  Requests that one record opens and another closes: plans with \<open>PlanProposed\<close> and \<open>PlanResolved\<close>, questions
  with \<open>QuestionAsked\<close> and \<open>QuestionAnswered\<close>.
\<close>

locale pending_requests =
  fixes opens :: "'r \<Rightarrow> (string \<times> 'p) option" and closes :: "'r \<Rightarrow> string option"
    and pending :: "'s \<Rightarrow> (string \<times> 'p) list" and step :: "'s \<Rightarrow> 'r \<Rightarrow> 's"
  assumes step_opens: "opens r = Some (k, p) \<Longrightarrow> pending (step s r) = retain_others k (pending s) @ [(k, p)]"
    and step_closes: "opens r = None \<Longrightarrow> closes r = Some k \<Longrightarrow> pending (step s r) = retain_others k (pending s)"
    and step_other: "opens r = None \<Longrightarrow> closes r = None \<Longrightarrow> pending (step s r) = pending s"
begin

abbreviation concerns :: "string \<Rightarrow> 'r \<Rightarrow> bool" where
  "concerns k r \<equiv> (case opens r of Some (i, _) \<Rightarrow> i = k | None \<Rightarrow> closes r = Some k)"

lemma step_set:
  "(k, p) \<in> set (pending (step s r)) \<longleftrightarrow> opens r = Some (k, p) \<or> (k, p) \<in> set (pending s) \<and> \<not> concerns k r"
proof (cases "opens r")
  case None
  then show ?thesis by (cases "closes r") (auto simp: step_closes step_other retain_others_def)
qed (auto simp: step_opens retain_others_def)

lemma step_distinct: "distinct (map fst (pending s)) \<Longrightarrow> distinct (map fst (pending (step s r)))"
proof -
  assume "distinct (map fst (pending s))"
  then have d: "distinct (map fst (retain_others k (pending s)))" "k \<notin> fst ` set (retain_others k (pending s))" for k
    by (auto simp: retain_others_def distinct_map_filter)
  show ?thesis
  proof (cases "opens r")
    case None
    then show ?thesis using d \<open>distinct (map fst (pending s))\<close> by (cases "closes r") (simp_all add: step_closes step_other)
  next
    case (Some kp)
    then show ?thesis using d by (cases kp) (simp add: step_opens)
  qed
qed

lemma pending_distinct: "distinct (map fst (pending s)) \<Longrightarrow> distinct (map fst (pending (foldl step s rs)))"
  by (induction rs arbitrary: s) (simp_all add: step_distinct)

text \<open>A request is pending exactly when the last record that concerns it opened it.\<close>

lemma pending_iff:
  assumes "pending s = []"
  shows "(k, p) \<in> set (pending (foldl step s rs)) \<longleftrightarrow> since (\<lambda>r. opens r = Some (k, p)) (concerns k) rs"
proof (induction rs rule: rev_induct)
  case (snoc r rs)
  then show ?case using step_set [of k p "foldl step s rs" r] by (simp add: since_snoc)
qed (use assms in simp)

end

fun proposed_plan :: "('v, 'f) log_record \<Rightarrow> (string \<times> string \<times> string) option" where
  "proposed_plan (PlanProposed i a p) = Some (i, a, p)"
| "proposed_plan _ = None"

fun resolved_plan :: "('v, 'f) log_record \<Rightarrow> string option" where
  "resolved_plan (PlanResolved i _ _ _) = Some i"
| "resolved_plan _ = None"

fun asked_question :: "('v, 'f) log_record \<Rightarrow> (string \<times> string \<times> question list) option" where
  "asked_question (QuestionAsked i a qs) = Some (i, a, qs)"
| "asked_question _ = None"

fun answered_question :: "('v, 'f) log_record \<Rightarrow> string option" where
  "answered_question (QuestionAnswered i _) = Some i"
| "answered_question _ = None"

interpretation plans: pending_requests proposed_plan resolved_plan rs_pending_plans apply_record
proof
  fix r :: "('v, 'f) log_record" and s :: "('v, 'f) replay_state" and k p
  show "proposed_plan r = Some (k, p) \<Longrightarrow> rs_pending_plans (apply_record s r) = retain_others k (rs_pending_plans s) @ [(k, p)]"
    by (cases r) auto
  show "proposed_plan r = None \<Longrightarrow> resolved_plan r = Some k \<Longrightarrow> rs_pending_plans (apply_record s r) = retain_others k (rs_pending_plans s)"
    by (cases r) auto
  show "proposed_plan r = None \<Longrightarrow> resolved_plan r = None \<Longrightarrow> rs_pending_plans (apply_record s r) = rs_pending_plans s"
    by (cases r) (auto simp: apply_defs split: option.split)
qed

interpretation questions: pending_requests asked_question answered_question rs_pending_questions apply_record
proof
  fix r :: "('v, 'f) log_record" and s :: "('v, 'f) replay_state" and k p
  show "asked_question r = Some (k, p) \<Longrightarrow> rs_pending_questions (apply_record s r) = retain_others k (rs_pending_questions s) @ [(k, p)]"
    by (cases r) auto
  show "asked_question r = None \<Longrightarrow> answered_question r = Some k \<Longrightarrow> rs_pending_questions (apply_record s r) = retain_others k (rs_pending_questions s)"
    by (cases r) auto
  show "asked_question r = None \<Longrightarrow> answered_question r = None \<Longrightarrow> rs_pending_questions (apply_record s r) = rs_pending_questions s"
    by (cases r) (auto simp: apply_defs split: option.split)
qed

text \<open>Agents keep their place and show their latest state.\<close>

lemma replace_agent_ids:
  "map ai_agent_id (replace_agent a as) =
     (if ai_agent_id a \<in> ai_agent_id ` set as then map ai_agent_id as else map ai_agent_id as @ [ai_agent_id a])"
  by (induction as) auto

lemma replace_agent_set:
  "distinct (map ai_agent_id as) \<Longrightarrow> set (replace_agent a as) = insert a {b \<in> set as. ai_agent_id b \<noteq> ai_agent_id a}"
  by (induction as) (auto simp: image_iff)

fun updated_agent :: "('v, 'f) log_record \<Rightarrow> 'f agent_info option" where
  "updated_agent (AgentUpdated a) = Some a"
| "updated_agent _ = None"

lemma apply_agents:
  "rs_agents (apply_record s r) = (case updated_agent r of Some a \<Rightarrow> replace_agent a (rs_agents s) | None \<Rightarrow> rs_agents s)"
  by (cases r) (auto simp: apply_defs split: option.split)

lemma agents_distinct:
  "distinct (map ai_agent_id (rs_agents s)) \<Longrightarrow> distinct (map ai_agent_id (rs_agents (foldl apply_record s rs)))"
proof (induction rs arbitrary: s)
  case (Cons r rs)
  then have "distinct (map ai_agent_id (rs_agents (apply_record s r)))"
    by (auto simp: apply_agents replace_agent_ids split: option.split)
  then show ?case using Cons.IH by simp
qed simp

lemma task_views_distinct:
  "distinct (map tv_boundary (rs_task_views s)) \<Longrightarrow> distinct (map tv_boundary (rs_task_views (foldl apply_record s rs)))"
proof (induction rs arbitrary: s)
  case (Cons r rs)
  then have "distinct (map tv_boundary (rs_task_views (apply_record s r)))"
    by (cases r) (auto simp: apply_defs distinct_map_filter split: option.split)
  then show ?case using Cons.IH by simp
qed simp

text \<open>The open turn is the last one started, unless it was finished later.\<close>

abbreviation closes_turn :: "string \<Rightarrow> ('v, 'f) log_record \<Rightarrow> bool" where
  "closes_turn t r \<equiv> (case r of TurnStarted _ _ _ \<Rightarrow> True | TurnFinished f \<Rightarrow> tr_turn_id f = t | _ \<Rightarrow> False)"

lemma apply_open_turn:
  "rs_open_turn (apply_record s r) = Some (t, m) \<longleftrightarrow>
     (\<exists>at. r = TurnStarted t m at) \<or> rs_open_turn s = Some (t, m) \<and> \<not> closes_turn t r"
  by (cases r) (auto simp: apply_defs split: option.split)

lemma fold_open_turn:
  assumes "rs_open_turn s = None"
  shows "rs_open_turn (foldl apply_record s rs) = Some (t, m) \<longleftrightarrow>
    since (\<lambda>r. \<exists>at. r = TurnStarted t m at) (closes_turn t) rs"
proof (induction rs rule: rev_induct)
  case (snoc r rs)
  then show ?case using apply_open_turn [of "foldl apply_record s rs" r t m] by (simp add: since_snoc)
qed (use assms in simp)

text \<open>The working set without task views: what a view hides is kept beside it.\<close>

definition whole_working :: "('v, 'f) replay_state \<Rightarrow> 'v message list" where
  "whole_working s = (case rs_full_working s of Some f \<Rightarrow> f | None \<Rightarrow> rs_working s)"

fun is_task_view :: "('v, 'f) log_record \<Rightarrow> bool" where
  "is_task_view (TaskView _ _ _) = True"
| "is_task_view _ = False"

fun is_compacted :: "('v, 'f) log_record \<Rightarrow> bool" where
  "is_compacted (Compacted _ _) = True"
| "is_compacted _ = False"

lemma apply_whole_working:
  "\<not> is_compacted r \<Longrightarrow> whole_working (apply_record s r) =
     whole_working s @ (case r of MessageRec m _ \<Rightarrow> [m] | _ \<Rightarrow> [])"
  by (cases r) (auto simp: whole_working_def apply_defs split: option.split)

lemma fold_whole_working:
  "\<forall>r \<in> set rs. \<not> is_compacted r \<Longrightarrow> whole_working (foldl apply_record s rs) =
     whole_working s @ List.map_filter (\<lambda>r. case r of MessageRec m _ \<Rightarrow> Some m | _ \<Rightarrow> None) rs"
proof (induction rs arbitrary: s)
  case (Cons r rs)
  then have "\<not> is_compacted r" by simp
  then have "whole_working (apply_record s r) = whole_working s @ (case r of MessageRec m _ \<Rightarrow> [m] | _ \<Rightarrow> [])"
    by (rule apply_whole_working)
  then show ?case using Cons by (cases r) (simp_all add: List.map_filter_simps)
qed (simp add: List.map_filter_simps)

lemma whole_working_restored: "tv_restored v \<Longrightarrow> rs_working (task_view v ids i s) = whole_working s \<and> rs_full_working (task_view v ids i s) = None"
  by (auto simp: whole_working_def apply_defs split: option.split)

lemma settled_filter: "settled eff \<Longrightarrow> settled (filter P eff)"
  by (induction eff rule: rev_induct) (auto simp: settled_snoc settled_Nil)

lemma full_working_None:
  "\<forall>r \<in> set rs. \<not> is_task_view r \<Longrightarrow> rs_full_working s = None \<Longrightarrow> rs_full_working (foldl apply_record s rs) = None"
proof (induction rs arbitrary: s)
  case (Cons r rs)
  then have "rs_full_working (apply_record s r) = None" by (cases r) (auto simp: apply_defs)
  then show ?case using Cons by simp
qed simp

lemma agents_iff:
  assumes "rs_agents s = []"
  shows "a \<in> set (rs_agents (foldl apply_record s rs)) \<longleftrightarrow>
    since (\<lambda>r. updated_agent r = Some a) (\<lambda>r. \<exists>b. updated_agent r = Some b \<and> ai_agent_id b = ai_agent_id a) rs"
proof (induction rs rule: rev_induct)
  case (snoc r rs)
  have "distinct (map ai_agent_id (rs_agents (foldl apply_record s rs)))" by (rule agents_distinct) (simp add: assms)
  then show ?case using snoc by (auto simp: since_snoc apply_agents replace_agent_set split: option.split)
qed (use assms in simp)

lemma default_state_empty [simp]:
  "rs_transcript default_state = []" "rs_turns default_state = []" "rs_pending_plans default_state = []"
  "rs_pending_questions default_state = []" "rs_agents default_state = []" "rs_task_views default_state = []"
  "rs_open_turn default_state = None" "rs_full_working default_state = None" "rs_working default_state = []"
  by (simp_all add: default_state_def)

lemma replay_fields [simp]:
  "rs_transcript (replay rs) = rs_transcript (replay_kept rs)" "rs_working (replay rs) = rs_working (replay_kept rs)"
  "rs_turns (replay rs) = rs_turns (replay_kept rs)" "rs_agents (replay rs) = rs_agents (replay_kept rs)"
  "rs_pending_plans (replay rs) = rs_pending_plans (replay_kept rs)"
  "rs_pending_questions (replay rs) = rs_pending_questions (replay_kept rs)"
  "rs_task_views (replay rs) = rs_task_views (replay_kept rs)" "rs_open_turn (replay rs) = rs_open_turn (replay_kept rs)"
  "rs_usage (replay rs) = foldl usage_add no_usage (map fst (spent rs))"
  "rs_cost_usd (replay rs) = foldl (+) 0 (map snd (spent rs))"
  by (simp_all add: replay_split)

section \<open>Properties\<close>

text \<open>A message and two states of a task view for the concrete instances.\<close>

definition hello :: "nat message" where
  "hello = \<lparr>msg_id = ''m1'', msg_role = User, msg_content = [TextBlock ''hi''], msg_created_at = 5\<rparr>"

definition hello_view :: "bool \<Rightarrow> task_view_info" where
  "hello_view restored = \<lparr>tv_boundary = ''m1'', tv_set_aside = 1, tv_tokens = 3, tv_restored = restored, tv_created_at = 6\<rparr>"

text \<open>
  C32. Rewinding the conversation to a message gives back the state before that message, except for the totals of tokens and
  money, which keep everything that was spent. This holds whatever was recorded since the message, short of a rewind to it or
  to a message before it, after which it is not kept any more; and a rewind to a message that is not kept changes nothing.
\<close>

theorem rewind_restores_the_state:
  fixes mid :: "('v, 'f::{zero,plus}) log_record list"
  assumes "\<forall>k \<in> set (effective_records pre). \<not> is_message (msg_id m) k"
    "\<forall>r \<in> set mid. \<forall>i. rewinds_to r = Some i \<longrightarrow>
       i \<noteq> msg_id m \<and> (\<forall>k \<in> set (effective_records pre). \<not> is_message i k)"
  shows "replay (pre @ MessageRec m t # mid @ [Rewound (msg_id m) True b]) =
    (replay pre)\<lparr>rs_usage := foldl usage_add (rs_usage (replay pre)) (map fst (spent mid)),
      rs_cost_usd := foldl (+) (rs_cost_usd (replay pre)) (map snd (spent mid))\<rparr> \<and>
    (\<forall>(rs :: ('v, 'f) log_record list) i b'. (\<forall>k \<in> set (effective_records rs). \<not> is_message i k) \<longrightarrow>
       replay (rs @ [Rewound i True b']) = replay rs)"
proof (intro conjI allI impI)
  show "replay (pre @ MessageRec m t # mid @ [Rewound (msg_id m) True b]) =
    (replay pre)\<lparr>rs_usage := foldl usage_add (rs_usage (replay pre)) (map fst (spent mid)),
      rs_cost_usd := foldl (+) (rs_cost_usd (replay pre)) (map snd (spent mid))\<rparr>"
    using effective_rewind [OF assms, of t b] by (simp add: replay_split List.map_filter_simps map_filter_append)
  fix rs :: "('v, 'f) log_record list" and i b'
  assume "\<forall>k \<in> set (effective_records rs). \<not> is_message i k"
  then have "position (is_message i) (effective_records rs) = None" by (simp add: position_None_iff)
  then have "effective_records (rs @ [Rewound i True b']) = effective_records rs @ [Rewound i True b']"
    by (simp add: effective_snoc push_effective_rewind)
  then show "replay (rs @ [Rewound i True b']) = replay rs"
    by (simp add: replay_split List.map_filter_simps map_filter_append)
qed

theorem rewind_restores_the_state_witness:
  "replay [Title ''a'', MessageRec hello None, UsageRec ''x'' no_usage 3, Rewound ''m1'' True False :: (nat, int) log_record] =
    (replay [Title ''a''])\<lparr>rs_cost_usd := 3\<rparr>"
proof -
  have e: "effective_records [Title ''a'' :: (nat, int) log_record] = [Title ''a'']" by code_simp
  have "\<forall>r \<in> set [UsageRec ''x'' no_usage (3 :: int)]. \<forall>i. rewinds_to r = Some i \<longrightarrow>
      i \<noteq> msg_id hello \<and> (\<forall>k \<in> set (effective_records [Title ''a'' :: (nat, int) log_record]). \<not> is_message i k)" by simp
  from rewind_restores_the_state [OF _ this, of None False, THEN conjunct1] e
  show ?thesis by (simp add: hello_def List.map_filter_simps)
qed

text \<open>
  The transcript is exactly the messages of the records that rewinds left, in order, and the turns are exactly the finished
  turns among them.
\<close>

theorem transcript_is_the_kept_messages:
  "rs_transcript (replay rs) = [m. MessageRec m _ \<leftarrow> effective_records rs] \<and>
   rs_turns (replay rs) = [t. TurnFinished t \<leftarrow> effective_records rs]"
proof -
  have "List.map_filter (\<lambda>r. case r of MessageRec m _ \<Rightarrow> Some m | _ \<Rightarrow> None) xs = [m. MessageRec m _ \<leftarrow> xs]"
    "List.map_filter (\<lambda>r. case r of TurnFinished t \<Rightarrow> Some t | _ \<Rightarrow> None) xs = [t. TurnFinished t \<leftarrow> xs]" for xs :: "('a, 'b) log_record list"
    by (induction xs) (auto simp: List.map_filter_simps split: log_record.split)
  then show ?thesis by (simp add: fold_transcript fold_turns)
qed

text \<open>
  Tokens are counted once per record, rewound or not: the total of a log that continues another is the sum of both totals.
\<close>

theorem usage_totals_add_up:
  "rs_usage (replay (rs @ rs')) = usage_add (rs_usage (replay rs)) (rs_usage (replay rs'))"
  by (simp add: map_filter_append) (rule foldl_usage_add)

text \<open>
  In every replayed state the pending plans and questions, the agents and the task views have distinct identifiers.
\<close>

theorem replayed_ids_are_distinct:
  "distinct (map fst (rs_pending_plans (replay rs))) \<and> distinct (map fst (rs_pending_questions (replay rs))) \<and>
   distinct (map ai_agent_id (rs_agents (replay rs))) \<and> distinct (map tv_boundary (rs_task_views (replay rs)))"
  by (simp add: plans.pending_distinct questions.pending_distinct agents_distinct task_views_distinct)

text \<open>
  A plan waits for review exactly when the last record about its request proposed it; so does a question for its answer; and the
  state of an agent is the one its last update gave.
\<close>

theorem pending_requests_are_the_unanswered_ones:
  "((k, a, p) \<in> set (rs_pending_plans (replay rs)) \<longleftrightarrow>
      since (\<lambda>r. r = PlanProposed k a p)
        (\<lambda>r. (\<exists>a p. r = PlanProposed k a p) \<or> (\<exists>ok f p. r = PlanResolved k ok f p)) (effective_records rs)) \<and>
   ((k, a, qs) \<in> set (rs_pending_questions (replay rs)) \<longleftrightarrow>
      since (\<lambda>r. r = QuestionAsked k a qs)
        (\<lambda>r. (\<exists>a qs. r = QuestionAsked k a qs) \<or> (\<exists>as. r = QuestionAnswered k as)) (effective_records rs)) \<and>
   (info \<in> set (rs_agents (replay rs)) \<longleftrightarrow>
      since (\<lambda>r. r = AgentUpdated info)
        (\<lambda>r. \<exists>b. r = AgentUpdated b \<and> ai_agent_id b = ai_agent_id info) (effective_records rs))"
proof -
  have p: "proposed_plan r = Some (k, a, p) \<longleftrightarrow> r = PlanProposed k a p"
    "plans.concerns k r \<longleftrightarrow> (\<exists>a p. r = PlanProposed k a p) \<or> (\<exists>ok f p. r = PlanResolved k ok f p)"
    "asked_question r = Some (k, a, qs) \<longleftrightarrow> r = QuestionAsked k a qs"
    "questions.concerns k r \<longleftrightarrow> (\<exists>a qs. r = QuestionAsked k a qs) \<or> (\<exists>as. r = QuestionAnswered k as)"
    "updated_agent r = Some b \<longleftrightarrow> r = AgentUpdated b" for r :: "('a, 'b) log_record" and k a p qs b
    by (cases r; auto)+
  show ?thesis
    using plans.pending_iff [of default_state k "(a, p)" "effective_records rs"]
      questions.pending_iff [of default_state k "(a, qs)" "effective_records rs"]
      agents_iff [of default_state info "effective_records rs"]
    by (simp add: p cong: since_cong)
qed

text \<open>
  The replayed state has an open turn exactly when the last turn that was started has not been finished since.
\<close>

theorem open_turn_is_the_unfinished_one:
  "rs_open_turn (replay rs) = Some (t, m) \<longleftrightarrow>
     (\<exists>pre at post. effective_records rs = pre @ TurnStarted t m at # post \<and>
       (\<forall>r \<in> set post. (\<forall>t' m' at'. r \<noteq> TurnStarted t' m' at') \<and> (\<forall>f. r = TurnFinished f \<longrightarrow> tr_turn_id f \<noteq> t)))"
proof -
  have "closes_turn t r \<longleftrightarrow> \<not> ((\<forall>t' m' at'. r \<noteq> TurnStarted t' m' at') \<and> (\<forall>f. r = TurnFinished f \<longrightarrow> tr_turn_id f \<noteq> t))"
    for r :: "('a, 'b) log_record" by (cases r) auto
  then show ?thesis using fold_open_turn [of default_state "effective_records rs" t m] by (auto simp: since_def)
qed

theorem open_turn_is_the_unfinished_one_witness:
  "rs_open_turn (replay [TurnStarted ''t'' ''m'' 7 :: (nat, int) log_record]) = Some (''t'', ''m'')"
proof -
  have "effective_records [TurnStarted ''t'' ''m'' 7 :: (nat, int) log_record] = [] @ TurnStarted ''t'' ''m'' 7 # []" by code_simp
  then show ?thesis using open_turn_is_the_unfinished_one [of "[TurnStarted ''t'' ''m'' 7 :: (nat, int) log_record]" "''t''" "''m''"]
    by (metis empty_iff empty_set)
qed

text \<open>
  Restoring the full history undoes every task view since: the working set is the one the same records would give without any
  task view, as long as no compaction came in between.
\<close>

theorem restoring_undoes_task_views:
  fixes rs :: "('v, 'f::{zero,plus}) log_record list"
  assumes "effective_records rs = pre @ post" "\<forall>r \<in> set pre. \<not> is_task_view r" "\<forall>r \<in> set post. \<not> is_compacted r"
    "tv_restored v"
  shows "rs_working (replay (rs @ [TaskView v ids i])) = rs_working (replay (pre @ filter (\<lambda>r. \<not> is_task_view r) post))"
proof -
  let ?post = "filter (\<lambda>r. \<not> is_task_view r) post"
  have "settled (filter (\<lambda>r. \<not> is_task_view r) (pre @ post))"
    using settled_effective [of rs] assms(1) by (metis settled_filter)
  then have e: "effective_records (pre @ ?post) = pre @ ?post"
    using assms(2) by (intro effective_settled) (simp add: filter_True)
  have "List.map_filter (\<lambda>r. case r of MessageRec m _ \<Rightarrow> Some m | _ \<Rightarrow> None) ?post =
      List.map_filter (\<lambda>r. case r of MessageRec m _ \<Rightarrow> Some m | _ \<Rightarrow> None) post"
    by (induction post) (auto simp: List.map_filter_simps elim: is_task_view.elims split: log_record.split)
  then have "whole_working (foldl apply_record default_state (pre @ ?post)) = whole_working (foldl apply_record default_state (pre @ post))"
    using assms(3) by (simp add: fold_whole_working)
  moreover have "rs_full_working (foldl apply_record default_state (pre @ ?post)) = None"
    using assms(2) by (intro full_working_None) auto
  ultimately show ?thesis using assms(1,4) e
    by (simp add: effective_snoc push_effective_other whole_working_restored) (simp add: whole_working_def)
qed

theorem restoring_undoes_task_views_witness:
  "rs_working (replay [MessageRec hello None, TaskView (hello_view False) [] None, TaskView (hello_view True) [] None :: (nat, int) log_record]) = [hello]"
proof -
  let ?rs = "[MessageRec hello None, TaskView (hello_view False) [] None :: (nat, int) log_record]"
  have "effective_records ?rs = [] @ ?rs" by (simp add: effective_records_def push_effective_def)
  then have "rs_working (replay (?rs @ [TaskView (hello_view True) [] None])) = rs_working (replay ([] @ filter (\<lambda>r. \<not> is_task_view r) ?rs))"
    by (rule restoring_undoes_task_views) (simp_all add: hello_view_def)
  also have "\<dots> = [hello]" by (simp add: effective_records_def push_effective_def)
  finally show ?thesis by simp
qed

end
