(* ===== verification/Session_Log.thy ===== *)
theory Session_Log
  imports Replay "HOL-Library.Sublist"
begin

text \<open>
  \<open>crates/z-engine-store/src/read.rs\<close>, \<open>append.rs\<close>, \<open>log.rs\<close> and \<open>error.rs\<close>: the lines of a session log, their
  tolerant reading, and appending with repair of a torn tail.

  \<open>serde_json\<close> is not in the repository. \<open>to_vec\<close> and \<open>from_slice\<close> are the arguments \<open>enc\<close>, \<open>dec\<close> (records) and
  \<open>dec_value\<close> (any JSON); what the log relies on is the predicate \<open>json_record\<close>. The file is its contents; every
  call of the operating system takes an argument that says whether it failed. Mutex poisoning is not modelled.
\<close>

section \<open>Errors (error.rs)\<close>

datatype io_error = NotFoundError string | OtherError string

fun io_text :: "io_error \<Rightarrow> string" where
  "io_text (NotFoundError m) = m"
| "io_text (OtherError m) = m"

datatype store_error =
    StoreIo string io_error
  | StoreJson string nat string
  | StoreNotFound string
  | StoreInvalid string

fun store_open_error :: "string \<Rightarrow> io_error \<Rightarrow> store_error" where
  "store_open_error path (NotFoundError _) = StoreNotFound path"
| "store_open_error path (OtherError m) = StoreIo path (OtherError m)"

fun store_error_text :: "store_error \<Rightarrow> string" where
  "store_error_text (StoreIo path e) = ''session store I/O failed at '' @ path @ '': '' @ io_text e"
| "store_error_text (StoreJson path n m) = ''invalid JSON in '' @ path @ '' at line '' @ nat_str n @ '': '' @ m"
| "store_error_text (StoreNotFound s) = ''not found: '' @ s"
| "store_error_text (StoreInvalid s) = ''invalid session data: '' @ s"

section \<open>Reading (read.rs)\<close>

datatype category = IoCategory | SyntaxCategory | DataCategory | EofCategory

type_synonym 't from_slice = "string \<Rightarrow> (category \<times> string) + 't"

datatype 't jline = Blank | Item 't | Malformed string | Unrecognized string

definition parse_line :: "'t from_slice \<Rightarrow> string \<Rightarrow> 't jline" where
  "parse_line dec bytes =
     (if \<forall>c \<in> set bytes. is_ascii_whitespace c then Blank
      else (case dec bytes of
        Inr x \<Rightarrow> Item x
      | Inl (c, m) \<Rightarrow> if c = DataCategory then Unrecognized m else Malformed m))"

record 't json_lines =
  jl_items :: "'t list"
  jl_torn_tail :: bool
  jl_corrupt_lines :: nat

text \<open>The lines that \<open>read_until\<close> gives, terminators included.\<close>

function read_lines :: "string \<Rightarrow> string list" where
  "read_lines s =
     (if s = [] then []
      else case split_once [NL] s of None \<Rightarrow> [s] | Some (l, r) \<Rightarrow> (l @ [NL]) # read_lines r)"
  by pat_completeness auto
termination
  by (relation "measure length") (auto dest!: split_once_Some)

declare read_lines.simps [simp del]

definition read_step :: "'t from_slice \<Rightarrow> 't json_lines \<Rightarrow> string \<Rightarrow> 't json_lines" where
  "read_step dec out l =
     (case parse_line dec l of
        Blank \<Rightarrow> out
      | Item x \<Rightarrow> out\<lparr>jl_items := jl_items out @ [x]\<rparr>
      | Malformed _ \<Rightarrow>
          if last l \<noteq> NL then out\<lparr>jl_torn_tail := True\<rparr> else out\<lparr>jl_corrupt_lines := jl_corrupt_lines out + 1\<rparr>
      | Unrecognized _ \<Rightarrow> out\<lparr>jl_corrupt_lines := jl_corrupt_lines out + 1\<rparr>)"

text \<open>The file that is opened and read is an I/O error or its contents.\<close>

definition read_jsonl :: "'t from_slice \<Rightarrow> store_error + string \<Rightarrow> store_error + 't json_lines" where
  "read_jsonl dec file =
     (case file of
        Inl e \<Rightarrow> Inl e
      | Inr s \<Rightarrow> Inr (foldl (read_step dec) \<lparr>jl_items = [], jl_torn_tail = False, jl_corrupt_lines = 0\<rparr> (read_lines s)))"

section \<open>Appending (append.rs)\<close>

definition TAIL_CHUNK :: nat where "TAIL_CHUNK = 64 * 1024"

definition rposition :: "('a \<Rightarrow> bool) \<Rightarrow> 'a list \<Rightarrow> nat option" where
  "rposition P xs = map_option (\<lambda>n. length xs - 1 - n) (position P (rev xs))"

text \<open>The loop of \<open>last_line_start\<close>; \<open>e\<close> is the variable \<open>end\<close>.\<close>

function last_line_loop :: "string \<Rightarrow> nat \<Rightarrow> nat" where
  "last_line_loop s e =
     (if e = 0 then 0
      else let start = e - TAIL_CHUNK; chunk = take (e - start) (drop start s) in
        case rposition (\<lambda>c. c = NL) chunk of
          Some index \<Rightarrow> start + index + 1
        | None \<Rightarrow> last_line_loop s start)"
  by pat_completeness auto
termination
  by (relation "measure snd") (auto simp: TAIL_CHUNK_def)

declare last_line_loop.simps [simp del]

definition last_line_start :: "string \<Rightarrow> nat" where
  "last_line_start s = last_line_loop s (length s)"

text \<open>Failures of \<open>repair_tail\<close>: before the file changes, of the change itself, of the final sync.\<close>

record tail_faults =
  read_fault :: "io_error option"
  change_fault :: "io_error option"
  sync_fault :: "io_error option"

definition repair_tail :: "'j from_slice \<Rightarrow> string \<Rightarrow> tail_faults \<Rightarrow> string \<Rightarrow> (store_error + unit) \<times> string" where
  "repair_tail dec_value path io s =
     (case read_fault io of
        Some e \<Rightarrow> (Inl (StoreIo path e), s)
      | None \<Rightarrow>
          let start = last_line_start s in
          if start = length s then (Inr (), s)
          else let s' = (case parse_line dec_value (drop start s) of Malformed _ \<Rightarrow> take start s | _ \<Rightarrow> s @ [NL]) in
            case change_fault io of
              Some e \<Rightarrow> (Inl (StoreIo path e), s)
            | None \<Rightarrow> (case sync_fault io of Some e \<Rightarrow> Inl (StoreIo path e) | None \<Rightarrow> Inr (), s'))"

text \<open>The file and the state that all its handles share.\<close>

record log_file =
  lf_contents :: string
  lf_failure :: "string option"

definition with_healthy ::
  "string \<Rightarrow> (log_file \<Rightarrow> (store_error + unit) \<times> log_file) \<Rightarrow> log_file \<Rightarrow> (store_error + unit) \<times> log_file" where
  "with_healthy path write st =
     (case lf_failure st of
        Some f \<Rightarrow> (Inl (StoreInvalid (path @ '' is unusable after an earlier failure ('' @ f @ ''); reopen the log'')), st)
      | None \<Rightarrow> (case write st of
          (Inl e, st') \<Rightarrow> (Inl e, st'\<lparr>lf_failure := Some (store_error_text e)\<rparr>)
        | (Inr u, st') \<Rightarrow> (Inr u, st')))"

text \<open>
  What the system does with a write: the handle may no longer name the file (\<open>ensure_same_file\<close>), and the
  write may fail after some of the bytes.
\<close>

record write_faults =
  same_file_fault :: "store_error option"
  write_fault :: "(nat \<times> io_error) option"

definition append_record ::
  "('r \<Rightarrow> string + string) \<Rightarrow> string \<Rightarrow> write_faults \<Rightarrow> 'r \<Rightarrow> log_file \<Rightarrow> (store_error + unit) \<times> log_file" where
  "append_record enc path io r st =
     (case enc r of
        Inl m \<Rightarrow> (Inl (StoreJson path 0 m), st)
      | Inr bytes \<Rightarrow>
          let l = bytes @ [NL] in
          with_healthy path (\<lambda>st.
            case same_file_fault io of
              Some e \<Rightarrow> (Inl e, st)
            | None \<Rightarrow> (case write_fault io of
                Some (k, e) \<Rightarrow> (Inl (StoreIo path e), st\<lparr>lf_contents := lf_contents st @ take k l\<rparr>)
              | None \<Rightarrow> (Inr (), st\<lparr>lf_contents := lf_contents st @ l\<rparr>))) st)"

definition sync_log :: "string \<Rightarrow> store_error option \<Rightarrow> io_error option \<Rightarrow> log_file \<Rightarrow> (store_error + unit) \<times> log_file" where
  "sync_log path same_file sync_all st =
     with_healthy path (\<lambda>st.
       case same_file of
         Some e \<Rightarrow> (Inl e, st)
       | None \<Rightarrow> (case sync_all of Some e \<Rightarrow> Inl (StoreIo path e) | None \<Rightarrow> Inr (), st)) st"

text \<open>\<open>Appender::open\<close> on an existing file.\<close>

definition open_log ::
  "'j from_slice \<Rightarrow> string \<Rightarrow> io_error option \<Rightarrow> tail_faults \<Rightarrow> log_file \<Rightarrow> (store_error + unit) \<times> log_file" where
  "open_log dec_value path open_fault io st =
     (case open_fault of
        Some e \<Rightarrow> (Inl (store_open_error path e), st)
      | None \<Rightarrow> (case repair_tail dec_value path io (lf_contents st) of
          (Inl e, s) \<Rightarrow> (Inl e, st\<lparr>lf_contents := s\<rparr>)
        | (Inr u, s) \<Rightarrow> (Inr u, \<lparr>lf_contents = s, lf_failure = None\<rparr>)))"

text \<open>\<open>AgentLog::append\<close> (log.rs): the transcript of a subagent holds messages only.\<close>

definition agent_append ::
  "(('v, 'f) log_record \<Rightarrow> string + string) \<Rightarrow> string \<Rightarrow> write_faults \<Rightarrow> ('v, 'f) log_record \<Rightarrow> log_file \<Rightarrow>
   (store_error + unit) \<times> log_file" where
  "agent_append enc path io r st =
     (case r of
        MessageRec _ _ \<Rightarrow> append_record enc path io r st
      | _ \<Rightarrow> (Inl (StoreInvalid ''agent transcripts only store message records''), st))"

definition append_message ::
  "(('v, 'f) log_record \<Rightarrow> string + string) \<Rightarrow> string \<Rightarrow> write_faults \<Rightarrow> 'v message \<Rightarrow> log_file \<Rightarrow>
   (store_error + unit) \<times> log_file" where
  "append_message enc path io m st = append_record enc path io (MessageRec m None) st"

section \<open>The last line\<close>

lemma rposition_last: "xs = a @ x # b \<Longrightarrow> P x \<Longrightarrow> \<forall>y \<in> set b. \<not> P y \<Longrightarrow> rposition P xs = Some (length a)"
  by (simp add: rposition_def position_append_skip)

lemma rposition_None: "\<forall>x \<in> set xs. \<not> P x \<Longrightarrow> rposition P xs = None"
  by (simp add: rposition_def position_None_iff)

lemma last_line_loop_start:
  assumes "s = a @ p" "NL \<notin> set p" "a = [] \<or> last a = NL" "length a \<le> e" "e \<le> length s"
  shows "last_line_loop s e = length a"
  using assms(4,5)
proof (induction e rule: less_induct)
  case (less e)
  let ?start = "e - TAIL_CHUNK"
  let ?chunk = "take (e - ?start) (drop ?start s)"
  show ?case
  proof (cases "length a \<le> ?start")
    case True
    have "set ?chunk \<subseteq> set p" using True assms(1) by (auto dest!: in_set_takeD in_set_dropD)
    then have "rposition (\<lambda>c. c = NL) ?chunk = None" using assms(2) by (intro rposition_None) auto
    moreover have "e \<noteq> 0 \<Longrightarrow> last_line_loop s ?start = length a" using less True by (intro less.IH) (auto simp: TAIL_CHUNK_def)
    ultimately show ?thesis using less.prems(1) by (auto simp: last_line_loop.simps [of s e] Let_def)
  next
    case False
    then obtain a' where a: "a = a' @ [NL]" using assms(3) by (cases a rule: rev_cases) auto
    have "?chunk = drop ?start a' @ NL # take (e - length a) p"
      using False a assms(1) less.prems(1) by (simp add: take_Cons')
    then have "rposition (\<lambda>c. c = NL) ?chunk = Some (length a' - ?start)"
      using assms(2) rposition_last [of ?chunk "drop ?start a'" NL "take (e - length a) p" "\<lambda>c. c = NL"]
      by (auto dest: in_set_takeD)
    moreover have "e \<noteq> 0" using less.prems(1) a by auto
    ultimately show ?thesis using False a by (auto simp: last_line_loop.simps [of s e] Let_def)
  qed
qed

lemma last_line_start_split:
  "NL \<notin> set p \<Longrightarrow> a = [] \<or> last a = NL \<Longrightarrow> last_line_start (a @ p) = length a"
  by (simp add: last_line_start_def last_line_loop_start [of _ a p])

section \<open>Lines of records\<close>

text \<open>What the log relies on: a record is one line of JSON that is read back, and no proper part of it is JSON.\<close>

definition json_record :: "('r \<Rightarrow> string + string) \<Rightarrow> 'r from_slice \<Rightarrow> 'j from_slice \<Rightarrow> 'r \<Rightarrow> bool" where
  "json_record enc dec dec_value r \<longleftrightarrow>
     (case enc r of
        Inl _ \<Rightarrow> False
      | Inr bytes \<Rightarrow>
          bytes \<noteq> [] \<and> hd bytes = CHR ''{'' \<and> NL \<notin> set bytes \<and> dec bytes = Inr r \<and> dec (bytes @ [NL]) = Inr r \<and>
          (\<exists>v. dec_value bytes = Inr v) \<and>
          (\<forall>n \<in> {1..<length bytes}.
             (\<exists>c m. c \<noteq> DataCategory \<and> dec (take n bytes) = Inl (c, m)) \<and>
             (\<exists>c m. c \<noteq> DataCategory \<and> dec_value (take n bytes) = Inl (c, m))))"

definition log_line :: "('r \<Rightarrow> string + string) \<Rightarrow> 'r \<Rightarrow> string" where
  "log_line enc r = (case enc r of Inl _ \<Rightarrow> [] | Inr bytes \<Rightarrow> bytes @ [NL])"

abbreviation log_lines :: "('r \<Rightarrow> string + string) \<Rightarrow> 'r list \<Rightarrow> string" where
  "log_lines enc rs \<equiv> concat (map (log_line enc) rs)"

lemma json_record_bytes:
  assumes "json_record enc dec dec_value r"
  obtains b v where "enc r = Inr b" "log_line enc r = b @ [NL]" "b \<noteq> []" "hd b = CHR ''{''" "NL \<notin> set b"
    "dec b = Inr r" "dec (b @ [NL]) = Inr r" "dec_value b = Inr v"
    "\<And>n. 0 < n \<Longrightarrow> n < length b \<Longrightarrow> (\<exists>c m. c \<noteq> DataCategory \<and> dec (take n b) = Inl (c, m)) \<and>
       (\<exists>c m. c \<noteq> DataCategory \<and> dec_value (take n b) = Inl (c, m))"
  using assms by (force simp: json_record_def log_line_def split: sum.splits)

lemma starts_brace: "hd b = CHR ''{'' \<Longrightarrow> b \<noteq> [] \<Longrightarrow> \<not> (\<forall>c \<in> set b. is_ascii_whitespace c)"
  by (cases b) (auto simp: is_ascii_whitespace_def)

lemma parse_record_line:
  assumes "json_record enc dec dec_value r"
  shows "parse_line dec (log_line enc r) = Item r"
  using assms
proof (rule json_record_bytes)
  fix b v
  assume "log_line enc r = b @ [NL]" "hd b = CHR ''{''" "b \<noteq> []" "dec (b @ [NL]) = Inr r"
  then show ?thesis using starts_brace [of "b @ [NL]"] by (simp add: parse_line_def)
qed

text \<open>What is left of a line that was cut.\<close>

definition torn :: "('r \<Rightarrow> string + string) \<Rightarrow> 'r set \<Rightarrow> string \<Rightarrow> bool" where
  "torn enc R p \<longleftrightarrow> p = [] \<or> (\<exists>r \<in> R. strict_prefix p (log_line enc r))"

lemma torn_cases:
  assumes "torn enc R p" "\<forall>r \<in> R. json_record enc dec dec_value r"
  obtains (empty) "p = []"
    | (whole) r v where "r \<in> R" "p \<noteq> []" "log_line enc r = p @ [NL]" "parse_line dec p = Item r" "parse_line dec_value p = Item v"
        "NL \<notin> set p"
    | (part) m m' where "p \<noteq> []" "parse_line dec p = Malformed m" "parse_line dec_value p = Malformed m'" "NL \<notin> set p"
proof (cases "p = []")
  case False
  then obtain r where r: "r \<in> R" "strict_prefix p (log_line enc r)" using assms(1) by (auto simp: torn_def)
  then have "json_record enc dec dec_value r" using assms(2) by blast
  then show thesis
  proof (rule json_record_bytes)
    fix b v
    assume b: "log_line enc r = b @ [NL]" "b \<noteq> []" "hd b = CHR ''{''" "NL \<notin> set b" "dec b = Inr r" "dec_value b = Inr v"
      "\<And>n. 0 < n \<Longrightarrow> n < length b \<Longrightarrow> (\<exists>c m. c \<noteq> DataCategory \<and> dec (take n b) = Inl (c, m)) \<and>
         (\<exists>c m. c \<noteq> DataCategory \<and> dec_value (take n b) = Inl (c, m))"
    have p: "prefix p b" using r(2) b(1) by (auto simp: strict_prefix_def prefix_snoc)
    then have hd: "hd p = CHR ''{''" "NL \<notin> set p" using False b(3,4) set_mono_prefix [OF p] by (auto simp: prefix_def)
    show thesis
    proof (cases "p = b")
      case True
      then show thesis using whole [of r v] r(1) b False starts_brace [OF hd(1)] by (simp add: parse_line_def)
    next
      case neq: False
      then have "p = take (length p) b" "0 < length p" "length p < length b"
        using p False by (auto simp: prefix_def)
      then obtain c m c' m' where "c \<noteq> DataCategory" "dec p = Inl (c, m)" "c' \<noteq> DataCategory" "dec_value p = Inl (c', m')"
        using b(7) [of "length p"] by auto
      then show thesis using part [of m m'] False hd(2) starts_brace [OF hd(1)] by (simp add: parse_line_def)
    qed
  qed
qed (use empty in blast)

lemma read_lines_Nil [simp]: "read_lines [] = []"
  by (simp add: read_lines.simps)

lemma read_lines_line: "NL \<notin> set l \<Longrightarrow> read_lines ((l @ [NL]) @ s) = (l @ [NL]) # read_lines s"
  by (simp add: read_lines.simps [of "l @ NL # s"] split_once_char)

lemma read_lines_tail: "NL \<notin> set p \<Longrightarrow> p \<noteq> [] \<Longrightarrow> read_lines p = [p]"
  by (simp add: read_lines.simps split_once_char_notin)

lemma read_lines_records:
  assumes "\<forall>r \<in> set rs. json_record enc dec dec_value r"
  shows "read_lines (log_lines enc rs @ s) = map (log_line enc) rs @ read_lines s"
  using assms
proof (induction rs)
  case (Cons r rs)
  then have "json_record enc dec dec_value r" by simp
  then obtain b where "log_line enc r = b @ [NL]" "NL \<notin> set b" by (rule json_record_bytes)
  then show ?case using Cons read_lines_line [of b "log_lines enc rs @ s"] by simp
qed simp

lemma read_records_fold:
  assumes "\<forall>r \<in> set rs. json_record enc dec dec_value r"
  shows "foldl (read_step dec) out (map (log_line enc) rs) = out\<lparr>jl_items := jl_items out @ rs\<rparr>"
  using assms
proof (induction rs arbitrary: out)
  case (Cons r rs)
  then have "parse_line dec (log_line enc r) = Item r" by (intro parse_record_line [of _ _ dec_value]) simp
  then have "read_step dec out (log_line enc r) = out\<lparr>jl_items := jl_items out @ [r]\<rparr>" by (simp add: read_step_def)
  then show ?case using Cons by simp
qed simp

text \<open>Reading a log with a torn tail: the tail counts only if nothing but its newline is missing.\<close>

lemma read_torn_log:
  assumes "\<forall>r \<in> R. json_record enc dec dec_value r" "set rs \<subseteq> R" "torn enc R p"
  shows "\<exists>more t. read_jsonl dec (Inr (log_lines enc rs @ p)) = Inr \<lparr>jl_items = rs @ more, jl_torn_tail = t, jl_corrupt_lines = 0\<rparr> \<and>
    (p = [] \<longrightarrow> more = [] \<and> \<not> t) \<and> set more \<subseteq> R"
proof -
  have rs: "\<forall>r \<in> set rs. json_record enc dec dec_value r" using assms(1,2) by auto
  have read: "read_jsonl dec (Inr (log_lines enc rs @ p)) =
      Inr (foldl (read_step dec) \<lparr>jl_items = rs, jl_torn_tail = False, jl_corrupt_lines = 0\<rparr> (read_lines p))"
    using read_records_fold [OF rs] by (simp add: read_jsonl_def read_lines_records [OF rs])
  from assms(3,1) show ?thesis
  proof (cases rule: torn_cases)
    case empty
    then show ?thesis using read by (intro exI [of _ "[]"] exI [of _ False]) simp
  next
    case (whole r v)
    then show ?thesis using read by (intro exI [of _ "[r]"] exI [of _ False]) (simp add: read_lines_tail read_step_def)
  next
    case (part m m')
    then have "last p \<noteq> NL" by (metis last_in_set)
    then show ?thesis using read part by (intro exI [of _ "[]"] exI [of _ True]) (simp add: read_lines_tail read_step_def)
  qed
qed

section \<open>Runs of the log\<close>

text \<open>
  A log file with what happens around it: whether a handle is open, how many bytes are known to be on disk, which
  records were acknowledged, and which of them a \<open>sync\<close> confirmed.
\<close>

record 'r log_world =
  lw_file :: log_file
  lw_open :: bool
  lw_durable :: nat
  lw_acked :: "'r list"
  lw_synced :: "'r list"

text \<open>
  The program appends, syncs and reopens, with any failure of the system; it may die at any byte of a write; and
  a power loss may cut bytes that no sync confirmed, together with the records they held.
\<close>

inductive reachable_log :: "('r \<Rightarrow> string + string) \<Rightarrow> 'j from_slice \<Rightarrow> string \<Rightarrow> 'r set \<Rightarrow> 'r log_world \<Rightarrow> bool"
  for enc dec_value path R where
  created: "reachable_log enc dec_value path R
    \<lparr>lw_file = \<lparr>lf_contents = [], lf_failure = None\<rparr>, lw_open = True, lw_durable = 0, lw_acked = [], lw_synced = []\<rparr>"
| appended: "reachable_log enc dec_value path R w \<Longrightarrow> lw_open w \<Longrightarrow> r \<in> R \<Longrightarrow>
    append_record enc path io r (lw_file w) = (res, f) \<Longrightarrow>
    reachable_log enc dec_value path R (w\<lparr>lw_file := f, lw_acked := if res = Inr () then lw_acked w @ [r] else lw_acked w\<rparr>)"
| synced: "reachable_log enc dec_value path R w \<Longrightarrow> lw_open w \<Longrightarrow> sync_log path sf sa (lw_file w) = (res, f) \<Longrightarrow>
    reachable_log enc dec_value path R (w\<lparr>lw_file := f,
      lw_durable := if res = Inr () then length (lf_contents f) else lw_durable w,
      lw_synced := if res = Inr () then lw_acked w else lw_synced w\<rparr>)"
| reopened: "reachable_log enc dec_value path R w \<Longrightarrow> open_log dec_value path of_fault io (lw_file w) = (res, f) \<Longrightarrow>
    reachable_log enc dec_value path R (w\<lparr>lw_file := f, lw_open := lw_open w \<or> res = Inr (),
      lw_durable := min (lw_durable w) (length (lf_contents f))\<rparr>)"
| killed: "reachable_log enc dec_value path R w \<Longrightarrow> lw_open w \<Longrightarrow> lf_failure (lw_file w) = None \<Longrightarrow> r \<in> R \<Longrightarrow>
    reachable_log enc dec_value path R (w\<lparr>lw_open := False,
      lw_file := \<lparr>lf_contents = lf_contents (lw_file w) @ take k (log_line enc r), lf_failure = None\<rparr>\<rparr>)"
| stopped: "reachable_log enc dec_value path R w \<Longrightarrow>
    reachable_log enc dec_value path R (w\<lparr>lw_open := False, lw_file := (lw_file w)\<lparr>lf_failure := None\<rparr>\<rparr>)"
| power_lost: "reachable_log enc dec_value path R w \<Longrightarrow> lw_durable w \<le> n \<Longrightarrow>
    reachable_log enc dec_value path R (w\<lparr>lw_open := False, lw_acked := lw_synced w,
      lw_file := \<lparr>lf_contents = take n (lf_contents (lw_file w)), lf_failure = None\<rparr>,
      lw_durable := min n (length (lf_contents (lw_file w)))\<rparr>)"

text \<open>
  The invariant: whole lines \<open>rs\<close> and perhaps a torn one; the tail is clean while records are accepted; every
  acknowledged record is among \<open>rs\<close>, and the confirmed ones among those whose bytes are on disk.
\<close>

definition log_shape :: "('r \<Rightarrow> string + string) \<Rightarrow> 'r set \<Rightarrow> 'r list \<Rightarrow> string \<Rightarrow> 'r log_world \<Rightarrow> bool" where
  "log_shape enc R rs p w \<longleftrightarrow>
     lf_contents (lw_file w) = log_lines enc rs @ p \<and> set rs \<subseteq> R \<and> torn enc R p \<and>
     (lw_open w \<and> lf_failure (lw_file w) = None \<longrightarrow> p = []) \<and> subseq (lw_acked w) rs \<and>
     (\<exists>pre. prefix pre rs \<and> subseq (lw_synced w) pre \<and> length (log_lines enc pre) \<le> lw_durable w)"

lemma log_shapeI:
  assumes "lf_contents (lw_file w) = log_lines enc rs @ p" "set rs \<subseteq> R" "torn enc R p"
    "lw_open w \<Longrightarrow> lf_failure (lw_file w) = None \<Longrightarrow> p = []" "subseq (lw_acked w) rs"
    "prefix pre rs" "subseq (lw_synced w) pre" "length (log_lines enc pre) \<le> lw_durable w"
  shows "log_shape enc R rs p w"
  using assms unfolding log_shape_def by blast

text \<open>A line of which the first \<open>k\<close> bytes were written is whole or torn.\<close>

lemma partial_line:
  assumes "r \<in> R"
  shows "take k (log_line enc r) = log_line enc r \<or> torn enc R (take k (log_line enc r))"
  using assms take_is_prefix [of k "log_line enc r"] unfolding torn_def strict_prefix_def by blast

lemma torn_prefix: "prefix q p \<Longrightarrow> torn enc R p \<Longrightarrow> torn enc R q"
  unfolding torn_def by (metis prefix_Nil prefix_order.le_less_trans)

lemma torn_Nil [simp]: "torn enc R []"
  by (simp add: torn_def)

text \<open>Cutting the file cuts some of its records.\<close>

lemma cut_lines:
  assumes "torn enc R p" "set rs \<subseteq> R" "prefix pre rs" "length (log_lines enc pre) \<le> n"
  shows "\<exists>rs' p'. take n (log_lines enc rs @ p) = log_lines enc rs' @ p' \<and> torn enc R p' \<and> set rs' \<subseteq> R \<and> prefix pre rs'"
  using assms(2,3,4)
proof (induction rs arbitrary: pre n)
  case Nil
  have "torn enc R (take n p)" using torn_prefix [OF take_is_prefix assms(1)] .
  then show ?case using Nil by (intro exI [of _ "[]"] exI [of _ "take n p"]) simp
next
  case (Cons r rs)
  show ?case
  proof (cases "length (log_line enc r) \<le> n")
    case True
    have "prefix (tl pre) rs" "length (log_lines enc (tl pre)) \<le> n - length (log_line enc r)"
      using Cons.prems(2,3) by (cases pre; simp)+
    then obtain rs' p' where "take (n - length (log_line enc r)) (log_lines enc rs @ p) = log_lines enc rs' @ p'"
      "torn enc R p'" "set rs' \<subseteq> R" "prefix (tl pre) rs'"
      using Cons.IH [of "tl pre" "n - length (log_line enc r)"] Cons.prems(1) by (auto simp del: take_append)
    moreover have "prefix pre (r # rs')" using calculation(4) Cons.prems(2) by (cases pre) auto
    ultimately show ?thesis using True Cons.prems(1) by (intro exI [of _ "r # rs'"] exI [of _ p']) simp
  next
    case False
    then have "pre = []" using Cons.prems(2,3) by (cases pre) auto
    have "take n (log_line enc r) \<noteq> log_line enc r" using False by (metis nat_le_linear length_take min_absorb2)
    then have "torn enc R (take n (log_line enc r))" using partial_line [of r R n enc] Cons.prems(1) by simp
    then show ?thesis using \<open>pre = []\<close> False by (intro exI [of _ "[]"] exI [of _ "take n (log_line enc r)"]) simp
  qed
qed

lemma log_lines_end: "\<forall>r \<in> set rs. json_record enc dec dec_value r \<Longrightarrow> log_lines enc rs = [] \<or> last (log_lines enc rs) = NL"
proof (induction rs rule: rev_induct)
  case (snoc r rs)
  then have "json_record enc dec dec_value r" by simp
  then obtain b where "log_line enc r = b @ [NL]" by (rule json_record_bytes)
  then show ?case by simp
qed simp

text \<open>Repair keeps the records and leaves whole lines.\<close>

lemma repair_records:
  assumes ok: "\<forall>r \<in> R. json_record enc dec dec_value r" and rs: "set rs \<subseteq> R" and p: "torn enc R p"
    and repair: "repair_tail dec_value path io (log_lines enc rs @ p) = (res, s)"
  obtains rs' p' where "s = log_lines enc rs' @ p'" "set rs' \<subseteq> R" "torn enc R p'" "prefix rs rs'" "p = [] \<Longrightarrow> p' = []"
    "res = Inr () \<Longrightarrow> p' = [] \<and> (\<exists>t. read_jsonl dec (Inr (log_lines enc rs @ p)) =
       Inr \<lparr>jl_items = rs', jl_torn_tail = t, jl_corrupt_lines = 0\<rparr>)"
proof -
  have "\<forall>r \<in> set rs. json_record enc dec dec_value r" using ok rs by auto
  then have e: "log_lines enc rs = [] \<or> last (log_lines enc rs) = NL" by (rule log_lines_end)
  have rr: "\<forall>r \<in> set rs. json_record enc dec dec_value r" using ok rs by auto
  have read: "read_jsonl dec (Inr (log_lines enc rs @ p)) =
      Inr (foldl (read_step dec) \<lparr>jl_items = rs, jl_torn_tail = False, jl_corrupt_lines = 0\<rparr> (read_lines p))"
    using read_records_fold [OF rr] by (simp add: read_jsonl_def read_lines_records [OF rr])
  show thesis
  proof (cases "s = log_lines enc rs @ p \<and> res \<noteq> Inr ()")
    case True
    then show thesis using that [of rs p] rs p by simp
  next
    case changed: False
    from p ok show thesis
    proof (cases rule: torn_cases)
      case empty
      then have "s = log_lines enc rs" using repair last_line_start_split [of "[]" "log_lines enc rs"] e
        by (auto simp: repair_tail_def Let_def split: option.splits)
      then show thesis using that [of rs "[]"] rs read empty by auto
    next
      case (whole r v)
      then have "last_line_start (log_lines enc rs @ p) = length (log_lines enc rs)" using e by (intro last_line_start_split)
      then have "s = log_lines enc rs @ p @ [NL]" using repair whole changed
        by (auto simp: repair_tail_def Let_def split: option.splits)
      then have "s = log_lines enc (rs @ [r]) @ []" using whole(3) by simp
      then show thesis using that [of "rs @ [r]" "[]"] rs read whole by (auto simp: read_lines_tail read_step_def)
    next
      case (part m m')
      then have "last_line_start (log_lines enc rs @ p) = length (log_lines enc rs)" using e by (intro last_line_start_split)
      then have "s = log_lines enc rs" using repair part changed
        by (auto simp: repair_tail_def Let_def split: option.splits)
      moreover have "last p \<noteq> NL" using part by (metis last_in_set)
      ultimately show thesis using that [of rs "[]"] rs read part by (auto simp: read_lines_tail read_step_def)
    qed
  qed
qed

lemma append_shape:
  assumes ok: "\<forall>r \<in> R. json_record enc dec dec_value r" and w: "log_shape enc R rs p w" "lw_open w" "r \<in> R"
    and step: "append_record enc path io r (lw_file w) = (res, f)"
  shows "\<exists>rs p. log_shape enc R rs p (w\<lparr>lw_file := f, lw_acked := if res = Inr () then lw_acked w @ [r] else lw_acked w\<rparr>)"
proof -
  let ?w = "w\<lparr>lw_file := f, lw_acked := if res = Inr () then lw_acked w @ [r] else lw_acked w\<rparr>"
  have "json_record enc dec dec_value r" using ok w(3) by blast
  then obtain b where b: "enc r = Inr b" "log_line enc r = b @ [NL]" by (rule json_record_bytes)
  obtain pre where pre: "prefix pre rs" "subseq (lw_synced w) pre" "length (log_lines enc pre) \<le> lw_durable w"
    and rs: "lf_contents (lw_file w) = log_lines enc rs @ p" "set rs \<subseteq> R" "torn enc R p" "subseq (lw_acked w) rs"
    using w(1) by (auto simp: log_shape_def)
  have pre': "prefix pre (rs @ [r])" using pre(1) by (simp add: prefix_append)
  consider (same) "lf_contents f = lf_contents (lw_file w)" "res \<noteq> Inr ()" "lf_failure f \<noteq> None"
    | (cut) k where "lf_contents f = log_lines enc rs @ take k (log_line enc r)" "res \<noteq> Inr ()" "lf_failure f \<noteq> None"
    | (whole) "lf_contents f = log_lines enc (rs @ [r])" "res = Inr ()"
    using step b w(1,2) by (auto simp: append_record_def with_healthy_def log_shape_def Let_def split: option.splits sum.splits)
  then show ?thesis
  proof cases
    case same
    then have "log_shape enc R rs p ?w" using rs pre by (intro log_shapeI [of _ _ rs p _ pre]) auto
    then show ?thesis by blast
  next
    case (cut k)
    show ?thesis
    proof (cases "take k (log_line enc r) = log_line enc r")
      case True
      then have "log_shape enc R (rs @ [r]) [] ?w" using cut rs pre pre' w(3)
        by (intro log_shapeI [of _ _ "rs @ [r]" "[]" _ pre]) (auto intro: subseq_rev_drop_many)
      then show ?thesis by blast
    next
      case False
      then have "torn enc R (take k (log_line enc r))" using partial_line [of r R k enc] w(3) by simp
      then have "log_shape enc R rs (take k (log_line enc r)) ?w" using cut rs pre
        by (intro log_shapeI [of _ _ rs "take k (log_line enc r)" _ pre]) auto
      then show ?thesis by blast
    qed
  next
    case whole
    then have "log_shape enc R (rs @ [r]) [] ?w" using rs pre pre' w(3)
      by (intro log_shapeI [of _ _ "rs @ [r]" "[]" _ pre]) (auto simp: subseq_append)
    then show ?thesis by blast
  qed
qed

lemma reopen_shape:
  assumes ok: "\<forall>r \<in> R. json_record enc dec dec_value r" and w: "log_shape enc R rs p w"
    and step: "open_log dec_value path of_fault io (lw_file w) = (res, f)"
  shows "\<exists>rs p. log_shape enc R rs p (w\<lparr>lw_file := f, lw_open := lw_open w \<or> res = Inr (),
    lw_durable := min (lw_durable w) (length (lf_contents f))\<rparr>)"
proof -
  let ?w = "w\<lparr>lw_file := f, lw_open := lw_open w \<or> res = Inr (), lw_durable := min (lw_durable w) (length (lf_contents f))\<rparr>"
  obtain pre where pre: "prefix pre rs" "subseq (lw_synced w) pre" "length (log_lines enc pre) \<le> lw_durable w"
    and rs: "lf_contents (lw_file w) = log_lines enc rs @ p" "set rs \<subseteq> R" "torn enc R p" "subseq (lw_acked w) rs"
      "lw_open w \<and> lf_failure (lw_file w) = None \<longrightarrow> p = []"
    using w by (auto simp: log_shape_def)
  have len: "prefix rs rs' \<Longrightarrow> length (log_lines enc pre) \<le> length (log_lines enc rs' @ q)" for rs' q
    using pre(1) by (auto simp: prefix_def)
  show ?thesis
  proof (cases of_fault)
    case (Some e)
    then have "f = lw_file w" "res \<noteq> Inr ()" using step by (auto simp: open_log_def)
    then have "log_shape enc R rs p ?w" using rs pre len [of rs p] by (intro log_shapeI [of _ _ rs p _ pre]) auto
    then show ?thesis by blast
  next
    case None
    obtain res' s where r: "repair_tail dec_value path io (log_lines enc rs @ p) = (res', s)" by fastforce
    from ok rs(2,3) r obtain rs' p' where n: "s = log_lines enc rs' @ p'" "set rs' \<subseteq> R" "torn enc R p'" "prefix rs rs'"
      "p = [] \<Longrightarrow> p' = []" "res' = Inr () \<Longrightarrow> p' = []" by (rule repair_records) blast
    have f: "lf_contents f = log_lines enc rs' @ p'" "res = Inr () \<longleftrightarrow> res' = Inr ()"
      "res \<noteq> Inr () \<Longrightarrow> lf_failure f = lf_failure (lw_file w)"
      using step None r rs(1) n(1) by (auto simp: open_log_def split: sum.splits)
    have p': "lw_open ?w \<Longrightarrow> lf_failure (lw_file ?w) = None \<Longrightarrow> p' = []"
      using f(2,3) n(5,6) rs(5) by auto
    have "subseq (lw_acked w) rs'" using rs(4) n(4) by (auto simp: prefix_def intro: subseq_rev_drop_many)
    moreover have "prefix pre rs'" using pre(1) n(4) by (rule prefix_order.trans)
    ultimately have "log_shape enc R rs' p' ?w" using p' n pre len [OF n(4), of p'] f(1)
      by (intro log_shapeI [of _ _ rs' p' _ pre]) auto
    then show ?thesis by blast
  qed
qed

lemma log_shape_reachable:
  assumes "\<forall>r \<in> R. json_record enc dec dec_value r" "reachable_log enc dec_value path R w"
  shows "\<exists>rs p. log_shape enc R rs p w"
  using assms(2)
proof (induction rule: reachable_log.induct)
  case created
  show ?case by (intro exI [of _ "[]"] exI [of _ "[]"]) (simp add: log_shape_def)
next
  case (appended w r io res f)
  then show ?case using append_shape [OF assms(1)] by blast
next
  case (synced w sf sa res f)
  then obtain rs p where w: "log_shape enc R rs p w" by blast
  have f: "lf_contents f = lf_contents (lw_file w)" "lf_failure f = None \<Longrightarrow> lf_failure (lw_file w) = None"
    "res = Inr () \<Longrightarrow> lf_failure (lw_file w) = None"
    using synced.hyps by (auto simp: sync_log_def with_healthy_def split: option.splits sum.splits)
  show ?case
  proof (cases "res = Inr ()")
    case True
    then have "p = []" using f(3) w synced.hyps by (auto simp: log_shape_def)
    then show ?thesis using w True f by (intro exI [of _ rs] exI [of _ p]) (auto simp: log_shape_def)
  next
    case False
    then show ?thesis using w f by (intro exI [of _ rs] exI [of _ p]) (auto simp: log_shape_def)
  qed
next
  case (reopened w of_fault io res f)
  then show ?case using reopen_shape [OF assms(1)] by blast
next
  case (killed w r k)
  then obtain rs p where w: "log_shape enc R rs p w" by blast
  then have p: "p = []" using killed.hyps by (simp add: log_shape_def)
  show ?case
  proof (cases "take k (log_line enc r) = log_line enc r")
    case True
    then show ?thesis using w p killed.hyps
      by (intro exI [of _ "rs @ [r]"] exI [of _ "[]"]) (auto simp: log_shape_def intro: subseq_rev_drop_many prefix_order.trans)
  next
    case False
    then have "torn enc R (take k (log_line enc r))" using partial_line [of r R k enc] killed.hyps by simp
    then show ?thesis using w p by (intro exI [of _ rs] exI [of _ "take k (log_line enc r)"]) (auto simp: log_shape_def)
  qed
next
  case (stopped w)
  then show ?case by (auto simp: log_shape_def)
next
  case (power_lost w n)
  then obtain rs p where w: "log_shape enc R rs p w" by blast
  then obtain pre where pre: "prefix pre rs" "subseq (lw_synced w) pre" "length (log_lines enc pre) \<le> lw_durable w"
    by (auto simp: log_shape_def)
  then obtain rs' p' where n: "take n (log_lines enc rs @ p) = log_lines enc rs' @ p'" "torn enc R p'" "set rs' \<subseteq> R" "prefix pre rs'"
    using cut_lines [of enc R p rs pre n] w power_lost.hyps by (auto simp: log_shape_def)
  moreover have "length (log_lines enc pre) \<le> length (log_lines enc rs)" using pre(1) by (auto simp: prefix_def)
  moreover have "subseq (lw_synced w) rs'" using pre(2) n(4) by (auto simp: prefix_def intro: subseq_rev_drop_many)
  ultimately show ?case using w pre power_lost.hyps
    by (intro exI [of _ rs'] exI [of _ p'] log_shapeI [of _ _ rs' p' _ pre]) (auto simp: log_shape_def simp del: take_append)
qed

section \<open>Properties\<close>

text \<open>A codec for one record, for the concrete instances.\<close>

definition demo_record :: "(nat, int) log_record" where "demo_record = Note ''x''"

definition demo_enc :: "(nat, int) log_record \<Rightarrow> string + string" where "demo_enc r = Inr ''{}''"

definition demo_dec :: "'a \<Rightarrow> 'a from_slice" where
  "demo_dec x s = (if s = ''{}'' \<or> s = ''{}'' @ [NL] then Inr x else Inl (EofCategory, ''EOF''))"

definition demo_world :: "(nat, int) log_record log_world" where
  "demo_world = \<lparr>lw_file = \<lparr>lf_contents = ''{}'' @ [NL] @ ''{'', lf_failure = None\<rparr>, lw_open = False, lw_durable = 0,
     lw_acked = [demo_record], lw_synced = []\<rparr>"

lemma demo_codec: "\<forall>r \<in> {demo_record}. json_record demo_enc (demo_dec demo_record) (demo_dec ()) r"
proof -
  have "n = 1" if "n \<in> {1..<length ''{}''}" for n using that by simp
  then show ?thesis by (auto simp: json_record_def demo_enc_def demo_dec_def)
qed

lemma demo_reachable: "reachable_log demo_enc (demo_dec ()) ''log'' {demo_record} demo_world"
proof -
  let ?w = "\<lparr>lw_file = \<lparr>lf_contents = ''{}'' @ [NL], lf_failure = None\<rparr>, lw_open = True, lw_durable = 0,
     lw_acked = [demo_record], lw_synced = []\<rparr>"
  have "append_record demo_enc ''log'' \<lparr>same_file_fault = None, write_fault = None\<rparr> demo_record \<lparr>lf_contents = [], lf_failure = None\<rparr> =
      (Inr (), \<lparr>lf_contents = ''{}'' @ [NL], lf_failure = None\<rparr>)"
    by (simp add: append_record_def demo_enc_def with_healthy_def)
  then have "reachable_log demo_enc (demo_dec ()) ''log'' {demo_record} ?w"
    using appended [OF created [of demo_enc "demo_dec ()" "''log''" "{demo_record}"]] by fastforce
  from killed [OF this, of demo_record 1] show ?thesis by (simp add: demo_world_def log_line_def demo_enc_def)
qed

text \<open>
  C8. Whatever fails and whenever the program dies, the log can be read: every record whose append was acknowledged (and that no power
  loss undid before it was synced) is there, in order, nothing is read that was not appended, and no line is corrupt.
\<close>

theorem acknowledged_records_survive:
  assumes "\<forall>r \<in> R. json_record enc dec dec_value r" "reachable_log enc dec_value path R w"
  shows "\<exists>records tail. read_jsonl dec (Inr (lf_contents (lw_file w))) =
      Inr \<lparr>jl_items = records, jl_torn_tail = tail, jl_corrupt_lines = 0\<rparr> \<and>
    subseq (lw_acked w) records \<and> set records \<subseteq> R"
proof -
  obtain rs p where w: "log_shape enc R rs p w" using log_shape_reachable [OF assms] by blast
  then obtain more t where "read_jsonl dec (Inr (log_lines enc rs @ p)) = Inr \<lparr>jl_items = rs @ more, jl_torn_tail = t, jl_corrupt_lines = 0\<rparr>"
    "set more \<subseteq> R" using read_torn_log [OF assms(1), of rs p] by (auto simp: log_shape_def)
  then show ?thesis using w by (auto simp: log_shape_def intro: subseq_rev_drop_many)
qed

theorem acknowledged_records_survive_witness:
  "\<exists>records tail. read_jsonl (demo_dec demo_record) (Inr (''{}'' @ [NL] @ ''{'')) =
      Inr \<lparr>jl_items = records, jl_torn_tail = tail, jl_corrupt_lines = 0\<rparr> \<and>
    subseq [demo_record] records \<and> set records \<subseteq> {demo_record}"
  using acknowledged_records_survive [OF demo_codec demo_reachable] by (simp add: demo_world_def)

text \<open>
  Reopening a log repairs it: afterwards it reads as exactly the records it held before, without a torn tail or a corrupt line, and
  it accepts records again.
\<close>

theorem reopening_keeps_the_records:
  assumes "\<forall>r \<in> R. json_record enc dec dec_value r" "reachable_log enc dec_value path R w"
    "open_log dec_value path fault io (lw_file w) = (Inr (), f)"
  shows "lf_failure f = None \<and> (\<exists>records tail.
    read_jsonl dec (Inr (lf_contents (lw_file w))) = Inr \<lparr>jl_items = records, jl_torn_tail = tail, jl_corrupt_lines = 0\<rparr> \<and>
    read_jsonl dec (Inr (lf_contents f)) = Inr \<lparr>jl_items = records, jl_torn_tail = False, jl_corrupt_lines = 0\<rparr>)"
proof -
  obtain rs p where w: "lf_contents (lw_file w) = log_lines enc rs @ p" "set rs \<subseteq> R" "torn enc R p"
    using log_shape_reachable [OF assms(1,2)] by (auto simp: log_shape_def)
  obtain s where r: "repair_tail dec_value path io (log_lines enc rs @ p) = (Inr (), s)"
    and f: "f = \<lparr>lf_contents = s, lf_failure = None\<rparr>"
    using assms(3) w(1) by (auto simp: open_log_def split: option.splits sum.splits prod.splits)
  from assms(1) w(2,3) r obtain rs' p' where n: "s = log_lines enc rs' @ p'" "set rs' \<subseteq> R" "torn enc R p'"
    "p' = [] \<and> (\<exists>t. read_jsonl dec (Inr (log_lines enc rs @ p)) =
       Inr \<lparr>jl_items = rs', jl_torn_tail = t, jl_corrupt_lines = 0\<rparr>)" by (rule repair_records) blast
  moreover have "read_jsonl dec (Inr (log_lines enc rs' @ [])) = Inr \<lparr>jl_items = rs', jl_torn_tail = False, jl_corrupt_lines = 0\<rparr>"
    using read_torn_log [OF assms(1) n(2), of "[]"] by auto
  ultimately show ?thesis using w(1) f by auto
qed

theorem reopening_keeps_the_records_witness:
  "\<exists>f. open_log (demo_dec ()) ''log'' None \<lparr>read_fault = None, change_fault = None, sync_fault = None\<rparr> (lw_file demo_world) = (Inr (), f) \<and>
    lf_failure f = None \<and> (\<exists>records tail.
    read_jsonl (demo_dec demo_record) (Inr (lf_contents (lw_file demo_world))) = Inr \<lparr>jl_items = records, jl_torn_tail = tail, jl_corrupt_lines = 0\<rparr> \<and>
    read_jsonl (demo_dec demo_record) (Inr (lf_contents f)) = Inr \<lparr>jl_items = records, jl_torn_tail = False, jl_corrupt_lines = 0\<rparr>)"
proof -
  have "last_line_start ((''{}'' @ [NL]) @ ''{'') = 3" by (subst last_line_start_split) simp_all
  then have "open_log (demo_dec ()) ''log'' None \<lparr>read_fault = None, change_fault = None, sync_fault = None\<rparr> (lw_file demo_world) =
      (Inr (), \<lparr>lf_contents = ''{}'' @ [NL], lf_failure = None\<rparr>)"
    by (simp add: open_log_def repair_tail_def demo_world_def parse_line_def demo_dec_def is_ascii_whitespace_def numeral_3_eq_3)
  then show ?thesis using reopening_keeps_the_records [OF demo_codec demo_reachable] by blast
qed

text \<open>
  After a write or a sync failed, no handle appends to the log until it is reopened.
\<close>

theorem failed_writes_block_the_log:
  assumes "append_record enc path io r st = (Inl e, st')" "enc r = Inr bytes" "enc r' = Inr bytes'"
  shows "\<exists>e'. append_record enc path io' r' st' = (Inl e', st') \<and> sync_log path sf sa st' = (Inl e', st')"
  using assms by (auto simp: append_record_def sync_log_def with_healthy_def Let_def split: option.splits sum.splits prod.splits)

theorem failed_writes_block_the_log_witness:
  "\<exists>e'. append_record demo_enc ''log'' \<lparr>same_file_fault = None, write_fault = None\<rparr> demo_record
      \<lparr>lf_contents = ''{'', lf_failure = Some (store_error_text (StoreIo ''log'' (OtherError ''full'')))\<rparr> =
      (Inl e', \<lparr>lf_contents = ''{'', lf_failure = Some (store_error_text (StoreIo ''log'' (OtherError ''full'')))\<rparr>) \<and>
    sync_log ''log'' None None \<lparr>lf_contents = ''{'', lf_failure = Some (store_error_text (StoreIo ''log'' (OtherError ''full'')))\<rparr> =
      (Inl e', \<lparr>lf_contents = ''{'', lf_failure = Some (store_error_text (StoreIo ''log'' (OtherError ''full'')))\<rparr>)"
proof (rule failed_writes_block_the_log)
  show "append_record demo_enc ''log'' \<lparr>same_file_fault = None, write_fault = Some (1, OtherError ''full'')\<rparr> demo_record \<lparr>lf_contents = [], lf_failure = None\<rparr> =
    (Inl (StoreIo ''log'' (OtherError ''full'')), \<lparr>lf_contents = ''{'', lf_failure = Some (store_error_text (StoreIo ''log'' (OtherError ''full'')))\<rparr>)"
    by (simp add: append_record_def with_healthy_def demo_enc_def)
qed (simp_all add: demo_enc_def)

end
