(* ===== verification/Wellformed.thy ===== *)
theory Wellformed
  imports Protocol "HOL-Library.Multiset"
begin

text \<open>
  \<open>crates/z-engine-context/src/wellformed.rs\<close>: the shape in which messages go to a model provider. Roles alternate,
  and each assistant message with tool calls is followed by a user message with one result per call.

  \<open>Message::new\<close> draws an identifier and the time: the argument \<open>fresh\<close> gives both for a message inserted at
  an index.
\<close>

section \<open>Model\<close>

definition MISSING_RESULT :: string where
  "MISSING_RESULT = ''interrupted: no result was recorded for this call''"

definition push_merged :: "'v message list \<Rightarrow> 'v message \<Rightarrow> 'v message list" where
  "push_merged merged m =
     (if msg_content m = [] then merged
      else if merged \<noteq> [] \<and> msg_role (last merged) = msg_role m
        then butlast merged @ [(last merged)\<lparr>msg_content := msg_content (last merged) @ msg_content m\<rparr>]
      else merged @ [m])"

definition merge_adjacent_roles :: "'v message list \<Rightarrow> 'v message list" where
  "merge_adjacent_roles messages = foldl push_merged [] messages"

text \<open>\<open>Vec::swap_remove\<close>: the last element takes the place of the removed one.\<close>

definition swap_remove :: "nat \<Rightarrow> 'a list \<Rightarrow> 'a list" where
  "swap_remove i xs = (if Suc i = length xs then butlast xs else butlast (xs[i := last xs]))"

fun is_result_of :: "string \<Rightarrow> 'v content_block \<Rightarrow> bool" where
  "is_result_of i (ToolResult j _ _) = (j = i)"
| "is_result_of i _ = False"

text \<open>The first loop of \<open>answer_exactly\<close>: the results to keep and the other blocks.\<close>

fun sort_blocks ::
  "string list \<Rightarrow> string list \<Rightarrow> 'v content_block list \<Rightarrow> 'v content_block list \<times> 'v content_block list" where
  "sort_blocks calls seen [] = ([], [])"
| "sort_blocks calls seen (b # bs) =
     (case b of
        ToolResult i _ _ \<Rightarrow>
          if i \<in> set calls \<and> i \<notin> set seen
          then (case sort_blocks calls (i # seen) bs of (results, others) \<Rightarrow> (b # results, others))
          else sort_blocks calls seen bs
      | _ \<Rightarrow> (case sort_blocks calls seen bs of (results, others) \<Rightarrow> (results, b # others)))"

text \<open>The results in the order of the calls.\<close>

fun order_results :: "string list \<Rightarrow> 'v content_block list \<Rightarrow> 'v content_block list" where
  "order_results [] results = []"
| "order_results (call # calls) results =
     (case position (is_result_of call) results of
        Some n \<Rightarrow> results ! n # order_results calls (swap_remove n results)
      | None \<Rightarrow> tool_result call MISSING_RESULT True # order_results calls results)"

definition answer_exactly :: "string list \<Rightarrow> 'v message \<Rightarrow> 'v message" where
  "answer_exactly calls m =
     (case sort_blocks calls [] (msg_content m) of (results, others) \<Rightarrow>
        if length results = length calls \<and> others = [] then m\<lparr>msg_content := results\<rparr>
        else m\<lparr>msg_content := order_results calls results @ others\<rparr>)"

definition call_ids :: "'v message \<Rightarrow> string list" where
  "call_ids m = map fst (tool_uses m)"

lemma answer_exactly_role [simp]: "msg_role (answer_exactly calls m) = msg_role m"
  by (simp add: answer_exactly_def split: prod.split)

abbreviation assistants :: "'v message list \<Rightarrow> nat" where
  "assistants ms \<equiv> length (filter (\<lambda>m. msg_role m = Assistant) ms)"

text \<open>The loop of \<open>well_formed\<close> on the messages from \<open>index\<close> on.\<close>

function answer_calls :: "(nat \<Rightarrow> string \<times> u64) \<Rightarrow> nat \<Rightarrow> 'v message list \<Rightarrow> 'v message list" where
  "answer_calls fresh index [] = []"
| "answer_calls fresh index (m # ms) =
     (if msg_role m = Assistant then
        (let calls = call_ids m;
             answered = (ms \<noteq> [] \<and> msg_role (hd ms) = User);
             ms' = (if calls \<noteq> [] \<and> \<not> answered
                    then \<lparr>msg_id = fst (fresh (Suc index)), msg_role = User, msg_content = [],
                          msg_created_at = snd (fresh (Suc index))\<rparr> # ms
                    else ms)
         in m # answer_calls fresh (Suc index) (case ms' of [] \<Rightarrow> [] | next_m # later \<Rightarrow> answer_exactly calls next_m # later))
      else m # answer_calls fresh (Suc index) ms)"
  by pat_completeness auto
termination
  by (relation "measure (\<lambda>(_, _, ms). length ms + assistants ms)") (auto split: list.split)

definition well_formed :: "(nat \<Rightarrow> string \<times> u64) \<Rightarrow> 'v message list \<Rightarrow> 'v message list" where
  "well_formed fresh messages =
     (let merged = merge_adjacent_roles messages;
          merged' = (case merged of
             first # later \<Rightarrow> (if msg_role first = User then answer_exactly [] first # later else merged)
           | [] \<Rightarrow> [])
      in merge_adjacent_roles (answer_calls fresh 0 merged'))"

section \<open>Merging\<close>

text \<open>Roles alternate and no message is empty.\<close>

fun alternating :: "'v message list \<Rightarrow> bool" where
  "alternating [] = True"
| "alternating [m] = (msg_content m \<noteq> [])"
| "alternating (m # n # ms) = (msg_content m \<noteq> [] \<and> msg_role m \<noteq> msg_role n \<and> alternating (n # ms))"

lemma alternating_Cons:
  "alternating (m # ms) \<longleftrightarrow> msg_content m \<noteq> [] \<and> alternating ms \<and> (ms \<noteq> [] \<longrightarrow> msg_role m \<noteq> msg_role (hd ms))"
  by (cases ms) auto

lemma alternating_snoc:
  "alternating (ms @ [m]) \<longleftrightarrow> alternating ms \<and> msg_content m \<noteq> [] \<and> (ms \<noteq> [] \<longrightarrow> msg_role (last ms) \<noteq> msg_role m)"
  by (induction ms) (auto simp: alternating_Cons)

lemma push_merged_alternating: "alternating merged \<Longrightarrow> alternating (push_merged merged m)"
  using alternating_snoc [of merged m]
  by (cases merged rule: rev_cases) (auto simp: push_merged_def alternating_snoc)

lemma merge_alternating: "alternating (merge_adjacent_roles ms)"
proof -
  have "alternating merged \<Longrightarrow> alternating (foldl push_merged merged ms)" for merged
    by (induction ms arbitrary: merged) (simp_all add: push_merged_alternating)
  then show ?thesis by (simp add: merge_adjacent_roles_def)
qed

lemma merge_fixed: "alternating ms \<Longrightarrow> merge_adjacent_roles ms = ms"
proof (induction ms rule: rev_induct)
  case (snoc m ms)
  then show ?case by (auto simp: merge_adjacent_roles_def alternating_snoc push_merged_def)
qed (simp add: merge_adjacent_roles_def)

abbreviation contents :: "'v message list \<Rightarrow> 'v content_block list" where
  "contents ms \<equiv> concat (map msg_content ms)"

lemma push_merged_contents: "contents (push_merged merged m) = contents merged @ msg_content m"
  by (cases merged rule: rev_cases) (auto simp: push_merged_def)

lemma merge_contents: "contents (merge_adjacent_roles ms) = contents ms"
proof -
  have "contents (foldl push_merged merged ms) = contents merged @ contents ms" for merged
    by (induction ms arbitrary: merged) (simp_all add: push_merged_contents)
  then show ?thesis by (simp add: merge_adjacent_roles_def)
qed

section \<open>Answers\<close>

fun is_result :: "'v content_block \<Rightarrow> bool" where
  "is_result (ToolResult _ _ _) = True"
| "is_result _ = False"

fun result_id :: "'v content_block \<Rightarrow> string" where
  "result_id (ToolResult i _ _) = i"
| "result_id _ = []"

definition result_ids :: "'v message \<Rightarrow> string list" where
  "result_ids m = map result_id (filter is_result (msg_content m))"

lemma is_result_of_iff: "is_result_of i b \<longleftrightarrow> is_result b \<and> result_id b = i"
  by (cases b) auto

lemma tool_result_simps [simp]: "is_result (tool_result i t e)" "result_id (tool_result i t e) = i"
  by (simp_all add: tool_result_def)

text \<open>The results that are kept: known calls only, one per call, and the blocks that are no results.\<close>

lemma sort_blocks_results:
  assumes "sort_blocks calls seen bs = (results, others)"
  shows "\<forall>b \<in> set results. is_result b \<and> result_id b \<in> set calls \<and> result_id b \<notin> set seen"
    "distinct (map result_id results)" "others = filter (\<lambda>b. \<not> is_result b) bs"
proof -
  have "(\<forall>b \<in> set results. is_result b \<and> result_id b \<in> set calls \<and> result_id b \<notin> set seen) \<and>
      distinct (map result_id results) \<and> others = filter (\<lambda>b. \<not> is_result b) bs"
    using assms
  proof (induction bs arbitrary: seen results others)
    case (Cons b bs)
    show ?case
    proof (cases "is_result b \<and> \<not> (result_id b \<in> set calls \<and> result_id b \<notin> set seen)")
      case True
      then show ?thesis using Cons.IH [of seen results others] Cons.prems by (cases b) auto
    next
      case False
      define seen' where "seen' = (if is_result b then result_id b # seen else seen)"
      obtain rs os where rs: "sort_blocks calls seen' bs = (rs, os)" by fastforce
      have "(results, others) = (if is_result b then (b # rs, os) else (rs, b # os))"
        using Cons.prems rs False by (cases b) (simp_all add: seen'_def)
      then show ?thesis using Cons.IH [OF rs] False by (auto simp: seen'_def split: if_splits)
    qed
  qed simp
  then show "\<forall>b \<in> set results. is_result b \<and> result_id b \<in> set calls \<and> result_id b \<notin> set seen"
    "distinct (map result_id results)" "others = filter (\<lambda>b. \<not> is_result b) bs" by blast+
qed

lemma mset_swap_remove:
  assumes "i < length xs"
  shows "mset (swap_remove i xs) = mset xs - {#xs ! i#}"
proof -
  obtain ys y where xs: "xs = ys @ [y]" using assms by (cases xs rule: rev_cases) auto
  show ?thesis
  proof (cases "Suc i = length xs")
    case True
    then show ?thesis by (simp add: swap_remove_def xs nth_append)
  next
    case False
    then have "i < length ys" using assms xs by simp
    then show ?thesis using False xs mset_update [of i ys y]
      by (simp add: swap_remove_def list_update_append butlast_append nth_append)
  qed
qed

text \<open>The answer to a call among results with distinct identifiers, and the results after it is taken.\<close>

lemma position_results:
  assumes "distinct (map result_id results)" "\<forall>b \<in> set results. is_result b" "position (is_result_of call) results = Some n"
  shows "result_id (results ! n) = call" "results ! n \<in> set results"
    "set (swap_remove n results) = {b \<in> set results. result_id b \<noteq> call}"
    "distinct (map result_id (swap_remove n results))"
proof -
  have n: "n < length results" "is_result_of call (results ! n)" using assms(3) by (auto simp: position_Some_iff)
  then show r: "result_id (results ! n) = call" "results ! n \<in> set results" by (auto simp: is_result_of_iff)
  have m: "mset (swap_remove n results) = mset results - {#results ! n#}" by (rule mset_swap_remove [OF n(1)])
  then have "mset (map result_id (swap_remove n results)) = mset (map result_id results) - {#call#}"
    using r n(1) by (simp add: image_mset_Diff)
  then show d: "distinct (map result_id (swap_remove n results))"
    using assms(1) distinct_remove1 [of "map result_id results" call] mset_eq_imp_distinct_iff by (metis mset_remove1)
  have "inj_on result_id (set results)" "distinct results" using assms(1) by (simp_all add: distinct_map)
  moreover have "set (swap_remove n results) = set (remove1 (results ! n) results)"
    using m mset_remove1 [of "results ! n" results] mset_eq_setD by metis
  ultimately show "set (swap_remove n results) = {b \<in> set results. result_id b \<noteq> call}"
    using r by (auto dest: inj_onD)
qed

lemma position_answer: "position (is_result_of call) results = Some n \<Longrightarrow> is_result (results ! n) \<and> result_id (results ! n) = call"
  by (simp add: position_Some_iff is_result_of_iff)

lemma order_results_ids: "map result_id (order_results calls results) = calls" "\<forall>b \<in> set (order_results calls results). is_result b"
proof (induction calls results rule: order_results.induct)
  case (2 call calls results)
  { case 1
    then show ?case using "2.IH" position_answer [of call results] by (cases "position (is_result_of call) results") auto }
  { case 2
    then show ?case using "2.IH" position_answer [of call results] by (cases "position (is_result_of call) results") auto }
qed simp_all

text \<open>Ordering keeps every result.\<close>

lemma order_results_keeps:
  assumes "distinct (map result_id rs)" "\<forall>b \<in> set rs. is_result b \<and> result_id b \<in> set calls"
  shows "set rs \<subseteq> set (order_results calls rs)"
  using assms
proof (induction calls arbitrary: rs)
  case (Cons call calls)
  show ?case
  proof (cases "position (is_result_of call) rs")
    case None
    then have "set rs \<subseteq> set (order_results calls rs)" using Cons by (auto simp: position_None_iff is_result_of_iff)
    then show ?thesis using None by auto
  next
    case (Some n)
    have "\<forall>b \<in> set rs. is_result b" using Cons.prems(2) by simp
    note p = position_results [OF Cons.prems(1) this Some]
    have "set (swap_remove n rs) \<subseteq> set (order_results calls (swap_remove n rs))"
      using p(3,4) Cons.prems(2) by (intro Cons.IH) auto
    moreover have "b = rs ! n" if "b \<in> set rs" "result_id b = call" for b
      using that p(1,2) Cons.prems(1) by (auto simp: distinct_map dest: inj_onD)
    ultimately show ?thesis using Some p(3) by auto
  qed
qed simp

lemma sort_blocks_first:
  assumes "sort_blocks calls seen bs = (rs, os)" "List.find (is_result_of i) bs = Some b" "i \<in> set calls" "i \<notin> set seen"
  shows "b \<in> set rs"
  using assms
proof (induction calls seen bs arbitrary: rs os rule: sort_blocks.induct)
  case (2 calls seen c bs)
  then show ?case by (cases c) (fastforce split: if_splits prod.splits)+
qed simp

lemma recorded_result_kept:
  assumes "List.find (is_result_of i) (msg_content m) = Some b" "i \<in> set calls"
  shows "b \<in> set (msg_content (answer_exactly calls m))"
proof -
  obtain rs os where s: "sort_blocks calls [] (msg_content m) = (rs, os)" by fastforce
  have "b \<in> set rs" using sort_blocks_first [OF s assms] by simp
  then show ?thesis using s order_results_keeps [of rs calls] sort_blocks_results [OF s] by (auto simp: answer_exactly_def)
qed

text \<open>What a message is after it was made to answer.\<close>

lemma answer_exactly_content:
  obtains results where "msg_content (answer_exactly calls m) = results @ filter (\<lambda>b. \<not> is_result b) (msg_content m)"
    "\<forall>b \<in> set results. is_result b" "mset (map result_id results) = mset calls"
proof -
  obtain rs os where s: "sort_blocks calls [] (msg_content m) = (rs, os)" by fastforce
  note r = sort_blocks_results [OF s]
  show thesis
  proof (cases "length rs = length calls \<and> os = []")
    case True
    have "set (map result_id rs) \<subseteq> set calls" using r(1) by auto
    moreover have "card (set (map result_id rs)) = length calls" using distinct_card [OF r(2)] True by simp
    ultimately have "set (map result_id rs) = set calls" "distinct calls"
      by (metis card_length card_mono card_subset_eq List.finite_set le_antisym card_distinct)+
    then have "mset (map result_id rs) = mset calls" using r(2) by (metis set_eq_iff_mset_eq_distinct)
    then show thesis using that [of rs] True s r by (simp add: answer_exactly_def)
  next
    case False
    then show thesis using that [of "order_results calls rs"] s r(3) order_results_ids [of calls rs] by (auto simp: answer_exactly_def)
  qed
qed

lemma filter_results:
  "\<forall>b \<in> set rs. is_result b \<Longrightarrow> filter is_result (rs @ filter (\<lambda>b. \<not> is_result b) bs) = rs"
  "\<forall>b \<in> set rs. is_result b \<Longrightarrow> filter (\<lambda>b. \<not> is_result b) (rs @ filter (\<lambda>b. \<not> is_result b) bs) = filter (\<lambda>b. \<not> is_result b) bs"
  by (induction rs) auto

lemma answer_exactly_ids: "mset (result_ids (answer_exactly calls m)) = mset calls"
  by (rule answer_exactly_content [of calls m]) (simp add: result_ids_def filter_results)

lemma answer_exactly_others:
  "filter (\<lambda>b. \<not> is_result b) (msg_content (answer_exactly calls m)) = filter (\<lambda>b. \<not> is_result b) (msg_content m)"
  by (rule answer_exactly_content [of calls m]) (simp add: filter_results)

section \<open>The shape of the result\<close>

text \<open>Every call is answered in the next message, and every result answers a call of the message before it.\<close>

fun answered :: "string list \<Rightarrow> 'v message list \<Rightarrow> bool" where
  "answered calls [] = (calls = [])"
| "answered calls (m # ms) =
     (if msg_role m = User then mset (result_ids m) = mset calls \<and> answered [] ms
      else calls = [] \<and> answered (call_ids m) ms)"

text \<open>The same as a run over the messages: the calls that still need an answer.\<close>

definition answer_step :: "string list option \<Rightarrow> 'v message \<Rightarrow> string list option" where
  "answer_step s m = (case s of
     None \<Rightarrow> None
   | Some calls \<Rightarrow>
       if msg_role m = User then (if mset (result_ids m) = mset calls then Some [] else None)
       else if calls = [] then Some (call_ids m) else None)"

lemma fold_answer_None [simp]: "foldl answer_step None ms = None"
  by (induction ms) (simp_all add: answer_step_def)

lemma answered_fold: "answered calls ms \<longleftrightarrow> foldl answer_step (Some calls) ms = Some []"
  by (induction ms arbitrary: calls) (auto simp: answer_step_def)

lemma ids_append:
  "result_ids (m\<lparr>msg_content := a @ b\<rparr>) = result_ids (m\<lparr>msg_content := a\<rparr>) @ result_ids (m\<lparr>msg_content := b\<rparr>)"
  "call_ids (m\<lparr>msg_content := a @ b\<rparr>) = call_ids (m\<lparr>msg_content := a\<rparr>) @ call_ids (m\<lparr>msg_content := b\<rparr>)"
  by (simp_all add: result_ids_def call_ids_def tool_uses_def List.map_filter_def)

lemma ids_content:
  "result_ids (m\<lparr>msg_content := msg_content n\<rparr>) = result_ids n" "call_ids (m\<lparr>msg_content := msg_content n\<rparr>) = call_ids n"
  "msg_content n = [] \<Longrightarrow> result_ids n = [] \<and> call_ids n = []"
  by (simp_all add: result_ids_def call_ids_def tool_uses_def List.map_filter_def)

text \<open>Merging keeps the answers: messages that merge have nothing open between them.\<close>

lemma push_merged_answers:
  assumes "answer_step (foldl answer_step (Some []) merged) m = Some c"
  shows "foldl answer_step (Some []) (push_merged merged m) = Some c"
proof (cases "msg_content m = []")
  case True
  then have "foldl answer_step (Some []) merged = Some c" using assms
    by (auto simp: answer_step_def ids_content split: option.splits if_splits)
  then show ?thesis using True by (simp add: push_merged_def)
next
  case content: False
  show ?thesis
  proof (cases "merged \<noteq> [] \<and> msg_role (last merged) = msg_role m")
    case True
    then obtain ms l where ms: "merged = ms @ [l]" "msg_role l = msg_role m" by (cases merged rule: rev_cases) auto
    let ?n = "l\<lparr>msg_content := msg_content l @ msg_content m\<rparr>"
    have ids: "result_ids ?n = result_ids l @ result_ids m" "call_ids ?n = call_ids l @ call_ids m"
      using ids_content(1,2) [of m l] by (simp_all add: ids_append)
    have "answer_step (answer_step s l) m = Some c \<Longrightarrow> answer_step s ?n = Some c" for s
      using ms(2) by (auto simp: answer_step_def ids split: option.splits if_splits)
    then show ?thesis using assms content ms by (simp add: push_merged_def)
  qed (use content assms in \<open>auto simp: push_merged_def\<close>)
qed

lemma merge_answered:
  assumes "answered [] ms"
  shows "answered [] (merge_adjacent_roles ms)"
proof -
  have "foldl answer_step (Some []) (foldl push_merged merged ms) = Some c"
    if "foldl answer_step (foldl answer_step (Some []) merged) ms = Some c" for merged c
    using that
  proof (induction ms arbitrary: merged)
    case (Cons m ms)
    then obtain d where d: "answer_step (foldl answer_step (Some []) merged) m = Some d"
      by (cases "answer_step (foldl answer_step (Some []) merged) m") auto
    then have "foldl answer_step (Some []) (push_merged merged m) = Some d" by (rule push_merged_answers)
    then show ?case using Cons d by simp
  qed simp
  from this [of "[]"] show ?thesis using assms by (simp add: answered_fold merge_adjacent_roles_def)
qed

text \<open>The loop on alternating messages that do not start with an answer.\<close>

lemma answer_calls_user: "msg_role m = User \<Longrightarrow> answer_calls fresh i (m # ms) = m # answer_calls fresh (Suc i) ms"
  by simp

abbreviation no_results :: "'v message list \<Rightarrow> 'v content_block list" where
  "no_results ms \<equiv> filter (\<lambda>b. \<not> is_result b) (contents ms)"

lemma not_User: "User \<noteq> r \<longleftrightarrow> r = Assistant"
  by (cases r) auto

lemma answer_calls_answered:
  fixes ms :: "'v message list"
  assumes "alternating ms" "ms = [] \<or> msg_role (hd ms) = Assistant"
  shows "answered [] (answer_calls fresh i ms) \<and> no_results (answer_calls fresh i ms) = no_results ms"
  using assms
proof (induction ms arbitrary: i rule: length_induct)
  case (1 ms)
  show ?case
  proof (cases ms)
    case (Cons m ms')
    then have m: "msg_role m = Assistant" using "1.prems"(2) by simp
    show ?thesis
    proof (cases ms')
      case Nil
      let ?u = "\<lparr>msg_id = fst (fresh (Suc i)), msg_role = User, msg_content = [], msg_created_at = snd (fresh (Suc i))\<rparr> :: 'v message"
      show ?thesis using m Cons Nil answer_exactly_ids [of "call_ids m" ?u] answer_exactly_others [of "call_ids m" ?u]
        by (simp add: answer_calls_user Let_def)
    next
      case c: (Cons u r)
      have u: "msg_role u = User" using "1.prems"(1) Cons c m by (cases "msg_role u") auto
      have r: "alternating r" "r = [] \<or> msg_role (hd r) = Assistant"
        using "1.prems"(1) Cons c u by (auto simp: alternating_Cons not_User)
      moreover have "length r < length ms" using Cons c by simp
      ultimately have "answered [] (answer_calls fresh (Suc (Suc i)) r) \<and> no_results (answer_calls fresh (Suc (Suc i)) r) = no_results r"
        using "1.IH" by blast
      then show ?thesis using m u Cons c answer_exactly_ids [of "call_ids m" u] answer_exactly_others [of "call_ids m" u]
        by (simp add: answer_calls_user Let_def)
    qed
  qed simp
qed

lemma well_formed_answered:
  "answered [] (well_formed fresh ms) \<and> no_results (well_formed fresh ms) = no_results ms"
proof -
  let ?m = "merge_adjacent_roles ms"
  have same: "no_results ?m = no_results ms" by (simp only: merge_contents)
  have alt: "alternating ?m" by (rule merge_alternating)
  show ?thesis
  proof (cases ?m)
    case Nil
    then show ?thesis using merge_contents [of ms] by (simp add: well_formed_def merge_adjacent_roles_def)
  next
    case (Cons u r)
    show ?thesis
    proof (cases "msg_role u = User")
      case True
      have "alternating r" "r = [] \<or> msg_role (hd r) = Assistant"
        using alt Cons True by (auto simp: alternating_Cons not_User)
      then have "answered [] (answer_calls fresh 1 r) \<and> no_results (answer_calls fresh 1 r) = no_results r"
        by (rule answer_calls_answered)
      then have "answered [] (answer_calls fresh 0 (answer_exactly [] u # r)) \<and>
          no_results (answer_calls fresh 0 (answer_exactly [] u # r)) = no_results ?m"
        using True Cons answer_exactly_ids [of "[]" u] answer_exactly_others [of "[]" u] by (simp add: answer_calls_user)
      then show ?thesis using True Cons same by (simp add: well_formed_def merge_answered merge_contents)
    next
      case False
      then have "msg_role u = Assistant" by (cases "msg_role u") auto
      then show ?thesis using alt Cons False answer_calls_answered [of ?m fresh 0] same
        by (simp add: well_formed_def merge_answered merge_contents)
    qed
  qed
qed

section \<open>Properties\<close>

text \<open>
  C33. What goes to a provider has the shape every provider accepts: no message is empty, roles alternate, every tool call of an assistant
  message is answered by exactly one result in the user message that follows, and there are no other results.
\<close>

theorem outgoing_messages_are_well_formed:
  "alternating (well_formed fresh ms) \<and> answered [] (well_formed fresh ms)"
  by (simp add: well_formed_answered) (simp add: well_formed_def Let_def merge_alternating)

text \<open>
  Making messages well-formed loses and reorders nothing but tool results: all other content, in order, is that of the working set.
\<close>

theorem well_formed_keeps_the_content:
  "filter (\<lambda>b. \<not> is_result b) (concat (map msg_content (well_formed fresh ms))) =
   filter (\<lambda>b. \<not> is_result b) (concat (map msg_content ms))"
  by (simp add: well_formed_answered)

text \<open>
  A result that was recorded for a call is kept when the message is made to answer its calls; only missing ones are filled in.
\<close>

theorem recorded_results_are_kept:
  assumes "List.find (is_result_of call) (msg_content m) = Some b" "call \<in> set calls"
  shows "b \<in> set (msg_content (answer_exactly calls m)) \<and> mset (result_ids (answer_exactly calls m)) = mset calls"
  using recorded_result_kept [OF assms] answer_exactly_ids by blast

theorem recorded_results_are_kept_witness:
  "ToolResult ''b'' [] False \<in> set (msg_content (answer_exactly [''a'', ''b''] \<lparr>msg_id = ''m'', msg_role = User,
     msg_content = [TextBlock ''hi'', ToolResult ''b'' [] False :: nat content_block], msg_created_at = 0\<rparr>))"
  using recorded_results_are_kept [of "''b''" "\<lparr>msg_id = ''m'', msg_role = User,
     msg_content = [TextBlock ''hi'', ToolResult ''b'' [] False :: nat content_block], msg_created_at = 0\<rparr>"
     "ToolResult ''b'' [] False" "[''a'', ''b'']"] by simp

end
