(* ===== verification/Output.thy ===== *)
theory Output
  imports Prelude "HOL-Library.Sublist"
begin

text \<open>
  Output of child processes, \<open>crates/z-engine-host/src/process\<close>: the history of a background job
  (\<open>background/ring.rs\<close>), bounded capture of both ends of an output (\<open>capture.rs\<close>) and line framing of a pipe
  (\<open>lines.rs\<close>).

  Byte counts and offsets are natural numbers: an output of \<open>2 ^ 64\<close> bytes is out of reach. Callbacks are the
  lists of what they receive.
\<close>

section \<open>The history of a job (ring.rs)\<close>

record output_ring =
  ring_buf :: string
  ring_start :: nat
  ring_cap :: nat

definition new_ring :: "nat \<Rightarrow> output_ring" where
  "new_ring cap = \<lparr>ring_buf = [], ring_start = 0, ring_cap = cap\<rparr>"

definition ring_end :: "output_ring \<Rightarrow> nat" where
  "ring_end r = ring_start r + length (ring_buf r)"

definition ring_push :: "string \<Rightarrow> output_ring \<Rightarrow> output_ring" where
  "ring_push bytes r =
     (let buf = ring_buf r @ bytes; excess = length buf - ring_cap r in
      if excess > 0 then r\<lparr>ring_buf := drop excess buf, ring_start := ring_start r + excess\<rparr> else r\<lparr>ring_buf := buf\<rparr>)"

definition decode :: "string \<Rightarrow> string" where
  "decode bytes = from_utf8_lossy (drop (length (takeWhile is_continuation (take 3 bytes))) bytes)"

definition read_from :: "nat \<Rightarrow> output_ring \<Rightarrow> string \<times> nat" where
  "read_from offset r =
     (let begin_at = max (ring_start r) (min offset (ring_end r)) in
      (decode (drop (begin_at - ring_start r) (ring_buf r)), begin_at - offset))"

definition ring_tail :: "nat \<Rightarrow> output_ring \<Rightarrow> string" where
  "ring_tail n r = fst (read_from (ring_end r - n) r)"

section \<open>Capture of both ends (capture.rs)\<close>

definition is_char_boundary :: "string \<Rightarrow> nat \<Rightarrow> bool" where
  "is_char_boundary s i \<longleftrightarrow> i = 0 \<or> i = length s \<or> (i < length s \<and> \<not> is_continuation (s ! i))"

fun floor_loop :: "string \<Rightarrow> nat \<Rightarrow> nat" where
  "floor_loop s 0 = 0"
| "floor_loop s (Suc i) = (if is_char_boundary s (Suc i) then Suc i else floor_loop s i)"

definition floor_boundary :: "string \<Rightarrow> nat \<Rightarrow> nat" where
  "floor_boundary s index = floor_loop s (min index (length s))"

function ceil_loop :: "string \<Rightarrow> nat \<Rightarrow> nat" where
  "ceil_loop s i = (if i \<ge> length s \<or> is_char_boundary s i then i else ceil_loop s (Suc i))"
  by pat_completeness auto
termination
  by (relation "measure (\<lambda>(s, i). length s - i)") auto

declare ceil_loop.simps [simp del]

definition ceil_boundary :: "string \<Rightarrow> nat \<Rightarrow> nat" where
  "ceil_boundary s index = ceil_loop s (min index (length s))"

record capped_text =
  ct_head :: string
  ct_head_cap :: nat
  ct_tail :: "string list"
  ct_tail_len :: nat
  ct_tail_cap :: nat
  ct_dropped :: nat

definition new_capped :: "nat \<Rightarrow> capped_text" where
  "new_capped cap = \<lparr>ct_head = [], ct_head_cap = cap div 2, ct_tail = [], ct_tail_len = 0, ct_tail_cap = cap - cap div 2,
     ct_dropped = 0\<rparr>"

lemma ceil_loop_bounds: "i \<le> ceil_loop s i" "i \<le> length s \<Longrightarrow> ceil_loop s i \<le> length s"
  by (induction s i rule: ceil_loop.induct; subst ceil_loop.simps; auto)+

lemma ceil_boundary_bounds: "min index (length s) \<le> ceil_boundary s index" "ceil_boundary s index \<le> length s"
  by (simp_all add: ceil_boundary_def ceil_loop_bounds)

text \<open>The loop of \<open>push\<close> that shortens the tail: the chunks, their length and the bytes dropped.\<close>

function trim_tail :: "nat \<Rightarrow> string list \<Rightarrow> nat \<Rightarrow> nat \<Rightarrow> string list \<times> nat \<times> nat" where
  "trim_tail cap tail tail_len dropped =
     (if tail_len \<le> cap then (tail, tail_len, dropped)
      else (case tail of
        [] \<Rightarrow> (tail, tail_len, dropped)
      | front # chunks \<Rightarrow>
          let excess = tail_len - cap;
              k = (if length front \<le> excess then length front else ceil_boundary front excess)
          in if k = length front then trim_tail cap chunks (tail_len - k) (dropped + k)
             else trim_tail cap (drop k front # chunks) (tail_len - k) (dropped + k)))"
  by pat_completeness auto
termination
proof (relation "measure (\<lambda>(_, tail, tail_len, _). tail_len + length tail)", goal_cases)
  case (3 cap tail tail_len dropped front chunks excess k)
  then have "min excess (length front) \<le> k" using ceil_boundary_bounds(1) [of excess front] by (auto simp: min_def)
  then show ?case using 3 by (auto simp: min_def split: if_splits)
qed auto

declare trim_tail.simps [simp del]

definition capped_push :: "string \<Rightarrow> capped_text \<Rightarrow> capped_text" where
  "capped_push t c =
     (let k = (if ct_tail c = [] \<and> length (ct_head c) < ct_head_cap c
               then floor_boundary t (ct_head_cap c - length (ct_head c)) else 0);
          c1 = c\<lparr>ct_head := ct_head c @ take k t\<rparr>;
          left = drop k t
      in if left = [] then c1
         else (case trim_tail (ct_tail_cap c) (ct_tail c @ [left]) (ct_tail_len c + length left) (ct_dropped c) of
           (tail, tail_len, dropped) \<Rightarrow> c1\<lparr>ct_tail := tail, ct_tail_len := tail_len, ct_dropped := dropped\<rparr>))"

definition capped_finish :: "capped_text \<Rightarrow> string \<times> bool" where
  "capped_finish c =
     (ct_head c @
        (if ct_dropped c > 0 then [NL] @ ''[... '' @ nat_str (ct_dropped c) @ '' bytes of output omitted ...]'' @ [NL] else []) @
        concat (ct_tail c),
      ct_dropped c > 0)"

datatype output_stream = Stdout | Stderr

record capture =
  cap_stdout :: capped_text
  cap_stderr :: capped_text
  cap_combined :: capped_text

definition new_capture :: "nat \<Rightarrow> capture" where
  "new_capture cap = \<lparr>cap_stdout = new_capped cap, cap_stderr = new_capped cap, cap_combined = new_capped cap\<rparr>"

definition capture_push :: "output_stream \<Rightarrow> string \<Rightarrow> capture \<Rightarrow> capture" where
  "capture_push stream t c =
     (let c1 = c\<lparr>cap_combined := capped_push t (cap_combined c)\<rparr> in
      case stream of
        Stdout \<Rightarrow> c1\<lparr>cap_stdout := capped_push t (cap_stdout c1)\<rparr>
      | Stderr \<Rightarrow> c1\<lparr>cap_stderr := capped_push t (cap_stderr c1)\<rparr>)"

record captured =
  cd_stdout :: string
  cd_stderr :: string
  cd_combined :: string
  cd_truncated :: bool

definition capture_finish :: "capture \<Rightarrow> captured" where
  "capture_finish c =
     (let (out, a) = capped_finish (cap_stdout c); (err, b) = capped_finish (cap_stderr c); (mixed, d) = capped_finish (cap_combined c)
      in \<lparr>cd_stdout = out, cd_stderr = err, cd_combined = mixed, cd_truncated = a \<or> b \<or> d\<rparr>)"

section \<open>Lines of a pipe (lines.rs)\<close>

definition MAX_LINE_BYTES :: nat where "MAX_LINE_BYTES = 64 * 1024"

fun cut_loop :: "string \<Rightarrow> nat \<Rightarrow> nat" where
  "cut_loop bytes 0 = 0"
| "cut_loop bytes (Suc k) = (if is_continuation (bytes ! Suc k) then cut_loop bytes k else Suc k)"

definition char_boundary :: "string \<Rightarrow> nat \<Rightarrow> nat" where
  "char_boundary bytes limit =
     (if limit \<ge> length bytes then length bytes
      else let k = cut_loop bytes limit in if k = 0 then limit else k)"

text \<open>The two loops of \<open>push\<close>: the slices to emit and the pending bytes.\<close>

function split_complete :: "string \<Rightarrow> string list \<times> string" where
  "split_complete pending =
     (case split_once [NL] pending of
        None \<Rightarrow> ([], pending)
      | Some (l, r) \<Rightarrow> (case split_complete r of (ls, p) \<Rightarrow> ((l @ [NL]) # ls, p)))"
  by pat_completeness auto
termination
  by (relation "measure length") (auto dest!: split_once_Some)

declare split_complete.simps [simp del]

lemma cut_loop_le: "cut_loop bytes k \<le> k"
  by (induction bytes k rule: cut_loop.induct) auto

lemma char_boundary_bounds:
  "char_boundary bytes limit \<le> limit \<or> limit \<ge> length bytes" "char_boundary bytes limit \<le> length bytes"
  "limit > 0 \<Longrightarrow> bytes \<noteq> [] \<Longrightarrow> char_boundary bytes limit > 0"
  using cut_loop_le [of bytes limit] by (auto simp: char_boundary_def Let_def)

function split_long :: "string \<Rightarrow> string list \<times> string" where
  "split_long pending =
     (if length pending \<ge> MAX_LINE_BYTES
      then let k = char_boundary pending MAX_LINE_BYTES in
        case split_long (drop k pending) of (ls, p) \<Rightarrow> (take k pending # ls, p)
      else ([], pending))"
  by pat_completeness auto
termination
proof (relation "measure length", goal_cases)
  case (2 pending k)
  then have "pending \<noteq> []" "0 < MAX_LINE_BYTES" by (auto simp: MAX_LINE_BYTES_def)
  then show ?case using 2 char_boundary_bounds(2,3) [where bytes = pending and limit = MAX_LINE_BYTES] by simp
qed simp

declare split_long.simps [simp del]

definition splitter_slices :: "string \<Rightarrow> string \<Rightarrow> string list \<times> string" where
  "splitter_slices bytes pending =
     (let (ls, p) = split_complete (pending @ bytes); (ls', p') = split_long p in (ls @ ls', p'))"

definition splitter_push :: "string \<Rightarrow> string \<Rightarrow> string list \<times> string" where
  "splitter_push bytes pending = (let (ls, p) = splitter_slices bytes pending in (map from_utf8_lossy ls, p))"

definition splitter_finish :: "string \<Rightarrow> string list" where
  "splitter_finish pending = (if pending \<noteq> [] then [from_utf8_lossy pending] else [])"

text \<open>\<open>pump\<close>: reads that failed for another reason than an interrupt end the pipe, as an empty read does.\<close>

datatype pipe_read = Bytes string | InterruptedRead | FailedRead

fun pump :: "string \<Rightarrow> pipe_read list \<Rightarrow> string list" where
  "pump pending [] = splitter_finish pending"
| "pump pending (FailedRead # reads) = splitter_finish pending"
| "pump pending (InterruptedRead # reads) = pump pending reads"
| "pump pending (Bytes b # reads) =
     (if b = [] then splitter_finish pending
      else (case splitter_push b pending of (ls, p) \<Rightarrow> ls @ pump p reads))"

section \<open>The ring holds the end of the history\<close>

definition ring_holds :: "string \<Rightarrow> output_ring \<Rightarrow> bool" where
  "ring_holds h r \<longleftrightarrow> ring_start r = length h - ring_cap r \<and> ring_buf r = drop (length h - ring_cap r) h"

lemma ring_holds_new: "ring_holds [] (new_ring cap)"
  by (simp add: ring_holds_def new_ring_def)

lemma ring_cap_push [simp]: "ring_cap (ring_push b r) = ring_cap r"
  by (simp add: ring_push_def Let_def)

lemma ring_holds_push: "ring_holds h r \<Longrightarrow> ring_holds (h @ b) (ring_push b r)"
  by (cases "length h \<le> ring_cap r") (auto simp: ring_holds_def ring_push_def Let_def add.commute)

lemma ring_holds_pushes: "ring_holds h r \<Longrightarrow> ring_holds (h @ concat bs) (foldl (\<lambda>r b. ring_push b r) r bs)"
proof (induction bs arbitrary: h r)
  case (Cons b bs)
  then show ?case using Cons.IH [OF ring_holds_push [OF Cons.prems, of b]] by simp
qed simp

lemma ring_cap_pushes [simp]: "ring_cap (foldl (\<lambda>r b. ring_push b r) r bs) = ring_cap r"
  by (induction bs arbitrary: r) simp_all

lemma read_from_history:
  assumes "ring_holds h r"
  shows "read_from offset r = (decode (drop (max offset (length h - ring_cap r)) h), (length h - ring_cap r) - offset)"
proof -
  have e: "ring_end r = length h" using assms by (auto simp: ring_end_def ring_holds_def)
  show ?thesis
  proof (cases "offset \<le> length h")
    case True
    then show ?thesis using assms e by (auto simp: read_from_def ring_holds_def max_def min_def)
  next
    case False
    then show ?thesis using assms e by (auto simp: read_from_def ring_holds_def max_def min_def)
  qed
qed

section \<open>The capture keeps both ends\<close>

lemma floor_loop_le: "floor_loop s i \<le> i"
  by (induction s i rule: floor_loop.induct) auto

lemma floor_boundary_le: "floor_boundary s index \<le> index" "floor_boundary s index \<le> length s"
  using floor_loop_le [of s "min index (length s)"] by (simp_all add: floor_boundary_def)

lemma trim_tail_step:
  assumes "\<not> tail_len \<le> cap" "tail = front # chunks" "e = tail_len - cap"
    "k = (if length front \<le> e then length front else ceil_boundary front e)"
  shows "trim_tail cap tail tail_len dropped =
    (if k = length front then trim_tail cap chunks (tail_len - k) (dropped + k)
     else trim_tail cap (drop k front # chunks) (tail_len - k) (dropped + k))"
  using assms by (subst trim_tail.simps) (simp add: Let_def)

lemma trim_tail_keeps:
  assumes "trim_tail cap tail tail_len dropped = (tail', tail_len', dropped')" "tail_len = length (concat tail)"
  shows "\<exists>d. concat tail = d @ concat tail' \<and> dropped' = dropped + length d \<and> tail_len' = length (concat tail') \<and> tail_len' \<le> cap"
  using assms
proof (induction cap tail tail_len dropped rule: trim_tail.induct)
  case (1 cap tail tail_len dropped)
  show ?case
  proof (cases "tail_len \<le> cap \<or> tail = []")
    case True
    then show ?thesis using "1.prems" by (subst (asm) trim_tail.simps) (auto split: if_splits)
  next
    case False
    then obtain front chunks where t: "tail = front # chunks" by (cases tail) auto
    define e where "e = tail_len - cap"
    define k where "k = (if length front \<le> e then length front else ceil_boundary front e)"
    note k = trim_tail_step [OF _ t e_def k_def, of dropped]
    have le: "k \<le> length front" using ceil_boundary_bounds(2) by (simp add: k_def)
    show ?thesis
    proof (cases "k = length front")
      case True
      have "trim_tail cap chunks (tail_len - k) (dropped + k) = (tail', tail_len', dropped')"
        using k True False "1.prems"(1) by simp
      moreover have "tail_len - k = length (concat chunks)" using "1.prems"(2) t True by simp
      ultimately obtain d where d: "concat chunks = d @ concat tail'" "dropped' = dropped + k + length d"
        "tail_len' = length (concat tail')" "tail_len' \<le> cap" using "1.IH"(1) [OF _ t e_def k_def True] False by blast
      then show ?thesis using t True by (intro exI [of _ "front @ d"]) simp
    next
      case part: False
      have "trim_tail cap (drop k front # chunks) (tail_len - k) (dropped + k) = (tail', tail_len', dropped')"
        using k part False "1.prems"(1) by simp
      moreover have "tail_len - k = length (concat (drop k front # chunks))" using "1.prems"(2) t le by simp
      ultimately obtain d where d: "concat (drop k front # chunks) = d @ concat tail'" "dropped' = dropped + k + length d"
        "tail_len' = length (concat tail')" "tail_len' \<le> cap" using "1.IH"(2) [OF _ t e_def k_def part] False by blast
      have "concat tail = take k front @ concat (drop k front # chunks)" using t by simp
      then show ?thesis using d le by (intro exI [of _ "take k front @ d"]) simp
    qed
  qed
qed

text \<open>Text in which no four continuation bytes follow each other, as in all UTF-8.\<close>

definition short_runs :: "string \<Rightarrow> bool" where
  "short_runs s \<longleftrightarrow> (\<forall>i. i + 4 \<le> length s \<longrightarrow> (\<exists>j \<in> {i..<i + 4}. \<not> is_continuation (s ! j)))"

lemma short_runs_drop:
  assumes "short_runs s"
  shows "short_runs (drop k s)"
  unfolding short_runs_def
proof (intro allI impI)
  fix i
  assume i: "i + 4 \<le> length (drop k s)"
  then have "(k + i) + 4 \<le> length s" by simp
  then obtain j where j: "j \<in> {k + i..<k + i + 4}" "\<not> is_continuation (s ! j)" using assms unfolding short_runs_def by blast
  moreover have "drop k s ! (j - k) = s ! j" using i j(1) by simp
  ultimately show "\<exists>j \<in> {i..<i + 4}. \<not> is_continuation (drop k s ! j)" by (intro bexI [of _ "j - k"]) auto
qed

lemma ceil_loop_run: "ceil_loop s i = length s \<Longrightarrow> 0 < i \<Longrightarrow> i \<le> j \<Longrightarrow> j < length s \<Longrightarrow> is_continuation (s ! j)"
proof (induction s i rule: ceil_loop.induct)
  case (1 s i)
  then have "\<not> (i \<ge> length s \<or> is_char_boundary s i)" by (auto simp: ceil_loop.simps [of s i] split: if_splits)
  then show ?case using 1 by (cases "i = j") (auto simp: ceil_loop.simps [of s i] is_char_boundary_def)
qed

lemma short_runs_ceil:
  assumes "short_runs s" "0 < i" "i + 4 \<le> length s"
  shows "ceil_boundary s i < length s"
proof -
  obtain j where "j \<in> {i..<i + 4}" "\<not> is_continuation (s ! j)" using assms by (auto simp: short_runs_def)
  then have "ceil_loop s i \<noteq> length s" using ceil_loop_run [of s i j] assms by auto
  then show ?thesis using ceil_boundary_bounds(2) [of s i] assms(3) by (simp add: ceil_boundary_def)
qed

lemma trim_tail_rest:
  assumes "trim_tail cap tail tail_len dropped = (tail', tail_len', dropped')" "tail_len = length (concat tail)"
    "\<forall>x \<in> set tail. short_runs x" "4 \<le> cap" "tail \<noteq> []"
  shows "tail' \<noteq> [] \<and> (\<forall>x \<in> set tail'. short_runs x)"
  using assms
proof (induction cap tail tail_len dropped rule: trim_tail.induct)
  case (1 cap tail tail_len dropped)
  show ?case
  proof (cases "tail_len \<le> cap")
    case True
    then show ?thesis using "1.prems" by (subst (asm) trim_tail.simps) (auto split: if_splits)
  next
    case False
    then obtain front chunks where t: "tail = front # chunks" using "1.prems"(5) by (cases tail) auto
    define e where "e = tail_len - cap"
    define k where "k = (if length front \<le> e then length front else ceil_boundary front e)"
    note k = trim_tail_step [OF _ t e_def k_def, of dropped]
    have le: "k \<le> length front" using ceil_boundary_bounds(2) by (simp add: k_def)
    show ?thesis
    proof (cases "k = length front")
      case True
      have "chunks \<noteq> []"
      proof
        assume "chunks = []"
        then have f: "tail_len = length front" "short_runs front" using "1.prems"(2,3) t by simp_all
        then have "0 < e" "e + 4 \<le> length front" using False "1.prems"(4) by (simp_all add: e_def)
        then show False using True short_runs_ceil [OF f(2), of e] by (simp add: k_def split: if_splits)
      qed
      moreover have "trim_tail cap chunks (tail_len - k) (dropped + k) = (tail', tail_len', dropped')"
        using k True False "1.prems"(1) by simp
      moreover have "tail_len - k = length (concat chunks)" using "1.prems"(2) t True by simp
      ultimately show ?thesis using "1.IH"(1) [OF _ t e_def k_def True] False "1.prems"(3,4) t by simp
    next
      case part: False
      have "trim_tail cap (drop k front # chunks) (tail_len - k) (dropped + k) = (tail', tail_len', dropped')"
        using k part False "1.prems"(1) by simp
      moreover have "tail_len - k = length (concat (drop k front # chunks))" using "1.prems"(2) t le by simp
      moreover have "\<forall>x \<in> set (drop k front # chunks). short_runs x" using "1.prems"(3) t short_runs_drop by simp
      ultimately show ?thesis using "1.IH"(2) [OF _ t e_def k_def part] False "1.prems"(4) by blast
    qed
  qed
qed

text \<open>The state after pushing the text \<open>t\<close> into a capture of \<open>cap\<close> bytes.\<close>

definition captures :: "nat \<Rightarrow> string \<Rightarrow> capped_text \<Rightarrow> bool" where
  "captures cap t c \<longleftrightarrow>
     ct_head_cap c = cap div 2 \<and> ct_tail_cap c = cap - cap div 2 \<and> length (ct_head c) \<le> ct_head_cap c \<and>
     ct_tail_len c = length (concat (ct_tail c)) \<and> ct_tail_len c \<le> ct_tail_cap c \<and> (\<forall>x \<in> set (ct_tail c). short_runs x) \<and>
     (ct_dropped c > 0 \<longrightarrow> ct_tail c \<noteq> []) \<and>
     (\<exists>d. t = ct_head c @ d @ concat (ct_tail c) \<and> length d = ct_dropped c)"

lemma captures_new: "captures cap [] (new_capped cap)"
  by (simp add: captures_def new_capped_def)

lemma captures_push:
  assumes c: "captures cap t c" and cap: "7 \<le> cap" and r: "short_runs r"
  shows "captures cap (t @ r) (capped_push r c)"
proof -
  define k where "k = (if ct_tail c = [] \<and> length (ct_head c) < ct_head_cap c
    then floor_boundary r (ct_head_cap c - length (ct_head c)) else 0)"
  define left where "left = drop k r"
  obtain d where d: "t = ct_head c @ d @ concat (ct_tail c)" "length d = ct_dropped c" using c by (auto simp: captures_def)
  have hc: "length (ct_head c) \<le> ct_head_cap c" using c by (simp add: captures_def)
  then have k: "k \<le> length r" "length (ct_head c) + k \<le> ct_head_cap c"
    using floor_boundary_le [of r "ct_head_cap c - length (ct_head c)"] by (auto simp: k_def)
  have z: "0 < k \<Longrightarrow> d = [] \<and> ct_tail c = []" using c d(2) by (auto simp: captures_def k_def split: if_splits)
  have t: "t @ r = (ct_head c @ take k r) @ d @ concat (ct_tail c) @ left" using d(1) z by (cases "0 < k") (auto simp: left_def)
  have h: "length (ct_head c @ take k r) \<le> ct_head_cap c" using k by simp
  show ?thesis
  proof (cases "left = []")
    case True
    then have "capped_push r c = c\<lparr>ct_head := ct_head c @ take k r\<rparr>"
      unfolding capped_push_def Let_def k_def [symmetric] left_def [symmetric] by simp
    moreover have "t @ r = (ct_head c @ take k r) @ d @ concat (ct_tail c)" using t True by simp
    ultimately show ?thesis using c h d(2) unfolding captures_def by (intro conjI exI [of _ d]) simp_all
  next
    case False
    obtain tail n dr where tr: "trim_tail (ct_tail_cap c) (ct_tail c @ [left]) (ct_tail_len c + length left) (ct_dropped c) = (tail, n, dr)"
      by (metis prod_cases3)
    have l: "ct_tail_len c + length left = length (concat (ct_tail c @ [left]))" using c by (simp add: captures_def)
    have "\<forall>x \<in> set (ct_tail c @ [left]). short_runs x" using c r short_runs_drop by (auto simp: captures_def left_def)
    moreover have "4 \<le> ct_tail_cap c" using c cap by (simp add: captures_def)
    moreover have "ct_tail c @ [left] \<noteq> []" by simp
    ultimately have a: "tail \<noteq> []" "\<forall>x \<in> set tail. short_runs x" using trim_tail_rest [OF tr l] by blast+
    obtain e where e: "concat (ct_tail c @ [left]) = e @ concat tail" "dr = ct_dropped c + length e" "n = length (concat tail)"
      "n \<le> ct_tail_cap c" using trim_tail_keeps [OF tr l] by blast
    have p: "capped_push r c = c\<lparr>ct_head := ct_head c @ take k r, ct_tail := tail, ct_tail_len := n, ct_dropped := dr\<rparr>"
      using False tr unfolding capped_push_def Let_def k_def [symmetric] left_def [symmetric] by simp
    have "t @ r = (ct_head c @ take k r) @ (d @ e) @ concat tail" using t e(1) by simp
    then show ?thesis using p h a e(2,3,4) c d(2) unfolding captures_def by (intro conjI exI [of _ "d @ e"]) simp_all
  qed
qed

lemma captures_pushes:
  "captures cap t c \<Longrightarrow> 7 \<le> cap \<Longrightarrow> \<forall>r \<in> set rs. short_runs r \<Longrightarrow>
    captures cap (t @ concat rs) (foldl (\<lambda>c r. capped_push r c) c rs)"
proof (induction rs arbitrary: t c)
  case (Cons r rs)
  then have "captures cap (t @ r) (capped_push r c)" by (intro captures_push) auto
  then show ?case using Cons.IH [of "t @ r"] Cons.prems by simp
qed simp

section \<open>The splitter emits what it reads\<close>

lemma split_complete_bytes:
  "split_complete pending = (ls, p) \<Longrightarrow> concat ls @ p = pending \<and> NL \<notin> set p"
proof (induction pending arbitrary: ls rule: split_complete.induct)
  case (1 pending)
  show ?case
  proof (cases "split_once [NL] pending")
    case None
    then have "NL \<notin> set pending" using split_once_char [of NL] by (metis option.distinct(1) split_list_first)
    then show ?thesis using "1.prems" None by (auto simp: split_complete.simps [of pending])
  next
    case (Some lr)
    then obtain l r where lr: "split_once [NL] pending = Some (l, r)" by (cases lr) auto
    then have p: "pending = (l @ [NL]) @ r" using split_once_Some [of "[NL]" pending l r] by simp
    obtain ls' where "split_complete r = (ls', p)" "ls = (l @ [NL]) # ls'"
      using "1.prems" lr by (auto simp: split_complete.simps [of pending] split: prod.splits)
    then show ?thesis using "1.IH" [OF lr refl] p by simp
  qed
qed

lemma split_long_bytes:
  "split_long pending = (ls, p) \<Longrightarrow> concat ls @ p = pending \<and> length p < MAX_LINE_BYTES"
proof (induction pending arbitrary: ls rule: split_long.induct)
  case (1 pending)
  show ?case
  proof (cases "length pending \<ge> MAX_LINE_BYTES")
    case True
    let ?k = "char_boundary pending MAX_LINE_BYTES"
    obtain ls' where ls': "split_long (drop ?k pending) = (ls', p)" "ls = take ?k pending # ls'"
      using "1.prems" True by (auto simp: split_long.simps [of pending] Let_def split: prod.splits)
    then show ?thesis using "1.IH" [OF True refl ls'(1)] by simp
  qed (use "1.prems" in \<open>auto simp: split_long.simps [of pending]\<close>)
qed

lemma splitter_bytes:
  assumes "splitter_slices bytes pending = (ls, p)"
  shows "concat ls @ p = pending @ bytes" "length p < MAX_LINE_BYTES" "NL \<notin> set p"
proof -
  obtain l1 p1 where 1: "split_complete (pending @ bytes) = (l1, p1)" by fastforce
  obtain l2 p2 where 2: "split_long p1 = (l2, p2)" by fastforce
  have e: "ls = l1 @ l2" "p = p2" using assms 1 2 by (simp_all add: splitter_slices_def)
  show "concat ls @ p = pending @ bytes" "length p < MAX_LINE_BYTES"
    using split_complete_bytes [OF 1] split_long_bytes [OF 2] e by auto
  have "NL \<notin> set p1" "concat l2 @ p2 = p1" using split_complete_bytes [OF 1] split_long_bytes [OF 2] by auto
  then show "NL \<notin> set p" using e(2) by auto
qed

section \<open>Properties\<close>

text \<open>
  C34. The bounded history of a job behaves like the complete one: reading from an offset gives the bytes from there on, or from the
  oldest byte still kept, together with the exact number of bytes that were overwritten in between.
\<close>

theorem ring_refines_the_history:
  "read_from offset (foldl (\<lambda>r b. ring_push b r) (new_ring cap) bs) =
     (let h = concat bs; oldest = length h - cap in (decode (drop (max offset oldest) h), oldest - offset))"
  using read_from_history [OF ring_holds_pushes [OF ring_holds_new, of bs cap], of offset]
  by (simp add: Let_def) (simp add: new_ring_def)

text \<open>
  A capture keeps a prefix and a suffix of the output, each within its half of the budget, and between them says exactly how many
  bytes it left out; nothing is cut silently.
\<close>

theorem capture_keeps_both_ends:
  assumes "7 \<le> cap" "\<forall>r \<in> set rs. short_runs r"
  shows "\<exists>h d t. concat rs = h @ d @ t \<and> length h \<le> cap div 2 \<and> length t \<le> cap - cap div 2 \<and>
    capped_finish (foldl (\<lambda>c r. capped_push r c) (new_capped cap) rs) =
      (h @ (if d = [] then [] else [NL] @ ''[... '' @ nat_str (length d) @ '' bytes of output omitted ...]'' @ [NL]) @ t, d \<noteq> [])"
proof -
  let ?c = "foldl (\<lambda>c r. capped_push r c) (new_capped cap) rs"
  have c: "captures cap ([] @ concat rs) ?c" using captures_new assms by (rule captures_pushes)
  define fin where "fin = ?c"
  have "captures cap (concat rs) fin" using c by (simp add: fin_def)
  then obtain d where "concat rs = ct_head fin @ d @ concat (ct_tail fin)" "length d = ct_dropped fin"
    "length (ct_head fin) \<le> cap div 2" "length (concat (ct_tail fin)) \<le> cap - cap div 2" by (auto simp: captures_def)
  moreover from this(2) have "capped_finish fin =
      (ct_head fin @ (if d = [] then [] else [NL] @ ''[... '' @ nat_str (length d) @ '' bytes of output omitted ...]'' @ [NL]) @
       concat (ct_tail fin), d \<noteq> [])" by (auto simp: capped_finish_def)
  ultimately show ?thesis unfolding fin_def by blast
qed

theorem capture_keeps_both_ends_witness:
  "\<exists>h d t. ''0123456789'' = h @ d @ t \<and> length h \<le> 8 div 2 \<and> length t \<le> 8 - 8 div 2 \<and>
    capped_finish (foldl (\<lambda>c r. capped_push r c) (new_capped 8) [''01234'', ''56789'']) =
      (h @ (if d = [] then [] else [NL] @ ''[... '' @ nat_str (length d) @ '' bytes of output omitted ...]'' @ [NL]) @ t, d \<noteq> [])"
proof -
  have "\<forall>r \<in> set [''01234'', ''56789'']. short_runs r"
    by (auto simp: short_runs_def is_continuation_def nth_Cons' intro!: bexI)
  then show ?thesis using capture_keeps_both_ends [of 8 "[''01234'', ''56789'']"] by simp
qed

text \<open>
  Splitting a pipe into lines loses and invents no byte: the slices emitted and the bytes still pending are the bytes read; what is
  pending has no line end and is shorter than the limit on a line.
\<close>

theorem line_splitting_loses_nothing:
  assumes "splitter_slices bytes pending = (ls, p)"
  shows "concat ls @ p = pending @ bytes \<and> length p < MAX_LINE_BYTES \<and> NL \<notin> set p"
  using splitter_bytes [OF assms] by blast

section \<open>What modelling showed\<close>

text \<open>
  Text after an omission can end up before it: with a budget of two bytes the character \<open>U+00E9\<close> is dropped and the
  \<open>a\<close> after it becomes the head.
\<close>

lemma tiny_capture_reorders:
  "capped_finish (capped_push ''a'' (capped_push [CHR 0xC3, CHR 0xA9] (new_capped 2))) =
     (''a'' @ [NL] @ ''[... 2 bytes of output omitted ...]'' @ [NL], True)"
  by code_simp

text \<open>
  A pending line of exactly the limit is emitted whole, even if its last byte is the first of a longer character:
  \<open>char_boundary\<close> does not look for a boundary when the limit is the length.
\<close>

lemma from_utf8_lossy_ascii_append: "\<forall>c \<in> set s. code c < 128 \<Longrightarrow> from_utf8_lossy (s @ t) = s @ from_utf8_lossy t"
  by (induction s) (simp_all add: from_utf8_lossy_ascii del: from_utf8_lossy.simps(2))

lemma full_line_splits_a_character:
  "splitter_push (replicate 65535 CHR ''a'' @ [CHR 0xC3]) [] = ([replicate 65535 CHR ''a'' @ [CHR 0xEF, CHR 0xBF, CHR 0xBD]], [])"
proof -
  define s where "s = replicate 65535 CHR ''a'' @ [CHR 0xC3]"
  have n: "length s = MAX_LINE_BYTES" unfolding s_def MAX_LINE_BYTES_def length_append length_replicate by simp
  have "NL \<notin> set s" unfolding s_def set_append set_replicate_conv_if by simp
  then have "split_complete s = ([], s)" by (simp add: split_complete.simps split_once_char_notin)
  moreover have "split_long s = ([s], [])"
  proof -
    have "char_boundary s MAX_LINE_BYTES = length s" using n by (simp add: char_boundary_def)
    moreover have "split_long [] = ([], [])" by (subst split_long.simps) (simp add: MAX_LINE_BYTES_def)
    ultimately show ?thesis using n by (subst split_long.simps) simp
  qed
  moreover have "from_utf8_lossy [CHR 0xC3] = [CHR 0xEF, CHR 0xBF, CHR 0xBD]"
    by (simp add: utf8_seq_def utf8_width_def between_def utf8_second_ok_def utf8_encode_def) code_simp
  then have "from_utf8_lossy s = replicate 65535 CHR ''a'' @ [CHR 0xEF, CHR 0xBF, CHR 0xBD]"
    unfolding s_def by (subst from_utf8_lossy_ascii_append) (auto simp del: from_utf8_lossy.simps dest: in_set_replicate [THEN iffD1])
  ultimately have "splitter_push s [] = ([replicate 65535 CHR ''a'' @ [CHR 0xEF, CHR 0xBF, CHR 0xBD]], [])"
    by (simp only: splitter_push_def splitter_slices_def append_Nil Let_def case_prod_conv list.map)
  then show ?thesis unfolding s_def .
qed

end
