(* ===== verification/Web.thy ===== *)
theory Web
  imports Prelude "HOL-Library.Word"
begin

unbundle bit_operations_syntax

text \<open>
  \<open>crates/z-engine-host/src/web\<close>: which addresses a page may be fetched from (\<open>guard.rs\<close>), fetching with redirects
  (\<open>fetch.rs\<close>) and the page cache (\<open>cache.rs\<close>).

  URLs are values of the crate \<open>url\<close>, which is not in the repository: the record \<open>url_lib\<close> holds the functions the
  code calls. The record \<open>network\<close> stands for \<open>tokio\<close>'s name resolution, which may answer differently at every
  call, and for the HTTP exchange of \<open>reqwest\<close> with the server. \<open>reqwest\<close> connects to an address literal
  directly and asks the client's resolver for every other host.
\<close>

section \<open>Addresses\<close>

type_synonym ipv4 = "8 word \<times> 8 word \<times> 8 word \<times> 8 word"
type_synonym ipv6 = "16 word \<times> 16 word \<times> 16 word \<times> 16 word \<times> 16 word \<times> 16 word \<times> 16 word \<times> 16 word"

datatype ip_addr = V4 ipv4 | V6 ipv6

text \<open>The predicates of \<open>std::net\<close>.\<close>

fun v4_is_private :: "ipv4 \<Rightarrow> bool" where
  "v4_is_private (a, b, c, d) \<longleftrightarrow> a = 10 \<or> (a = 172 \<and> 16 \<le> b \<and> b \<le> 31) \<or> (a = 192 \<and> b = 168)"

fun v4_is_loopback :: "ipv4 \<Rightarrow> bool" where "v4_is_loopback (a, b, c, d) \<longleftrightarrow> a = 127"
fun v4_is_link_local :: "ipv4 \<Rightarrow> bool" where "v4_is_link_local (a, b, c, d) \<longleftrightarrow> a = 169 \<and> b = 254"
fun v4_is_unspecified :: "ipv4 \<Rightarrow> bool" where "v4_is_unspecified (a, b, c, d) \<longleftrightarrow> a = 0 \<and> b = 0 \<and> c = 0 \<and> d = 0"
fun v4_is_broadcast :: "ipv4 \<Rightarrow> bool" where "v4_is_broadcast (a, b, c, d) \<longleftrightarrow> a = 255 \<and> b = 255 \<and> c = 255 \<and> d = 255"
fun v4_is_multicast :: "ipv4 \<Rightarrow> bool" where "v4_is_multicast (a, b, c, d) \<longleftrightarrow> 224 \<le> a \<and> a \<le> 239"

fun v4_is_documentation :: "ipv4 \<Rightarrow> bool" where
  "v4_is_documentation (a, b, c, d) \<longleftrightarrow>
     (a = 192 \<and> b = 0 \<and> c = 2) \<or> (a = 198 \<and> b = 51 \<and> c = 100) \<or> (a = 203 \<and> b = 0 \<and> c = 113)"

fun octets_of :: "16 word \<Rightarrow> 16 word \<Rightarrow> ipv4" where
  "octets_of c d = (ucast (drop_bit 8 c), ucast c, ucast (drop_bit 8 d), ucast d)"

fun to_ipv4_mapped :: "ipv6 \<Rightarrow> ipv4 option" where
  "to_ipv4_mapped (s0, s1, s2, s3, s4, s5, c, d) =
     (if s0 = 0 \<and> s1 = 0 \<and> s2 = 0 \<and> s3 = 0 \<and> s4 = 0 \<and> s5 = 0xFFFF then Some (octets_of c d) else None)"

fun v6_is_loopback :: "ipv6 \<Rightarrow> bool" where
  "v6_is_loopback (s0, s1, s2, s3, s4, s5, s6, s7) \<longleftrightarrow>
     s0 = 0 \<and> s1 = 0 \<and> s2 = 0 \<and> s3 = 0 \<and> s4 = 0 \<and> s5 = 0 \<and> s6 = 0 \<and> s7 = 1"

fun v6_is_unspecified :: "ipv6 \<Rightarrow> bool" where
  "v6_is_unspecified (s0, s1, s2, s3, s4, s5, s6, s7) \<longleftrightarrow>
     s0 = 0 \<and> s1 = 0 \<and> s2 = 0 \<and> s3 = 0 \<and> s4 = 0 \<and> s5 = 0 \<and> s6 = 0 \<and> s7 = 0"

fun v6_is_multicast :: "ipv6 \<Rightarrow> bool" where
  "v6_is_multicast (s0, _) \<longleftrightarrow> (s0 AND 0xFF00) = 0xFF00"

section \<open>Public addresses (guard.rs)\<close>

fun is_public_v4 :: "ipv4 \<Rightarrow> bool" where
  "is_public_v4 (a, b, c, d) \<longleftrightarrow>
     (let ip = (a, b, c, d) in
      \<not> (v4_is_private ip \<or> v4_is_loopback ip \<or> v4_is_link_local ip \<or> v4_is_unspecified ip \<or> v4_is_broadcast ip \<or>
         v4_is_multicast ip \<or> v4_is_documentation ip \<or> a = 0 \<or> (a = 100 \<and> 64 \<le> b \<and> b < 128) \<or>
         (a = 198 \<and> 18 \<le> b \<and> b < 20) \<or> a \<ge> 240))"

fun is_public_v6 :: "ipv6 \<Rightarrow> bool" where
  "is_public_v6 (s0, s1, s2, s3, s4, s5, c, d) \<longleftrightarrow>
     (if s0 = 0x64 \<and> s1 = 0xFF9B \<and> s2 = 0 \<and> s3 = 0 \<and> s4 = 0 \<and> s5 = 0 then is_public_v4 (octets_of c d)
      else let ip = (s0, s1, s2, s3, s4, s5, c, d) in
        \<not> (v6_is_loopback ip \<or> v6_is_unspecified ip \<or> v6_is_multicast ip \<or> (s0 AND 0xFE00) = 0xFC00 \<or>
           (s0 AND 0xFFC0) = 0xFE80 \<or> (s0 = 0x2001 \<and> s1 = 0x0DB8)))"

fun is_public :: "ip_addr \<Rightarrow> bool" where
  "is_public (V4 ip) = is_public_v4 ip"
| "is_public (V6 ip) = (case to_ipv4_mapped ip of Some v4 \<Rightarrow> is_public_v4 v4 | None \<Rightarrow> is_public_v6 ip)"

fun ip_is_loopback :: "ip_addr \<Rightarrow> bool" where
  "ip_is_loopback (V4 ip) = v4_is_loopback ip"
| "ip_is_loopback (V6 ip) = v6_is_loopback ip"

text \<open>An I/O error: its path, whether its kind is \<open>NotFound\<close>, and its text.\<close>

datatype host_error =
    HostIo string bool string
  | HostProcess string
  | HostTimeout
  | HostCancelled
  | HostGit "string list" string
  | HostGitUnavailable
  | HostHttp string
  | HostBlocked string
  | HostInvalid string
  | HostNotFound string
  | HostSandboxUnavailable string

record 'u url_lib =
  url_parse :: "string \<Rightarrow> string + 'u"
  url_join :: "'u \<Rightarrow> string \<Rightarrow> string + 'u"
  url_scheme :: "'u \<Rightarrow> string"
  url_host_str :: "'u \<Rightarrow> string option"
  url_port :: "'u \<Rightarrow> nat option"
  url_set_https :: "'u \<Rightarrow> 'u option"
  url_str :: "'u \<Rightarrow> string"
  ip_parse :: "string \<Rightarrow> ip_addr option"
  ip_str :: "ip_addr \<Rightarrow> string"

definition host_ip :: "'u url_lib \<Rightarrow> 'u \<Rightarrow> ip_addr option" where
  "host_ip U url = Option.bind (url_host_str U url)
     (\<lambda>host. ip_parse U (trim_end_matches (\<lambda>c. c = CHR '']'') (trim_start_matches (\<lambda>c. c = CHR ''['') host)))"

definition is_loopback_host :: "'u url_lib \<Rightarrow> 'u \<Rightarrow> bool" where
  "is_loopback_host U url = (case (host_ip U url, url_host_str U url) of
     (Some ip, _) \<Rightarrow> ip_is_loopback ip
   | (None, Some host) \<Rightarrow> host = ''localhost'' \<or> ends_with ''.localhost'' host
   | (None, None) \<Rightarrow> False)"

definition ensure_public :: "'u url_lib \<Rightarrow> ip_addr \<Rightarrow> string \<Rightarrow> host_error + unit" where
  "ensure_public U ip host =
     (if is_public ip then Inr ()
      else Inl (HostBlocked (host @ '' resolves to the private or local address '' @ ip_str U ip)))"

fun ensure_all_public :: "'u url_lib \<Rightarrow> string \<Rightarrow> ip_addr list \<Rightarrow> host_error + unit" where
  "ensure_all_public U host [] = Inr ()"
| "ensure_all_public U host (ip # ips) = (case ensure_public U ip host of Inl e \<Rightarrow> Inl e | Inr _ \<Rightarrow> ensure_all_public U host ips)"

text \<open>\<open>lookup\<close> is the answer of \<open>tokio::net::lookup_host\<close> at this call.\<close>

definition check_public :: "'u url_lib \<Rightarrow> (string \<Rightarrow> nat \<Rightarrow> string + ip_addr list) \<Rightarrow> 'u \<Rightarrow> host_error + unit" where
  "check_public U lookup url =
     (case url_host_str U url of
        None \<Rightarrow> Inl (HostInvalid (url_str U url @ '' has no host''))
      | Some host \<Rightarrow>
          (case host_ip U url of
             Some ip \<Rightarrow> ensure_public U ip host
           | None \<Rightarrow>
               (case lookup host (case url_port U url of Some p \<Rightarrow> p | None \<Rightarrow> 443) of
                  Inl e \<Rightarrow> Inl (HostHttp (''could not resolve '' @ host @ '': '' @ e))
                | Inr addrs \<Rightarrow>
                    (case ensure_all_public U host addrs of
                       Inl e \<Rightarrow> Inl e
                     | Inr _ \<Rightarrow> if addrs \<noteq> [] then Inr ()
                         else Inl (HostHttp (host @ '' did not resolve to any address''))))))"

definition public_only_resolve :: "(string \<Rightarrow> nat \<Rightarrow> string + ip_addr list) \<Rightarrow> string \<Rightarrow> string + ip_addr list" where
  "public_only_resolve lookup host =
     (case lookup host 0 of
        Inl e \<Rightarrow> Inl e
      | Inr addrs \<Rightarrow>
          if filter is_public addrs = [] then Inl (host @ '' resolves only to private or local addresses'')
          else Inr (filter is_public addrs))"

section \<open>Fetching (fetch.rs)\<close>

definition DEFAULT_FETCH_MAX_BYTES :: nat where "DEFAULT_FETCH_MAX_BYTES = 5 * 1024 * 1024"
definition MAX_REDIRECTS :: nat where "MAX_REDIRECTS = 5"

record fetch_options =
  max_bytes :: nat
  allow_private_network :: bool

definition default_options :: fetch_options where
  "default_options = \<lparr>max_bytes = DEFAULT_FETCH_MAX_BYTES, allow_private_network = False\<rparr>"

record fetched_page =
  fp_url :: string
  fp_final_url :: string
  fp_status :: nat
  fp_content_type :: string
  fp_content :: string
  fp_redirect :: "string option"
  fp_from_cache :: bool
  fp_truncated :: bool

text \<open>
  A response: its status, the headers the code reads (\<open>Some None\<close> for a value that is not text) and the chunks
  of its body.
\<close>

record response =
  resp_status :: nat
  resp_location :: "string option option"
  resp_content_type :: "string option"
  resp_chunks :: "(host_error + string) list"

text \<open>
  The network at hop \<open>i\<close>: the lookup of the check, the lookup of the connector, and the exchange with the
  addresses it may connect to, which fails with the text of an error or a timeout.
\<close>

record 'u network =
  check_lookup :: "nat \<Rightarrow> string \<Rightarrow> nat \<Rightarrow> string + ip_addr list"
  connect_lookup :: "nat \<Rightarrow> string \<Rightarrow> nat \<Rightarrow> string + ip_addr list"
  exchange :: "nat \<Rightarrow> 'u \<Rightarrow> ip_addr list \<Rightarrow> host_error + response"
  page_text :: "string \<Rightarrow> string \<Rightarrow> string"

definition upgrade :: "'u url_lib \<Rightarrow> 'u \<Rightarrow> 'u" where
  "upgrade U url =
     (if url_scheme U url = ''http'' \<and> \<not> is_loopback_host U url
      then (case url_set_https U url of Some u \<Rightarrow> u | None \<Rightarrow> url) else url)"

definition prepare :: "'u url_lib \<Rightarrow> string \<Rightarrow> host_error + 'u" where
  "prepare U url =
     (case url_parse U (trim url) of
        Inl e \<Rightarrow> Inl (HostInvalid (''bad URL '' @ ticked url @ '': '' @ e))
      | Inr parsed \<Rightarrow>
          if url_scheme U parsed \<in> {''http'', ''https''} then Inr (upgrade U parsed)
          else Inl (HostInvalid (''unsupported URL scheme '' @ ticked (url_scheme U parsed))))"

definition redirect_target :: "'u url_lib \<Rightarrow> 'u \<Rightarrow> response \<Rightarrow> host_error + 'u option" where
  "redirect_target U current r =
     (if \<not> (300 \<le> resp_status r \<and> resp_status r < 400) then Inr None
      else (case resp_location r of
        None \<Rightarrow> Inr None
      | Some None \<Rightarrow> Inl (HostHttp ''redirect location is not valid text'')
      | Some (Some location) \<Rightarrow>
          (case url_join U current location of
             Inr u \<Rightarrow> Inr (Some u)
           | Inl e \<Rightarrow> Inl (HostHttp (''bad redirect location '' @ ticked location @ '': '' @ e)))))"

definition bare_host :: "'u url_lib \<Rightarrow> 'u \<Rightarrow> string option" where
  "bare_host U url = map_option (\<lambda>host. to_ascii_lowercase (case strip_prefix ''www.'' host of Some h \<Rightarrow> h | None \<Rightarrow> host))
     (url_host_str U url)"

definition same_site :: "'u url_lib \<Rightarrow> 'u \<Rightarrow> 'u \<Rightarrow> bool" where
  "same_site U from_url to_url \<longleftrightarrow>
     url_scheme U to_url \<in> {''http'', ''https''} \<and> bare_host U from_url \<noteq> None \<and> bare_host U from_url = bare_host U to_url"

text \<open>The loop of \<open>read_page\<close>: the body and whether it was cut.\<close>

fun read_body :: "nat \<Rightarrow> string \<Rightarrow> (host_error + string) list \<Rightarrow> host_error + string \<times> bool" where
  "read_body n body [] = Inr (body, False)"
| "read_body n body (Inl e # chunks) = Inl e"
| "read_body n body (Inr chunk # chunks) =
     (if length chunk > n - length body then Inr (body @ take (n - length body) chunk, True)
      else read_body n (body @ chunk) chunks)"

definition read_page :: "'u url_lib \<Rightarrow> 'u network \<Rightarrow> 'u \<Rightarrow> 'u \<Rightarrow> response \<Rightarrow> nat \<Rightarrow> host_error + fetched_page" where
  "read_page U N requested current r n =
     (let content_type = (case resp_content_type r of Some t \<Rightarrow> t | None \<Rightarrow> []) in
      case read_body n [] (resp_chunks r) of
        Inl e \<Rightarrow> Inl e
      | Inr (body, truncated) \<Rightarrow>
          Inr \<lparr>fp_url = url_str U requested, fp_final_url = url_str U current, fp_status = resp_status r,
            fp_content_type = content_type, fp_content = page_text N content_type body, fp_redirect = None,
            fp_from_cache = False, fp_truncated = truncated\<rparr>)"

text \<open>The addresses that the client chosen by the options may connect to.\<close>

definition connector :: "'u url_lib \<Rightarrow> 'u network \<Rightarrow> fetch_options \<Rightarrow> nat \<Rightarrow> 'u \<Rightarrow> string + ip_addr list" where
  "connector U N opts i url =
     (case host_ip U url of
        Some ip \<Rightarrow> Inr [ip]
      | None \<Rightarrow>
          (case url_host_str U url of
             None \<Rightarrow> Inr []
           | Some host \<Rightarrow>
               if allow_private_network opts then connect_lookup N i host 0
               else public_only_resolve (connect_lookup N i) host))"

text \<open>
  The loop of \<open>fetch_live\<close> with \<open>n\<close> rounds left, and the URLs requested with the addresses of each
  request.
\<close>

fun fetch_loop ::
  "'u url_lib \<Rightarrow> 'u network \<Rightarrow> fetch_options \<Rightarrow> 'u \<Rightarrow> nat \<Rightarrow> nat \<Rightarrow> 'u \<Rightarrow>
   (host_error + fetched_page) \<times> ('u \<times> ip_addr list) list" where
  "fetch_loop U N opts requested 0 i current =
     (Inl (HostHttp (''gave up after '' @ nat_str MAX_REDIRECTS @ '' redirects'')), [])"
| "fetch_loop U N opts requested (Suc n) i current =
     (case (if allow_private_network opts then Inr () else check_public U (check_lookup N i) current) of
        Inl e \<Rightarrow> (Inl e, [])
      | Inr _ \<Rightarrow>
          (case connector U N opts i current of
             Inl e \<Rightarrow> (Inl (HostHttp e), [])
           | Inr addrs \<Rightarrow>
               (case exchange N i current addrs of
                  Inl e \<Rightarrow> (Inl e, [(current, addrs)])
                | Inr r \<Rightarrow>
                    (case redirect_target U current r of
                       Inl e \<Rightarrow> (Inl e, [(current, addrs)])
                     | Inr (Some next_url) \<Rightarrow>
                         if same_site U current next_url then
                           (case fetch_loop U N opts requested n (Suc i) (upgrade U next_url) of
                              (res, reqs) \<Rightarrow> (res, (current, addrs) # reqs))
                         else (Inr \<lparr>fp_url = url_str U requested, fp_final_url = url_str U current, fp_status = resp_status r,
                                 fp_content_type = [], fp_content = [], fp_redirect = Some (url_str U next_url),
                                 fp_from_cache = False, fp_truncated = False\<rparr>, [(current, addrs)])
                     | Inr None \<Rightarrow> (read_page U N requested current r (max_bytes opts), [(current, addrs)])))))"

definition fetch_live ::
  "'u url_lib \<Rightarrow> 'u network \<Rightarrow> fetch_options \<Rightarrow> 'u \<Rightarrow> (host_error + fetched_page) \<times> ('u \<times> ip_addr list) list" where
  "fetch_live U N opts requested = fetch_loop U N opts requested (Suc MAX_REDIRECTS) 0 requested"

section \<open>The page cache (cache.rs)\<close>

definition TTL :: nat where "TTL = 15 * 60 * 1000"
definition CAPACITY :: nat where "CAPACITY = 100"

text \<open>Times are in milliseconds; the order of the entries is the iteration order of the hash map.\<close>

record cache_entry =
  ce_page :: fetched_page
  ce_stored :: nat
  ce_private :: bool
  ce_max_bytes :: nat

type_synonym page_cache = "(string \<times> cache_entry) list"

definition cache_get :: "nat \<Rightarrow> string \<Rightarrow> fetch_options \<Rightarrow> page_cache \<Rightarrow> fetched_page option \<times> page_cache" where
  "cache_get now url opts c =
     (let c' = filter (\<lambda>(_, e). now - ce_stored e < TTL) c in
      (case map_of c' url of
         None \<Rightarrow> None
       | Some e \<Rightarrow>
           if (\<not> ce_private e \<or> allow_private_network opts) \<and> (\<not> fp_truncated (ce_page e) \<or> max_bytes opts \<le> ce_max_bytes e)
           then Some ((ce_page e)\<lparr>fp_from_cache := True\<rparr>) else None, c'))"

fun oldest_key :: "page_cache \<Rightarrow> string option" where
  "oldest_key [] = None"
| "oldest_key (x # xs) = Some (fst (foldl (\<lambda>m y. if ce_stored (snd y) < ce_stored (snd m) then y else m) x xs))"

definition cache_put :: "nat \<Rightarrow> string \<Rightarrow> fetched_page \<Rightarrow> fetch_options \<Rightarrow> page_cache \<Rightarrow> page_cache" where
  "cache_put now url page opts c =
     (let c1 = (if length c \<ge> CAPACITY \<and> map_of c url = None
                then (case oldest_key c of Some k \<Rightarrow> filter (\<lambda>(u, _). u \<noteq> k) c | None \<Rightarrow> c) else c)
      in (url, \<lparr>ce_page = page, ce_stored = now, ce_private = allow_private_network opts, ce_max_bytes = max_bytes opts\<rparr>) #
         filter (\<lambda>(u, _). u \<noteq> url) c1)"

text \<open>\<open>WebClient::fetch\<close> at time \<open>now\<close>; \<open>cancelled\<close> says that the request was cancelled before it finished.\<close>

definition fetch ::
  "'u url_lib \<Rightarrow> 'u network \<Rightarrow> nat \<Rightarrow> bool \<Rightarrow> string \<Rightarrow> fetch_options \<Rightarrow> page_cache \<Rightarrow>
   (host_error + fetched_page) \<times> page_cache" where
  "fetch U N now cancelled url opts c =
     (case prepare U url of
        Inl e \<Rightarrow> (Inl e, c)
      | Inr requested \<Rightarrow>
          (case cache_get now (url_str U requested) opts c of
             (Some page, c') \<Rightarrow> (Inr page, c')
           | (None, c') \<Rightarrow>
               if cancelled then (Inl HostCancelled, c')
               else (case fst (fetch_live U N opts requested) of
                  Inl e \<Rightarrow> (Inl e, c')
                | Inr page \<Rightarrow>
                    (Inr page, if (200 \<le> fp_status page \<and> fp_status page < 300) \<or> fp_redirect page \<noteq> None
                       then cache_put now (url_str U requested) page opts c' else c'))))"

section \<open>Reserved networks\<close>

text \<open>Networks as an address and the length of their prefix.\<close>

fun v4_value :: "ipv4 \<Rightarrow> nat" where
  "v4_value (a, b, c, d) = ((unat a * 256 + unat b) * 256 + unat c) * 256 + unat d"

definition in_net :: "ipv4 \<Rightarrow> ipv4 \<times> nat \<Rightarrow> bool" where
  "in_net ip net \<longleftrightarrow> v4_value ip div 2 ^ (32 - snd net) = v4_value (fst net) div 2 ^ (32 - snd net)"

definition RESERVED :: "(ipv4 \<times> nat) list" where
  "RESERVED =
     [((0, 0, 0, 0), 8), ((10, 0, 0, 0), 8), ((100, 64, 0, 0), 10), ((127, 0, 0, 0), 8), ((169, 254, 0, 0), 16),
      ((172, 16, 0, 0), 12), ((192, 0, 2, 0), 24), ((192, 168, 0, 0), 16), ((198, 18, 0, 0), 15), ((198, 51, 100, 0), 24),
      ((203, 0, 113, 0), 24), ((224, 0, 0, 0), 4), ((240, 0, 0, 0), 4)]"

lemma prefix_div:
  fixes a b c d :: nat
  assumes "a < 256" "b < 256" "c < 256" "d < 256"
  defines "n \<equiv> ((a * 256 + b) * 256 + c) * 256 + d"
  shows "n div 256 = (a * 256 + b) * 256 + c" "n div 65536 = a * 256 + b" "n div 16777216 = a" "n div 268435456 = a div 16"
    "n div 1048576 = a * 16 + b div 16" "n div 4194304 = a * 4 + b div 64" "n div 131072 = a * 128 + b div 2"
proof -
  show 1: "n div 256 = (a * 256 + b) * 256 + c" using assms(4) by (simp add: n_def)
  show 2: "n div 65536 = a * 256 + b" using div_mult2_eq [of n 256 256] 1 assms(3) by simp
  show 3: "n div 16777216 = a" using div_mult2_eq [of n 65536 256] 2 assms(2) by simp
  show "n div 268435456 = a div 16" using div_mult2_eq [of n 16777216 16] 3 by simp
  show "n div 1048576 = a * 16 + b div 16" using div_mult2_eq [of n 65536 16] 2 by simp
  show "n div 4194304 = a * 4 + b div 64" using div_mult2_eq [of n 65536 64] 2 by simp
  show "n div 131072 = a * 128 + b div 2" using div_mult2_eq [of n 65536 2] 2 by simp
qed

lemma octet_bounds: "unat (a :: 8 word) < 256"
  using unsigned_less [of a] by simp

lemma octet_simps:
  fixes a :: "8 word"
  shows "(a = numeral n) = (unat a = unat (numeral n :: 8 word))" "(a = 0) = (unat a = 0)"
    "(numeral n \<le> a) = (unat (numeral n :: 8 word) \<le> unat a)" "(a \<le> numeral n) = (unat a \<le> unat (numeral n :: 8 word))"
    "(a < numeral n) = (unat a < unat (numeral n :: 8 word))"
  by (simp_all add: word_unat_eq_iff word_le_nat_alt word_less_nat_alt)

lemma v4_value_div:
  "v4_value (a, b, c, d) div 2 ^ (32 - 8) = unat a"
  "v4_value (a, b, c, d) div 2 ^ (32 - 16) = unat a * 256 + unat b"
  "v4_value (a, b, c, d) div 2 ^ (32 - 24) = (unat a * 256 + unat b) * 256 + unat c"
  "v4_value (a, b, c, d) div 2 ^ (32 - 4) = unat a div 16"
  "v4_value (a, b, c, d) div 2 ^ (32 - 12) = unat a * 16 + unat b div 16"
  "v4_value (a, b, c, d) div 2 ^ (32 - 10) = unat a * 4 + unat b div 64"
  "v4_value (a, b, c, d) div 2 ^ (32 - 15) = unat a * 128 + unat b div 2"
proof -
  have p: "(2::nat) ^ (32 - 8) = 16777216" "(2::nat) ^ (32 - 16) = 65536" "(2::nat) ^ (32 - 24) = 256" "(2::nat) ^ (32 - 4) = 268435456"
    "(2::nat) ^ (32 - 12) = 1048576" "(2::nat) ^ (32 - 10) = 4194304" "(2::nat) ^ (32 - 15) = 131072" by simp_all
  note d = prefix_div [OF octet_bounds octet_bounds octet_bounds octet_bounds, of a b c d]
  show "v4_value (a, b, c, d) div 2 ^ (32 - 8) = unat a"
    "v4_value (a, b, c, d) div 2 ^ (32 - 16) = unat a * 256 + unat b"
    "v4_value (a, b, c, d) div 2 ^ (32 - 24) = (unat a * 256 + unat b) * 256 + unat c"
    "v4_value (a, b, c, d) div 2 ^ (32 - 4) = unat a div 16"
    "v4_value (a, b, c, d) div 2 ^ (32 - 12) = unat a * 16 + unat b div 16"
    "v4_value (a, b, c, d) div 2 ^ (32 - 10) = unat a * 4 + unat b div 64"
    "v4_value (a, b, c, d) div 2 ^ (32 - 15) = unat a * 128 + unat b div 2"
    unfolding p v4_value.simps by (rule d)+
qed

lemma digits_eq: "r < k \<Longrightarrow> s < k \<Longrightarrow> p * k + r = q * k + s \<longleftrightarrow> p = q \<and> r = (s :: nat)"
proof -
  assume "r < k" "s < k"
  then have "(p * k + r) div k = p" "(q * k + s) div k = q" by simp_all
  then show ?thesis by (metis add_left_cancel)
qed

lemma prefix_ranges:
  fixes a b :: nat
  assumes "b < 256"
  shows "a div 16 = 14 \<longleftrightarrow> 224 \<le> a \<and> a \<le> 239"
    "a < 256 \<Longrightarrow> a div 16 = 15 \<longleftrightarrow> 240 \<le> a"
    "a * 16 + b div 16 = 2753 \<longleftrightarrow> a = 172 \<and> 16 \<le> b \<and> b \<le> 31"
    "a * 4 + b div 64 = 401 \<longleftrightarrow> a = 100 \<and> 64 \<le> b \<and> b < 128"
    "a * 128 + b div 2 = 25353 \<longleftrightarrow> a = 198 \<and> 18 \<le> b \<and> b < 20"
proof -
  have r: "b div 16 < 16" "b div 64 < 4" "b div 2 < 128" using assms by simp_all
  show "a div 16 = 14 \<longleftrightarrow> 224 \<le> a \<and> a \<le> 239" "a < 256 \<Longrightarrow> a div 16 = 15 \<longleftrightarrow> 240 \<le> a" by auto
  have "a * 16 + b div 16 = 2753 \<longleftrightarrow> a = 172 \<and> b div 16 = 1" using r digits_eq [of "b div 16" 16 1 a 172] by simp
  then show "a * 16 + b div 16 = 2753 \<longleftrightarrow> a = 172 \<and> 16 \<le> b \<and> b \<le> 31" by auto
  have "a * 4 + b div 64 = 401 \<longleftrightarrow> a = 100 \<and> b div 64 = 1" using r digits_eq [of "b div 64" 4 1 a 100] by simp
  then show "a * 4 + b div 64 = 401 \<longleftrightarrow> a = 100 \<and> 64 \<le> b \<and> b < 128" by auto
  have "a * 128 + b div 2 = 25353 \<longleftrightarrow> a = 198 \<and> b div 2 = 9" using r digits_eq [of "b div 2" 128 9 a 198] by simp
  then show "a * 128 + b div 2 = 25353 \<longleftrightarrow> a = 198 \<and> 18 \<le> b \<and> b < 20" by auto
qed

lemma in_net_simps:
  "in_net (a, b, c, d) ((x, 0, 0, 0), 8) \<longleftrightarrow> a = x"
  "in_net (a, b, c, d) ((x, y, 0, 0), 16) \<longleftrightarrow> a = x \<and> b = y"
  "in_net (a, b, c, d) ((x, y, z, 0), 24) \<longleftrightarrow> a = x \<and> b = y \<and> c = z"
  "in_net (a, b, c, d) ((224, 0, 0, 0), 4) \<longleftrightarrow> 224 \<le> a \<and> a \<le> 239"
  "in_net (a, b, c, d) ((240, 0, 0, 0), 4) \<longleftrightarrow> 240 \<le> a"
  "in_net (a, b, c, d) ((172, 16, 0, 0), 12) \<longleftrightarrow> a = 172 \<and> 16 \<le> b \<and> b \<le> 31"
  "in_net (a, b, c, d) ((100, 64, 0, 0), 10) \<longleftrightarrow> a = 100 \<and> 64 \<le> b \<and> b < 128"
  "in_net (a, b, c, d) ((198, 18, 0, 0), 15) \<longleftrightarrow> a = 198 \<and> 18 \<le> b \<and> b < 20"
proof -
  have u: "unat a < 256" "unat b < 256" "unat c < 256" "unat x < 256" "unat y < 256" "unat z < 256" by (simp_all add: octet_bounds)
  show "in_net (a, b, c, d) ((x, 0, 0, 0), 8) \<longleftrightarrow> a = x" by (simp only: in_net_def fst_conv snd_conv v4_value_div word_unat_eq_iff)
  show "in_net (a, b, c, d) ((x, y, 0, 0), 16) \<longleftrightarrow> a = x \<and> b = y"
    unfolding in_net_def fst_conv snd_conv v4_value_div word_unat_eq_iff using u by (simp only: digits_eq conj_assoc)
  show "in_net (a, b, c, d) ((x, y, z, 0), 24) \<longleftrightarrow> a = x \<and> b = y \<and> c = z"
    unfolding in_net_def fst_conv snd_conv v4_value_div word_unat_eq_iff using u by (simp only: digits_eq conj_assoc)
  show "in_net (a, b, c, d) ((224, 0, 0, 0), 4) \<longleftrightarrow> 224 \<le> a \<and> a \<le> 239"
    unfolding in_net_def fst_conv snd_conv v4_value_div octet_simps using u by (simp add: prefix_ranges)
  show "in_net (a, b, c, d) ((240, 0, 0, 0), 4) \<longleftrightarrow> 240 \<le> a"
    unfolding in_net_def fst_conv snd_conv v4_value_div octet_simps using u by (simp add: prefix_ranges)
  show "in_net (a, b, c, d) ((172, 16, 0, 0), 12) \<longleftrightarrow> a = 172 \<and> 16 \<le> b \<and> b \<le> 31"
    unfolding in_net_def fst_conv snd_conv v4_value_div octet_simps using u by (simp add: prefix_ranges)
  show "in_net (a, b, c, d) ((100, 64, 0, 0), 10) \<longleftrightarrow> a = 100 \<and> 64 \<le> b \<and> b < 128"
    unfolding in_net_def fst_conv snd_conv v4_value_div octet_simps using u by (simp add: prefix_ranges)
  show "in_net (a, b, c, d) ((198, 18, 0, 0), 15) \<longleftrightarrow> a = 198 \<and> 18 \<le> b \<and> b < 20"
    unfolding in_net_def fst_conv snd_conv v4_value_div octet_simps using u by (simp add: prefix_ranges)
qed

lemma is_public_v4_nets: "is_public_v4 ip \<longleftrightarrow> \<not> (\<exists>net \<in> set RESERVED. in_net ip net)"
proof -
  obtain a b c d where ip: "ip = (a, b, c, d)" by (cases ip)
  have "a = 255 \<longrightarrow> 240 \<le> a" by (simp add: octet_simps)
  then show ?thesis unfolding ip RESERVED_def list.set bex_simps is_public_v4.simps v4_is_private.simps v4_is_loopback.simps
      v4_is_link_local.simps v4_is_unspecified.simps v4_is_broadcast.simps v4_is_multicast.simps v4_is_documentation.simps Let_def
      insert_iff empty_iff in_net_simps
    by satx
qed

section \<open>Fetching stays on the public internet\<close>

lemma ensure_public_Inr: "ensure_public U ip host = Inr () \<longleftrightarrow> is_public ip"
  by (simp add: ensure_public_def)

lemma ensure_all_public_Inr: "ensure_all_public U host ips = Inr () \<longleftrightarrow> (\<forall>ip \<in> set ips. is_public ip)"
  by (induction ips) (auto simp: ensure_public_def)

lemma check_public_literal: "check_public U lookup url = Inr () \<Longrightarrow> host_ip U url = Some ip \<Longrightarrow> is_public ip"
  by (auto simp: check_public_def ensure_public_Inr split: option.splits)

lemma public_only: "public_only_resolve lookup host = Inr addrs \<Longrightarrow> \<forall>ip \<in> set addrs. is_public ip"
  by (auto simp: public_only_resolve_def split: sum.splits if_splits)

lemma connector_public:
  assumes "\<not> allow_private_network opts" "check_public U lookup url = Inr ()" "connector U N opts i url = Inr addrs"
  shows "\<forall>ip \<in> set addrs. is_public ip"
  using assms check_public_literal [OF assms(2)] public_only [of "connect_lookup N i"]
  by (auto simp: connector_def split: option.splits)

lemma fetch_loop_cases:
  obtains (none) "snd (fetch_loop U N opts requested (Suc n) i current) = []"
    | (last) addrs where "allow_private_network opts \<or> check_public U (check_lookup N i) current = Inr ()"
        "connector U N opts i current = Inr addrs" "snd (fetch_loop U N opts requested (Suc n) i current) = [(current, addrs)]"
    | (followed) addrs next_url where "allow_private_network opts \<or> check_public U (check_lookup N i) current = Inr ()"
        "connector U N opts i current = Inr addrs" "same_site U current next_url"
        "snd (fetch_loop U N opts requested (Suc n) i current) = (current, addrs) # snd (fetch_loop U N opts requested n (Suc i) (upgrade U next_url))"
proof (cases "if allow_private_network opts then Inr () else check_public U (check_lookup N i) current")
  case (Inl e)
  then show thesis using none by simp
next
  case (Inr u)
  then have ok: "allow_private_network opts \<or> check_public U (check_lookup N i) current = Inr ()" by (auto split: if_splits)
  show thesis
  proof (cases "connector U N opts i current")
    case (Inl e)
    then show thesis using none Inr by simp
  next
    case c: (Inr addrs)
    show thesis
    proof (cases "exchange N i current addrs")
      case (Inl e)
      then show thesis using last [OF ok c] Inr c by simp
    next
      case e: (Inr r)
      show thesis
      proof (cases "\<exists>next_url. redirect_target U current r = Inr (Some next_url) \<and> same_site U current next_url")
        case True
        then obtain v where "redirect_target U current r = Inr (Some v)" "same_site U current v" by blast
        then show thesis using followed [OF ok c] Inr c e by (simp split: prod.split)
      next
        case False
        then show thesis using last [OF ok c] Inr c e by (auto split: sum.split option.split)
      qed
    qed
  qed
qed

lemma fetch_loop_public:
  assumes "\<not> allow_private_network opts" "(url, addrs) \<in> set (snd (fetch_loop U N opts requested n i current))"
  shows "\<forall>ip \<in> set addrs. is_public ip"
  using assms(2)
proof (induction n arbitrary: i current)
  case (Suc n)
  show ?case
    by (rule fetch_loop_cases [of U N opts requested n i current])
      (use Suc connector_public [OF assms(1), of U "check_lookup N i" current N i] assms(1) in auto)
qed simp

lemma fetch_loop_length: "length (snd (fetch_loop U N opts requested n i current)) \<le> n"
proof (induction n arbitrary: i current)
  case (Suc n)
  show ?case by (rule fetch_loop_cases [of U N opts requested n i current]) (use Suc in auto)
qed simp

text \<open>Redirects that are followed stay on the site, if the upgrade to https keeps the host.\<close>

lemma fetch_loop_site:
  assumes "\<And>u v. url_set_https U u = Some v \<Longrightarrow> url_host_str U v = url_host_str U u"
    "(url, addrs) \<in> set (snd (fetch_loop U N opts requested n i current))"
  shows "bare_host U url = bare_host U current"
  using assms(2)
proof (induction n arbitrary: i current)
  case (Suc n)
  have up: "bare_host U (upgrade U v) = bare_host U v" for v
    using assms(1) by (auto simp: upgrade_def bare_host_def split: option.split)
  show ?case by (rule fetch_loop_cases [of U N opts requested n i current]) (use Suc up in \<open>auto simp: same_site_def\<close>)
qed simp

section \<open>The cache\<close>

definition cache_ok :: "page_cache \<Rightarrow> bool" where
  "cache_ok c \<longleftrightarrow> distinct (map fst c) \<and> length c \<le> CAPACITY"

lemma cache_ok_filter: "cache_ok c \<Longrightarrow> cache_ok (filter P c)"
  by (auto simp: cache_ok_def distinct_map_filter intro: le_trans [OF length_filter_le])

lemma oldest_key_mem: "c \<noteq> [] \<Longrightarrow> \<exists>k. oldest_key c = Some k \<and> k \<in> fst ` set c"
proof -
  have "foldl (\<lambda>m y. if ce_stored (snd y) < ce_stored (snd m) then y else m) x xs \<in> insert x (set xs)" for x xs
    by (induction xs arbitrary: x) fastforce+
  then show "c \<noteq> [] \<Longrightarrow> ?thesis" by (cases c) force+
qed

lemma cache_put_ok:
  assumes "cache_ok c"
  shows "cache_ok (cache_put now url page opts c)"
proof -
  define c1 where "c1 = (if length c \<ge> CAPACITY \<and> map_of c url = None
    then (case oldest_key c of Some k \<Rightarrow> filter (\<lambda>(u, _). u \<noteq> k) c | None \<Rightarrow> c) else c)"
  have c1: "cache_ok c1" using assms cache_ok_filter by (auto simp: c1_def split: option.split)
  have "length (filter (\<lambda>(u, _). u \<noteq> url) c1) < CAPACITY"
  proof (cases "map_of c url")
    case None
    show ?thesis
    proof (cases "length c \<ge> CAPACITY")
      case True
      then obtain k e where k: "oldest_key c = Some k" "(k, e) \<in> set c" 
        using oldest_key_mem [of c] by (cases "c = []") (auto simp: CAPACITY_def simp del: oldest_key.simps)
      then have "length (filter (\<lambda>(u, _). u \<noteq> k) c) < length c" by (intro length_filter_less [of "(k, e)"]) auto
      then show ?thesis using k True None assms by (auto simp: c1_def cache_ok_def simp del: filter_filter intro: le_less_trans [OF length_filter_le])
    next
      case False
      then show ?thesis by (auto simp: c1_def intro: le_less_trans [OF length_filter_le])
    qed
  next
    case (Some e)
    then have "length (filter (\<lambda>(u, _). u \<noteq> url) c) < length c" by (intro length_filter_less [of "(url, e)"]) (auto dest: map_of_SomeD)
    then show ?thesis using Some assms by (simp add: c1_def cache_ok_def)
  qed
  then show ?thesis using c1 unfolding cache_put_def c1_def [symmetric] Let_def
    by (auto simp: cache_ok_def distinct_map_filter)
qed

lemma fetch_cache_ok: "cache_ok c \<Longrightarrow> cache_ok (snd (fetch U N now cancelled url opts c))"
  by (auto simp: fetch_def cache_get_def cache_put_ok cache_ok_filter Let_def split: sum.split option.split)

text \<open>
  The caches that fetches lead to from an empty one, with the fetches made so far: the network each met, its options and
  the URL asked for.
\<close>

inductive fetched :: "'u url_lib \<Rightarrow> ('u network \<times> fetch_options \<times> string) list \<Rightarrow> page_cache \<Rightarrow> bool" for U where
  empty: "fetched U [] []"
| fetch: "fetched U h c \<Longrightarrow> fetched U ((N, opts, url) # h) (snd (fetch U N now cancelled url opts c))"

text \<open>A page that one of the fetches without private access brought for a URL.\<close>

definition brought :: "'u url_lib \<Rightarrow> 'u network \<times> fetch_options \<times> string \<Rightarrow> string \<Rightarrow> fetched_page \<Rightarrow> bool" where
  "brought U call key page \<longleftrightarrow> (case call of (N, opts, url) \<Rightarrow> \<not> allow_private_network opts \<and>
     (\<exists>r. prepare U url = Inr r \<and> url_str U r = key \<and> fst (fetch_live U N opts r) = Inr page))"

definition guarded_cache :: "'u url_lib \<Rightarrow> ('u network \<times> fetch_options \<times> string) list \<Rightarrow> page_cache \<Rightarrow> bool" where
  "guarded_cache U h c \<longleftrightarrow> (\<forall>(key, e) \<in> set c. \<not> ce_private e \<longrightarrow> (\<exists>call \<in> set h. brought U call key (ce_page e)))"

lemma guarded_cache_simps:
  "guarded_cache U h []"
  "guarded_cache U h ((key, e) # c) \<longleftrightarrow> (\<not> ce_private e \<longrightarrow> (\<exists>call \<in> set h. brought U call key (ce_page e))) \<and> guarded_cache U h c"
  "guarded_cache U h c \<Longrightarrow> guarded_cache U h (filter P c)"
  "guarded_cache U h c \<Longrightarrow> guarded_cache U (call # h) c"
  by (auto simp: guarded_cache_def; blast)+

lemma cache_put_guarded:
  assumes "guarded_cache U h c" "allow_private_network opts \<or> (\<exists>call \<in> set h. brought U call key page)"
  shows "guarded_cache U h (cache_put now key page opts c)"
  using assms by (auto simp: cache_put_def Let_def guarded_cache_simps split: option.split)

lemma cache_get_hit:
  assumes "cache_get now key opts c = (Some page, c')" "\<not> allow_private_network opts"
  shows "\<exists>e. (key, e) \<in> set c \<and> \<not> ce_private e \<and> page = (ce_page e)\<lparr>fp_from_cache := True\<rparr>"
  using assms by (auto simp: cache_get_def Let_def split: option.splits if_splits dest!: map_of_SomeD)

lemma cache_get_guarded:
  assumes "guarded_cache U h c" "cache_get now key opts c = (r, c')"
  shows "guarded_cache U h c'"
    "r = Some page \<Longrightarrow> \<not> allow_private_network opts \<Longrightarrow>
       \<exists>p. (\<exists>call \<in> set h. brought U call key p) \<and> page = p\<lparr>fp_from_cache := True\<rparr>"
proof -
  have "c' = filter (\<lambda>(_, e). now - ce_stored e < TTL) c"
    using assms(2) by (auto simp: cache_get_def Let_def split: option.splits if_splits)
  then show "guarded_cache U h c'" using guarded_cache_simps(3) [OF assms(1)] by simp
  assume "r = Some page" "\<not> allow_private_network opts"
  then show "\<exists>p. (\<exists>call \<in> set h. brought U call key p) \<and> page = p\<lparr>fp_from_cache := True\<rparr>"
    using cache_get_hit [of now key opts c page c'] assms unfolding guarded_cache_def by blast
qed

lemma fetch_guarded:
  assumes "guarded_cache U h c"
  shows "guarded_cache U ((N, opts, url) # h) (snd (fetch U N now cancelled url opts c))"
proof (cases "prepare U url")
  case (Inr r)
  obtain hit c' where g: "cache_get now (url_str U r) opts c = (hit, c')" by (cases "cache_get now (url_str U r) opts c")
  have "allow_private_network opts \<or> (\<exists>call \<in> set ((N, opts, url) # h). brought U call (url_str U r) page)"
    if "fst (fetch_live U N opts r) = Inr page" for page
    using that Inr by (auto simp: brought_def)
  then show ?thesis
    using cache_get_guarded(1) [OF guarded_cache_simps(4) [OF assms] g] Inr g
    by (auto simp: fetch_def intro!: cache_put_guarded split: option.split sum.split)
qed (use guarded_cache_simps(4) [OF assms] in \<open>simp add: fetch_def\<close>)

lemma fetched_guarded: "fetched U h c \<Longrightarrow> guarded_cache U h c"
  by (induction rule: fetched.induct) (simp_all add: guarded_cache_simps(1) fetch_guarded)

lemma fetched_ok: "fetched U h c \<Longrightarrow> cache_ok c"
  by (induction rule: fetched.induct) (simp_all add: cache_ok_def [of "[]"] fetch_cache_ok)

lemma fetch_loop_not_cached:
  "fetch_loop U N opts requested n i current = (Inr page, reqs) \<Longrightarrow> \<not> fp_from_cache page"
proof (induction n arbitrary: i current reqs)
  case (Suc n)
  then show ?case
    by (auto simp: read_page_def Let_def split: sum.splits option.splits if_splits prod.splits)
qed simp

lemma fetch_live_fresh: "fst (fetch_live U N opts r) = Inr page \<Longrightarrow> \<not> fp_from_cache page"
  unfolding fetch_live_def using fetch_loop_not_cached by (metis prod.collapse)

lemma fresh_page: "\<not> fp_from_cache p \<Longrightarrow> p\<lparr>fp_from_cache := False\<rparr> = p"
  by (cases p) simp

lemma fetch_guarded_result:
  assumes "fetched U h c" "\<not> allow_private_network opts" "fst (fetch U N now cancelled url opts c) = Inr page"
    and r: "prepare U url = Inr r"
  shows "\<exists>call. (if fp_from_cache page then call \<in> set h else call = (N, opts, url)) \<and>
    brought U call (url_str U r) (page\<lparr>fp_from_cache := False\<rparr>)"
proof -
  obtain hit c' where g: "cache_get now (url_str U r) opts c = (hit, c')" by (cases "cache_get now (url_str U r) opts c")
  show ?thesis
  proof (cases hit)
    case None
    then have live: "fst (fetch_live U N opts r) = Inr page"
      using assms(3) r g by (auto simp: fetch_def split: if_splits sum.splits)
    then show ?thesis using assms(2) r fetch_live_fresh [OF live]
      by (intro exI [of _ "(N, opts, url)"]) (simp add: brought_def fresh_page)
  next
    case (Some q)
    then have "page = q" using assms(3) r g by (simp add: fetch_def)
    with cache_get_guarded(2) [OF fetched_guarded [OF assms(1)] g Some assms(2)]
    obtain p call where p: "call \<in> set h" "brought U call (url_str U r) p" "page = p\<lparr>fp_from_cache := True\<rparr>" by blast
    have "\<not> fp_from_cache p" using p(2) by (auto simp: brought_def dest: fetch_live_fresh)
    then show ?thesis using p by (intro exI [of _ call]) (simp add: fresh_page)
  qed
qed

lemma fetch_live_public:
  "\<not> allow_private_network opts \<Longrightarrow> list_all (\<lambda>(u, addrs). list_all is_public addrs) (snd (fetch_live U N opts r))"
  unfolding list_all_iff fetch_live_def using fetch_loop_public by fast

section \<open>Properties\<close>

text \<open>
  C12. A caller without access to the private network gets pages from public addresses only. Whatever the name service and
  the servers answer and whatever fetches filled the cache before, every request of a fetch goes to public addresses; a page
  that is fresh was brought by the requests of this fetch, and a page from the cache was brought, for the same URL, by a
  fetch that was really made before, itself without access to the private network and with all its requests to public
  addresses.
\<close>

theorem guarded_pages_come_from_public_addresses:
  assumes "fetched U h c" "\<not> allow_private_network opts" "fst (fetch U N now cancelled url opts c) = Inr page"
  shows "\<exists>N' opts' url' r r' requests.
    (if fp_from_cache page then (N', opts', url') \<in> set h else (N', opts', url') = (N, opts, url)) \<and>
    prepare U url = Inr r \<and> prepare U url' = Inr r' \<and> url_str U r' = url_str U r \<and> \<not> allow_private_network opts' \<and>
    fetch_live U N' opts' r' = (Inr (page\<lparr>fp_from_cache := False\<rparr>), requests) \<and>
    list_all (\<lambda>(u, addrs). list_all is_public addrs) requests \<and>
    list_all (\<lambda>(u, addrs). list_all is_public addrs) (snd (fetch_live U N opts r))"
proof -
  obtain r where r: "prepare U url = Inr r" using assms(3) by (cases "prepare U url") (auto simp: fetch_def)
  obtain N' opts' url' where call: "if fp_from_cache page then (N', opts', url') \<in> set h else (N', opts', url') = (N, opts, url)"
    "brought U (N', opts', url') (url_str U r) (page\<lparr>fp_from_cache := False\<rparr>)"
    using fetch_guarded_result [OF assms r] by (metis prod_cases3)
  from call(2) obtain r' where r': "prepare U url' = Inr r'" "url_str U r' = url_str U r" "\<not> allow_private_network opts'"
    "fst (fetch_live U N' opts' r') = Inr (page\<lparr>fp_from_cache := False\<rparr>)" by (auto simp: brought_def)
  then have "fetch_live U N' opts' r' = (Inr (page\<lparr>fp_from_cache := False\<rparr>), snd (fetch_live U N' opts' r'))"
    by (metis prod.collapse)
  with call(1) r r' fetch_live_public [OF r'(3), of U N' r'] fetch_live_public [OF assms(2), of U N r] show ?thesis by blast
qed

text \<open>
  Fetching ends after at most six requests, and every request is for the site of the first one, if changing the
  scheme of a URL keeps its host.
\<close>

theorem redirects_stay_on_the_site:
  assumes "\<And>u v. url_set_https U u = Some v \<Longrightarrow> url_host_str U v = url_host_str U u"
  shows "length (snd (fetch_live U N opts requested)) \<le> 6 \<and>
    list_all (\<lambda>(url, _). bare_host U url = bare_host U requested) (snd (fetch_live U N opts requested))"
  using fetch_loop_site [OF assms] fetch_loop_length [of U N opts requested "Suc MAX_REDIRECTS" 0 requested]
  by (auto simp: fetch_live_def list_all_iff MAX_REDIRECTS_def simp del: fetch_loop.simps)

text \<open>
  The addresses that \<open>is_public_v4\<close> refuses are exactly those of the thirteen reserved networks.
\<close>

theorem public_v4_is_outside_the_reserved_nets: "is_public_v4 ip \<longleftrightarrow> \<not> list_ex (in_net ip) RESERVED"
  by (simp add: is_public_v4_nets list_ex_iff)

text \<open>
  Every fetch leaves the page cache with at most a hundred entries, one for each URL.
\<close>

theorem page_cache_stays_bounded: "fetched U h c \<Longrightarrow> length c \<le> CAPACITY \<and> distinct (map fst c)"
  using fetched_ok by (auto simp: cache_ok_def)

text \<open>
  An IPv4-compatible address of the loopback network counts as public: only the mapped form and NAT64 are unpacked.
\<close>

lemma compatible_loopback_is_public: "is_public (V6 (0, 0, 0, 0, 0, 0, 0x7F00, 1))"
  by code_simp

section \<open>Examples\<close>

definition sample_urls :: "string url_lib" where
  "sample_urls = \<lparr>url_parse = Inr, url_join = \<lambda>_ l. Inr l, url_scheme = \<lambda>_. ''https'', url_host_str = Some, url_port = \<lambda>_. None,
     url_set_https = Some, url_str = \<lambda>u. u, ip_parse = \<lambda>_. None, ip_str = \<lambda>_. []\<rparr>"

definition sample_net :: "string network" where
  "sample_net = \<lparr>check_lookup = \<lambda>_ _ _. Inr [V4 (93, 184, 216, 34)],
     connect_lookup = \<lambda>_ _ _. Inr [V4 (93, 184, 216, 34), V4 (10, 0, 0, 1)],
     exchange = \<lambda>i _ _. Inr (if i = 0
       then \<lparr>resp_status = 301, resp_location = Some (Some ''www.a.org''), resp_content_type = None, resp_chunks = []\<rparr>
       else \<lparr>resp_status = 200, resp_location = None, resp_content_type = None, resp_chunks = [Inr ''hi'']\<rparr>),
     page_text = \<lambda>_ b. b\<rparr>"

definition sample_page :: fetched_page where
  "sample_page = \<lparr>fp_url = ''a.org'', fp_final_url = ''www.a.org'', fp_status = 200, fp_content_type = [], fp_content = ''hi'',
     fp_redirect = None, fp_from_cache = False, fp_truncated = False\<rparr>"

lemma sample_live: "fetch_live sample_urls sample_net default_options ''a.org'' =
    (Inr sample_page, [(''a.org'', [V4 (93, 184, 216, 34)]), (''www.a.org'', [V4 (93, 184, 216, 34)])])"
proof -
  have "fetch_loop sample_urls sample_net default_options ''a.org'' (Suc (Suc n)) 0 ''a.org'' =
      (Inr sample_page, [(''a.org'', [V4 (93, 184, 216, 34)]), (''www.a.org'', [V4 (93, 184, 216, 34)])])" for n
    by (simp add: default_options_def check_public_def connector_def host_ip_def sample_urls_def sample_net_def sample_page_def
      ensure_public_def public_only_resolve_def redirect_target_def same_site_def bare_host_def upgrade_def read_page_def
      DEFAULT_FETCH_MAX_BYTES_def)
  from this [of 4] show ?thesis by (simp add: fetch_live_def MAX_REDIRECTS_def)
qed

lemma sample_options: "\<not> allow_private_network default_options" "fetched sample_urls [] []"
  by (simp_all add: default_options_def fetched.empty)

lemma sample_prepare: "prepare sample_urls ''a.org'' = Inr ''a.org''"
  by (simp add: prepare_def sample_urls_def upgrade_def) code_simp

text \<open>The second fetch of the page takes it from the cache that the first one filled.\<close>

theorem guarded_pages_come_from_public_addresses_witness:
  "\<exists>N' opts' url' r r' requests.
    (N', opts', url') \<in> set [(sample_net, default_options, ''a.org'')] \<and>
    prepare sample_urls ''a.org'' = Inr r \<and> prepare sample_urls url' = Inr r' \<and> url_str sample_urls r' = url_str sample_urls r \<and>
    \<not> allow_private_network opts' \<and> fetch_live sample_urls N' opts' r' = (Inr sample_page, requests) \<and>
    list_all (\<lambda>(u, addrs). list_all is_public addrs) requests"
proof -
  let ?c = "snd (fetch sample_urls sample_net 0 False ''a.org'' default_options [])"
  have "fetched sample_urls [(sample_net, default_options, ''a.org'')] ?c" by (intro fetched.intros)
  moreover have "fst (fetch sample_urls sample_net 1 False ''a.org'' default_options ?c) = Inr (sample_page\<lparr>fp_from_cache := True\<rparr>)"
    by (simp add: fetch_def sample_prepare cache_get_def sample_live cache_put_def sample_page_def TTL_def CAPACITY_def
        sample_options(1))
  ultimately show ?thesis
    using guarded_pages_come_from_public_addresses [OF _ sample_options(1)] by (fastforce simp: sample_page_def)
qed

theorem redirects_stay_on_the_site_witness:
  "length (snd (fetch_live sample_urls sample_net default_options ''a.org'')) \<le> 6 \<and>
    list_all (\<lambda>(url, _). bare_host sample_urls url = bare_host sample_urls ''a.org'')
      (snd (fetch_live sample_urls sample_net default_options ''a.org''))"
  by (rule redirects_stay_on_the_site) (simp add: sample_urls_def)

theorem page_cache_stays_bounded_witness:
  "length ([] :: page_cache) \<le> CAPACITY \<and> distinct (map fst ([] :: page_cache))"
  by (rule page_cache_stays_bounded [OF sample_options(2)])

end
