(* ===== verification/Syntax.thy ===== *)
theory Syntax
  imports Prelude
begin

text \<open>
  \<open>crates/z-engine-policy/src/shell/syntax.rs\<close>: words, redirects and segments, the output of the
  lexer.
\<close>

record shell_word =
  wtext :: string
  quoted :: bool
  glob :: bool
  brace :: bool
  param :: bool
  tilde :: bool
  assignment :: bool

definition default_word :: shell_word where
  "default_word = \<lparr>wtext = [], quoted = False, glob = False, brace = False, param = False,
     tilde = False, assignment = False\<rparr>"

definition expands :: "shell_word \<Rightarrow> bool" where
  "expands w \<longleftrightarrow> glob w \<or> brace w \<or> param w \<or> tilde w"

definition splits :: "shell_word \<Rightarrow> bool" where
  "splits w \<longleftrightarrow> glob w \<or> brace w \<or> param w"

datatype redirect_kind = ReadFrom | WriteTo | Duplicate | Inline

record redirect =
  kind :: redirect_kind
  target :: shell_word

definition STREAMS :: "string list" where
  "STREAMS = [''/dev/null'', ''/dev/stdout'', ''/dev/stderr'']"

definition writes_file :: "redirect \<Rightarrow> bool" where
  "writes_file r \<longleftrightarrow> kind r = WriteTo \<and> (expands (target r) \<or> wtext (target r) \<notin> set STREAMS)"

definition LEADING_KEYWORDS :: "string list" where
  "LEADING_KEYWORDS = [''!'', ''{'', ''}'', ''if'', ''then'', ''else'', ''elif'', ''fi'', ''while'',
     ''until'', ''do'', ''done'', ''esac'', ''time'']"

record segment =
  words :: "shell_word list"
  redirects :: "redirect list"

definition default_segment :: segment where
  "default_segment = \<lparr>words = [], redirects = []\<rparr>"

fun skip_keywords :: "shell_word list \<Rightarrow> shell_word list" where
  "skip_keywords [] = []"
| "skip_keywords (first # rest) =
     (if quoted first \<or> wtext first \<notin> set LEADING_KEYWORDS then first # rest
      else (case rest of
              [] \<Rightarrow> []
            | flag # after \<Rightarrow>
                if wtext first = ''time'' \<and> wtext flag = ''-p'' then skip_keywords after
                else skip_keywords (flag # after)))"

definition command :: "segment \<Rightarrow> shell_word list" where
  "command s = skip_keywords (words s)"

definition argv :: "segment \<Rightarrow> string list" where
  "argv s = map wtext (command s)"

definition write_targets :: "segment \<Rightarrow> shell_word list" where
  "write_targets s = map target (filter writes_file (redirects s))"

section \<open>Lemmas\<close>

lemma skip_keywords_stop:
  "quoted w \<or> wtext w \<notin> set LEADING_KEYWORDS \<Longrightarrow> skip_keywords (w # ws) = w # ws"
  by simp

lemma skip_keywords_skip:
  assumes "\<not> quoted w" "wtext w \<in> set LEADING_KEYWORDS"
  shows "skip_keywords [w] = []"
    and "skip_keywords (w # v # ws) =
      (if wtext w = ''time'' \<and> wtext v = ''-p'' then skip_keywords ws else skip_keywords (v # ws))"
  using assms by simp_all

declare skip_keywords.simps(2) [simp del]

lemma splits_expands: "splits w \<Longrightarrow> expands w"
  by (auto simp: splits_def expands_def)

lemma skip_keywords_cases:
  assumes "P []"
    and "\<And>w ws. quoted w \<or> wtext w \<notin> set LEADING_KEYWORDS \<Longrightarrow> P (w # ws)"
    and "\<And>w ws vs. skip_keywords (w # ws) = skip_keywords vs \<Longrightarrow> suffix vs ws \<Longrightarrow> P vs \<Longrightarrow> P (w # ws)"
  shows "P ws"
proof (induction ws rule: skip_keywords.induct)
  case (2 first rest)
  show ?case
  proof (cases "quoted first \<or> wtext first \<notin> set LEADING_KEYWORDS")
    case False
    show ?thesis
    proof (cases rest)
      case Nil
      then show ?thesis
        using assms(3) [of first "[]" "[]"] assms(1) False by (simp add: skip_keywords_skip)
    next
      case (Cons flag after)
      show ?thesis
      proof (cases "wtext first = ''time'' \<and> wtext flag = ''-p''")
        case True
        then show ?thesis
          using assms(3) [of first rest after] "2.IH"(1) Cons False
          by (simp add: skip_keywords_skip suffix_Cons)
      next
        case no: False
        then show ?thesis
          using assms(3) [of first rest "flag # after"] "2.IH"(2) Cons False
          by (auto simp: skip_keywords_skip)
      qed
    qed
  qed (rule assms(2))
qed (rule assms(1))

lemma skip_keywords_suffix: "suffix (skip_keywords ws) ws"
  by (induction ws rule: skip_keywords_cases)
     (auto simp: skip_keywords_stop intro: suffix_ConsI suffix_order.trans)

lemma skip_keywords_hd:
  "skip_keywords ws = w # ws' \<Longrightarrow> quoted w \<or> wtext w \<notin> set LEADING_KEYWORDS"
  by (induction ws rule: skip_keywords_cases) (auto simp: skip_keywords_stop)

lemma skip_keywords_idem: "skip_keywords (skip_keywords ws) = skip_keywords ws"
  using skip_keywords_hd by (cases "skip_keywords ws") (auto simp: skip_keywords_stop)

lemma set_command: "set (command s) \<subseteq> set (words s)"
  unfolding command_def by (rule set_mono_suffix [OF skip_keywords_suffix])

lemma write_targets_mem: "w \<in> set (write_targets s) \<longleftrightarrow> (\<exists>r \<in> set (redirects s). writes_file r \<and> target r = w)"
  by (auto simp: write_targets_def)

end
