(* ===== verification/Lexer.thy ===== *)
theory Lexer
  imports Syntax "HOL-Library.Monad_Syntax"
begin

text \<open>
  \<open>crates/z-engine-policy/src/shell/lexer/\<close>: the quote-aware lexer (\<open>scanner.rs\<close>, \<open>quoting.rs\<close>,
  \<open>redirect.rs\<close>, \<open>nested.rs\<close>, \<open>words.rs\<close>).

  The record \<open>lexer\<close> is the struct \<open>Lexer\<close>, with the pair \<open>chars\<close>/\<open>pos\<close> replaced by the
  characters still to be read (\<open>rest\<close> is \<open>chars[pos..]\<close>): \<open>peek\<close> is its head, \<open>pos += 1\<close> its
  tail, and a position is compared by the number of characters that remain. Every character the
  lexer dispatches on is ASCII and every other one is copied, so reading UTF-8 bytes instead of
  \<open>char\<close>s gives the same words; \<open>ansi_escape\<close>, which computes on code points, is written for
  bytes explicitly.

  The methods call each other (\<open>list\<close>, \<open>word\<close>, \<open>dollar\<close>, \<open>substitution\<close>, \<open>list\<close>, ...), so the
  model threads fuel through them and running out is \<^term>\<open>None\<close>; the theory
  \<open>Lexer_Total\<close> shows that the fuel \<open>lex\<close> starts with is always enough.
\<close>

section \<open>State\<close>

definition MAX_LEN :: nat where "MAX_LEN = 10000"
definition MAX_DEPTH :: nat where "MAX_DEPTH = 32"

record heredoc =
  delimiter :: string
  strip_tabs :: bool
  expands_body :: bool

record lexer =
  rest :: string
  depth :: nat
  ok :: bool
  dynamic :: bool
  nested :: "segment list"
  heredocs :: "heredoc list"
  word_end :: "nat option"

definition new_lexer :: "string \<Rightarrow> nat \<Rightarrow> lexer" where
  "new_lexer input d = \<lparr>rest = input, depth = d, ok = True, dynamic = False, nested = [],
     heredocs = [], word_end = None\<rparr>"

definition peek :: "lexer \<Rightarrow> char option" where
  "peek l = (case rest l of [] \<Rightarrow> None | c # _ \<Rightarrow> Some c)"

definition peek1 :: "lexer \<Rightarrow> char option" where
  "peek1 l = (case rest l of _ # c # _ \<Rightarrow> Some c | _ \<Rightarrow> None)"

definition advance :: "nat \<Rightarrow> lexer \<Rightarrow> lexer" where
  "advance n l = l\<lparr>rest := drop n (rest l)\<rparr>"

definition fail :: "lexer \<Rightarrow> lexer" where
  "fail l = l\<lparr>ok := False\<rparr>"

definition push_text :: "string \<Rightarrow> shell_word \<Rightarrow> shell_word" where
  "push_text s w = w\<lparr>wtext := wtext w @ s\<rparr>"

definition finish :: "segment list \<Rightarrow> segment \<Rightarrow> segment list \<times> segment" where
  "finish segs cur = (if words cur \<noteq> [] \<or> redirects cur \<noteq> [] then (segs @ [cur], default_segment)
                      else (segs, cur))"

section \<open>Words (words.rs)\<close>

definition is_name :: "string \<Rightarrow> bool" where
  "is_name s = (case s of [] \<Rightarrow> False
     | c # cs \<Rightarrow> (c = CHR ''_'' \<or> is_ascii_alphabetic c) \<and>
                 (\<forall>d \<in> set cs. d = CHR ''_'' \<or> is_ascii_alphanumeric d))"

definition plain :: "shell_word \<Rightarrow> char \<Rightarrow> bool \<Rightarrow> nat option \<Rightarrow> shell_word \<times> nat option" where
  "plain w c started brace_at =
     (let (w', b) =
        (if c \<in> {CHR ''*'', CHR ''?'', CHR ''[''} then (w\<lparr>glob := True\<rparr>, brace_at)
         else if c = CHR ''~'' \<and> \<not> started then (w\<lparr>tilde := True\<rparr>, brace_at)
         else if c = CHR ''{'' then (w, Some (length (wtext w)))
         else if c = CHR ''}'' then
           (case brace_at of
              Some at \<Rightarrow>
                let inner = drop at (wtext w) in
                (w\<lparr>brace := brace w \<or> contains_char CHR '','' inner \<or> contains_str ''..'' inner\<rparr>,
                 brace_at)
            | None \<Rightarrow> (w, brace_at))
         else if c = CHR ''='' \<and> \<not> assignment w \<and> \<not> quoted w \<and>
                 is_name (case strip_suffix ''+'' (wtext w) of Some t \<Rightarrow> t | None \<Rightarrow> wtext w)
           then (w\<lparr>assignment := True\<rparr>, brace_at)
         else (w, brace_at))
      in (push_text [c] w', b))"

definition names_descriptor :: "shell_word \<Rightarrow> bool" where
  "names_descriptor w =
     (let t = wtext w;
          digits = (t \<noteq> [] \<and> (\<forall>c \<in> set t. is_ascii_digit c));
          variable = (case strip_prefix ''{'' t of None \<Rightarrow> False
                      | Some r \<Rightarrow> (case strip_suffix ''}'' r of None \<Rightarrow> False | Some n \<Rightarrow> is_name n))
      in \<not> quoted w \<and> \<not> param w \<and> (digits \<or> variable))"

definition is_descriptor :: "shell_word \<Rightarrow> bool" where
  "is_descriptor w =
     (let digits = (case strip_suffix ''-'' (wtext w) of Some t \<Rightarrow> t | None \<Rightarrow> wtext w)
      in \<not> quoted w \<and> \<not> expands w \<and> (\<forall>c \<in> set digits. is_ascii_digit c))"

section \<open>Quotes (quoting.rs)\<close>

text \<open>The loop of \<open>single_quoted\<close>: what it reads, what is left, whether the quote was closed.\<close>

fun read_single :: "string \<Rightarrow> string \<times> string \<times> bool" where
  "read_single [] = ([], [], False)"
| "read_single (c # cs) =
     (if c = QUOTE then ([], cs, True)
      else let (s, r, closed) = read_single cs in (c # s, r, closed))"

definition single_quoted :: "shell_word \<Rightarrow> lexer \<Rightarrow> shell_word \<times> lexer" where
  "single_quoted w l =
     (let (s, r, closed) = read_single (rest l)
      in (push_text s (w\<lparr>quoted := True\<rparr>), l\<lparr>rest := r, ok := ok l \<and> closed\<rparr>))"

text \<open>
  \<open>code_point(radix, max)\<close>: the value of at most \<open>max\<close> digits and what is left; no digit, or a
  value that is no \<open>char\<close>, gives \<^term>\<open>None\<close>. At most eight hex digits fit a \<open>u32\<close>, so the value
  never wraps.
\<close>

fun read_digits :: "nat \<Rightarrow> nat \<Rightarrow> nat \<Rightarrow> string \<Rightarrow> nat \<times> nat \<times> string" where
  "read_digits radix 0 v s = (v, 0, s)"
| "read_digits radix (Suc m) v [] = (v, 0, [])"
| "read_digits radix (Suc m) v (c # s) =
     (case to_digit radix c of
        None \<Rightarrow> (v, 0, c # s)
      | Some d \<Rightarrow> let (v', n, r) = read_digits radix m (v * radix + d) s in (v', Suc n, r))"

definition code_point :: "nat \<Rightarrow> nat \<Rightarrow> string \<Rightarrow> nat option \<times> string" where
  "code_point radix m s =
     (let (v, n, r) = read_digits radix m 0 s
      in (if n = 0 then None else char_from_u32 v, r))"

text \<open>
  \<open>ansi_escape\<close> on the characters after the backslash: the decoded text and what is left.
  \<open>\c\<close> takes one whole character, a byte and its continuations, and keeps the low five bits of its
  code point, which are those of its last byte.
\<close>

definition decoded :: "nat option \<Rightarrow> string" where
  "decoded v = (case v of None \<Rightarrow> [] | Some n \<Rightarrow> utf8_encode n)"

definition ansi_escape :: "char \<Rightarrow> string \<Rightarrow> string \<times> string" where
  "ansi_escape c s =
     (if c = CHR ''n'' then ([CHR 0x0A], s)
      else if c = CHR ''t'' then ([CHR 0x09], s)
      else if c = CHR ''r'' then ([CHR 0x0D], s)
      else if c = CHR ''a'' then ([CHR 0x07], s)
      else if c = CHR ''b'' then ([CHR 0x08], s)
      else if c = CHR ''e'' \<or> c = CHR ''E'' then ([CHR 0x1B], s)
      else if c = CHR ''f'' then ([CHR 0x0C], s)
      else if c = CHR ''v'' then ([CHR 0x0B], s)
      else if c = CHR ''x'' then apfst decoded (code_point 16 2 s)
      else if c = CHR ''u'' then apfst decoded (code_point 16 4 s)
      else if c = CHR ''U'' then apfst decoded (code_point 16 8 s)
      else if 48 \<le> code c \<and> code c \<le> 55 then
        apfst (\<lambda>v. decoded (map_option (\<lambda>n. n mod 256) v)) (code_point 8 3 (c # s))
      else if c = CHR ''c'' then
        (case uchars s of
           [] \<Rightarrow> ([], [])
         | u # us \<Rightarrow> ([char_of (code (last u) mod 32)], concat us))
      else if c \<in> {BACKSLASH, QUOTE, DQUOTE, CHR ''?''} then ([c], s)
      else ([BACKSLASH, c], s))"

lemma length_uchars_Cons: "uchars s = u # us \<Longrightarrow> length (concat us) < length s"
  by (cases s) (auto simp: le_imp_less_Suc length_dropWhile_le)

lemma read_digits_length: "read_digits radix m v s = (v', n, r) \<Longrightarrow> length r + n = length s"
  by (induction radix m v s arbitrary: v' n r rule: read_digits.induct)
     (auto split: option.splits prod.splits)

lemma code_point_length: "code_point radix m s = (v, r) \<Longrightarrow> length r \<le> length s"
  by (auto simp: code_point_def Let_def split: prod.splits dest!: read_digits_length)

lemma code_point_octal_length:
  assumes "48 \<le> code c" "code c \<le> 55" "code_point 8 3 (c # s) = (v, r)"
  shows "length r \<le> length s"
proof -
  obtain v' n where rd: "read_digits 8 3 0 (c # s) = (v', n, r)"
    using assms(3) by (auto simp: code_point_def Let_def split: prod.splits)
  have "to_digit 8 c = Some (code c - 48)"
    using assms(1,2) by (auto simp: to_digit_def is_ascii_digit_def Let_def)
  with rd have "n \<noteq> 0"
    by (auto simp: numeral_3_eq_3 split: prod.splits)
  with read_digits_length [OF rd] show ?thesis by simp
qed

lemma ansi_escape_length: "ansi_escape c s = (t, r) \<Longrightarrow> length r \<le> length s"
  unfolding ansi_escape_def apfst_def map_prod_def
  by (auto split: if_splits prod.splits list.splits
      dest: code_point_length code_point_octal_length length_uchars_Cons)

text \<open>The loop of \<open>ansi_c\<close>.\<close>

function read_ansi :: "string \<Rightarrow> string \<times> string \<times> bool" where
  "read_ansi [] = ([], [], False)"
| "read_ansi (c # cs) =
     (if c = QUOTE then ([], cs, True)
      else if c = BACKSLASH then
        (case cs of
           [] \<Rightarrow> ([], [], False)
         | d # ds \<Rightarrow> let (t, r) = ansi_escape d ds; (s, r', closed) = read_ansi r in (t @ s, r', closed))
      else let (s, r, closed) = read_ansi cs in (c # s, r, closed))"
  by pat_completeness auto
termination
  by (relation "measure length") (auto dest!: ansi_escape_length [OF sym])

definition ansi_c :: "shell_word \<Rightarrow> lexer \<Rightarrow> shell_word \<times> lexer" where
  "ansi_c w l =
     (let (s, r, closed) = read_ansi (rest l)
      in (push_text s (w\<lparr>quoted := True\<rparr>), l\<lparr>rest := r, ok := ok l \<and> closed\<rparr>))"

section \<open>Redirections (redirect.rs)\<close>

datatype redirect_operator =
  OpRead | OpWrite | OpDuplicateOut | OpDuplicateIn | OpHeredoc bool | OpHereString

text \<open>\<open>operator\<close> on the characters from \<open><\<close>, \<open>>\<close> or \<open>&>\<close> on.\<close>

definition operator :: "string \<Rightarrow> redirect_operator \<times> string" where
  "operator s = (case s of
     [] \<Rightarrow> (OpRead, [])
   | c # r \<Rightarrow>
     if c = CHR ''&'' then
       (let r1 = drop 1 r in (OpWrite, if starts_with ''>'' r1 then tl r1 else r1))
     else if c = CHR ''>'' then
       (if starts_with ''>'' r \<or> starts_with ''|'' r then (OpWrite, tl r)
        else if starts_with ''&'' r then (OpDuplicateOut, tl r)
        else (OpWrite, r))
     else
       (if starts_with ''<'' r then
          (let r1 = tl r in
           if starts_with ''<'' r1 then (OpHereString, tl r1)
           else if starts_with ''-'' r1 then (OpHeredoc True, tl r1)
           else (OpHeredoc False, r1))
        else if starts_with ''>'' r then (OpWrite, tl r)
        else if starts_with ''&'' r then (OpDuplicateIn, tl r)
        else (OpRead, r)))"

fun redirect_kind_of :: "redirect_operator \<Rightarrow> shell_word \<Rightarrow> redirect_kind" where
  "redirect_kind_of OpRead t = ReadFrom"
| "redirect_kind_of OpWrite t = WriteTo"
| "redirect_kind_of OpDuplicateOut t = (if is_descriptor t then Duplicate else WriteTo)"
| "redirect_kind_of OpDuplicateIn t = (if is_descriptor t then Duplicate else ReadFrom)"
| "redirect_kind_of (OpHeredoc st) t = Inline"
| "redirect_kind_of OpHereString t = Inline"

text \<open>A descriptor that touches the operator (\<open>2>\<close>, \<open>{fd}>\<close>) is not an argument.\<close>

definition drop_descriptor :: "segment \<Rightarrow> lexer \<Rightarrow> segment" where
  "drop_descriptor seg l =
     (if word_end l = Some (length (rest l)) \<and> words seg \<noteq> [] \<and> names_descriptor (last (words seg))
      then seg\<lparr>words := butlast (words seg)\<rparr> else seg)"

definition add_redirect :: "redirect_operator \<Rightarrow> shell_word \<Rightarrow> segment \<Rightarrow> lexer \<Rightarrow> segment \<times> lexer" where
  "add_redirect op t seg l =
     (seg\<lparr>redirects := redirects seg @ [\<lparr>kind = redirect_kind_of op t, target = t\<rparr>]\<rparr>,
      (case op of
         OpHeredoc st \<Rightarrow>
           l\<lparr>heredocs := heredocs l @ [\<lparr>delimiter = wtext t, strip_tabs = st, expands_body = \<not> quoted t\<rparr>]\<rparr>
       | _ \<Rightarrow> l))"

section \<open>Nested commands (nested.rs): reading without recursion\<close>

function skip_to_close :: "nat \<Rightarrow> string \<Rightarrow> string" where
  "skip_to_close opened [] = []"
| "skip_to_close opened (c # cs) =
     (if c = BACKSLASH then skip_to_close opened (drop 1 cs)
      else if c = QUOTE then skip_to_close opened (drop 1 (dropWhile (\<lambda>q. q \<noteq> QUOTE) cs))
      else if c = CHR ''('' then skip_to_close (opened + 1) cs
      else if c = CHR '')'' \<and> opened = 0 then cs
      else if c = CHR '')'' then skip_to_close (opened - 1) cs
      else skip_to_close opened cs)"
  by pat_completeness auto
termination
  by (relation "measure (\<lambda>(opened, s). length s)")
     (auto intro!: le_imp_less_Suc intro: le_trans [OF diff_le_self] length_dropWhile_le)

text \<open>The loop of \<open>backtick\<close>: the unescaped inner text, what is left, whether it was closed.\<close>

fun read_backtick :: "string \<Rightarrow> string \<times> string \<times> bool" where
  "read_backtick [] = ([], [], False)"
| "read_backtick (c # cs) =
     (if c = BACKTICK then ([], cs, True)
      else if c = BACKSLASH then
        (case cs of
           [] \<Rightarrow> ([], [], False)
         | d # ds \<Rightarrow>
             let (s, r, closed) = read_backtick ds
             in ((if d \<in> {BACKTICK, BACKSLASH, DOLLAR} then d # s else BACKSLASH # d # s), r, closed))
      else let (s, r, closed) = read_backtick cs in (c # s, r, closed))"

text \<open>The body of one heredoc, what is left, whether its delimiter was found.\<close>

function read_heredoc :: "heredoc \<Rightarrow> string \<Rightarrow> string \<times> string \<times> bool" where
  "read_heredoc doc [] = ([], [], False)"
| "read_heredoc doc (c # cs) =
     (let line = takeWhile (\<lambda>x. x \<noteq> NL) (c # cs);
          after = drop (length line + 1) (c # cs);
          candidate = (if strip_tabs doc then dropWhile (\<lambda>x. x = TAB) line else line)
      in if candidate = delimiter doc then ([], after, True)
         else let (body, r, closed) = read_heredoc doc after in (line @ [NL] @ body, r, closed))"
  by pat_completeness auto
termination
  by (relation "measure (\<lambda>(doc, s). length s)") (auto simp: less_Suc_eq_le)

definition absorb :: "lexer \<Rightarrow> lexer \<Rightarrow> lexer" where
  "absorb l sub = l\<lparr>ok := ok l \<and> ok sub, dynamic := dynamic l \<or> dynamic sub,
     nested := nested l @ nested sub\<rparr>"

fun each_heredoc :: "(string \<Rightarrow> lexer \<Rightarrow> lexer option) \<Rightarrow> heredoc list \<Rightarrow> lexer \<Rightarrow> lexer option" where
  "each_heredoc f [] l = Some l"
| "each_heredoc f (doc # docs) l =
     (let (body, r, closed) = read_heredoc doc (rest l);
          l1 = l\<lparr>rest := r, ok := ok l \<and> closed\<rparr>
      in do {
        l2 \<leftarrow> (if expands_body doc then f body l1 else Some l1);
        each_heredoc f docs l2
      })"

section \<open>The mutually recursive methods\<close>

definition end_word :: "shell_word \<Rightarrow> bool \<Rightarrow> shell_word option" where
  "end_word w started =
     (if started then Some (w\<lparr>wtext := takeWhile (\<lambda>c. c \<noteq> NUL) (wtext w)\<rparr>) else None)"

definition is_name_char :: "char \<Rightarrow> bool" where
  "is_name_char c \<longleftrightarrow> c = CHR ''_'' \<or> is_ascii_alphanumeric c"

text \<open>
  The methods of \<open>Lexer\<close> call each other. Each is defined on its own, with the methods it calls as
  the record \<open>m\<close>; \<open>methods_at n\<close> ties the knot for \<open>n\<close> nested calls. A loop of the source is a
  method that calls itself.
\<close>

record methods =
  m_list :: "bool \<Rightarrow> segment list \<Rightarrow> segment \<Rightarrow> nat \<Rightarrow> lexer \<Rightarrow> (segment list \<times> lexer) option"
  m_word :: "shell_word \<Rightarrow> bool \<Rightarrow> nat option \<Rightarrow> lexer \<Rightarrow> (shell_word option \<times> lexer) option"
  m_double :: "shell_word \<Rightarrow> lexer \<Rightarrow> (shell_word \<times> lexer) option"
  m_dollar :: "shell_word \<Rightarrow> bool \<Rightarrow> lexer \<Rightarrow> (shell_word \<times> lexer) option"
  m_parameter :: "nat \<Rightarrow> shell_word \<Rightarrow> lexer \<Rightarrow> (shell_word \<times> lexer) option"
  m_substitution :: "shell_word \<Rightarrow> char \<Rightarrow> lexer \<Rightarrow> (shell_word \<times> lexer) option"
  m_backtick :: "shell_word \<Rightarrow> lexer \<Rightarrow> (shell_word \<times> lexer) option"
  m_redirect :: "segment \<Rightarrow> lexer \<Rightarrow> (segment \<times> lexer) option"
  m_heredoc_bodies :: "lexer \<Rightarrow> lexer option"
  m_body_expansions :: "string \<Rightarrow> lexer \<Rightarrow> lexer option"
  m_body :: "shell_word \<Rightarrow> lexer \<Rightarrow> lexer option"

definition list_step :: "methods \<Rightarrow> bool \<Rightarrow> segment list \<Rightarrow> segment \<Rightarrow> nat \<Rightarrow> lexer \<Rightarrow> (segment list \<times> lexer) option" where
  "list_step m in_sub segs cur groups l =
     (case rest l of
        [] \<Rightarrow>
          Some (fst (finish segs cur),
                if in_sub \<or> heredocs l \<noteq> [] then l\<lparr>ok := False, heredocs := []\<rparr> else l)
      | c # cs \<Rightarrow>
          if c = SPACE \<or> c = TAB then m_list m in_sub segs cur groups (advance 1 l)
          else if c = NL then do {
            l' \<leftarrow> m_heredoc_bodies m (advance 1 l);
            m_list m in_sub (fst (finish segs cur)) (snd (finish segs cur)) groups l'
          }
          else if c = CHR ''#'' then
            m_list m in_sub segs cur groups (l\<lparr>rest := dropWhile (\<lambda>x. x \<noteq> NL) (rest l)\<rparr>)
          else if c = CHR ''&'' \<and> peek1 l = Some (CHR ''>'') then do {
            (cur', l') \<leftarrow> m_redirect m cur l;
            m_list m in_sub segs cur' groups l'
          }
          else if c = CHR '';'' \<or> c = CHR ''&'' \<or> c = CHR ''|'' then
            m_list m in_sub (fst (finish segs cur)) (snd (finish segs cur)) groups (advance 1 l)
          else if c = CHR ''('' then
            m_list m in_sub (fst (finish segs cur)) (snd (finish segs cur)) (groups + 1) (advance 1 l)
          else if c = CHR '')'' then
            (if groups > 0 then
               m_list m in_sub (fst (finish segs cur)) (snd (finish segs cur)) (groups - 1) (advance 1 l)
             else if in_sub then Some (fst (finish segs cur), advance 1 l)
             else m_list m in_sub (fst (finish segs cur)) (snd (finish segs cur)) groups
                    (fail (advance 1 l)))
          else if (c = CHR ''<'' \<or> c = CHR ''>'') \<and> peek1 l \<noteq> Some (CHR ''('') then do {
            (cur', l') \<leftarrow> m_redirect m cur l;
            m_list m in_sub segs cur' groups l'
          }
          else do {
            (ow, l') \<leftarrow> m_word m default_word False None l;
            (case ow of
               Some w \<Rightarrow> m_list m in_sub segs (cur\<lparr>words := words cur @ [w]\<rparr>) groups
                           (l'\<lparr>word_end := Some (length (rest l'))\<rparr>)
             | None \<Rightarrow> m_list m in_sub segs cur groups l')
          })"

definition word_step :: "methods \<Rightarrow> shell_word \<Rightarrow> bool \<Rightarrow> nat option \<Rightarrow> lexer \<Rightarrow> (shell_word option \<times> lexer) option" where
  "word_step m w started brace_at l =
     (case rest l of
        [] \<Rightarrow> Some (end_word w started, l)
      | c # cs \<Rightarrow>
          if c \<in> {SPACE, TAB, NL, CHR '';'', CHR ''&'', CHR ''|'', CHR ''('', CHR '')''}
            then Some (end_word w started, l)
          else if (c = CHR ''<'' \<or> c = CHR ''>'') \<and> peek1 l \<noteq> Some (CHR ''('')
            then Some (end_word w started, l)
          else if c = CHR ''<'' \<or> c = CHR ''>'' then do {
            (w', l') \<leftarrow> m_substitution m w c (advance 2 l);
            m_word m w' True brace_at l'
          }
          else if c = QUOTE then
            (case single_quoted w (advance 1 l) of (w', l') \<Rightarrow> m_word m w' True brace_at l')
          else if c = DQUOTE then do {
            (w', l') \<leftarrow> m_double m (w\<lparr>quoted := True\<rparr>) (advance 1 l);
            m_word m w' True brace_at l'
          }
          else if c = BACKSLASH then
            (case cs of
               [] \<Rightarrow> m_word m (push_text [BACKSLASH] w) True brace_at (advance 1 l)
             | d # _ \<Rightarrow>
                 if d = NL then m_word m w started brace_at (advance 2 l)
                 else m_word m (push_text [d] (w\<lparr>quoted := True\<rparr>)) True brace_at (advance 2 l))
          else if c = DOLLAR then do {
            (w', l') \<leftarrow> m_dollar m w False l;
            m_word m w' True brace_at l'
          }
          else if c = BACKTICK then do {
            (w', l') \<leftarrow> m_backtick m w (advance 1 l);
            m_word m w' True brace_at l'
          }
          else (case plain w c started brace_at of (w', b) \<Rightarrow> m_word m w' True b (advance 1 l)))"

definition double_step :: "methods \<Rightarrow> shell_word \<Rightarrow> lexer \<Rightarrow> (shell_word \<times> lexer) option" where
  "double_step m w l =
     (case rest l of
        [] \<Rightarrow> Some (w, fail l)
      | c # cs \<Rightarrow>
          if c = DQUOTE then Some (w, advance 1 l)
          else if c = BACKSLASH then
            (case cs of
               [] \<Rightarrow> Some (w, fail (advance 1 l))
             | d # _ \<Rightarrow>
                 if d = NL then m_double m w (advance 2 l)
                 else if d \<in> {DOLLAR, BACKTICK, DQUOTE, BACKSLASH}
                   then m_double m (push_text [d] w) (advance 2 l)
                 else m_double m (push_text [BACKSLASH, d] w) (advance 2 l))
          else if c = DOLLAR then do {
            (w', l') \<leftarrow> m_dollar m w True l;
            m_double m w' l'
          }
          else if c = BACKTICK then do {
            (w', l') \<leftarrow> m_backtick m w (advance 1 l);
            m_double m w' l'
          }
          else m_double m (push_text [c] w) (advance 1 l))"

definition dollar_step :: "methods \<Rightarrow> shell_word \<Rightarrow> bool \<Rightarrow> lexer \<Rightarrow> (shell_word \<times> lexer) option" where
  "dollar_step m w in_double l =
     (let l1 = advance 1 l in
      case rest l1 of
        [] \<Rightarrow> Some (push_text [DOLLAR] w, l1)
      | c # cs \<Rightarrow>
          if c = CHR ''('' then m_substitution m w DOLLAR (advance 1 l1)
          else if c = CHR ''{'' then
            m_parameter m 1 (push_text [DOLLAR, CHR ''{''] (w\<lparr>param := True\<rparr>)) (advance 1 l1)
          else if c = QUOTE \<and> \<not> in_double then Some (ansi_c w (advance 1 l1))
          else if c = DQUOTE \<and> \<not> in_double then m_double m (w\<lparr>quoted := True\<rparr>) (advance 1 l1)
          else if c = CHR ''['' then
            Some (push_text [DOLLAR] (w\<lparr>param := True\<rparr>), l1\<lparr>dynamic := True\<rparr>)
          else if c = CHR ''_'' \<or> is_ascii_alphabetic c then
            (let name = takeWhile is_name_char (rest l1)
             in Some (push_text (DOLLAR # name) (w\<lparr>param := True\<rparr>), advance (length name) l1))
          else if is_ascii_digit c \<or> contains_char c ''@*#?$!-'' then
            Some (push_text [DOLLAR, c] (w\<lparr>param := True\<rparr>), advance 1 l1)
          else Some (push_text [DOLLAR] w, l1))"

definition parameter_step :: "methods \<Rightarrow> nat \<Rightarrow> shell_word \<Rightarrow> lexer \<Rightarrow> (shell_word \<times> lexer) option" where
  "parameter_step m d w l =
     (if d = 0 then Some (w, l)
      else case rest l of
        [] \<Rightarrow> Some (w, fail l)
      | c # cs \<Rightarrow>
          if c = QUOTE then
            (case single_quoted w (advance 1 l) of (w', l') \<Rightarrow> m_parameter m d w' l')
          else if c = DQUOTE then do {
            (w', l') \<leftarrow> m_double m (w\<lparr>quoted := True\<rparr>) (advance 1 l);
            m_parameter m d w' l'
          }
          else if c = DOLLAR then do {
            (w', l') \<leftarrow> m_dollar m w True l;
            m_parameter m d w' l'
          }
          else if c = BACKTICK then do {
            (w', l') \<leftarrow> m_backtick m w (advance 1 l);
            m_parameter m d w' l'
          }
          else if c = BACKSLASH then m_parameter m d (push_text (take 1 cs) w) (advance 2 l)
          else m_parameter m
                 (if c = CHR ''{'' then d + 1 else if c = CHR ''}'' then d - 1 else d)
                 (push_text [c] w) (advance 1 l))"

definition substitution_step :: "methods \<Rightarrow> shell_word \<Rightarrow> char \<Rightarrow> lexer \<Rightarrow> (shell_word \<times> lexer) option" where
  "substitution_step m w sigil l = do {
     l' \<leftarrow> (if depth l \<ge> MAX_DEPTH
             then Some (l\<lparr>dynamic := True, ok := False, rest := skip_to_close 0 (rest l)\<rparr>)
             else do {
               (segs, l1) \<leftarrow> m_list m True [] default_segment 0
                 (l\<lparr>dynamic := True, depth := depth l + 1, heredocs := []\<rparr>);
               Some (l1\<lparr>ok := ok l1 \<and> heredocs l1 = [], heredocs := heredocs l,
                        depth := depth l1 - 1, nested := nested l1 @ segs\<rparr>)
             });
     Some (push_text (sigil # CHR ''('' # take (length (rest l) - length (rest l')) (rest l))
             (w\<lparr>param := True\<rparr>), l')
   }"

definition backtick_step :: "methods \<Rightarrow> shell_word \<Rightarrow> lexer \<Rightarrow> (shell_word \<times> lexer) option" where
  "backtick_step m w l =
     (let (inner, r, closed) = read_backtick (rest l);
          l1 = l\<lparr>dynamic := True, rest := r, ok := ok l \<and> closed\<rparr>;
          w1 = push_text (BACKTICK # inner @ [BACKTICK]) (w\<lparr>param := True\<rparr>)
      in if depth l \<ge> MAX_DEPTH then Some (w1, fail l1)
         else do {
           (segs, sub) \<leftarrow> m_list m False [] default_segment 0 (new_lexer inner (depth l + 1));
           Some (w1, absorb (l1\<lparr>nested := nested l1 @ segs\<rparr>) sub)
         })"

definition redirect_step :: "methods \<Rightarrow> segment \<Rightarrow> lexer \<Rightarrow> (segment \<times> lexer) option" where
  "redirect_step m seg l =
     (let seg0 = drop_descriptor seg l;
          (op, r) = operator (rest l);
          l1 = l\<lparr>rest := dropWhile (\<lambda>c. c = SPACE \<or> c = TAB) r\<rparr>
      in do {
        (ow, l2) \<leftarrow> m_word m default_word False None l1;
        Some (case ow of None \<Rightarrow> (seg0, fail l2) | Some t \<Rightarrow> add_redirect op t seg0 l2)
      })"

definition heredoc_bodies_step :: "methods \<Rightarrow> lexer \<Rightarrow> lexer option" where
  "heredoc_bodies_step m l =
     each_heredoc (\<lambda>body l'. m_body_expansions m body l') (heredocs l) (l\<lparr>heredocs := []\<rparr>)"

definition body_expansions_step :: "methods \<Rightarrow> string \<Rightarrow> lexer \<Rightarrow> lexer option" where
  "body_expansions_step m body l =
     (if depth l \<ge> MAX_DEPTH then Some (fail l)
      else do {
        sub \<leftarrow> m_body m default_word (new_lexer body (depth l + 1));
        Some (absorb l sub)
      })"

definition body_step :: "methods \<Rightarrow> shell_word \<Rightarrow> lexer \<Rightarrow> lexer option" where
  "body_step m sink sub =
     (case rest sub of
        [] \<Rightarrow> Some sub
      | c # cs \<Rightarrow>
          if c = BACKSLASH then m_body m sink (advance 2 sub)
          else if c = DOLLAR then do {
            (sink', sub') \<leftarrow> m_dollar m sink True sub;
            m_body m sink' sub'
          }
          else if c = BACKTICK then do {
            (sink', sub') \<leftarrow> m_backtick m sink (advance 1 sub);
            m_body m sink' sub'
          }
          else m_body m sink (advance 1 sub))"

primrec methods_at :: "nat \<Rightarrow> methods" where
  "methods_at 0 =
     \<lparr>m_list = (\<lambda>_ _ _ _ _. None),
      m_word = (\<lambda>_ _ _ _. None),
      m_double = (\<lambda>_ _. None),
      m_dollar = (\<lambda>_ _ _. None),
      m_parameter = (\<lambda>_ _ _. None),
      m_substitution = (\<lambda>_ _ _. None),
      m_backtick = (\<lambda>_ _. None),
      m_redirect = (\<lambda>_ _. None),
      m_heredoc_bodies = (\<lambda>_. None),
      m_body_expansions = (\<lambda>_ _. None),
      m_body = (\<lambda>_ _. None)\<rparr>"
| "methods_at (Suc n) = (let m = methods_at n in
     \<lparr>m_list = list_step m,
      m_word = word_step m,
      m_double = double_step m,
      m_dollar = dollar_step m,
      m_parameter = parameter_step m,
      m_substitution = substitution_step m,
      m_backtick = backtick_step m,
      m_redirect = redirect_step m,
      m_heredoc_bodies = heredoc_bodies_step m,
      m_body_expansions = body_expansions_step m,
      m_body = body_step m\<rparr>)"

lemma methods_at_Suc [simp]:
  "m_list (methods_at (Suc n)) = list_step (methods_at n)"
  "m_word (methods_at (Suc n)) = word_step (methods_at n)"
  "m_double (methods_at (Suc n)) = double_step (methods_at n)"
  "m_dollar (methods_at (Suc n)) = dollar_step (methods_at n)"
  "m_parameter (methods_at (Suc n)) = parameter_step (methods_at n)"
  "m_substitution (methods_at (Suc n)) = substitution_step (methods_at n)"
  "m_backtick (methods_at (Suc n)) = backtick_step (methods_at n)"
  "m_redirect (methods_at (Suc n)) = redirect_step (methods_at n)"
  "m_heredoc_bodies (methods_at (Suc n)) = heredoc_bodies_step (methods_at n)"
  "m_body_expansions (methods_at (Suc n)) = body_expansions_step (methods_at n)"
  "m_body (methods_at (Suc n)) = body_step (methods_at n)"
  by (simp_all add: Let_def)

lemmas methods_at_numeral = methods_at_Suc [of "pred_numeral k" for k, folded numeral_eq_Suc]

declare methods_at.simps(2) [simp del]

section \<open>Entry point\<close>

record lexed =
  lsegments :: "segment list"
  lnested :: "segment list"
  lok :: bool
  ldynamic :: bool

text \<open>
  Each call that reads no character is followed by one that does within three calls, and a nested
  lexer is one level deeper than the one that made it, up to 32 levels.
\<close>

definition lex_fuel :: "string \<Rightarrow> nat" where
  "lex_fuel input = 4 * length input + 400"

definition lex_run :: "string \<Rightarrow> (segment list \<times> lexer) option" where
  "lex_run input = m_list (methods_at (lex_fuel input)) False [] default_segment 0
     ((new_lexer input 0)\<lparr>ok := length input \<le> MAX_LEN\<rparr>)"

definition lex :: "string \<Rightarrow> lexed" where
  "lex input = (case lex_run input of
     Some (segs, l) \<Rightarrow> \<lparr>lsegments = segs, lnested = nested l, lok = ok l, ldynamic = dynamic l\<rparr>
   | None \<Rightarrow> \<lparr>lsegments = [], lnested = [], lok = False, ldynamic = True\<rparr>)"

end
