(* ===== verification/Wrappers.thy ===== *)
theory Wrappers
  imports Lexer
begin

text \<open>
  \<open>crates/z-engine-policy/src/shell/fields.rs\<close> and \<open>shell/wrappers.rs\<close>: the commands a segment may
  run indirectly, which deny and ask rules check beside the literal one.

  \<open>expand\<close> is one step of indirection, \<open>executed_commands\<close> a search over it with a budget. The
  lemmas say what the search finds: only commands \<open>expand\<close> reaches, each once, and all of them
  unless the returned flag is set.
\<close>

section \<open>Run-time readings of expanding words (fields.rs)\<close>

text \<open>
  Characters up to and including the close that matches, or all of them; the caller starts it at an
  opening character, so \<open>d\<close> never drops below zero.
\<close>

fun close_at :: "char \<Rightarrow> char \<Rightarrow> nat \<Rightarrow> string \<Rightarrow> nat" where
  "close_at op cl d [] = 0"
| "close_at op cl d (c # cs) =
     (if c = op then Suc (close_at op cl (d + 1) cs)
      else if c = cl then (if d - 1 = 0 then 1 else Suc (close_at op cl (d - 1) cs))
      else Suc (close_at op cl d cs))"

text \<open>Length of the expansion at the head of the text, 0 when there is none.\<close>

definition expansion_end :: "string \<Rightarrow> nat" where
  "expansion_end s = (case s of
     d # r \<Rightarrow>
       if d \<noteq> DOLLAR then 0
       else (case r of
         [] \<Rightarrow> 0
       | c # _ \<Rightarrow>
           if c = CHR ''{'' then 1 + close_at CHR ''{'' CHR ''}'' 0 r
           else if c = CHR ''('' then 1 + close_at CHR ''('' CHR '')'' 0 r
           else if is_ascii_digit c \<or> contains_char c ''@*#?$!-'' then 2
           else if c = CHR ''_'' \<or> is_ascii_alphabetic c then 1 + length (takeWhile is_name_char r)
           else 0)
   | [] \<Rightarrow> 0)"

text \<open>The loop of \<open>fields\<close>; the last of \<open>fs\<close> is the field that grows.\<close>

function fields_loop :: "string list \<Rightarrow> string \<Rightarrow> string \<Rightarrow> string list \<times> string" where
  "fields_loop fs joined [] = (fs, joined)"
| "fields_loop fs joined (c # cs) =
     (if expansion_end (c # cs) > 0 then fields_loop (fs @ [[]]) joined (drop (expansion_end (c # cs)) (c # cs))
      else fields_loop (butlast fs @ [last fs @ [c]]) (joined @ [c]) cs)"
  by pat_completeness auto
termination
  by (relation "measure (\<lambda>(fs, joined, s). length s)") auto

definition fields :: "string \<Rightarrow> string list \<times> string" where
  "fields s = (let (fs, joined) = fields_loop [[]] [] s in (filter (\<lambda>f. f \<noteq> []) fs, joined))"

definition with_text :: "shell_word \<Rightarrow> string \<Rightarrow> shell_word" where
  "with_text w s = w\<lparr>wtext := s, param := False\<rparr>"

fun split_reading :: "shell_word list \<Rightarrow> shell_word list" where
  "split_reading [] = []"
| "split_reading (w # ws) =
     (if \<not> param w then [w] else map (with_text w) (fst (fields (wtext w)))) @ split_reading ws"

fun joined_reading :: "shell_word list \<Rightarrow> shell_word list" where
  "joined_reading [] = []"
| "joined_reading (w # ws) =
     (if \<not> param w then [w]
      else let j = snd (fields (wtext w)) in if j \<noteq> [] then [with_text w j] else []) @ joined_reading ws"

definition expansion_readings :: "shell_word list \<Rightarrow> (shell_word list \<times> shell_word list) option" where
  "expansion_readings ws =
     (if \<not> (\<exists>w \<in> set ws. param w) then None else Some (split_reading ws, joined_reading ws))"

section \<open>One step of indirection (wrappers.rs)\<close>

definition WRAPPERS :: "string list" where
  "WRAPPERS = [''sudo'', ''doas'', ''pkexec'', ''runuser'', ''env'', ''nohup'', ''time'', ''command'',
     ''builtin'', ''exec'', ''nice'', ''ionice'', ''renice'', ''stdbuf'', ''timeout'', ''gtimeout'',
     ''xargs'', ''caffeinate'', ''chrt'', ''taskset'', ''setsid'', ''unbuffer'', ''flock'', ''busybox'',
     ''watch'', ''strace'', ''ltrace'', ''nsenter'', ''chroot'', ''parallel'']"

definition SHELLS :: "string list" where
  "SHELLS = [''sh'', ''bash'', ''zsh'', ''dash'', ''ksh'', ''mksh'', ''ash'', ''fish'', ''su'']"

definition FIND_ACTIONS :: "string list" where
  "FIND_ACTIONS = [''-exec'', ''-execdir'', ''-ok'', ''-okdir'']"

definition MAX_CANDIDATES :: nat where "MAX_CANDIDATES = 256"
definition MAX_WRAP_DEPTH :: nat where "MAX_WRAP_DEPTH = 8"

fun shell_script_args :: "shell_word list \<Rightarrow> string option" where
  "shell_script_args [] = None"
| "shell_script_args (w # args) =
     (case strip_prefix ''--command='' (wtext w) of
        Some script \<Rightarrow> Some script
      | None \<Rightarrow>
          if wtext w = ''--command'' \<or>
             (case strip_prefix ''-'' (wtext w) of None \<Rightarrow> False
              | Some flags \<Rightarrow> \<not> starts_with ''-'' flags \<and> contains_char CHR ''c'' flags)
          then map_option wtext (List.find (\<lambda>next. \<not> starts_with ''-'' (wtext next)) args)
          else shell_script_args args)"

definition shell_script :: "shell_word list \<Rightarrow> string option" where
  "shell_script ws = shell_script_args (drop 1 ws)"

fun split_string_args :: "shell_word list \<Rightarrow> string option" where
  "split_string_args [] = None"
| "split_string_args (w # args) =
     (if wtext w = ''-S'' \<or> wtext w = ''--split-string'' then
        (case args of [] \<Rightarrow> None | next # _ \<Rightarrow> Some (wtext next))
      else (case strip_prefix ''--split-string='' (wtext w) of
        Some v \<Rightarrow> Some v
      | None \<Rightarrow>
        (case strip_prefix ''-S'' (wtext w) of
           Some v \<Rightarrow> if v \<noteq> [] then Some v else split_string_args args
         | None \<Rightarrow> split_string_args args)))"

definition split_string :: "shell_word list \<Rightarrow> string option" where
  "split_string ws = split_string_args (drop 1 ws)"

function find_actions :: "shell_word list \<Rightarrow> shell_word list list" where
  "find_actions [] = []"
| "find_actions (w # ws) =
     (if wtext w \<in> set FIND_ACTIONS then
        let c = takeWhile (\<lambda>v. wtext v \<noteq> '';'' \<and> wtext v \<noteq> ''+'') ws
        in (if c \<noteq> [] then [c] else []) @ find_actions (drop (length c) ws)
      else find_actions ws)"
  by pat_completeness auto
termination
  by (relation "measure length") auto

definition script_commands :: "string \<Rightarrow> segment list" where
  "script_commands script =
     (let l = lex script
      in map (\<lambda>s. \<lparr>words = command s, redirects = redirects s\<rparr>) (lsegments l @ lnested l))"

definition join_words :: "shell_word list \<Rightarrow> string" where
  "join_words ws = join_with '' '' (map wtext ws)"

text \<open>The arguments a wrapper may run: every later word that is no option starts a command.\<close>

fun wrapped_suffixes :: "shell_word list \<Rightarrow> shell_word list list" where
  "wrapped_suffixes [] = []"
| "wrapped_suffixes (w # ws) =
     (if \<not> starts_with ''-'' (wtext w) then [w # ws] else []) @ wrapped_suffixes ws"

definition base_name :: "string \<Rightarrow> string" where
  "base_name s = last (split_on CHR ''/'' s)"

definition script_of :: "string \<Rightarrow> shell_word list \<Rightarrow> string option" where
  "script_of name ws =
     (if name \<in> set SHELLS then shell_script ws
      else if name = ''eval'' \<or> name = ''watch'' then Some (join_words (drop 1 ws))
      else if name = ''env'' then split_string ws
      else None)"

definition expand :: "segment \<Rightarrow> segment list" where
  "expand candidate =
     (case words candidate of
        [] \<Rightarrow> []
      | first # args \<Rightarrow>
          let ws = first # args;
              with = (\<lambda>vs. \<lparr>words = vs, redirects = redirects candidate\<rparr>);
              out = map with (filter (\<lambda>r. r \<noteq> [])
                (case expansion_readings ws of None \<Rightarrow> [] | Some (split, joined) \<Rightarrow> [split, joined]));
              assignments = length (takeWhile assignment ws);
              base = base_name (wtext first);
              name = to_ascii_lowercase base
          in if assignments > 0 then out @ [with (drop assignments ws)]
             else if base \<noteq> wtext first \<and> base \<noteq> [] then out @ [with (first\<lparr>wtext := base\<rparr> # args)]
             else out
               @ (if name \<in> set WRAPPERS then map with (wrapped_suffixes args) else [])
               @ (case script_of name ws of None \<Rightarrow> [] | Some script \<Rightarrow> script_commands script)
               @ (if name = ''find'' then map with (find_actions ws) else []))"

section \<open>The search\<close>

text \<open>The loop of \<open>executed_commands\<close>; the queue is a stack whose top is the head of the list.\<close>

function executed_loop ::
  "segment list \<Rightarrow> bool \<Rightarrow> (segment \<times> nat) list \<Rightarrow> segment list \<times> bool" where
  "executed_loop found truncated [] = (found, truncated)"
| "executed_loop found truncated ((candidate, d) # queue) =
     (if candidate \<in> set found then executed_loop found truncated queue
      else if length found \<ge> MAX_CANDIDATES then (found, True)
      else let next = expand candidate
           in if d \<ge> MAX_WRAP_DEPTH
              then executed_loop (found @ [candidate]) (truncated \<or> next \<noteq> []) queue
              else executed_loop (found @ [candidate]) truncated
                     (rev (map (\<lambda>s. (s, d + 1)) next) @ queue))"
  by pat_completeness auto
termination
  by (relation "measures [\<lambda>(found, _, _). MAX_CANDIDATES - length found, \<lambda>(_, _, queue). length queue]") auto

definition command_segment :: "segment \<Rightarrow> segment" where
  "command_segment s = \<lparr>words = command s, redirects = redirects s\<rparr>"

definition executed_commands :: "segment \<Rightarrow> segment list \<times> bool" where
  "executed_commands s = executed_loop [] False [(command_segment s, 0)]"

section \<open>What the search finds\<close>

text \<open>The specification of \<open>executed_commands\<close>: what a command may run, in any number of steps.\<close>

inductive may_run :: "segment \<Rightarrow> segment \<Rightarrow> bool" for s where
  may_run_self: "may_run s s"
| may_run_step: "may_run s c \<Longrightarrow> c' \<in> set (expand c) \<Longrightarrow> may_run s c'"

declare executed_loop.simps(2) [simp del]

lemma executed_loop_seen:
  "candidate \<in> set found \<Longrightarrow> executed_loop found tr ((candidate, d) # queue) = executed_loop found tr queue"
  by (simp add: executed_loop.simps(2))

lemma executed_loop_full:
  "candidate \<notin> set found \<Longrightarrow> length found \<ge> MAX_CANDIDATES \<Longrightarrow>
   executed_loop found tr ((candidate, d) # queue) = (found, True)"
  by (simp add: executed_loop.simps(2))

lemma executed_loop_deep:
  "candidate \<notin> set found \<Longrightarrow> length found < MAX_CANDIDATES \<Longrightarrow> d \<ge> MAX_WRAP_DEPTH \<Longrightarrow>
   executed_loop found tr ((candidate, d) # queue) =
     executed_loop (found @ [candidate]) (tr \<or> expand candidate \<noteq> []) queue"
  by (simp add: executed_loop.simps(2))

lemma executed_loop_push:
  "candidate \<notin> set found \<Longrightarrow> length found < MAX_CANDIDATES \<Longrightarrow> d < MAX_WRAP_DEPTH \<Longrightarrow>
   executed_loop found tr ((candidate, d) # queue) =
     executed_loop (found @ [candidate]) tr (rev (map (\<lambda>s. (s, d + 1)) (expand candidate)) @ queue)"
  by (simp add: executed_loop.simps(2) Let_def)

text \<open>The induction of every proof about the search: one case per branch of the loop.\<close>

lemma executed_loop_induct [case_names empty seen full deep push]:
  assumes "\<And>found tr. P found tr []"
    and "\<And>found tr c d queue. c \<in> set found \<Longrightarrow> P found tr queue \<Longrightarrow> P found tr ((c, d) # queue)"
    and "\<And>found tr c d queue. c \<notin> set found \<Longrightarrow> length found \<ge> MAX_CANDIDATES \<Longrightarrow> P found tr ((c, d) # queue)"
    and "\<And>found tr c d queue. c \<notin> set found \<Longrightarrow> length found < MAX_CANDIDATES \<Longrightarrow> d \<ge> MAX_WRAP_DEPTH \<Longrightarrow>
      P (found @ [c]) (tr \<or> expand c \<noteq> []) queue \<Longrightarrow> P found tr ((c, d) # queue)"
    and "\<And>found tr c d queue. c \<notin> set found \<Longrightarrow> length found < MAX_CANDIDATES \<Longrightarrow> d < MAX_WRAP_DEPTH \<Longrightarrow>
      P (found @ [c]) tr (rev (map (\<lambda>s. (s, d + 1)) (expand c)) @ queue) \<Longrightarrow> P found tr ((c, d) # queue)"
  shows "P found tr queue"
proof (induction found tr queue rule: executed_loop.induct)
  case (2 found tr c d queue)
  show ?case
  proof (cases "c \<in> set found")
    case True
    then show ?thesis using 2 assms(2) by blast
  next
    case new: False
    show ?thesis
    proof (cases "length found \<ge> MAX_CANDIDATES")
      case True
      then show ?thesis using new assms(3) by blast
    next
      case room: False
      then show ?thesis using new 2 assms(4,5) by (cases "d \<ge> MAX_WRAP_DEPTH") simp_all
    qed
  qed
qed (use assms in blast)

lemmas executed_loop_eqs = executed_loop_seen executed_loop_full executed_loop_deep executed_loop_push

lemma executed_loop_extends: "\<exists>more. fst (executed_loop found tr queue) = found @ more"
  by (induction found tr queue rule: executed_loop_induct) (auto simp: executed_loop_eqs)

lemma executed_loop_distinct:
  "distinct found \<Longrightarrow> distinct (fst (executed_loop found tr queue))"
  by (induction found tr queue rule: executed_loop_induct) (auto simp: executed_loop_eqs)

lemma executed_loop_length:
  "length found \<le> MAX_CANDIDATES \<Longrightarrow> length (fst (executed_loop found tr queue)) \<le> MAX_CANDIDATES"
  by (induction found tr queue rule: executed_loop_induct) (auto simp: executed_loop_eqs)

lemma executed_loop_may_run:
  assumes "\<forall>c \<in> set found \<union> fst ` set queue. may_run s c"
  shows "\<forall>c \<in> set (fst (executed_loop found tr queue)). may_run s c"
  using assms
proof (induction found tr queue rule: executed_loop_induct)
  case (push found tr c d queue)
  then have "\<forall>c' \<in> set (expand c). may_run s c'" by (auto intro: may_run_step)
  then have "\<forall>c' \<in> set (found @ [c]) \<union> fst ` set (rev (map (\<lambda>s. (s, d + 1)) (expand c)) @ queue). may_run s c'"
    using push.prems by auto
  from push.IH [OF this] show ?case using push.hyps by (simp add: executed_loop_push)
qed (simp_all add: executed_loop_eqs)

lemma executed_loop_flag: "\<not> snd (executed_loop found tr queue) \<Longrightarrow> \<not> tr"
  by (induction found tr queue rule: executed_loop_induct) (auto simp: executed_loop_eqs)

text \<open>Without the flag, the result holds the queue and is closed under \<open>expand\<close>.\<close>

lemma executed_loop_closed:
  assumes "\<not> snd (executed_loop found tr queue)"
    and "\<forall>c \<in> set found. set (expand c) \<subseteq> set found \<union> fst ` set queue"
  shows "fst ` set queue \<subseteq> set (fst (executed_loop found tr queue)) \<and>
    (\<forall>c \<in> set (fst (executed_loop found tr queue)). set (expand c) \<subseteq> set (fst (executed_loop found tr queue)))"
  using assms
proof (induction found tr queue rule: executed_loop_induct)
  case (seen found tr c d queue)
  have "set found \<subseteq> set (fst (executed_loop found tr queue))"
    using executed_loop_extends [of found tr queue] by auto
  moreover have "\<forall>c \<in> set found. set (expand c) \<subseteq> set found \<union> fst ` set queue"
    using seen.prems(2) seen.hyps by auto
  ultimately show ?case using seen by (auto simp: executed_loop_seen)
next
  case (deep found tr c d queue)
  have none: "expand c = []"
    using deep executed_loop_flag by (fastforce simp: executed_loop_deep)
  have "c \<in> set (fst (executed_loop (found @ [c]) tr queue))"
    using executed_loop_extends [of "found @ [c]" tr queue] by auto
  moreover have "\<forall>c' \<in> set (found @ [c]). set (expand c') \<subseteq> set (found @ [c]) \<union> fst ` set queue"
    using deep.prems(2) none by auto
  ultimately show ?case using deep none by (auto simp: executed_loop_deep)
next
  case (push found tr c d queue)
  let ?q = "rev (map (\<lambda>s. (s, d + 1)) (expand c)) @ queue"
  have q: "fst ` set ?q = set (expand c) \<union> fst ` set queue" by (simp add: image_Un image_image)
  have "c \<in> set (fst (executed_loop (found @ [c]) tr ?q))"
    using executed_loop_extends [of "found @ [c]" tr ?q] by auto
  moreover have "\<forall>c' \<in> set (found @ [c]). set (expand c') \<subseteq> set (found @ [c]) \<union> fst ` set ?q"
    using push.prems(2) unfolding q by auto
  ultimately show ?case using push unfolding q by (auto simp: executed_loop_push)
qed (simp_all add: executed_loop_full)

lemma executed_commands_hd:
  "\<exists>more. fst (executed_commands s) = command_segment s # more"
  using executed_loop_extends [of "[command_segment s]" False
      "rev (map (\<lambda>s. (s, 1)) (expand (command_segment s)))"]
  by (auto simp: executed_commands_def executed_loop_push MAX_CANDIDATES_def MAX_WRAP_DEPTH_def)

lemma executed_commands_sound:
  "c \<in> set (fst (executed_commands s)) \<Longrightarrow> may_run (command_segment s) c"
  using executed_loop_may_run [of "[]" "[(command_segment s, 0)]" "command_segment s" False]
  by (auto simp: executed_commands_def intro: may_run_self)

lemma executed_commands_closed:
  assumes "\<not> snd (executed_commands s)" "may_run (command_segment s) c"
  shows "c \<in> set (fst (executed_commands s))"
  using assms(2)
proof induction
  case may_run_self
  show ?case using executed_commands_hd [of s] by auto
next
  case (may_run_step c c')
  with executed_loop_closed [of "[]" False "[(command_segment s, 0)]"] assms(1)
  show ?case by (auto simp: executed_commands_def)
qed

lemma executed_commands_distinct: "distinct (fst (executed_commands s))"
  by (simp add: executed_commands_def executed_loop_distinct)

lemma executed_commands_length: "length (fst (executed_commands s)) \<le> MAX_CANDIDATES"
  by (simp add: executed_commands_def executed_loop_length)

end
