(* ===== verification/Sed.thy ===== *)
theory Sed
  imports Syntax "HOL-Library.Monad_Syntax"
begin

text \<open>
  \<open>crates/z-engine-policy/src/shell/sed_script.rs\<close> and \<open>shell/sed.rs\<close>: the sed script grammar and
  the calls of \<open>sed\<close> whose script only prints, deletes or substitutes.

  The struct \<open>Script\<close> is its unread characters, \<open>chars[at..]\<close>; a method that returns \<open>bool\<close> and
  moves \<open>at\<close> is a function to \<^typ>\<open>string list option\<close>, \<^term>\<open>None\<close> for \<open>false\<close>.
\<close>

type_synonym script = "string list"

section \<open>The script grammar (sed_script.rs)\<close>

abbreviation uskip :: "(string \<Rightarrow> bool) \<Rightarrow> script \<Rightarrow> script" where
  "uskip keep s \<equiv> dropWhile keep s"

definition is_blank :: "string \<Rightarrow> bool" where
  "is_blank c \<longleftrightarrow> c = '' '' \<or> c = [TAB]"

definition is_digit_char :: "string \<Rightarrow> bool" where
  "is_digit_char c \<longleftrightarrow> (case c of [d] \<Rightarrow> is_ascii_digit d | _ \<Rightarrow> False)"

definition skip_blanks :: "script \<Rightarrow> script" where
  "skip_blanks s = uskip is_blank s"

definition usable_delimiter :: "string \<Rightarrow> bool" where
  "usable_delimiter c \<longleftrightarrow> c \<notin> {[BACKSLASH], [NL], ''['', '']''}"

text \<open>A replacement or \<open>y\<close> part up to the delimiter.\<close>

fun literal :: "string \<Rightarrow> script \<Rightarrow> script option" where
  "literal delim [] = None"
| "literal delim (c # cs) =
     (if c = [NL] then None
      else if c = delim then Some cs
      else if c = [BACKSLASH] then (case cs of [] \<Rightarrow> None | _ # r \<Rightarrow> literal delim r)
      else literal delim cs)"

text \<open>The inner loop of \<open>bracket\<close>: a class \<open>[:alpha:]\<close> up to its kind and a closing bracket.\<close>

fun bracket_class :: "string \<Rightarrow> string \<Rightarrow> script \<Rightarrow> script option" where
  "bracket_class delim knd [] = None"
| "bracket_class delim knd (c # cs) =
     (if c = [NL] \<or> c = delim then None
      else if c = knd \<and> (case cs of d # _ \<Rightarrow> d = '']'' | [] \<Rightarrow> False) then Some (tl cs)
      else bracket_class delim knd cs)"

lemma bracket_class_length: "bracket_class delim knd s = Some r \<Longrightarrow> length r < length s"
  by (induction delim knd s rule: bracket_class.induct) (auto split: if_splits)

definition opens_class :: "script \<Rightarrow> bool" where
  "opens_class s = (case s of k # _ \<Rightarrow> k \<in> {'':'', ''='', ''.''} | [] \<Rightarrow> False)"

function bracket_items :: "string \<Rightarrow> script \<Rightarrow> script option" where
  "bracket_items delim [] = None"
| "bracket_items delim (c # cs) =
     (if c = [NL] \<or> c = delim then None
      else if c = '']'' then Some cs
      else if c = ''['' \<and> opens_class cs then
        (case bracket_class delim (hd cs) (tl cs) of None \<Rightarrow> None | Some r \<Rightarrow> bracket_items delim r)
      else bracket_items delim cs)"
  by pat_completeness auto
termination
  by (relation "measure (\<lambda>(delim, s). length s)")
     (auto simp: opens_class_def split: list.splits dest!: bracket_class_length)

definition bracket :: "string \<Rightarrow> script \<Rightarrow> script option" where
  "bracket delim s =
     (let s1 = (if starts_with [''^''] s then tl s else s);
          s2 = (if starts_with ['']''] s1 then tl s1 else s1)
      in bracket_items delim s2)"

lemma bracket_items_length: "bracket_items delim s = Some r \<Longrightarrow> length r < length s"
proof (induction delim s rule: bracket_items.induct)
  case (2 delim c cs)
  consider "c = [NL] \<or> c = delim" | "c = '']''"
    | "c \<noteq> [NL]" "c \<noteq> delim" "c \<noteq> '']''" "c = ''[''" "opens_class cs"
    | "c \<noteq> [NL]" "c \<noteq> delim" "c \<noteq> '']''" "\<not> (c = ''['' \<and> opens_class cs)"
    by blast
  then show ?case
  proof cases
    case 3
    then obtain r' where r': "bracket_class delim (hd cs) (tl cs) = Some r'" "bracket_items delim r' = Some r"
      using "2.prems" by (auto split: option.splits)
    have "length r < length r'" using "2.IH"(1) [OF _ _ _ r'] 3 by simp
    with bracket_class_length [OF r'(1)] show ?thesis by simp
  next
    case 4
    then have "bracket_items delim cs = Some r" using "2.prems" by (auto split: if_splits)
    then have "length r < length cs" using "2.IH"(2) 4 by blast
    then show ?thesis by simp
  qed (use "2.prems" in \<open>auto split: if_splits\<close>)
qed simp

lemma bracket_length: "bracket delim s = Some r \<Longrightarrow> length r < length s"
  unfolding bracket_def Let_def by (drule bracket_items_length) (auto split: if_splits)

function regex :: "string \<Rightarrow> script \<Rightarrow> script option" where
  "regex delim [] = None"
| "regex delim (c # cs) =
     (if c = [NL] then None
      else if c = delim then Some cs
      else if c = [BACKSLASH] then (case cs of [] \<Rightarrow> None | _ # r \<Rightarrow> regex delim r)
      else if c = ''['' then (case bracket delim cs of None \<Rightarrow> None | Some r \<Rightarrow> regex delim r)
      else regex delim cs)"
  by pat_completeness auto
termination
  by (relation "measure (\<lambda>(delim, s). length s)") (auto dest!: bracket_length)

definition address_flags :: "script \<Rightarrow> script" where
  "address_flags s = uskip (\<lambda>c. c = ''I'' \<or> c = ''M'') s"

definition address :: "script \<Rightarrow> script option" where
  "address s = (case s of
     [] \<Rightarrow> Some []
   | c # cs \<Rightarrow>
       if is_digit_char c then
         (let r = uskip is_digit_char s
          in Some (if starts_with [''~''] r then uskip is_digit_char (tl r) else r))
       else if c = ''+'' \<or> c = ''~'' then Some (uskip is_digit_char cs)
       else if c = ''$'' then Some cs
       else if c = ''/'' then map_option address_flags (regex ''/'' cs)
       else if c = [BACKSLASH] then
         (case cs of
            [] \<Rightarrow> None
          | d # r \<Rightarrow> if usable_delimiter d then map_option address_flags (regex d r) else None)
       else Some s)"

definition substitution :: "script \<Rightarrow> script option" where
  "substitution s = (case s of
     [] \<Rightarrow> None
   | d # r \<Rightarrow>
       if \<not> usable_delimiter d then None
       else do {
         r1 \<leftarrow> regex d r;
         r2 \<leftarrow> literal d r1;
         Some (uskip (\<lambda>c. c \<in> {''g'', ''p'', ''i'', ''I'', ''m'', ''M''} \<or> is_digit_char c) r2)
       })"

definition transliteration :: "script \<Rightarrow> script option" where
  "transliteration s = (case s of
     [] \<Rightarrow> None
   | d # r \<Rightarrow> if usable_delimiter d then do { r1 \<leftarrow> literal d r; literal d r1 } else None)"

function skip_bangs :: "script \<Rightarrow> script" where
  "skip_bangs [] = []"
| "skip_bangs (c # cs) = (if c = ''!'' then skip_bangs (skip_blanks cs) else c # cs)"
  by pat_completeness auto
termination
  by (relation "measure length") (auto simp: skip_blanks_def le_imp_less_Suc length_dropWhile_le)

text \<open>The addresses and negations before a command.\<close>

definition addresses :: "script \<Rightarrow> script option" where
  "addresses s = do {
     s1 \<leftarrow> address s;
     let s2 = skip_blanks s1;
     s3 \<leftarrow> (if starts_with ['',''] s2 then address (skip_blanks (tl s2)) else Some s2);
     Some (skip_bangs (skip_blanks s3))
   }"

definition SIMPLE_COMMANDS :: "string list" where
  "SIMPLE_COMMANDS = [''p'', ''P'', ''d'', ''D'', ''n'', ''N'', ''='', ''g'', ''G'', ''h'', ''H'', ''x'',
     ''z'', ''F'', ''}'']"

text \<open>What follows the letter of a command other than \<open>{\<close>.\<close>

definition sed_function :: "string \<Rightarrow> script \<Rightarrow> script option" where
  "sed_function c cs =
     (if c \<in> set SIMPLE_COMMANDS then Some cs
      else if c \<in> {''l'', ''q'', ''Q''} then Some (uskip is_digit_char (skip_blanks cs))
      else if c \<in> {''b'', ''t'', ''T'', '':''} then Some (uskip (\<lambda>x. x \<noteq> '';'' \<and> x \<noteq> [NL]) cs)
      else if c \<in> {''a'', ''i'', ''c''} then Some (uskip (\<lambda>x. x \<noteq> [NL]) cs)
      else if c = ''s'' then substitution cs
      else if c = ''y'' then transliteration cs
      else None)"

definition ends_command :: "script \<Rightarrow> bool" where
  "ends_command s = (case s of [] \<Rightarrow> True | c # _ \<Rightarrow> c \<in> {'';'', [NL], ''}'', ''#''})"

definition between_commands :: "string \<Rightarrow> bool" where
  "between_commands c \<longleftrightarrow> is_whitespace c \<or> c = '';''"

section \<open>Reading never moves back\<close>

lemma length_uskip [simp]: "length (uskip P s) \<le> length s"
  by (rule length_dropWhile_le)

lemma length_skip_blanks [simp]: "length (skip_blanks s) \<le> length s"
  by (simp add: skip_blanks_def)

lemma literal_length: "literal delim s = Some r \<Longrightarrow> length r < length s"
proof (induction delim s rule: literal.induct)
  case (2 delim c cs)
  then show ?case by (cases cs) (auto split: if_splits)
qed simp

lemma regex_length: "regex delim s = Some r \<Longrightarrow> length r < length s"
proof (induction delim s rule: regex.induct)
  case (2 delim c cs)
  consider "c = [NL]" | "c \<noteq> [NL]" "c = delim" | "c \<noteq> [NL]" "c \<noteq> delim" "c = [BACKSLASH]"
    | "c \<noteq> [NL]" "c \<noteq> delim" "c \<noteq> [BACKSLASH]" "c = ''[''"
    | "c \<noteq> [NL]" "c \<noteq> delim" "c \<noteq> [BACKSLASH]" "c \<noteq> ''[''"
    by blast
  then show ?case
  proof cases
    case 3
    then obtain d r' where r': "cs = d # r'" "regex delim r' = Some r"
      using "2.prems" by (cases cs) auto
    then show ?thesis using "2.IH"(1) 3 by fastforce
  next
    case 4
    then obtain r' where r': "bracket delim cs = Some r'" "regex delim r' = Some r"
      using "2.prems" by (auto split: option.splits)
    then have "length r < length r'" using "2.IH"(2) 4 by blast
    with bracket_length [OF r'(1)] show ?thesis by simp
  next
    case 5
    then show ?thesis using "2.IH"(3) "2.prems" by fastforce
  qed (use "2.prems" in auto)
qed simp

lemma address_flags_length: "length (address_flags s) \<le> length s"
  by (simp add: address_flags_def)

lemma address_length: "address s = Some r \<Longrightarrow> length r \<le> length s"
proof (cases s)
  case (Cons c cs)
  assume a: "address s = Some r"
  have digits: "length (uskip is_digit_char (tl (uskip is_digit_char s))) \<le> length s"
    by (rule le_trans [OF length_uskip]) (simp add: le_diff_conv le_SucI)
  have re: "length (address_flags r') \<le> length s" if "regex d t = Some r'" "length t \<le> length s" for d t r'
    using regex_length [OF that(1)] address_flags_length [of r'] that(2) by simp
  have "length (uskip is_digit_char (c # cs)) \<le> Suc (length cs)" by (metis length_uskip length_Cons)
  then show ?thesis
    using a digits re
    unfolding Cons address_def Let_def list.case
    by (auto simp del: dropWhile.simps split: if_splits list.splits intro: le_SucI)
qed (simp add: address_def)

lemma skip_bangs_length: "length (skip_bangs s) \<le> length s"
proof (induction s rule: skip_bangs.induct)
  case (2 c cs)
  then show ?case by (auto intro: le_SucI le_trans [OF _ length_skip_blanks])
qed simp

lemma addresses_length:
  assumes "addresses s = Some r"
  shows "length r \<le> length s"
proof -
  obtain s1 s3 where s: "address s = Some s1"
    "(if starts_with ['',''] (skip_blanks s1) then address (skip_blanks (tl (skip_blanks s1))) else Some (skip_blanks s1)) = Some s3"
    "r = skip_bangs (skip_blanks s3)"
    using assms by (auto simp: addresses_def Let_def bind_eq_Some_conv)
  have "length s3 \<le> length (skip_blanks s1)"
    using s(2) address_length [of "skip_blanks (tl (skip_blanks s1))" s3]
      length_skip_blanks [of "tl (skip_blanks s1)"] by (auto split: if_splits)
  then show ?thesis
    using address_length [OF s(1)] length_skip_blanks [of s1] length_skip_blanks [of s3]
      skip_bangs_length [of "skip_blanks s3"] unfolding s(3) by (meson le_trans)
qed

lemma sed_function_length:
  assumes "sed_function c cs = Some r"
  shows "length r \<le> length cs"
proof -
  have sub: "length r \<le> length cs" if "substitution cs = Some r"
    using that unfolding substitution_def
    by (auto simp: bind_eq_Some_conv split: list.splits if_splits dest!: regex_length literal_length
        intro: le_trans [OF length_uskip])
  have tr: "length r \<le> length cs" if "transliteration cs = Some r"
    using that unfolding transliteration_def
    by (auto simp: bind_eq_Some_conv split: list.splits if_splits dest!: literal_length)
  have "length (uskip is_digit_char (skip_blanks cs)) \<le> length cs"
    by (rule le_trans [OF length_uskip length_skip_blanks])
  with assms sub tr show ?thesis
    unfolding sed_function_def by (elim if_eqE) (simp_all, (erule subst, rule length_uskip)+)
qed

section \<open>Scripts\<close>

function commands :: "script \<Rightarrow> bool" where
  "commands s =
     (let s0 = uskip between_commands s in
      if s0 = [] then True
      else if hd s0 = ''#'' then commands (uskip (\<lambda>c. c \<noteq> [NL]) s0)
      else (case addresses s0 of
        None \<Rightarrow> False
      | Some [] \<Rightarrow> False
      | Some (c # cs) \<Rightarrow>
          if c = ''{'' then commands cs
          else (case sed_function c cs of
            None \<Rightarrow> False
          | Some r \<Rightarrow> if ends_command (skip_blanks r) then commands (skip_blanks r) else False)))"
  by pat_completeness auto
termination
proof (relation "measure length", goal_cases)
  case (2 s s0)
  then obtain c cs where s0: "s0 = c # cs" by (meson neq_Nil_conv)
  have "length s0 \<le> length s" using 2(1) by simp
  moreover have "c = ''#''" using 2 s0 by (metis list.sel(1))
  then have "length (uskip (\<lambda>c. c \<noteq> [NL]) s0) < length s0"
    unfolding s0 by (simp add: le_imp_less_Suc length_dropWhile_le)
  ultimately show ?case by simp
next
  case (3 s s0 t c cs)
  then have "length (c # cs) \<le> length s0" "length s0 \<le> length s" by (auto dest: addresses_length)
  then show ?case by simp
next
  case (4 s s0 t c cs r)
  then have "length (c # cs) \<le> length s0" "length s0 \<le> length s" by (auto dest: addresses_length)
  moreover have "length (skip_blanks r) \<le> length cs"
    using 4 sed_function_length le_trans length_skip_blanks by metis
  ultimately show ?case by simp
qed simp

declare commands.simps [simp del]

definition script_is_safe :: "string \<Rightarrow> bool" where
  "script_is_safe s = commands (uchars s)"

section \<open>Calls of sed (sed.rs)\<close>

record sed_call =
  in_place :: bool
  files :: "shell_word list"

text \<open>The loop over a cluster of short options; \<open>args\<close> are the words after it.\<close>

fun sed_cluster ::
  "string \<Rightarrow> string list \<Rightarrow> bool \<Rightarrow> shell_word list \<Rightarrow> (string list \<times> bool \<times> shell_word list) option" where
  "sed_cluster [] scripts inp args = Some (scripts, inp, args)"
| "sed_cluster (flag # cluster) scripts inp args =
     (if flag \<in> {CHR ''n'', CHR ''E'', CHR ''r'', CHR ''s'', CHR ''u'', CHR ''z''}
        then sed_cluster cluster scripts inp args
      else if flag = CHR ''e'' \<and> cluster = [] then
        (case args of [] \<Rightarrow> None | a # as \<Rightarrow> Some (scripts @ [wtext a], inp, as))
      else if flag = CHR ''e'' then Some (scripts @ [cluster], inp, args)
      else if flag = CHR ''i'' \<or> flag = CHR ''I'' then
        Some (scripts, True,
          if cluster = [] \<and> (case args of [] \<Rightarrow> False | a # _ \<Rightarrow> wtext a = [] \<or> starts_with ''.'' (wtext a))
          then drop 1 args else args)
      else if flag = CHR ''l'' then Some (scripts, inp, if cluster = [] then drop 1 args else args)
      else None)"

definition LONG_FLAGS :: "string list" where
  "LONG_FLAGS = [''quiet'', ''silent'', ''regexp-extended'', ''separate'', ''unbuffered'', ''null-data'',
     ''posix'', ''sandbox'', ''debug'', ''follow-symlinks'']"

definition sed_long ::
  "string \<Rightarrow> string list \<Rightarrow> bool \<Rightarrow> shell_word list \<Rightarrow> (string list \<times> bool \<times> shell_word list) option" where
  "sed_long long scripts inp args =
     (let (name, val) = (case split_once ''='' long of Some (n, v) \<Rightarrow> (n, Some v) | None \<Rightarrow> (long, None))
      in if name \<in> set LONG_FLAGS then Some (scripts, inp, args)
         else if name = ''expression'' then
           (case val of
              Some v \<Rightarrow> Some (scripts @ [v], inp, args)
            | None \<Rightarrow> (case args of [] \<Rightarrow> None | a # as \<Rightarrow> Some (scripts @ [wtext a], inp, as)))
         else if name = ''in-place'' then Some (scripts, True, args)
         else if name = ''line-length'' then Some (scripts, inp, if val = None then drop 1 args else args)
         else None)"

lemma sed_cluster_length: "sed_cluster cl sc ip args = Some (sc', ip', args') \<Longrightarrow> length args' \<le> length args"
proof (induction cl sc ip args rule: sed_cluster.induct)
  case (2 flag cluster sc ip args)
  from "2.prems" show ?case
    unfolding sed_cluster.simps
    by (elim if_eqE) (use "2.IH" in \<open>auto split: list.splits if_splits\<close>)
qed simp

lemma sed_long_length: "sed_long long sc ip args = Some (sc', ip', args') \<Longrightarrow> length args' \<le> length args"
  unfolding sed_long_def Let_def prod.case_eq_if
  by (elim if_eqE) (auto split: option.splits list.splits if_splits)

text \<open>The main loop of \<open>parse_call\<close>.\<close>

function sed_options ::
  "shell_word list \<Rightarrow> string list \<Rightarrow> shell_word list \<Rightarrow> bool \<Rightarrow> bool \<Rightarrow>
   (string list \<times> shell_word list \<times> bool) option" where
  "sed_options [] scripts pos inp options = Some (scripts, pos, inp)"
| "sed_options (w # args) scripts pos inp options =
     (if \<not> options \<or> \<not> starts_with ''-'' (wtext w) \<or> wtext w = ''-'' then
        sed_options args scripts (pos @ [w]) inp options
      else if wtext w = ''--'' then sed_options args scripts pos inp False
      else (case (case strip_prefix ''--'' (wtext w) of
              Some long \<Rightarrow> sed_long long scripts inp args
            | None \<Rightarrow> sed_cluster (drop 1 (wtext w)) scripts inp args) of
          None \<Rightarrow> None
        | Some (scripts', inp', args') \<Rightarrow> sed_options args' scripts' pos inp' options))"
  by pat_completeness auto
termination
  by (relation "measure (\<lambda>(args, _). length args)")
     (auto simp: le_imp_less_Suc split: option.splits dest!: sed_cluster_length sed_long_length)

definition parse_call :: "shell_word list \<Rightarrow> sed_call option" where
  "parse_call args =
     (if \<exists>w \<in> set args. splits w then None
      else (case sed_options args [] [] False True of
        None \<Rightarrow> None
      | Some (scripts, pos, inp) \<Rightarrow>
          (case (if scripts = [] then (case pos of [] \<Rightarrow> None | p # ps \<Rightarrow> Some ([wtext p], ps)) else Some (scripts, pos)) of
             None \<Rightarrow> None
           | Some (scripts', files') \<Rightarrow>
               if script_is_safe (join_with [NL] scripts') then Some \<lparr>in_place = inp, files = files'\<rparr> else None)))"

section \<open>What an accepted script is\<close>

lemma uchars_ascii: "(\<forall>c \<in> set s. code c < 128) \<Longrightarrow> uchars s = map (\<lambda>c. [c]) s"
proof (induction s)
  case (Cons c s)
  then have "takeWhile is_continuation s = []" "dropWhile is_continuation s = s"
    by (cases s; simp add: is_continuation_def)+
  with Cons show ?case by simp
qed simp

lemma commands_Nil [simp]: "commands []"
  by (simp add: commands.simps)

text \<open>A part of a regular expression or replacement that needs no escape.\<close>

definition unescaped :: "string \<Rightarrow> script \<Rightarrow> bool" where
  "unescaped delim s \<longleftrightarrow> (\<forall>c \<in> set s. c \<noteq> delim \<and> c \<noteq> [NL] \<and> c \<noteq> [BACKSLASH] \<and> c \<noteq> ''['')"

lemma regex_unescaped:
  "usable_delimiter delim \<Longrightarrow> unescaped delim p \<Longrightarrow> regex delim (p @ delim # r) = Some r"
  by (induction p) (auto simp: unescaped_def usable_delimiter_def)

lemma literal_unescaped:
  "usable_delimiter delim \<Longrightarrow> unescaped delim p \<Longrightarrow> literal delim (p @ delim # r) = Some r"
  by (induction p) (auto simp: unescaped_def usable_delimiter_def)

definition sed_flag :: "string \<Rightarrow> bool" where
  "sed_flag c \<longleftrightarrow> c \<in> {''g'', ''p'', ''i'', ''I'', ''m'', ''M''} \<or> is_digit_char c"

lemma substitution_unescaped:
  assumes "usable_delimiter delim" "unescaped delim p" "unescaped delim q"
  shows "substitution (delim # p @ delim # q @ delim # fs) = Some (dropWhile sed_flag fs)"
  using assms by (simp add: substitution_def regex_unescaped literal_unescaped sed_flag_def [abs_def])

lemma addresses_letter: "addresses (''s'' # cs) = Some (''s'' # cs)"
  by (simp add: addresses_def address_def is_digit_char_def is_ascii_digit_def skip_blanks_def is_blank_def)

lemma commands_substitution:
  assumes "usable_delimiter delim" "unescaped delim p" "unescaped delim q"
  shows "commands (''s'' # delim # p @ delim # q @ delim # fs) =
    (let r = skip_blanks (dropWhile sed_flag fs) in ends_command r \<and> commands r)"
  by (subst commands.simps)
     (simp add: between_commands_def is_whitespace_def addresses_letter sed_function_def
       SIMPLE_COMMANDS_def substitution_unescaped [OF assms] Let_def)

end
