(* ===== verification/Git.thy ===== *)
theory Git
  imports Syntax
begin

text \<open>
  \<open>crates/z-engine-policy/src/shell/git.rs\<close>: the \<open>git\<close> calls that only inspect or list.
\<close>

definition INSPECT :: "string list" where
  "INSPECT = [''status'', ''diff'', ''log'', ''show'', ''rev-parse'', ''ls-files'', ''blame'', ''describe'',
     ''ls-tree'', ''cat-file'', ''rev-list'', ''merge-base'', ''show-ref'', ''shortlog'', ''grep'']"

definition FORBIDDEN :: "string list" where
  "FORBIDDEN = [''--output'', ''--ext-diff'', ''--open-files-in-pager'', ''--textconv'', ''--filters'']"

definition BRANCH_FLAGS :: "string list" where
  "BRANCH_FLAGS = [''--all'', ''--remotes'', ''--list'', ''--verbose'', ''--show-current'', ''--no-color'',
     ''--color'', ''--column'', ''--no-column'', ''--ignore-case'', ''--omit-empty'', ''--no-abbrev'', ''--quiet'']"

definition TAG_FLAGS :: "string list" where
  "TAG_FLAGS = [''--list'', ''--column'', ''--no-column'', ''--ignore-case'', ''--color'']"

definition LIST_FILTERS :: "string list" where
  "LIST_FILTERS = [''--contains'', ''--no-contains'', ''--merged'', ''--no-merged'', ''--points-at'']"

definition CONFIG_READS :: "string list" where
  "CONFIG_READS = [''--get'', ''--get-all'', ''--get-regexp'', ''--get-urlmatch'', ''--get-color'',
     ''--get-colorbool'', ''--list'', ''-l'']"

definition CONFIG_WRITES :: "string list" where
  "CONFIG_WRITES = [''--add'', ''--unset'', ''--unset-all'', ''--replace-all'', ''--rename-section'',
     ''--remove-section'', ''--edit'', ''-e'', ''set'', ''unset'', ''rename-section'', ''remove-section'', ''edit'']"

definition GLOBAL_FLAGS :: "string list" where
  "GLOBAL_FLAGS = [''--no-pager'', ''-P'', ''--no-optional-locks'', ''--literal-pathspecs'']"

text \<open>The loop over the options before the subcommand.\<close>

fun skip_globals :: "shell_word list \<Rightarrow> shell_word list" where
  "skip_globals [] = []"
| "skip_globals (flag # tail) =
     (if wtext flag \<in> set GLOBAL_FLAGS then skip_globals tail
      else (case tail of
              dir # tail' \<Rightarrow> if wtext flag = ''-C'' then skip_globals tail' else flag # tail
            | [] \<Rightarrow> [flag]))"

definition forbidden :: "string \<Rightarrow> bool" where
  "forbidden s = (\<exists>flag \<in> set FORBIDDEN. s = flag \<or>
     (case strip_prefix flag s of Some v \<Rightarrow> starts_with ''='' v | None \<Rightarrow> False))"

definition known_cluster :: "string \<Rightarrow> string \<Rightarrow> bool" where
  "known_cluster short cluster \<longleftrightarrow>
     cluster \<noteq> [] \<and> (\<forall>c \<in> set cluster. contains_char c short \<or> (c = CHR ''n'' \<and> short = ''li'')) \<or>
     short = ''li'' \<and> starts_with ''n'' cluster \<and> (\<forall>c \<in> set (drop 1 cluster). is_ascii_digit c)"

fun lists_loop :: "string list \<Rightarrow> string \<Rightarrow> string list \<Rightarrow> bool \<Rightarrow> nat \<Rightarrow> bool" where
  "lists_loop flags short [] listing names \<longleftrightarrow> names = 0 \<or> listing"
| "lists_loop flags short (t # args) listing names =
     (let (flag, has_value) = (case split_once ''='' t of Some (f, _) \<Rightarrow> (f, True) | None \<Rightarrow> (t, False)) in
      if flag \<in> set LIST_FILTERS then
        (if has_value then lists_loop flags short args True names
         else (case args of
                 nxt # args' \<Rightarrow> if \<not> starts_with ''-'' nxt then lists_loop flags short args' True names
                               else lists_loop flags short (nxt # args') True names
               | [] \<Rightarrow> lists_loop flags short [] True names))
      else if flag = ''--sort'' \<or> flag = ''--format'' then
        (if has_value then lists_loop flags short args listing names
         else (case args of nxt # args' \<Rightarrow> lists_loop flags short args' listing names
               | [] \<Rightarrow> lists_loop flags short [] listing names))
      else if flag \<in> set flags \<or> starts_with ''--abbrev'' flag then
        lists_loop flags short args (listing \<or> flag = ''--list'') names
      else (case strip_prefix ''-'' t of
        Some cluster \<Rightarrow>
          if known_cluster short cluster
          then lists_loop flags short args (listing \<or> contains_char CHR ''l'' cluster) names
          else False
      | None \<Rightarrow> lists_loop flags short args listing (names + 1)))"

definition lists_only :: "string list \<Rightarrow> string list \<Rightarrow> string \<Rightarrow> bool" where
  "lists_only args flags short = lists_loop flags short args False 0"

definition CONFIG_SCOPE :: "string list" where
  "CONFIG_SCOPE = [''--global'', ''--local'', ''--system'', ''--worktree'', ''--show-origin'', ''--show-scope'']"

definition config_reads_only :: "string list \<Rightarrow> bool" where
  "config_reads_only args =
     (if \<exists>t \<in> set args. t \<in> set CONFIG_WRITES then False
      else if (\<exists>t \<in> set args. t \<in> set CONFIG_READS) \<or>
              (case args of t # _ \<Rightarrow> t = ''get'' \<or> t = ''list'' | [] \<Rightarrow> False) then True
      else length (filter (\<lambda>t. \<not> starts_with ''-'' t) args) = 1 \<and>
           (\<forall>t \<in> set args. \<not> starts_with ''-'' t \<or> t \<in> set CONFIG_SCOPE))"

definition git_subcommand :: "string \<Rightarrow> string list \<Rightarrow> bool" where
  "git_subcommand name texts =
     (if name = ''--version'' \<or> name = ''version'' then True
      else if name = ''grep'' \<and> (\<exists>t \<in> set texts. starts_with ''-O'' t) then False
      else if name \<in> set INSPECT then \<not> (\<exists>t \<in> set texts. forbidden t)
      else if name = ''branch'' then lists_only texts BRANCH_FLAGS ''arlviq''
      else if name = ''tag'' then lists_only texts TAG_FLAGS ''li''
      else if name = ''remote'' then
        texts = [] \<or> texts = [''-v''] \<or> texts = [''--verbose''] \<or>
        (case texts of t # _ \<Rightarrow> t = ''get-url'' | [] \<Rightarrow> False)
      else if name = ''stash'' then (case texts of t # _ \<Rightarrow> t = ''list'' \<or> t = ''show'' | [] \<Rightarrow> False)
      else if name = ''worktree'' then (case texts of t # _ \<Rightarrow> t = ''list'' | [] \<Rightarrow> False)
      else if name = ''config'' then config_reads_only texts
      else False)"

definition git_is_read_only :: "shell_word list \<Rightarrow> bool" where
  "git_is_read_only args =
     (if \<exists>w \<in> set args. splits w then False
      else (case skip_globals args of
              [] \<Rightarrow> False
            | subcommand # args' \<Rightarrow> git_subcommand (wtext subcommand) (map wtext args')))"

section \<open>Lemmas\<close>

text \<open>The subcommands a read-only call may name.\<close>

definition GIT_READS :: "string list" where
  "GIT_READS = INSPECT @ [''--version'', ''version'', ''branch'', ''tag'', ''remote'', ''stash'', ''worktree'', ''config'']"

lemma git_subcommand_listed: "git_subcommand name texts \<Longrightarrow> name \<in> set GIT_READS"
  unfolding git_subcommand_def
  by (elim if_eqE [where z = True, simplified]) (auto simp: GIT_READS_def)

lemma git_read_only_subcommand:
  assumes "git_is_read_only args"
  obtains sub rest where "skip_globals args = sub # rest" "git_subcommand (wtext sub) (map wtext rest)"
    "\<not> (\<exists>w \<in> set args. splits w)"
  using assms by (auto simp: git_is_read_only_def split: if_splits list.splits)

lemma lists_loop_names:
  assumes "\<forall>t \<in> set args. \<not> starts_with ''-'' t" "lists_loop flags short args listing names"
    and "\<forall>f \<in> set flags. starts_with ''-'' f"
  shows "listing \<or> names + length args = 0"
  using assms
proof (induction args arbitrary: names)
  case (Cons t args)
  obtain c cs where "t = c # cs \<and> c \<noteq> CHR ''-'' \<or> t = []" using Cons.prems(1) by (cases t) auto
  define flag where "flag = (case split_once ''='' t of Some (f, _) \<Rightarrow> f | None \<Rightarrow> t)"
  have nd: "\<not> starts_with ''-'' flag"
    using Cons.prems(1) split_once_Some [of "''=''" t]
    by (cases flag) (fastforce simp: flag_def split: option.splits)+
  then have ne: "flag \<notin> set LIST_FILTERS" "flag \<noteq> ''--sort''" "flag \<noteq> ''--format''"
    "\<not> starts_with ''--abbrev'' flag" "flag \<notin> set flags"
    using Cons.prems(3) by (auto simp: LIST_FILTERS_def starts_with_prefix prefix_def)
  have "strip_prefix ''-'' t = None"
    using Cons.prems(1) by (simp add: strip_prefix_def)
  then have "lists_loop flags short args listing (names + 1)"
    using Cons.prems(2) ne by (simp add: flag_def split: option.splits prod.splits)
  from Cons.IH [OF _ this Cons.prems(3)] Cons.prems(1) show ?case by auto
qed auto

lemma lists_only_names:
  assumes "\<forall>t \<in> set args. \<not> starts_with ''-'' t" "\<forall>f \<in> set flags. starts_with ''-'' f"
    "lists_only args flags short"
  shows "args = []"
  using lists_loop_names [OF assms(1) _ assms(2)] assms(3) by (fastforce simp: lists_only_def)

end
