(* ===== verification/Read_Only.thy ===== *)
theory Read_Only
  imports Wrappers Sed Git
begin

text \<open>
  \<open>crates/z-engine-policy/src/shell/analysis.rs\<close> and \<open>shell/read_only.rs\<close>: a command line as the
  policy sees it (\<open>parse\<close>), the commands that only read, and the public summary \<open>analyze\<close>.
\<close>

section \<open>Parsed command lines (analysis.rs)\<close>

record parsed =
  segments :: "segment list"
  pnested :: "segment list"
  pok :: bool
  pdynamic :: bool

definition all_segments :: "parsed \<Rightarrow> segment list" where
  "all_segments p = segments p @ pnested p"

definition runs_eval :: "segment \<Rightarrow> bool" where
  "runs_eval s = (\<exists>c \<in> set (fst (executed_commands s)).
     case words c of w # _ \<Rightarrow> wtext w = ''eval'' | [] \<Rightarrow> False)"

definition parse :: "string \<Rightarrow> parsed" where
  "parse cmd =
     (let l = lex cmd;
          evaluates = (\<exists>s \<in> set (lsegments l @ lnested l). runs_eval s)
      in \<lparr>segments = lsegments l, pnested = lnested l, pok = lok l, pdynamic = ldynamic l \<or> evaluates\<rparr>)"

section \<open>Read-only programs (read_only.rs)\<close>

definition SAFE :: "string list" where
  "SAFE = [''ls'', ''cat'', ''head'', ''tail'', ''grep'', ''egrep'', ''fgrep'', ''wc'', ''which'', ''type'',
     ''stat'', ''du'', ''df'', ''pwd'', ''echo'', ''cd'', ''diff'', ''cmp'', ''comm'', ''printenv'', ''id'',
     ''whoami'', ''uname'', ''seq'', ''expr'', ''test'', ''['', ''fmt'', ''pr'', ''numfmt'', ''tsort'',
     ''getconf'', ''basename'', ''dirname'', ''realpath'', ''readlink'', ''md5sum'', ''shasum'', ''sha1sum'',
     ''sha256sum'', ''sha512sum'', ''b2sum'', ''cksum'', ''nl'', ''jq'', ''true'', ''false'', ''cut'', ''tr'',
     ''paste'', ''rev'', ''tac'', ''column'', ''strings'', ''od'', ''hexdump'', ''nproc'', ''groups'', ''uptime'']"

definition FLAG_SENSITIVE :: "string list" where
  "FLAG_SENSITIVE = [''find'', ''sort'', ''uniq'', ''sed'', ''git'', ''env'', ''date'', ''hostname'', ''tree'',
     ''file'', ''rg'', ''bat'', ''printf'']"

definition FIND_WRITES :: "string list" where
  "FIND_WRITES = [''-delete'', ''-exec'', ''-execdir'', ''-ok'', ''-okdir'', ''-fprint'', ''-fprint0'',
     ''-fprintf'', ''-fls'']"

definition VERSION_PROBES :: "string list" where
  "VERSION_PROBES = [''cargo'', ''rustc'', ''rustup'', ''node'', ''npm'', ''pnpm'', ''yarn'', ''bun'', ''deno'',
     ''python'', ''python3'', ''go'', ''uv'', ''pip'', ''pip3'', ''ruby'', ''java'', ''gcc'', ''clang'', ''make'',
     ''cmake'']"

definition DASH_V_PROBES :: "string list" where
  "DASH_V_PROBES = [''node'', ''npm'', ''pnpm'', ''yarn'', ''bun'']"

definition HOSTNAME_FLAGS :: "string list" where
  "HOSTNAME_FLAGS = [''-f'', ''--fqdn'', ''--long'', ''-s'', ''--short'', ''-i'', ''--ip-address'', ''-I'',
     ''--all-ip-addresses'', ''-d'', ''--domain'', ''-A'', ''--all-fqdns'', ''-a'', ''--alias'']"

definition BAT_WRITES :: "string list" where
  "BAT_WRITES = [''--pager'', ''--paging'', ''--config-file'', ''--generate-config-file'']"

definition short_flags :: "string \<Rightarrow> string option" where
  "short_flags t = (case strip_prefix ''-'' t of
     Some flags \<Rightarrow> if flags \<noteq> [] \<and> \<not> starts_with ''-'' flags then Some flags else None
   | None \<Rightarrow> None)"

definition has_short :: "char \<Rightarrow> string \<Rightarrow> bool" where
  "has_short c t = (case short_flags t of Some f \<Rightarrow> contains_char c f | None \<Rightarrow> False)"

fun operand_count :: "string list \<Rightarrow> string list \<Rightarrow> bool \<Rightarrow> nat" where
  "operand_count flags [] options = 0"
| "operand_count flags (t # args) options =
     (if options \<and> t = ''--'' then operand_count flags args False
      else if options \<and> starts_with ''-'' t \<and> length t > 1 then
        (if t \<in> set flags then (case args of _ # args' \<Rightarrow> operand_count flags args' options | [] \<Rightarrow> 0)
         else operand_count flags args options)
      else Suc (operand_count flags args options))"

fun env_only_prints :: "string list \<Rightarrow> bool" where
  "env_only_prints [] = True"
| "env_only_prints (t # args) =
     (if t \<in> {''-0'', ''--null'', ''-i'', ''--ignore-environment'', ''-''} then env_only_prints args
      else if t = ''-u'' \<or> t = ''--unset'' then
        (case args of [] \<Rightarrow> False | _ # args' \<Rightarrow> env_only_prints args')
      else if starts_with ''--unset='' t \<or> (starts_with ''-u'' t \<and> length t > 2) then env_only_prints args
      else if \<not> starts_with ''-'' t \<and> contains_char CHR ''='' t then env_only_prints args
      else False)"

text \<open>
  The loop over a short-option cluster of \<open>date\<close>: \<^term>\<open>None\<close> for the early \<open>return false\<close>,
  otherwise whether \<open>-j\<close> was seen and whether the next word is an option's value.
\<close>

fun date_cluster :: "string \<Rightarrow> bool \<Rightarrow> (bool \<times> bool) option" where
  "date_cluster [] no_set = Some (no_set, False)"
| "date_cluster (flag # flags) no_set =
     (if flag = CHR ''s'' then None
      else if flag = CHR ''j'' then date_cluster flags True
      else if flag \<in> {CHR ''d'', CHR ''r'', CHR ''f'', CHR ''v'', CHR ''z''} then Some (no_set, flags = [])
      else if flag = CHR ''I'' then Some (no_set, False)
      else date_cluster flags no_set)"

function date_loop :: "string list \<Rightarrow> bool \<Rightarrow> nat \<Rightarrow> bool" where
  "date_loop [] no_set ops \<longleftrightarrow> ops = 0 \<or> no_set"
| "date_loop (t # args) no_set ops =
     (if starts_with ''+'' t then date_loop args no_set ops
      else if t = ''--set'' \<or> starts_with ''--set='' t then False
      else if t = ''--date'' \<or> t = ''--reference'' \<or> t = ''--file'' then date_loop (drop 1 args) no_set ops
      else if starts_with ''--'' t then date_loop args no_set ops
      else (case short_flags t of
        None \<Rightarrow> date_loop args no_set (ops + 1)
      | Some flags \<Rightarrow>
          (case date_cluster flags no_set of
             None \<Rightarrow> False
           | Some (no_set', takes) \<Rightarrow> date_loop (if takes then drop 1 args else args) no_set' ops)))"
  by pat_completeness auto
termination
  by (relation "measure (\<lambda>(args, _). length args)") auto

definition date_only_prints :: "string list \<Rightarrow> bool" where
  "date_only_prints args = date_loop args False 0"

definition version_probe :: "string \<Rightarrow> string list \<Rightarrow> bool" where
  "version_probe name args \<longleftrightarrow> args \<noteq> [] \<and>
     (\<forall>a \<in> set args. a = ''--version'' \<or> a = ''-V'' \<or> (a = ''-v'' \<and> name \<in> set DASH_V_PROBES))"

definition program_is_read_only :: "string \<Rightarrow> shell_word list \<Rightarrow> bool" where
  "program_is_read_only name args =
     (let texts = map wtext args; has = (\<lambda>P. \<exists>a \<in> set texts. P a) in
      if name \<in> set FLAG_SENSITIVE \<and> (\<exists>w \<in> set args. splits w) then False
      else if name = ''find'' then \<not> has (\<lambda>a. a \<in> set FIND_WRITES)
      else if name = ''sort'' then
        \<not> has (\<lambda>a. has_short CHR ''o'' a \<or> starts_with ''--output'' a \<or> starts_with ''--compress-program'' a)
      else if name = ''uniq'' then operand_count [''-f'', ''-s'', ''-w''] texts True < 2
      else if name = ''sed'' then (case parse_call args of Some call \<Rightarrow> \<not> in_place call | None \<Rightarrow> False)
      else if name = ''git'' then git_is_read_only args
      else if name = ''env'' then env_only_prints texts
      else if name = ''date'' then date_only_prints texts
      else if name = ''hostname'' then (\<forall>a \<in> set texts. a \<in> set HOSTNAME_FLAGS)
      else if name = ''tree'' then \<not> has (has_short CHR ''o'')
      else if name = ''file'' then \<not> has (\<lambda>a. has_short CHR ''C'' a \<or> a = ''--compile'')
      else if name = ''rg'' then
        \<not> has (\<lambda>a. a = ''--pre'' \<or> starts_with ''--pre='' a \<or> starts_with ''--hostname-bin'' a)
      else if name = ''bat'' then
        (case texts of a # _ \<Rightarrow> a \<noteq> ''cache'' | [] \<Rightarrow> True) \<and>
        \<not> has (\<lambda>a. \<exists>flag \<in> set BAT_WRITES. starts_with flag a)
      else if name = ''printf'' then (case texts of a # _ \<Rightarrow> \<not> starts_with ''-v'' a | [] \<Rightarrow> True)
      else if name = ''cargo'' \<and> texts = [''--list''] then True
      else if name \<in> set VERSION_PROBES then version_probe name texts
      else name \<in> set SAFE)"

definition segment_is_read_only :: "segment \<Rightarrow> bool" where
  "segment_is_read_only s =
     (if \<exists>r \<in> set (redirects s). writes_file r then False
      else (case command s of
        [] \<Rightarrow> True
      | name # args \<Rightarrow>
          if assignment name \<or> expands name then False else program_is_read_only (wtext name) args))"

definition command_is_read_only :: "parsed \<Rightarrow> bool" where
  "command_is_read_only p \<longleftrightarrow>
     pok p \<and> \<not> pdynamic p \<and> segments p \<noteq> [] \<and> (\<forall>s \<in> set (segments p). segment_is_read_only s)"

definition is_read_only :: "string \<Rightarrow> bool" where
  "is_read_only cmd = command_is_read_only (parse cmd)"

section \<open>The public summary (analysis.rs)\<close>

record shell_analysis =
  a_segments :: "string list list"
  parse_ok :: bool
  a_dynamic :: bool
  a_writes :: "string list"
  read_only :: bool

definition analyze :: "string \<Rightarrow> shell_analysis" where
  "analyze cmd =
     (let p = parse cmd
      in \<lparr>a_segments = filter (\<lambda>a. a \<noteq> []) (map argv (segments p)),
          parse_ok = pok p,
          a_dynamic = pdynamic p,
          a_writes = map wtext (concat (map write_targets (all_segments p))),
          read_only = command_is_read_only p\<rparr>)"

section \<open>Lemmas\<close>

lemma parse_simps [simp]:
  "segments (parse cmd) = lsegments (lex cmd)" "pnested (parse cmd) = lnested (lex cmd)"
  "pok (parse cmd) = lok (lex cmd)"
  by (simp_all add: parse_def Let_def)

text \<open>Every program that can be read-only is on one of the lists of the source.\<close>

lemma program_read_only_listed:
  "program_is_read_only name args \<Longrightarrow> name \<in> set SAFE \<union> set FLAG_SENSITIVE \<union> set VERSION_PROBES"
  unfolding program_is_read_only_def Let_def
  by (elim if_eqE [where z = True, simplified]) (auto simp: FLAG_SENSITIVE_def VERSION_PROBES_def)

lemma segment_read_only_writes: "segment_is_read_only s \<Longrightarrow> write_targets s = []"
  by (auto simp: segment_is_read_only_def write_targets_def filter_empty_conv split: if_splits)

lemma segment_read_only_program:
  assumes "segment_is_read_only s" "command s = name # args"
  shows "\<not> assignment name" "\<not> expands name" "program_is_read_only (wtext name) args"
  using assms by (auto simp: segment_is_read_only_def split: if_splits)

lemma sensitive_read_only_no_splits:
  "program_is_read_only name args \<Longrightarrow> name \<in> set FLAG_SENSITIVE \<Longrightarrow> \<forall>w \<in> set args. \<not> splits w"
  by (auto simp: program_is_read_only_def Let_def split: if_split_asm)

end
