(* ===== verification/Shell_Writes.thy ===== *)
theory Shell_Writes
  imports Read_Only "HOL-Library.Sublist"
begin

text \<open>
  What a command line writes, said without the classifiers of the code: the operands and the values of options by their
  positions, the files of a \<open>sed\<close> that edits in place, and calls of well-known programs that write. The properties of plan
  mode and of \<open>acceptEdits\<close> are stated with these.
\<close>

section \<open>Operands and option values\<close>

definition option_like :: "string \<Rightarrow> bool" where
  "option_like t \<longleftrightarrow> starts_with ''-'' t \<and> length t > 1"

definition before_dashes :: "shell_word list \<Rightarrow> shell_word list" where
  "before_dashes args = takeWhile (\<lambda>w. wtext w \<noteq> ''--'') args"

definition after_dashes :: "shell_word list \<Rightarrow> shell_word list" where
  "after_dashes args = drop 1 (dropWhile (\<lambda>w. wtext w \<noteq> ''--'') args)"

text \<open>The operands of a call, as POSIX has them when no option takes its value from the next word.\<close>

definition operand_words :: "shell_word list \<Rightarrow> string list" where
  "operand_words args = map wtext (filter (\<lambda>w. \<not> option_like (wtext w)) (before_dashes args) @ after_dashes args)"

text \<open>The paths with a slash that options carry after an equals sign.\<close>

definition value_after_equals :: "string \<Rightarrow> string" where
  "value_after_equals t = drop 1 (dropWhile (\<lambda>c. c \<noteq> CHR ''='') t)"

definition attached_values :: "shell_word list \<Rightarrow> string list" where
  "attached_values args = filter (\<lambda>v. CHR ''/'' \<in> set v)
     (map value_after_equals (filter option_like (map wtext (before_dashes args))))"

lemma split_once_equals:
  "split_once ''='' t = (if CHR ''='' \<in> set t then Some (takeWhile (\<lambda>c. c \<noteq> CHR ''='') t, value_after_equals t) else None)"
proof (cases "CHR ''='' \<in> set t")
  case True
  then have "dropWhile (\<lambda>c. c \<noteq> CHR ''='') t \<noteq> []" by (auto simp: dropWhile_eq_Nil_conv)
  then have "t = takeWhile (\<lambda>c. c \<noteq> CHR ''='') t @ CHR ''='' # value_after_equals t"
    using hd_dropWhile [of "\<lambda>c. c \<noteq> CHR ''=''" t]
    by (metis (no_types, lifting) drop_0 drop_Suc list.collapse One_nat_def takeWhile_dropWhile_id value_after_equals_def)
  moreover have "CHR ''='' \<notin> set (takeWhile (\<lambda>c. c \<noteq> CHR ''='') t)" by (auto dest: set_takeWhileD)
  ultimately show ?thesis using True split_once_char [of "CHR ''=''"] by metis
qed (simp add: split_once_char_notin)

section \<open>The files of \<open>sed\<close>\<close>

text \<open>
  Whether a word that follows an option is, or may be, its value: the script of \<open>-e\<close>, the length of \<open>-l\<close>, and the suffix
  of \<open>-i\<close>, which is empty or begins with a dot.
\<close>

definition value_of_option :: "string \<Rightarrow> string \<Rightarrow> bool" where
  "value_of_option opt t \<longleftrightarrow> opt \<in> {''--expression'', ''--line-length''} \<or>
     option_like opt \<and> \<not> starts_with ''--'' opt \<and>
     (last opt \<in> {CHR ''e'', CHR ''l''} \<or> last opt \<in> {CHR ''i'', CHR ''I''} \<and> (t = [] \<or> starts_with ''.'' t))"

text \<open>The options of a call and its operands; \<open>prev\<close> is the word before.\<close>

fun sed_flags :: "string \<Rightarrow> shell_word list \<Rightarrow> string list" where
  "sed_flags prev [] = []"
| "sed_flags prev (w # ws) =
     (if wtext w = ''--'' then []
      else (if option_like (wtext w) \<and> \<not> value_of_option prev (wtext w) then [wtext w] else []) @ sed_flags (wtext w) ws)"

fun sed_operands :: "string \<Rightarrow> shell_word list \<Rightarrow> shell_word list" where
  "sed_operands prev [] = []"
| "sed_operands prev (w # ws) =
     (if value_of_option prev (wtext w) then sed_operands (wtext w) ws
      else if wtext w = ''--'' then ws
      else if option_like (wtext w) then sed_operands (wtext w) ws
      else w # sed_operands [] ws)"

definition gives_script :: "string \<Rightarrow> bool" where
  "gives_script t \<longleftrightarrow> t \<in> {''-e'', ''--expression''}"

definition edits_in_place :: "string \<Rightarrow> bool" where
  "edits_in_place t \<longleftrightarrow> starts_with ''--in-place'' t \<or>
     (case dropWhile (\<lambda>c. c \<in> set ''nErsuz'') (drop 1 t) of c # _ \<Rightarrow> c \<in> {CHR ''i'', CHR ''I''} | [] \<Rightarrow> False)"

definition sed_edits :: "shell_word list \<Rightarrow> bool" where
  "sed_edits args \<longleftrightarrow> list_ex edits_in_place (sed_flags [] args)"

text \<open>The files: all operands or, when no option gives a script, all but the first.\<close>

definition sed_files :: "shell_word list \<Rightarrow> shell_word list" where
  "sed_files args = (if list_ex gives_script (sed_flags [] args) then sed_operands [] args else drop 1 (sed_operands [] args))"

text \<open>What one option of an accepted call does: the next word is taken only as its value.\<close>

lemma sed_cluster_option:
  assumes "sed_cluster cl sc inp args = Some (sc', inp', args')"
  shows "(args' = args \<or> (\<exists>a. args = a # args' \<and> (last cl \<in> {CHR ''e'', CHR ''l''} \<or>
      last cl \<in> {CHR ''i'', CHR ''I''} \<and> (wtext a = [] \<or> starts_with ''.'' (wtext a))) \<and> cl \<noteq> [])) \<and>
    (sc \<noteq> [] \<longrightarrow> sc' \<noteq> []) \<and> (inp \<longrightarrow> inp') \<and> (cl = ''e'' \<longrightarrow> sc' \<noteq> []) \<and>
    ((case dropWhile (\<lambda>c. c \<in> set ''nErsuz'') cl of c # _ \<Rightarrow> c \<in> {CHR ''i'', CHR ''I''} | [] \<Rightarrow> False) \<longrightarrow> inp')"
  using assms
proof (induction cl sc inp args rule: sed_cluster.induct)
  case (2 flag cluster sc inp args)
  let ?plain = "{CHR ''n'', CHR ''E'', CHR ''r'', CHR ''s'', CHR ''u'', CHR ''z''}"
  have plain: "c \<in> set ''nErsuz'' \<longleftrightarrow> c \<in> ?plain" for c by simp
  show ?case
  proof (cases "flag \<in> ?plain")
    case True
    then have "sed_cluster cluster sc inp args = Some (sc', inp', args')" using "2.prems" by simp
    from "2.IH" [OF True this] True show ?thesis unfolding plain by (cases "cluster = []") auto
  next
    case False
    then have first: "dropWhile (\<lambda>c. c \<in> set ''nErsuz'') (flag # cluster) = flag # cluster" unfolding plain by simp
    have step: "(if flag = CHR ''e'' \<and> cluster = [] then (case args of [] \<Rightarrow> None | a # as \<Rightarrow> Some (sc @ [wtext a], inp, as))
      else if flag = CHR ''e'' then Some (sc @ [cluster], inp, args)
      else if flag = CHR ''i'' \<or> flag = CHR ''I'' then
        Some (sc, True, if cluster = [] \<and> (case args of [] \<Rightarrow> False | a # _ \<Rightarrow> wtext a = [] \<or> starts_with ''.'' (wtext a))
          then drop 1 args else args)
      else if flag = CHR ''l'' then Some (sc, inp, if cluster = [] then drop 1 args else args)
      else None) = Some (sc', inp', args')"
      using "2.prems" False unfolding sed_cluster.simps(2) by (simp only: if_False)
    show ?thesis using step
    proof (elim if_eqE)
      assume "flag = CHR ''e'' \<and> cluster = []" "(case args of [] \<Rightarrow> None | a # as \<Rightarrow> Some (sc @ [wtext a], inp, as)) = Some (sc', inp', args')"
      then show ?thesis unfolding first by (cases args) auto
    next
      assume "flag = CHR ''i'' \<or> flag = CHR ''I''"
        "Some (sc, True, if cluster = [] \<and> (case args of [] \<Rightarrow> False | a # _ \<Rightarrow> wtext a = [] \<or> starts_with ''.'' (wtext a))
          then drop 1 args else args) = Some (sc', inp', args')"
      then show ?thesis unfolding first by (cases args; cases "cluster = []") (auto split: if_splits)
    next
      assume "flag = CHR ''l''" "Some (sc, inp, if cluster = [] then drop 1 args else args) = Some (sc', inp', args')"
      then show ?thesis unfolding first by (cases args; cases "cluster = []") auto
    next
      assume "flag = CHR ''e''" "\<not> (flag = CHR ''e'' \<and> cluster = [])" "Some (sc @ [cluster], inp, args) = Some (sc', inp', args')"
      then show ?thesis unfolding first by auto
    qed simp
  qed
qed simp

lemma sed_long_option:
  assumes "sed_long long sc inp args = Some (sc', inp', args')"
  shows "(args' = args \<or> (\<exists>a. args = a # args' \<and> long \<in> {''expression'', ''line-length''})) \<and>
    (sc \<noteq> [] \<longrightarrow> sc' \<noteq> []) \<and> (inp \<longrightarrow> inp') \<and> (long = ''expression'' \<longrightarrow> sc' \<noteq> []) \<and>
    (starts_with ''in-place'' long \<longrightarrow> inp')"
proof -
  define name where "name = (case split_once ''='' long of Some (n, v) \<Rightarrow> n | None \<Rightarrow> long)"
  define val where "val = (case split_once ''='' long of Some (n, v) \<Rightarrow> Some v | None \<Rightarrow> None)"
  have nv: "(case split_once ''='' long of Some (n, v) \<Rightarrow> (n, Some v) | None \<Rightarrow> (long, None)) = (name, val)"
    by (simp add: name_def val_def split: option.split prod.split)
  have whole: "val = None \<Longrightarrow> name = long" "CHR ''='' \<notin> set long \<Longrightarrow> name = long \<and> val = None"
    by (auto simp: name_def val_def split_once_equals split: if_splits)
  have place: "starts_with ''in-place'' long \<Longrightarrow> starts_with ''in-place'' name"
    by (auto simp: name_def split_once_equals starts_with_prefix prefix_def)
  have not_place: "\<not> starts_with ''in-place'' name" if "name \<in> set LONG_FLAGS \<or> name \<in> {''expression'', ''line-length''}"
    using that by (auto simp: LONG_FLAGS_def)
  have expr: "long = ''expression'' \<Longrightarrow> name = ''expression'' \<and> val = None" using whole(2) by auto
  have eq: "(if name \<in> set LONG_FLAGS then Some (sc, inp, args)
     else if name = ''expression'' then
       (case val of Some v \<Rightarrow> Some (sc @ [v], inp, args)
        | None \<Rightarrow> (case args of [] \<Rightarrow> None | a # as \<Rightarrow> Some (sc @ [wtext a], inp, as)))
     else if name = ''in-place'' then Some (sc, True, args)
     else if name = ''line-length'' then Some (sc, inp, if val = None then drop 1 args else args)
     else None) = Some (sc', inp', args')"
    using assms unfolding sed_long_def nv Let_def prod.case by simp
  have ne: "long \<noteq> ''expression''" if "name \<noteq> ''expression''" using that expr by blast
  have flags: "''expression'' \<notin> set LONG_FLAGS" by (simp add: LONG_FLAGS_def)
  show ?thesis using eq
  proof (elim if_eqE)
    assume n: "name \<in> set LONG_FLAGS" "Some (sc, inp, args) = Some (sc', inp', args')"
    then have "name \<noteq> ''expression''" using flags by metis
    then show ?thesis using n ne place not_place by auto
  next
    assume n: "name = ''expression''"
      "(case val of Some v \<Rightarrow> Some (sc @ [v], inp, args)
        | None \<Rightarrow> (case args of [] \<Rightarrow> None | a # as \<Rightarrow> Some (sc @ [wtext a], inp, as))) = Some (sc', inp', args')"
    then show ?thesis using whole(1) place not_place by (cases val; cases args) auto
  next
    assume n: "name = ''in-place''" "Some (sc, True, args) = Some (sc', inp', args')"
    then show ?thesis using ne by auto
  next
    assume n: "name = ''line-length''" "Some (sc, inp, if val = None then drop 1 args else args) = Some (sc', inp', args')"
    then show ?thesis using ne whole(1) place not_place by (cases val; cases args) auto
  qed simp
qed

text \<open>One option of the loop.\<close>

definition sed_option :: "string \<Rightarrow> string list \<Rightarrow> bool \<Rightarrow> shell_word list \<Rightarrow> (string list \<times> bool \<times> shell_word list) option" where
  "sed_option t scripts inp args = (case strip_prefix ''--'' t of
     Some long \<Rightarrow> sed_long long scripts inp args
   | None \<Rightarrow> sed_cluster (drop 1 t) scripts inp args)"

lemma sed_option_spec:
  assumes "sed_option t sc inp args = Some (sc', inp', args')" "option_like t" "t \<noteq> ''--''"
  shows "args' = args \<or> (\<exists>a. args = a # args' \<and> value_of_option t (wtext a))"
    "sc \<noteq> [] \<Longrightarrow> sc' \<noteq> []" "inp \<Longrightarrow> inp'" "gives_script t \<Longrightarrow> sc' \<noteq> []" "edits_in_place t \<Longrightarrow> inp'"
proof -
  have "(args' = args \<or> (\<exists>a. args = a # args' \<and> value_of_option t (wtext a))) \<and> (sc \<noteq> [] \<longrightarrow> sc' \<noteq> []) \<and> (inp \<longrightarrow> inp') \<and>
    (gives_script t \<longrightarrow> sc' \<noteq> []) \<and> (edits_in_place t \<longrightarrow> inp')"
  proof (cases "strip_prefix ''--'' t")
    case None
    obtain c cl where t: "t = CHR ''-'' # c # cl" using assms(2) by (cases t; cases "tl t") (auto simp: option_like_def str_simps)
    then have c: "c \<noteq> CHR ''-''" using None by (auto simp: strip_prefix_def)
    have "sed_cluster (c # cl) sc inp args = Some (sc', inp', args')" using assms(1) None t by (simp add: sed_option_def)
    from sed_cluster_option [OF this] show ?thesis using t c assms(2)
      by (auto simp: value_of_option_def gives_script_def edits_in_place_def starts_with_def)
  next
    case (Some long)
    then have t: "t = ''--'' @ long" by (simp add: strip_prefix_Some_iff)
    have "sed_long long sc inp args = Some (sc', inp', args')" using assms(1) Some by (simp add: sed_option_def)
    from sed_long_option [OF this] show ?thesis using t
      by (auto simp: value_of_option_def gives_script_def edits_in_place_def starts_with_def)
  qed
  then show "args' = args \<or> (\<exists>a. args = a # args' \<and> value_of_option t (wtext a))"
    "sc \<noteq> [] \<Longrightarrow> sc' \<noteq> []" "inp \<Longrightarrow> inp'" "gives_script t \<Longrightarrow> sc' \<noteq> []" "edits_in_place t \<Longrightarrow> inp'" by blast+
qed

lemma sed_options_step:
  "sed_options (w # args) sc pos inp True =
     (if wtext w = ''--'' then sed_options args sc pos inp False
      else if option_like (wtext w) then
        (case sed_option (wtext w) sc inp args of None \<Rightarrow> None
         | Some (sc', inp', args') \<Rightarrow> sed_options args' sc' pos inp' True)
      else sed_options args sc (pos @ [w]) inp True)"
  by (cases "wtext w"; cases "tl (wtext w)") (auto simp: option_like_def sed_option_def starts_with_def)

lemma sed_options_done: "sed_options args sc pos inp False = Some (sc, pos @ args, inp)"
  by (induction args arbitrary: pos) simp_all

lemma value_of_option_like: "value_of_option opt t \<Longrightarrow> option_like opt"
  by (auto simp: value_of_option_def option_like_def starts_with_def)

lemma sed_operands_subseq: "subseq (sed_operands prev ws) ws"
  by (induction prev ws rule: sed_operands.induct) auto

text \<open>However far the loop and the specification differ in what they take for values, no operand is lost.\<close>

lemma sed_options_spec:
  assumes "sed_options args sc pos inp True = Some (sc', pos', inp')"
  shows "(\<exists>more. pos' = pos @ more \<and> subseq (sed_operands prev args) more) \<and>
    (sc \<noteq> [] \<or> list_ex gives_script (sed_flags prev args) \<longrightarrow> sc' \<noteq> []) \<and>
    (inp \<or> list_ex edits_in_place (sed_flags prev args) \<longrightarrow> inp')"
  using assms
proof (induction "length args" arbitrary: args sc pos inp prev rule: less_induct)
  case less
  show ?case
  proof (cases args)
    case Nil
    then show ?thesis using less.prems by simp
  next
    case (Cons w ws)
    note prems = less.prems [unfolded Cons sed_options_step]
    consider (dashes) "wtext w = ''--''" | (option) "wtext w \<noteq> ''--''" "option_like (wtext w)"
      | (operand) "wtext w \<noteq> ''--''" "\<not> option_like (wtext w)" by blast
    then show ?thesis
    proof cases
      case dashes
      then have "sc' = sc" "pos' = pos @ ws" "inp' = inp" using prems by (simp_all add: sed_options_done)
      then show ?thesis using Cons dashes sed_operands_subseq by simp
    next
      case operand
      then have "sed_options ws sc (pos @ [w]) inp True = Some (sc', pos', inp')" using prems by simp
      from less.hyps [OF _ this] Cons
      have ih: "(\<exists>more. pos' = (pos @ [w]) @ more \<and> subseq (sed_operands p ws) more) \<and>
        (sc \<noteq> [] \<or> list_ex gives_script (sed_flags p ws) \<longrightarrow> sc' \<noteq> []) \<and> (inp \<or> list_ex edits_in_place (sed_flags p ws) \<longrightarrow> inp')" for p
        by simp
      from ih [of "wtext w"] ih [of "[]"] show ?thesis using Cons operand by auto
    next
      case option
      then obtain sc1 inp1 ws1 where o: "sed_option (wtext w) sc inp ws = Some (sc1, inp1, ws1)"
        "sed_options ws1 sc1 pos inp1 True = Some (sc', pos', inp')" using prems by (auto split: option.splits)
      note spec = sed_option_spec [OF o(1) option(2,1)]
      have len: "length ws1 < length args" using spec(1) Cons by auto
      have ih: "(\<exists>more. pos' = pos @ more \<and> subseq (sed_operands p ws1) more) \<and>
        (sc1 \<noteq> [] \<or> list_ex gives_script (sed_flags p ws1) \<longrightarrow> sc' \<noteq> []) \<and>
        (inp1 \<or> list_ex edits_in_place (sed_flags p ws1) \<longrightarrow> inp')" for p
        using less.hyps [OF len o(2)] by blast
      have sub: "sed_operands prev args = sed_operands (wtext w) ws" using Cons option by simp
      have flags: "sed_flags prev args = (if value_of_option prev (wtext w) then [] else [wtext w]) @ sed_flags (wtext w) ws"
        using Cons option by simp
      have rest: "ws1 = ws \<or> (\<exists>a. ws = a # ws1 \<and> value_of_option (wtext w) (wtext a))" by (rule spec(1))
      have "\<exists>p. sed_operands (wtext w) ws = sed_operands p ws1 \<and> set (sed_flags (wtext w) ws) \<subseteq> set (sed_flags p ws1)"
        using rest by (auto intro: exI [of _ "wtext w"])
      then obtain p where p: "sed_operands (wtext w) ws = sed_operands p ws1" "set (sed_flags (wtext w) ws) \<subseteq> set (sed_flags p ws1)"
        by blast
      show ?thesis using ih [of p] spec p unfolding sub flags by (auto simp: list_ex_iff)
    qed
  qed
qed

lemma subseq_members: "subseq xs ys \<Longrightarrow> set xs \<subseteq> set ys"
  by (induction rule: list_emb.induct) auto

lemma subseq_drop_first: "subseq xs ys \<Longrightarrow> set (drop 1 xs) \<subseteq> set (drop 1 ys)"
proof (induction rule: list_emb.induct)
  case (list_emb_Cons xs ys y)
  then show ?case using subseq_members [of xs ys] set_drop_subset [of 1 xs] by auto
qed (auto dest: subseq_members)

text \<open>What \<open>parse_call\<close> finds: a call that edits in place is seen as one, and all its files are.\<close>

lemma parse_call_complete:
  assumes "parse_call args = Some call"
  shows "sed_edits args \<Longrightarrow> in_place call" "set (sed_files args) \<subseteq> set (files call)"
proof -
  obtain sc pos inp where o: "sed_options args [] [] False True = Some (sc, pos, inp)"
    using assms by (auto simp: parse_call_def split: if_splits option.splits)
  from sed_options_spec [OF o, of "[]"] have spec: "subseq (sed_operands [] args) pos"
    "list_ex gives_script (sed_flags [] args) \<Longrightarrow> sc \<noteq> []" "sed_edits args \<Longrightarrow> inp" by (auto simp: sed_edits_def)
  have call: "in_place call = inp" "files call = (if sc = [] then drop 1 pos else pos)"
    using assms o by (auto simp: parse_call_def split: if_splits option.splits list.splits)
  show "sed_edits args \<Longrightarrow> in_place call" using spec(3) call(1) by simp
  show "set (sed_files args) \<subseteq> set (files call)"
    using spec(1,2) call(2) subseq_drop_first [OF spec(1)] subseq_members [OF spec(1)] set_drop_subset [of 1 "sed_operands [] args"]
    by (auto simp: sed_files_def split: if_splits)
qed

section \<open>Calls known to write\<close>

definition WRITING_PROGRAMS :: "string list" where
  "WRITING_PROGRAMS = [''mkdir'', ''touch'', ''rm'', ''rmdir'', ''mv'', ''cp'', ''ln'', ''install'', ''rsync'', ''dd'', ''tee'',
     ''truncate'', ''shred'', ''unlink'', ''chmod'', ''chown'', ''chgrp'', ''patch'', ''tar'', ''unzip'', ''kill'', ''curl'',
     ''wget'', ''ssh'', ''scp'', ''sudo'', ''xargs'', ''nohup'', ''eval'', ''exec'', ''source'', ''sh'', ''bash'', ''zsh'',
     ''perl'', ''awk'', ''docker'', ''crontab'']"

definition INTERPRETERS :: "string list" where
  "INTERPRETERS = [''python'', ''python3'', ''node'', ''ruby'', ''java'', ''go'', ''deno'', ''bun'', ''npm'', ''pnpm'', ''yarn'',
     ''pip'', ''pip3'', ''uv'', ''cargo'', ''rustc'', ''gcc'', ''clang'', ''make'', ''cmake'']"

definition GIT_WRITES :: "string list" where
  "GIT_WRITES = [''add'', ''apply'', ''checkout'', ''cherry-pick'', ''clean'', ''clone'', ''commit'', ''fetch'', ''gc'', ''init'',
     ''merge'', ''mv'', ''pull'', ''push'', ''rebase'', ''reset'', ''restore'', ''revert'', ''rm'', ''switch'']"

definition git_subcommand_of :: "string list \<Rightarrow> string" where
  "git_subcommand_of texts = (case texts of
     [] \<Rightarrow> []
   | [t] \<Rightarrow> t
   | [t, u] \<Rightarrow> t
   | t # u # v # _ \<Rightarrow> if t = ''-C'' then v else t)"

text \<open>
  Calls that write, run another program or change the system, by the name of the program and its words: the lists are this
  theory's own. Not every call that writes is here.
\<close>

definition known_to_write :: "string \<Rightarrow> shell_word list \<Rightarrow> bool" where
  "known_to_write name args =
     (let texts = map wtext args in
      name \<in> set WRITING_PROGRAMS \<or>
      name \<in> set INTERPRETERS \<and> (texts = [] \<or> \<not> starts_with ''-'' (hd texts)) \<or>
      name = ''sed'' \<and> sed_edits args \<or>
      name = ''git'' \<and> git_subcommand_of texts \<in> set GIT_WRITES \<or>
      name = ''find'' \<and> list_ex (\<lambda>t. t \<in> {''-delete'', ''-exec'', ''-execdir'', ''-ok'', ''-okdir'', ''-fls'', ''-fprint'',
        ''-fprint0'', ''-fprintf''}) texts \<or>
      name = ''sort'' \<and> list_ex (\<lambda>t. starts_with ''-o'' t \<or> t = ''--output'' \<or> starts_with ''--output='' t) texts \<or>
      name = ''tree'' \<and> list_ex (\<lambda>t. t = ''-o'') texts \<or>
      name = ''uniq'' \<and> length texts = 2 \<and> list_all (\<lambda>t. \<not> starts_with ''-'' t) texts \<or>
      name = ''env'' \<and> texts \<noteq> [] \<and> \<not> starts_with ''-'' (hd texts) \<and> CHR ''='' \<notin> set (hd texts) \<or>
      name = ''date'' \<and> texts \<noteq> [] \<and> (hd texts \<in> {''-s'', ''--set''} \<or> starts_with ''--set='' (hd texts)) \<or>
      name = ''hostname'' \<and> texts \<noteq> [] \<and> \<not> starts_with ''-'' (hd texts) \<or>
      name = ''rg'' \<and> list_ex (\<lambda>t. t = ''--pre'') texts)"

definition runs_known_writer :: "segment \<Rightarrow> bool" where
  "runs_known_writer s \<longleftrightarrow> command s \<noteq> [] \<and> known_to_write (wtext (hd (command s))) (tl (command s))"

lemma writing_programs_unlisted: "name \<in> set WRITING_PROGRAMS \<Longrightarrow> name \<notin> set SAFE \<union> set FLAG_SENSITIVE \<union> set VERSION_PROBES"
  by (auto simp: WRITING_PROGRAMS_def SAFE_def FLAG_SENSITIVE_def VERSION_PROBES_def)

lemma git_writes_unlisted:
  assumes "git_subcommand_of (map wtext args) \<in> set GIT_WRITES"
  shows "\<not> git_is_read_only args"
proof
  assume "git_is_read_only args"
  then obtain sub rest where s: "skip_globals args = sub # rest" "git_subcommand (wtext sub) (map wtext rest)"
    by (rule git_read_only_subcommand)
  have flags: "t \<notin> set GLOBAL_FLAGS \<and> t \<noteq> ''-C''" if "t \<in> set GIT_WRITES" for t
    using that by (auto simp: GIT_WRITES_def GLOBAL_FLAGS_def)
  have other: "''-C'' \<notin> set GLOBAL_FLAGS" by (simp add: GLOBAL_FLAGS_def)
  have "wtext sub = git_subcommand_of (map wtext args)"
    using assms s(1) flags other unfolding git_subcommand_of_def
    by (cases args rule: skip_globals.cases) (auto split: list.splits if_splits)
  moreover have "t \<notin> set GIT_READS" if "t \<in> set GIT_WRITES" for t
    using that by (auto simp: GIT_WRITES_def GIT_READS_def INSPECT_def)
  ultimately show False using git_subcommand_listed [OF s(2)] assms by metis
qed

text \<open>The cases of \<open>program_is_read_only\<close>, one by one.\<close>

lemma flag_sensitive_programs:
  "program_is_read_only ''find'' args \<Longrightarrow> \<not> (\<exists>a \<in> set args. wtext a \<in> set FIND_WRITES)"
  "program_is_read_only ''sort'' args \<Longrightarrow> \<not> (\<exists>a \<in> set args. has_short CHR ''o'' (wtext a) \<or> starts_with ''--output'' (wtext a))"
  "program_is_read_only ''uniq'' args \<Longrightarrow> operand_count [''-f'', ''-s'', ''-w''] (map wtext args) True < 2"
  "program_is_read_only ''sed'' args \<Longrightarrow> \<exists>call. parse_call args = Some call \<and> \<not> in_place call"
  "program_is_read_only ''git'' args \<Longrightarrow> git_is_read_only args"
  "program_is_read_only ''env'' args \<Longrightarrow> env_only_prints (map wtext args)"
  "program_is_read_only ''date'' args \<Longrightarrow> date_only_prints (map wtext args)"
  "program_is_read_only ''hostname'' args \<Longrightarrow> \<forall>a \<in> set args. wtext a \<in> set HOSTNAME_FLAGS"
  "program_is_read_only ''tree'' args \<Longrightarrow> \<not> (\<exists>a \<in> set args. has_short CHR ''o'' (wtext a))"
  "program_is_read_only ''rg'' args \<Longrightarrow> \<not> (\<exists>a \<in> set args. wtext a = ''--pre'')"
  by (simp_all add: program_is_read_only_def Let_def split: if_splits option.splits) blast?

lemma interpreter_read_only:
  assumes "program_is_read_only name args" "name \<in> set INTERPRETERS"
  shows "args \<noteq> [] \<and> starts_with ''-'' (wtext (hd args))"
proof -
  have n: "name \<in> set VERSION_PROBES" "name \<notin> set FLAG_SENSITIVE"
    using assms(2) by (auto simp: INTERPRETERS_def VERSION_PROBES_def FLAG_SENSITIVE_def)
  then have "name \<notin> {''find'', ''sort'', ''uniq'', ''sed'', ''git'', ''env'', ''date'', ''hostname'', ''tree'', ''file'', ''rg'', ''bat'', ''printf''}"
    by (auto simp: FLAG_SENSITIVE_def)
  then have "map wtext args = [''--list''] \<or> version_probe name (map wtext args)"
    using assms(1) n by (simp add: program_is_read_only_def Let_def split: if_splits)
  then show ?thesis by (cases args) (auto simp: version_probe_def starts_with_def)
qed

lemma has_short_o: "starts_with ''-o'' t \<Longrightarrow> has_short CHR ''o'' t"
  by (auto simp: starts_with_prefix prefix_def has_short_def short_flags_def strip_prefix_def contains_char_def)

lemma env_program_refused:
  assumes "\<not> starts_with ''-'' t" "CHR ''='' \<notin> set t"
  shows "\<not> env_only_prints (t # ts)"
proof (cases t)
  case (Cons c cs)
  then have "c \<noteq> CHR ''-''" using assms(1) by (simp add: starts_with_def)
  moreover have "\<not> contains_char CHR ''='' t" using assms(2) by (simp add: contains_char_def)
  ultimately show ?thesis unfolding env_only_prints.simps(2) using Cons by (simp add: starts_with_def del: env_only_prints.simps)
qed (simp add: contains_char_def starts_with_def)

lemma date_setting_refused:
  assumes "t \<in> {''-s'', ''--set''} \<or> starts_with ''--set='' t"
  shows "\<not> date_only_prints (t # ts)"
proof -
  have "\<not> date_loop (''-s'' # ts) False 0"
    unfolding date_loop.simps(2) by (simp add: short_flags_def strip_prefix_def starts_with_def del: date_loop.simps)
  moreover have "\<not> date_loop (t # ts) False 0" if "t = ''--set'' \<or> starts_with ''--set='' t"
  proof -
    have "\<not> starts_with ''+'' t" using that by (auto simp: starts_with_prefix prefix_def)
    then show ?thesis unfolding date_loop.simps(2) using that by (simp del: date_loop.simps)
  qed
  ultimately show ?thesis using assms by (auto simp: date_only_prints_def simp del: date_loop.simps)
qed

lemma uniq_output_refused:
  "\<not> starts_with ''-'' i \<Longrightarrow> \<not> starts_with ''-'' out \<Longrightarrow> \<not> operand_count flags [i, out] True < 2"
  by (auto simp: starts_with_def)

lemma hostname_flags: "t \<in> set HOSTNAME_FLAGS \<Longrightarrow> starts_with ''-'' t"
  by (auto simp: HOSTNAME_FLAGS_def starts_with_def)

text \<open>No call that the code classifies as read-only is one of them.\<close>

lemma read_only_not_known_to_write:
  assumes ro: "program_is_read_only name args"
  shows "\<not> known_to_write name args"
proof -
  note P = flag_sensitive_programs [of args]
  have 1: "name \<notin> set WRITING_PROGRAMS" using writing_programs_unlisted program_read_only_listed [OF ro] by blast
  have 2: "\<not> (name \<in> set INTERPRETERS \<and> (map wtext args = [] \<or> \<not> starts_with ''-'' (hd (map wtext args))))"
    using interpreter_read_only [OF ro] by (cases args) auto
  have 3: "\<not> (name = ''sed'' \<and> sed_edits args)" using ro P(4) parse_call_complete(1) by blast
  have 4: "\<not> (name = ''git'' \<and> git_subcommand_of (map wtext args) \<in> set GIT_WRITES)" using ro P(5) git_writes_unlisted by blast
  have 5: "\<not> (name = ''find'' \<and> list_ex (\<lambda>t. t \<in> {''-delete'', ''-exec'', ''-execdir'', ''-ok'', ''-okdir'', ''-fls'', ''-fprint'',
      ''-fprint0'', ''-fprintf''}) (map wtext args))"
    using ro P(1) by (auto simp: list_ex_iff FIND_WRITES_def)
  have 6: "\<not> (name = ''sort'' \<and> list_ex (\<lambda>t. starts_with ''-o'' t \<or> t = ''--output'' \<or> starts_with ''--output='' t) (map wtext args))"
    using ro P(2) has_short_o by (auto simp: list_ex_iff starts_with_prefix prefix_def)
  have 7: "\<not> (name = ''tree'' \<and> list_ex (\<lambda>t. t = ''-o'') (map wtext args))"
    using ro P(9) has_short_o [of "''-o''"] by (auto simp: list_ex_iff starts_with_def)
  have 8: "\<not> (name = ''uniq'' \<and> length (map wtext args) = 2 \<and> list_all (\<lambda>t. \<not> starts_with ''-'' t) (map wtext args))"
    using ro P(3) uniq_output_refused by (auto simp: length_Suc_conv numeral_2_eq_2 simp del: operand_count.simps)
  have 9: "\<not> (name = ''env'' \<and> map wtext args \<noteq> [] \<and> \<not> starts_with ''-'' (hd (map wtext args)) \<and> CHR ''='' \<notin> set (hd (map wtext args)))"
    using ro P(6) env_program_refused [of "hd (map wtext args)" "tl (map wtext args)"] by (metis list.collapse)
  have 10: "\<not> (name = ''date'' \<and> map wtext args \<noteq> [] \<and> (hd (map wtext args) \<in> {''-s'', ''--set''} \<or> starts_with ''--set='' (hd (map wtext args))))"
    using ro P(7) date_setting_refused [of "hd (map wtext args)" "tl (map wtext args)"] by (metis list.collapse)
  have 11: "\<not> (name = ''hostname'' \<and> map wtext args \<noteq> [] \<and> \<not> starts_with ''-'' (hd (map wtext args)))"
    using ro P(8) hostname_flags by (cases args) auto
  have 12: "\<not> (name = ''rg'' \<and> list_ex (\<lambda>t. t = ''--pre'') (map wtext args))" using ro P(10) by (auto simp: list_ex_iff)
  show ?thesis unfolding known_to_write_def Let_def using 1 2 3 4 5 6 7 8 9 10 11 12 by blast
qed

lemma read_only_segment_not_known: "segment_is_read_only s \<Longrightarrow> \<not> runs_known_writer s"
  using segment_read_only_program(3) [of s] read_only_not_known_to_write
  by (cases "command s") (auto simp: runs_known_writer_def)

end
