(* ===== verification/Paths.thy ===== *)
theory Paths
  imports Prelude
begin

text \<open>
  \<open>crates/z-engine-policy/src/paths.rs\<close>: lexical path handling. A \<open>Path\<close> is the list of its
  \<open>components()\<close> on Unix (so there is no \<open>Prefix\<close>); \<open>==\<close>, \<open>starts_with\<close> and \<open>strip_prefix\<close>
  of \<open>std::path\<close> compare exactly these lists. \<open>components\<close> is \<open>Path::new(text).components()\<close>,
  \<open>path_str\<close> the text of a path that was built by pushing components.
\<close>

section \<open>Paths as component lists\<close>

datatype component = RootDir | CurDir | ParentDir | Normal string

type_synonym path = "component list"

definition component_of :: "string \<Rightarrow> component" where
  "component_of s = (if s = ''..'' then ParentDir else Normal s)"

definition body_components :: "string list \<Rightarrow> path" where
  "body_components ps = map component_of (filter (\<lambda>p. p \<noteq> [] \<and> p \<noteq> ''.'') ps)"

definition components :: "string \<Rightarrow> path" where
  "components s =
     (let parts = split_on CHR ''/'' s in
      if starts_with ''/'' s then RootDir # body_components parts
      else if hd parts = ''.'' then CurDir # body_components (tl parts)
      else body_components parts)"

definition is_absolute :: "path \<Rightarrow> bool" where
  [path_simps]: "is_absolute p \<longleftrightarrow> p \<noteq> [] \<and> hd p = RootDir"

definition join_path :: "path \<Rightarrow> path \<Rightarrow> path" where
  "join_path p q = (if is_absolute q then q else p @ q)"

fun component_str :: "component \<Rightarrow> string" where
  "component_str RootDir = ''/''"
| "component_str CurDir = ''.''"
| "component_str ParentDir = ''..''"
| "component_str (Normal s) = s"

definition path_str :: "path \<Rightarrow> string" where
  "path_str p = (if is_absolute p then ''/'' @ join_with ''/'' (map component_str (tl p))
                 else join_with ''/'' (map component_str p))"

section \<open>Normalization\<close>

text \<open>\<open>PathBuf::push\<close> of one component: an absolute one replaces the path.\<close>

definition push_component :: "path \<Rightarrow> component \<Rightarrow> path" where
  "push_component out c = (if c = RootDir then [RootDir] else out @ [c])"

fun normalize_step :: "path \<Rightarrow> component \<Rightarrow> path" where
  "normalize_step out CurDir = out"
| "normalize_step out ParentDir =
     (case rev out of
        Normal n # upper \<Rightarrow> rev upper
      | RootDir # _ \<Rightarrow> out
      | _ \<Rightarrow> push_component out ParentDir)"
| "normalize_step out c = push_component out c"

definition normalize :: "path \<Rightarrow> path" where
  "normalize p = foldl normalize_step [] p"

definition resolve :: "path \<Rightarrow> path \<Rightarrow> path" where
  "resolve base p = (if is_absolute p then normalize p else normalize (join_path base p))"

fun escapes_from :: "nat \<Rightarrow> path \<Rightarrow> bool" where
  "escapes_from depth [] = False"
| "escapes_from depth (Normal n # p) = escapes_from (depth + 1) p"
| "escapes_from depth (CurDir # p) = escapes_from depth p"
| "escapes_from depth (ParentDir # p) = (case depth of 0 \<Rightarrow> True | Suc up \<Rightarrow> escapes_from up p)"
| "escapes_from depth (RootDir # p) = True"

definition escapes_start :: "path \<Rightarrow> bool" where
  "escapes_start p = escapes_from 0 p"

section \<open>Protected locations\<close>

definition PROTECTED_DIRS :: "string list" where
  "PROTECTED_DIRS = [''.z-engine'']"

definition PROTECTED_FILES :: "string list" where
  "PROTECTED_FILES = [''.claude/settings.json'', ''.claude/settings.local.json'', ''.mcp.json'']"

fun lower_names :: "path \<Rightarrow> string list" where
  "lower_names [] = []"
| "lower_names (Normal n # p) = to_ascii_lowercase n # lower_names p"
| "lower_names (_ # p) = lower_names p"

definition protected_names :: "string list \<Rightarrow> bool" where
  "protected_names names \<longleftrightarrow>
     (\<exists>n \<in> set names. n = ''.git'') \<or>
     (case names of first # _ \<Rightarrow> first \<in> set PROTECTED_DIRS | [] \<Rightarrow> False) \<or>
     join_with ''/'' names \<in> set PROTECTED_FILES"

definition is_protected :: "path \<Rightarrow> path list \<Rightarrow> bool" where
  "is_protected p roots \<longleftrightarrow>
     (\<exists>relative \<in> set (List.map_filter (\<lambda>root. strip_prefix root p) roots).
        protected_names (lower_names relative))"

section \<open>Lemmas\<close>

text \<open>\<open>RootDir\<close> is the first component or none.\<close>

definition wf_path :: "path \<Rightarrow> bool" where
  "wf_path p \<longleftrightarrow> RootDir \<notin> set (tl p)"

lemma body_components_range: "set (body_components ps) \<subseteq> {ParentDir} \<union> range Normal"
  by (auto simp: body_components_def component_of_def)

lemma wf_components: "wf_path (components s)"
  using body_components_range [of "split_on CHR ''/'' s"]
    body_components_range [of "tl (split_on CHR ''/'' s)"]
  by (cases "body_components (split_on CHR ''/'' s)")
     (auto simp: wf_path_def components_def Let_def)

text \<open>What \<open>normalize\<close> produces: names below the root, or names below leading \<open>..\<close>.\<close>

definition names_only :: "path \<Rightarrow> bool" where
  "names_only p \<longleftrightarrow> (\<forall>c \<in> set p. \<exists>n. c = Normal n)"

definition normal_form :: "path \<Rightarrow> bool" where
  "normal_form p \<longleftrightarrow> (\<exists>q. names_only q \<and> (p = RootDir # q \<or> (\<exists>k. p = replicate k ParentDir @ q)))"

lemma names_only_simps [simp]:
  "names_only []" "names_only (Normal n # p) \<longleftrightarrow> names_only p"
  "names_only (p @ q) \<longleftrightarrow> names_only p \<and> names_only q"
  "\<not> names_only (RootDir # p)" "\<not> names_only (CurDir # p)" "\<not> names_only (ParentDir # p)"
  by (auto simp: names_only_def)

lemma names_only_cases:
  assumes "names_only q"
  obtains "q = []" | q' n where "q = q' @ [Normal n]" "names_only q'"
  using assms by (cases q rule: rev_cases) (auto simp: names_only_def)

lemma push_component_simps [simp]:
  "push_component out RootDir = [RootDir]"
  "c \<noteq> RootDir \<Longrightarrow> push_component out c = out @ [c]"
  by (simp_all add: push_component_def)

lemma normalize_step_names:
  "normalize_step (out @ [Normal n]) ParentDir = out"
  "normalize_step [RootDir] ParentDir = [RootDir]"
  "normalize_step [] ParentDir = [ParentDir]"
  "normalize_step (out @ [ParentDir]) ParentDir = out @ [ParentDir, ParentDir]"
  by simp_all

declare normalize_step.simps(2) [simp del]

lemma normal_formI:
  "names_only q \<Longrightarrow> normal_form (RootDir # q)"
  "names_only q \<Longrightarrow> normal_form (replicate k ParentDir @ q)"
  by (auto simp: normal_form_def)

lemma normal_formE:
  assumes "normal_form p"
  obtains q where "p = RootDir # q" "names_only q"
  | q k where "p = replicate k ParentDir @ q" "names_only q"
  using assms by (auto simp: normal_form_def)

lemma normalize_step_parents:
  "normalize_step (replicate k ParentDir) ParentDir = replicate (Suc k) ParentDir"
proof (cases k)
  case (Suc j)
  have k: "replicate k ParentDir = replicate j ParentDir @ [ParentDir]"
    by (simp add: Suc replicate_append_same)
  show ?thesis
    by (simp only: k normalize_step_names) (simp add: Suc replicate_app_Cons_same)
qed (simp add: normalize_step_names)

lemma normal_form_step:
  assumes "normal_form out" "c \<noteq> RootDir"
  shows "normal_form (normalize_step out c)"
proof (cases c)
  case (Normal n)
  from assms(1) show ?thesis
  proof (cases rule: normal_formE)
    case (1 q)
    then show ?thesis using Normal normal_formI(1) [of "q @ [Normal n]"] by simp
  next
    case (2 q k)
    then show ?thesis using Normal normal_formI(2) [of "q @ [Normal n]" k] by simp
  qed
next
  case ParentDir
  from assms(1) show ?thesis
  proof (cases rule: normal_formE)
    case (1 q)
    from 1(2) show ?thesis
      by (cases rule: names_only_cases)
         (use ParentDir 1 normalize_step_names(1) [of "RootDir # _"] normalize_step_names(2)
          in \<open>auto intro: normal_formI\<close>)
  next
    case (2 q k)
    from 2(2) show ?thesis
    proof (cases rule: names_only_cases)
      case 1
      then show ?thesis
        using ParentDir 2 normal_formI(2) [of "[]" "Suc k"] by (simp add: normalize_step_parents)
    next
      case (2 q' n)
      then show ?thesis
        using ParentDir \<open>out = _\<close> normal_formI(2) [of q' k]
          normalize_step_names(1) [of "replicate k ParentDir @ q'" n] by simp
    qed
  qed
qed (use assms in simp_all)

lemma normal_form_foldl:
  "normal_form out \<Longrightarrow> RootDir \<notin> set p \<Longrightarrow> normal_form (foldl normalize_step out p)"
proof (induction p arbitrary: out)
  case (Cons c p)
  then have "c \<noteq> RootDir" by auto
  with Cons show ?case by (simp add: normal_form_step)
qed simp

lemma normalize_RootDir: "normalize (RootDir # p) = foldl normalize_step [RootDir] p"
  by (simp add: normalize_def push_component_def)

lemma normal_form_normalize:
  assumes "wf_path p"
  shows "normal_form (normalize p)"
proof (cases p)
  case (Cons c q)
  with assms have q: "RootDir \<notin> set q" by (simp add: wf_path_def)
  show ?thesis
  proof (cases "c = RootDir")
    case True
    with Cons q show ?thesis
      using normal_form_foldl [OF normal_formI(1) [of "[]"] q] by (simp add: normalize_RootDir)
  next
    case False
    with Cons q have "RootDir \<notin> set p" by simp
    then show ?thesis
      using normal_form_foldl [of "[]" p] normal_formI(2) [of "[]" 0] by (simp add: normalize_def)
  qed
qed (use normal_formI(2) [of "[]" 0] in \<open>simp add: normalize_def\<close>)

lemma foldl_normalize_names: "names_only q \<Longrightarrow> foldl normalize_step out q = out @ q"
  by (induction q arbitrary: out) (auto simp: names_only_def)

lemma foldl_normalize_parents: "foldl normalize_step [] (replicate k ParentDir) = replicate k ParentDir"
proof (induction k)
  case (Suc k)
  have "replicate (Suc k) ParentDir = replicate k ParentDir @ [ParentDir]"
    by (simp add: replicate_append_same)
  then show ?case by (metis Suc foldl_Cons foldl_Nil foldl_append normalize_step_parents)
qed simp

lemma normalize_normal_form: "normal_form p \<Longrightarrow> normalize p = p"
  by (erule normal_formE)
     (simp_all add: normalize_RootDir foldl_normalize_names normalize_def foldl_normalize_parents
        push_component_def)

lemma normalize_idem: "wf_path p \<Longrightarrow> normalize (normalize p) = normalize p"
  by (intro normalize_normal_form normal_form_normalize)

text \<open>Steps below a fixed base never touch the base as long as the depth stays non-negative.\<close>

lemma foldl_normalize_below:
  "names_only q \<Longrightarrow> \<not> escapes_from (length q) p \<Longrightarrow>
   \<exists>q'. names_only q' \<and> foldl normalize_step (base @ q) p = base @ q'"
proof (induction p arbitrary: q)
  case (Cons c p)
  show ?case
  proof (cases c)
    case (Normal n)
    then show ?thesis using Cons.IH [of "q @ [Normal n]"] Cons.prems by simp
  next
    case ParentDir
    from Cons.prems(1) show ?thesis
    proof (cases rule: names_only_cases)
      case (2 q' n)
      then have "normalize_step (base @ q) ParentDir = base @ q'"
        using normalize_step_names(1) [of "base @ q'" n] by simp
      moreover have "\<not> escapes_from (length q') p"
        using 2 Cons.prems ParentDir by simp
      ultimately show ?thesis using Cons.IH [OF 2(2)] ParentDir by simp
    qed (use Cons.prems ParentDir in simp)
  qed (use Cons in simp_all)
qed auto

definition absolute_normal :: "path \<Rightarrow> bool" where
  "absolute_normal p \<longleftrightarrow> (\<exists>q. names_only q \<and> p = RootDir # q)"

lemma absolute_normal_normal_form: "absolute_normal p \<Longrightarrow> normal_form p"
  by (auto simp: absolute_normal_def intro: normal_formI)

lemma normalize_join_below:
  assumes "absolute_normal base" "\<not> escapes_start p"
  obtains q where "names_only q" "normalize (join_path base p) = base @ q"
proof -
  have "\<not> is_absolute p"
    using assms(2) by (cases p) (auto simp: escapes_start_def is_absolute_def)
  moreover have "foldl normalize_step [] base = base"
    using normalize_normal_form [OF absolute_normal_normal_form [OF assms(1)]]
    by (simp add: normalize_def)
  moreover obtain q where "names_only q" "foldl normalize_step (base @ []) p = base @ q"
    using foldl_normalize_below [of "[]" p base] assms(2) by (auto simp: escapes_start_def)
  ultimately show ?thesis
    using that by (simp add: join_path_def normalize_def)
qed

lemma normalize_step_RootDir_ne: "c \<noteq> RootDir \<Longrightarrow> \<exists>q. normalize_step (RootDir # out) c = RootDir # q"
proof (cases c)
  case ParentDir
  then show ?thesis
    by (cases out rule: rev_cases)
       (auto simp: normalize_step.simps(2) split: component.splits list.splits)
qed auto

lemma absolute_normal_normalize:
  assumes "wf_path p" "is_absolute p"
  shows "absolute_normal (normalize p)"
proof -
  obtain r where p: "p = RootDir # r" and r: "RootDir \<notin> set r"
    using assms by (cases p) (auto simp: wf_path_def is_absolute_def)
  have "\<exists>q. foldl normalize_step (RootDir # out) r = RootDir # q" for out
    using r
  proof (induction r arbitrary: out)
    case (Cons c r)
    then show ?case using normalize_step_RootDir_ne [of c out] by auto
  qed simp
  then obtain q where "normalize p = RootDir # q"
    by (metis normalize_RootDir p)
  moreover have "normal_form (normalize p)"
    using assms(1) by (rule normal_form_normalize)
  moreover have "\<not> (RootDir # q = replicate k ParentDir @ q' \<and> names_only q')" for k q'
    by (cases k) (auto dest: sym)
  ultimately show ?thesis
    unfolding absolute_normal_def by (metis normal_formE)
qed

lemma absolute_normal_is_absolute: "absolute_normal p \<Longrightarrow> is_absolute p"
  by (auto simp: absolute_normal_def is_absolute_def)

lemma wf_join_path:
  assumes "absolute_normal base" "wf_path p"
  shows "wf_path (join_path base p)" and "is_absolute (join_path base p)"
  using assms
  by (cases p; auto simp: join_path_def absolute_normal_def wf_path_def is_absolute_def names_only_def)+

lemma absolute_normal_resolve:
  assumes "absolute_normal base" "wf_path p"
  shows "absolute_normal (resolve base p)"
  unfolding resolve_def
  using assms wf_join_path [OF assms] by (auto intro: absolute_normal_normalize)

lemma resolve_absolute_normal: "absolute_normal p \<Longrightarrow> resolve base p = p"
  by (simp add: resolve_def absolute_normal_is_absolute normalize_normal_form absolute_normal_normal_form)

lemma resolve_below:
  assumes "absolute_normal base" "\<not> escapes_start p"
  shows "starts_with base (resolve base p)"
proof -
  obtain q where "normalize (join_path base p) = base @ q"
    by (rule normalize_join_below [OF assms])
  moreover have "\<not> is_absolute p"
    using assms(2) by (cases p) (auto simp: escapes_start_def is_absolute_def)
  ultimately show ?thesis by (simp add: resolve_def starts_with_def)
qed

section \<open>Letter case\<close>

fun lower_component :: "component \<Rightarrow> component" where
  "lower_component (Normal n) = Normal (to_ascii_lowercase n)"
| "lower_component c = c"

lemma lower_names_lower: "lower_names (map lower_component p) = lower_names p"
  by (induction p rule: lower_names.induct) auto

end
