(* ===== verification/Lexer_Total.thy ===== *)
theory Lexer_Total
  imports Lexer
begin

text \<open>
  The lexer always returns. \<open>lexer_calls m k\<close> is the contract of the methods with \<open>k\<close> nested
  calls left: each returns whenever \<open>k\<close> covers the characters still to be read and the levels of
  substitution still open, it never moves back, and it restores the nesting depth. One unfolding of
  the methods turns the contract for \<open>k\<close> into the contract for \<open>Suc k\<close>, so \<open>methods_at k\<close> meets
  it for every \<open>k\<close>, and \<open>lex\<close> never runs out of the fuel it starts with.
\<close>

definition level :: "lexer \<Rightarrow> nat" where
  "level l = 12 * (MAX_DEPTH - depth l)"

definition reads :: "nat \<Rightarrow> ('a \<times> lexer) option \<Rightarrow> lexer \<Rightarrow> bool" where
  "reads j r l \<longleftrightarrow> (\<exists>x l'. r = Some (x, l') \<and> length (rest l') + j \<le> length (rest l) \<and> depth l' = depth l)"

text \<open>The characters at which a word ends.\<close>

definition word_breaks :: "lexer \<Rightarrow> bool" where
  "word_breaks l = (case rest l of [] \<Rightarrow> True
     | c # _ \<Rightarrow> c \<in> {SPACE, TAB, NL, CHR '';'', CHR ''&'', CHR ''|'', CHR ''('', CHR '')''} \<or>
               (c = CHR ''<'' \<or> c = CHR ''>'') \<and> peek1 l \<noteq> Some (CHR ''(''))"

locale lexer_calls =
  fixes m :: methods and k :: nat
  assumes list_reads: "4 * length (rest l) + 3 + level l \<le> k \<Longrightarrow> reads 0 (m_list m in_sub segs cur groups l) l"
    and word_reads: "4 * length (rest l) + 2 + level l \<le> k \<Longrightarrow>
      reads (if word_breaks l then 0 else 1) (m_word m w started brace_at l) l"
    and double_reads: "4 * length (rest l) + 2 + level l \<le> k \<Longrightarrow> reads 0 (m_double m w l) l"
    and dollar_reads: "4 * length (rest l) + 1 + level l \<le> k \<Longrightarrow> rest l \<noteq> [] \<Longrightarrow>
      reads 1 (m_dollar m w in_double l) l"
    and parameter_reads: "4 * length (rest l) + 2 + level l \<le> k \<Longrightarrow> reads 0 (m_parameter m d w l) l"
    and substitution_reads: "4 * length (rest l) + 1 + level l \<le> k \<Longrightarrow> reads 0 (m_substitution m w sigil l) l"
    and backtick_reads: "4 * length (rest l) + 1 + level l \<le> k \<Longrightarrow> reads 0 (m_backtick m w l) l"
    and redirect_reads: "4 * length (rest l) + 1 + level l \<le> k \<Longrightarrow> rest l \<noteq> [] \<Longrightarrow>
      reads 1 (m_redirect m seg l) l"
    and heredoc_bodies_reads: "4 * length (rest l) + 2 + level l \<le> k \<Longrightarrow>
      reads 0 (map_option (Pair ()) (m_heredoc_bodies m l)) l"
    and body_expansions_total: "1 \<le> k \<Longrightarrow>
      (depth l < MAX_DEPTH \<Longrightarrow> 4 * length body + 3 + level (l\<lparr>depth := depth l + 1\<rparr>) \<le> k) \<Longrightarrow>
      \<exists>l'. m_body_expansions m body l = Some l' \<and> rest l' = rest l \<and> depth l' = depth l"
    and body_total: "4 * length (rest l) + 2 + level l \<le> k \<Longrightarrow> \<exists>l'. m_body m w l = Some l'"

section \<open>Reading without recursion\<close>

lemma advance_simps [simp]:
  "rest (advance n l) = drop n (rest l)" "depth (advance n l) = depth l"
  "level (advance n l) = level l" "heredocs (advance n l) = heredocs l"
  by (simp_all add: advance_def level_def)

lemma fail_simps [simp]: "rest (fail l) = rest l" "depth (fail l) = depth l" "level (fail l) = level l"
  by (simp_all add: fail_def level_def)

lemma level_update [simp]:
  "level (l\<lparr>rest := r\<rparr>) = level l" "level (l\<lparr>ok := b\<rparr>) = level l"
  "level (l\<lparr>dynamic := b\<rparr>) = level l" "level (l\<lparr>nested := ns\<rparr>) = level l"
  "level (l\<lparr>heredocs := hs\<rparr>) = level l" "level (l\<lparr>word_end := e\<rparr>) = level l"
  by (simp_all add: level_def)

lemma reads_Some [simp]:
  "reads j (Some (x, l')) l \<longleftrightarrow> length (rest l') + j \<le> length (rest l) \<and> depth l' = depth l"
  by (auto simp: reads_def)

lemma readsE:
  assumes "reads j r l"
  obtains x l' where "r = Some (x, l')" "length (rest l') + j \<le> length (rest l)" "depth l' = depth l"
    "level l' = level l"
  using assms by (auto simp: reads_def level_def)

lemma reads_bind:
  assumes "reads i r l"
    and "\<And>x l'. r = Some (x, l') \<Longrightarrow> length (rest l') + i \<le> length (rest l) \<Longrightarrow> depth l' = depth l \<Longrightarrow>
      level l' = level l \<Longrightarrow> reads 0 (f (x, l')) l'"
    and "j \<le> i"
  shows "reads j (Option.bind r f) l"
proof -
  obtain x l' where x: "r = Some (x, l')" "length (rest l') + i \<le> length (rest l)" "depth l' = depth l"
    "level l' = level l" using assms(1) by (rule readsE)
  have "reads 0 (f (x, l')) l'" by (rule assms(2) [OF x])
  with x assms(3) show ?thesis by (auto simp: reads_def)
qed

lemma reads_shift:
  "reads 0 r l' \<Longrightarrow> length (rest l') + j \<le> length (rest l) \<Longrightarrow> depth l' = depth l \<Longrightarrow> reads j r l"
  by (auto simp: reads_def)

lemma read_single_length: "read_single s = (t, r, closed) \<Longrightarrow> length r \<le> length s"
  by (induction s arbitrary: t r closed rule: read_single.induct)
     (auto split: if_splits prod.splits intro: le_SucI)

lemma read_ansi_length: "read_ansi s = (t, r, closed) \<Longrightarrow> length r \<le> length s"
proof (induction s arbitrary: t r closed rule: read_ansi.induct)
  case (2 c cs)
  consider "c = QUOTE" | "c = BACKSLASH" "cs = []"
    | d ds where "c = BACKSLASH" "cs = d # ds" | "c \<noteq> QUOTE" "c \<noteq> BACKSLASH"
    by (cases cs) auto
  then show ?case
  proof cases
    case (3 d ds)
    obtain t' r' where e: "ansi_escape d ds = (t', r')" by (cases "ansi_escape d ds")
    obtain t'' r'' cl where rec: "read_ansi r' = (t'', r'', cl)" by (metis prod_cases3)
    have "length r'' \<le> length r'"
      using "2.IH"(1) [OF _ _ 3(2) e [symmetric] refl rec] 3 by simp
    moreover have "r'' = r" using "2.prems" 3 e rec by simp
    ultimately show ?thesis using ansi_escape_length [OF e] 3 by simp
  next
    case 4
    obtain t'' r'' cl where rec: "read_ansi cs = (t'', r'', cl)" by (metis prod_cases3)
    have "length r'' \<le> length cs" using "2.IH"(2) [OF 4 rec] .
    moreover have "r'' = r" using "2.prems" 4 rec by simp
    ultimately show ?thesis by simp
  qed (use "2.prems" in simp_all)
qed simp

lemma read_backtick_length:
  "read_backtick s = (t, r, closed) \<Longrightarrow> length t + length r \<le> length s"
proof (induction s arbitrary: t r closed rule: read_backtick.induct)
  case (2 c cs)
  consider "c = BACKTICK" | "c = BACKSLASH" "cs = []"
    | d ds where "c = BACKSLASH" "cs = d # ds" | "c \<noteq> BACKTICK" "c \<noteq> BACKSLASH"
    by (cases cs) auto
  then show ?case
  proof cases
    case (3 d ds)
    obtain t' r' cl where rec: "read_backtick ds = (t', r', cl)" by (metis prod_cases3)
    have "length t' + length r' \<le> length ds"
      using "2.IH"(1) [OF _ _ 3(2) rec] 3 by simp
    with "2.prems" 3 rec show ?thesis by (auto split: if_splits)
  next
    case 4
    obtain t' r' cl where rec: "read_backtick cs = (t', r', cl)" by (metis prod_cases3)
    have "length t' + length r' \<le> length cs" using "2.IH"(2) [OF 4 rec] .
    with "2.prems" 4 rec show ?thesis by auto
  qed (use "2.prems" in simp_all)
qed simp

lemma read_heredoc_length:
  "read_heredoc doc s = (t, r, closed) \<Longrightarrow> length t + length r \<le> Suc (length s)"
proof (induction doc s arbitrary: t r closed rule: read_heredoc.induct)
  case (2 doc c cs)
  let ?line = "takeWhile (\<lambda>x. x \<noteq> NL) (c # cs)"
  let ?after = "drop (length ?line + 1) (c # cs)"
  have len: "length ?line \<le> length (c # cs)" by (rule length_takeWhile_le)
  obtain b r' cl where rec: "read_heredoc doc ?after = (b, r', cl)" by (metis prod_cases3)
  let ?cand = "if strip_tabs doc then dropWhile (\<lambda>x. x = TAB) ?line else ?line"
  show ?case
  proof (cases "?cand = delimiter doc")
    case True
    then have "t = []" "r = ?after" using "2.prems" by (simp_all only: read_heredoc.simps Let_def if_True prod.inject simp_thms)
    then show ?thesis by simp
  next
    case False
    have eq: "t = ?line @ [NL] @ b" "r = r'"
      using "2.prems" False rec by (simp_all add: Let_def split: if_splits)
    show ?thesis
    proof (cases "?after = []")
      case True
      then have "b = []" "r' = []" using rec by auto
      with eq len show ?thesis by simp
    next
      case ne: False
      have "length b + length r' \<le> Suc (length ?after)"
        using "2.IH" [OF refl refl refl] False rec by simp
      with eq ne show ?thesis by simp
    qed
  qed
qed simp

lemma read_heredoc_rest: "read_heredoc doc s = (t, r, closed) \<Longrightarrow> length r \<le> length s"
proof (induction doc s arbitrary: t r closed rule: read_heredoc.induct)
  case (2 doc c cs)
  let ?after = "drop (length (takeWhile (\<lambda>x. x \<noteq> NL) (c # cs)) + 1) (c # cs)"
  obtain b r' cl where rec: "read_heredoc doc ?after = (b, r', cl)" by (metis prod_cases3)
  let ?line = "takeWhile (\<lambda>x. x \<noteq> NL) (c # cs)"
  let ?cand = "if strip_tabs doc then dropWhile (\<lambda>x. x = TAB) ?line else ?line"
  show ?case
  proof (cases "?cand = delimiter doc")
    case True
    then have "r = ?after" using "2.prems" by (simp_all only: read_heredoc.simps Let_def if_True prod.inject simp_thms)
    then show ?thesis by simp
  next
    case False
    then have "r = r'" using "2.prems" rec by (simp_all add: Let_def split: if_splits)
    moreover have "length r' \<le> length ?after" using "2.IH" [OF refl refl refl False rec] .
    ultimately show ?thesis by simp
  qed
qed simp

lemma length_skip_to_close: "length (skip_to_close opened s) \<le> length s"
proof (induction opened s rule: skip_to_close.induct)
  case (2 opened c cs)
  have "length (drop 1 (dropWhile (\<lambda>q. q \<noteq> QUOTE) cs)) \<le> length cs"
    using length_dropWhile_le [of "\<lambda>q. q \<noteq> QUOTE" cs] by simp
  then have "length (skip_to_close opened (drop 1 (dropWhile (\<lambda>q. q \<noteq> QUOTE) cs))) \<le> length cs"
    if "c \<noteq> BACKSLASH" "c = QUOTE" using "2.IH"(2) [OF that] by (rule le_trans [rotated])
  moreover have "length (skip_to_close opened (drop 1 cs)) \<le> length cs" if "c = BACKSLASH"
    using "2.IH"(1) [OF that] by simp
  ultimately show ?case using "2.IH"(3,4,5) by (simp add: le_SucI)
qed simp

lemma operator_length: "operator s = (op, r) \<Longrightarrow> s \<noteq> [] \<Longrightarrow> length r < length s"
  by (cases s) (auto simp: operator_def Let_def split: if_splits)

lemma single_quoted_reads: "single_quoted w l = (w', l') \<Longrightarrow>
    length (rest l') \<le> length (rest l) \<and> depth l' = depth l \<and> level l' = level l"
  by (auto simp: single_quoted_def split: prod.splits dest: read_single_length)

lemma ansi_c_reads: "ansi_c w l = (w', l') \<Longrightarrow>
    length (rest l') \<le> length (rest l) \<and> depth l' = depth l"
  by (auto simp: ansi_c_def split: prod.splits dest: read_ansi_length)

lemma add_redirect_simps: "add_redirect op t seg l = (seg', l') \<Longrightarrow> rest l' = rest l \<and> depth l' = depth l"
  by (auto simp: add_redirect_def split: redirect_operator.splits)

section \<open>One unfolding keeps the contract\<close>

lemma length_dropWhile_hd: "P c \<Longrightarrow> length (dropWhile P (c # cs)) \<le> length cs"
  by (simp add: length_dropWhile_le)

abbreviation break_chars :: "char set" where
  "break_chars \<equiv> {SPACE, TAB, NL, CHR '';'', CHR ''&'', CHR ''|'', CHR ''('', CHR '')''}"

lemma word_step_break:
  assumes "word_breaks l"
  shows "word_step m w started brace_at l = Some (end_word w started, l)"
proof (cases "rest l")
  case (Cons c cs)
  show ?thesis
  proof (cases "c \<in> break_chars")
    case True
    then show ?thesis unfolding word_step_def Cons list.case by (simp only: if_True)
  next
    case False
    then have "(c = CHR ''<'' \<or> c = CHR ''>'') \<and> peek1 l \<noteq> Some (CHR ''('')"
      using assms by (simp only: word_breaks_def Cons list.case simp_thms)
    then show ?thesis unfolding word_step_def Cons list.case if_not_P [OF False] by (rule if_P)
  qed
qed (simp add: word_step_def)

context lexer_calls begin

lemma double_step_reads:
  assumes "4 * length (rest l) + 2 + level l \<le> Suc k"
  shows "reads 0 (double_step m w l) l"
proof (cases "rest l")
  case (Cons c cs)
  have again: "reads 0 (m_double m w' l') l"
    if "length (rest l') < length (rest l)" "depth l' = depth l" "level l' = level l" for w' l'
    using that assms by (intro reads_shift [OF double_reads]) auto
  obtain wd ld where dollar: "m_dollar m w True l = Some (wd, ld)" "length (rest ld) + 1 \<le> length (rest l)"
    "depth ld = depth l" "level ld = level l"
    by (rule readsE [OF dollar_reads [of l w True]]) (use assms Cons in auto)
  obtain wt lt where tick: "m_backtick m w (advance 1 l) = Some (wt, lt)"
    "length (rest lt) \<le> length cs" "depth lt = depth l" "level lt = level l"
    by (rule readsE [OF backtick_reads [of "advance 1 l" w]]) (use assms Cons in auto)
  show ?thesis
    using Cons dollar tick by (auto simp: double_step_def again split: list.split)
qed (simp add: double_step_def)

lemma parameter_step_reads:
  assumes "4 * length (rest l) + 2 + level l \<le> Suc k"
  shows "reads 0 (parameter_step m d w l) l"
proof (cases "rest l")
  case (Cons c cs)
  have again: "reads 0 (m_parameter m d' w' l') l"
    if "length (rest l') < length (rest l)" "depth l' = depth l" "level l' = level l" for d' w' l'
    using that assms by (intro reads_shift [OF parameter_reads]) auto
  obtain wd ld where dollar: "m_dollar m w True l = Some (wd, ld)" "length (rest ld) + 1 \<le> length (rest l)"
    "depth ld = depth l" "level ld = level l"
    by (rule readsE [OF dollar_reads [of l w True]]) (use assms Cons in auto)
  obtain wt lt where tick: "m_backtick m w (advance 1 l) = Some (wt, lt)"
    "length (rest lt) \<le> length cs" "depth lt = depth l" "level lt = level l"
    by (rule readsE [OF backtick_reads [of "advance 1 l" w]]) (use assms Cons in auto)
  obtain wq lq where dquote: "m_double m (w\<lparr>quoted := True\<rparr>) (advance 1 l) = Some (wq, lq)"
    "length (rest lq) \<le> length cs" "depth lq = depth l" "level lq = level l"
    by (rule readsE [OF double_reads [of "advance 1 l" "w\<lparr>quoted := True\<rparr>"]]) (use assms Cons in auto)
  obtain ws ls where squote: "single_quoted w (advance 1 l) = (ws, ls)" by (cases "single_quoted w (advance 1 l)")
  show ?thesis
    using Cons dollar tick dquote squote single_quoted_reads [OF squote]
    by (auto simp: parameter_step_def again split: list.split)
qed (simp add: parameter_step_def)

lemma word_step_reads:
  assumes "4 * length (rest l) + 2 + level l \<le> Suc k"
  shows "reads (if word_breaks l then 0 else 1) (word_step m w started brace_at l) l"
proof (cases "word_breaks l")
  case True
  then show ?thesis by (simp add: word_step_break)
next
  case False
  then obtain c cs where Cons: "rest l = c # cs" by (cases "rest l") (simp_all add: word_breaks_def)
  have nb: "c \<notin> break_chars" "\<not> ((c = CHR ''<'' \<or> c = CHR ''>'') \<and> peek1 l \<noteq> Some (CHR ''(''))"
    using False by (simp_all only: word_breaks_def Cons list.case de_Morgan_disj not_not simp_thms)
  have again: "reads (Suc 0) (m_word m w' b' at' l') l"
    if "length (rest l') < length (rest l)" "depth l' = depth l" "level l' = level l" for w' b' at' l'
  proof -
    have "reads (if word_breaks l' then 0 else 1) (m_word m w' b' at' l') l'"
      using that assms by (intro word_reads) auto
    with that show ?thesis by (fastforce simp: reads_def split: if_splits)
  qed
  obtain wd ld where dollar: "m_dollar m w False l = Some (wd, ld)" "length (rest ld) + 1 \<le> length (rest l)"
    "depth ld = depth l" "level ld = level l"
    by (rule readsE [OF dollar_reads [of l w False]]) (use assms Cons in auto)
  obtain wt lt where tick: "m_backtick m w (advance 1 l) = Some (wt, lt)"
    "length (rest lt) \<le> length cs" "depth lt = depth l" "level lt = level l"
    by (rule readsE [OF backtick_reads [of "advance 1 l" w]]) (use assms Cons in auto)
  obtain wb lb where subst: "m_substitution m w c (advance 2 l) = Some (wb, lb)"
    "length (rest lb) \<le> length cs" "depth lb = depth l" "level lb = level l"
    by (rule readsE [OF substitution_reads [of "advance 2 l" w c]]) (use assms Cons in auto)
  obtain wq lq where dquote: "m_double m (w\<lparr>quoted := True\<rparr>) (advance 1 l) = Some (wq, lq)"
    "length (rest lq) \<le> length cs" "depth lq = depth l" "level lq = level l"
    by (rule readsE [OF double_reads [of "advance 1 l" "w\<lparr>quoted := True\<rparr>"]]) (use assms Cons in auto)
  obtain ws ls where squote: "single_quoted w (advance 1 l) = (ws, ls)" by (cases "single_quoted w (advance 1 l)")
  obtain wp bp where plain: "plain w c started brace_at = (wp, bp)" by (cases "plain w c started brace_at")
  have "reads (Suc 0) (word_step m w started brace_at l) l"
    unfolding word_step_def Cons list.case if_not_P [OF nb(1)] if_not_P [OF nb(2)]
    using Cons dollar tick dquote squote single_quoted_reads [OF squote] subst plain
    by (auto simp: again split: list.split)
  with False show ?thesis by simp
qed

lemma dollar_step_reads:
  assumes "4 * length (rest l) + 1 + level l \<le> Suc k" "rest l \<noteq> []"
  shows "reads 1 (dollar_step m w in_double l) l"
proof (cases "rest (advance 1 l)")
  case (Cons c cs)
  then obtain x where l: "rest l = x # c # cs" using assms(2) by (cases "rest l") auto
  let ?l2 = "advance 1 (advance 1 l)"
  have l2: "length (rest ?l2) \<le> length cs" "depth ?l2 = depth l" "level ?l2 = level l"
    using l by simp_all
  have subst: "reads 1 (m_substitution m w DOLLAR ?l2) l"
    by (rule reads_shift [OF substitution_reads]) (use assms l in auto)
  have par: "reads 1 (m_parameter m 1 w' ?l2) l" for w'
    by (rule reads_shift [OF parameter_reads]) (use assms l in auto)
  have dquote: "reads 1 (m_double m w' ?l2) l" for w'
    by (rule reads_shift [OF double_reads]) (use assms l in auto)
  obtain wa la where ansi: "ansi_c w ?l2 = (wa, la)" by (cases "ansi_c w ?l2")
  show ?thesis
    using Cons l subst par dquote ansi ansi_c_reads [OF ansi]
    by (simp add: dollar_step_def Let_def)
qed (use assms in \<open>auto simp: dollar_step_def Let_def le_Suc_eq\<close>)

lemma substitution_step_reads:
  assumes "4 * length (rest l) + 1 + level l \<le> Suc k"
  shows "reads 0 (substitution_step m w sigil l) l"
proof (cases "depth l \<ge> MAX_DEPTH")
  case True
  then show ?thesis by (simp add: substitution_step_def length_skip_to_close)
next
  case False
  let ?l1 = "l\<lparr>dynamic := True, depth := depth l + 1, heredocs := []\<rparr>"
  have "level ?l1 + 12 = level l" using False by (simp add: level_def)
  then obtain segs l' where "m_list m True [] default_segment 0 ?l1 = Some (segs, l')"
    "length (rest l') \<le> length (rest l)" "depth l' = depth l + 1"
    using list_reads [of ?l1 True "[]" default_segment 0] assms by (auto elim!: readsE)
  with False show ?thesis by (simp add: substitution_step_def)
qed

lemma backtick_step_reads:
  assumes "4 * length (rest l) + 1 + level l \<le> Suc k"
  shows "reads 0 (backtick_step m w l) l"
proof -
  obtain inner r closed where tick: "read_backtick (rest l) = (inner, r, closed)" by (metis prod_cases3)
  have len: "length inner + length r \<le> length (rest l)" using tick by (rule read_backtick_length)
  show ?thesis
  proof (cases "depth l \<ge> MAX_DEPTH")
    case True
    with tick len show ?thesis by (simp add: backtick_step_def)
  next
    case False
    let ?sub = "new_lexer inner (depth l + 1)"
    have sub: "rest ?sub = inner" "level ?sub + 12 = level l"
      using False by (simp_all add: level_def new_lexer_def)
    then obtain segs l' where "m_list m False [] default_segment 0 ?sub = Some (segs, l')"
      using list_reads [of ?sub False "[]" default_segment 0] assms len by (auto elim!: readsE)
    with tick len False show ?thesis by (simp add: backtick_step_def absorb_def)
  qed
qed

lemma redirect_step_reads:
  assumes "4 * length (rest l) + 1 + level l \<le> Suc k" "rest l \<noteq> []"
  shows "reads 1 (redirect_step m seg l) l"
proof -
  obtain op r where op: "operator (rest l) = (op, r)" by (cases "operator (rest l)")
  let ?l1 = "l\<lparr>rest := dropWhile (\<lambda>c. c = SPACE \<or> c = TAB) r\<rparr>"
  have "length r < length (rest l)" using operator_length [OF op assms(2)] .
  then have len: "length (rest ?l1) < length (rest l)"
    using length_dropWhile_le [of "\<lambda>c. c = SPACE \<or> c = TAB" r] by simp
  have "reads (if word_breaks ?l1 then 0 else 1) (m_word m default_word False None ?l1) ?l1"
    using assms len by (intro word_reads) auto
  then obtain ow l2 where w: "m_word m default_word False None ?l1 = Some (ow, l2)"
    "length (rest l2) \<le> length (rest ?l1)" "depth l2 = depth l"
    by (auto elim!: readsE split: if_splits)
  show ?thesis
  proof (cases ow)
    case None
    with op w len show ?thesis by (simp add: redirect_step_def)
  next
    case (Some t)
    obtain s' l' where "add_redirect op t (drop_descriptor seg l) l2 = (s', l')"
      by (cases "add_redirect op t (drop_descriptor seg l) l2")
    with op w len Some show ?thesis
      using add_redirect_simps by (fastforce simp: redirect_step_def)
  qed
qed

lemma each_heredoc_reads:
  assumes "4 * length (rest l) + 1 + level l \<le> k"
  shows "\<exists>l'. each_heredoc (m_body_expansions m) docs l = Some l' \<and>
           length (rest l') \<le> length (rest l) \<and> depth l' = depth l"
  using assms
proof (induction docs arbitrary: l)
  case (Cons doc docs)
  obtain body r closed where doc: "read_heredoc doc (rest l) = (body, r, closed)" by (metis prod_cases3)
  let ?l1 = "l\<lparr>rest := r, ok := ok l \<and> closed\<rparr>"
  have len: "length body \<le> Suc (length (rest l))" "length r \<le> length (rest l)"
    using read_heredoc_length [OF doc] read_heredoc_rest [OF doc] by auto
  have deeper: "4 * length body + 3 + level (?l1\<lparr>depth := depth ?l1 + 1\<rparr>) \<le> k" if "depth ?l1 < MAX_DEPTH"
    using that len Cons.prems by (simp add: level_def)
  obtain l2 where l2: "(if expands_body doc then m_body_expansions m body ?l1 else Some ?l1) = Some l2"
    "rest l2 = r" "depth l2 = depth l"
    using body_expansions_total [OF _ deeper] Cons.prems by (cases "expands_body doc") auto
  then have "level l2 = level l" by (simp add: level_def)
  with Cons.IH [of l2] Cons.prems len l2 have "\<exists>l'. each_heredoc (m_body_expansions m) docs l2 = Some l' \<and>
      length (rest l') \<le> length r \<and> depth l' = depth l" by simp
  with doc l2(1) len show ?case by (simp add: Let_def) (metis le_trans)
qed simp

lemma heredoc_bodies_step_reads:
  assumes "4 * length (rest l) + 2 + level l \<le> Suc k"
  shows "reads 0 (map_option (Pair ()) (heredoc_bodies_step m l)) l"
  using each_heredoc_reads [of "l\<lparr>heredocs := []\<rparr>" "heredocs l"] assms
  by (auto simp: heredoc_bodies_step_def)

lemma body_expansions_step_total:
  assumes "1 \<le> Suc k"
    and "depth l < MAX_DEPTH \<Longrightarrow> 4 * length body + 3 + level (l\<lparr>depth := depth l + 1\<rparr>) \<le> Suc k"
  shows "\<exists>l'. body_expansions_step m body l = Some l' \<and> rest l' = rest l \<and> depth l' = depth l"
proof (cases "depth l < MAX_DEPTH")
  case True
  let ?sub = "new_lexer body (depth l + 1)"
  have "4 * length (rest ?sub) + 2 + level ?sub \<le> k"
    using assms(2) [OF True] by (simp add: new_lexer_def level_def)
  then obtain sub where "m_body m default_word ?sub = Some sub" using body_total by blast
  with True show ?thesis by (simp add: body_expansions_step_def absorb_def)
qed (simp add: body_expansions_step_def)

lemma body_step_total:
  assumes "4 * length (rest l) + 2 + level l \<le> Suc k"
  shows "\<exists>l'. body_step m w l = Some l'"
proof (cases "rest l")
  case (Cons c cs)
  have again: "\<exists>l''. m_body m w' l' = Some l''"
    if "length (rest l') < length (rest l)" "level l' = level l" for w' l'
    using that assms by (intro body_total) auto
  obtain wd ld where dollar: "m_dollar m w True l = Some (wd, ld)" "length (rest ld) + 1 \<le> length (rest l)"
    "depth ld = depth l" "level ld = level l"
    by (rule readsE [OF dollar_reads [of l w True]]) (use assms Cons in auto)
  obtain wt lt where tick: "m_backtick m w (advance 1 l) = Some (wt, lt)"
    "length (rest lt) \<le> length cs" "depth lt = depth l" "level lt = level l"
    by (rule readsE [OF backtick_reads [of "advance 1 l" w]]) (use assms Cons in auto)
  show ?thesis
    using Cons dollar tick by (auto simp: body_step_def again)
qed (simp add: body_step_def)

lemma list_step_reads:
  assumes "4 * length (rest l) + 3 + level l \<le> Suc k"
  shows "reads 0 (list_step m in_sub segs cur groups l) l"
proof (cases "rest l")
  case (Cons c cs)
  have again: "reads 0 (m_list m b segs' cur' groups' l') l"
    if "length (rest l') < length (rest l)" "depth l' = depth l" "level l' = level l" for b segs' cur' groups' l'
    using that assms by (intro reads_shift [OF list_reads]) auto
  obtain lh where heredoc: "m_heredoc_bodies m (advance 1 l) = Some lh"
    "length (rest lh) \<le> length cs" "depth lh = depth l" "level lh = level l"
    by (rule readsE [OF heredoc_bodies_reads [of "advance 1 l"]]) (use assms Cons in auto)
  obtain cr lr where redir: "m_redirect m cur l = Some (cr, lr)" "length (rest lr) + 1 \<le> length (rest l)"
    "depth lr = depth l" "level lr = level l"
    by (rule readsE [OF redirect_reads [of l cur]]) (use assms Cons in auto)
  obtain ow lw where word: "m_word m default_word False None l = Some (ow, lw)"
    "length (rest lw) + (if word_breaks l then 0 else 1) \<le> length (rest l)" "depth lw = depth l" "level lw = level l"
    by (rule readsE [OF word_reads [of l default_word False None]]) (use assms Cons in auto)
  have comment: "length (dropWhile (\<lambda>x. x \<noteq> NL) (CHR ''#'' # cs)) < Suc (length cs)"
    by (simp add: length_dropWhile_le le_imp_less_Suc)
  show ?thesis
  proof (cases "word_breaks l \<or> c = CHR ''#''")
    case True
    then show ?thesis
      unfolding word_breaks_def Cons list.case insert_iff empty_iff
      by (elim disjE conjE FalseE)
         (use Cons heredoc redir comment in \<open>simp_all add: list_step_def again\<close>)
  next
    case False
    then have "length (rest lw) < length (rest l)" using word(2) by simp
    then have rest: "reads 0 (case ow of Some w \<Rightarrow> m_list m in_sub segs (cur\<lparr>words := words cur @ [w]\<rparr>) groups
        (lw\<lparr>word_end := Some (length (rest lw))\<rparr>) | None \<Rightarrow> m_list m in_sub segs cur groups lw) l"
      using word(3,4) by (simp add: again split: option.split)
    have "c \<notin> break_chars" "\<not> ((c = CHR ''<'' \<or> c = CHR ''>'') \<and> peek1 l \<noteq> Some (CHR ''(''))" "c \<noteq> CHR ''#''"
      using False by (simp_all only: word_breaks_def Cons list.case de_Morgan_disj not_not simp_thms)
    with rest word(1) show ?thesis unfolding list_step_def Cons list.case
      by (simp only: insert_iff empty_iff de_Morgan_disj simp_thms if_False bind.simps prod.case)
  qed
qed (simp add: list_step_def)

lemma lexer_calls_unfold:
  assumes "m = methods_at n"
  shows "lexer_calls (methods_at (Suc n)) (Suc k)"
  using assms double_step_reads parameter_step_reads word_step_reads dollar_step_reads
    substitution_step_reads backtick_step_reads redirect_step_reads heredoc_bodies_step_reads
    body_expansions_step_total body_step_total list_step_reads
  by unfold_locales simp_all

end

section \<open>The methods meet the contract\<close>

lemma lexer_calls_methods_at: "lexer_calls (methods_at k) k"
proof (induction k)
  case 0
  show ?case by unfold_locales auto
next
  case (Suc k)
  then show ?case by (rule lexer_calls.lexer_calls_unfold) simp
qed

interpretation calls: lexer_calls "methods_at k" k for k
  by (rule lexer_calls_methods_at)

lemma lex_run_Some: "\<exists>segs l. lex_run input = Some (segs, l) \<and> depth l = 0"
proof -
  let ?l = "(new_lexer input 0)\<lparr>ok := length input \<le> MAX_LEN\<rparr>"
  have "4 * length (rest ?l) + 3 + level ?l \<le> lex_fuel input"
    by (simp add: new_lexer_def level_def lex_fuel_def MAX_DEPTH_def)
  from calls.list_reads [OF this, of False "[]" default_segment 0] show ?thesis
    by (auto simp: reads_def lex_run_def new_lexer_def)
qed

end
