(* ===== verification/Lexer_Static.thy ===== *)
theory Lexer_Static
  imports Lexer_Total
begin

text \<open>
  What the lexer never takes back: once \<open>ok\<close> is false it stays false, once \<open>dynamic\<close> is true it
  stays true, and commands are added to \<open>nested\<close> only under \<open>dynamic\<close>. So a command line that is not
  dynamic has no nested commands, which is what lets \<open>command_is_read_only\<close> look at the top-level
  segments alone.
\<close>

definition static_ok :: "lexer \<Rightarrow> bool" where
  "static_ok l \<longleftrightarrow> (nested l \<noteq> [] \<longrightarrow> dynamic l)"

definition keeps :: "lexer \<Rightarrow> lexer \<Rightarrow> bool" where
  "keeps l l' \<longleftrightarrow> (ok l' \<longrightarrow> ok l) \<and> (dynamic l \<longrightarrow> dynamic l') \<and> (static_ok l \<longrightarrow> static_ok l')"

definition keeping :: "lexer \<Rightarrow> ('a \<times> lexer) option \<Rightarrow> bool" where
  "keeping l r \<longleftrightarrow> (\<forall>x l'. r = Some (x, l') \<longrightarrow> keeps l l')"

definition keeping_state :: "lexer \<Rightarrow> lexer option \<Rightarrow> bool" where
  "keeping_state l r \<longleftrightarrow> (\<forall>l'. r = Some l' \<longrightarrow> keeps l l')"

locale lexer_keeps =
  fixes m :: methods
  assumes list_keeps: "keeping l (m_list m in_sub segs cur groups l)"
    and word_keeps: "keeping l (m_word m w started brace_at l)"
    and double_keeps: "keeping l (m_double m w l)"
    and dollar_keeps: "keeping l (m_dollar m w in_double l)"
    and parameter_keeps: "keeping l (m_parameter m d w l)"
    and substitution_keeps: "keeping l (m_substitution m w sigil l)"
    and backtick_keeps: "keeping l (m_backtick m w l)"
    and redirect_keeps: "keeping l (m_redirect m seg l)"
    and heredoc_bodies_keeps: "keeping_state l (m_heredoc_bodies m l)"
    and body_expansions_keeps: "keeping_state l (m_body_expansions m body l)"
    and body_keeps: "keeping_state l (m_body m w l)"

section \<open>Rules\<close>

lemma keeps_refl [simp, intro!]: "keeps l l"
  by (simp add: keeps_def)

lemma keeps_trans: "keeps l l1 \<Longrightarrow> keeps l1 l2 \<Longrightarrow> keeps l l2"
  by (auto simp: keeps_def)

lemma keeps_update [simp]:
  "keeps l (advance n l1) = keeps l l1"
  "keeps l (l1\<lparr>rest := r\<rparr>) = keeps l l1"
  "keeps l (l1\<lparr>depth := d\<rparr>) = keeps l l1"
  "keeps l (l1\<lparr>heredocs := hs\<rparr>) = keeps l l1"
  "keeps l (l1\<lparr>word_end := e\<rparr>) = keeps l l1"
  "keeps l l1 \<Longrightarrow> keeps l (fail l1)"
  "keeps l l1 \<Longrightarrow> keeps l (l1\<lparr>ok := False\<rparr>)"
  "keeps l l1 \<Longrightarrow> keeps l (l1\<lparr>ok := ok l1 \<and> b\<rparr>)"
  "keeps l l1 \<Longrightarrow> keeps l (l1\<lparr>dynamic := True\<rparr>)"
  by (auto simp: keeps_def static_ok_def advance_def fail_def)

lemma keeping_None [simp]: "keeping l None" "keeping_state l None"
  by (simp_all add: keeping_def keeping_state_def)

lemma keeping_Some [simp]:
  "keeping l (Some (x, l')) = keeps l l'" "keeping_state l (Some l') = keeps l l'"
  by (simp_all add: keeping_def keeping_state_def)

lemma keeping_Some_pair: "keeping l (Some p) = keeps l (snd p)"
  by (cases p) simp

lemma keeping_bind:
  "keeping l r \<Longrightarrow> (\<And>x l'. keeps l l' \<Longrightarrow> keeping l (f x l')) \<Longrightarrow> keeping l (Option.bind r (\<lambda>(x, l'). f x l'))"
  "keeping_state l q \<Longrightarrow> (\<And>l'. keeps l l' \<Longrightarrow> keeping l (g l')) \<Longrightarrow> keeping l (Option.bind q g)"
  by (cases r; auto simp: keeping_def) (cases q; auto simp: keeping_state_def)

lemma keeping_state_bind:
  "keeping l r \<Longrightarrow> (\<And>x l'. keeps l l' \<Longrightarrow> keeping_state l (f x l')) \<Longrightarrow>
    keeping_state l (Option.bind r (\<lambda>(x, l'). f x l'))"
  "keeping_state l q \<Longrightarrow> (\<And>l'. keeps l l' \<Longrightarrow> keeping_state l (g l')) \<Longrightarrow> keeping_state l (Option.bind q g)"
  by (cases r; auto simp: keeping_def) (cases q; auto simp: keeping_state_def)

lemma keeping_branch:
  "keeping l r \<Longrightarrow> keeping l r' \<Longrightarrow> keeping l (if b then r else r')"
  "keeping l r \<Longrightarrow> (\<And>y ys. keeping l (f y ys)) \<Longrightarrow> keeping l (case xs of [] \<Rightarrow> r | y # ys \<Rightarrow> f y ys)"
  "keeping l r \<Longrightarrow> (\<And>y. keeping l (g y)) \<Longrightarrow> keeping l (case ov of None \<Rightarrow> r | Some y \<Rightarrow> g y)"
  "(\<And>a b. p = (a, b) \<Longrightarrow> keeping l (h a b)) \<Longrightarrow> keeping l (case p of (a, b) \<Rightarrow> h a b)"
  "keeping_state l q \<Longrightarrow> keeping_state l q' \<Longrightarrow> keeping_state l (if b then q else q')"
  by (simp_all split: list.split option.split prod.split)

lemma keeping_from:
  "keeping l1 r \<Longrightarrow> keeps l l1 \<Longrightarrow> keeping l r"
  "keeping_state l1 q \<Longrightarrow> keeps l l1 \<Longrightarrow> keeping_state l q"
  by (auto simp: keeping_def keeping_state_def intro: keeps_trans)

lemma keeps_single_quoted: "single_quoted w l1 = (w', l') \<Longrightarrow> keeps l l1 \<Longrightarrow> keeps l l'"
  by (auto simp: single_quoted_def keeps_def static_ok_def split: prod.splits)

lemma keeps_ansi_c: "keeps l l1 \<Longrightarrow> keeps l (snd (ansi_c w l1))"
  by (auto simp: ansi_c_def keeps_def static_ok_def split: prod.split)

lemma keeps_absorb: "keeps l l1 \<Longrightarrow> static_ok sub \<Longrightarrow> keeps l (absorb l1 sub)"
  by (auto simp: absorb_def keeps_def static_ok_def)

lemma keeps_add_redirect: "keeps l (snd (add_redirect op t seg l))"
  by (simp add: add_redirect_def split: redirect_operator.split)

lemma static_new_lexer [simp]: "static_ok (new_lexer s d)"
  by (simp add: static_ok_def new_lexer_def)

section \<open>One unfolding\<close>

context lexer_keeps begin

lemmas call_keeps = list_keeps word_keeps double_keeps dollar_keeps parameter_keeps
  substitution_keeps backtick_keeps redirect_keeps

lemmas state_call_keeps = heredoc_bodies_keeps body_expansions_keeps body_keeps

lemmas from_call = call_keeps [THEN keeping_from(1)] state_call_keeps [THEN keeping_from(2)]

lemmas keep_rules = keeping_branch keeping_bind keeping_state_bind from_call

lemma double_step_keeps: "keeping l (double_step m w l)"
  unfolding double_step_def by (intro keep_rules; simp)

lemma word_step_keeps: "keeping l (word_step m w started brace_at l)"
  unfolding word_step_def by (intro keep_rules; simp add: keeps_single_quoted)

lemma parameter_step_keeps: "keeping l (parameter_step m d w l)"
  unfolding parameter_step_def by (intro keep_rules; simp add: keeps_single_quoted)

lemma dollar_step_keeps: "keeping l (dollar_step m w in_double l)"
  unfolding dollar_step_def Let_def by (intro keep_rules; simp add: keeping_Some_pair keeps_ansi_c)

lemma substitution_step_keeps: "keeping l (substitution_step m w sigil l)"
proof (cases "depth l \<ge> MAX_DEPTH")
  case False
  let ?l1 = "l\<lparr>dynamic := True, depth := depth l + 1, heredocs := []\<rparr>"
  have "keeps l (l1\<lparr>ok := ok l1 \<and> heredocs l1 = [], heredocs := heredocs l, depth := depth l1 - 1,
      nested := nested l1 @ segs\<rparr>)"
    if "m_list m True [] default_segment 0 ?l1 = Some (segs, l1)" for segs l1
    using list_keeps [of ?l1 True "[]" default_segment 0] that
    by (auto simp: keeping_def keeps_def static_ok_def)
  with False show ?thesis
    by (auto simp: substitution_step_def keeping_def bind_eq_Some_conv)
qed (auto simp: substitution_step_def)

lemma backtick_step_keeps: "keeping l (backtick_step m w l)"
proof -
  obtain inner r closed where tick: "read_backtick (rest l) = (inner, r, closed)" by (metis prod_cases3)
  let ?l1 = "l\<lparr>dynamic := True, rest := r, ok := ok l \<and> closed\<rparr>"
  have l1: "keeps l ?l1" "keeps l (fail ?l1)" by (auto simp: keeps_def static_ok_def fail_def)
  have "keeps l (absorb (?l1\<lparr>nested := nested ?l1 @ segs\<rparr>) sub)" for segs sub
    by (auto simp: absorb_def keeps_def static_ok_def)
  with l1 show ?thesis
    unfolding backtick_step_def tick Let_def prod.case keeping_def
    by (auto simp only: bind_eq_Some_conv option.inject prod.inject split: if_splits prod.splits)
qed

lemma redirect_step_keeps: "keeping l (redirect_step m seg l)"
proof -
  obtain op r where op: "operator (rest l) = (op, r)" by (cases "operator (rest l)")
  have "keeping l (Some (case ow of None \<Rightarrow> (drop_descriptor seg l, fail l2)
      | Some t \<Rightarrow> add_redirect op t (drop_descriptor seg l) l2))" if "keeps l l2" for ow l2
    using that keeps_trans [OF that keeps_add_redirect] by (simp add: keeping_Some_pair split: option.split)
  then show ?thesis
    unfolding redirect_step_def op Let_def prod.case by (intro keeping_bind from_call) simp_all
qed

lemma each_heredoc_keeps: "keeps l l1 \<Longrightarrow> keeping_state l (each_heredoc (m_body_expansions m) docs l1)"
proof (induction docs arbitrary: l1)
  case (Cons doc docs)
  obtain body r closed where doc: "read_heredoc doc (rest l1) = (body, r, closed)" by (metis prod_cases3)
  have "keeps l (l1\<lparr>rest := r, ok := ok l1 \<and> closed\<rparr>)"
    using Cons.prems by (auto simp: keeps_def static_ok_def)
  then have "keeping_state l (if expands_body doc then m_body_expansions m body (l1\<lparr>rest := r, ok := ok l1 \<and> closed\<rparr>)
      else Some (l1\<lparr>rest := r, ok := ok l1 \<and> closed\<rparr>))"
    by (auto intro: from_call)
  then show ?case
    unfolding each_heredoc.simps doc Let_def prod.case by (rule keeping_state_bind(2)) (rule Cons.IH)
qed simp

lemma heredoc_bodies_step_keeps: "keeping_state l (heredoc_bodies_step m l)"
  by (simp add: heredoc_bodies_step_def each_heredoc_keeps)

lemma body_expansions_step_keeps: "keeping_state l (body_expansions_step m body l)"
  using body_keeps [of "new_lexer body (depth l + 1)" default_word]
  by (auto simp: body_expansions_step_def keeping_state_def bind_eq_Some_conv keeps_def [of "new_lexer body (Suc (depth l))"]
      intro!: keeps_absorb)

lemma body_step_keeps: "keeping_state l (body_step m w l)"
proof (cases "rest l")
  case (Cons c cs)
  show ?thesis
    unfolding body_step_def Cons list.case by (intro keep_rules; simp)
qed (simp add: body_step_def)

lemma list_step_keeps: "keeping l (list_step m in_sub segs cur groups l)"
  unfolding list_step_def by (intro keep_rules; simp)

lemma lexer_keeps_unfold:
  assumes "m = methods_at n"
  shows "lexer_keeps (methods_at (Suc n))"
  using assms double_step_keeps parameter_step_keeps word_step_keeps dollar_step_keeps
    substitution_step_keeps backtick_step_keeps redirect_step_keeps heredoc_bodies_step_keeps
    body_expansions_step_keeps body_step_keeps list_step_keeps
  by unfold_locales simp_all

end

lemma lexer_keeps_methods_at: "lexer_keeps (methods_at k)"
proof (induction k)
  case 0
  show ?case by unfold_locales simp_all
next
  case (Suc k)
  then show ?case by (rule lexer_keeps.lexer_keeps_unfold) simp
qed

interpretation keeping_calls: lexer_keeps "methods_at k" for k
  by (rule lexer_keeps_methods_at)

section \<open>Command lines\<close>

lemma lex_run_keeps:
  assumes "lex_run input = Some (segs, l)"
  shows "keeps ((new_lexer input 0)\<lparr>ok := length input \<le> MAX_LEN\<rparr>) l"
  using assms keeping_calls.list_keeps
  unfolding lex_run_def keeping_def by blast

lemma lex_static_nested: "\<not> ldynamic (lex input) \<Longrightarrow> lnested (lex input) = []"
proof -
  obtain segs l where run: "lex_run input = Some (segs, l)" using lex_run_Some by blast
  have "static_ok l"
    using lex_run_keeps [OF run] by (simp add: keeps_def static_ok_def new_lexer_def)
  then show "\<not> ldynamic (lex input) \<Longrightarrow> lnested (lex input) = []"
    by (auto simp: lex_def run static_ok_def)
qed

lemma lex_ok_length: "lok (lex input) \<Longrightarrow> length input \<le> MAX_LEN"
proof -
  obtain segs l where run: "lex_run input = Some (segs, l)" using lex_run_Some by blast
  from lex_run_keeps [OF run] show "lok (lex input) \<Longrightarrow> length input \<le> MAX_LEN"
    by (simp add: keeps_def lex_def run)
qed

end
