(* ===== verification/Fs_Command.thy ===== *)
theory Fs_Command
  imports Shell_Writes Paths Lexer_Static
begin

text \<open>
  \<open>crates/z-engine-policy/src/shell/location.rs\<close>, \<open>shell/operands.rs\<close> and \<open>shell/fs_command.rs\<close>:
  where an operand points, the paths a command names, and the file-system commands that
  \<open>acceptEdits\<close> mode runs without asking.
\<close>

section \<open>Locations (location.rs)\<close>

datatype location = Relative path bool | Absolute path | Unknown

definition glob_may_climb :: "string \<Rightarrow> bool" where
  "glob_may_climb t = (\<exists>part \<in> set (split_on CHR ''/'' t).
     starts_with ''.'' part \<and> (contains_char CHR ''*'' part \<or> contains_char CHR ''?'' part \<or> contains_char CHR ''['' part))"

definition home_rest :: "shell_word \<Rightarrow> string option" where
  "home_rest w =
     (if tilde w then strip_prefix ''~'' (wtext w)
      else (case strip_prefix ''${HOME}'' (wtext w) of
        Some r \<Rightarrow> Some r
      | None \<Rightarrow>
        (case strip_prefix ''$HOME'' (wtext w) of
           Some r \<Rightarrow> (case r of c # _ \<Rightarrow> if is_name_char c then None else Some r | [] \<Rightarrow> Some r)
         | None \<Rightarrow> None)))"

definition home_suffix :: "shell_word \<Rightarrow> string option" where
  "home_suffix w = (case home_rest w of
     None \<Rightarrow> None
   | Some r \<Rightarrow>
       if contains_char DOLLAR r then None
       else if r = [] then Some []
       else map_option (trim_start_matches (\<lambda>c. c = CHR ''/'')) (strip_prefix ''/'' r))"

definition locate :: "shell_word \<Rightarrow> path option \<Rightarrow> location" where
  "locate w home =
     (if brace w \<or> wtext w = [] \<or> (glob w \<and> glob_may_climb (wtext w)) then Unknown
      else if tilde w \<or> param w then
        (case (home_suffix w, home) of
           (Some r, Some h) \<Rightarrow> Absolute (normalize (join_path h (components r)))
         | _ \<Rightarrow> Unknown)
      else let p = components (wtext w)
           in if is_absolute p then Absolute (normalize p) else Relative p (escapes_start p))"

section \<open>Operands (operands.rs)\<close>

definition NO_FILES :: "string list" where
  "NO_FILES = [''echo'', ''printf'', ''pwd'', ''true'', ''false'', ''seq'', ''expr'', ''date'', ''id'', ''whoami'',
     ''hostname'', ''uname'', ''env'', ''printenv'', ''getconf'', ''basename'', ''dirname'', ''type'', ''which'',
     ''test'', ''['', ''nproc'', ''groups'', ''uptime'', ''numfmt'']"

definition PATTERN_FIRST :: "string list" where
  "PATTERN_FIRST = [''grep'', ''egrep'', ''fgrep'', ''rg'', ''jq'']"

definition PATTERN_FLAGS :: "string list" where
  "PATTERN_FLAGS = [''-e'', ''--regexp'', ''-f'', ''--file'', ''--from-file'', ''--files'']"

definition WRITERS :: "string list" where
  "WRITERS = [''rm'', ''rmdir'', ''touch'', ''mkdir'', ''ln'', ''truncate'', ''chmod'', ''chown'', ''chgrp'',
     ''tee'', ''shred'', ''unlink'']"

definition COPIERS :: "string list" where
  "COPIERS = [''cp'', ''mv'', ''install'', ''rsync'']"

record operand_lists =
  op_reads :: "shell_word list"
  op_writes :: "shell_word list"

fun positionals_loop :: "bool \<Rightarrow> shell_word list \<Rightarrow> shell_word list" where
  "positionals_loop options [] = []"
| "positionals_loop options (w # args) =
     (if options \<and> wtext w = ''--'' then positionals_loop False args
      else if options \<and> starts_with ''-'' (wtext w) \<and> length (wtext w) > 1 then
        (case (if starts_with ''--'' (wtext w) then split_once ''='' (wtext w) else None) of
           Some (_, v) \<Rightarrow> if v \<noteq> [] then [w\<lparr>wtext := v, tilde := False\<rparr>] else []
         | None \<Rightarrow> []) @ positionals_loop options args
      else (if \<not> contains_str ''://'' (wtext w) then [w] else []) @ positionals_loop options args)"

definition positionals :: "shell_word list \<Rightarrow> shell_word list" where
  "positionals args = positionals_loop True args"

definition CD_FLAGS :: "string list" where
  "CD_FLAGS = [''-L'', ''-P'', ''-e'', ''-@'']"

definition cd_target :: "shell_word list \<Rightarrow> shell_word" where
  "cd_target args = (case List.find (\<lambda>w. wtext w \<notin> set CD_FLAGS) args of
     None \<Rightarrow> default_word\<lparr>wtext := ''~'', tilde := True\<rparr>
   | Some w \<Rightarrow> if wtext w = ''-'' then default_word\<lparr>wtext := ''-'', param := True\<rparr> else w)"

definition starts_find_expression :: "string \<Rightarrow> bool" where
  "starts_find_expression t \<longleftrightarrow> (starts_with ''-'' t \<and> length t > 1) \<or> t \<in> {''('', '')'', ''!'', '',''}"

definition dd_operands :: "shell_word list \<Rightarrow> string \<Rightarrow> shell_word list" where
  "dd_operands args key = List.map_filter
     (\<lambda>w. map_option (\<lambda>v. w\<lparr>wtext := v, tilde := False\<rparr>) (strip_prefix key (wtext w))) args"

definition reads_of :: "shell_word list \<Rightarrow> operand_lists" where
  "reads_of ws = \<lparr>op_reads = ws, op_writes = []\<rparr>"

definition operands :: "shell_word list \<Rightarrow> operand_lists" where
  "operands ws = (case ws of
     [] \<Rightarrow> reads_of []
   | first # args \<Rightarrow>
       let name = wtext first in
       if name \<in> set NO_FILES then reads_of []
       else if name = ''cd'' then reads_of [cd_target args]
       else if name = ''find'' then reads_of (takeWhile (\<lambda>w. \<not> starts_find_expression (wtext w)) args)
       else if name = ''sed'' then
         (case parse_call args of
            Some call \<Rightarrow> if in_place call then \<lparr>op_reads = [], op_writes = files call\<rparr> else reads_of (files call)
          | None \<Rightarrow> reads_of (positionals args))
       else if name = ''dd'' then \<lparr>op_reads = dd_operands args ''if='', op_writes = dd_operands args ''of=''\<rparr>
       else if name \<in> set PATTERN_FIRST then
         (let fs = positionals args;
              explicit = (\<exists>w \<in> set args. \<exists>flag \<in> set PATTERN_FLAGS. starts_with flag (wtext w))
          in reads_of (if \<not> explicit \<and> fs \<noteq> [] then tl fs else fs))
       else if name \<in> set COPIERS then \<lparr>op_reads = positionals args, op_writes = positionals args\<rparr>
       else if name \<in> set WRITERS then \<lparr>op_reads = [], op_writes = positionals args\<rparr>
       else reads_of (positionals args))"

section \<open>File-system commands (fs_command.rs)\<close>

definition MUTATORS :: "string list" where
  "MUTATORS = [''mkdir'', ''touch'', ''rm'', ''rmdir'', ''mv'', ''cp'']"

definition contained :: "shell_word \<Rightarrow> path \<Rightarrow> path \<Rightarrow> path option" where
  "contained w cwd root =
     (case (case locate w None of
              Relative p False \<Rightarrow> Some (normalize (join_path cwd p))
            | Absolute p \<Rightarrow> Some p
            | _ \<Rightarrow> None) of
        Some p \<Rightarrow> if starts_with root p then Some p else None
      | None \<Rightarrow> None)"

definition writable :: "shell_word \<Rightarrow> path \<Rightarrow> path \<Rightarrow> bool" where
  "writable w cwd root = (case contained w cwd root of Some p \<Rightarrow> \<not> is_protected p [root] | None \<Rightarrow> False)"

definition reads_inside :: "shell_word list \<Rightarrow> path \<Rightarrow> path \<Rightarrow> bool" where
  "reads_inside ws cwd root = (\<forall>w \<in> set (op_reads (operands ws)). contained w cwd root \<noteq> None)"

definition change_directory :: "path \<Rightarrow> shell_word list \<Rightarrow> path \<Rightarrow> path option" where
  "change_directory cwd args root = (case filter (\<lambda>w. wtext w \<notin> set CD_FLAGS) args of
     [t] \<Rightarrow> if wtext t = ''-'' then None else contained t cwd root
   | _ \<Rightarrow> None)"

fun mutation_targets :: "bool \<Rightarrow> shell_word list \<Rightarrow> shell_word list" where
  "mutation_targets options [] = []"
| "mutation_targets options (w # args) =
     (if options \<and> wtext w = ''--'' then mutation_targets False args
      else if options \<and> starts_with ''-'' (wtext w) \<and> length (wtext w) > 1 then
        (case split_once ''='' (wtext w) of
           Some (_, v) \<Rightarrow> if contains_char CHR ''/'' v then [w\<lparr>wtext := v\<rparr>] else []
         | None \<Rightarrow> []) @ mutation_targets options args
      else w # mutation_targets options args)"

definition mutation_contained :: "string \<Rightarrow> shell_word list \<Rightarrow> path \<Rightarrow> path \<Rightarrow> bool" where
  "mutation_contained name args cwd root =
     (if \<exists>w \<in> set args. expands w then False
      else let removes_root = (name \<in> {''rm'', ''rmdir'', ''mv''})
           in \<forall>t \<in> set (mutation_targets True args).
                (case contained t cwd root of
                   Some p \<Rightarrow> \<not> (is_protected p [root] \<or> (removes_root \<and> p = root))
                 | None \<Rightarrow> False))"

text \<open>
  The closure that \<open>is_common_fs_command\<close> runs on each segment: the directory the next segment
  starts in, or \<^term>\<open>None\<close> when the segment does not qualify.
\<close>

definition fs_segment :: "path \<Rightarrow> path \<Rightarrow> segment \<Rightarrow> path option" where
  "fs_segment root cwd s =
     (let keep = (\<lambda>b. if b then Some cwd else None) in
      if \<exists>r \<in> set (redirects s). writes_file r then None
      else (case command s of
        [] \<Rightarrow> Some cwd
      | name # args \<Rightarrow>
          if assignment name \<or> expands name then None
          else if wtext name = ''cd'' then change_directory cwd args root
          else if wtext name = ''sed'' then
            (case parse_call args of
               Some call \<Rightarrow>
                 if in_place call then keep (\<forall>f \<in> set (files call). writable f cwd root)
                 else keep (reads_inside (name # args) cwd root)
             | None \<Rightarrow> None)
          else if wtext name \<in> set MUTATORS then keep (mutation_contained (wtext name) args cwd root)
          else keep (segment_is_read_only s \<and> reads_inside (name # args) cwd root)))"

fun fs_segments :: "path \<Rightarrow> path \<Rightarrow> segment list \<Rightarrow> bool" where
  "fs_segments root cwd [] = True"
| "fs_segments root cwd (s # ss) =
     (case fs_segment root cwd s of None \<Rightarrow> False | Some cwd' \<Rightarrow> fs_segments root cwd' ss)"

definition is_common_fs_command :: "string \<Rightarrow> path \<Rightarrow> bool" where
  "is_common_fs_command cmd project_root =
     (let p = parse cmd; root = normalize project_root
      in if \<not> pok p \<or> pdynamic p \<or> segments p = [] then False
         else fs_segments root root (segments p))"

section \<open>Containment\<close>

text \<open>
  The specification: a shell that starts in \<open>cwd\<close> and changes directory as its \<open>cd\<close> commands say,
  every word taken literally; the pairs are the commands with the directory each runs in.
\<close>

definition shell_cd :: "path \<Rightarrow> segment \<Rightarrow> path" where
  "shell_cd cwd s = (case command s of
     name # args \<Rightarrow>
       if wtext name = ''cd'' then
         (case filter (\<lambda>w. wtext w \<notin> set CD_FLAGS) args of
            t # _ \<Rightarrow> resolve cwd (components (wtext t)) | [] \<Rightarrow> cwd)
       else cwd
   | [] \<Rightarrow> cwd)"

fun shell_trace :: "path \<Rightarrow> segment list \<Rightarrow> (path \<times> segment) list" where
  "shell_trace cwd [] = []"
| "shell_trace cwd (s # ss) = (cwd, s) # shell_trace (shell_cd cwd s) ss"

text \<open>
  The paths that the programs for files name, and those of a \<open>sed\<close> that edits in place, as \<open>Shell_Writes\<close> reads them.
\<close>

definition FS_PROGRAMS :: "string list" where
  "FS_PROGRAMS = [''mkdir'', ''touch'', ''rm'', ''rmdir'', ''mv'', ''cp'']"

definition mutated :: "path \<Rightarrow> segment \<Rightarrow> path list" where
  "mutated cwd s = (case command s of
     name # args \<Rightarrow>
       map (\<lambda>t. resolve cwd (components t))
         (if wtext name \<in> set FS_PROGRAMS then operand_words args @ attached_values args
          else if wtext name = ''sed'' \<and> sed_edits args then map wtext (sed_files args)
          else [])
   | [] \<Rightarrow> [])"

text \<open>A command that removes what it names, and one that is known to write other than by the programs for files.\<close>

definition removes :: "segment \<Rightarrow> bool" where
  "removes s \<longleftrightarrow> command s \<noteq> [] \<and> wtext (hd (command s)) \<in> {''rm'', ''rmdir'', ''mv''}"

definition writes_elsewhere :: "segment \<Rightarrow> bool" where
  "writes_elsewhere s \<longleftrightarrow> runs_known_writer s \<and> wtext (hd (command s)) \<notin> set FS_PROGRAMS \<union> {''sed''}"

lemma mutation_targets_words:
  "set (map wtext (mutation_targets True args)) = set (operand_words args) \<union> set (attached_values args)"
proof -
  have rest: "mutation_targets False ws = ws" for ws by (induction ws) simp_all
  show ?thesis
  proof (induction args)
    case (Cons w ws)
    consider (dashes) "wtext w = ''--''" | (option) "wtext w \<noteq> ''--''" "option_like (wtext w)"
      | (operand) "wtext w \<noteq> ''--''" "\<not> option_like (wtext w)" by blast
    then show ?case
    proof cases
      case dashes
      then show ?thesis by (simp add: rest operand_words_def attached_values_def before_dashes_def after_dashes_def)
    next
      case option
      then have "mutation_targets True (w # ws) = (case split_once ''='' (wtext w) of
           Some (_, v) \<Rightarrow> if contains_char CHR ''/'' v then [w\<lparr>wtext := v\<rparr>] else []
         | None \<Rightarrow> []) @ mutation_targets True ws" by (simp add: option_like_def)
      moreover have "value_after_equals (wtext w) = []" if "CHR ''='' \<notin> set (wtext w)"
      proof -
        have "dropWhile (\<lambda>c. c \<noteq> CHR ''='') (wtext w) = []" using that by (auto simp: dropWhile_eq_Nil_conv)
        then show ?thesis by (simp only: value_after_equals_def drop_Nil)
      qed
      ultimately show ?thesis using Cons.IH option
        by (simp add: split_once_equals contains_char_def operand_words_def attached_values_def before_dashes_def after_dashes_def)
    next
      case operand
      then have "mutation_targets True (w # ws) = w # mutation_targets True ws" by (auto simp: option_like_def)
      then show ?thesis using Cons.IH operand
        by (simp add: operand_words_def attached_values_def before_dashes_def after_dashes_def)
    qed
  qed (simp add: operand_words_def attached_values_def before_dashes_def after_dashes_def)
qed

lemma locate_no_home:
  assumes "locate w None = Relative p e"
  shows "p = components (wtext w)" "e = escapes_start p" "\<not> is_absolute p"
  using assms by (auto simp: locate_def Let_def split: if_splits option.splits)

lemma locate_no_home_abs:
  assumes "locate w None = Absolute p"
  shows "p = normalize (components (wtext w))" "is_absolute (components (wtext w))"
  using assms by (auto simp: locate_def Let_def split: if_splits option.splits)

text \<open>A contained operand is where the shell resolves it, and inside the root.\<close>

lemma contained_resolve:
  assumes "contained w cwd root = Some p"
  shows "p = resolve cwd (components (wtext w)) \<and> starts_with root p"
proof (cases "locate w None")
  case (Relative q e)
  with locate_no_home [OF Relative] assms show ?thesis
    by (cases e) (auto simp: contained_def resolve_def split: if_splits)
next
  case (Absolute q)
  with locate_no_home_abs [OF Absolute] assms show ?thesis
    by (auto simp: contained_def resolve_def split: if_splits)
qed (use assms in \<open>simp add: contained_def\<close>)

lemma fs_segment_cd:
  assumes "fs_segment root cwd s = Some cwd'" "starts_with root cwd"
  shows "cwd' = shell_cd cwd s \<and> starts_with root cwd'"
proof (cases "command s")
  case (Cons name args)
  show ?thesis
  proof (cases "wtext name = ''cd''")
    case True
    then have "change_directory cwd args root = Some cwd'"
      using assms(1) Cons by (auto simp: fs_segment_def split: if_splits)
    then obtain t where "filter (\<lambda>w. wtext w \<notin> set CD_FLAGS) args = [t]" "contained t cwd root = Some cwd'"
      by (auto simp: change_directory_def split: list.splits if_splits)
    then show ?thesis using True Cons contained_resolve by (simp add: shell_cd_def)
  next
    case False
    then have "cwd' = cwd"
      using assms(1) Cons by (auto simp: fs_segment_def Let_def split: if_splits option.splits)
    then show ?thesis using False Cons assms(2) by (simp add: shell_cd_def)
  qed
qed (use assms in \<open>auto simp: fs_segment_def shell_cd_def split: if_splits\<close>)

lemma fs_segment_writes: "fs_segment root cwd s \<noteq> None \<Longrightarrow> write_targets s = []"
  by (auto simp: fs_segment_def write_targets_def filter_empty_conv Let_def split: if_splits)

lemma fs_programs: "set FS_PROGRAMS = set MUTATORS" "''cd'' \<notin> set FS_PROGRAMS" "''sed'' \<notin> set FS_PROGRAMS"
  by (simp_all add: FS_PROGRAMS_def MUTATORS_def)

lemma mutation_contained_path:
  assumes "mutation_contained name args cwd root" "t \<in> set (operand_words args @ attached_values args)"
  shows "starts_with root (resolve cwd (components t)) \<and> \<not> is_protected (resolve cwd (components t)) [root] \<and>
    \<not> (name \<in> {''rm'', ''rmdir'', ''mv''} \<and> resolve cwd (components t) = root)"
proof -
  from assms(2) obtain w where w: "w \<in> set (mutation_targets True args)" "t = wtext w"
    using mutation_targets_words [of args] by auto
  from assms(1) w(1) obtain p where p: "contained w cwd root = Some p"
    "\<not> (is_protected p [root] \<or> (name \<in> {''rm'', ''rmdir'', ''mv''} \<and> p = root))"
    by (fastforce simp: mutation_contained_def Let_def split: if_splits option.splits)
  show ?thesis using contained_resolve [OF p(1)] p(2) w(2) by auto
qed

lemma fs_segment_mutated:
  assumes "fs_segment root cwd s \<noteq> None" "p \<in> set (mutated cwd s)"
  shows "starts_with root p \<and> \<not> is_protected p [root] \<and> \<not> (removes s \<and> p = root)"
proof -
  obtain name args where cmd: "command s = name # args"
    using assms(2) by (cases "command s") (auto simp: mutated_def)
  show ?thesis
  proof (cases "wtext name \<in> set FS_PROGRAMS")
    case True
    then have "wtext name \<noteq> ''cd''" "wtext name \<noteq> ''sed''" "wtext name \<in> set MUTATORS" using fs_programs by metis+
    with assms(1) cmd have "mutation_contained (wtext name) args cwd root"
      by (auto simp: fs_segment_def Let_def split: if_splits)
    note path = mutation_contained_path [OF this]
    obtain t where "t \<in> set (operand_words args @ attached_values args)" "p = resolve cwd (components t)"
      using assms(2) cmd True by (auto simp: mutated_def)
    then show ?thesis using path [of t] cmd by (simp add: removes_def)
  next
    case False
    then have sed: "wtext name = ''sed''" "sed_edits args" and p: "p \<in> (\<lambda>w. resolve cwd (components (wtext w))) ` set (sed_files args)"
      using assms(2) cmd by (auto simp: mutated_def split: if_splits)
    from assms(1) cmd sed(1) obtain call where call: "parse_call args = Some call"
      by (auto simp: fs_segment_def split: if_splits option.splits)
    with parse_call_complete [OF this] sed(2) assms(1) cmd sed(1) have "\<forall>f \<in> set (files call). writable f cwd root"
      by (simp add: fs_segment_def Let_def split: if_splits)
    moreover obtain w where "w \<in> set (files call)" "p = resolve cwd (components (wtext w))"
      using p parse_call_complete(2) [OF call] by blast
    ultimately show ?thesis using contained_resolve sed(1) cmd by (fastforce simp: writable_def removes_def split: option.splits)
  qed
qed

lemma fs_segment_known:
  assumes "fs_segment root cwd s \<noteq> None"
  shows "\<not> writes_elsewhere s"
proof
  assume w: "writes_elsewhere s"
  then obtain name args where cmd: "command s = name # args" "wtext name \<notin> set FS_PROGRAMS" "wtext name \<noteq> ''sed''"
    "known_to_write (wtext name) args" by (cases "command s") (auto simp: writes_elsewhere_def runs_known_writer_def)
  have "\<not> known_to_write ''cd'' args" by (simp add: known_to_write_def Let_def WRITING_PROGRAMS_def INTERPRETERS_def)
  then have "wtext name \<noteq> ''cd''" using cmd(4) by auto
  then have "segment_is_read_only s" using assms cmd fs_programs(1) by (auto simp: fs_segment_def Let_def split: if_splits)
  then show False using read_only_segment_not_known w by (auto simp: writes_elsewhere_def)
qed

lemma fs_segments_trace:
  assumes "fs_segments root cwd ss" "starts_with root cwd" "(d, s) \<in> set (shell_trace cwd ss)"
  shows "starts_with root d \<and> fs_segment root d s \<noteq> None"
  using assms
proof (induction ss arbitrary: cwd)
  case (Cons t ss)
  then obtain cwd' where step: "fs_segment root cwd t = Some cwd'" "fs_segments root cwd' ss"
    by (auto split: option.splits)
  with fs_segment_cd [OF step(1) Cons.prems(2)] Cons show ?case by auto
qed simp

end
