(* ===== verification/Domain.thy ===== *)
theory Domain
  imports Prelude
begin

text \<open>
  \<open>crates/z-engine-policy/src/rules/domain.rs\<close>: \<open>WebFetch(domain:..)\<close> specifiers and the host of a
  URL.
\<close>

record domain_pattern =
  domain :: string
  wildcard :: bool

definition domain_char :: "char \<Rightarrow> bool" where
  "domain_char c \<longleftrightarrow> is_ascii_alphanumeric c \<or> c \<in> {CHR ''.'', CHR ''-'', CHR ''_''}"

definition domain_parse :: "string \<Rightarrow> string + domain_pattern" where
  "domain_parse spec = (case strip_prefix ''domain:'' spec of
     None \<Rightarrow> Inl (''WebFetch rules take '' @ ticked ''domain:<host>'')
   | Some v \<Rightarrow>
       let val = trim v;
           (star, host) = (case strip_prefix ''*.'' val of Some h \<Rightarrow> (True, h) | None \<Rightarrow> (False, val));
           d = to_ascii_lowercase (trim_end_matches (\<lambda>c. c = CHR ''.'') host)
       in if d = [] \<or> \<not> (\<forall>c \<in> set d. domain_char c)
          then Inl (''invalid domain '' @ ticked val)
          else Inr \<lparr>domain = d, wildcard = star\<rparr>)"

definition matches_host :: "domain_pattern \<Rightarrow> string \<Rightarrow> bool" where
  "matches_host p host \<longleftrightarrow> host = domain p \<or>
     (case strip_suffix (domain p) host of Some r \<Rightarrow> ends_with ''.'' r | None \<Rightarrow> False)"

definition domain_display :: "domain_pattern \<Rightarrow> string" where
  "domain_display p = ''domain:'' @ (if wildcard p then ''*.'' else []) @ domain p"

definition is_scheme :: "string \<Rightarrow> bool" where
  "is_scheme s \<longleftrightarrow> (case s of c # _ \<Rightarrow> is_ascii_alphabetic c | [] \<Rightarrow> False) \<and>
     (\<forall>c \<in> set s. is_ascii_alphanumeric c \<or> c \<in> {CHR ''+'', CHR ''-'', CHR ''.''})"

definition hex_pair :: "string \<Rightarrow> char option" where
  "hex_pair s = (case s of
     a # b # _ \<Rightarrow>
       (case (to_digit 16 a, to_digit 16 b) of
          (Some x, Some y) \<Rightarrow> Some (char_of (16 * x + y)) | _ \<Rightarrow> None)
   | _ \<Rightarrow> None)"

fun percent_bytes :: "string \<Rightarrow> string" where
  "percent_bytes [] = []"
| "percent_bytes (c # s) =
     (case (if c = CHR ''%'' then hex_pair s else None) of
        Some b \<Rightarrow> b # percent_bytes (drop 2 s)
      | None \<Rightarrow> c # percent_bytes s)"

definition percent_decode :: "string \<Rightarrow> string" where
  "percent_decode s = from_utf8_lossy (percent_bytes s)"

text \<open>The authority's end: \<open>/\<close>, \<open>\\<close>, \<open>?\<close> or \<open>#\<close>.\<close>

definition ends_authority :: "char \<Rightarrow> bool" where
  "ends_authority c \<longleftrightarrow> c \<in> {CHR ''/'', BACKSLASH, CHR ''?'', CHR ''#''}"

definition url_rest :: "string \<Rightarrow> string option" where
  "url_rest url = (case split_once ''://'' url of
     Some (scheme, r) \<Rightarrow>
       if eq_ignore_ascii_case scheme ''file'' then None
       else if is_scheme scheme then Some (trim_start_matches (\<lambda>c. c = CHR ''/'' \<or> c = BACKSLASH) r)
       else Some (case strip_prefix ''//'' url of Some u \<Rightarrow> u | None \<Rightarrow> url)
   | None \<Rightarrow> Some (case strip_prefix ''//'' url of Some u \<Rightarrow> u | None \<Rightarrow> url))"

definition authority_host :: "string \<Rightarrow> string" where
  "authority_host r =
     (let authority = takeWhile (\<lambda>c. \<not> ends_authority c) r;
          host_port = last (split_on CHR ''@'' authority)
      in case strip_prefix ''['' host_port of
           Some ipv6 \<Rightarrow> hd (split_on CHR '']'' ipv6)
         | None \<Rightarrow> hd (split_on CHR '':'' host_port))"

definition url_host :: "string \<Rightarrow> string option" where
  "url_host url = (case url_rest (trim url) of
     None \<Rightarrow> None
   | Some r \<Rightarrow>
       let host = trim_end_matches (\<lambda>c. c = CHR ''.'') (to_ascii_lowercase (percent_decode (authority_host r)))
       in if host \<noteq> [] then Some host else None)"

section \<open>Lemmas\<close>

text \<open>A host matches exactly when it is the domain or ends in the domain after a dot.\<close>

lemma matches_host_iff: "matches_host p host \<longleftrightarrow> host = domain p \<or> (\<exists>sub. host = sub @ ''.'' @ domain p)"
proof
  assume "matches_host p host"
  then consider "host = domain p" | r where "strip_suffix (domain p) host = Some r" "ends_with ''.'' r"
    by (auto simp: matches_host_def split: option.splits)
  then show "host = domain p \<or> (\<exists>sub. host = sub @ ''.'' @ domain p)"
    by cases (auto simp: strip_suffix_Some_iff ends_with_suffix suffix_def)
next
  assume "host = domain p \<or> (\<exists>sub. host = sub @ ''.'' @ domain p)"
  moreover have "strip_suffix (domain p) (sub @ ''.'' @ domain p) = Some (sub @ ''.'')" for sub
    by (simp add: strip_suffix_Some_iff)
  ultimately show "matches_host p host"
    by (auto simp: matches_host_def ends_with_suffix suffix_def)
qed

lemma to_ascii_lower_dot: "to_ascii_lower c = CHR ''.'' \<longleftrightarrow> c = CHR ''.''"
proof
  assume l: "to_ascii_lower c = CHR ''.''"
  show "c = CHR ''.''"
  proof (cases "is_ascii_uppercase c")
    case True
    then have "code (to_ascii_lower c) = code c + 32"
      by (simp add: to_ascii_lower_def is_ascii_uppercase_def)
    with l True show ?thesis by (simp add: is_ascii_uppercase_def)
  qed (use l in \<open>simp add: to_ascii_lower_def\<close>)
qed (simp add: to_ascii_lower_def is_ascii_uppercase_def)

lemma trim_end_matches_last:
  "trim_end_matches P s = [] \<or> \<not> P (last (trim_end_matches P s))"
  by (auto simp: trim_end_matches_def last_rev hd_dropWhile simp del: dropWhile_eq_Nil_conv)

lemma trim_end_matches_id: "s = [] \<or> \<not> P (last s) \<Longrightarrow> trim_end_matches P s = s"
  unfolding trim_end_matches_def by (cases "s = []") (auto simp: dropWhile_hd hd_rev)

lemma domain_char_printable: "domain_char c \<Longrightarrow> printable c"
  by (auto simp: domain_char_def ascii_simps printable_def)

lemma domain_parse_Inr:
  assumes "domain_parse spec = Inr p"
  shows "domain p \<noteq> []" "\<forall>c \<in> set (domain p). domain_char c"
    "to_ascii_lowercase (domain p) = domain p" "last (domain p) \<noteq> CHR ''.''"
proof -
  obtain host where h: "domain p = to_ascii_lowercase (trim_end_matches (\<lambda>c. c = CHR ''.'') host)"
    using assms by (auto simp: domain_parse_def Let_def split: option.splits if_splits)
  show ne: "domain p \<noteq> []" and "\<forall>c \<in> set (domain p). domain_char c"
    using assms by (auto simp: domain_parse_def Let_def split: option.splits if_splits)
  show "to_ascii_lowercase (domain p) = domain p" by (simp add: h)
  show "last (domain p) \<noteq> CHR ''.''"
    using ne trim_end_matches_last [of "\<lambda>c. c = CHR ''.''" host] unfolding h to_ascii_lowercase_def
    by (auto simp: last_map to_ascii_lower_dot)
qed

lemma domain_display_parse:
  assumes "domain_parse spec = Inr p"
  shows "domain_parse (domain_display p) = Inr p"
proof -
  note d = domain_parse_Inr [OF assms]
  have star: "CHR ''*'' \<notin> set (domain p)"
    using d(2) by (auto simp: domain_char_def ascii_simps)
  have "printable CHR ''*''" "printable CHR ''.''" by (simp_all add: printable_def)
  then have "\<forall>c \<in> set ((if wildcard p then ''*.'' else []) @ domain p). printable c"
    using d(2) by (auto intro: domain_char_printable)
  then have t: "trim ((if wildcard p then ''*.'' else []) @ domain p) = (if wildcard p then ''*.'' else []) @ domain p"
    by (rule all_printable_trim)
  have "trim_end_matches (\<lambda>c. c = CHR ''.'') (domain p) = domain p"
    using d(4) by (intro trim_end_matches_id) simp
  moreover have "strip_prefix ''*.'' (domain p) = None"
    using star d(1) by (cases "domain p") auto
  moreover have "strip_prefix ''domain:'' (domain_display p) = Some ((if wildcard p then ''*.'' else []) @ domain p)"
    unfolding domain_display_def by (rule strip_prefix_append)
  ultimately show ?thesis
    using d(1-3) t by (auto simp: domain_parse_def split: if_splits)
qed

lemma domain_display_trim:
  assumes "domain_parse spec = Inr p"
  shows "trim (domain_display p) = domain_display p" "domain_display p \<noteq> []"
proof -
  have "\<forall>c \<in> set (''domain:'' @ ''*.''). printable c" by (simp add: printable_def)
  then have "\<forall>c \<in> set (domain_display p). printable c"
    using domain_parse_Inr(2) [OF assms] domain_char_printable by (auto simp: domain_display_def)
  then show "trim (domain_display p) = domain_display p" by (rule all_printable_trim)
  show "domain_display p \<noteq> []" by (simp add: domain_display_def)
qed

end
