(* ===== verification/Rules.thy ===== *)
theory Rules
  imports Fs_Command Domain
begin

text \<open>
  \<open>crates/z-engine-policy/src/action.rs\<close>, \<open>error.rs\<close> and \<open>rules/\<close>: actions, rule values, their
  grammar and canonical text, and which actions a rule governs.

  The crate \<open>globset\<close> is not part of the repository. It is the parameter \<open>G\<close> of every definition that
  compiles or matches a glob: building one glob or a set of globs may fail, and a compiled glob
  matches texts. A compiled \<open>GlobSet\<close> is represented by the globs it was built from.
\<close>

section \<open>The glob library\<close>

record glob =
  gtext :: string
  literal_separator :: bool
  case_insensitive :: bool

record glob_lib =
  glob_error :: "glob \<Rightarrow> string option"
  glob_match :: "glob \<Rightarrow> string \<Rightarrow> bool"
  set_error :: "glob list \<Rightarrow> string option"
  set_match :: "glob list \<Rightarrow> string \<Rightarrow> bool"
  glob_escape :: "string \<Rightarrow> string"
  fs_case_insensitive :: bool

section \<open>Errors (error.rs) and actions (action.rs)\<close>

datatype policy_error = InvalidRule string string | InvalidPattern string string

datatype action =
    Read "path list"
  | Write "path list"
  | Execute string
  | Fetch string
  | Search
  | Agent string
  | Mcp string string bool
  | Skill string
  | Other bool

fun mutates :: "action \<Rightarrow> bool" where
  "mutates (Write _) = True"
| "mutates (Execute cmd) = (\<not> is_read_only cmd)"
| "mutates (Mcp _ _ ro) = (\<not> ro)"
| "mutates (Other ro) = (\<not> ro)"
| "mutates (Read _) = False"
| "mutates (Fetch _) = False"
| "mutates Search = False"
| "mutates (Agent _) = False"
| "mutates (Skill _) = False"

section \<open>Command patterns (command.rs)\<close>

record command_pattern =
  ptext :: string
  pwords :: "string list option"
  pprefix :: bool

definition simple_words :: "string \<Rightarrow> string list option" where
  "simple_words s =
     (let p = parse s in
      if pok p \<and> \<not> pdynamic p then
        (case segments p of
           [seg] \<Rightarrow> if redirects seg = [] \<and> argv seg \<noteq> [] then Some (argv seg) else None
         | _ \<Rightarrow> None)
      else None)"

text \<open>\<open>spec.strip_suffix(":*").or_else(|| spec.strip_suffix('*'))\<close>\<close>

definition strip_star :: "string \<Rightarrow> string option" where
  "strip_star s = (case strip_suffix '':*'' s of Some b \<Rightarrow> Some b | None \<Rightarrow> strip_suffix ''*'' s)"

definition command_parse :: "string \<Rightarrow> string + command_pattern option" where
  "command_parse spec0 =
     (let spec = trim spec0;
          (t, pre) = (case strip_star spec of Some body \<Rightarrow> (trim_end body, True) | None \<Rightarrow> (spec, False))
      in if t = [] then (if pre then Inr None else Inl ''empty command'')
         else let ws = simple_words t
              in if pre \<and> ws = None then Inl ''a prefix rule must name one simple command''
                 else Inr (Some \<lparr>ptext = t, pwords = ws, pprefix = pre\<rparr>))"

definition allows :: "command_pattern \<Rightarrow> string list \<Rightarrow> bool" where
  "allows p av = (case pwords p of
     None \<Rightarrow> False
   | Some ws \<Rightarrow> if pprefix p then starts_with ws av else av = ws)"

definition may_name :: "glob_lib \<Rightarrow> shell_word \<Rightarrow> string \<Rightarrow> bool" where
  "may_name G program name =
     (if eq_ignore_ascii_case (wtext program) name then True
      else if \<not> (Syntax.glob program \<or> brace program) then False
      else let g = \<lparr>gtext = wtext program, literal_separator = False, case_insensitive = True\<rparr>
           in (case glob_error G g of Some _ \<Rightarrow> True | None \<Rightarrow> glob_match G g name))"

definition restricts :: "glob_lib \<Rightarrow> command_pattern \<Rightarrow> shell_word list \<Rightarrow> bool" where
  "restricts G p cmd = (case (pwords p, cmd) of
     (Some (name # rest_words), program # args) \<Rightarrow>
       (let avs = map wtext args in
        (if pprefix p then starts_with rest_words avs else avs = rest_words) \<and> may_name G program name)
   | _ \<Rightarrow> False)"

definition matches_line :: "command_pattern \<Rightarrow> string \<Rightarrow> bool" where
  "matches_line p cmd \<longleftrightarrow> \<not> pprefix p \<and> trim cmd = ptext p"

definition command_display :: "command_pattern \<Rightarrow> string" where
  "command_display p = (if pprefix p then ptext p @ '':*'' else ptext p)"

section \<open>Path patterns (path_pattern.rs)\<close>

datatype anchor = Project | Home | Root

record path_pattern =
  source :: string
  anchors :: "anchor list"
  matcher :: "glob list"

record policy_context =
  project_root :: path
  additional_dirs :: "path list"
  home :: "path option"

definition globs :: "string \<Rightarrow> bool \<Rightarrow> string list" where
  "globs body anchored =
     (if body = [] \<or> body = ''**'' then [''**'']
      else let base = (if anchored then body else ''**/'' @ body)
           in case strip_suffix ''/**'' base of
                Some dir \<Rightarrow> [dir, base]
              | None \<Rightarrow> [base @ ''/**'', base])"

datatype pattern_error = Invalid string | GlobError string

definition anchor_of :: "string \<Rightarrow> pattern_error + anchor list \<times> string" where
  "anchor_of s =
     (case strip_prefix ''//'' s of
        Some r \<Rightarrow> Inr ([Root], r)
      | None \<Rightarrow>
     (case strip_prefix ''~'' s of
        Some r \<Rightarrow>
          if \<not> (r = [] \<or> starts_with ''/'' r)
          then Inl (Invalid (''only '' @ ticked ''~/'' @ '' home paths are supported''))
          else Inr ([Home], r)
      | None \<Rightarrow>
     (case strip_prefix ''/'' s of
        Some r \<Rightarrow> Inr ([Root, Project], r)
      | None \<Rightarrow> Inr ([Project], case strip_prefix ''./'' s of Some r \<Rightarrow> r | None \<Rightarrow> s))))"

definition pattern_globs :: "glob_lib \<Rightarrow> anchor list \<Rightarrow> string \<Rightarrow> glob list" where
  "pattern_globs G ancs r =
     (let m = trim_matches (\<lambda>c. c = CHR ''/'') r;
          body = (if m = ''.'' then [] else m);
          anchored = (ancs \<noteq> [Project] \<or> contains_char CHR ''/'' body)
      in map (\<lambda>g. \<lparr>gtext = g, literal_separator = True, case_insensitive = fs_case_insensitive G\<rparr>)
           (globs body anchored))"

definition path_parse :: "glob_lib \<Rightarrow> string \<Rightarrow> pattern_error + path_pattern" where
  "path_parse G src =
     (let s = trim src in
      if starts_with ''!'' s then Inl (Invalid ''negated patterns are not supported'')
      else (case anchor_of s of
        Inl e \<Rightarrow> Inl e
      | Inr (ancs, r) \<Rightarrow>
          let gs = pattern_globs G ancs r in
          (case List.map_filter (glob_error G) gs of
             e # _ \<Rightarrow> Inl (GlobError e)
           | [] \<Rightarrow>
               (case set_error G gs of
                  Some e \<Rightarrow> Inl (GlobError e)
                | None \<Rightarrow> Inr \<lparr>source = s, anchors = ancs, matcher = gs\<rparr>))))"

definition root_relative :: "path \<Rightarrow> string" where
  "root_relative p =
     (let t = replace_char BACKSLASH ''/'' (path_str p)
      in case strip_prefix ''/'' t of Some r \<Rightarrow> r | None \<Rightarrow> t)"

definition under_base :: "glob_lib \<Rightarrow> path_pattern \<Rightarrow> path \<Rightarrow> path \<Rightarrow> bool" where
  "under_base G p pth base =
     (case strip_prefix base pth of Some r \<Rightarrow> set_match G (matcher p) (path_str r) | None \<Rightarrow> False)"

definition path_matches :: "glob_lib \<Rightarrow> path_pattern \<Rightarrow> path \<Rightarrow> policy_context \<Rightarrow> bool" where
  "path_matches G p pth0 ctx =
     (let pth = resolve (project_root ctx) pth0 in
      \<exists>a \<in> set (anchors p). case a of
         Project \<Rightarrow> under_base G p pth (project_root ctx)
       | Home \<Rightarrow> (case home ctx of Some h \<Rightarrow> under_base G p pth h | None \<Rightarrow> False)
       | Root \<Rightarrow> set_match G (matcher p) (root_relative pth))"

section \<open>Rules (rule.rs)\<close>

datatype rule_kind = AllowKind | AskKind | DenyKind

datatype file_scope = ReadScope | EditScope | ToolScope string

datatype mcp_tool = AllTools bool | NamedTool string

datatype rule =
    BashRule "command_pattern option"
  | FilesRule file_scope "path_pattern option"
  | WebFetchRule "domain_pattern option"
  | WebSearchRule
  | AgentRule "string option"
  | SkillRule "string option"
  | McpRule string mcp_tool
  | ToolRule string

definition optional_str :: "string \<Rightarrow> string option \<Rightarrow> string" where
  "optional_str tool spec = (case spec of Some s \<Rightarrow> tool @ ''('' @ s @ '')'' | None \<Rightarrow> tool)"

fun scope_name :: "file_scope \<Rightarrow> string" where
  "scope_name ReadScope = ''Read''"
| "scope_name EditScope = ''Edit''"
| "scope_name (ToolScope name) = name"

fun rule_display :: "rule \<Rightarrow> string" where
  "rule_display (BashRule p) = optional_str ''Bash'' (map_option command_display p)"
| "rule_display (FilesRule sc p) = optional_str (scope_name sc) (map_option source p)"
| "rule_display (WebFetchRule d) = optional_str ''WebFetch'' (map_option domain_display d)"
| "rule_display WebSearchRule = ''WebSearch''"
| "rule_display (AgentRule n) = optional_str ''Agent'' n"
| "rule_display (SkillRule n) = optional_str ''Skill'' n"
| "rule_display (McpRule server (AllTools False)) = ''mcp__'' @ server"
| "rule_display (McpRule server (AllTools True)) = ''mcp__'' @ server @ ''__*''"
| "rule_display (McpRule server (NamedTool t)) = ''mcp__'' @ server @ ''__'' @ t"
| "rule_display (ToolRule name) = name"

text \<open>\<open>PartialEq\<close>: path patterns compare by their source text.\<close>

fun rule_eq :: "rule \<Rightarrow> rule \<Rightarrow> bool" where
  "rule_eq (FilesRule sc p) (FilesRule sc' p') \<longleftrightarrow> sc = sc' \<and> map_option source p = map_option source p'"
| "rule_eq r r' \<longleftrightarrow> r = r'"

section \<open>The grammar (grammar.rs)\<close>

definition FILE_TOOLS :: "string list" where
  "FILE_TOOLS = [''Write'', ''MultiEdit'', ''NotebookEdit'', ''ApplyAgentChanges'', ''Glob'', ''Grep'', ''LSP'',
     ''NotebookRead'']"

definition tool_char :: "char \<Rightarrow> bool" where
  "tool_char c \<longleftrightarrow> is_ascii_alphanumeric c \<or> c \<in> {CHR ''_'', CHR ''-'', CHR ''.'', CHR ''*''}"

definition split_rule :: "string \<Rightarrow> policy_error + string \<times> string option" where
  "split_rule t =
     (case (case split_once ''('' t of
              Some (tool, r) \<Rightarrow>
                (case strip_suffix '')'' r of
                   None \<Rightarrow> Inl (InvalidRule t ''missing closing parenthesis'')
                 | Some inner \<Rightarrow>
                     if trim inner = [] then Inl (InvalidRule t ''empty specifier'')
                     else Inr (trim_end tool, Some (trim inner)))
            | None \<Rightarrow> Inr (t, None)) of
        Inl e \<Rightarrow> Inl e
      | Inr (tool, spec) \<Rightarrow>
          if tool = [] then Inl (InvalidRule t ''missing tool name'')
          else if \<not> (\<forall>c \<in> set tool. tool_char c)
          then Inl (InvalidRule t (''tool names use letters, digits, '' @ ticked ''_'' @ '', '' @ ticked ''-'' @
                 '' and '' @ ticked ''.''))
          else Inr (tool, spec))"

definition files_target :: "glob_lib \<Rightarrow> string \<Rightarrow> file_scope \<Rightarrow> string option \<Rightarrow> policy_error + rule" where
  "files_target G t sc spec = (case spec of
     None \<Rightarrow> Inr (FilesRule sc None)
   | Some s \<Rightarrow>
       (case path_parse G s of
          Inl (Invalid message) \<Rightarrow> Inl (InvalidRule t message)
        | Inl (GlobError e) \<Rightarrow> Inl (InvalidPattern t e)
        | Inr p \<Rightarrow> Inr (FilesRule sc (Some p))))"

definition rule_target :: "glob_lib \<Rightarrow> string \<Rightarrow> string \<Rightarrow> string option \<Rightarrow> policy_error + rule" where
  "rule_target G t tool spec =
     (if contains_char CHR ''*'' tool
        then Inl (InvalidRule t (''wildcards are only supported as '' @ ticked ''mcp__server__*''))
      else if tool = ''Bash'' then
        (case spec of
           None \<Rightarrow> Inr (BashRule None)
         | Some s \<Rightarrow> (case command_parse s of Inl m \<Rightarrow> Inl (InvalidRule t m) | Inr p \<Rightarrow> Inr (BashRule p)))
      else if tool = ''Read'' then files_target G t ReadScope spec
      else if tool = ''Edit'' then files_target G t EditScope spec
      else if tool \<in> set FILE_TOOLS then files_target G t (ToolScope tool) spec
      else if tool = ''WebFetch'' then
        (case spec of
           None \<Rightarrow> Inr (WebFetchRule None)
         | Some s \<Rightarrow> (case domain_parse s of Inl m \<Rightarrow> Inl (InvalidRule t m) | Inr d \<Rightarrow> Inr (WebFetchRule (Some d))))
      else if tool = ''WebSearch'' \<and> spec = None then Inr WebSearchRule
      else if tool = ''Agent'' \<or> tool = ''Task'' then Inr (AgentRule spec)
      else if tool = ''Skill'' then Inr (SkillRule spec)
      else if spec = None then Inr (ToolRule tool)
      else Inl (InvalidRule t (tool @ '' rules do not take a specifier'')))"

definition mcp_target :: "string \<Rightarrow> string \<Rightarrow> policy_error + rule" where
  "mcp_target t r =
     (case (case split_once ''__'' r of
              None \<Rightarrow> Inr (r, AllTools False)
            | Some (server, tool) \<Rightarrow>
                if tool = ''*'' then Inr (server, AllTools True)
                else if tool = [] then Inl (InvalidRule t ''missing MCP tool name'')
                else if contains_char CHR ''*'' tool
                then Inl (InvalidRule t (''only '' @ ticked ''mcp__server__*'' @ '' wildcards are supported''))
                else Inr (server, NamedTool tool)) of
        Inl e \<Rightarrow> Inl e
      | Inr (server, tool) \<Rightarrow>
          if server = [] \<or> contains_char CHR ''*'' server
          then Inl (InvalidRule t ''missing MCP server name'')
          else Inr (McpRule server tool))"

definition rule_parse :: "glob_lib \<Rightarrow> string \<Rightarrow> policy_error + rule" where
  "rule_parse G text0 =
     (let t = trim text0 in
      case split_rule t of
        Inl e \<Rightarrow> Inl e
      | Inr (tool, spec) \<Rightarrow>
          (case strip_prefix ''mcp__'' tool of
             Some r \<Rightarrow> if spec \<noteq> None then Inl (InvalidRule t ''MCP rules do not take a specifier'')
                       else mcp_target t r
           | None \<Rightarrow> rule_target G t tool spec))"

section \<open>What a rule governs (matching.rs)\<close>

fun names_tool :: "rule \<Rightarrow> string \<Rightarrow> bool" where
  "names_tool (ToolRule name) tool = (name = tool)"
| "names_tool (FilesRule (ToolScope name) None) tool = (name = tool)"
| "names_tool (SkillRule None) tool = (tool = ''Skill'')"
| "names_tool _ tool = False"

definition is_read :: "action \<Rightarrow> bool" where
  "is_read a = (case a of Read _ \<Rightarrow> True | _ \<Rightarrow> False)"

definition is_write :: "action \<Rightarrow> bool" where
  "is_write a = (case a of Write _ \<Rightarrow> True | _ \<Rightarrow> False)"

fun scope_governs :: "file_scope \<Rightarrow> string \<Rightarrow> action \<Rightarrow> bool" where
  "scope_governs ReadScope tool a = is_read a"
| "scope_governs EditScope tool a = is_write a"
| "scope_governs (ToolScope name) tool a = (name = tool \<and> (is_read a \<or> is_write a))"

fun path_scope :: "rule \<Rightarrow> string \<Rightarrow> action \<Rightarrow> path_pattern option option" where
  "path_scope (FilesRule sc p) tool a = (if scope_governs sc tool a then Some p else None)"
| "path_scope (ToolRule name) tool a = (if name = tool \<and> (is_read a \<or> is_write a) then Some None else None)"
| "path_scope _ tool a = None"

fun command_pattern_of :: "rule \<Rightarrow> command_pattern option option" where
  "command_pattern_of (BashRule p) = Some p"
| "command_pattern_of _ = None"

fun operand_pattern :: "rule \<Rightarrow> bool \<Rightarrow> path_pattern option" where
  "operand_pattern (FilesRule ReadScope (Some p)) writes = (if \<not> writes then Some p else None)"
| "operand_pattern (FilesRule EditScope (Some p)) writes = (if writes then Some p else None)"
| "operand_pattern _ writes = None"

definition mcp_identity :: "string \<Rightarrow> action \<Rightarrow> (string \<times> string) option" where
  "mcp_identity tool a = (case a of
     Mcp server called _ \<Rightarrow> Some (server, called)
   | _ \<Rightarrow> (case strip_prefix ''mcp__'' tool of Some r \<Rightarrow> split_once ''__'' r | None \<Rightarrow> None))"

fun call_matches :: "rule \<Rightarrow> string \<Rightarrow> action \<Rightarrow> bool" where
  "call_matches (WebFetchRule d) tool a = (case a of
     Fetch url \<Rightarrow>
       (case d of
          None \<Rightarrow> True
        | Some d \<Rightarrow> (case url_host url of Some h \<Rightarrow> matches_host d h | None \<Rightarrow> False))
   | _ \<Rightarrow> False)"
| "call_matches WebSearchRule tool a = (case a of Search \<Rightarrow> True | _ \<Rightarrow> False)"
| "call_matches (AgentRule n) tool a = (case a of
     Agent ty \<Rightarrow> (case n of None \<Rightarrow> True | Some n \<Rightarrow> eq_ignore_ascii_case n ty)
   | _ \<Rightarrow> False)"
| "call_matches (SkillRule n) tool a = (case a of
     Skill s \<Rightarrow> (case n of None \<Rightarrow> True | Some n \<Rightarrow> eq_ignore_ascii_case n s)
   | _ \<Rightarrow> False)"
| "call_matches (McpRule server pat) tool a =
     (case mcp_identity tool a of
        None \<Rightarrow> False
      | Some (cs, ct) \<Rightarrow>
          eq_ignore_ascii_case server cs \<and>
          (case pat of AllTools _ \<Rightarrow> True | NamedTool n \<Rightarrow> eq_ignore_ascii_case n ct))"
| "call_matches _ tool a = False"

definition matches_call :: "rule \<Rightarrow> string \<Rightarrow> action \<Rightarrow> bool" where
  "matches_call r tool a = (if names_tool r tool then True else call_matches r tool a)"

end
