(* ===== verification/Suggest.thy ===== *)
theory Suggest
  imports Read_Only Lexer_Static
begin

text \<open>
  \<open>crates/z-engine-policy/src/shell/suggest.rs\<close>: the prefix of the rule suggested for a command. A
  prefix is made of quoted words, and lexing it gives those words back.
\<close>

definition NEVER_PREFIX :: "string list" where
  "NEVER_PREFIX = [''rm'', ''rmdir'', ''sudo'', ''doas'', ''su'', ''chmod'', ''chown'', ''chgrp'', ''dd'', ''shred'',
     ''mkfs'', ''kill'', ''killall'', ''pkill'', ''eval'', ''exec'', ''xargs'', ''env'', ''nohup'', ''command'',
     ''builtin'', ''source'', ''.'', ''time'', ''timeout'', ''nice'', ''export'', ''unset'', ''set'', ''alias'', ''trap'']"

definition PREFIX_SHELLS :: "string list" where
  "PREFIX_SHELLS = [''sh'', ''bash'', ''zsh'', ''dash'', ''ksh'', ''fish'']"

definition INTERPRETERS :: "string list" where
  "INTERPRETERS = [''python'', ''python3'', ''node'', ''ruby'', ''perl'', ''php'']"

definition RUN_VERBS :: "string list" where
  "RUN_VERBS = [''run'', ''run-script'', ''exec'', ''x'', ''dlx'']"

definition MULTIPLEXERS :: "string list" where
  "MULTIPLEXERS = [''git'', ''cargo'', ''npm'', ''pnpm'', ''yarn'', ''bun'', ''deno'', ''go'', ''docker'', ''podman'',
     ''kubectl'', ''gh'', ''uv'', ''pip'', ''pip3'', ''poetry'', ''brew'', ''apt'', ''apt-get'', ''dotnet'', ''rustup'', ''npx'']"

definition bare_char :: "char \<Rightarrow> bool" where
  "bare_char c \<longleftrightarrow> is_ascii_alphanumeric c \<or> contains_char c ''_./:=+@%,-''"

definition quote :: "string \<Rightarrow> string" where
  "quote t =
     (if (\<forall>c \<in> set t. bare_char c) \<and> t \<noteq> [] then t
      else [QUOTE] @ replace_char QUOTE [QUOTE, BACKSLASH, QUOTE, QUOTE] t @ [QUOTE])"

definition plain_arg :: "shell_word \<Rightarrow> bool" where
  "plain_arg w \<longleftrightarrow> wtext w \<noteq> [] \<and> \<not> starts_with ''-'' (wtext w) \<and> \<not> expands w"

definition picked_args :: "string \<Rightarrow> shell_word list \<Rightarrow> shell_word list option" where
  "picked_args program args =
     (if program \<in> set PREFIX_SHELLS \<or> program \<in> set INTERPRETERS then
        (case args of
           [] \<Rightarrow> None
         | first # args' \<Rightarrow>
             if wtext first = ''-m'' \<and> program \<in> set INTERPRETERS then
               (case args' of next # _ \<Rightarrow> if plain_arg next then Some [first, next] else None | [] \<Rightarrow> None)
             else if plain_arg first then Some [first]
             else None)
      else (case args of
        sub # args' \<Rightarrow>
          if plain_arg sub then
            let chained = (wtext sub \<in> set RUN_VERBS \<or> starts_with ''+'' (wtext sub))
            in Some (sub # (case args' of next # _ \<Rightarrow> if plain_arg next \<and> chained then [next] else [] | [] \<Rightarrow> []))
          else if program \<in> set MULTIPLEXERS then None
          else Some []
      | [] \<Rightarrow> Some []))"

definition prefix_for :: "shell_word list \<Rightarrow> string option" where
  "prefix_for ws =
     (let env = takeWhile assignment ws; tail = drop (length env) ws in
      case tail of
        [] \<Rightarrow> None
      | name # args \<Rightarrow>
          if expands name \<or> wtext name = [] \<or> wtext name \<in> set NEVER_PREFIX then None
          else (case picked_args (wtext name) args of
            None \<Rightarrow> None
          | Some picked \<Rightarrow> Some (join_with '' '' (map (\<lambda>w. quote (wtext w)) (env @ name # picked)))))"

definition suggest_prefix :: "string \<Rightarrow> string option" where
  "suggest_prefix cmd =
     (let p = parse cmd in
      if \<not> pok p \<or> pdynamic p then None
      else (case List.find (\<lambda>s. \<not> segment_is_read_only s) (segments p) of
        Some s \<Rightarrow> prefix_for (command s)
      | None \<Rightarrow> (case segments p of s # _ \<Rightarrow> prefix_for (command s) | [] \<Rightarrow> None)))"

section \<open>Quoting and the lexer\<close>

abbreviation shell_chars :: "char set" where
  "shell_chars \<equiv> {CHR ''<'', CHR ''>'', QUOTE, DQUOTE, BACKSLASH, DOLLAR, BACKTICK, CHR ''#'', CHR ''*'', CHR ''?'',
     CHR ''['', CHR ''~'', CHR ''{'', CHR ''}'', NUL}"

lemma not_bare: "\<forall>c \<in> break_chars \<union> shell_chars. \<not> bare_char c"
  by (simp add: bare_char_def ascii_simps contains_char_def)

lemma bare_char_special:
  assumes "bare_char c"
  shows "c \<notin> break_chars" "c \<notin> shell_chars"
  using assms not_bare by (metis UnCI)+

lemma plain_bare:
  assumes "bare_char c" "plain w c started b = (w', b')"
  shows "wtext w' = wtext w @ [c]" "expands w' = expands w" "b' = b" "quoted w' = quoted w"
  using assms(2) bare_char_special(2) [OF assms(1)]
  by (auto simp: plain_def push_text_def expands_def split: if_splits)

lemma word_step_bare:
  assumes "bare_char c" "rest l = c # cs" "plain w c started b = (w', b')"
  shows "word_step m w started b l = m_word m w' True b' (advance 1 l)"
  using assms bare_char_special [OF assms(1)] by (simp add: word_step_def)

lemma m_word_break:
  "word_breaks l \<Longrightarrow> k > 0 \<Longrightarrow> m_word (methods_at k) w started b l = Some (end_word w started, l)"
  by (cases k) (simp_all add: word_step_break)

lemma m_word_bare:
  assumes "\<forall>c \<in> set s. bare_char c" "word_breaks (l\<lparr>rest := r\<rparr>)" "length s < k"
  shows "\<exists>w'. m_word (methods_at k) w started b (l\<lparr>rest := s @ r\<rparr>) = Some (end_word w' (started \<or> s \<noteq> []), l\<lparr>rest := r\<rparr>) \<and>
    wtext w' = wtext w @ s \<and> expands w' = expands w"
  using assms
proof (induction s arbitrary: w started b k)
  case Nil
  then show ?case by (auto simp: m_word_break)
next
  case (Cons c s)
  obtain j where k: "k = Suc j" using Cons.prems(3) by (cases k) auto
  obtain w1 b1 where p: "plain w c started b = (w1, b1)" by (cases "plain w c started b")
  have "m_word (methods_at k) w started b (l\<lparr>rest := (c # s) @ r\<rparr>) = m_word (methods_at j) w1 True b1 (l\<lparr>rest := s @ r\<rparr>)"
    using word_step_bare [of c "l\<lparr>rest := (c # s) @ r\<rparr>" "s @ r", OF _ _ p] Cons.prems(1)
    by (simp add: k advance_def)
  with Cons.IH [of j w1 True b1] Cons.prems k plain_bare [OF _ p] show ?case by auto
qed

lemma read_single_notin: "QUOTE \<notin> set a \<Longrightarrow> read_single (a @ QUOTE # r) = (a, r, True)"
  by (induction a) auto

lemma word_step_single:
  assumes "rest l = QUOTE # a @ QUOTE # r" "QUOTE \<notin> set a"
  shows "word_step m w started b l =
    m_word m (w\<lparr>quoted := True, wtext := wtext w @ a\<rparr>) True b (l\<lparr>rest := r\<rparr>)"
  using assms
  by (simp add: word_step_def single_quoted_def read_single_notin push_text_def advance_def)

lemma word_step_escape:
  assumes "rest l = BACKSLASH # QUOTE # r"
  shows "word_step m w started b l =
    m_word m (w\<lparr>quoted := True, wtext := wtext w @ [QUOTE]\<rparr>) True b (l\<lparr>rest := r\<rparr>)"
  using assms by (simp add: word_step_def push_text_def advance_def)

abbreviation escape_quotes :: "string \<Rightarrow> string" where
  "escape_quotes \<equiv> replace_char QUOTE [QUOTE, BACKSLASH, QUOTE, QUOTE]"

lemma escape_quotes_notin: "QUOTE \<notin> set a \<Longrightarrow> escape_quotes a = a"
  by (induction a) (auto simp: replace_char_def)

lemma m_word_quoted:
  assumes "word_breaks (l\<lparr>rest := r\<rparr>)" "2 * length t + 1 < k"
  shows "\<exists>w'. m_word (methods_at k) w started b (l\<lparr>rest := QUOTE # escape_quotes t @ QUOTE # r\<rparr>) =
      Some (end_word w' True, l\<lparr>rest := r\<rparr>) \<and> wtext w' = wtext w @ t \<and> expands w' = expands w"
  using assms
proof (induction "length t" arbitrary: t w started b k rule: less_induct)
  case less
  obtain j where k: "k = Suc j" "j > 0" using less.prems(2) by (cases k) auto
  show ?case
  proof (cases "QUOTE \<in> set t")
    case False
    then show ?thesis
      using word_step_single [of "l\<lparr>rest := QUOTE # t @ QUOTE # r\<rparr>" t r] less.prems(1) k
      by (intro exI [of _ "w\<lparr>quoted := True, wtext := wtext w @ t\<rparr>"])
         (simp add: escape_quotes_notin m_word_break expands_def)
  next
    case True
    then obtain a t' where t: "t = a @ QUOTE # t'" "QUOTE \<notin> set a" using split_list_first by fastforce
    obtain i where j: "j = Suc i" using less.prems(2) k t by (cases j) auto
    have esc: "escape_quotes t = a @ QUOTE # BACKSLASH # QUOTE # QUOTE # escape_quotes t'"
      using escape_quotes_notin [OF t(2)] by (simp add: t(1) replace_char_def)
    let ?w1 = "w\<lparr>quoted := True, wtext := (wtext w @ a) @ [QUOTE]\<rparr>"
    have "m_word (methods_at k) w started b (l\<lparr>rest := QUOTE # escape_quotes t @ QUOTE # r\<rparr>) =
        m_word (methods_at i) ?w1 True b (l\<lparr>rest := QUOTE # escape_quotes t' @ QUOTE # r\<rparr>)"
      using word_step_single [of "l\<lparr>rest := QUOTE # escape_quotes t @ QUOTE # r\<rparr>" a
          "BACKSLASH # QUOTE # QUOTE # escape_quotes t' @ QUOTE # r"] t(2)
        word_step_escape [of "l\<lparr>rest := BACKSLASH # QUOTE # QUOTE # escape_quotes t' @ QUOTE # r\<rparr>"]
      by (simp add: esc k j)
    then show ?thesis
      using less.hyps [of t' i ?w1 True b] less.prems k j t by (auto simp: expands_def)
  qed
qed

lemma length_escape_quotes: "length t \<le> length (escape_quotes t)"
  by (induction t) (auto simp: replace_char_def)

lemma m_word_quote:
  assumes "word_breaks (l\<lparr>rest := r\<rparr>)" "NUL \<notin> set t" "2 * length (quote t) + 1 < k"
  shows "\<exists>w'. m_word (methods_at k) default_word False b (l\<lparr>rest := quote t @ r\<rparr>) = Some (Some w', l\<lparr>rest := r\<rparr>) \<and>
    wtext w' = t \<and> \<not> expands w'"
proof (cases "(\<forall>c \<in> set t. bare_char c) \<and> t \<noteq> []")
  case True
  then have q: "quote t = t" by (simp add: quote_def)
  obtain w' where "m_word (methods_at k) default_word False b (l\<lparr>rest := t @ r\<rparr>) = Some (end_word w' True, l\<lparr>rest := r\<rparr>)"
    "wtext w' = t" "\<not> expands w'"
    using m_word_bare [of t r l k default_word False b] True assms q by (auto simp: default_word_def expands_def)
  then show ?thesis using assms(2) q
    by (auto simp: end_word_def expands_def takeWhile_eq_all_conv)
next
  case False
  then have q: "quote t = QUOTE # escape_quotes t @ [QUOTE]" by (auto simp: quote_def)
  obtain w' where "m_word (methods_at k) default_word False b (l\<lparr>rest := QUOTE # escape_quotes t @ QUOTE # r\<rparr>) =
      Some (end_word w' True, l\<lparr>rest := r\<rparr>)" "wtext w' = t" "\<not> expands w'"
    using m_word_quoted [of r l t k default_word False b] assms length_escape_quotes [of t]
    unfolding q by (auto simp: default_word_def expands_def)
  then show ?thesis using assms(2) unfolding q
    by (auto simp: end_word_def expands_def takeWhile_eq_all_conv)
qed

lemma quote_hd: "\<exists>c cs. quote t = c # cs \<and> (bare_char c \<or> c = QUOTE)"
  by (cases t) (auto simp: quote_def)

lemma list_step_quote:
  assumes "rest l = quote t @ r"
  shows "list_step m in_sub segs cur groups l = do {
    (ow, l') \<leftarrow> m_word m default_word False None l;
    (case ow of
       Some w \<Rightarrow> m_list m in_sub segs (cur\<lparr>words := words cur @ [w]\<rparr>) groups (l'\<lparr>word_end := Some (length (rest l'))\<rparr>)
     | None \<Rightarrow> m_list m in_sub segs cur groups l') }"
proof -
  obtain c cs where q: "quote t = c # cs" "bare_char c \<or> c = QUOTE" using quote_hd by blast
  have "c \<notin> break_chars" using q(2) bare_char_special(1) [of c] by (elim disjE) simp_all
  moreover have "c \<noteq> CHR ''#''" "c \<noteq> CHR ''<''" "c \<noteq> CHR ''>''"
    using q(2) bare_char_special(2) [of c] by (elim disjE; simp)+
  ultimately show ?thesis unfolding list_step_def assms q(1) append_Cons list.case
    by (simp only: insert_iff empty_iff de_Morgan_disj simp_thms if_False)
qed

abbreviation quoted_line :: "string list \<Rightarrow> string" where
  "quoted_line ts \<equiv> join_with '' '' (map quote ts)"

lemma length_quoted_line: "length (quoted_line (t # u # us)) = length (quote t) + 1 + length (quoted_line (u # us))"
  by simp

lemma m_list_quoted:
  assumes "ts \<noteq> []" "\<forall>t \<in> set ts. NUL \<notin> set t" "2 * length (quoted_line ts) + 4 < k" "heredocs l = []"
  shows "\<exists>ws l'. m_list (methods_at k) False [] cur 0 (l\<lparr>rest := quoted_line ts\<rparr>) =
      Some ([cur\<lparr>words := words cur @ ws\<rparr>], l') \<and> map wtext ws = ts \<and> (\<forall>w \<in> set ws. \<not> expands w) \<and>
      nested l' = nested l \<and> ok l' = ok l \<and> dynamic l' = dynamic l"
  using assms
proof (induction ts arbitrary: k cur l)
  case (Cons t ts)
  define j where "j = k - 3"
  have k: "k = Suc (Suc (Suc j))" using Cons.prems(3) by (simp add: j_def)
  let ?r = "if ts = [] then [] else SPACE # quoted_line ts"
  have line: "quoted_line (t # ts) = quote t @ ?r" by (cases ts) simp_all
  have "word_breaks (l\<lparr>rest := ?r\<rparr>)" by (simp add: word_breaks_def)
  then obtain w where w: "m_word (methods_at (Suc (Suc j))) default_word False None (l\<lparr>rest := quote t @ ?r\<rparr>) =
      Some (Some w, l\<lparr>rest := ?r\<rparr>)" "wtext w = t" "\<not> expands w"
    using m_word_quote [of ?r l t "Suc (Suc j)" None] Cons.prems line k by (auto split: if_splits)
  let ?l1 = "l\<lparr>rest := ?r, word_end := Some (length ?r)\<rparr>" and ?c1 = "cur\<lparr>words := words cur @ [w]\<rparr>"
  have step: "m_list (methods_at k) False [] cur 0 (l\<lparr>rest := quoted_line (t # ts)\<rparr>) =
      m_list (methods_at (Suc (Suc j))) False [] ?c1 0 ?l1"
    using list_step_quote [of "l\<lparr>rest := quote t @ ?r\<rparr>" t ?r] w(1) by (simp only: k methods_at_Suc line) simp
  show ?case
  proof (cases ts)
    case Nil
    then have "m_list (methods_at (Suc (Suc j))) False [] ?c1 0 ?l1 = Some ([?c1], ?l1)"
      using Cons.prems(4) by (simp add: list_step_def finish_def)
    with step w Nil show ?thesis by (intro exI [of _ "[w]"] exI [of _ ?l1]) simp
  next
    case (Cons u us)
    have "m_list (methods_at (Suc (Suc j))) False [] ?c1 0 ?l1 =
        m_list (methods_at (Suc j)) False [] ?c1 0 (?l1\<lparr>rest := quoted_line ts\<rparr>)"
      using Cons by (simp add: list_step_def advance_def)
    moreover obtain ws l' where "m_list (methods_at (Suc j)) False [] ?c1 0 (?l1\<lparr>rest := quoted_line ts\<rparr>) =
        Some ([?c1\<lparr>words := words ?c1 @ ws\<rparr>], l')" "map wtext ws = ts" "\<forall>w \<in> set ws. \<not> expands w"
        "nested l' = nested l" "ok l' = ok l" "dynamic l' = dynamic l"
      using Cons.IH [of "Suc j" ?l1 ?c1] Cons.prems Cons line k quote_hd [of t] by auto
    ultimately show ?thesis using step w by (intro exI [of _ "w # ws"] exI [of _ l']) simp
  qed
qed simp

text \<open>A line of quoted words lexes to one command of exactly these words.\<close>

lemma lex_quoted:
  assumes "ts \<noteq> []" "\<forall>t \<in> set ts. NUL \<notin> set t"
  obtains ws where "lex (quoted_line ts) = \<lparr>lsegments = [\<lparr>words = ws, redirects = []\<rparr>], lnested = [],
      lok = (length (quoted_line ts) \<le> MAX_LEN), ldynamic = False\<rparr>"
    "map wtext ws = ts" "\<forall>w \<in> set ws. \<not> expands w"
proof -
  let ?l = "(new_lexer (quoted_line ts) 0)\<lparr>ok := length (quoted_line ts) \<le> MAX_LEN\<rparr>"
  have rest: "?l\<lparr>rest := quoted_line ts\<rparr> = ?l" by (simp add: new_lexer_def)
  have fuel: "2 * length (quoted_line ts) + 4 < lex_fuel (quoted_line ts)" by (simp add: lex_fuel_def)
  obtain ws l' where run: "m_list (methods_at (lex_fuel (quoted_line ts))) False [] default_segment 0 ?l =
      Some ([default_segment\<lparr>words := words default_segment @ ws\<rparr>], l')" "map wtext ws = ts"
      "\<forall>w \<in> set ws. \<not> expands w" "nested l' = nested ?l" "ok l' = ok ?l" "dynamic l' = dynamic ?l"
    using m_list_quoted [OF assms fuel, of ?l default_segment] unfolding rest by (auto simp: new_lexer_def)
  then show thesis
    by (intro that [of ws]) (simp_all add: lex_def lex_run_def default_segment_def new_lexer_def)
qed

lemma picked_args_prefix: "picked_args program args = Some picked \<Longrightarrow> prefix picked args"
  by (auto simp: picked_args_def Let_def split: if_splits list.splits)

lemma prefix_for_tokens:
  assumes "prefix_for ws = Some pre"
  obtains ts where "pre = quoted_line ts" "ts \<noteq> []" "prefix ts (map wtext ws)"
proof -
  let ?env = "takeWhile assignment ws"
  obtain name args picked where p: "drop (length ?env) ws = name # args" "picked_args (wtext name) args = Some picked"
    "pre = quoted_line (map wtext (?env @ name # picked))"
    using assms by (auto simp: prefix_for_def Let_def comp_def split: list.splits if_splits option.splits)
  have "ws = ?env @ name # args" using p(1) by (metis append_take_drop_id takeWhile_eq_take)
  then have "prefix (?env @ name # picked) ws" using picked_args_prefix [OF p(2)] by (metis Cons_prefix_Cons same_prefix_prefix)
  then have "prefix (map wtext (?env @ name # picked)) (map wtext ws)" by (rule map_mono_prefix)
  then show thesis by (intro that [OF p(3)]) simp_all
qed

lemma quoted_line_ends:
  assumes "ts \<noteq> []"
  shows "quoted_line ts \<noteq> []" "printable (hd (quoted_line ts))" "printable (last (quoted_line ts))"
proof -
  have p: "printable QUOTE" "bare_char c \<Longrightarrow> printable c" for c
    by (auto simp: printable_def bare_char_def ascii_simps contains_char_def)
  have q: "quote t \<noteq> []" "printable (hd (quote t))" "printable (last (quote t))" for t
    using p by (auto simp: quote_def)
  show "quoted_line ts \<noteq> []" "printable (hd (quoted_line ts))"
    using assms q(1,2) by (cases ts rule: list.exhaust; cases "tl ts"; auto simp: hd_append)+
  show "printable (last (quoted_line ts))"
    using assms
  proof (induction ts rule: induct_list012)
    case (3 t u us)
    then have "quoted_line (u # us) \<noteq> []" using q(1) by (cases us) auto
    with 3 show ?case by simp
  qed (use q in auto)
qed

end
