(* ===== verification/Policy.thy ===== *)
theory Policy
  imports Rules Suggest Modes
begin

text \<open>
  \<open>crates/z-engine-policy/src/engine.rs\<close> and \<open>decide/\<close>: the policy's state, how it is built and
  extended, and the decision on one tool call.

  Paths are UTF-8 text, so \<open>to_string_lossy\<close> and \<open>display\<close> are the identity.
\<close>

section \<open>The policy (engine.rs)\<close>

record policy_config =
  c_allow :: "string list"
  c_ask :: "string list"
  c_deny :: "string list"
  c_auto_allow_read_only_bash :: bool
  c_sandbox_auto_allow :: bool

definition default_config :: policy_config where
  "default_config = \<lparr>c_allow = [], c_ask = [], c_deny = [], c_auto_allow_read_only_bash = True,
     c_sandbox_auto_allow = False\<rparr>"

datatype decision =
    Allow string
  | Ask string "string option" bool
  | Deny string

fun reason :: "decision \<Rightarrow> string" where
  "reason (Allow r) = r"
| "reason (Ask r _ _) = r"
| "reason (Deny r) = r"

record policy =
  ctx :: policy_context
  allow :: "rule list"
  ask :: "rule list"
  deny :: "rule list"
  session :: "rule list"
  auto_allow_read_only_bash :: bool
  sandbox_auto_allow :: bool

fun parse_rules :: "glob_lib \<Rightarrow> string list \<Rightarrow> rule list \<Rightarrow> policy_error list \<Rightarrow> rule list \<times> policy_error list" where
  "parse_rules G [] rules errors = (rules, errors)"
| "parse_rules G (t # ts) rules errors =
     (case rule_parse G t of
        Inr r \<Rightarrow> parse_rules G ts (push_new rule_eq r rules) errors
      | Inl e \<Rightarrow> parse_rules G ts rules (errors @ [e]))"

definition normal_context :: "policy_context \<Rightarrow> policy_context" where
  "normal_context c = \<lparr>project_root = normalize (project_root c),
     additional_dirs = map normalize (additional_dirs c), home = map_option normalize (home c)\<rparr>"

definition new_policy :: "glob_lib \<Rightarrow> policy_config \<Rightarrow> policy_context \<Rightarrow> policy \<times> policy_error list" where
  "new_policy G cfg c =
     (let (al, e1) = parse_rules G (c_allow cfg) [] [];
          (ak, e2) = parse_rules G (c_ask cfg) [] e1;
          (dn, e3) = parse_rules G (c_deny cfg) [] e2
      in (\<lparr>ctx = normal_context c, allow = al, ask = ak, deny = dn, session = [],
           auto_allow_read_only_bash = c_auto_allow_read_only_bash cfg,
           sandbox_auto_allow = c_sandbox_auto_allow cfg\<rparr>, e3))"

definition add_session_rule :: "glob_lib \<Rightarrow> string \<Rightarrow> policy \<Rightarrow> policy_error + policy" where
  "add_session_rule G t p = (case rule_parse G t of
     Inl e \<Rightarrow> Inl e
   | Inr r \<Rightarrow> Inr (p\<lparr>session := push_new rule_eq r (session p)\<rparr>))"

definition session_rules :: "policy \<Rightarrow> string list" where
  "session_rules p = map rule_display (session p)"

definition rules :: "policy \<Rightarrow> rule_kind \<Rightarrow> string list" where
  "rules p k = map rule_display (case k of AllowKind \<Rightarrow> allow p | AskKind \<Rightarrow> ask p | DenyKind \<Rightarrow> deny p)"

definition roots :: "policy \<Rightarrow> path list" where
  "roots p = project_root (ctx p) # additional_dirs (ctx p)"

definition is_inside_allowed :: "policy \<Rightarrow> path \<Rightarrow> bool" where
  "is_inside_allowed p pth =
     (let q = resolve (project_root (ctx p)) pth in \<exists>root \<in> set (roots p). starts_with root q)"

definition allow_rules :: "policy \<Rightarrow> rule list" where
  "allow_rules p = allow p @ session p"

definition protected_path :: "policy \<Rightarrow> path \<Rightarrow> bool" where
  "protected_path p pth = is_protected pth (roots p)"

section \<open>Files (decide/files.rs)\<close>

definition targets :: "policy \<Rightarrow> action \<Rightarrow> path list \<Rightarrow> path list" where
  "targets p a paths =
     (if paths = [] \<and> is_read a then [project_root (ctx p)]
      else map (resolve (project_root (ctx p))) paths)"

definition files_restricts :: "glob_lib \<Rightarrow> policy \<Rightarrow> rule \<Rightarrow> string \<Rightarrow> action \<Rightarrow> path list \<Rightarrow> bool" where
  "files_restricts G p r tool a paths = (case path_scope r tool a of
     None \<Rightarrow> False
   | Some None \<Rightarrow> True
   | Some (Some pat) \<Rightarrow> \<exists>pth \<in> set (targets p a paths). path_matches G pat pth (ctx p))"

definition covers_path :: "glob_lib \<Rightarrow> policy \<Rightarrow> string \<Rightarrow> action \<Rightarrow> path \<Rightarrow> rule \<Rightarrow> bool" where
  "covers_path G p tool a pth r = (case path_scope r tool a of
     None \<Rightarrow> False
   | Some None \<Rightarrow> is_inside_allowed p pth
   | Some (Some pat) \<Rightarrow> path_matches G pat pth (ctx p))"

definition get_or_insert :: "'a \<Rightarrow> 'a option \<Rightarrow> 'a option" where
  "get_or_insert x ov = (case ov of None \<Rightarrow> Some x | Some y \<Rightarrow> Some y)"

fun files_allowing :: "glob_lib \<Rightarrow> policy \<Rightarrow> string \<Rightarrow> action \<Rightarrow> path list \<Rightarrow> rule option \<Rightarrow> rule option" where
  "files_allowing G p tool a [] first = first"
| "files_allowing G p tool a (pth # ps) first =
     (if is_write a \<and> is_inside_allowed p pth \<and> protected_path p pth then None
      else (case List.find (covers_path G p tool a pth) (allow_rules p) of
        None \<Rightarrow> None
      | Some r \<Rightarrow> files_allowing G p tool a ps (get_or_insert r first)))"

definition slashed :: "path \<Rightarrow> string" where
  "slashed pth = replace_char BACKSLASH ''/'' (path_str pth)"

definition canonical :: "glob_lib \<Rightarrow> string \<Rightarrow> string option" where
  "canonical G t = (case rule_parse G t of Inr r \<Rightarrow> Some (rule_display r) | Inl _ \<Rightarrow> None)"

definition exact_rule :: "glob_lib \<Rightarrow> policy \<Rightarrow> string \<Rightarrow> path \<Rightarrow> string option" where
  "exact_rule G p tool pth =
     (let under_home = (case home (ctx p) of
            None \<Rightarrow> None
          | Some h \<Rightarrow> (case strip_prefix h pth of Some r \<Rightarrow> if r \<noteq> [] then Some r else None | None \<Rightarrow> None));
          spec = (case under_home of
            Some r \<Rightarrow> ''~/'' @ slashed r
          | None \<Rightarrow> ''//'' @ trim_start_matches (\<lambda>c. c = CHR ''/'') (slashed pth))
      in canonical G (tool @ ''('' @ glob_escape G spec @ '')''))"

definition shown :: "policy \<Rightarrow> path \<Rightarrow> string" where
  "shown p pth = path_str (case strip_prefix (project_root (ctx p)) pth of Some r \<Rightarrow> r | None \<Rightarrow> pth)"

definition describe :: "policy \<Rightarrow> path list \<Rightarrow> string" where
  "describe p ts = (case ts of
     [] \<Rightarrow> ''nothing''
   | [only] \<Rightarrow> shown p only
   | first # more_paths \<Rightarrow> shown p first @ '' and '' @ nat_str (length more_paths) @ '' more'')"

definition files_decide :: "glob_lib \<Rightarrow> policy \<Rightarrow> string \<Rightarrow> action \<Rightarrow> path list \<Rightarrow> permission_mode \<Rightarrow> decision" where
  "files_decide G p tool a paths mode =
     (let ts = targets p a paths in
      case files_allowing G p tool a ts None of
        Some r \<Rightarrow> Allow (''allowed by rule '' @ rule_display r)
      | None \<Rightarrow>
          let outside = List.find (\<lambda>pth. \<not> is_inside_allowed p pth) ts in
          if is_read a then
            (case outside of
               None \<Rightarrow> Allow ''reads inside the project''
             | Some pth \<Rightarrow> Ask (''reads outside the project: '' @ path_str pth) (exact_rule G p ''Read'' pth) False)
          else if ts = [] then Ask ''the files to edit are unknown'' None False
          else (case (outside, List.find (protected_path p) ts) of
              (Some pth, _) \<Rightarrow>
                Ask (''writes outside the project: '' @ path_str pth) (exact_rule G p ''Edit'' pth) False
            | (None, Some pth) \<Rightarrow> Ask (''edits a protected path: '' @ shown p pth) None False
            | (None, None) \<Rightarrow>
                if mode = AcceptEdits then Allow ''acceptEdits mode allows edits inside the project''
                else Ask (''edits '' @ describe p ts) (Some ''Edit'') True))"

definition touches_outside :: "policy \<Rightarrow> action \<Rightarrow> bool" where
  "touches_outside p a = (case a of
     Read paths \<Rightarrow> \<exists>pth \<in> set (targets p a paths). \<not> is_inside_allowed p pth
   | Write paths \<Rightarrow> \<exists>pth \<in> set (targets p a paths). \<not> is_inside_allowed p pth
   | _ \<Rightarrow> False)"

section \<open>Shell commands (decide/execute.rs, decide/sandbox.rs)\<close>

record line_facts =
  fcommand :: string
  fparsed :: parsed
  candidates :: "segment list"
  truncated :: bool
  fread_only :: bool

definition command_facts :: "string \<Rightarrow> line_facts" where
  "command_facts cmd =
     (let p = parse cmd; found = map executed_commands (all_segments p)
      in \<lparr>fcommand = trim cmd, fparsed = p, candidates = concat (map fst found),
          truncated = (\<exists>f \<in> set found. snd f), fread_only = command_is_read_only p\<rparr>)"

definition best_guess :: "policy \<Rightarrow> shell_word \<Rightarrow> path option" where
  "best_guess p w = (case locate w (home (ctx p)) of
     Relative pth _ \<Rightarrow> Some (resolve (project_root (ctx p)) pth)
   | Absolute pth \<Rightarrow> Some pth
   | Unknown \<Rightarrow> None)"

definition named_files :: "bool \<Rightarrow> segment \<Rightarrow> shell_word list" where
  "named_files writes c =
     (let ops = operands (words c) in
      if writes then op_writes ops @ write_targets c else op_reads ops)"

definition execute_restricts :: "glob_lib \<Rightarrow> policy \<Rightarrow> rule \<Rightarrow> string \<Rightarrow> line_facts \<Rightarrow> bool" where
  "execute_restricts G p r tool f =
     (if names_tool r tool then True
      else (case command_pattern_of r of
        Some None \<Rightarrow> True
      | Some (Some pat) \<Rightarrow>
          truncated f \<or> matches_line pat (fcommand f) \<or> (\<exists>c \<in> set (candidates f). restricts G pat (words c))
      | None \<Rightarrow>
          (case (case operand_pattern r False of
                   Some pat \<Rightarrow> Some (pat, False)
                 | None \<Rightarrow> map_option (\<lambda>pat. (pat, True)) (operand_pattern r True)) of
             None \<Rightarrow> False
           | Some (pat, writes) \<Rightarrow>
               truncated f \<or>
               (\<exists>c \<in> set (candidates f). \<exists>w \<in> set (named_files writes c).
                  case best_guess p w of Some pth \<Rightarrow> path_matches G pat pth (ctx p) | None \<Rightarrow> False))))"

definition read_rule_covers :: "glob_lib \<Rightarrow> policy \<Rightarrow> path \<Rightarrow> bool" where
  "read_rule_covers G p pth = (\<exists>r \<in> set (allow_rules p).
     case operand_pattern r False of Some pat \<Rightarrow> path_matches G pat pth (ctx p) | None \<Rightarrow> False)"

definition reads_allowed :: "glob_lib \<Rightarrow> policy \<Rightarrow> segment \<Rightarrow> bool" where
  "reads_allowed G p s = (\<forall>w \<in> set (op_reads (operands (command s))).
     case locate w (home (ctx p)) of
       Relative _ escapes \<Rightarrow> \<not> escapes
     | Absolute pth \<Rightarrow> is_inside_allowed p pth \<or> read_rule_covers G p pth
     | Unknown \<Rightarrow> False)"

definition redirects_contained :: "policy \<Rightarrow> segment \<Rightarrow> bool" where
  "redirects_contained p s = (\<forall>w \<in> set (write_targets s).
     case locate w (home (ctx p)) of
       Relative pth escapes \<Rightarrow> \<not> escapes \<and> \<not> protected_path p (resolve (project_root (ctx p)) pth)
     | Absolute pth \<Rightarrow> is_inside_allowed p pth \<and> \<not> protected_path p pth
     | Unknown \<Rightarrow> False)"

datatype coverage = CoveredBy rule | Harmless | Uncovered

definition covers_argv :: "string list \<Rightarrow> rule \<Rightarrow> bool" where
  "covers_argv ws r = (case command_pattern_of r of Some (Some pat) \<Rightarrow> allows pat ws | _ \<Rightarrow> False)"

definition coverage_of :: "glob_lib \<Rightarrow> policy \<Rightarrow> segment \<Rightarrow> coverage" where
  "coverage_of G p s =
     (let contained = redirects_contained p s; ws = argv s in
      if ws = [] then (if contained then Harmless else Uncovered)
      else (case (if contained then List.find (covers_argv ws) (allow_rules p) else None) of
        Some r \<Rightarrow> CoveredBy r
      | None \<Rightarrow>
          if auto_allow_read_only_bash p \<and> segment_is_read_only s \<and> reads_allowed G p s then Harmless
          else Uncovered))"

definition allows_whole :: "string \<Rightarrow> line_facts \<Rightarrow> rule \<Rightarrow> bool" where
  "allows_whole tool f r \<longleftrightarrow> names_tool r tool \<or>
     (case command_pattern_of r of
        Some None \<Rightarrow> True
      | Some (Some pat) \<Rightarrow> matches_line pat (fcommand f)
      | None \<Rightarrow> False)"

fun covering :: "glob_lib \<Rightarrow> policy \<Rightarrow> segment list \<Rightarrow> rule option \<Rightarrow> rule option" where
  "covering G p [] first = first"
| "covering G p (s # ss) first = (case coverage_of G p s of
     CoveredBy r \<Rightarrow> covering G p ss (get_or_insert r first)
   | Harmless \<Rightarrow> covering G p ss first
   | Uncovered \<Rightarrow> None)"

definition execute_allowing :: "glob_lib \<Rightarrow> policy \<Rightarrow> string \<Rightarrow> line_facts \<Rightarrow> rule option" where
  "execute_allowing G p tool f = (case List.find (allows_whole tool f) (allow_rules p) of
     Some r \<Rightarrow> Some r
   | None \<Rightarrow>
       let pr = fparsed f in
       if \<not> pok pr \<or> pdynamic pr \<or> segments pr = [] then None
       else covering G p (segments pr) None)"

definition sandbox_contained :: "policy \<Rightarrow> shell_word \<Rightarrow> bool" where
  "sandbox_contained p w = (case locate w (home (ctx p)) of
     Relative pth escapes \<Rightarrow> \<not> escapes \<and> \<not> protected_path p (resolve (project_root (ctx p)) pth)
   | Absolute pth \<Rightarrow> is_inside_allowed p pth \<and> \<not> protected_path p pth
   | Unknown \<Rightarrow> False)"

definition writes_contained :: "policy \<Rightarrow> segment \<Rightarrow> bool" where
  "writes_contained p s =
     (\<forall>w \<in> set (write_targets s @ op_writes (operands (command s))). sandbox_contained p w)"

definition sandbox_allows :: "policy \<Rightarrow> parsed \<Rightarrow> segment list \<Rightarrow> bool \<Rightarrow> bool" where
  "sandbox_allows p pr cands trunc \<longleftrightarrow> sandbox_auto_allow p \<and> pok pr \<and> \<not> pdynamic pr \<and> \<not> trunc \<and>
     (\<forall>s \<in> set (all_segments pr). writes_contained p s) \<and> (\<forall>c \<in> set cands. writes_contained p c)"

definition ask_reason :: "policy \<Rightarrow> line_facts \<Rightarrow> string" where
  "ask_reason p f =
     (if \<not> pok (fparsed f) then ''the command could not be fully parsed''
      else if pdynamic (fparsed f) then ''the command computes part of itself at run time''
      else if fread_only f \<and> \<not> auto_allow_read_only_bash p then ''read-only commands need approval''
      else if fread_only f then ''the command reads outside the project''
      else ''the command needs approval'')"

definition suggestion :: "glob_lib \<Rightarrow> policy \<Rightarrow> line_facts \<Rightarrow> string option" where
  "suggestion G p f =
     (let pr = fparsed f in
      if \<not> pok pr \<or> pdynamic pr then None
      else (case List.find (\<lambda>s. coverage_of G p s = Uncovered) (segments pr) of
        None \<Rightarrow> None
      | Some s \<Rightarrow>
          (case (if redirects_contained p s then prefix_for (command s) else None) of
             Some pre \<Rightarrow> canonical G (''Bash('' @ pre @ '':*)'')
           | None \<Rightarrow>
               if length (fcommand f) \<le> 200 \<and> \<not> contains_char NL (fcommand f) \<and> \<not> ends_with ''*'' (fcommand f)
               then canonical G (''Bash('' @ fcommand f @ '')'')
               else None)))"

definition execute_decide :: "glob_lib \<Rightarrow> policy \<Rightarrow> string \<Rightarrow> line_facts \<Rightarrow> permission_mode \<Rightarrow> decision" where
  "execute_decide G p tool f mode = (case execute_allowing G p tool f of
     Some r \<Rightarrow> Allow (''allowed by rule '' @ rule_display r)
   | None \<Rightarrow>
       if fread_only f \<and> auto_allow_read_only_bash p \<and> (\<forall>s \<in> set (segments (fparsed f)). reads_allowed G p s)
         then Allow ''read-only command''
       else if mode = AcceptEdits \<and> (auto_allow_read_only_bash p \<or> \<not> fread_only f) \<and>
               is_common_fs_command (fcommand f) (project_root (ctx p))
         then Allow ''acceptEdits mode allows filesystem commands inside the project''
       else if sandbox_allows p (fparsed f) (candidates f) (truncated f) then Allow ''sandboxed''
       else Ask (ask_reason p f) (suggestion G p f) True)"

section \<open>Other actions (decide/other.rs)\<close>

definition other_decide :: "glob_lib \<Rightarrow> policy \<Rightarrow> string \<Rightarrow> action \<Rightarrow> decision" where
  "other_decide G p tool a = (case List.find (\<lambda>r. matches_call r tool a) (allow_rules p) of
     Some r \<Rightarrow> Allow (''allowed by rule '' @ rule_display r)
   | None \<Rightarrow>
       (case a of
          Fetch url \<Rightarrow>
            (case url_host url of
               Some host \<Rightarrow> Ask (''fetches '' @ host) (canonical G (''WebFetch(domain:'' @ host @ '')'')) True
             | None \<Rightarrow> Ask ''fetches a URL without a host'' None True)
        | Search \<Rightarrow> Ask ''searches the web'' (Some ''WebSearch'') True
        | Agent _ \<Rightarrow> Allow ''subagents are gated per tool call''
        | Skill _ \<Rightarrow> Allow ''skills only load instructions''
        | Mcp server t _ \<Rightarrow>
            Ask (''calls MCP tool '' @ t @ '' on '' @ server) (canonical G (''mcp__'' @ server @ ''__'' @ t)) True
        | Other ro \<Rightarrow>
            if ro then Allow ''read-only tool'' else Ask (tool @ '' changes state'') (canonical G tool) True
        | _ \<Rightarrow> Ask (tool @ '' needs approval'') None False))"

section \<open>The decision (decide/pipeline.rs)\<close>

definition PLAN_MODE :: string where
  "PLAN_MODE = ''plan mode is read-only; use ExitPlanMode to propose the plan''"

definition facts_of :: "action \<Rightarrow> line_facts option" where
  "facts_of a = (case a of Execute cmd \<Rightarrow> Some (command_facts cmd) | _ \<Rightarrow> None)"

definition rule_restricts :: "glob_lib \<Rightarrow> policy \<Rightarrow> string \<Rightarrow> action \<Rightarrow> line_facts option \<Rightarrow> rule \<Rightarrow> bool" where
  "rule_restricts G p tool a f r = (case (a, f) of
     (Read paths, _) \<Rightarrow> files_restricts G p r tool a paths
   | (Write paths, _) \<Rightarrow> files_restricts G p r tool a paths
   | (Execute _, Some facts) \<Rightarrow> execute_restricts G p r tool facts
   | _ \<Rightarrow> matches_call r tool a)"

definition restricting :: "glob_lib \<Rightarrow> policy \<Rightarrow> rule list \<Rightarrow> string \<Rightarrow> action \<Rightarrow> line_facts option \<Rightarrow> rule option" where
  "restricting G p rs tool a f = List.find (rule_restricts G p tool a f) rs"

text \<open>The last step of \<open>decide\<close>, per kind of action.\<close>

definition action_decide ::
  "glob_lib \<Rightarrow> policy \<Rightarrow> string \<Rightarrow> action \<Rightarrow> line_facts option \<Rightarrow> permission_mode \<Rightarrow> decision" where
  "action_decide G p tool a f mode = (case (a, f) of
     (Read paths, _) \<Rightarrow> files_decide G p tool a paths mode
   | (Write paths, _) \<Rightarrow> files_decide G p tool a paths mode
   | (Execute _, Some facts) \<Rightarrow> execute_decide G p tool facts mode
   | _ \<Rightarrow> other_decide G p tool a)"

definition decide :: "glob_lib \<Rightarrow> policy \<Rightarrow> string \<Rightarrow> action \<Rightarrow> permission_mode \<Rightarrow> decision" where
  "decide G p tool a mode =
     (let f = facts_of a in
      case restricting G p (deny p) tool a f of
        Some r \<Rightarrow> Deny (''denied by rule '' @ rule_display r)
      | None \<Rightarrow>
          let mut = (case f of Some facts \<Rightarrow> \<not> fread_only facts | None \<Rightarrow> mutates a) in
          if mode = Plan \<and> mut then Deny PLAN_MODE
          else if mode = Bypass then Allow ''bypass mode''
          else (case restricting G p (ask p) tool a f of
            Some r \<Rightarrow> Ask (''rule '' @ rule_display r @ '' requires approval'') None (\<not> touches_outside p a)
          | None \<Rightarrow> action_decide G p tool a f mode))"

end
