(* ===== verification/Rule_Text.thy ===== *)
theory Rule_Text
  imports Rules
begin

text \<open>
  Canonical text: \<open>Display\<close> of a parsed value parses back to that value. \<open>text_form\<close> states the
  contract once; domains, path patterns and rules meet it.
\<close>

locale text_form =
  fixes of_text :: "string \<Rightarrow> 'e + 'a" and to_text :: "'a \<Rightarrow> string"
  assumes of_to: "of_text t = Inr x \<Longrightarrow> of_text (to_text x) = Inr x"
begin

text \<open>Two parsed values with the same text are the same value.\<close>

lemma to_text_inj: "of_text t = Inr x \<Longrightarrow> of_text u = Inr y \<Longrightarrow> to_text x = to_text y \<Longrightarrow> x = y"
  using of_to by (metis sum.inject(2))

text \<open>The canonical text of a text, when it parses, is a fixed point.\<close>

lemma canonical_fixed: "of_text t = Inr x \<Longrightarrow> \<exists>y. of_text (to_text x) = Inr y \<and> to_text y = to_text x"
  using of_to by blast

end

section \<open>Domains and path patterns\<close>

interpretation domain_text: text_form domain_parse domain_display
  by unfold_locales (rule domain_display_parse)

lemma path_parse_source:
  assumes "path_parse G t = Inr p"
  shows "source p = trim t" "path_parse G (trim t) = Inr p"
  using assms by (auto simp: path_parse_def Let_def split: if_splits sum.splits list.splits option.splits)

interpretation path_text: text_form "path_parse G" source for G
  by unfold_locales (simp add: path_parse_source)

section \<open>Command patterns\<close>

text \<open>The text kept by \<open>command_parse\<close>, which never returns an empty one.\<close>

lemma command_parse_Some:
  assumes "command_parse s = Inr (Some p)"
  obtains (prefix) body where "strip_star (trim s) = Some body" "ptext p = trim_end body" "pprefix p"
      "ptext p \<noteq> []" "pwords p = simple_words (ptext p)" "pwords p \<noteq> None"
  | (exact) "strip_star (trim s) = None" "ptext p = trim s" "\<not> pprefix p" "ptext p \<noteq> []"
      "pwords p = simple_words (ptext p)"
proof (cases "strip_star (trim s)")
  case None
  with assms show thesis by (intro exact) (auto simp: command_parse_def Let_def split: if_splits)
next
  case (Some body)
  with assms show thesis by (intro prefix [of body]) (auto simp: command_parse_def Let_def split: if_splits)
qed

lemma strip_star_append: "strip_star (t @ '':*'') = Some t"
  unfolding strip_star_def by (simp only: strip_suffix_append option.case)

lemma strip_star_Some:
  assumes "strip_star s = Some body"
  obtains c t where "s = body @ c # t" "printable c"
proof -
  from assms consider "s = body @ '':*''" | "s = body @ ''*''"
    unfolding strip_star_def by (auto simp: strip_suffix_Some_iff split: option.splits)
  then show thesis by cases (auto intro: that simp: printable_def)
qed

lemma command_display_trimmed:
  assumes "command_parse s = Inr (Some p)"
  shows "trim (command_display p) = command_display p" "command_display p \<noteq> []"
proof -
  from assms have "trimmed (command_display p) \<and> command_display p \<noteq> []"
  proof (cases rule: command_parse_Some)
    case (prefix body)
    have colon: "\<not> is_continuation CHR '':''" "\<not> is_continuation CHR ''*''" by (simp_all add: is_continuation_def)
    obtain c t where s: "trim s = body @ c # t" "printable c" using strip_star_Some [OF prefix(1)] .
    have ne: "body \<noteq> []" using prefix(2,4) by (auto simp: trim_end_def)
    have "uchars (trim s) = uchars body @ uchars (c # t)"
      unfolding s(1) by (rule uchars_append) (simp add: printable_simps s(2))
    then have "hd (uchars (trim s)) = hd (uchars body)" using ne by (simp add: hd_append)
    then have h: "\<not> is_whitespace (hd (uchars (ptext p)))"
      using trimmed_trim [of s] ne s(1) prefix(2,4) hd_uchars_trim_end [of body] by (simp add: trimmed_def)
    have "uchars (ptext p @ '':*'') = uchars (ptext p) @ ['':'', ''*'']"
      using uchars_append [of "'':*''" "ptext p"] colon by simp
    with h prefix(3,4) show ?thesis
      by (simp add: command_display_def trimmed_def hd_append is_whitespace_def)
  next
    case exact
    then show ?thesis using trimmed_trim [of s] by (simp add: command_display_def)
  qed
  then show "trim (command_display p) = command_display p" "command_display p \<noteq> []"
    by (simp_all add: trim_trimmed)
qed

lemma command_parse_display:
  assumes "command_parse s = Inr (Some p)"
  shows "command_parse (command_display p) = Inr (Some p)"
  using assms
proof (cases rule: command_parse_Some)
  case (prefix body)
  have "trim_end (ptext p) = ptext p" by (simp add: prefix(2))
  moreover have "trim (ptext p @ '':*'') = ptext p @ '':*''"
    using command_display_trimmed(1) [OF assms] prefix(3) by (simp add: command_display_def)
  ultimately show ?thesis
    using prefix(3-6) by (simp add: command_display_def command_parse_def Let_def strip_star_append)
next
  case exact
  then have "trim (ptext p) = ptext p" "strip_star (ptext p) = None" by simp_all
  then show ?thesis
    using exact(3-5) by (simp add: command_display_def command_parse_def Let_def)
qed

section \<open>Rules\<close>

text \<open>Parsing what \<open>optional_str\<close> printed.\<close>

lemma tool_char_printable: "tool_char c \<Longrightarrow> printable c"
  by (auto simp: tool_char_def ascii_simps printable_def)

lemma tool_char_not_paren: "tool_char c \<Longrightarrow> c \<noteq> CHR ''(''"
  by (auto simp: tool_char_def ascii_simps)

lemma split_rule_bare:
  assumes "tool \<noteq> []" "\<forall>c \<in> set tool. tool_char c"
  shows "trim tool = tool" "split_rule tool = Inr (tool, None)"
proof -
  show "trim tool = tool"
    by (rule all_printable_trim) (use assms in \<open>auto intro: tool_char_printable\<close>)
  have "split_once ''('' tool = None"
    by (rule split_once_char_notin) (use assms tool_char_not_paren in auto)
  with assms show "split_rule tool = Inr (tool, None)" by (simp add: split_rule_def)
qed

lemma split_rule_spec:
  assumes "tool \<noteq> []" "\<forall>c \<in> set tool. tool_char c" "s \<noteq> []" "trim s = s"
  shows "trim (tool @ ''('' @ s @ '')'') = tool @ ''('' @ s @ '')''"
    "split_rule (tool @ ''('' @ s @ '')'') = Inr (tool, Some s)"
proof -
  obtain c cs where tool: "tool = c # cs" using assms(1) by (cases tool) auto
  have paren: "printable CHR ''(''" "printable CHR '')''" by (simp_all add: printable_def)
  obtain d t where d: "cs @ ''('' @ s @ '')'' = d # t" "\<not> is_continuation d"
    using assms(2) tool paren(1) tool_char_printable
    by (cases cs) (auto simp: printable_simps(1))
  have "last (tool @ ''('' @ s @ '')'') = CHR '')''" by simp
  then have l: "printable (last (tool @ ''('' @ s @ '')''))" using paren(2) by metis
  have "trimmed (tool @ ''('' @ s @ '')'')"
    by (rule trimmed_ends [of _ c d t, OF _ _ d(2) l]) (use tool d(1) assms(2) tool_char_printable in simp_all)
  then show "trim (tool @ ''('' @ s @ '')'') = tool @ ''('' @ s @ '')''" by (rule trim_trimmed)
  have "split_once ''('' (tool @ CHR ''('' # s @ '')'') = Some (tool, s @ '')'')"
    by (rule split_once_char) (use assms(2) tool_char_not_paren in auto)
  moreover have "trim_end tool = tool"
    by (rule all_printable_trim) (use assms(2) in \<open>auto intro: tool_char_printable\<close>)
  ultimately show "split_rule (tool @ ''('' @ s @ '')'') = Inr (tool, Some s)"
    using assms by (simp add: split_rule_def)
qed

lemma rule_parse_Inr:
  assumes "rule_parse G t = Inr r"
  obtains tool spec where "split_rule (trim t) = Inr (tool, spec)" "tool \<noteq> []" "\<forall>c \<in> set tool. tool_char c"
    "spec \<noteq> Some []" "\<And>s. spec = Some s \<Longrightarrow> trim s = s"
    "(case strip_prefix ''mcp__'' tool of
        Some m \<Rightarrow> spec = None \<and> mcp_target (trim t) m = Inr r
      | None \<Rightarrow> rule_target G (trim t) tool spec = Inr r)"
proof -
  obtain tool spec where sp: "split_rule (trim t) = Inr (tool, spec)"
    using assms by (auto simp: rule_parse_def Let_def split: sum.splits)
  have "tool \<noteq> []" "\<forall>c \<in> set tool. tool_char c" "spec \<noteq> Some []" "\<And>s. spec = Some s \<Longrightarrow> trim s = s"
    using sp by (auto simp: split_rule_def split: sum.splits option.splits if_splits)
  moreover have "(case strip_prefix ''mcp__'' tool of
        Some m \<Rightarrow> spec = None \<and> mcp_target (trim t) m = Inr r
      | None \<Rightarrow> rule_target G (trim t) tool spec = Inr r)"
    using assms sp by (auto simp: rule_parse_def Let_def split: option.splits if_splits)
  ultimately show thesis using that sp by blast
qed

lemma rule_parse_bare:
  assumes "tool \<noteq> []" "\<forall>c \<in> set tool. tool_char c"
  shows "rule_parse G tool = (case strip_prefix ''mcp__'' tool of
    Some m \<Rightarrow> mcp_target tool m | None \<Rightarrow> rule_target G tool tool None)"
  using split_rule_bare [OF assms] by (simp add: rule_parse_def split: option.split)

lemma rule_parse_spec:
  assumes "tool \<noteq> []" "\<forall>c \<in> set tool. tool_char c" "s \<noteq> []" "trim s = s" "strip_prefix ''mcp__'' tool = None"
  shows "rule_parse G (tool @ ''('' @ s @ '')'') = rule_target G (tool @ ''('' @ s @ '')'') tool (Some s)"
  using split_rule_spec [OF assms(1-4)] assms(5) by (simp add: rule_parse_def)

text \<open>The text a rule was parsed from only matters for error messages.\<close>

lemma rule_target_text: "rule_target G t tool spec = Inr r \<Longrightarrow> rule_target G u tool spec = Inr r"
  unfolding rule_target_def files_target_def
  by (elim if_eqE) (auto split: option.splits sum.splits pattern_error.splits)

lemma mcp_target_text: "mcp_target t m = Inr r \<Longrightarrow> mcp_target u m = Inr r"
  unfolding mcp_target_def by (auto split: option.splits if_splits)

lemma mcp_target_display: "mcp_target t m = Inr r \<Longrightarrow> rule_display r = ''mcp__'' @ m"
  unfolding mcp_target_def
  by (auto split: option.splits if_splits dest!: split_once_Some)

lemma files_target_Inr:
  assumes "files_target G t sc spec = Inr r"
  obtains (bare) "spec = None" "r = FilesRule sc None"
  | (pattern) s p where "spec = Some s" "path_parse G s = Inr p" "r = FilesRule sc (Some p)"
  using assms by (auto simp: files_target_def split: option.splits sum.splits pattern_error.splits)

text \<open>The names with a meaning of their own, and what each gives.\<close>

lemma tool_names:
  "\<forall>tool \<in> set ([''Bash'', ''Read'', ''Edit'', ''WebFetch'', ''Agent'', ''Skill'', ''WebSearch''] @ FILE_TOOLS).
     tool \<noteq> [] \<and> (\<forall>c \<in> set tool. tool_char c) \<and> strip_prefix ''mcp__'' tool = None \<and> CHR ''*'' \<notin> set tool"
  by (simp add: FILE_TOOLS_def tool_char_def ascii_simps)

lemma rule_parse_name:
  assumes "tool \<in> set ([''Bash'', ''Read'', ''Edit'', ''WebFetch'', ''Agent'', ''Skill'', ''WebSearch''] @ FILE_TOOLS)"
  shows "rule_parse G tool = rule_target G tool tool None"
    "s \<noteq> [] \<Longrightarrow> trim s = s \<Longrightarrow>
      rule_parse G (tool @ ''('' @ s @ '')'') = rule_target G (tool @ ''('' @ s @ '')'') tool (Some s)"
  using tool_names assms rule_parse_bare [of tool G] rule_parse_spec [of tool s G] by fastforce+

definition scope_of :: "string \<Rightarrow> file_scope" where
  "scope_of tool = (if tool = ''Read'' then ReadScope else if tool = ''Edit'' then EditScope else ToolScope tool)"

lemma rule_target_files:
  assumes "tool = ''Read'' \<or> tool = ''Edit'' \<or> tool \<in> set FILE_TOOLS"
  shows "rule_target G t tool spec = files_target G t (scope_of tool) spec" "scope_name (scope_of tool) = tool"
proof -
  have "CHR ''*'' \<notin> set tool" "tool \<noteq> ''Bash''" using assms by (auto simp: FILE_TOOLS_def)
  with assms show "rule_target G t tool spec = files_target G t (scope_of tool) spec"
    by (auto simp: rule_target_def scope_of_def contains_char_def)
  show "scope_name (scope_of tool) = tool" by (simp add: scope_of_def)
qed

lemma rule_display_files:
  assumes "files_target G t (scope_of tool) spec = Inr r" "tool = ''Read'' \<or> tool = ''Edit'' \<or> tool \<in> set FILE_TOOLS"
    and "spec \<noteq> Some []" "\<And>s. spec = Some s \<Longrightarrow> trim s = s"
  shows "rule_parse G (rule_display r) = Inr r"
proof -
  note name = rule_parse_name [of tool] rule_target_files [OF assms(2)]
  from assms(1) show ?thesis
  proof (cases rule: files_target_Inr)
    case bare
    with assms(2) name show ?thesis by (auto simp: optional_str_def files_target_def)
  next
    case (pattern s p)
    then have "source p = s" "s \<noteq> []" "trim s = s"
      using assms(3,4) path_parse_source(1) [OF pattern(2)] by auto
    then show ?thesis
      using assms(2) name pattern by (auto simp: optional_str_def files_target_def)
  qed
qed

lemma rule_target_display:
  assumes r: "rule_target G t tool spec = Inr r"
    and tool: "tool \<noteq> []" "\<forall>c \<in> set tool. tool_char c" "strip_prefix ''mcp__'' tool = None"
    and spec: "spec \<noteq> Some []" "\<And>s. spec = Some s \<Longrightarrow> trim s = s"
  shows "rule_parse G (rule_display r) = Inr r"
proof -
  consider (bash) "tool = ''Bash''" | (files) "tool = ''Read'' \<or> tool = ''Edit'' \<or> tool \<in> set FILE_TOOLS"
    | (fetch) "tool = ''WebFetch''" | (search) "tool = ''WebSearch''" | (agent) "tool = ''Agent'' \<or> tool = ''Task''"
    | (skill) "tool = ''Skill''"
    | (other) "tool \<noteq> ''Bash''" "tool \<noteq> ''Read''" "tool \<noteq> ''Edit''" "tool \<notin> set FILE_TOOLS" "tool \<noteq> ''WebFetch''"
      "tool \<noteq> ''Agent''" "tool \<noteq> ''Skill''" "tool \<noteq> ''WebSearch''" "tool \<noteq> ''Task''"
    by satx
  then show ?thesis
  proof cases
    case bash
    with r have sp: "case spec of None \<Rightarrow> r = BashRule None
        | Some s \<Rightarrow> (\<exists>q. command_parse s = Inr q \<and> r = BashRule q)"
      by (auto simp: rule_target_def contains_char_def split: option.splits sum.splits)
    have bare: "rule_parse G ''Bash'' = Inr (BashRule None)"
      using rule_parse_name(1) [of "''Bash''" G] by (simp add: rule_target_def contains_char_def)
    show ?thesis
    proof (cases "\<exists>s p. spec = Some s \<and> command_parse s = Inr (Some p) \<and> r = BashRule (Some p)")
      case True
      then obtain s p where p: "command_parse s = Inr (Some p)" "r = BashRule (Some p)" by blast
      then show ?thesis
        using rule_parse_name(2) [of "''Bash''" "command_display p" G] command_display_trimmed [OF p(1)]
          command_parse_display [OF p(1)]
        by (simp add: optional_str_def rule_target_def contains_char_def)
    next
      case False
      then have "r = BashRule None" using sp by (auto split: option.splits)
      with bare show ?thesis by (simp add: optional_str_def)
    qed
  next
    case files
    with r spec show ?thesis using rule_target_files [OF files] rule_display_files by metis
  next
    case fetch
    with r have sp: "case spec of None \<Rightarrow> r = WebFetchRule None
        | Some s \<Rightarrow> (\<exists>d. domain_parse s = Inr d \<and> r = WebFetchRule (Some d))"
      by (auto simp: rule_target_def contains_char_def FILE_TOOLS_def split: option.splits sum.splits)
    show ?thesis
    proof (cases spec)
      case None
      with sp show ?thesis using rule_parse_name(1) [of "''WebFetch''" G]
        by (simp add: optional_str_def rule_target_def contains_char_def FILE_TOOLS_def)
    next
      case (Some s)
      with sp obtain d where d: "domain_parse s = Inr d" "r = WebFetchRule (Some d)" by auto
      then show ?thesis
        using rule_parse_name(2) [of "''WebFetch''" "domain_display d" G] domain_display_trim [OF d(1)]
          domain_display_parse [OF d(1)]
        by (simp add: optional_str_def rule_target_def contains_char_def FILE_TOOLS_def)
    qed
  next
    case search
    with r have "r = WebSearchRule"
      by (auto simp: rule_target_def contains_char_def FILE_TOOLS_def split: if_splits)
    then show ?thesis using rule_parse_name(1) [of "''WebSearch''" G]
      by (simp add: rule_target_def contains_char_def FILE_TOOLS_def)
  next
    case agent
    with r have "r = AgentRule spec"
      by (auto simp: rule_target_def contains_char_def FILE_TOOLS_def split: if_splits)
    then show ?thesis using rule_parse_name(1) [of "''Agent''" G] rule_parse_name(2) [of "''Agent''" _ G] spec
      by (cases spec) (auto simp: optional_str_def rule_target_def contains_char_def FILE_TOOLS_def)
  next
    case skill
    with r have "r = SkillRule spec"
      by (auto simp: rule_target_def contains_char_def FILE_TOOLS_def split: if_splits)
    then show ?thesis using rule_parse_name(1) [of "''Skill''" G] rule_parse_name(2) [of "''Skill''" _ G] spec
      by (cases spec) (auto simp: optional_str_def rule_target_def contains_char_def FILE_TOOLS_def)
  next
    case other
    have "r = ToolRule tool" "spec = None"
      using r other unfolding rule_target_def by (auto simp only: simp_thms if_False split: if_splits)
    then show ?thesis
      using rule_parse_bare [OF tool(1,2), of G] tool(3) rule_target_text [OF r] by simp
  qed
qed

lemma rule_parse_display:
  assumes "rule_parse G t = Inr r"
  shows "rule_parse G (rule_display r) = Inr r"
  using assms
proof (cases rule: rule_parse_Inr)
  case (1 tool spec)
  show ?thesis
  proof (cases "strip_prefix ''mcp__'' tool")
    case None
    with 1 show ?thesis by (intro rule_target_display [of G "trim t" tool spec]) auto
  next
    case (Some m)
    then have "tool = ''mcp__'' @ m" by (simp only: strip_prefix_Some_iff)
    moreover have m: "mcp_target (trim t) m = Inr r" using 1(6) Some by simp
    ultimately have "rule_display r = tool" using mcp_target_display [OF m] by simp
    then show ?thesis
      using rule_parse_bare [OF 1(2,3), of G] Some mcp_target_text [OF m, of tool] by simp
  qed
qed

interpretation rule_text: text_form "rule_parse G" rule_display for G
  by unfold_locales (rule rule_parse_display)

text \<open>\<open>PartialEq\<close> on parsed rules is equality, although path patterns compare by source only.\<close>

lemma rule_parse_files:
  assumes "rule_parse G t = Inr (FilesRule sc (Some p))"
  shows "\<exists>s. path_parse G s = Inr p"
  using assms
proof (cases rule: rule_parse_Inr)
  case (1 tool spec)
  have "rule_target G (trim t) tool spec = Inr (FilesRule sc (Some p))"
    using 1(6) by (auto simp: mcp_target_def split: option.splits if_splits)
  then have "\<exists>sc'. files_target G (trim t) sc' spec = Inr (FilesRule sc (Some p))"
    unfolding rule_target_def by (elim if_eqE) (auto split: option.splits sum.splits)
  then show ?thesis by (auto elim: files_target_Inr)
qed

lemma rule_eq_refl [simp]: "rule_eq r r"
  by (cases r) auto

lemma rule_eq_parsed:
  assumes "rule_parse G t = Inr r" "rule_parse G u = Inr r'"
  shows "rule_eq r r' \<longleftrightarrow> r = r'"
proof
  assume eq: "rule_eq r r'"
  show "r = r'"
  proof (cases "\<exists>sc p sc' p'. r = FilesRule sc (Some p) \<and> r' = FilesRule sc' (Some p')")
    case True
    then obtain sc p sc' p' where r: "r = FilesRule sc (Some p)" "r' = FilesRule sc' (Some p')" by blast
    moreover obtain s s' where "path_parse G s = Inr p" "path_parse G s' = Inr p'"
      using r assms rule_parse_files by blast
    ultimately show ?thesis using eq path_text.to_text_inj by auto
  next
    case False
    with eq show ?thesis by (cases r; cases r') (auto simp: option.map_sel split: option.splits)
  qed
qed simp

end
