(* ===== verification/Decisions.thy ===== *)
theory Decisions
  imports Policy Rule_Text
begin

text \<open>
  Lemmas on the decision: how the pipeline's answer is reached, what covers a path, what a session
  rule changes. The locale \<open>rooted_policy\<close> collects what holds once the project root is absolute
  and normal, which \<open>new_policy\<close> establishes and no operation changes.
\<close>

section \<open>The pipeline\<close>

lemma restricting_None: "restricting G p rs tool a f = None \<longleftrightarrow> (\<forall>r \<in> set rs. \<not> rule_restricts G p tool a f r)"
  by (auto simp: restricting_def find_None_iff)

lemma restricting_Some:
  "restricting G p rs tool a f = Some r \<Longrightarrow> r \<in> set rs \<and> rule_restricts G p tool a f r"
  by (auto simp: restricting_def find_Some_iff)

definition action_mutates :: "action \<Rightarrow> bool" where
  "action_mutates a = (case facts_of a of Some facts \<Rightarrow> \<not> fread_only facts | None \<Rightarrow> mutates a)"

lemma action_mutates_eq: "action_mutates a = mutates a"
  by (cases a) (simp_all add: action_mutates_def facts_of_def command_facts_def is_read_only_def Let_def)

text \<open>The order of the pipeline, one equation per answer.\<close>

lemma decide_deny:
  "restricting G p (deny p) tool a (facts_of a) = Some r \<Longrightarrow>
   decide G p tool a mode = Deny (''denied by rule '' @ rule_display r)"
  by (simp add: decide_def)

lemma decide_plan:
  "restricting G p (deny p) tool a (facts_of a) = None \<Longrightarrow> mutates a \<Longrightarrow> decide G p tool a Plan = Deny PLAN_MODE"
  using action_mutates_eq [of a] by (simp add: decide_def action_mutates_def)

lemma decide_bypass:
  "restricting G p (deny p) tool a (facts_of a) = None \<Longrightarrow> decide G p tool a Bypass = Allow ''bypass mode''"
  by (simp add: decide_def)

lemma decide_ask:
  "restricting G p (deny p) tool a (facts_of a) = None \<Longrightarrow> \<not> (mode = Plan \<and> mutates a) \<Longrightarrow> mode \<noteq> Bypass \<Longrightarrow>
   restricting G p (ask p) tool a (facts_of a) = Some r \<Longrightarrow>
   decide G p tool a mode = Ask (''rule '' @ rule_display r @ '' requires approval'') None (\<not> touches_outside p a)"
  using action_mutates_eq [of a] by (auto simp: decide_def action_mutates_def)

lemma decide_action:
  "restricting G p (deny p) tool a (facts_of a) = None \<Longrightarrow> \<not> (mode = Plan \<and> mutates a) \<Longrightarrow> mode \<noteq> Bypass \<Longrightarrow>
   restricting G p (ask p) tool a (facts_of a) = None \<Longrightarrow>
   decide G p tool a mode = action_decide G p tool a (facts_of a) mode"
  using action_mutates_eq [of a] by (auto simp: decide_def action_mutates_def)

lemmas decide_eqs = decide_deny decide_plan decide_bypass decide_ask decide_action

lemma decide_cases:
  obtains (deny) r where "restricting G p (deny p) tool a (facts_of a) = Some r"
      "decide G p tool a mode = Deny (''denied by rule '' @ rule_display r)"
  | (plan) "restricting G p (deny p) tool a (facts_of a) = None" "mode = Plan" "mutates a"
      "decide G p tool a mode = Deny PLAN_MODE"
  | (bypass) "restricting G p (deny p) tool a (facts_of a) = None" "mode = Bypass"
      "decide G p tool a mode = Allow ''bypass mode''"
  | (asks) r where "restricting G p (deny p) tool a (facts_of a) = None" "\<not> (mode = Plan \<and> mutates a)" "mode \<noteq> Bypass"
      "restricting G p (ask p) tool a (facts_of a) = Some r"
      "decide G p tool a mode = Ask (''rule '' @ rule_display r @ '' requires approval'') None (\<not> touches_outside p a)"
  | (action) "restricting G p (deny p) tool a (facts_of a) = None" "\<not> (mode = Plan \<and> mutates a)" "mode \<noteq> Bypass"
      "restricting G p (ask p) tool a (facts_of a) = None"
      "decide G p tool a mode = action_decide G p tool a (facts_of a) mode"
proof (cases "restricting G p (deny p) tool a (facts_of a)")
  case None
  show thesis
  proof (cases "mode = Plan \<and> mutates a \<or> mode = Bypass")
    case True
    then show thesis using None plan bypass decide_plan [OF None] decide_bypass [OF None] by (elim disjE conjE) simp_all
  next
    case False
    then have m: "\<not> (mode = Plan \<and> mutates a)" "mode \<noteq> Bypass" by simp_all
    show thesis
      by (cases "restricting G p (ask p) tool a (facts_of a)")
         (use action asks decide_ask [OF None m] decide_action [OF None m] None m in blast)+
  qed
next
  case (Some r)
  then show thesis using deny decide_deny by blast
qed

lemma decide_Allow:
  assumes "decide G p tool a mode = Allow why" "mode \<noteq> Bypass"
  shows "action_decide G p tool a (facts_of a) mode = Allow why" "\<not> (mode = Plan \<and> mutates a)"
    "restricting G p (deny p) tool a (facts_of a) = None" "restricting G p (ask p) tool a (facts_of a) = None"
  by (rule decide_cases [of G p tool a mode]; use assms in simp)+

lemma action_decide_simps:
  "action_decide G p tool (Read paths) f mode = files_decide G p tool (Read paths) paths mode"
  "action_decide G p tool (Write paths) f mode = files_decide G p tool (Write paths) paths mode"
  "action_decide G p tool (Execute cmd) (facts_of (Execute cmd)) mode =
     execute_decide G p tool (command_facts cmd) mode"
  by (simp_all add: action_decide_def facts_of_def)

lemma files_decide_not_Deny: "files_decide G p tool a paths mode \<noteq> Deny why"
  unfolding files_decide_def Let_def by (simp split: option.split)

lemma execute_decide_not_Deny: "execute_decide G p tool facts mode \<noteq> Deny why"
  unfolding execute_decide_def by (simp split: option.split)

lemma other_decide_not_Deny: "other_decide G p tool a \<noteq> Deny why"
  unfolding other_decide_def by (simp split: option.split action.split)

lemma action_decide_not_Deny: "action_decide G p tool a f mode \<noteq> Deny why"
  unfolding action_decide_def
  by (simp add: files_decide_not_Deny execute_decide_not_Deny other_decide_not_Deny split: option.split action.split)

section \<open>Files\<close>

lemma get_or_insert_Some: "\<exists>y. get_or_insert x ov = Some y"
  by (simp add: get_or_insert_def split: option.split)

text \<open>An allowed write or read has a covering rule for each of its paths.\<close>

lemma files_allowing_covers:
  assumes "files_allowing G p tool a ts first = Some r" "q \<in> set ts"
  shows "\<not> (is_write a \<and> is_inside_allowed p q \<and> protected_path p q)"
    "\<exists>r' \<in> set (allow_rules p). covers_path G p tool a q r'"
  using assms
  by (induction ts arbitrary: first) (auto split: if_splits option.splits simp: find_Some_iff)

lemma files_allowing_Some:
  assumes "ts \<noteq> []" "\<And>q. q \<in> set ts \<Longrightarrow> \<not> (is_write a \<and> is_inside_allowed p q \<and> protected_path p q)"
    "\<And>q. q \<in> set ts \<Longrightarrow> \<exists>r' \<in> set (allow_rules p). covers_path G p tool a q r'"
  shows "\<exists>r. files_allowing G p tool a ts first = Some r"
proof -
  have step: "\<exists>r. files_allowing G p tool a ts first = Some r" if "ts = [] \<longrightarrow> first \<noteq> None" for first
    using that assms(2,3)
  proof (induction ts arbitrary: first)
    case (Cons q ts)
    then obtain r where "List.find (covers_path G p tool a q) (allow_rules p) = Some r"
      by (metis find_None_iff list.set_intros(1) not_None_eq)
    with Cons get_or_insert_Some [of r first] show ?case by auto
  qed auto
  show ?thesis by (rule step) (use assms(1) in simp)
qed

lemma covers_path_outside:
  assumes "covers_path G p tool a q r" "\<not> is_inside_allowed p q"
  shows "\<exists>pat. path_scope r tool a = Some (Some pat) \<and> path_matches G pat q (ctx p)"
  using assms by (auto simp: covers_path_def split: option.splits)

lemma files_decide_Allow:
  assumes "files_decide G p tool a paths mode = Allow why" "is_read a \<or> is_write a"
  shows "(\<exists>r. files_allowing G p tool a (targets p a paths) None = Some r) \<or>
    (\<forall>q \<in> set (targets p a paths). is_inside_allowed p q \<and> (is_write a \<longrightarrow> \<not> protected_path p q \<and> mode = AcceptEdits))"
  using assms
  by (auto simp: files_decide_def Let_def is_read_def is_write_def find_None_iff
      split: option.splits if_splits action.splits)

lemma protected_starts_with: "protected_path p q \<Longrightarrow> \<exists>root \<in> set (roots p). starts_with root q"
  by (auto simp: protected_path_def is_protected_def map_filter_def strip_prefix_def split: if_splits)

section \<open>Policies with an absolute, normal root\<close>

locale rooted_policy =
  fixes p :: policy
  assumes root_normal: "absolute_normal (project_root (ctx p))"
begin

lemma inside_iff: "absolute_normal q \<Longrightarrow> is_inside_allowed p q \<longleftrightarrow> (\<exists>root \<in> set (roots p). starts_with root q)"
  by (simp add: is_inside_allowed_def resolve_absolute_normal)

lemma protected_inside: "absolute_normal q \<Longrightarrow> protected_path p q \<Longrightarrow> is_inside_allowed p q"
  using protected_starts_with by (simp add: inside_iff)

lemma targets_normal:
  assumes "\<forall>q \<in> set paths. wf_path q" "q \<in> set (targets p a paths)"
  shows "absolute_normal q"
  using assms root_normal absolute_normal_resolve by (auto simp: targets_def split: if_splits)

lemma relative_inside:
  assumes "\<not> escapes_start q"
  shows "is_inside_allowed p (resolve (project_root (ctx p)) q)"
proof -
  have "RootDir \<notin> set q"
    using assms unfolding escapes_start_def
    by (induction q rule: escapes_from.induct [of _ 0]) (auto split: nat.splits)
  then have "wf_path q" by (cases q) (auto simp: wf_path_def)
  then have "absolute_normal (resolve (project_root (ctx p)) q)"
    using root_normal by (intro absolute_normal_resolve)
  moreover have "starts_with (project_root (ctx p)) (resolve (project_root (ctx p)) q)"
    using root_normal assms by (rule resolve_below)
  ultimately show ?thesis by (auto simp: inside_iff roots_def)
qed

text \<open>No rule and no mode but bypass lets a write to a protected path through.\<close>

lemma protected_write_asks:
  assumes "\<forall>q \<in> set paths. wf_path q" "q \<in> set (targets p (Write paths) paths)" "protected_path p q"
  shows "files_decide G p tool (Write paths) paths mode \<noteq> Allow why"
proof
  assume al: "files_decide G p tool (Write paths) paths mode = Allow why"
  have "is_inside_allowed p q" using assms targets_normal protected_inside by blast
  then show False
    using files_decide_Allow [OF al] files_allowing_covers(1) assms(2,3)
    by (fastforce simp: is_write_def)
qed

text \<open>Writes the sandbox allows are inside the allowed directories and off protected paths.\<close>

lemma sandbox_contained_inside:
  assumes "sandbox_contained p w"
  shows "\<exists>q. best_guess p w = Some q \<and> is_inside_allowed p q \<and> \<not> protected_path p q"
proof (cases "locate w (home (ctx p))")
  case (Relative q e)
  then have "e = escapes_start q"
    by (auto simp: locate_def Let_def split: if_splits option.splits)
  then show ?thesis using assms Relative relative_inside by (auto simp: sandbox_contained_def best_guess_def)
qed (use assms in \<open>auto simp: sandbox_contained_def best_guess_def\<close>)

end

lemma rooted_new_policy:
  assumes "is_absolute (project_root c)" "wf_path (project_root c)"
  shows "rooted_policy (fst (new_policy G cfg c))"
  using assms absolute_normal_normalize
  by unfold_locales (simp add: new_policy_def normal_context_def split: prod.split)

lemma rooted_add_session_rule:
  "add_session_rule G t p = Inr p' \<Longrightarrow> rooted_policy p \<Longrightarrow> rooted_policy p'"
  by (auto simp: add_session_rule_def rooted_policy_def split: sum.splits)

interpretation built: rooted_policy "fst (new_policy G cfg (c\<lparr>project_root := RootDir # map Normal ns\<rparr>))" for G cfg c ns
  by (rule rooted_new_policy) (auto simp: is_absolute_def wf_path_def)

section \<open>Rule lists\<close>

lemma parse_rules_spec:
  assumes "parse_rules G ts rs errs = (rs', errs')" "distinct rs" "\<forall>r \<in> set rs. \<exists>t. rule_parse G t = Inr r"
  shows "distinct rs'" "set rs' = set rs \<union> {r. \<exists>t \<in> set ts. rule_parse G t = Inr r}"
    "errs' = errs @ List.map_filter (\<lambda>t. case rule_parse G t of Inl e \<Rightarrow> Some e | Inr _ \<Rightarrow> None) ts"
proof -
  have "distinct rs' \<and> set rs' = set rs \<union> {r. \<exists>t \<in> set ts. rule_parse G t = Inr r} \<and>
    errs' = errs @ List.map_filter (\<lambda>t. case rule_parse G t of Inl e \<Rightarrow> Some e | Inr _ \<Rightarrow> None) ts"
    using assms
  proof (induction G ts rs errs rule: parse_rules.induct)
    case (2 G t ts rs errs)
    show ?case
    proof (cases "rule_parse G t")
      case (Inl e)
      then show ?thesis using "2.IH"(1) [OF Inl] "2.prems" by (auto simp: map_filter_simps)
    next
      case (Inr r)
      then have new: "push_new rule_eq r rs = (if r \<in> set rs then rs else rs @ [r])"
        using "2.prems"(3) rule_eq_parsed by (fastforce simp: push_new_def)
      have "\<exists>t. rule_parse G t = Inr r" using Inr by blast
      then show ?thesis using new "2.IH"(2) [OF Inr] "2.prems" Inr
        by (cases "r \<in> set rs") (auto simp: map_filter_simps)
    qed
  qed (simp add: map_filter_simps)
  then show "distinct rs'" "set rs' = set rs \<union> {r. \<exists>t \<in> set ts. rule_parse G t = Inr r}"
    "errs' = errs @ List.map_filter (\<lambda>t. case rule_parse G t of Inl e \<Rightarrow> Some e | Inr _ \<Rightarrow> None) ts" by auto
qed

section \<open>Suggested rules\<close>

lemma canonical_parses: "canonical G t = Some u \<Longrightarrow> \<exists>r. rule_parse G u = Inr r \<and> rule_display r = u"
  using rule_parse_display by (auto simp: canonical_def split: sum.splits)

lemma exact_rule_parses: "exact_rule G p tool q = Some u \<Longrightarrow> \<exists>r. rule_parse G u = Inr r \<and> rule_display r = u"
  unfolding exact_rule_def Let_def by (rule canonical_parses)

lemma suggestion_parses: "suggestion G p f = Some u \<Longrightarrow> \<exists>r. rule_parse G u = Inr r \<and> rule_display r = u"
  unfolding suggestion_def Let_def by (auto split: if_splits option.splits intro: canonical_parses)

lemma parse_Edit: "rule_parse G ''Edit'' = Inr (FilesRule EditScope None)"
  using rule_parse_name(1) [of "''Edit''" G] by (simp add: rule_target_def contains_char_def files_target_def)

lemma parse_WebSearch: "rule_parse G ''WebSearch'' = Inr WebSearchRule"
  using rule_parse_name(1) [of "''WebSearch''" G] by (simp add: rule_target_def contains_char_def FILE_TOOLS_def)

lemma action_suggestion_parses:
  assumes "action_decide G p tool a f mode = Ask why (Some u) keep"
  shows "\<exists>r. rule_parse G u = Inr r \<and> rule_display r = u"
proof -
  have files: "\<exists>r. rule_parse G u = Inr r \<and> rule_display r = u"
    if "files_decide G p tool a paths mode = Ask why (Some u) keep" for paths
    using that parse_Edit exact_rule_parses unfolding files_decide_def Let_def
    by (auto simp: optional_str_def split: option.splits if_splits)
  have exec: "\<exists>r. rule_parse G u = Inr r \<and> rule_display r = u"
    if "execute_decide G p tool fs mode = Ask why (Some u) keep" for fs
    using that suggestion_parses unfolding execute_decide_def by (auto split: option.splits if_splits)
  have other: "\<exists>r. rule_parse G u = Inr r \<and> rule_display r = u"
    if "other_decide G p tool a = Ask why (Some u) keep"
    using that parse_WebSearch canonical_parses unfolding other_decide_def
    by (auto split: option.splits if_splits action.splits)
  show ?thesis
    using assms files exec other unfolding action_decide_def by (auto split: option.splits action.splits)
qed

end
