(* ===== verification/Commands.thy ===== *)
theory Commands
  imports Decisions
begin

text \<open>
  Shell commands and rules together: which commands a restricting rule reaches, what a suggested
  prefix rule covers, and when a command line is allowed.
\<close>

section \<open>Restricting rules reach every command a line may run\<close>

lemma candidates_complete:
  assumes "s \<in> set (all_segments (parse cmd))" "may_run (command_segment s) c"
  shows "truncated (command_facts cmd) \<or> c \<in> set (candidates (command_facts cmd))"
proof (cases "snd (executed_commands s)")
  case True
  then show ?thesis using assms(1) by (auto simp: command_facts_def Let_def)
next
  case False
  then have "c \<in> set (fst (executed_commands s))" using assms(2) by (rule executed_commands_closed)
  then show ?thesis using assms(1) by (auto simp: command_facts_def Let_def)
qed

lemma execute_restricts_pattern:
  assumes "truncated f \<or> (\<exists>c \<in> set (candidates f). restricts G pat (words c))"
  shows "execute_restricts G p (BashRule (Some pat)) tool f"
  using assms by (auto simp: execute_restricts_def)

lemma execute_restricts_truncated:
  assumes "truncated f" "command_pattern_of r \<noteq> None \<or> operand_pattern r False \<noteq> None \<or> operand_pattern r True \<noteq> None"
  shows "execute_restricts G p r tool f"
  using assms by (auto simp: execute_restricts_def split: option.splits)

text \<open>The program name of a rule matches in any letter case.\<close>

lemma restricts_wrapped:
  assumes "pwords pat = Some (name # rs)" "pprefix pat" "eq_ignore_ascii_case (wtext w) name"
    "starts_with rs (map wtext args)"
  shows "restricts G pat (w # args)"
  using assms by (simp add: restricts_def may_name_def)

section \<open>Suggested prefixes\<close>

lemma simple_words_quoted:
  assumes "ts \<noteq> []" "\<forall>t \<in> set ts. NUL \<notin> set t" "hd ts \<notin> set LEADING_KEYWORDS"
    "length (quoted_line ts) \<le> MAX_LEN" "\<not> pdynamic (parse (quoted_line ts))"
  shows "simple_words (quoted_line ts) = Some ts"
proof -
  obtain ws where lex: "lex (quoted_line ts) = \<lparr>lsegments = [\<lparr>words = ws, redirects = []\<rparr>], lnested = [],
      lok = (length (quoted_line ts) \<le> MAX_LEN), ldynamic = False\<rparr>" "map wtext ws = ts"
    using lex_quoted [OF assms(1,2)] by blast
  obtain w ws' where ws: "ws = w # ws'" "wtext w = hd ts" using lex(2) assms(1) by (cases ws) auto
  then have "skip_keywords ws = ws" using assms(3) by (simp add: skip_keywords_stop)
  then have "argv \<lparr>words = ws, redirects = []\<rparr> = ts" using lex(2) by (simp add: argv_def command_def)
  then show ?thesis using lex(1) assms(1,4,5) by (simp add: simple_words_def Let_def)
qed

lemma command_parse_prefix:
  assumes "ts \<noteq> []" "simple_words (quoted_line ts) = Some ts"
  shows "command_parse (quoted_line ts @ '':*'') =
    Inr (Some \<lparr>ptext = quoted_line ts, pwords = Some ts, pprefix = True\<rparr>)"
proof -
  note ends = quoted_line_ends [OF assms(1)]
  have "trim (quoted_line ts @ '':*'') = quoted_line ts @ '':*''"
    by (rule trim_trimmed, rule trimmed_printable) (use ends in \<open>simp_all add: printable_def\<close>)
  moreover have "trim_end (quoted_line ts) = quoted_line ts"
    by (rule printable_last) (use ends in simp_all)
  ultimately show ?thesis
    using assms(2) ends(1) by (simp add: command_parse_def Let_def strip_star_append)
qed

lemma prefix_rule_covers:
  assumes "prefix_for (command s) = Some pre" "\<forall>w \<in> set (command s). NUL \<notin> set (wtext w)"
    "hd (argv s) \<notin> set LEADING_KEYWORDS" "length pre \<le> MAX_LEN" "\<not> pdynamic (parse pre)"
  shows "\<exists>pat. command_parse (pre @ '':*'') = Inr (Some pat) \<and> allows pat (argv s)"
proof -
  obtain ts where ts: "pre = quoted_line ts" "ts \<noteq> []" "prefix ts (argv s)"
    using prefix_for_tokens [OF assms(1)] by (auto simp: argv_def)
  have "\<forall>t \<in> set ts. NUL \<notin> set t" using set_mono_prefix [OF ts(3)] assms(2) by (auto simp: argv_def)
  moreover have "hd ts = hd (argv s)" using ts(2,3) by (cases ts) (auto simp: prefix_def)
  ultimately have "simple_words pre = Some ts"
    using simple_words_quoted ts(1,2) assms(3-5) by metis
  then have "command_parse (pre @ '':*'') = Inr (Some \<lparr>ptext = pre, pwords = Some ts, pprefix = True\<rparr>)"
    using command_parse_prefix ts(1,2) by simp
  then show ?thesis using ts(3) by (auto simp: allows_def starts_with_prefix)
qed

section \<open>Allowed command lines\<close>

lemma covering_covered:
  assumes "covering G p ss first = Some r" "s \<in> set ss"
  shows "coverage_of G p s \<noteq> Uncovered"
  using assms by (induction ss arbitrary: first) (auto split: coverage.splits)

lemma coverage_writes:
  assumes "coverage_of G p s \<noteq> Uncovered"
  shows "redirects_contained p s"
proof (rule ccontr)
  assume "\<not> redirects_contained p s"
  with assms have "segment_is_read_only s"
    by (auto simp: coverage_of_def Let_def split: if_splits)
  then have "write_targets s = []" by (rule segment_read_only_writes)
  with \<open>\<not> redirects_contained p s\<close> show False by (simp add: redirects_contained_def)
qed

text \<open>Why a command line that is not allowed as a whole by a rule is allowed.\<close>

lemma execute_decide_Allow:
  assumes "execute_decide G p tool f mode = Allow why"
  obtains (whole) r where "r \<in> set (allow_rules p)" "allows_whole tool f r"
  | (covered) "pok (fparsed f)" "\<not> pdynamic (fparsed f)" "\<forall>s \<in> set (segments (fparsed f)). coverage_of G p s \<noteq> Uncovered"
  | (reads) "fread_only f" "auto_allow_read_only_bash p" "\<forall>s \<in> set (segments (fparsed f)). reads_allowed G p s"
  | (edits) "mode = AcceptEdits" "is_common_fs_command (fcommand f) (project_root (ctx p))"
  | (sandbox) "sandbox_allows p (fparsed f) (candidates f) (truncated f)"
proof (cases "execute_allowing G p tool f")
  case None
  then show thesis using assms reads edits sandbox
    by (auto simp: execute_decide_def split: if_splits)
next
  case (Some r)
  show thesis
  proof (cases "List.find (allows_whole tool f) (allow_rules p)")
    case None
    then have "pok (fparsed f)" "\<not> pdynamic (fparsed f)" "covering G p (segments (fparsed f)) None = Some r"
      using Some by (auto simp: execute_allowing_def Let_def split: if_splits)
    then show thesis using covered covering_covered by blast
  next
    case (Some r')
    then show thesis using whole by (auto simp: find_Some_iff in_set_conv_nth)
  qed
qed

lemma command_facts_simps [simp]:
  "fparsed (command_facts cmd) = parse cmd" "fread_only (command_facts cmd) = is_read_only cmd"
  by (simp_all add: command_facts_def is_read_only_def Let_def)

lemma execute_decide_static:
  assumes "execute_decide G p tool (command_facts cmd) mode = Allow why" "mode \<noteq> AcceptEdits"
    "\<not> (\<exists>r \<in> set (allow_rules p). allows_whole tool (command_facts cmd) r)"
  shows "pok (parse cmd) \<and> \<not> pdynamic (parse cmd)"
  using assms(1)
  by (cases rule: execute_decide_Allow)
     (use assms(2,3) in \<open>auto simp: is_read_only_def command_is_read_only_def sandbox_allows_def\<close>)

lemma static_all_segments: "\<not> pdynamic (parse cmd) \<Longrightarrow> all_segments (parse cmd) = segments (parse cmd)"
  using lex_static_nested [of cmd] by (auto simp: all_segments_def parse_def Let_def)

end
