(* ===== verification/Sessions.thy ===== *)
theory Sessions
  imports Decisions
begin

text \<open>
  Session rules: what \<open>add_session_rule\<close> changes. It only appends allow rules, so no denial
  is lifted and nothing that was allowed starts to ask.
\<close>

section \<open>The extended policy\<close>

definition extends :: "policy \<Rightarrow> policy \<Rightarrow> bool" where
  "extends p p' \<longleftrightarrow> (\<exists>extra. p' = p\<lparr>session := session p @ extra\<rparr>)"

lemma push_new_append: "\<exists>extra. push_new eq x xs = xs @ extra"
  by (simp add: push_new_def)

lemma add_session_rule_Inr:
  assumes "add_session_rule G t p = Inr p'"
  obtains r where "rule_parse G t = Inr r" "p' = p\<lparr>session := push_new rule_eq r (session p)\<rparr>"
  using assms by (auto simp: add_session_rule_def split: sum.splits)

lemma roots_session [simp]: "roots (p\<lparr>session := s\<rparr>) = roots p"
  by (simp add: roots_def)

lemma location_session [simp]:
  "is_inside_allowed (p\<lparr>session := s\<rparr>) = is_inside_allowed p"
  "protected_path (p\<lparr>session := s\<rparr>) = protected_path p"
  "targets (p\<lparr>session := s\<rparr>) = targets p"
  "best_guess (p\<lparr>session := s\<rparr>) = best_guess p"
  by (simp_all add: fun_eq_iff is_inside_allowed_def protected_path_def targets_def best_guess_def cong: location.case_cong)

lemma files_restricts_session [simp]: "files_restricts G (p\<lparr>session := s\<rparr>) = files_restricts G p"
  unfolding files_restricts_def by (simp add: fun_eq_iff cong: option.case_cong location.case_cong action.case_cong)

lemma covers_path_session [simp]: "covers_path G (p\<lparr>session := s\<rparr>) = covers_path G p"
  unfolding covers_path_def by (simp add: fun_eq_iff cong: option.case_cong location.case_cong action.case_cong)

lemma execute_restricts_session [simp]: "execute_restricts G (p\<lparr>session := s\<rparr>) = execute_restricts G p"
  unfolding execute_restricts_def by (simp add: fun_eq_iff cong: option.case_cong location.case_cong action.case_cong)

lemma redirects_contained_session [simp]: "redirects_contained (p\<lparr>session := s\<rparr>) = redirects_contained p"
  unfolding redirects_contained_def by (simp add: fun_eq_iff cong: option.case_cong location.case_cong action.case_cong)

lemma sandbox_contained_session [simp]: "sandbox_contained (p\<lparr>session := s\<rparr>) = sandbox_contained p"
  unfolding sandbox_contained_def by (simp add: fun_eq_iff cong: option.case_cong location.case_cong action.case_cong)

lemma sandbox_allows_session [simp]: "sandbox_allows (p\<lparr>session := s\<rparr>) = sandbox_allows p"
  unfolding sandbox_allows_def writes_contained_def by (simp add: fun_eq_iff cong: option.case_cong location.case_cong action.case_cong)

lemma touches_outside_session [simp]: "touches_outside (p\<lparr>session := s\<rparr>) = touches_outside p"
  unfolding touches_outside_def by (simp add: fun_eq_iff cong: option.case_cong location.case_cong action.case_cong)

lemma rule_restricts_session [simp]: "rule_restricts G (p\<lparr>session := s\<rparr>) = rule_restricts G p"
  unfolding rule_restricts_def by (simp add: fun_eq_iff cong: option.case_cong location.case_cong action.case_cong)

lemma restricting_session [simp]: "restricting G (p\<lparr>session := s\<rparr>) = restricting G p"
  unfolding restricting_def by (simp add: fun_eq_iff cong: option.case_cong location.case_cong action.case_cong)

lemma allow_rules_session: "allow_rules (p\<lparr>session := session p @ extra\<rparr>) = allow_rules p @ extra"
  by (simp add: allow_rules_def)

lemma find_append: "List.find P (xs @ ys) = (case List.find P xs of Some x \<Rightarrow> Some x | None \<Rightarrow> List.find P ys)"
  by (induction xs) auto

section \<open>Coverage only grows\<close>

locale session_growth =
  fixes G :: glob_lib and p p' :: policy
  assumes grows: "extends p p'"
begin

lemma allow_rules_grow:
  obtains extra where "allow_rules p' = allow_rules p @ extra" "p' = p\<lparr>session := session p @ extra\<rparr>"
  using grows allow_rules_session by (auto simp: extends_def)

lemma allow_rules_subset: "set (allow_rules p) \<subseteq> set (allow_rules p')"
  by (rule allow_rules_grow) simp

lemma fields_kept: "ctx p' = ctx p" "ask p' = ask p" "deny p' = deny p"
  "auto_allow_read_only_bash p' = auto_allow_read_only_bash p"
  using grows by (auto simp: extends_def)

lemma defs_kept:
  "is_inside_allowed p' = is_inside_allowed p" "protected_path p' = protected_path p" "targets p' = targets p"
  "covers_path G p' = covers_path G p" "redirects_contained p' = redirects_contained p"
  "sandbox_allows p' = sandbox_allows p" "touches_outside p' = touches_outside p"
  "restricting G p' = restricting G p"
  using grows by (auto simp: extends_def)

lemma find_grows:
  "List.find P (allow_rules p) = Some r \<Longrightarrow> List.find P (allow_rules p') = Some r"
  by (rule allow_rules_grow) (simp add: find_append)

lemma reads_allowed_grows: "reads_allowed G p s \<Longrightarrow> reads_allowed G p' s"
proof -
  have "read_rule_covers G p q \<Longrightarrow> read_rule_covers G p' q" for q
    using allow_rules_subset unfolding read_rule_covers_def fields_kept by blast
  then show "reads_allowed G p s \<Longrightarrow> reads_allowed G p' s"
    by (fastforce simp: reads_allowed_def fields_kept defs_kept split: location.splits)
qed

lemma coverage_grows:
  "coverage_of G p s = CoveredBy r \<Longrightarrow> coverage_of G p' s = CoveredBy r"
  "coverage_of G p s = Harmless \<Longrightarrow> coverage_of G p' s \<noteq> Uncovered"
  using find_grows [of "covers_argv (argv s)"] reads_allowed_grows [of s]
  by (auto simp: coverage_of_def Let_def fields_kept defs_kept split: if_splits option.splits)

lemma covering_grows:
  "covering G p ss first = Some r \<Longrightarrow> (first \<noteq> None \<longrightarrow> first' \<noteq> None) \<Longrightarrow> \<exists>r'. covering G p' ss first' = Some r'"
proof (induction ss arbitrary: first first')
  case (Cons s ss)
  show ?case
  proof (cases "coverage_of G p s")
    case (CoveredBy c)
    then show ?thesis
      using Cons.IH [of "get_or_insert c first" "get_or_insert c first'"] Cons.prems coverage_grows(1) get_or_insert_Some
      by force
  next
    case Harmless
    then have h: "covering G p ss first = Some r" using Cons.prems(1) by simp
    show ?thesis
    proof (cases "coverage_of G p' s")
      case (CoveredBy c)
      then show ?thesis using Cons.IH [OF h, of "get_or_insert c first'"] get_or_insert_Some [of c first'] by auto
    qed (use Cons.IH [OF h] Cons.prems(2) coverage_grows(2) [OF Harmless] in auto)
  qed (use Cons.prems in simp)
qed auto

lemma execute_allowing_grows:
  "execute_allowing G p tool f = Some r \<Longrightarrow> \<exists>r'. execute_allowing G p' tool f = Some r'"
  using find_grows covering_grows
  by (fastforce simp: execute_allowing_def Let_def split: option.splits if_splits)

lemma files_allowing_grows:
  assumes "files_allowing G p tool a ts None = Some r"
  shows "\<exists>r'. files_allowing G p' tool a ts None = Some r'"
proof (rule files_allowing_Some)
  show "ts \<noteq> []" using assms by auto
  fix q assume q: "q \<in> set ts"
  show "\<not> (is_write a \<and> is_inside_allowed p' q \<and> protected_path p' q)"
    using files_allowing_covers(1) [OF assms q] by (simp add: defs_kept)
  show "\<exists>r' \<in> set (allow_rules p'). covers_path G p' tool a q r'"
    using files_allowing_covers(2) [OF assms q] allow_rules_subset unfolding defs_kept by blast
qed

lemma files_decide_grows:
  assumes "files_decide G p tool a paths mode = Allow why"
  shows "\<exists>why'. files_decide G p' tool a paths mode = Allow why'"
proof (cases "files_allowing G p tool a (targets p a paths) None")
  case None
  show ?thesis
  proof (cases "files_allowing G p' tool a (targets p' a paths) None")
    case None': None
    have "files_decide G p' tool a paths mode = Allow why"
      using assms None None' unfolding files_decide_def Let_def
      by (simp add: defs_kept exact_rule_def fields_kept shown_def split: option.splits if_splits)
    then show ?thesis by blast
  qed (simp add: files_decide_def)
next
  case (Some r)
  then obtain r' where "files_allowing G p' tool a (targets p' a paths) None = Some r'"
    using files_allowing_grows unfolding defs_kept by blast
  then show ?thesis by (simp add: files_decide_def)
qed

lemma execute_decide_grows:
  assumes "execute_decide G p tool f mode = Allow why"
  shows "\<exists>why'. execute_decide G p' tool f mode = Allow why'"
proof (cases "execute_allowing G p tool f")
  case None
  show ?thesis
    using assms None reads_allowed_grows
    by (auto simp: execute_decide_def fields_kept defs_kept split: option.splits if_splits)
next
  case (Some r)
  then show ?thesis using execute_allowing_grows [OF Some] by (auto simp: execute_decide_def)
qed

lemma other_decide_grows:
  assumes "other_decide G p tool a = Allow why"
  shows "\<exists>why'. other_decide G p' tool a = Allow why'"
proof (cases "List.find (\<lambda>r. matches_call r tool a) (allow_rules p)")
  case None
  then show ?thesis
    using assms by (cases "List.find (\<lambda>r. matches_call r tool a) (allow_rules p')") (auto simp: other_decide_def)
next
  case (Some r)
  then show ?thesis using find_grows [OF Some] by (simp add: other_decide_def)
qed

lemma action_decide_grows:
  "action_decide G p tool a f mode = Allow why \<Longrightarrow> \<exists>why'. action_decide G p' tool a f mode = Allow why'"
  using files_decide_grows execute_decide_grows other_decide_grows
  unfolding action_decide_def by (simp split: action.splits option.splits)

lemma decide_grows:
  assumes "decide G p tool a mode = Allow why"
  shows "\<exists>why'. decide G p' tool a mode = Allow why'"
proof (cases "mode = Bypass")
  case True
  then show ?thesis
    using assms by (cases rule: decide_cases [of G p tool a mode])
      (auto simp: decide_bypass defs_kept fields_kept action_decide_not_Deny)
next
  case False
  note al = decide_Allow [OF assms False]
  obtain why' where "action_decide G p' tool a (facts_of a) mode = Allow why'"
    using action_decide_grows [OF al(1)] by blast
  then show ?thesis
    using decide_action [of G p' tool a mode] al False by (simp add: defs_kept fields_kept)
qed

lemma decide_deny_kept: "decide G p' tool a mode = Deny why \<longleftrightarrow> decide G p tool a mode = Deny why"
  by (rule decide_cases [of G p tool a mode]; rule decide_cases [of G p' tool a mode])
     (simp_all add: defs_kept fields_kept action_decide_not_Deny)

end

interpretation granted: session_growth G p "p\<lparr>session := push_new rule_eq r (session p)\<rparr>" for G p r
  using push_new_append [of rule_eq r "session p"] by unfold_locales (auto simp: extends_def)

section \<open>Granting a rule\<close>

lemma rule_eq_display: "rule_eq r r' \<Longrightarrow> rule_display r = rule_display r'"
  by (induction r r' rule: rule_eq.induct) auto

lemma push_new_mem: "\<exists>y \<in> set (push_new rule_eq r rs). rule_eq y r"
  by (auto simp: push_new_def)

lemma push_new_idem: "push_new rule_eq r (push_new rule_eq r rs) = push_new rule_eq r rs"
  using push_new_mem [of r rs] unfolding push_new_def [of rule_eq r "push_new rule_eq r rs"] by simp

end
