(* ===== verification/Examples.thy ===== *)
theory Examples
  imports Commands Sessions
begin

text \<open>
  Concrete inputs for the witnesses: a glob library that matches literally, small policies, and the
  lexer's result on short command lines.
\<close>

definition literal_globs :: glob_lib where
  "literal_globs = \<lparr>glob_error = (\<lambda>g. None), glob_match = (\<lambda>g t. gtext g = t), set_error = (\<lambda>gs. None),
     set_match = (\<lambda>gs t. \<exists>g \<in> set gs. gtext g = t), glob_escape = (\<lambda>s. s), fs_case_insensitive = False\<rparr>"

definition demo_policy :: "rule list \<Rightarrow> rule list \<Rightarrow> rule list \<Rightarrow> bool \<Rightarrow> policy" where
  "demo_policy al ak dn sandbox = \<lparr>ctx = \<lparr>project_root = [RootDir, Normal ''w''], additional_dirs = [],
       home = Some [RootDir, Normal ''h'']\<rparr>,
     allow = al, ask = ak, deny = dn, session = [], auto_allow_read_only_bash = True, sandbox_auto_allow = sandbox\<rparr>"

definition plain_word :: "string \<Rightarrow> shell_word" where
  "plain_word t = default_word\<lparr>wtext := t\<rparr>"

definition simple :: "string list \<Rightarrow> segment" where
  "simple ts = \<lparr>words = map plain_word ts, redirects = []\<rparr>"

definition prefix_pattern :: "string list \<Rightarrow> command_pattern" where
  "prefix_pattern ts = \<lparr>ptext = join_with '' '' ts, pwords = Some ts, pprefix = True\<rparr>"

definition edit_policy :: policy where
  "edit_policy = (demo_policy [] [] [] False)\<lparr>session := [FilesRule EditScope None]\<rparr>"

lemma demo_policy_simps [policy_simps]:
  "ctx (demo_policy al ak dn sb) = \<lparr>project_root = [RootDir, Normal ''w''], additional_dirs = [],
     home = Some [RootDir, Normal ''h'']\<rparr>"
  "allow (demo_policy al ak dn sb) = al" "ask (demo_policy al ak dn sb) = ak" "deny (demo_policy al ak dn sb) = dn"
  "session (demo_policy al ak dn sb) = []" "auto_allow_read_only_bash (demo_policy al ak dn sb)"
  "sandbox_auto_allow (demo_policy al ak dn sb) = sb" "allow_rules (demo_policy al ak dn sb) = al"
  "roots (demo_policy al ak dn sb) = [[RootDir, Normal ''w'']]"
  by (simp_all add: demo_policy_def allow_rules_def roots_def)

section \<open>Evaluating the lexer\<close>

lemma bind_first: "x = y \<Longrightarrow> Option.bind x f = Option.bind y f"
  by simp

lemmas lex_eval = lex_def lex_run_def lex_fuel_def methods_at_numeral list_step_def word_step_def new_lexer_def
  default_segment_def default_word_def advance_def peek1_def finish_def plain_def push_text_def end_word_def MAX_LEN_def

lemma lex_sudo_rm: "lex ''sudo rm x'' =
    \<lparr>lsegments = [simple [''sudo'', ''rm'', ''x'']], lnested = [], lok = True, ldynamic = False\<rparr>"
  unfolding simple_def plain_word_def by (simp add: lex_eval cong: bind_first)

lemma lex_ls: "lex ''ls'' = \<lparr>lsegments = [simple [''ls'']], lnested = [], lok = True, ldynamic = False\<rparr>"
  unfolding simple_def plain_word_def by (simp add: lex_eval cong: bind_first)

lemma lex_cargo_test: "lex ''cargo test'' =
    \<lparr>lsegments = [simple [''cargo'', ''test'']], lnested = [], lok = True, ldynamic = False\<rparr>"
  unfolding simple_def plain_word_def by (simp add: lex_eval cong: bind_first)

lemma lex_touch: "lex ''touch a'' =
    \<lparr>lsegments = [simple [''touch'', ''a'']], lnested = [], lok = True, ldynamic = False\<rparr>"
  unfolding simple_def plain_word_def by (simp add: lex_eval cong: bind_first)

lemma lex_unclosed: "lex [QUOTE] =
    \<lparr>lsegments = [\<lparr>words = [(plain_word [])\<lparr>quoted := True\<rparr>], redirects = []\<rparr>], lnested = [], lok = False, ldynamic = False\<rparr>"
  unfolding plain_word_def by (simp add: lex_eval single_quoted_def cong: bind_first)

lemma lex_redirect: "lex ''ls >a'' =
    \<lparr>lsegments = [\<lparr>words = [plain_word ''ls''], redirects = [\<lparr>kind = WriteTo, target = plain_word ''a''\<rparr>]\<rparr>],
     lnested = [], lok = True, ldynamic = False\<rparr>"
  unfolding plain_word_def
  by (simp add: lex_eval redirect_step_def drop_descriptor_def operator_def add_redirect_def names_descriptor_def cong: bind_first)

lemma lex_cd_rm: "lex ''cd .git && rm config'' =
    \<lparr>lsegments = [simple [''cd'', ''.git''], simple [''rm'', ''config'']], lnested = [], lok = True, ldynamic = False\<rparr>"
  unfolding simple_def plain_word_def by (simp add: lex_eval cong: bind_first)

lemma lex_open_group: "lex ''(ls'' = \<lparr>lsegments = [simple [''ls'']], lnested = [], lok = True, ldynamic = False\<rparr>"
  unfolding simple_def plain_word_def by (simp add: lex_eval cong: bind_first)

lemma lex_sort: "lex ''sort --out=f a'' =
    \<lparr>lsegments = [simple [''sort'', ''--out=f'', ''a'']], lnested = [], lok = True, ldynamic = False\<rparr>"
  unfolding simple_def plain_word_def by (simp add: lex_eval is_name_def is_ascii_alphabetic_def is_ascii_alphanumeric_def
     is_ascii_lowercase_def is_ascii_uppercase_def strip_suffix_def ends_with_def cong: bind_first)

lemma lex_then_foo: "lex ''then foo'' =
    \<lparr>lsegments = [simple [''then'', ''foo'']], lnested = [], lok = True, ldynamic = False\<rparr>"
  unfolding simple_def plain_word_def by (simp add: lex_eval cong: bind_first)

lemma lex_cp: "lex ''cp -t/etc a'' =
    \<lparr>lsegments = [simple [''cp'', ''-t/etc'', ''a'']], lnested = [], lok = True, ldynamic = False\<rparr>"
  unfolding simple_def plain_word_def by (simp add: lex_eval cong: bind_first)

section \<open>Evaluating the search\<close>

lemmas expand_eval = expand_def expansion_readings_def base_name_def to_ascii_lowercase_def to_ascii_lower_def
  is_ascii_uppercase_def WRAPPERS_def SHELLS_def script_of_def simple_def plain_word_def default_word_def

lemma expand_sudo_rm: "expand (simple [''sudo'', ''rm'', ''x'']) = [simple [''rm'', ''x''], simple [''x'']]"
  by (simp add: expand_eval)

lemma expand_rm: "expand (simple [''rm'', ''x'']) = []" "expand (simple [''x'']) = []" "expand (simple [''ls'']) = []"
  "expand (simple [''cargo'', ''test'']) = []" "expand (simple [''touch'', ''a'']) = []"
  "expand (simple [''cd'', ''.git'']) = []" "expand (simple [''rm'', ''config'']) = []"
  "expand (simple [''sort'', ''--out=f'', ''a'']) = []" "expand (simple [''foo'']) = []"
  "expand (simple [''cp'', ''-t/etc'', ''a'']) = []"
  "expand \<lparr>words = [(plain_word [])\<lparr>quoted := True\<rparr>], redirects = []\<rparr> = []"
  "expand \<lparr>words = [plain_word ''ls''], redirects = rs\<rparr> = []"
  by (simp_all add: expand_eval)

lemma command_segment_simple: "ts \<noteq> [] \<Longrightarrow> hd ts \<notin> set LEADING_KEYWORDS \<Longrightarrow> command (simple ts) = words (simple ts)"
  by (cases ts) (simp_all add: command_def simple_def plain_word_def skip_keywords_stop)

lemmas search_eval = executed_commands_def command_segment_def executed_loop_push executed_loop_seen
  MAX_CANDIDATES_def MAX_WRAP_DEPTH_def expand_rm expand_sudo_rm command_segment_simple LEADING_KEYWORDS_def

lemma executed_sudo_rm: "executed_commands (simple [''sudo'', ''rm'', ''x'']) =
    ([simple [''sudo'', ''rm'', ''x''], simple [''x''], simple [''rm'', ''x'']], False)"
  by (simp add: search_eval simple_def plain_word_def expand_eval skip_keywords_stop command_def)

lemma executed_single:
  assumes "ts \<noteq> []" "hd ts \<notin> set LEADING_KEYWORDS" "expand (simple ts) = []"
  shows "executed_commands (simple ts) = ([simple ts], False)"
  using assms command_segment_simple [OF assms(1,2)]
  by (simp add: executed_commands_def command_segment_def executed_loop_push MAX_CANDIDATES_def MAX_WRAP_DEPTH_def)
     (simp add: simple_def)

section \<open>Parsed lines\<close>

lemma executed_leaf:
  assumes "command_segment s = c" "expand c = []"
  shows "executed_commands s = ([c], False)"
  using assms by (simp add: executed_commands_def executed_loop_push MAX_CANDIDATES_def MAX_WRAP_DEPTH_def)

lemmas simple_word = simple_def plain_word_def

lemma parse_sudo_rm: "parse ''sudo rm x'' = \<lparr>segments = [simple [''sudo'', ''rm'', ''x'']], pnested = [], pok = True, pdynamic = False\<rparr>"
  by (simp add: parse_def lex_sudo_rm runs_eval_def executed_sudo_rm Let_def) (simp add: simple_word)

lemma parse_ls: "parse ''ls'' = \<lparr>segments = [simple [''ls'']], pnested = [], pok = True, pdynamic = False\<rparr>"
  by (simp add: parse_def lex_ls runs_eval_def executed_single expand_rm LEADING_KEYWORDS_def Let_def) (simp add: simple_word)

lemma parse_cargo_test: "parse ''cargo test'' = \<lparr>segments = [simple [''cargo'', ''test'']], pnested = [], pok = True, pdynamic = False\<rparr>"
  by (simp add: parse_def lex_cargo_test runs_eval_def executed_single expand_rm LEADING_KEYWORDS_def Let_def) (simp add: simple_word)

lemma parse_touch: "parse ''touch a'' = \<lparr>segments = [simple [''touch'', ''a'']], pnested = [], pok = True, pdynamic = False\<rparr>"
  by (simp add: parse_def lex_touch runs_eval_def executed_single expand_rm LEADING_KEYWORDS_def Let_def) (simp add: simple_word)

lemma parse_cd_rm: "parse ''cd .git && rm config'' =
    \<lparr>segments = [simple [''cd'', ''.git''], simple [''rm'', ''config'']], pnested = [], pok = True, pdynamic = False\<rparr>"
  by (simp add: parse_def lex_cd_rm runs_eval_def executed_single expand_rm LEADING_KEYWORDS_def Let_def) (simp add: simple_word)

lemma parse_sort: "parse ''sort --out=f a'' =
    \<lparr>segments = [simple [''sort'', ''--out=f'', ''a'']], pnested = [], pok = True, pdynamic = False\<rparr>"
  by (simp add: parse_def lex_sort runs_eval_def executed_single expand_rm LEADING_KEYWORDS_def Let_def) (simp add: simple_word)

lemma parse_cp: "parse ''cp -t/etc a'' =
    \<lparr>segments = [simple [''cp'', ''-t/etc'', ''a'']], pnested = [], pok = True, pdynamic = False\<rparr>"
  by (simp add: parse_def lex_cp runs_eval_def executed_single expand_rm LEADING_KEYWORDS_def Let_def) (simp add: simple_word)

lemma executed_then_foo: "executed_commands (simple [''then'', ''foo'']) = ([simple [''foo'']], False)"
  by (rule executed_leaf [OF _ expand_rm(9)])
     (simp add: command_segment_def command_def simple_word skip_keywords_skip skip_keywords_stop default_word_def LEADING_KEYWORDS_def)

lemma parse_then_foo: "parse ''then foo'' = \<lparr>segments = [simple [''then'', ''foo'']], pnested = [], pok = True, pdynamic = False\<rparr>"
  by (simp add: parse_def lex_then_foo runs_eval_def executed_then_foo Let_def) (simp add: simple_word)

lemma executed_redirect: "executed_commands \<lparr>words = [plain_word ''ls''], redirects = rs\<rparr> =
    ([\<lparr>words = [plain_word ''ls''], redirects = rs\<rparr>], False)"
  by (rule executed_leaf [OF _ expand_rm(12)])
     (simp add: command_segment_def command_def plain_word_def skip_keywords_stop LEADING_KEYWORDS_def)

lemma parse_redirect: "parse ''ls >a'' = \<lparr>segments = [\<lparr>words = [plain_word ''ls''], redirects = [\<lparr>kind = WriteTo, target = plain_word ''a''\<rparr>]\<rparr>],
     pnested = [], pok = True, pdynamic = False\<rparr>"
  by (simp add: parse_def lex_redirect runs_eval_def executed_redirect Let_def) (simp add: plain_word_def)

section \<open>Evaluating decisions\<close>

lemmas path_eval = resolve_def join_path_def is_absolute_def normalize_def starts_with_def strip_prefix_def

lemmas decide_eval = policy_simps decide_def facts_of_def restricting_def action_decide_def rule_restricts_def
  files_decide_def targets_def is_read_def is_write_def is_inside_allowed_def protected_path_def is_protected_def path_eval

lemma plain_word_sel [simp]:
  "wtext (plain_word t) = t" "\<not> quoted (plain_word t)" "\<not> Syntax.glob (plain_word t)" "\<not> brace (plain_word t)"
  "\<not> param (plain_word t)" "\<not> tilde (plain_word t)" "\<not> assignment (plain_word t)" "\<not> expands (plain_word t)"
  by (simp_all add: plain_word_def default_word_def expands_def)

lemma command_simple: "ts \<noteq> [] \<Longrightarrow> hd ts \<notin> set LEADING_KEYWORDS \<Longrightarrow> command (simple ts) = map plain_word ts"
  by (simp add: command_segment_simple) (simp add: simple_def)

lemma simple_sel [simp]: "words (simple ts) = map plain_word ts" "redirects (simple ts) = []" "write_targets (simple ts) = []"
  by (simp_all add: simple_def write_targets_def)

lemmas operand_eval = operands_def NO_FILES_def PATTERN_FIRST_def COPIERS_def WRITERS_def positionals_def reads_of_def

lemma writes_of_commands:
  "op_writes (operands [plain_word ''rm'', plain_word x]) = positionals [plain_word x]"
  "op_writes (operands [plain_word ''sudo'', plain_word ''rm'', plain_word x]) = []"
  "op_writes (operands [plain_word ''cd'', plain_word x]) = []"
  "op_writes (operands [plain_word ''x'']) = []"
  by (simp_all add: operand_eval)

lemma positional_names:
  "positionals [plain_word ''x''] = [plain_word ''x'']" "positionals [plain_word ''config''] = [plain_word ''config'']"
  "positionals [plain_word ''a''] = [plain_word ''a'']"
  by (simp_all add: positionals_def contains_str_def split_once.simps del: not_None_eq)

lemma protected_eval:
  "protected_names [''x''] = False" "protected_names [''a''] = False" "protected_names [''config''] = False"
  "protected_names (''.git'' # ns)"
  by (simp_all add: protected_names_def PROTECTED_DIRS_def PROTECTED_FILES_def)

lemma lower_eval: "to_ascii_lowercase ''x'' = ''x''" "to_ascii_lowercase ''a'' = ''a''" "to_ascii_lowercase ''config'' = ''config''"
    "to_ascii_lowercase ''.git'' = ''.git''"
  by (simp_all add: to_ascii_lowercase_def to_ascii_lower_def is_ascii_uppercase_def)

lemma components_eval: "components ''x'' = [Normal ''x'']" "components ''a'' = [Normal ''a'']" "components ''config'' = [Normal ''config'']"
    "components ''.git'' = [Normal ''.git'']"
  by (simp_all add: components_def body_components_def component_of_def)

lemmas file_eval = protected_eval lower_eval components_eval map_filter_simps locate_def escapes_start_def

lemmas demo_eval = command_facts_def parse_sudo_rm parse_ls parse_cargo_test parse_touch parse_redirect parse_cd_rm parse_sort parse_cp
  all_segments_def executed_sudo_rm executed_single executed_redirect expand_rm command_simple LEADING_KEYWORDS_def Let_def

lemma whole_line_allowed:
  "decide literal_globs (demo_policy [BashRule None] [] [] False) ''Bash'' (Execute cmd) Default = Allow ''allowed by rule Bash''"
  by (simp add: decide_eval execute_decide_def execute_allowing_def allows_whole_def optional_str_def)

lemma add_edit: "add_session_rule literal_globs ''Edit'' (demo_policy [] [] [] False) = Inr edit_policy"
  by (simp add: add_session_rule_def parse_Edit edit_policy_def push_new_def policy_simps)

lemma parse_task: "rule_parse literal_globs ''Task(x)'' = Inr (AgentRule (Some ''x''))"
  using rule_parse_spec [of "''Task''" "''x''" literal_globs] all_printable_trim [of "''x''"]
  by (simp add: tool_char_def ascii_simps printable_def strip_prefix_def rule_target_def contains_char_def FILE_TOOLS_def)

end
