(* ===== verification/Lsp.thy ===== *)
theory Lsp
  imports Protocol
begin

text \<open>
  \<open>crates/z-engine-integrations/src/lsp/position.rs\<close> and \<open>uri.rs\<close>: positions and paths as the model names them
  and as language servers name them. The fields of \<open>LspPosition\<close> and the model's lines and columns are \<open>u32\<close>, so
  the clamps and saturating sums are written on words; a path is its text (the bytes of its \<open>OsStr\<close>), on Unix.
\<close>

section \<open>Positions (position.rs)\<close>

record lsp_position =
  lp_line :: u32
  lp_character :: u32

definition line_text :: "string \<Rightarrow> nat \<Rightarrow> string option" where
  "line_text t index =
     (let ls = split_on NL t in
      if index < length ls then
        (let l = ls ! index in Some (case strip_suffix [CR] l of Some r \<Rightarrow> r | None \<Rightarrow> l))
      else None)"

text \<open>\<open>char::len_utf16\<close>: the scalar values of four bytes are those above \<open>0xFFFF\<close>.\<close>

definition len_utf16 :: "string \<Rightarrow> nat" where
  "len_utf16 u = (if length u < 4 then 1 else 2)"

definition u32_try_from :: "nat \<Rightarrow> u32" where
  "u32_try_from n = (if n < 2 ^ 32 then of_nat n else - 1)"

definition utf16_offset :: "string \<Rightarrow> nat \<Rightarrow> u32" where
  "utf16_offset line n = u32_try_from (sum_list (map len_utf16 (take n (uchars line))))"

primrec char_index_loop :: "nat \<Rightarrow> string list \<Rightarrow> nat \<Rightarrow> nat \<Rightarrow> nat" where
  "char_index_loop units [] index consumed = index"
| "char_index_loop units (c # cs) index consumed =
     (if consumed \<ge> units then index
      else if consumed + len_utf16 c > units then index
      else char_index_loop units cs (Suc index) (consumed + len_utf16 c))"

definition char_index :: "string \<Rightarrow> u32 \<Rightarrow> nat" where
  "char_index line units = char_index_loop (unat units) (uchars line) 0 0"

definition saturating_pred :: "u32 \<Rightarrow> u32" where
  "saturating_pred n = (if n = 0 then 0 else n - 1)"

definition saturating_succ :: "u32 \<Rightarrow> u32" where
  "saturating_succ n = (if n = - 1 then n else n + 1)"

definition to_lsp :: "string \<Rightarrow> u32 \<Rightarrow> u32 \<Rightarrow> lsp_position option" where
  "to_lsp t line column =
     (if line = 0 then None
      else (case line_text t (unat (line - 1)) of
        None \<Rightarrow> None
      | Some l \<Rightarrow> Some \<lparr>lp_line = line - 1, lp_character = utf16_offset l (unat (saturating_pred column))\<rparr>))"

definition from_lsp :: "string \<Rightarrow> lsp_position \<Rightarrow> u32 \<times> u32" where
  "from_lsp t p =
     (let column = (case line_text t (unat (lp_line p)) of
                      Some l \<Rightarrow> u32_try_from (char_index l (lp_character p))
                    | None \<Rightarrow> lp_character p)
      in (saturating_succ (lp_line p), saturating_succ column))"

section \<open>File URIs (uri.rs)\<close>

definition uri_plain :: "char \<Rightarrow> bool" where
  "uri_plain c \<longleftrightarrow> is_ascii_alphanumeric c \<or> c \<in> set ''-_.~/:''"

definition hex_upper :: "nat \<Rightarrow> char" where
  "hex_upper d = char_of (if d < 10 then 48 + d else 55 + d)"

definition escape_byte :: "char \<Rightarrow> string" where
  "escape_byte c = (if uri_plain c then [c] else [CHR ''%'', hex_upper (code c div 16), hex_upper (code c mod 16)])"

definition path_to_uri :: "string \<Rightarrow> string" where
  "path_to_uri path =
     (let t = from_utf8_lossy path in
      ''file://'' @ (if starts_with ''/'' t then [] else ''/'') @ concat (map escape_byte t))"

text \<open>\<open>str::get(..2)\<close>, when neither end is inside a scalar value.\<close>

definition at_boundary :: "string \<Rightarrow> bool" where
  "at_boundary s \<longleftrightarrow> s = [] \<or> \<not> is_continuation (hd s)"

definition get_two :: "string \<Rightarrow> string option" where
  "get_two s = (if 2 \<le> length s \<and> at_boundary s \<and> at_boundary (drop 2 s) then Some (take 2 s) else None)"

text \<open>\<open>u8::from_str_radix\<close> for radix 16: a sign \<open>+\<close> is accepted, overflow is an error.\<close>

primrec hex_value :: "string \<Rightarrow> nat \<Rightarrow> nat option" where
  "hex_value [] v = (if v < 256 then Some v else None)"
| "hex_value (c # cs) v = (case to_digit 16 c of None \<Rightarrow> None | Some d \<Rightarrow> hex_value cs (16 * v + d))"

definition u8_from_hex :: "string \<Rightarrow> nat option" where
  "u8_from_hex s = (if s = [] then None
     else if hd s = CHR ''+'' \<and> tl s \<noteq> [] then hex_value (tl s) 0 else hex_value s 0)"

function percent_bytes :: "string \<Rightarrow> string option" where
  "percent_bytes [] = Some []"
| "percent_bytes (c # s) =
     (if c = CHR ''%'' then
        (case get_two s of
           None \<Rightarrow> None
         | Some hex \<Rightarrow> (case u8_from_hex hex of
             None \<Rightarrow> None
           | Some n \<Rightarrow> map_option ((#) (char_of n)) (percent_bytes (drop 2 s))))
      else map_option ((#) c) (percent_bytes s))"
  by pat_completeness auto
termination
  by (relation "measure length") auto

text \<open>\<open>String::from_utf8\<close> succeeds on these bytes.\<close>

function is_utf8 :: "string \<Rightarrow> bool" where
  "is_utf8 [] = True"
| "is_utf8 (c # s) \<longleftrightarrow> snd (utf8_seq c s) \<and> is_utf8 (drop (fst (utf8_seq c s) - 1) s)"
  by pat_completeness auto
termination
  by (relation "measure length") auto

definition percent_decode :: "string \<Rightarrow> string option" where
  "percent_decode t = (case percent_bytes t of
     None \<Rightarrow> None | Some out \<Rightarrow> if is_utf8 out then Some out else None)"

definition uri_to_path :: "string \<Rightarrow> string option" where
  "uri_to_path uri = (case strip_prefix ''file://'' uri of
     None \<Rightarrow> None
   | Some rest \<Rightarrow>
       let rest = (case strip_prefix ''localhost'' rest of Some r \<Rightarrow> r | None \<Rightarrow> rest) in
       if starts_with ''/'' rest then percent_decode rest else None)"

section \<open>Lemmas on positions\<close>

abbreviation units :: "string list \<Rightarrow> nat" where
  "units cs \<equiv> sum_list (map len_utf16 cs)"

lemma len_utf16_pos: "0 < len_utf16 u"
  by (simp add: len_utf16_def)

lemma u32_try_from_unat [simp]: "n < 2 ^ 32 \<Longrightarrow> unat (u32_try_from n) = n"
  by (simp add: u32_try_from_def unat_of_nat take_bit_nat_eq_self)

lemma length_le_units: "length cs \<le> units cs"
proof (induction cs)
  case (Cons c cs)
  then show ?case using len_utf16_pos [of c] by simp
qed simp

lemma units_take: "units (take n cs) \<le> units cs"
  by (induction cs arbitrary: n) (auto simp: take_Cons split: nat.splits)

text \<open>The loop finds the character whose units start at the offset.\<close>

lemma char_index_loop_at:
  "n \<le> length cs \<Longrightarrow> char_index_loop (k + units (take n cs)) cs i k = i + n"
proof (induction cs arbitrary: n i k)
  case (Cons c cs)
  show ?case
  proof (cases n)
    case (Suc m)
    then have m: "m \<le> length cs" using Cons.prems by simp
    have eq: "k + units (take n (c # cs)) = k + len_utf16 c + units (take m cs)" using Suc by simp
    show ?thesis
      using Cons.IH [OF m, of "k + len_utf16 c" "Suc i"] Suc len_utf16_pos [of c] unfolding eq by simp
  qed simp
qed simp

lemma char_index_loop_bounds:
  "k \<le> u \<Longrightarrow> i \<le> char_index_loop u cs i k \<and> char_index_loop u cs i k \<le> i + length cs \<and>
     k + units (take (char_index_loop u cs i k - i) cs) \<le> u"
proof (induction cs arbitrary: i k)
  case (Cons c cs)
  show ?case
  proof (cases "k \<ge> u \<or> k + len_utf16 c > u")
    case True
    then show ?thesis using Cons.prems by auto
  next
    case False
    let ?j = "char_index_loop u cs (Suc i) (k + len_utf16 c)"
    have "k + len_utf16 c \<le> u" using False by simp
    from Cons.IH [OF this, of "Suc i"] have ih: "Suc i \<le> ?j" "?j \<le> Suc i + length cs" "k + len_utf16 c + units (take (?j - Suc i) cs) \<le> u"
      by auto
    have "?j - i = Suc (?j - Suc i)" using ih(1) by simp
    then have "units (take (?j - i) (c # cs)) = len_utf16 c + units (take (?j - Suc i) cs)" by simp
    then show ?thesis using False ih by simp
  qed
qed simp

lemma char_index_le: "char_index line u \<le> length (uchars line)"
  using char_index_loop_bounds [of 0 "unat u" 0 "uchars line"] by (simp add: char_index_def)

text \<open>An offset inside a surrogate pair maps to the character of the pair.\<close>

lemma char_index_loop_covers:
  "k \<le> u \<Longrightarrow> u < k + units cs \<Longrightarrow> char_index_loop u cs i k - i < length cs \<and>
     u < k + units (take (Suc (char_index_loop u cs i k - i)) cs)"
proof (induction cs arbitrary: i k)
  case (Cons c cs)
  show ?case
  proof (cases "k \<ge> u \<or> k + len_utf16 c > u")
    case True
    then show ?thesis using Cons.prems len_utf16_pos [of c] by auto
  next
    case False
    let ?j = "char_index_loop u cs (Suc i) (k + len_utf16 c)"
    have le: "k + len_utf16 c \<le> u" using False by simp
    have lt: "u < k + len_utf16 c + units cs" using Cons.prems(2) by simp
    have ge: "Suc i \<le> ?j" using char_index_loop_bounds [OF le, of "Suc i" cs] by blast
    have eq: "?j - i = Suc (?j - Suc i)" using ge by simp
    have "?j - Suc i < length cs" "u < k + len_utf16 c + units (take (Suc (?j - Suc i)) cs)"
      using Cons.IH [OF le lt, of "Suc i"] by auto
    moreover have j: "char_index_loop u (c # cs) i k = ?j" using False by simp
    ultimately show ?thesis unfolding j eq by simp
  qed
qed simp

lemma char_index_utf16_offset:
  assumes "n \<le> length (uchars line)" and "units (uchars line) < 2 ^ 32"
  shows "char_index line (utf16_offset line n) = n"
proof -
  have "units (take n (uchars line)) < 2 ^ 32" using units_take assms(2) by (rule le_less_trans)
  then show ?thesis
    using char_index_loop_at [OF assms(1), of 0 0] by (simp add: char_index_def utf16_offset_def)
qed

lemma saturating_succ_minus: "n \<noteq> 0 \<Longrightarrow> saturating_succ (n - 1) = n"
  by (auto simp: saturating_succ_def)

lemma unat_minus_1: "(n::u32) \<noteq> 0 \<Longrightarrow> unat (n - 1) = unat n - 1"
  by (simp add: unat_gt_0 unat_minus_one)

section \<open>Lemmas on URIs\<close>

lemma hex_upper_digit: "d < 16 \<Longrightarrow> to_digit 16 (hex_upper d) = Some d"
  by (auto simp: to_digit_def hex_upper_def is_ascii_digit_def Let_def)

lemma hex_upper_ascii: "d < 16 \<Longrightarrow> \<not> is_continuation (hex_upper d) \<and> hex_upper d \<noteq> CHR ''+''"
proof
  assume d: "d < 16"
  then have c: "code (hex_upper d) < 128" by (simp add: hex_upper_def)
  then show "\<not> is_continuation (hex_upper d)" by (simp add: is_continuation_def)
  have "to_digit 16 (CHR ''+'') = None" by (simp add: to_digit_def is_ascii_digit_def)
  then show "hex_upper d \<noteq> CHR ''+''" using hex_upper_digit [OF d] by auto
qed

lemma escape_byte_boundary: "at_boundary (escape_byte c @ s)"
proof (cases "uri_plain c")
  case True
  have "\<forall>x \<in> set ''-_.~/:''. \<not> is_continuation x" by (simp add: is_continuation_def)
  moreover have "is_ascii_alphanumeric c \<Longrightarrow> \<not> is_continuation c" by (auto simp: ascii_simps)
  ultimately have "\<not> is_continuation c" using True uri_plain_def by blast
  then show ?thesis using True by (simp add: escape_byte_def at_boundary_def)
next
  case False
  then show ?thesis by (simp add: escape_byte_def at_boundary_def is_continuation_def)
qed

lemma escaped_boundary: "at_boundary (concat (map escape_byte s))"
  by (cases s) (simp_all add: escape_byte_boundary, simp add: at_boundary_def)

lemma percent_bytes_escape: "percent_bytes (concat (map escape_byte s)) = Some s"
proof (induction s)
  case (Cons c s)
  let ?r = "concat (map escape_byte s)"
  have d: "code c div 16 < 16" "code c mod 16 < 16" by (simp_all add: less_mult_imp_div_less)
  show ?case
  proof (cases "uri_plain c")
    case True
    then have "c \<noteq> CHR ''%''" by (auto simp: uri_plain_def ascii_simps)
    then show ?thesis using True Cons.IH by (simp add: escape_byte_def)
  next
    case False
    have v: "16 * (code c div 16) + code c mod 16 = code c" by simp
    have "get_two (hex_upper (code c div 16) # hex_upper (code c mod 16) # ?r) =
        Some [hex_upper (code c div 16), hex_upper (code c mod 16)]"
      using hex_upper_ascii [OF d(1)] escaped_boundary [of s] by (simp add: get_two_def at_boundary_def)
    moreover have "u8_from_hex [hex_upper (code c div 16), hex_upper (code c mod 16)] = Some (code c)"
      using hex_upper_digit [OF d(1)] hex_upper_digit [OF d(2)] hex_upper_ascii [OF d(1)]
      by (simp add: u8_from_hex_def v)
    moreover have "escape_byte c = [CHR ''%'', hex_upper (code c div 16), hex_upper (code c mod 16)]"
      using False by (simp add: escape_byte_def)
    ultimately show ?thesis using Cons.IH by simp
  qed
qed simp

lemma is_utf8_lossy: "is_utf8 s \<Longrightarrow> from_utf8_lossy s = s"
proof (induction s rule: is_utf8.induct)
  case (2 c s)
  obtain k where k: "utf8_seq c s = (k, True)" using "2.prems" by (cases "utf8_seq c s") simp
  then have "k > 0" by (auto simp: utf8_seq_def Let_def split: if_splits)
  then have "take k (c # s) @ drop (k - 1) s = c # s" by (cases k) simp_all
  then show ?case using "2.IH" "2.prems" k by simp
qed simp

lemma percent_bytes_slash: "percent_bytes (CHR ''/'' # s) = Some p \<Longrightarrow> starts_with ''/'' p"
  by (auto simp: starts_with_def)

lemma percent_bytes_len: "percent_bytes s = Some p \<Longrightarrow> length p \<le> length s"
  by (induction s arbitrary: p rule: percent_bytes.induct) (fastforce split: if_splits option.splits)+

section \<open>Properties\<close>

text \<open>
  C36. The model's positions survive the trip to the server: a column from 1 up to one past the end of an existing line
  is sent as a UTF-16 offset that reads back as the same line and column, whatever characters the line holds, as long
  as the line's offsets fit the \<open>u32\<close> of the protocol.
\<close>

theorem positions_round_trip:
  assumes "line \<noteq> 0" and "line_text t (unat (line - 1)) = Some l"
    and "1 \<le> column" and "unat column \<le> length (uchars l) + 1" and "units (uchars l) < 2 ^ 32"
  shows "map_option (from_lsp t) (to_lsp t line column) = Some (line, column)"
proof -
  have col: "column \<noteq> 0" using assms(3) by auto
  then have n: "unat (saturating_pred column) = unat column - 1"
    by (simp add: saturating_pred_def unat_minus_1)
  then have le: "unat (saturating_pred column) \<le> length (uchars l)" using assms(4) by simp
  have "unat (column - 1) < 2 ^ 32" using unsigned_less [of "column - 1"] by simp
  then have "u32_try_from (unat (column - 1)) = column - 1" by (simp add: u32_try_from_def)
  then have "u32_try_from (unat column - 1) = column - 1" using unat_minus_1 [OF col] by simp
  then have "saturating_succ (u32_try_from (char_index l (utf16_offset l (unat (saturating_pred column))))) = column"
    using char_index_utf16_offset [OF le assms(5)] saturating_succ_minus [OF col] n by simp
  then show ?thesis
    using assms(1,2) saturating_succ_minus [OF assms(1)] by (simp add: to_lsp_def from_lsp_def Let_def)
qed

text \<open>
  A path survives the trip to the server: the URI of an absolute path with a UTF-8 name reads back as that path,
  and an accepted URI names an absolute local path in UTF-8.
\<close>

theorem uris_round_trip:
  "(is_utf8 path \<longrightarrow> starts_with ''/'' path \<longrightarrow> uri_to_path (path_to_uri path) = Some path) \<and>
   (uri_to_path uri = Some p \<longrightarrow> starts_with ''file://'' uri \<and> starts_with ''/'' p \<and> is_utf8 p)"
proof (intro conjI impI)
  assume u: "is_utf8 path" and s: "starts_with ''/'' path"
  have esc: "escape_byte (CHR ''/'') = ''/''" by (simp add: escape_byte_def uri_plain_def)
  obtain r where path: "path = CHR ''/'' # r" using s by (cases path) auto
  have "percent_decode (concat (map escape_byte path)) = Some path"
    using u by (simp add: percent_decode_def percent_bytes_escape)
  then show "uri_to_path (path_to_uri path) = Some path"
    using is_utf8_lossy [OF u] path esc by (simp add: path_to_uri_def uri_to_path_def)
next
  assume a: "uri_to_path uri = Some p"
  then show "starts_with ''file://'' uri" by (auto simp: uri_to_path_def strip_prefix_def split: if_splits)
  obtain rest where d: "percent_decode rest = Some p" and r: "starts_with ''/'' rest"
    using a by (auto simp: uri_to_path_def Let_def split: option.splits if_splits)
  then obtain out where o: "percent_bytes rest = Some out" "is_utf8 out" "p = out"
    by (auto simp: percent_decode_def split: option.splits if_splits)
  show "is_utf8 p" using o by simp
  show "starts_with ''/'' p" using o(1,3) r percent_bytes_slash by (cases rest) auto
qed

text \<open>
  A malformed escape is not always refused: \<open>u8::from_str_radix\<close> reads a sign, so \<open>%+F\<close> decodes to a
  control character.
\<close>

theorem signed_escape_accepted: "uri_to_path ''file:///a/%+F'' = Some (''/a/'' @ [CHR 0x0F])"
  by (simp add: uri_to_path_def percent_decode_def get_two_def at_boundary_def u8_from_hex_def to_digit_def
      is_ascii_digit_def is_continuation_def utf8_seq_def utf8_width_def Let_def char_of_eq_iff)

theorem positions_round_trip_witness:
  "map_option (from_lsp (''ab'' @ [CR, NL] @ ''x'')) (to_lsp (''ab'' @ [CR, NL] @ ''x'') 1 2) = Some (1, 2)"
  by (rule positions_round_trip [where l = "''ab''"])
     (simp_all add: line_text_def strip_suffix_def ends_with_def is_continuation_def len_utf16_def)

theorem uris_round_trip_witness:
  "uri_to_path (path_to_uri ''/a b'') = Some ''/a b'' \<and> starts_with ''/'' ''/a b''"
proof -
  have u: "is_utf8 ''/a b''" by (simp add: utf8_seq_def utf8_width_def)
  show ?thesis using uris_round_trip [of "''/a b''"] u by (simp add: starts_with_def)
qed

end
