(* ===== verification/Framing.thy ===== *)
theory Framing
  imports Prelude
begin

text \<open>
  \<open>crates/z-engine-integrations/src/error.rs\<close> and \<open>jsonrpc/framing.rs\<close>: frames on a byte stream, one JSON
  document per line or \<open>Content-Length\<close> headers before each body.

  A stream is the list of what its reads yield: bytes, or an I/O error. An empty read is the end of the
  stream, as for \<open>AsyncRead\<close>. \<open>fill_buf\<close> shows the bytes at the head of the list and \<open>consume\<close> drops a part
  of them.
\<close>

section \<open>Errors (error.rs)\<close>

datatype integration_error =
    Spawn string string
  | Io string string
  | Protocol string
  | Rpc int string
  | Timeout string nat
  | Cancelled
  | Disconnected string
  | NotSent string
  | Http nat string
  | Unsupported string
  | NotFound string

definition is_retry_safe :: "integration_error \<Rightarrow> bool" where
  "is_retry_safe e = (case e of NotSent _ \<Rightarrow> True | _ \<Rightarrow> False)"

definition is_transport_failure :: "integration_error \<Rightarrow> bool" where
  "is_transport_failure e = (case e of NotSent _ \<Rightarrow> True | Disconnected _ \<Rightarrow> True | _ \<Rightarrow> False)"

section \<open>Frames (framing.rs)\<close>

definition MAX_FRAME_BYTES :: nat where "MAX_FRAME_BYTES = 64 * 1024 * 1024"
definition MAX_HEADER_LINE :: nat where "MAX_HEADER_LINE = 8 * 1024"

datatype framing = Newline | ContentLength

definition encode :: "framing \<Rightarrow> string \<Rightarrow> string" where
  "encode f body =
     (case f of Newline \<Rightarrow> [] | ContentLength \<Rightarrow> ''Content-Length: '' @ nat_str (length body) @ [CR, NL, CR, NL]) @
     body @ (if f = Newline then [NL] else [])"

type_synonym byte_source = "(string + string) list"

definition reading_failed :: "string \<Rightarrow> integration_error" where
  "reading_failed e = Io ''reading from the server'' e"

text \<open>The loop of \<open>read_line\<close>; \<open>acc\<close> is the line so far.\<close>

fun read_line_loop :: "nat \<Rightarrow> string \<Rightarrow> byte_source \<Rightarrow> (integration_error + string option) \<times> byte_source" where
  "read_line_loop limit acc [] = (Inr (if acc \<noteq> [] then Some acc else None), [])"
| "read_line_loop limit acc (Inl e # src) = (Inl (reading_failed e), src)"
| "read_line_loop limit acc (Inr available # src) =
     (if available = [] then (Inr (if acc \<noteq> [] then Some acc else None), Inr available # src)
      else (case split_once [NL] available of
        Some (taken, after) \<Rightarrow>
          if length acc + length taken > limit
          then (Inl (Protocol (''a frame exceeds the '' @ nat_str limit @ ''-byte limit'')), Inr available # src)
          else (Inr (Some (acc @ taken)), if after = [] then src else Inr after # src)
      | None \<Rightarrow>
          if length acc + length available > limit
          then (Inl (Protocol (''a frame exceeds the '' @ nat_str limit @ ''-byte limit'')), Inr available # src)
          else read_line_loop limit (acc @ available) src))"

definition read_line :: "nat \<Rightarrow> byte_source \<Rightarrow> (integration_error + string option) \<times> byte_source" where
  "read_line limit src = read_line_loop limit [] src"

definition pop_cr :: "string \<Rightarrow> string" where
  "pop_cr l = (if l \<noteq> [] \<and> last l = CR then butlast l else l)"

fun source_size :: "byte_source \<Rightarrow> nat" where
  "source_size [] = 0"
| "source_size (Inl e # src) = Suc (source_size src)"
| "source_size (Inr b # src) = Suc (length b + source_size src)"

lemma read_line_size:
  "read_line_loop limit acc src = (Inr (Some l), src') \<Longrightarrow> source_size src' < source_size src \<or> (src' = src \<and> acc \<noteq> [])"
proof (induction limit acc src rule: read_line_loop.induct)
  case (3 limit acc available src)
  show ?case
  proof (cases "split_once [NL] available")
    case None
    then show ?thesis using 3 by (auto split: if_splits)
  next
    case (Some p)
    obtain taken after where p: "p = (taken, after)" by fastforce
    then have "available = taken @ NL # after" using Some split_once_Some [of "[NL]" available] by auto
    then show ?thesis using 3 Some p by (auto split: if_splits)
  qed
qed (auto split: if_splits)

lemma read_line_shrinks: "read_line limit src = (Inr (Some l), src') \<Longrightarrow> source_size src' < source_size src"
  using read_line_size [of limit "[]" src] by (auto simp: read_line_def)

function read_line_frame :: "nat \<Rightarrow> byte_source \<Rightarrow> (integration_error + string option) \<times> byte_source" where
  "read_line_frame limit src =
     (case read_line limit src of
        (Inr (Some l), src') \<Rightarrow>
          if \<forall>c \<in> set (pop_cr l). is_ascii_whitespace c then read_line_frame limit src'
          else (Inr (Some (pop_cr l)), src')
      | r \<Rightarrow> r)"
  by pat_completeness auto
termination
  by (relation "measure (\<lambda>(_, src). source_size src)") (auto dest!: read_line_shrinks [OF sym])

declare read_line_frame.simps [simp del]

text \<open>\<open>str::parse::<usize>\<close> on a 64-bit target.\<close>

definition parse_usize :: "string \<Rightarrow> nat option" where
  "parse_usize s =
     (let digits = (case s of c # cs \<Rightarrow> if c = CHR ''+'' \<and> cs \<noteq> [] then cs else s | [] \<Rightarrow> []);
          n = foldl (\<lambda>v c. v * 10 + (code c - 48)) 0 digits
      in if digits \<noteq> [] \<and> (\<forall>c \<in> set digits. is_ascii_digit c) \<and> n < 2 ^ 64 then Some n else None)"

text \<open>
  The header loop of \<open>read_length_frame\<close>: \<^term>\<open>None\<close> for the end of the stream between frames, otherwise
  the length found.
\<close>

function read_headers :: "nat option \<Rightarrow> bool \<Rightarrow> byte_source \<Rightarrow> (integration_error + nat option option) \<times> byte_source" where
  "read_headers len in_header src =
     (case read_line MAX_HEADER_LINE src of
        (Inl e, src') \<Rightarrow> (Inl e, src')
      | (Inr None, src') \<Rightarrow>
          (if in_header then Inl (Disconnected ''the stream ended inside a message header'') else Inr None, src')
      | (Inr (Some l), src') \<Rightarrow>
          if pop_cr l = [] then
            (if in_header then (Inr (Some len), src') else read_headers len in_header src')
          else (let t = from_utf8_lossy (pop_cr l) in
            case split_once '':'' t of
              None \<Rightarrow> (Inl (Protocol (''malformed header line '' @ ticked t)), src')
            | Some (name, val) \<Rightarrow>
                if eq_ignore_ascii_case (trim name) ''content-length'' then
                  (case parse_usize (trim val) of
                     None \<Rightarrow> (Inl (Protocol (''invalid Content-Length '' @ ticked (trim val))), src')
                   | Some n \<Rightarrow> read_headers (Some n) True src')
                else read_headers len True src'))"
  by pat_completeness auto
termination
  by (relation "measure (\<lambda>(_, _, src). source_size src)") (auto dest!: read_line_shrinks [OF sym])

declare read_headers.simps [simp del]

fun read_exact :: "nat \<Rightarrow> string \<Rightarrow> byte_source \<Rightarrow> (integration_error + string) \<times> byte_source" where
  "read_exact 0 acc src = (Inr acc, src)"
| "read_exact n acc [] = (Inl (Disconnected ''the stream ended inside a message body''), [])"
| "read_exact n acc (Inl e # src) = (Inl (reading_failed e), src)"
| "read_exact n acc (Inr b # src) =
     (if b = [] then (Inl (Disconnected ''the stream ended inside a message body''), Inr b # src)
      else if length b \<le> n then read_exact (n - length b) (acc @ b) src
      else (Inr (acc @ take n b), Inr (drop n b) # src))"

definition read_length_frame :: "nat \<Rightarrow> byte_source \<Rightarrow> (integration_error + string option) \<times> byte_source" where
  "read_length_frame limit src =
     (case read_headers None False src of
        (Inl e, src') \<Rightarrow> (Inl e, src')
      | (Inr None, src') \<Rightarrow> (Inr None, src')
      | (Inr (Some None), src') \<Rightarrow> (Inl (Protocol ''a message header has no Content-Length''), src')
      | (Inr (Some (Some n)), src') \<Rightarrow>
          if n > limit then
            (Inl (Protocol (''a '' @ nat_str n @ ''-byte message exceeds the '' @ nat_str limit @ ''-byte limit'')), src')
          else (case read_exact n [] src' of
            (Inl e, src'') \<Rightarrow> (Inl e, src'')
          | (Inr b, src'') \<Rightarrow> (Inr (Some b), src'')))"

definition read_frame :: "framing \<Rightarrow> nat \<Rightarrow> byte_source \<Rightarrow> (integration_error + string option) \<times> byte_source" where
  "read_frame f limit src = (case f of Newline \<Rightarrow> read_line_frame limit src | ContentLength \<Rightarrow> read_length_frame limit src)"

section \<open>Streams as their bytes\<close>

text \<open>A source without errors that yields exactly the given bytes, in any chunks.\<close>

definition carries :: "byte_source \<Rightarrow> string \<Rightarrow> bool" where
  "carries src bytes \<longleftrightarrow> (\<exists>cs. src = map Inr cs \<and> [] \<notin> set cs \<and> concat cs = bytes)"

lemma carries_Nil: "carries src [] \<longleftrightarrow> src = []"
  by (auto simp: carries_def) (metis list.set_intros(1) neq_Nil_conv)

lemma carries_cases:
  assumes "carries src bytes"
  obtains "src = []" "bytes = []" | c src' r where "src = Inr c # src'" "c \<noteq> []" "bytes = c @ r" "carries src' r"
proof -
  obtain cs where cs: "src = map Inr cs" "[] \<notin> set cs" "concat cs = bytes" using assms by (auto simp: carries_def)
  show thesis
  proof (cases cs)
    case (Cons c cs')
    then have "carries (map Inr cs') (concat cs')" using cs by (auto simp: carries_def)
    then show thesis using that(2) [of c "map Inr cs'" "concat cs'"] cs Cons by auto
  qed (use cs that(1) in simp)
qed

lemma carries_Cons: "c \<noteq> [] \<Longrightarrow> carries src r \<Longrightarrow> carries (Inr c # src) (c @ r)"
proof -
  assume "c \<noteq> []" "carries src r"
  then obtain cs where "src = map Inr cs" "[] \<notin> set cs" "concat cs = r" by (auto simp: carries_def)
  with \<open>c \<noteq> []\<close> show ?thesis unfolding carries_def by (intro exI [of _ "c # cs"]) simp
qed

lemma carries_tail: "carries src r \<Longrightarrow> carries (if c = [] then src else Inr c # src) (c @ r)"
  by (auto intro: carries_Cons)

lemma read_line_carries:
  assumes "carries src (l @ NL # r)" "NL \<notin> set l" "length acc + length l \<le> limit"
  shows "\<exists>src'. read_line_loop limit acc src = (Inr (Some (acc @ l)), src') \<and> carries src' r"
  using assms
proof (induction src arbitrary: acc l)
  case Nil
  then show ?case by (simp add: carries_def)
next
  case (Cons x src)
  from Cons.prems(1) obtain c q where c: "x = Inr c" "c \<noteq> []" "l @ NL # r = c @ q" "carries src q"
    by (rule carries_cases) auto
  consider m where "c = l @ NL # m" "r = m @ q" | m where "l = c @ m" "q = m @ NL # r"
    using c(3) by (auto simp: append_eq_append_conv2 Cons_eq_append_conv append_eq_Cons_conv)
  then show ?case
  proof cases
    case 1
    then have "split_once [NL] c = Some (l, m)" using split_once_char Cons.prems(2) by simp
    then show ?thesis using 1 c Cons.prems(3) carries_tail [OF c(4), of m] by (auto simp del: carries_tail)
  next
    case 2
    then have "split_once [NL] c = None" using Cons.prems(2) by (simp add: split_once_char_notin)
    moreover have "\<exists>src'. read_line_loop limit (acc @ c) src = (Inr (Some ((acc @ c) @ m)), src') \<and> carries src' r"
      using Cons.prems 2 c(4) by (intro Cons.IH) auto
    ultimately show ?thesis using c(1,2) 2 Cons.prems(3) by auto
  qed
qed

lemma read_exact_chunk:
  "n > 0 \<Longrightarrow> b \<noteq> [] \<Longrightarrow> read_exact n acc (Inr b # src) =
     (if length b \<le> n then read_exact (n - length b) (acc @ b) src else (Inr (acc @ take n b), Inr (drop n b) # src))"
  by (cases n) simp_all

lemma read_exact_carries:
  assumes "carries src (a @ r)"
  shows "\<exists>src'. read_exact (length a) acc src = (Inr (acc @ a), src') \<and> carries src' r"
  using assms
proof (induction src arbitrary: a acc)
  case Nil
  then show ?case by (simp add: carries_def)
next
  case (Cons x src)
  from Cons.prems obtain c q where c: "x = Inr c" "c \<noteq> []" "a @ r = c @ q" "carries src q"
    by (rule carries_cases) auto
  show ?case
  proof (cases "a = []")
    case True
    then show ?thesis using Cons.prems by simp
  next
    case False
    then have n: "length a > 0" by simp
    consider m where "a = c @ m" "q = m @ r" | m where "c = a @ m" "r = m @ q" "m \<noteq> []"
      using c(3) by (auto simp: append_eq_append_conv2) blast
    then show ?thesis
    proof cases
      case 1
      have "\<exists>src'. read_exact (length m) (acc @ c) src = (Inr ((acc @ c) @ m), src') \<and> carries src' r"
        using c(4) 1 by (intro Cons.IH) simp
      then show ?thesis using c(1,2) 1 n by (simp add: read_exact_chunk)
    next
      case 2
      then show ?thesis using c(1,2,4) n carries_Cons [of m src q] by (simp add: read_exact_chunk)
    qed
  qed
qed

section \<open>Round trips\<close>

lemma parse_nat_str: "n < 2 ^ 64 \<Longrightarrow> parse_usize (nat_str n) = Some n"
proof -
  assume n: "n < 2 ^ 64"
  obtain c cs where s: "nat_str n = c # cs" using nat_str_digits(2) by (cases "nat_str n") auto
  then have "c \<noteq> CHR ''+''" using nat_str_digits(1) [of n] by (auto simp: is_ascii_digit_def)
  then show ?thesis using n s nat_str_digits(1) [of n] nat_str_value [of n] by (simp add: parse_usize_def)
qed

text \<open>A body that its framing can carry.\<close>

definition sendable :: "framing \<Rightarrow> nat \<Rightarrow> string \<Rightarrow> bool" where
  "sendable f limit body \<longleftrightarrow> length body \<le> limit \<and>
     (case f of
        Newline \<Rightarrow> NL \<notin> set body \<and> \<not> (\<forall>c \<in> set body. is_ascii_whitespace c) \<and> last body \<noteq> CR
      | ContentLength \<Rightarrow> length body < 2 ^ 64)"

lemma read_line_frame_encoded:
  assumes "carries src (encode Newline body @ more_bytes)" "sendable Newline limit body"
  shows "\<exists>src'. read_line_frame limit src = (Inr (Some body), src') \<and> carries src' more_bytes"
proof -
  have "\<exists>src'. read_line_loop limit [] src = (Inr (Some ([] @ body)), src') \<and> carries src' more_bytes"
    using assms by (intro read_line_carries) (simp_all add: encode_def sendable_def)
  moreover have "pop_cr body = body" using assms(2) by (simp add: pop_cr_def sendable_def)
  ultimately show ?thesis using assms(2)
    by (auto simp: read_line_frame.simps [of limit src] read_line_def sendable_def)
qed

lemma trim_space: "printable c \<Longrightarrow> trim (SPACE # c # s) = trim (c # s)"
  by (simp add: trim_def trim_start_def printable_def is_continuation_def is_whitespace_def)

lemma digit_printable: "is_ascii_digit c \<Longrightarrow> printable c"
  by (simp add: is_ascii_digit_def printable_def)

lemma trim_nat_str: "trim (SPACE # nat_str n) = nat_str n"
proof -
  obtain c cs where s: "nat_str n = c # cs" using nat_str_digits(2) by (cases "nat_str n") auto
  then have "trim (nat_str n) = nat_str n"
    using nat_str_digits(1) [of n] digit_printable by (intro all_printable_trim) auto
  then show ?thesis using s nat_str_digits(1) [of n] digit_printable trim_space by auto
qed

lemma header_field:
  "from_utf8_lossy (''Content-Length: '' @ nat_str n) = ''Content-Length: '' @ nat_str n"
  "split_once '':'' (''Content-Length: '' @ nat_str n) = Some (''Content-Length'', SPACE # nat_str n)"
  "eq_ignore_ascii_case (trim ''Content-Length'') ''content-length''"
proof -
  show "from_utf8_lossy (''Content-Length: '' @ nat_str n) = ''Content-Length: '' @ nat_str n"
    using nat_str_digits(1) [of n] by (intro from_utf8_lossy_all_ascii) (auto simp: is_ascii_digit_def)
  show "split_once '':'' (''Content-Length: '' @ nat_str n) = Some (''Content-Length'', SPACE # nat_str n)"
    using split_once_char [of "CHR '':''" "''Content-Length''" "SPACE # nat_str n"] by simp
  have "trim ''Content-Length'' = ''Content-Length''" by (rule all_printable_trim) (simp add: printable_def)
  then show "eq_ignore_ascii_case (trim ''Content-Length'') ''content-length''"
    by (simp add: eq_ignore_ascii_case_def) code_simp
qed

text \<open>The header line and the blank line of an encoded frame.\<close>

lemma header_line_read:
  assumes "carries src (''Content-Length: '' @ nat_str n @ CR # NL # r)" "n < 2 ^ 64"
  obtains s1 where "read_headers None False src = read_headers (Some n) True s1" "carries s1 r"
proof -
  let ?h = "''Content-Length: '' @ nat_str n"
  have "n < 10 ^ 20" using assms(2) by simp
  then have len: "length (nat_str n) \<le> 20" by (rule nat_str_length) simp
  have nl: "NL \<notin> set ?h" "CR \<notin> set ?h" using nat_str_digits(1) [of n] by (auto simp: is_ascii_digit_def)
  have "carries src ((?h @ [CR]) @ NL # r)" using assms(1) by simp
  then have "\<exists>s1. read_line_loop MAX_HEADER_LINE [] src = (Inr (Some ([] @ ?h @ [CR])), s1) \<and> carries s1 r"
    using nl len by (intro read_line_carries) (simp_all add: MAX_HEADER_LINE_def)
  then obtain s1 where s1: "read_line MAX_HEADER_LINE src = (Inr (Some (?h @ [CR])), s1)" "carries s1 r"
    by (auto simp: read_line_def)
  have "pop_cr (?h @ [CR]) = ?h" by (simp add: pop_cr_def)
  then have "read_headers None False src = read_headers (Some n) True s1"
    using s1(1) header_field(1,2) [of n] header_field(3) parse_nat_str [OF assms(2)] trim_nat_str [of n]
    by (simp add: read_headers.simps [of None False src] Let_def)
  then show thesis using s1(2) that by blast
qed

lemma blank_line_read:
  assumes "carries s1 (CR # NL # r)"
  obtains s2 where "read_headers len True s1 = (Inr (Some len), s2)" "carries s2 r"
proof -
  have "\<exists>s2. read_line_loop MAX_HEADER_LINE [] s1 = (Inr (Some ([] @ [CR])), s2) \<and> carries s2 r"
    using assms by (intro read_line_carries) (simp_all add: MAX_HEADER_LINE_def)
  then show thesis using that by (auto simp: read_headers.simps [of len True s1] read_line_def pop_cr_def)
qed

lemma read_length_frame_encoded:
  assumes "carries src (encode ContentLength body @ more_bytes)" "sendable ContentLength limit body"
  shows "\<exists>src'. read_length_frame limit src = (Inr (Some body), src') \<and> carries src' more_bytes"
proof -
  let ?n = "length body"
  have n: "?n < 2 ^ 64" "?n \<le> limit" using assms(2) by (simp_all add: sendable_def)
  have "carries src (''Content-Length: '' @ nat_str ?n @ CR # NL # CR # NL # body @ more_bytes)"
    using assms(1) by (simp add: encode_def)
  then obtain s1 where s1: "read_headers None False src = read_headers (Some ?n) True s1"
    "carries s1 (CR # NL # body @ more_bytes)" using header_line_read n(1) by blast
  then obtain s2 where s2: "read_headers (Some ?n) True s1 = (Inr (Some (Some ?n)), s2)" "carries s2 (body @ more_bytes)"
    using blank_line_read by blast
  obtain s3 where "read_exact ?n [] s2 = (Inr body, s3)" "carries s3 more_bytes"
    using read_exact_carries [OF s2(2), of "[]"] by auto
  then show ?thesis using s1(1) s2(1) n(2) by (simp add: read_length_frame_def)
qed

lemma read_frame_encoded:
  assumes "carries src (encode f body @ more_bytes)" "sendable f limit body"
  shows "\<exists>src'. read_frame f limit src = (Inr (Some body), src') \<and> carries src' more_bytes"
  using assms read_line_frame_encoded read_length_frame_encoded by (cases f) (simp_all add: read_frame_def)

text \<open>At most \<open>k\<close> frames of a source.\<close>

fun read_frames :: "framing \<Rightarrow> nat \<Rightarrow> nat \<Rightarrow> byte_source \<Rightarrow> string list \<times> (integration_error + string option)" where
  "read_frames f limit 0 src = ([], Inr None)"
| "read_frames f limit (Suc k) src =
     (case read_frame f limit src of
        (Inr (Some b), src') \<Rightarrow> (case read_frames f limit k src' of (bs, last_result) \<Rightarrow> (b # bs, last_result))
      | (r, _) \<Rightarrow> ([], r))"

lemma read_frame_end: "read_frame f limit [] = (Inr None, [])"
  by (cases f) (simp_all add: read_frame_def read_line_frame.simps read_length_frame_def read_headers.simps read_line_def)

lemma read_frames_encoded:
  assumes "carries src (concat (map (encode f) bodies))" "\<forall>b \<in> set bodies. sendable f limit b"
  shows "read_frames f limit (Suc (length bodies)) src = (bodies, Inr None)"
  using assms
proof (induction bodies arbitrary: src)
  case Nil
  then show ?case by (simp add: carries_Nil read_frame_end)
next
  case (Cons b bodies)
  then obtain src' where "read_frame f limit src = (Inr (Some b), src')" "carries src' (concat (map (encode f) bodies))"
    using read_frame_encoded [of src f b "concat (map (encode f) bodies)" limit] by auto
  then show ?case using Cons by simp
qed

section \<open>Bounds\<close>

lemma read_line_bound: "read_line_loop limit acc src = (Inr (Some l), src') \<Longrightarrow> length acc \<le> limit \<Longrightarrow> length l \<le> limit"
  by (induction limit acc src rule: read_line_loop.induct) (auto split: if_splits option.splits prod.splits)

lemma read_exact_length: "read_exact n acc src = (Inr b, src') \<Longrightarrow> length b = length acc + n"
  by (induction n acc src rule: read_exact.induct) (auto split: if_splits)

lemma read_line_frame_bound: "read_line_frame limit src = (Inr (Some b), src') \<Longrightarrow> length b \<le> limit"
proof (induction limit src rule: read_line_frame.induct)
  case (1 limit src)
  obtain r s where r: "read_line limit src = (r, s)" by fastforce
  then obtain l where l: "r = Inr (Some l)" using "1.prems" by (simp add: read_line_frame.simps [of limit src]) (cases r; auto split: option.splits)
  have "length l \<le> limit" using r l read_line_bound [of limit "[]" src l s] by (simp add: read_line_def)
  then have "length (pop_cr l) \<le> limit" by (simp add: pop_cr_def) linarith
  then show ?case using "1.IH" [OF r [symmetric] l] r l "1.prems" by (simp add: read_line_frame.simps [of limit src] split: if_splits)
qed

lemma read_frame_bound: "read_frame f limit src = (Inr (Some b), src') \<Longrightarrow> length b \<le> limit"
  by (cases f) (auto simp: read_frame_def read_line_frame_bound read_length_frame_def
     split: prod.splits sum.splits option.splits if_splits dest!: read_exact_length)

section \<open>Streams that end early\<close>

lemma read_line_unterminated:
  assumes "carries src b" "NL \<notin> set b"
  shows "read_line_loop limit acc src = (Inr (if acc @ b \<noteq> [] then Some (acc @ b) else None), []) \<or>
    (\<exists>e src'. read_line_loop limit acc src = (Inl e, src'))"
  using assms
proof (induction src arbitrary: acc b)
  case Nil
  then show ?case by (auto simp: carries_def)
next
  case (Cons x src)
  from Cons.prems(1) obtain c q where c: "x = Inr c" "c \<noteq> []" "b = c @ q" "carries src q"
    by (rule carries_cases) auto
  then show ?case using Cons.IH [of q "acc @ c"] Cons.prems(2) by (simp add: split_once_char_notin)
qed

lemma read_headers_end: "read_headers len True [] = (Inl (Disconnected ''the stream ended inside a message header''), [])"
  by (simp add: read_headers.simps [of len True] read_line_def)

text \<open>A header line that the stream does not terminate ends in an error.\<close>

lemma read_headers_unterminated:
  assumes "carries src b" "NL \<notin> set b" "b \<noteq> []" "b \<noteq> [CR]"
  shows "\<exists>e src'. read_headers None False src = (Inl e, src')"
proof -
  have b: "pop_cr b \<noteq> []" using assms(3,4) by (cases b rule: rev_cases) (auto simp: pop_cr_def)
  consider (last_line) "read_line MAX_HEADER_LINE src = (Inr (Some b), [])"
    | (failed) e src' where "read_line MAX_HEADER_LINE src = (Inl e, src')"
    using read_line_unterminated [OF assms(1,2), of MAX_HEADER_LINE "[]"] assms(3) by (auto simp: read_line_def)
  then show ?thesis
  proof cases
    case last_line
    then show ?thesis using b
      by (auto simp: read_headers.simps [of None False src] Let_def read_headers_end split: option.split)
  qed (simp add: read_headers.simps [of None False src])
qed

lemma read_exact_short:
  assumes "carries src b" "length b < n"
  shows "\<exists>e src'. read_exact n acc src = (Inl e, src')"
  using assms
proof (induction src arbitrary: acc b n)
  case Nil
  then show ?case by (cases n) auto
next
  case (Cons x src)
  from Cons.prems(1) obtain c q where c: "x = Inr c" "c \<noteq> []" "b = c @ q" "carries src q"
    by (rule carries_cases) auto
  then show ?case using Cons.IH [of q "n - length c" "acc @ c"] Cons.prems(2) by (simp add: read_exact_chunk)
qed

text \<open>A proper prefix ends in the header line, in the blank line or in the body.\<close>

lemma frame_prefix_cases:
  fixes b :: string
  assumes "prefix b (h @ CR # NL # CR # NL # body)" "b \<noteq> h @ CR # NL # CR # NL # body"
  obtains (header) "prefix b (h @ [CR])" | (blank) c where "b = h @ CR # NL # c" "c \<in> {[], [CR]}"
    | (body) c where "b = h @ CR # NL # CR # NL # c" "length c < length body"
proof (cases "prefix b (h @ [CR])")
  case False
  moreover have "prefix (h @ [CR]) (h @ CR # NL # CR # NL # body)" by simp
  ultimately have "prefix (h @ [CR]) b" using prefix_same_cases [OF assms(1)] by blast
  then obtain r where r: "b = (h @ [CR]) @ r" by (rule prefixE)
  then have p: "prefix r (NL # CR # NL # body)" "r \<noteq> NL # CR # NL # body" using assms by simp_all
  have "r \<noteq> []" using False r by auto
  then obtain t where t: "r = NL # t" "prefix t (CR # NL # body)" using p(1) by (cases r) auto
  show thesis
  proof (cases "t \<in> {[], [CR]}")
    case True
    then show thesis using that(2) [of t] r t(1) by simp
  next
    case f: False
    then obtain c where "t = CR # NL # c" "prefix c body" "c \<noteq> body"
      using t p(2) by (cases t; cases "tl t") auto
    then show thesis using that(3) [of c] r t(1)
      by (metis append.assoc append_Cons append_Nil le_neq_implies_less not_equal_is_parallel parallelD1 prefix_length_le prefix_order.antisym prefix_length_prefix le_refl)
  qed
qed (use that in blast)

lemma read_length_frame_truncated:
  assumes "carries src b" "b \<noteq> []" "prefix b (encode ContentLength body)" "b \<noteq> encode ContentLength body"
    "body \<noteq> []" "length body < 2 ^ 64"
  shows "\<exists>e src'. read_length_frame limit src = (Inl e, src')"
proof -
  let ?h = "''Content-Length: '' @ nat_str (length body)"
  have p: "prefix b (?h @ CR # NL # CR # NL # body)" "b \<noteq> ?h @ CR # NL # CR # NL # body"
    using assms(3,4) by (simp_all add: encode_def)
  have nl: "NL \<notin> set ?h" "CR \<notin> set ?h" using nat_str_digits(1) [of "length body"] by (auto simp: is_ascii_digit_def)
  from p show ?thesis
  proof (cases rule: frame_prefix_cases)
    case header
    then have "NL \<notin> set b" "b \<noteq> [CR]" using nl set_mono_prefix [OF header] by auto
    then show ?thesis using read_headers_unterminated [OF assms(1)] assms(2) by (fastforce simp: read_length_frame_def)
  next
    case (blank c)
    then obtain s1 where s1: "read_headers None False src = read_headers (Some (length body)) True s1" "carries s1 c"
      using assms(1,6) header_line_read [of src "length body" c] by auto
    have "read_line MAX_HEADER_LINE s1 = (Inr (if c = [] then None else Some [CR]), []) \<or> (\<exists>e src'. read_line MAX_HEADER_LINE s1 = (Inl e, src'))"
      using read_line_unterminated [OF s1(2), of MAX_HEADER_LINE "[]"] blank(2) by (auto simp: read_line_def)
    then show ?thesis using s1(1) blank(2) read_exact_short [of "[]" "[]" "length body" "[]"] assms(5)
      by (auto simp: read_length_frame_def read_headers.simps [of _ True s1] pop_cr_def carries_Nil split: prod.split)
  next
    case (body c)
    then obtain s1 where s1: "read_headers None False src = read_headers (Some (length body)) True s1"
      "carries s1 (CR # NL # c)" using assms(1,6) header_line_read [of src "length body" "CR # NL # c"] by auto
    obtain s2 where "read_headers (Some (length body)) True s1 = (Inr (Some (Some (length body))), s2)" "carries s2 c"
      using blank_line_read [OF s1(2)] by blast
    then show ?thesis using s1(1) read_exact_short [of s2 c "length body" "[]"] body(2)
      by (auto simp: read_length_frame_def split: prod.split)
  qed
qed

section \<open>Properties\<close>

text \<open>
  C26. Every sequence of messages that the framing can carry is read back unchanged, however the stream cuts its bytes into
  reads, and then the reader reports the end of the stream.
\<close>

theorem frames_round_trip:
  assumes "carries src (concat (map (encode f) bodies))" "\<forall>b \<in> set bodies. sendable f limit b"
  shows "read_frames f limit (Suc (length bodies)) src = (bodies, Inr None)"
  using assms by (rule read_frames_encoded)

theorem frames_round_trip_witness:
  "read_frames Newline 8 3 [Inr ''{'', Inr (''}'' @ [NL] @ ''[1''), Inr ('']'' @ [NL])] = ([''{}'', ''[1]''], Inr None)"
proof -
  let ?cs = "[''{'', ''}'' @ [NL] @ ''[1'', '']'' @ [NL]]"
  have "carries (map Inr ?cs) (concat (map (encode Newline) [''{}'', ''[1]'']))"
    unfolding carries_def by (intro exI [of _ ?cs]) (simp add: encode_def)
  moreover have "\<forall>b \<in> set [''{}'', ''[1]'']. sendable Newline 8 b" by (simp add: sendable_def is_ascii_whitespace_def)
  ultimately show ?thesis using frames_round_trip [of "map Inr ?cs" Newline "[''{}'', ''[1]'']" 8] by (simp add: numeral_eq_Suc)
qed

text \<open>
  No frame is larger than the reader's limit, whatever the server sends.
\<close>

theorem frames_stay_within_the_limit:
  assumes "read_frame f limit src = (Inr (Some body), src')"
  shows "length body \<le> limit"
  using assms by (rule read_frame_bound)

theorem frames_stay_within_the_limit_witness: "length ''[1]'' \<le> (3::nat)"
proof (rule frames_stay_within_the_limit)
  show "read_frame Newline 3 [Inr (''[1]'' @ [NL])] = (Inr (Some ''[1]''), [])"
    by code_simp
qed

text \<open>
  A stream that ends inside a \<open>Content-Length\<close> frame gives an error, never a shorter message and never a clean end.
\<close>

theorem truncated_frames_are_errors:
  assumes "carries src b" "b \<noteq> []" "prefix b (encode ContentLength body)" "b \<noteq> encode ContentLength body"
    "body \<noteq> []" "length body < 2 ^ 64"
  shows "\<exists>e src'. read_frame ContentLength limit src = (Inl e, src')"
  using read_length_frame_truncated [OF assms] by (simp add: read_frame_def)

theorem truncated_frames_are_errors_witness:
  "\<exists>e src'. read_frame ContentLength 9 [Inr (''Content-Length: 2'' @ [CR, NL, CR, NL]), Inr ''{''] = (Inl e, src')"
proof (rule truncated_frames_are_errors [where body = "''{}''"])
  let ?cs = "[''Content-Length: 2'' @ [CR, NL, CR, NL], ''{'']"
  show "carries [Inr (''Content-Length: 2'' @ [CR, NL, CR, NL]), Inr ''{''] (concat ?cs)"
    unfolding carries_def by (intro exI [of _ ?cs]) simp
  have "encode ContentLength ''{}'' = concat ?cs @ ''}''" by code_simp
  then show "prefix (concat ?cs) (encode ContentLength ''{}'')" "concat ?cs \<noteq> encode ContentLength ''{}''" by simp_all
qed simp_all

end
