(* ===== verification/Edit.thy ===== *)
theory Edit
  imports Prelude
begin

text \<open>
  \<open>crates/z-engine-tools/src/edit\<close>: replacing text in a file, first exactly (\<open>engine.rs\<close>) and then by the fallback
  ladder (\<open>ladder.rs\<close>), with the numbering of lines in messages (\<open>text/numbering.rs\<close>).

  The ladder compares similarities, which are \<open>f64\<close> numbers computed by the crate \<open>strsim\<close>: the record
  \<open>f64_lib\<close> holds the float operations the code uses and \<open>similarity\<close> is
  \<open>strsim::normalized_levenshtein\<close>.
\<close>

section \<open>Rust strings\<close>

text \<open>\<open>str::split(&str)\<close> at the occurrences that do not overlap, from left to right; the separator is not empty.\<close>

function split_str :: "string \<Rightarrow> string \<Rightarrow> string list" where
  "split_str d s = (case split_once d s of Some (a, b) \<Rightarrow> if d = [] then [s] else a # split_str d b | None \<Rightarrow> [s])"
  by pat_completeness auto
termination
  by (relation "measure (length \<circ> snd)") (auto dest: split_once_length)

declare split_str.simps [simp del]

definition matches_count :: "string \<Rightarrow> string \<Rightarrow> nat" where
  "matches_count d s = length (split_str d s) - 1"

definition str_replace :: "string \<Rightarrow> string \<Rightarrow> string \<Rightarrow> string" where
  "str_replace d t s = join_with t (split_str d s)"

definition replace_first :: "string \<Rightarrow> string \<Rightarrow> string \<Rightarrow> string" where
  "replace_first d t s = (case split_once d s of Some (a, b) \<Rightarrow> a @ t @ b | None \<Rightarrow> s)"

fun split_inclusive :: "char \<Rightarrow> string \<Rightarrow> string list" where
  "split_inclusive d [] = []"
| "split_inclusive d (c # cs) =
     (if c = d then [c] # split_inclusive d cs
      else (case split_inclusive d cs of [] \<Rightarrow> [[c]] | p # ps \<Rightarrow> (c # p) # ps))"

definition strip_break :: "string \<Rightarrow> string" where
  "strip_break p = (case strip_suffix [NL] p of
     None \<Rightarrow> p
   | Some l \<Rightarrow> (case strip_suffix [CR] l of None \<Rightarrow> l | Some l' \<Rightarrow> l'))"

definition str_lines :: "string \<Rightarrow> string list" where
  "str_lines s = map strip_break (split_inclusive NL s)"

function white_fields :: "string list \<Rightarrow> string list" where
  "white_fields [] = []"
| "white_fields (u # us) =
     (if is_whitespace u then white_fields us
      else concat (takeWhile (\<lambda>v. \<not> is_whitespace v) (u # us)) # white_fields (dropWhile (\<lambda>v. \<not> is_whitespace v) us))"
  by pat_completeness auto
termination
  by (relation "measure length") (auto simp: le_imp_less_Suc length_dropWhile_le)

definition split_whitespace :: "string \<Rightarrow> string list" where
  "split_whitespace s = white_fields (uchars s)"

abbreviation char_count :: "string \<Rightarrow> nat" where "char_count s \<equiv> length (uchars s)"

section \<open>Numbered lines (numbering.rs)\<close>

definition cut_line :: "string \<Rightarrow> nat \<Rightarrow> (string \<times> nat) option" where
  "cut_line line max_chars =
     (let us = uchars line in
      if max_chars < length us then Some (concat (take max_chars us), length (drop max_chars us)) else None)"

definition push_numbered :: "string \<Rightarrow> nat \<Rightarrow> string \<Rightarrow> nat \<Rightarrow> string" where
  "push_numbered out number line max_chars =
     out @ replicate (6 - length (nat_str number)) SPACE @ nat_str number @ [TAB] @
     (case cut_line line max_chars of
        Some (kept, omitted) \<Rightarrow> kept @ ''... [line truncated: '' @ nat_str omitted @ '' more characters]''
      | None \<Rightarrow> line) @ [NL]"

primrec numbered_from :: "string \<Rightarrow> nat \<Rightarrow> nat \<Rightarrow> string list \<Rightarrow> string" where
  "numbered_from out number max_chars [] = out"
| "numbered_from out number max_chars (line # ls) = numbered_from (push_numbered out number line max_chars) (Suc number) max_chars ls"

definition numbered :: "string list \<Rightarrow> nat \<Rightarrow> nat \<Rightarrow> string" where
  "numbered ls first max_chars = numbered_from [] first max_chars ls"

section \<open>The fallback ladder (ladder.rs)\<close>

record 'f f64_lib =
  f64_of :: "nat \<Rightarrow> 'f"
  f64_lit :: "nat \<Rightarrow> nat \<Rightarrow> 'f"
  f64_sub :: "'f \<Rightarrow> 'f \<Rightarrow> 'f"
  f64_div :: "'f \<Rightarrow> 'f \<Rightarrow> 'f"
  f64_lt :: "'f \<Rightarrow> 'f \<Rightarrow> bool"
  f64_ge :: "'f \<Rightarrow> 'f \<Rightarrow> bool"
  f64_total_lt :: "'f \<Rightarrow> 'f \<Rightarrow> bool"
  f64_fixed2 :: "'f \<Rightarrow> string"
  similarity :: "string \<Rightarrow> string \<Rightarrow> 'f"

text \<open>\<open>f64_lit m k\<close> is the literal of the decimal number \<open>m / 10 ^ k\<close>.\<close>

definition FUZZY_THRESHOLD :: "'f f64_lib \<Rightarrow> 'f" where "FUZZY_THRESHOLD F = f64_lit F 9 1"
definition HINT_THRESHOLD :: "'f f64_lib \<Rightarrow> 'f" where "HINT_THRESHOLD F = f64_lit F 6 1"
definition FUZZY_MIN_CHARS :: nat where "FUZZY_MIN_CHARS = 12"
definition FUZZY_BUDGET :: nat where "FUZZY_BUDGET = 150000000"

datatype 'f rung = Whitespace | Fuzzy 'f

record 'f region =
  reg_start :: nat
  reg_len :: nat
  reg_rung :: "'f rung"
  reg_indent :: "string option"

datatype 'f miss = Ambiguous nat "'f rung" | NotFound "(nat \<times> nat \<times> 'f) option"

definition normalize_line :: "string \<Rightarrow> string" where
  "normalize_line line = join_with [SPACE] (split_whitespace line)"

definition leading_ws :: "string \<Rightarrow> string" where
  "leading_ws line = take (length line - length (trim_start line)) line"

fun indent_loop :: "string option \<Rightarrow> (string \<times> string) list \<Rightarrow> string option" where
  "indent_loop delta [] = Option.bind delta (\<lambda>extra. if extra \<noteq> [] then Some extra else None)"
| "indent_loop delta ((file_line, old_line) # ps) =
     (if trim file_line = [] \<or> trim old_line = [] then indent_loop delta ps
      else (case strip_suffix (leading_ws old_line) (leading_ws file_line) of
        None \<Rightarrow> None
      | Some extra \<Rightarrow> if delta \<noteq> None \<and> delta \<noteq> Some extra then None else indent_loop (Some extra) ps))"

definition indent_delta :: "string list \<Rightarrow> string list \<Rightarrow> string option" where
  "indent_delta file old = indent_loop None (zip file old)"

definition reindent :: "string \<Rightarrow> string option \<Rightarrow> string" where
  "reindent new indent = (case indent of
     None \<Rightarrow> new
   | Some i \<Rightarrow> concat (map (\<lambda>line. if trim line = [] then line else i @ line) (split_inclusive NL new)))"

abbreviation window :: "nat \<Rightarrow> nat \<Rightarrow> 'a list \<Rightarrow> 'a list" where
  "window start k xs \<equiv> take k (drop start xs)"

abbreviation abs_diff :: "nat \<Rightarrow> nat \<Rightarrow> nat" where
  "abs_diff a b \<equiv> (a - b) + (b - a)"

text \<open>
  The loop over the windows of \<open>k\<close> lines: the windows similar enough and the closest one, or \<open>None\<close> when the
  budget is spent.
\<close>

primrec fuzzy_scan ::
  "'f f64_lib \<Rightarrow> string list \<Rightarrow> nat \<Rightarrow> string \<Rightarrow> nat list \<Rightarrow> (nat \<times> 'f) list \<Rightarrow> (nat \<times> 'f) option \<Rightarrow> nat \<Rightarrow>
   ((nat \<times> 'f) list \<times> (nat \<times> 'f) option) option" where
  "fuzzy_scan F norm_file k target [] candidates closest spent = Some (candidates, closest)"
| "fuzzy_scan F norm_file k target (start # starts) candidates closest spent =
     (let target_len = char_count target;
          window_len = sum_list (map (\<lambda>line. char_count line) (window start k norm_file)) + (k - 1);
          longest = max (max window_len target_len) 1;
          ceiling = f64_sub F (f64_lit F 1 0) (f64_div F (f64_of F (abs_diff window_len target_len)) (f64_of F longest)) in
      if f64_lt F ceiling (HINT_THRESHOLD F) then fuzzy_scan F norm_file k target starts candidates closest spent
      else if spent + window_len * target_len > FUZZY_BUDGET then None
      else let score = similarity F (join_with [NL] (window start k norm_file)) target in
        fuzzy_scan F norm_file k target starts
          (if f64_ge F score (FUZZY_THRESHOLD F) then candidates @ [(start, score)] else candidates)
          (if (case closest of None \<Rightarrow> True | Some (_, best) \<Rightarrow> f64_lt F best score) then Some (start, score) else closest)
          (spent + window_len * target_len))"

text \<open>\<open>max_by\<close> on the score and then the smaller start.\<close>

definition candidate_le :: "'f f64_lib \<Rightarrow> nat \<times> 'f \<Rightarrow> nat \<times> 'f \<Rightarrow> bool" where
  "candidate_le F a b \<longleftrightarrow>
     f64_total_lt F (snd a) (snd b) \<or> (\<not> f64_total_lt F (snd b) (snd a) \<and> fst b \<le> fst a)"

fun best_candidate :: "'f f64_lib \<Rightarrow> (nat \<times> 'f) list \<Rightarrow> (nat \<times> 'f) option" where
  "best_candidate F [] = None"
| "best_candidate F (c # cs) = Some (foldl (\<lambda>m y. if candidate_le F m y then y else m) c cs)"

text \<open>The loop that counts the other places as clusters of overlapping windows.\<close>

primrec count_places :: "nat \<Rightarrow> nat \<Rightarrow> nat option \<Rightarrow> nat list \<Rightarrow> nat" where
  "count_places k separate cluster [] = separate"
| "count_places k separate cluster (start # starts) =
     (if (case cluster of None \<Rightarrow> True | Some first \<Rightarrow> k \<le> start - first)
      then count_places k (Suc separate) (Some start) starts
      else count_places k separate cluster starts)"

definition fuzzy ::
  "'f f64_lib \<Rightarrow> string list \<Rightarrow> string list \<Rightarrow> string list \<Rightarrow> string list \<Rightarrow> 'f miss + 'f region" where
  "fuzzy F norm_file norm_old file_lines old_lines =
     (let k = length norm_old; target = join_with [NL] norm_old in
      case fuzzy_scan F norm_file k target [0..<Suc (length norm_file - k)] [] None 0 of
        None \<Rightarrow> Inl (NotFound None)
      | Some (candidates, closest) \<Rightarrow>
          let hint = Option.bind closest (\<lambda>(start, score). if f64_ge F score (HINT_THRESHOLD F) then Some (start, k, score) else None) in
          if char_count target < FUZZY_MIN_CHARS then Inl (NotFound hint)
          else (case best_candidate F candidates of
            None \<Rightarrow> Inl (NotFound hint)
          | Some (best, score) \<Rightarrow>
              let separate = count_places k 1 None (filter (\<lambda>s. k \<le> abs_diff s best) (map fst candidates)) in
              if separate > 1 then Inl (Ambiguous separate (Fuzzy score))
              else Inr \<lparr>reg_start = best, reg_len = k, reg_rung = Fuzzy score,
                reg_indent = indent_delta (window best k file_lines) old_lines\<rparr>))"

definition locate :: "'f f64_lib \<Rightarrow> string list \<Rightarrow> string \<Rightarrow> 'f miss + 'f region" where
  "locate F file_lines old =
     (let old_lines = split_on NL (case strip_suffix [NL] old of Some o' \<Rightarrow> o' | None \<Rightarrow> old);
          k = length old_lines in
      if length file_lines < k then Inl (NotFound None)
      else let norm_old = map normalize_line old_lines; norm_file = map normalize_line file_lines in
        (if \<exists>line \<in> set norm_old. line \<noteq> []
         then (case filter (\<lambda>i. window i k norm_file = norm_old) [0..<Suc (length file_lines - k)] of
             [start] \<Rightarrow> Inr \<lparr>reg_start = start, reg_len = k, reg_rung = Whitespace,
               reg_indent = indent_delta (window start k file_lines) old_lines\<rparr>
           | [] \<Rightarrow> fuzzy F norm_file norm_old file_lines old_lines
           | many \<Rightarrow> Inl (Ambiguous (length many) Whitespace))
         else fuzzy F norm_file norm_old file_lines old_lines))"

section \<open>Applying edits (engine.rs)\<close>

definition HINT_MAX_LINES :: nat where "HINT_MAX_LINES = 20"
definition HINT_LINE_CHARS :: nat where "HINT_LINE_CHARS = 300"

record edit_spec =
  es_old :: string
  es_new :: string
  es_replace_all :: bool

datatype 'f match_kind = Exact | Ladder "'f rung" nat nat | Created

record 'f edit_report =
  replacements :: nat
  er_kind :: "'f match_kind"

record 'f applied =
  ap_content :: string
  ap_reports :: "'f edit_report list"

record edit_failure =
  ef_index :: nat
  ef_message :: string

definition created :: "'f edit_report" where "created = \<lparr>replacements = 1, er_kind = Created\<rparr>"

definition rung_label :: "'f f64_lib \<Rightarrow> 'f rung \<Rightarrow> string" where
  "rung_label F rung = (case rung of
     Whitespace \<Rightarrow> ''after normalizing whitespace''
   | Fuzzy score \<Rightarrow> ''approximately (similarity '' @ f64_fixed2 F score @ '')'')"

definition miss_message :: "'f f64_lib \<Rightarrow> string list \<Rightarrow> 'f miss \<Rightarrow> string" where
  "miss_message F file_lines miss = (case miss of
     Ambiguous count rung \<Rightarrow>
       ''old_string was not found exactly, and '' @ nat_str count @ '' places match it '' @ rung_label F rung @
       ''. Include more surrounding lines so it matches exactly once''
   | NotFound closest \<Rightarrow>
       ''old_string was not found in the file. It must match exactly, including whitespace and indentation, without the line-number prefix Read adds. Read the file again and copy the text exactly'' @
       (case closest of
          None \<Rightarrow> []
        | Some (start, len, score) \<Rightarrow>
            ''.'' @ [NL] @ ''The most similar text is at lines '' @ nat_str (start + 1) @ ''-'' @ nat_str (start + len) @
            '' (similarity '' @ f64_fixed2 F score @ ''):'' @ [NL] @
            numbered (window start (min len HINT_MAX_LINES) file_lines) (start + 1) HINT_LINE_CHARS))"

definition splice :: "string \<Rightarrow> 'f region \<Rightarrow> string \<Rightarrow> string" where
  "splice text region new =
     (let pieces = split_inclusive NL text;
          end = reg_start region + reg_len region;
          covered = window (reg_start region) (reg_len region) pieces;
          ends_with_newline = (covered \<noteq> [] \<and> ends_with [NL] (last covered));
          middle = reindent new (reg_indent region);
          middle = (if ends_with_newline \<and> middle \<noteq> [] \<and> \<not> ends_with [NL] middle then middle @ [NL] else middle)
      in concat (take (reg_start region) pieces) @ middle @ concat (drop end pieces))"

definition replace_region :: "'f f64_lib \<Rightarrow> string \<Rightarrow> string \<Rightarrow> string \<Rightarrow> string + string \<times> 'f edit_report" where
  "replace_region F text old new =
     (let ls = str_lines text in
      case locate F ls old of
        Inl miss \<Rightarrow> Inl (miss_message F ls miss)
      | Inr region \<Rightarrow>
          Inr (splice text region new,
            \<lparr>replacements = 1, er_kind = Ladder (reg_rung region) (reg_start region + 1) (reg_start region + reg_len region)\<rparr>))"

definition replace_text :: "'f f64_lib \<Rightarrow> string \<Rightarrow> string \<Rightarrow> string \<Rightarrow> bool \<Rightarrow> string + string \<times> 'f edit_report" where
  "replace_text F text old new all =
     (let n = matches_count old text in
      if n = 1 then Inr (replace_first old new text, \<lparr>replacements = 1, er_kind = Exact\<rparr>)
      else if n > 1 \<and> all then Inr (str_replace old new text, \<lparr>replacements = n, er_kind = Exact\<rparr>)
      else if n > 1 then Inl (''old_string occurs '' @ nat_str n @ '' times in the file. Set replace_all to replace every occurrence, or include more surrounding lines so it matches exactly once'')
      else replace_region F text old new)"

definition is_crlf :: "string \<Rightarrow> bool" where
  "is_crlf text \<longleftrightarrow> (let breaks = matches_count [NL] text in breaks > 0 \<and> matches_count [CR, NL] text = breaks)"

definition lf :: "string \<Rightarrow> bool \<Rightarrow> string" where
  "lf text crlf = (if crlf then str_replace [CR, NL] [NL] text else text)"

text \<open>The body of the loop of \<open>apply_edits\<close>.\<close>

definition apply_edit :: "'f f64_lib \<Rightarrow> bool \<Rightarrow> nat \<Rightarrow> string option \<Rightarrow> edit_spec \<Rightarrow> string + string \<times> 'f edit_report" where
  "apply_edit F crlf index current edit =
     (let old = lf (es_old edit) crlf; new = lf (es_new edit) crlf in
      if old = new then Inl ''old_string and new_string are identical, so there is nothing to change''
      else (case current of
        None \<Rightarrow>
          if old = [] then Inr (new, created)
          else Inl ''the file does not exist. To create it, use Write, or pass an empty old_string with the new content''
      | Some text \<Rightarrow>
          if old = []
          then if index > 0 \<or> trim text \<noteq> []
            then Inl ''old_string is empty, which only creates a new file or fills an empty one. Give the exact text to replace''
            else Inr (new, created)
          else replace_text F text old new (es_replace_all edit)))"

primrec edits_loop ::
  "'f f64_lib \<Rightarrow> bool \<Rightarrow> nat \<Rightarrow> string option \<Rightarrow> 'f edit_report list \<Rightarrow> edit_spec list \<Rightarrow>
   edit_failure + string option \<times> 'f edit_report list" where
  "edits_loop F crlf index current reports [] = Inr (current, reports)"
| "edits_loop F crlf index current reports (edit # edits) =
     (case apply_edit F crlf index current edit of
        Inl message \<Rightarrow> Inl \<lparr>ef_index = index, ef_message = message\<rparr>
      | Inr (text, report) \<Rightarrow> edits_loop F crlf (Suc index) (Some text) (reports @ [report]) edits)"

definition apply_edits :: "'f f64_lib \<Rightarrow> string option \<Rightarrow> edit_spec list \<Rightarrow> edit_failure + 'f applied" where
  "apply_edits F content edits =
     (let crlf = (case content of None \<Rightarrow> False | Some text \<Rightarrow> is_crlf text) in
      case edits_loop F crlf 0 (map_option (\<lambda>text. lf text crlf) content) [] edits of
        Inl failure \<Rightarrow> Inl failure
      | Inr (current, reports) \<Rightarrow>
          let content = (case current of None \<Rightarrow> [] | Some text \<Rightarrow> text) in
          Inr \<lparr>ap_content = (if crlf then replace_char NL [CR, NL] content else content), ap_reports = reports\<rparr>)"

section \<open>Splitting and joining\<close>

lemma split_str_not_Nil [simp]: "split_str d s \<noteq> []"
  by (subst split_str.simps) (simp split: option.split)

lemma join_with_Cons: "xs \<noteq> [] \<Longrightarrow> join_with d (x # xs) = x @ d @ join_with d xs"
  by (cases xs) simp_all

lemma join_split_str: "join_with d (split_str d s) = s"
proof (induction d s rule: split_str.induct)
  case (1 d s)
  show ?case
  proof (cases "split_once d s")
    case (Some p)
    then obtain a b where p: "split_once d s = Some (a, b)" by (cases p) auto
    then show ?thesis using 1 [OF p refl] split_once_Some [OF p]
      by (subst split_str.simps) (simp add: join_with_Cons)
  qed (subst split_str.simps, simp)
qed

lemma split_once_char_eq: "split_once [d] s = (if d \<in> set s then Some (takeWhile (\<lambda>c. c \<noteq> d) s, tl (dropWhile (\<lambda>c. c \<noteq> d) s)) else None)"
proof (cases "d \<in> set s")
  case True
  then have "dropWhile (\<lambda>c. c \<noteq> d) s = d # tl (dropWhile (\<lambda>c. c \<noteq> d) s)"
    by (induction s) auto
  then have "s = takeWhile (\<lambda>c. c \<noteq> d) s @ d # tl (dropWhile (\<lambda>c. c \<noteq> d) s)"
    by (metis takeWhile_dropWhile_id)
  moreover have "d \<notin> set (takeWhile (\<lambda>c. c \<noteq> d) s)" by (auto dest: set_takeWhileD)
  ultimately show ?thesis using True split_once_char by metis
qed (simp add: split_once_char_notin)

lemma split_str_char: "split_str [d] s = split_on d s"
proof (induction s)
  case Nil
  then show ?case by (subst split_str.simps) (simp add: split_once_char_eq)
next
  case (Cons c s)
  show ?case
  proof (cases "d \<in> set s")
    case True
    have "split_str [d] s = takeWhile (\<lambda>c. c \<noteq> d) s # split_str [d] (tl (dropWhile (\<lambda>c. c \<noteq> d) s))"
      using True by (subst split_str.simps) (simp add: split_once_char_eq)
    then have e: "split_on d s = takeWhile (\<lambda>c. c \<noteq> d) s # split_str [d] (tl (dropWhile (\<lambda>c. c \<noteq> d) s))" using Cons by simp
    show ?thesis using True Cons by (subst split_str.simps) (simp add: split_once_char_eq, simp add: e)
  next
    case False
    then have "split_on d s = [s]" by (rule split_on_notin)
    with Cons False show ?thesis by (subst split_str.simps) (simp add: split_once_char_eq)
  qed
qed

lemma length_split_on: "length (split_on d s) = Suc (count_list s d)"
  by (induction s) (auto split: list.split)

lemma matches_count_char: "matches_count [d] s = count_list s d"
  by (simp add: matches_count_def split_str_char length_split_on)

lemma matches_one:
  assumes "matches_count d s = 1"
  obtains a b where "split_once d s = Some (a, b)" "split_str d s = [a, b]"
proof -
  have l: "length (split_str d s) = 2" using assms by (simp add: matches_count_def)
  then obtain a b where ab: "split_once d s = Some (a, b)" "split_str d s = a # split_str d b"
    using split_str.simps [of d s] by (auto split: option.splits if_splits)
  moreover have "split_str d b = [b]" using l ab(2) join_split_str [of d b] by (auto simp: length_Suc_conv)
  ultimately show thesis using that by simp
qed

lemma replace_first_join: "matches_count d s = 1 \<Longrightarrow> replace_first d t s = join_with t (split_str d s)"
  by (erule matches_one) (simp add: replace_first_def)

lemma concat_split_inclusive: "concat (split_inclusive d s) = s"
  by (induction s) (auto split: list.split)

section \<open>Line breaks\<close>

lemma count_list_join: "xs \<noteq> [] \<Longrightarrow> count_list (join_with d xs) c = sum_list (map (\<lambda>x. count_list x c) xs) + (length xs - 1) * count_list d c"
  by (induction d xs rule: join_with.induct) (auto simp: algebra_simps)

lemma replace_char_append: "replace_char c t (a @ b) = replace_char c t a @ replace_char c t b"
  by (simp add: replace_char_def)

lemma replace_char_notin: "c \<notin> set s \<Longrightarrow> replace_char c t s = s"
  by (induction s) (auto simp: replace_char_def)

lemma replace_char_join: "\<forall>x \<in> set xs. c \<notin> set x \<Longrightarrow> replace_char c t (join_with [c] xs) = join_with t xs"
  by (induction "[c]" xs rule: join_with.induct) (auto simp: replace_char_append replace_char_notin, simp add: replace_char_def)

lemma crlf_pieces:
  assumes "is_crlf text"
  shows "\<forall>x \<in> set (split_str [CR, NL] text). NL \<notin> set x"
proof -
  let ?xs = "split_str [CR, NL] text"
  have "count_list text NL = length ?xs - 1"
    using assms by (simp add: is_crlf_def Let_def matches_count_char) (simp add: matches_count_def)
  moreover have "count_list text NL = sum_list (map (\<lambda>x. count_list x NL) ?xs) + (length ?xs - 1)"
    using count_list_join [of ?xs "[CR, NL]" NL] by (simp add: join_split_str)
  ultimately have "sum_list (map (\<lambda>x. count_list x NL) ?xs) = 0" by simp
  then show ?thesis by (auto simp: count_list_0_iff)
qed

lemma crlf_round_trip: "is_crlf text \<Longrightarrow> replace_char NL [CR, NL] (lf text True) = text"
  by (simp add: lf_def str_replace_def replace_char_join crlf_pieces join_split_str)

lemma split_once_crlf:
  "split_once [CR, NL] (replace_char NL [CR, NL] s) =
     map_option (\<lambda>(a, b). (a, replace_char NL [CR, NL] b)) (split_once [NL] s)"
proof (induction s)
  case (Cons c s)
  have hd: "replace_char NL [CR, NL] s \<noteq> NL # r" for r by (cases s) (auto simp: replace_char_def)
  show ?case
  proof (cases "c = NL")
    case True
    then show ?thesis by (subst (1 2) split_once.simps) (simp add: replace_char_def)
  next
    case False
    then have r: "replace_char NL [CR, NL] (c # s) = c # replace_char NL [CR, NL] s" by (simp add: replace_char_def)
    have "strip_prefix [CR, NL] (c # replace_char NL [CR, NL] s) = None"
      using hd by (cases "replace_char NL [CR, NL] s") (auto simp: strip_prefix_def starts_with_def)
    then show ?thesis unfolding r by (subst (1 2) split_once.simps) (simp add: False False [symmetric] Cons.IH option.map_comp comp_def case_prod_unfold)
  qed
qed (subst (1 2) split_once.simps, simp add: replace_char_def strip_prefix_def starts_with_def)

lemma split_str_crlf: "split_str [CR, NL] (replace_char NL [CR, NL] s) = split_str [NL] s"
proof (induction "[NL]" s rule: split_str.induct)
  case (1 s)
  show ?case
  proof (cases "split_once [NL] s")
    case None
    then have "NL \<notin> set s" by (auto simp: split_once_char_eq split: if_splits)
    then show ?thesis using None split_once_crlf [of s]
      by (subst (1 2) split_str.simps) (simp add: replace_char_notin)
  next
    case (Some p)
    then obtain a b where "split_once [NL] s = Some (a, b)" by (cases p) auto
    then show ?thesis using 1 split_once_crlf [of s] by (subst (1 2) split_str.simps) simp
  qed
qed

section \<open>What the ladder accepts\<close>

definition old_block :: "string \<Rightarrow> string list" where
  "old_block old = map normalize_line (split_on NL (case strip_suffix [NL] old of Some o' \<Rightarrow> o' | None \<Rightarrow> old))"

text \<open>The block of lines at \<open>start\<close> matches the old text on a rung.\<close>

definition rung_matches :: "'f f64_lib \<Rightarrow> string list \<Rightarrow> string \<Rightarrow> nat \<Rightarrow> 'f rung \<Rightarrow> bool" where
  "rung_matches F file_lines old start rung \<longleftrightarrow>
     (let block = map normalize_line (window start (length (old_block old)) file_lines) in
      case rung of
        Whitespace \<Rightarrow> block = old_block old
      | Fuzzy score \<Rightarrow> score = similarity F (join_with [NL] block) (join_with [NL] (old_block old)) \<and> f64_ge F score (FUZZY_THRESHOLD F))"

lemma fuzzy_scan_candidates:
  assumes "fuzzy_scan F norm_file k target starts candidates closest spent = Some (cs, cl)" "\<forall>c \<in> set candidates. Q c"
    "\<And>start score. start \<in> set starts \<Longrightarrow> score = similarity F (join_with [NL] (window start k norm_file)) target \<Longrightarrow>
      f64_ge F score (FUZZY_THRESHOLD F) \<Longrightarrow> Q (start, score)"
  shows "\<forall>c \<in> set cs. Q c"
  using assms
proof (induction starts arbitrary: candidates closest spent)
  case (Cons s starts)
  obtain candidates' closest' spent' where
    "fuzzy_scan F norm_file k target starts candidates' closest' spent' = Some (cs, cl)" "\<forall>c \<in> set candidates'. Q c"
    using Cons.prems by (simp add: Let_def split: if_splits)
  then show ?case by (rule Cons.IH) (simp add: Cons.prems(3))
qed simp

lemma best_candidate_mem: "best_candidate F cs = Some c \<Longrightarrow> c \<in> set cs"
proof -
  have "foldl (\<lambda>m y. if candidate_le F m y then y else m) x xs \<in> insert x (set xs)" for x xs
    by (induction xs arbitrary: x) fastforce+
  then show "best_candidate F cs = Some c \<Longrightarrow> c \<in> set cs" by (cases cs) auto
qed

lemma count_places_ge: "separate \<le> count_places k separate cluster starts"
proof (induction starts arbitrary: separate cluster)
  case (Cons s starts)
  show ?case using Cons [of "Suc separate" "Some s"] Cons [of separate cluster] by auto
qed simp

lemma count_places_one: "count_places k 1 None starts \<le> 1 \<Longrightarrow> starts = []"
  using count_places_ge [of 2 k] by (cases starts) (auto simp: numeral_2_eq_2 not_less_eq_eq [symmetric])

lemma fuzzy_Inr:
  assumes "fuzzy F norm_file norm_old file_lines old_lines = Inr region"
  obtains score where "reg_rung region = Fuzzy score" "reg_len region = length norm_old" "reg_start region \<le> length norm_file - length norm_old"
    "score = similarity F (join_with [NL] (window (reg_start region) (length norm_old) norm_file)) (join_with [NL] norm_old)"
    "f64_ge F score (FUZZY_THRESHOLD F)"
proof -
  let ?k = "length norm_old" and ?t = "join_with [NL] norm_old"
  obtain cs cl best score where s: "fuzzy_scan F norm_file ?k ?t [0..<Suc (length norm_file - ?k)] [] None 0 = Some (cs, cl)"
    and b: "best_candidate F cs = Some (best, score)" and r: "reg_rung region = Fuzzy score" "reg_len region = ?k" "reg_start region = best"
    using assms by (auto simp: fuzzy_def Let_def split: option.splits prod.splits if_splits)
  have "\<forall>c \<in> set cs. fst c \<le> length norm_file - ?k \<and>
      snd c = similarity F (join_with [NL] (window (fst c) ?k norm_file)) ?t \<and> f64_ge F (snd c) (FUZZY_THRESHOLD F)"
    by (rule fuzzy_scan_candidates [OF s]) (auto simp del: upt_Suc)
  with best_candidate_mem [OF b] r show thesis using that by auto
qed

lemma locate_Inr:
  assumes "locate F file_lines old = Inr region"
  shows "reg_len region = length (old_block old)" "reg_start region + reg_len region \<le> length file_lines"
    "rung_matches F file_lines old (reg_start region) (reg_rung region)"
proof -
  let ?ol = "split_on NL (case strip_suffix [NL] old of Some o' \<Rightarrow> o' | None \<Rightarrow> old)"
  let ?nf = "map normalize_line file_lines" and ?k = "length ?ol"
  let ?hits = "filter (\<lambda>i. window i ?k ?nf = map normalize_line ?ol) [0..<Suc (length file_lines - ?k)]"
  have k: "?k \<le> length file_lines" using assms by (simp add: locate_def Let_def split: if_splits)
  have "(fuzzy F ?nf (map normalize_line ?ol) file_lines ?ol = Inr region) \<or> (\<exists>i. ?hits = [i] \<and> reg_start region = i \<and> reg_len region = ?k \<and> reg_rung region = Whitespace)"
    using assms k by (auto simp: locate_def Let_def split: if_splits list.splits)
  then have "reg_len region = length (old_block old) \<and> reg_start region + reg_len region \<le> length file_lines \<and>
    rung_matches F file_lines old (reg_start region) (reg_rung region)"
  proof (elim disjE exE conjE)
    assume "fuzzy F ?nf (map normalize_line ?ol) file_lines ?ol = Inr region"
    then show ?thesis
      by (rule fuzzy_Inr) (use k in \<open>auto simp: old_block_def rung_matches_def Let_def take_map drop_map\<close>)
  next
    fix i assume h: "?hits = [i]" and r: "reg_start region = i" "reg_len region = ?k" "reg_rung region = Whitespace"
    have "i \<in> set ?hits" by (simp only: h) simp
    then show ?thesis using r k by (auto simp: old_block_def rung_matches_def Let_def take_map drop_map simp del: upt_Suc)
  qed
  then show "reg_len region = length (old_block old)" "reg_start region + reg_len region \<le> length file_lines"
    "rung_matches F file_lines old (reg_start region) (reg_rung region)" by blast+
qed

lemma locate_whitespace_unique:
  assumes "locate F file_lines old = Inr region" "reg_rung region = Whitespace"
    "rung_matches F file_lines old i Whitespace" "i + reg_len region \<le> length file_lines"
  shows "i = reg_start region"
proof -
  let ?ol = "split_on NL (case strip_suffix [NL] old of Some o' \<Rightarrow> o' | None \<Rightarrow> old)"
  let ?nf = "map normalize_line file_lines" and ?k = "length ?ol"
  let ?hits = "filter (\<lambda>i. window i ?k ?nf = map normalize_line ?ol) [0..<Suc (length file_lines - ?k)]"
  have k: "reg_len region = ?k" using locate_Inr(1) [OF assms(1)] by (simp add: old_block_def)
  have nf: "fuzzy F ?nf (map normalize_line ?ol) file_lines ?ol \<noteq> Inr region"
    using assms(2) by (metis fuzzy_Inr rung.distinct(1))
  then have "?hits = [reg_start region]" using assms(1)
    by (auto simp: locate_def Let_def split: if_splits list.splits)
  moreover have "i \<in> set ?hits" using assms(3,4) k by (auto simp: old_block_def rung_matches_def Let_def take_map drop_map simp del: upt_Suc)
  ultimately show ?thesis by (metis empty_iff insertE list.set)
qed

lemma length_str_lines: "length (str_lines text) = length (split_inclusive NL text)"
  by (simp add: str_lines_def)

lemma splice_pieces:
  assumes "reg_start region + reg_len region \<le> length (split_inclusive NL text)"
  obtains before block after middle where "split_inclusive NL text = before @ block @ after"
    "length before = reg_start region" "length block = reg_len region" "splice text region new = concat before @ middle @ concat after"
    "prefix (reindent new (reg_indent region)) middle" "length middle \<le> Suc (length (reindent new (reg_indent region)))"
proof
  let ?p = "split_inclusive NL text" and ?r = "reindent new (reg_indent region)"
  show "?p = take (reg_start region) ?p @ window (reg_start region) (reg_len region) ?p @ drop (reg_start region + reg_len region) ?p"
    by (metis add.commute append_take_drop_id drop_drop)
  show "length (take (reg_start region) ?p) = reg_start region" "length (window (reg_start region) (reg_len region) ?p) = reg_len region"
    using assms by simp_all
  show "splice text region new = concat (take (reg_start region) ?p) @
    (if (window (reg_start region) (reg_len region) ?p \<noteq> [] \<and> ends_with [NL] (last (window (reg_start region) (reg_len region) ?p))) \<and>
        ?r \<noteq> [] \<and> \<not> ends_with [NL] ?r then ?r @ [NL] else ?r) @ concat (drop (reg_start region + reg_len region) ?p)"
    by (simp add: splice_def Let_def)
qed simp_all

lemma edits_loop_append:
  "edits_loop F crlf index current reports (es @ fs) =
     (case edits_loop F crlf index current reports es of
        Inl f \<Rightarrow> Inl f | Inr (c, rs) \<Rightarrow> edits_loop F crlf (index + length es) c rs fs)"
  by (induction es arbitrary: index current reports) (auto split: sum.split)

lemma edits_loop_length:
  "edits_loop F crlf index current reports es = Inr (c, rs) \<Longrightarrow> length rs = length reports + length es"
  by (induction es arbitrary: index current reports) (auto split: sum.splits)

lemma edits_loop_Inl:
  assumes "edits_loop F crlf index current reports es = Inl f"
  shows "index \<le> ef_index f \<and> ef_index f < index + length es \<and>
    (\<exists>c. edits_loop F crlf index current reports (take (ef_index f - index) es) = Inr c)"
  using assms
proof (induction es arbitrary: index current reports)
  case (Cons e es)
  show ?case
  proof (cases "apply_edit F crlf index current e")
    case (Inl m)
    with Cons.prems show ?thesis by auto
  next
    case (Inr r)
    obtain t rep where r: "apply_edit F crlf index current e = Inr (t, rep)" using Inr by (cases r) auto
    then have "Suc index \<le> ef_index f \<and> ef_index f < Suc index + length es \<and>
      (\<exists>c. edits_loop F crlf (Suc index) (Some t) (reports @ [rep]) (take (ef_index f - Suc index) es) = Inr c)"
      using Cons.IH [of "Suc index" "Some t" "reports @ [rep]"] Cons.prems by simp
    moreover from this have "ef_index f - index = Suc (ef_index f - Suc index)" by auto
    ultimately show ?thesis using r by simp
  qed
qed simp

section \<open>Indentation\<close>

lemma trim_start_blank:
  assumes "set i \<subseteq> {SPACE, TAB}" "l = [] \<or> \<not> is_continuation (hd l)"
  shows "trim_start (i @ l) = trim_start l"
  using assms(1)
proof (induction i)
  case (Cons c i)
  then have c: "is_whitespace [c]" and i: "set i \<subseteq> {SPACE, TAB}" by (auto simp: is_whitespace_def)
  then have "i @ l = [] \<or> \<not> is_continuation (hd (i @ l))"
    using assms(2) by (cases i) (auto simp: is_continuation_def)
  then have "uchars (c # i @ l) = [c] # uchars (i @ l)" by (cases "i @ l") auto
  with c Cons.IH [OF i] show ?case by (simp add: trim_start_def)
qed simp

lemma length_trim_start: "length (trim_start l) \<le> length l"
proof -
  have "length (concat (dropWhile P us)) \<le> length (concat us)" for P :: "string \<Rightarrow> bool" and us by (induction us) auto
  from this [of is_whitespace "uchars l"] show ?thesis by (simp add: trim_start_def)
qed

lemma leading_ws_blank:
  assumes "set i \<subseteq> {SPACE, TAB}" "l = [] \<or> \<not> is_continuation (hd l)"
  shows "leading_ws (i @ l) = i @ leading_ws l" "trim (i @ l) = trim l"
  using trim_start_blank [OF assms] length_trim_start [of l] by (simp_all add: leading_ws_def trim_def)

text \<open>What the file has in front of every line of the old text that is not blank is found as the indentation.\<close>

lemma indent_loop_uniform:
  assumes "set i \<subseteq> {SPACE, TAB}" "i \<noteq> []" "\<forall>l \<in> set ls. l = [] \<or> \<not> is_continuation (hd l)"
    "delta = Some i \<or> delta = None \<and> (\<exists>l \<in> set ls. trim l \<noteq> [])"
  shows "indent_loop delta (zip (map (\<lambda>l. if trim l = [] then l else i @ l) ls) ls) = Some i"
  using assms(3,4)
proof (induction ls arbitrary: delta)
  case (Cons l ls)
  show ?case
  proof (cases "trim l = []")
    case True
    then show ?thesis using Cons by auto
  next
    case False
    then show ?thesis using Cons leading_ws_blank [OF assms(1), of l] by auto
  qed
qed (use assms(2) in auto)

section \<open>Properties\<close>

text \<open>
  C15. A successful replacement changes only what it located. Either the text is cut at the occurrences of the old string
  and put together again with the new one, and there is one occurrence unless all were asked for, or a single block of whole lines that
  matches the old string on a rung of the ladder is replaced and every other line is kept.
\<close>

theorem replacement_touches_the_located_text_only:
  assumes "replace_text F text old new all = Inr (out, report)"
  shows "(\<exists>parts. parts = split_str old text \<and> text = join_with old parts \<and> out = join_with new parts \<and> 2 \<le> length parts \<and> (length parts = 2 \<or> all) \<and>
      report = \<lparr>replacements = length parts - 1, er_kind = Exact\<rparr>) \<or>
    (\<exists>before block after middle rung. split_inclusive NL text = before @ block @ after \<and>
      out = concat before @ middle @ concat after \<and> length block = length (old_block old) \<and>
      rung_matches F (str_lines text) old (length before) rung \<and>
      report = \<lparr>replacements = 1, er_kind = Ladder rung (length before + 1) (length before + length block)\<rparr>)"
proof (cases "replace_region F text old new = Inr (out, report)")
  case True
  then obtain region where l: "locate F (str_lines text) old = Inr region" "out = splice text region new"
      "report = \<lparr>replacements = 1, er_kind = Ladder (reg_rung region) (reg_start region + 1) (reg_start region + reg_len region)\<rparr>"
    by (auto simp: replace_region_def Let_def split: sum.splits)
  obtain before block after middle where "split_inclusive NL text = before @ block @ after"
    "length before = reg_start region" "length block = reg_len region" "splice text region new = concat before @ middle @ concat after"
    using splice_pieces locate_Inr(2) [OF l(1)] by (metis length_str_lines)
  with l locate_Inr [OF l(1)] show ?thesis by (intro disjI2 exI [of _ before] exI [of _ block] exI [of _ after] exI [of _ middle]
      exI [of _ "reg_rung region"]) simp
next
  case False
  have "text = join_with old (split_str old text) \<and> out = join_with new (split_str old text) \<and> 2 \<le> length (split_str old text) \<and>
      (length (split_str old text) = 2 \<or> all) \<and> report = \<lparr>replacements = length (split_str old text) - 1, er_kind = Exact\<rparr>"
    using assms False unfolding replace_text_def Let_def
    by (auto simp: join_split_str replace_first_join str_replace_def split: if_splits) (simp_all add: matches_count_def)
  then show ?thesis by blast
qed

text \<open>
  A match that ignores white space is the only one in the file: no other block of lines equals the old string up to
  white space.
\<close>

theorem whitespace_matches_are_unique:
  assumes "replace_region F text old new = Inr (out, \<lparr>replacements = 1, er_kind = Ladder Whitespace first last_line\<rparr>)"
    "rung_matches F (str_lines text) old i Whitespace" "i + length (old_block old) \<le> length (str_lines text)"
  shows "first = i + 1 \<and> last_line = i + length (old_block old)"
proof -
  obtain region where l: "locate F (str_lines text) old = Inr region" "reg_rung region = Whitespace"
      "first = reg_start region + 1" "last_line = reg_start region + reg_len region"
    using assms(1) by (auto simp: replace_region_def Let_def split: sum.splits)
  with locate_whitespace_unique [OF l(1,2) assms(2)] assms(3) locate_Inr(1) [OF l(1)] show ?thesis by simp
qed

text \<open>
  Loading a file and writing it back without a change gives the same bytes, whatever its line breaks.
\<close>

theorem no_edit_keeps_the_file: "apply_edits F (Some text) [] = Inr \<lparr>ap_content = text, ap_reports = []\<rparr>"
  by (simp add: apply_edits_def Let_def crlf_round_trip) (simp add: lf_def)

text \<open>
  Edits keep a file that uses CRLF throughout that way: in the result every line break is a CRLF.
\<close>

theorem edits_keep_crlf:
  assumes "is_crlf text" "apply_edits F (Some text) edits = Inr result"
  shows "matches_count [CR, NL] (ap_content result) = matches_count [NL] (ap_content result)"
proof -
  obtain s where "ap_content result = replace_char NL [CR, NL] s"
    using assms by (auto simp: apply_edits_def Let_def split: sum.splits)
  moreover have "count_list (replace_char NL [CR, NL] s) NL = count_list s NL" by (induction s) (auto simp: replace_char_def)
  ultimately show ?thesis
    using split_str_crlf [of s] by (simp add: matches_count_char) (simp add: matches_count_def split_str_char length_split_on)
qed

text \<open>
  A failing list of edits names its first failing edit: all edits before it apply. Otherwise there is one report for
  each edit.
\<close>

theorem edits_fail_at_the_first_bad_one:
  "case apply_edits F content edits of
     Inl failure \<Rightarrow> ef_index failure < length edits \<and> (\<exists>result. apply_edits F content (take (ef_index failure) edits) = Inr result)
   | Inr result \<Rightarrow> length (ap_reports result) = length edits"
proof -
  define crlf where "crlf = (case content of None \<Rightarrow> False | Some text \<Rightarrow> is_crlf text)"
  define start where "start = map_option (\<lambda>text. lf text crlf) content"
  show ?thesis
  proof (cases "edits_loop F crlf 0 start [] edits")
    case (Inl f)
    then obtain c where "ef_index f < length edits" "edits_loop F crlf 0 start [] (take (ef_index f) edits) = Inr c"
      using edits_loop_Inl [OF Inl] by auto
    then show ?thesis using Inl by (cases c) (simp add: apply_edits_def crlf_def start_def Let_def)
  next
    case (Inr r)
    then show ?thesis using edits_loop_length [of F crlf 0 start "[]" edits]
      by (cases r) (simp add: apply_edits_def crlf_def start_def Let_def)
  qed
qed

text \<open>
  If every line of a block that is not blank is the line of the old text with the same blanks in front, these blanks
  are the indentation that the new text gets.
\<close>

theorem drifted_indentation_is_found:
  assumes "set i \<subseteq> {SPACE, TAB}" "i \<noteq> []" "\<exists>l \<in> set old_lines. trim l \<noteq> []" "\<forall>l \<in> set old_lines. l = [] \<or> \<not> is_continuation (hd l)"
  shows "indent_delta (map (\<lambda>l. if trim l = [] then l else i @ l) old_lines) old_lines = Some i"
  using indent_loop_uniform [OF assms(1,2,4)] assms(3) by (simp add: indent_delta_def)

section \<open>Examples\<close>

text \<open>Similarities in thousandths; two texts are either equal or not similar.\<close>

definition permille :: "nat f64_lib" where
  "permille = \<lparr>f64_of = \<lambda>n. n * 1000, f64_lit = \<lambda>m k. m * 1000 div 10 ^ k, f64_sub = (-), f64_div = \<lambda>a b. a * 1000 div b,
     f64_lt = (<), f64_ge = (\<ge>), f64_total_lt = (<), f64_fixed2 = nat_str, similarity = \<lambda>a b. if a = b then 1000 else 0\<rparr>"

abbreviation demo_text :: string where "demo_text \<equiv> ''fn a() {'' @ [NL] @ ''    call( x );'' @ [NL] @ ''}'' @ [NL]"

lemma demo_replace:
  "replace_text permille demo_text ''call(  x );'' ''stop();'' False =
     Inr (''fn a() {'' @ [NL] @ ''    stop();'' @ [NL] @ ''}'' @ [NL], \<lparr>replacements = 1, er_kind = Ladder Whitespace 2 2\<rparr>)"
  by code_simp

theorem replacement_touches_the_located_text_only_witness:
  "\<exists>text old new all out report. replace_text permille text old new all = Inr (out, report) \<and>
   ((\<exists>parts. parts = split_str old text \<and> text = join_with old parts \<and> out = join_with new parts \<and> 2 \<le> length parts \<and> (length parts = 2 \<or> all) \<and>
      report = \<lparr>replacements = length parts - 1, er_kind = Exact\<rparr>) \<or>
    (\<exists>before block after middle rung. split_inclusive NL text = before @ block @ after \<and>
      out = concat before @ middle @ concat after \<and> length block = length (old_block old) \<and>
      rung_matches permille (str_lines text) old (length before) rung \<and>
      report = \<lparr>replacements = 1, er_kind = Ladder rung (length before + 1) (length before + length block)\<rparr>))"
  using replacement_touches_the_located_text_only [OF demo_replace] demo_replace by blast

theorem whitespace_matches_are_unique_witness: "(2 :: nat) = 1 + 1 \<and> (2 :: nat) = 1 + length (old_block ''call(  x );'')"
proof -
  have "replace_region permille demo_text ''call(  x );'' ''stop();'' =
     Inr (''fn a() {'' @ [NL] @ ''    stop();'' @ [NL] @ ''}'' @ [NL], \<lparr>replacements = 1, er_kind = Ladder Whitespace 2 2\<rparr>)"
    by code_simp
  then show ?thesis
    by (rule whitespace_matches_are_unique) code_simp+
qed

theorem edits_keep_crlf_witness:
  "matches_count [CR, NL] (''1'' @ [CR, NL]) = matches_count [NL] (''1'' @ [CR, NL])"
proof -
  have "is_crlf (''one'' @ [CR, NL])" by code_simp
  moreover have "apply_edits permille (Some (''one'' @ [CR, NL])) [\<lparr>es_old = ''one'', es_new = ''1'', es_replace_all = False\<rparr>] =
    Inr \<lparr>ap_content = ''1'' @ [CR, NL], ap_reports = [\<lparr>replacements = 1, er_kind = Exact\<rparr>]\<rparr>" by code_simp
  ultimately show ?thesis using edits_keep_crlf by fastforce
qed

theorem drifted_indentation_is_found_witness:
  "indent_delta (map (\<lambda>l. if trim l = [] then l else [TAB] @ l) [''a'', []]) [''a'', []] = Some [TAB]"
proof (rule drifted_indentation_is_found)
  show "\<exists>l \<in> set [''a'', []]. trim l \<noteq> []" by code_simp
qed (simp_all add: is_continuation_def)

text \<open>Occurrences that overlap count once, so an old string that fits at two places can pass as unambiguous.\<close>

lemma overlapping_occurrences_count_once: "matches_count ''aa'' ''aaa'' = 1"
  by code_simp

end
