(* ===== verification/Edit_File.thy ===== *)
theory Edit_File
  imports Edit Paths Web
begin

text \<open>
  Editing files: \<open>crates/z-engine-host/src/fs\<close> (\<open>read.rs\<close>, \<open>tracker.rs\<close>, \<open>atomic.rs\<close>) and
  \<open>crates/z-engine-tools/src/edit\<close> (\<open>access.rs\<close>, \<open>flow.rs\<close>). A file is edited only if the model has read it
  and it has not changed since.

  The disk maps paths to entries. Other processes may change it at any time: \<open>others i\<close> is what they do to it before
  the \<open>i\<close>th step of an edit. The digest \<open>sha256\<close>, the identity of a path, which rests on
  \<open>fs::canonicalize\<close>, and the display of paths are fields of \<open>edit_lib\<close>.
\<close>

section \<open>The disk\<close>

datatype disk_entry =
    RegularFile string "nat option"
  | Directory "nat option"
  | Unreadable nat "nat option" string

type_synonym disk = "path \<Rightarrow> disk_entry option"

record 'd edit_lib =
  digest_of :: "string \<Rightarrow> 'd"
  identity :: "path \<Rightarrow> path"
  display :: "path \<Rightarrow> string"

text \<open>\<open>fs::metadata\<close>: the length and the time of the last change; \<open>fs::read\<close>.\<close>

definition metadata_of :: "disk \<Rightarrow> path \<Rightarrow> (bool \<times> string) + nat \<times> nat option" where
  "metadata_of d p = (case d p of
     None \<Rightarrow> Inl (True, ''No such file or directory (os error 2)'')
   | Some (RegularFile b t) \<Rightarrow> Inr (length b, t)
   | Some (Directory t) \<Rightarrow> Inr (0, t)
   | Some (Unreadable n t e) \<Rightarrow> Inr (n, t))"

definition read_bytes :: "disk \<Rightarrow> path \<Rightarrow> (bool \<times> string) + string" where
  "read_bytes d p = (case d p of
     None \<Rightarrow> Inl (True, ''No such file or directory (os error 2)'')
   | Some (RegularFile b t) \<Rightarrow> Inr b
   | Some (Directory t) \<Rightarrow> Inl (False, ''Is a directory (os error 21)'')
   | Some (Unreadable n t e) \<Rightarrow> Inl (False, e))"

section \<open>Reading text (read.rs)\<close>

text \<open>
  \<open>String::from_utf8\<close>: how many bytes are valid, and for the first error the length of the bad sequence, or
  \<open>None\<close> when the input ends inside a character.
\<close>

function utf8_check :: "string \<Rightarrow> nat \<times> nat option option" where
  "utf8_check [] = (0, None)"
| "utf8_check (c # s) =
     (let (k, valid) = utf8_seq c s in
      if valid then (let (n, e) = utf8_check (drop (k - 1) s) in (k + n, e))
      else (0, Some (if k = length (c # s) \<and> utf8_width c \<noteq> 0 then None else Some k)))"
  by pat_completeness auto
termination
  by (relation "measure length") auto

record text_file =
  tf_content :: string
  tf_lossy :: bool
  tf_truncated :: bool
  tf_len :: nat

definition decode_text :: "string \<Rightarrow> bool \<Rightarrow> string \<times> bool" where
  "decode_text bytes truncated = (case utf8_check bytes of
     (_, None) \<Rightarrow> (bytes, False)
   | (valid_up_to, Some error_len) \<Rightarrow>
       if truncated \<and> error_len = None then (from_utf8_lossy (take valid_up_to bytes), False)
       else (from_utf8_lossy bytes, True))"

definition read_text :: "disk \<Rightarrow> path \<Rightarrow> nat \<Rightarrow> host_error + text_file" where
  "read_text d p cap = (case d p of
     None \<Rightarrow> Inl (HostIo (path_str p) True ''No such file or directory (os error 2)'')
   | Some (Unreadable n t e) \<Rightarrow> Inl (HostIo (path_str p) False e)
   | Some (Directory t) \<Rightarrow> Inl (HostInvalid (path_str p @ '' is a directory''))
   | Some (RegularFile b t) \<Rightarrow>
       let limit = Suc cap; bytes = take limit b; truncated = (length bytes > cap); bytes = take cap bytes;
           (content, lossy) = decode_text bytes truncated in
       Inr \<lparr>tf_content = content, tf_lossy = lossy, tf_truncated = truncated, tf_len = length b\<rparr>)"

datatype file_kind = Text | Image string | Pdf | Notebook | Binary

abbreviation bytes_of :: "nat list \<Rightarrow> string" where "bytes_of \<equiv> map char_of"

definition image_media_type :: "string \<Rightarrow> string option" where
  "image_media_type head =
     (if starts_with (bytes_of [0x89] @ ''PNG'' @ [CR, NL] @ bytes_of [0x1A, 0x0A]) head then Some ''image/png''
      else if starts_with (bytes_of [0xFF, 0xD8, 0xFF]) head then Some ''image/jpeg''
      else if starts_with ''GIF87a'' head \<or> starts_with ''GIF89a'' head then Some ''image/gif''
      else if 12 \<le> length head \<and> starts_with ''RIFF'' head \<and> take 4 (drop 8 head) = ''WEBP'' then Some ''image/webp''
      else None)"

definition is_pdf :: "string \<Rightarrow> bool" where "is_pdf head = starts_with ''%PDF-'' head"

text \<open>\<open>Path::extension\<close>: what follows the last dot of the file name, unless the name starts with its only dot.\<close>

definition extension :: "path \<Rightarrow> string option" where
  "extension p = (if p = [] then None else (case last p of
     Normal name \<Rightarrow>
       (case split_once ''.'' (rev name) of
          None \<Rightarrow> None
        | Some (ext, stem) \<Rightarrow> if stem = [] then None else Some (rev ext))
   | _ \<Rightarrow> None))"

definition classify :: "path \<Rightarrow> string \<Rightarrow> file_kind" where
  "classify p head = (case image_media_type head of
     Some media_type \<Rightarrow> Image media_type
   | None \<Rightarrow>
       if is_pdf head then Pdf
       else if map_option to_ascii_lowercase (extension p) = Some ''ipynb'' then Notebook
       else if NUL \<in> set head then Binary else Text)"

definition SNIFF_BYTES :: nat where "SNIFF_BYTES = 8 * 1024"

definition sniff :: "disk \<Rightarrow> path \<Rightarrow> host_error + file_kind" where
  "sniff d p = (case d p of
     None \<Rightarrow> Inl (HostIo (path_str p) True ''No such file or directory (os error 2)'')
   | Some (Directory t) \<Rightarrow> Inl (HostInvalid (path_str p @ '' is a directory''))
   | Some (Unreadable n t e) \<Rightarrow> Inl (HostIo (path_str p) False e)
   | Some (RegularFile b t) \<Rightarrow> Inr (classify p (take SNIFF_BYTES b)))"

section \<open>What the model has seen (tracker.rs)\<close>

datatype freshness = NotRead | Modified

record 'd stamp =
  st_len :: nat
  st_mtime :: "nat option"
  st_digest :: 'd

type_synonym 'd tracker = "path \<Rightarrow> 'd stamp option"

datatype 'd observed = Unchanged | Touched "'d stamp" | Changed

definition stamp_capture :: "'d edit_lib \<Rightarrow> disk \<Rightarrow> path \<Rightarrow> (bool \<times> string) + 'd stamp" where
  "stamp_capture E d p = (case metadata_of d p of
     Inl e \<Rightarrow> Inl e
   | Inr (_, mtime) \<Rightarrow>
       (case read_bytes d p of
          Inl e \<Rightarrow> Inl e
        | Inr bytes \<Rightarrow> Inr \<lparr>st_len = length bytes, st_mtime = mtime, st_digest = digest_of E bytes\<rparr>))"

definition metadata_matches :: "'d stamp \<Rightarrow> nat \<times> nat option \<Rightarrow> bool" where
  "metadata_matches st meta \<longleftrightarrow> st_len st = fst meta \<and> st_mtime st = snd meta"

definition observe :: "'d edit_lib \<Rightarrow> disk \<Rightarrow> 'd stamp \<Rightarrow> path \<Rightarrow> 'd observed" where
  "observe E d st p = (case metadata_of d p of
     Inl _ \<Rightarrow> Changed
   | Inr meta \<Rightarrow>
       if metadata_matches st meta then Unchanged
       else (case stamp_capture E d p of
          Inr now \<Rightarrow> if st_digest now = st_digest st then Touched now else Changed
        | Inl _ \<Rightarrow> Changed))"

definition record_read :: "'d edit_lib \<Rightarrow> disk \<Rightarrow> path \<Rightarrow> 'd tracker \<Rightarrow> (host_error + unit) \<times> 'd tracker" where
  "record_read E d p tr = (case stamp_capture E d p of
     Inl (kind, e) \<Rightarrow> (Inl (HostIo (path_str p) kind e), tr)
   | Inr st \<Rightarrow> (Inr (), tr(identity E p \<mapsto> st)))"

definition record_write :: "'d edit_lib \<Rightarrow> disk \<Rightarrow> path \<Rightarrow> 'd tracker \<Rightarrow> (host_error + unit) \<times> 'd tracker" where
  "record_write E d p tr = record_read E d p tr"

definition check_fresh :: "'d edit_lib \<Rightarrow> disk \<Rightarrow> path \<Rightarrow> 'd tracker \<Rightarrow> (freshness + unit) \<times> 'd tracker" where
  "check_fresh E d p tr = (case tr (identity E p) of
     None \<Rightarrow> (Inl NotRead, tr)
   | Some st \<Rightarrow>
       (case observe E d st p of
          Unchanged \<Rightarrow> (Inr (), tr)
        | Touched now \<Rightarrow> (Inr (), tr(identity E p \<mapsto> now))
        | Changed \<Rightarrow> (Inl Modified, tr)))"

definition was_read :: "'d edit_lib \<Rightarrow> path \<Rightarrow> 'd tracker \<Rightarrow> bool" where
  "was_read E p tr \<longleftrightarrow> tr (identity E p) \<noteq> None"

definition forget :: "'d edit_lib \<Rightarrow> path \<Rightarrow> 'd tracker \<Rightarrow> 'd tracker" where
  "forget E p tr = tr(identity E p := None)"

section \<open>Guarded access (access.rs, atomic.rs)\<close>

datatype tool_error = InvalidInput string | Failed string | ToolCancelled | Unavailable string

definition MAX_EDIT_BYTES :: nat where "MAX_EDIT_BYTES = 16 * 1024 * 1024"

fun is_not_found :: "host_error \<Rightarrow> bool" where
  "is_not_found (HostNotFound _) = True"
| "is_not_found (HostIo _ not_found _) = not_found"
| "is_not_found _ = False"

fun host_error_text :: "host_error \<Rightarrow> string" where
  "host_error_text (HostIo p _ e) = p @ '': '' @ e"
| "host_error_text (HostProcess e) = ''process failed: '' @ e"
| "host_error_text HostTimeout = ''operation timed out''"
| "host_error_text HostCancelled = ''operation cancelled''"
| "host_error_text (HostGit args stderr) = ''git '' @ join_with '' '' args @ '' failed: '' @ stderr"
| "host_error_text HostGitUnavailable = ''git is not installed or not on PATH''"
| "host_error_text (HostHttp e) = ''http request failed: '' @ e"
| "host_error_text (HostBlocked e) = ''blocked: '' @ e"
| "host_error_text (HostInvalid e) = ''invalid input: '' @ e"
| "host_error_text (HostNotFound e) = ''not found: '' @ e"
| "host_error_text (HostSandboxUnavailable e) = ''sandbox unavailable: '' @ e"

definition load_text :: "'d edit_lib \<Rightarrow> disk \<Rightarrow> path \<Rightarrow> tool_error + string option" where
  "load_text E d p = (case read_text d p MAX_EDIT_BYTES of
     Inl e \<Rightarrow> if is_not_found e then Inr None else Inl (Failed (''cannot read '' @ display E p @ '': '' @ host_error_text e))
   | Inr file \<Rightarrow>
       if tf_truncated file
       then Inl (Failed (display E p @ '' is '' @ nat_str (tf_len file) @ '' bytes, too large to edit here; use Bash for bulk changes''))
       else if tf_lossy file then Inl (Failed (display E p @ '' is not valid UTF-8 text, so it cannot be edited as text''))
       else Inr (Some (tf_content file)))"

definition ensure_fresh :: "'d edit_lib \<Rightarrow> disk \<Rightarrow> path \<Rightarrow> 'd tracker \<Rightarrow> (tool_error + unit) \<times> 'd tracker" where
  "ensure_fresh E d p tr = (case check_fresh E d p tr of
     (Inr _, tr') \<Rightarrow> (Inr (), tr')
   | (Inl NotRead, tr') \<Rightarrow> (Inl (Failed (display E p @ '' has not been read yet. Read it first, then retry.'')), tr')
   | (Inl Modified, tr') \<Rightarrow>
       (Inl (Failed (display E p @ '' has been modified since it was last read, either by the user or by another process. Read it again, then retry.'')), tr'))"

text \<open>
  \<open>atomic_write_sync\<close> writes a temporary sibling and renames it over the target, so the target holds its old or its
  new content; \<open>fault\<close> is the error of the steps up to the rename, if one fails.
\<close>

definition atomic_write :: "string option \<Rightarrow> nat option \<Rightarrow> path \<Rightarrow> string \<Rightarrow> disk \<Rightarrow> (host_error + unit) \<times> disk" where
  "atomic_write fault mtime p bytes d = (case fault of
     Some e \<Rightarrow> (Inl (HostIo (path_str p) False e), d)
   | None \<Rightarrow> (Inr (), d(p \<mapsto> RegularFile bytes mtime)))"

section \<open>The edit of a file (flow.rs)\<close>

text \<open>
  What happens around an edit: the steps of other processes, whether the call is cancelled, a failure of the computation's
  task, a failing write and the time of the write.
\<close>

record edit_env =
  others :: "nat \<Rightarrow> disk \<Rightarrow> disk"
  env_cancelled :: bool
  env_join_error :: "string option"
  env_write_fault :: "string option"
  env_mtime :: "nat option"

record 'f file_edit =
  fe_before :: "string option"
  fe_applied :: "'f applied"

definition save_text ::
  "'d edit_lib \<Rightarrow> edit_env \<Rightarrow> disk \<Rightarrow> path \<Rightarrow> string \<Rightarrow> 'd tracker \<Rightarrow> (tool_error + unit) \<times> disk \<times> 'd tracker" where
  "save_text E env d p content tr = (case atomic_write (env_write_fault env) (env_mtime env) p content d of
     (Inl e, d') \<Rightarrow> (Inl (Failed (''could not write '' @ display E p @ '': '' @ host_error_text e)), d', tr)
   | (Inr _, d') \<Rightarrow> let d'' = others env 3 d' in (Inr (), d'', snd (record_write E d'' p tr)))"

definition edit_file ::
  "'d edit_lib \<Rightarrow> 'f f64_lib \<Rightarrow> edit_env \<Rightarrow> path \<Rightarrow> edit_spec list \<Rightarrow> (edit_failure \<Rightarrow> string) \<Rightarrow> disk \<Rightarrow> 'd tracker \<Rightarrow>
   (tool_error + 'f file_edit) \<times> disk \<times> 'd tracker" where
  "edit_file E F env p edits describe d tr =
     (if (case extension p of Some ext \<Rightarrow> eq_ignore_ascii_case ext ''ipynb'' | None \<Rightarrow> False)
      then (Inl (InvalidInput (display E p @ '' is a Jupyter notebook; edit its cells with NotebookEdit'')), d, tr)
      else let d0 = others env 0 d in
        case load_text E d0 p of
          Inl e \<Rightarrow> (Inl e, d0, tr)
        | Inr before \<Rightarrow>
            let d1 = others env 1 d0;
                (fresh, tr1) = (if before \<noteq> None then ensure_fresh E d1 p tr else (Inr (), tr)) in
            (case fresh of
               Inl e \<Rightarrow> (Inl e, d1, tr1)
             | Inr _ \<Rightarrow>
                 (case env_join_error env of
                    Some e \<Rightarrow> (Inl (Failed (''the edit computation failed: '' @ e)), d1, tr1)
                  | None \<Rightarrow>
                      (case apply_edits F before edits of
                         Inl failure \<Rightarrow> (Inl (Failed (describe failure)), d1, tr1)
                       | Inr result \<Rightarrow>
                           if env_cancelled env then (Inl ToolCancelled, d1, tr1)
                           else let d2 = others env 2 d1 in
                             (case save_text E env d2 p (ap_content result) tr1 of
                                (Inl e, d3, tr3) \<Rightarrow> (Inl e, d3, tr3)
                              | (Inr _, d3, tr3) \<Rightarrow> (Inr \<lparr>fe_before = before, fe_applied = result\<rparr>, d3, tr3))))))"

section \<open>Loading\<close>

lemma decode_text_exact: "decode_text b False = (content, False) \<Longrightarrow> content = b"
  by (auto simp: decode_text_def split: prod.splits option.splits)

lemma load_text_Some:
  assumes "load_text E d p = Inr (Some text)"
  shows "\<exists>t. d p = Some (RegularFile text t)" "length text \<le> MAX_EDIT_BYTES"
proof -
  obtain b t where b: "d p = Some (RegularFile b t)"
    using assms by (auto simp: load_text_def read_text_def split: option.splits disk_entry.splits if_splits)
  then have l: "length b \<le> MAX_EDIT_BYTES"
    using assms by (auto simp: load_text_def read_text_def Let_def not_le min_def split: prod.splits if_splits)
  then have "decode_text b False = (text, False)"
    using assms b by (auto simp: load_text_def read_text_def Let_def split: prod.splits if_splits)
  then have "text = b" by (rule decode_text_exact)
  with b l show "\<exists>t. d p = Some (RegularFile text t)" "length text \<le> MAX_EDIT_BYTES" by simp_all
qed

lemma load_text_None: "load_text E d p = Inr None \<Longrightarrow> d p = None"
  by (auto simp: load_text_def read_text_def Let_def split: option.splits disk_entry.splits if_splits prod.splits)

section \<open>Freshness\<close>

lemma record_read_fresh:
  assumes "d p = Some (RegularFile b t)"
  shows "fst (check_fresh E d p (snd (record_read E d p tr))) = Inr ()"
  using assms by (simp add: record_read_def stamp_capture_def metadata_of_def read_bytes_def check_fresh_def observe_def metadata_matches_def)

lemma check_fresh_content:
  assumes "check_fresh E d p tr = (Inr (), tr')" "d p = Some (RegularFile b t)"
  obtains st where "tr (identity E p) = Some st" "(st_len st = length b \<and> st_mtime st = t) \<or> st_digest st = digest_of E b"
  using assms by (auto simp: check_fresh_def observe_def metadata_of_def stamp_capture_def read_bytes_def metadata_matches_def
      split: option.splits if_splits)

lemma ensure_fresh_Inr: "ensure_fresh E d p tr = (Inr u, tr') \<Longrightarrow> check_fresh E d p tr = (Inr (), tr')"
  by (auto simp: ensure_fresh_def split: prod.splits sum.splits freshness.splits)

text \<open>The course of a successful edit.\<close>

lemma edit_file_Inr:
  assumes "edit_file E F env p edits describe d tr = (Inr fe, d', tr')"
  obtains tr1 where "load_text E (others env 0 d) p = Inr (fe_before fe)"
    "fe_before fe \<noteq> None \<longrightarrow> check_fresh E (others env 1 (others env 0 d)) p tr = (Inr (), tr1)"
    "apply_edits F (fe_before fe) edits = Inr (fe_applied fe)"
    "d' = others env 3 ((others env 2 (others env 1 (others env 0 d)))(p \<mapsto> RegularFile (ap_content (fe_applied fe)) (env_mtime env)))"
    "tr' = snd (record_read E d' p tr1)"
proof -
  obtain before where b: "load_text E (others env 0 d) p = Inr before"
    using assms by (auto simp: edit_file_def Let_def split: if_splits sum.splits)
  let ?d1 = "others env 1 (others env 0 d)"
  obtain fresh tr1 where f: "(if before \<noteq> None then ensure_fresh E ?d1 p tr else (Inr (), tr)) = (fresh, tr1)" by fastforce
  have fr: "fresh = Inr ()" and r: "before = fe_before fe" "apply_edits F before edits = Inr (fe_applied fe)"
    and d': "d' = others env 3 ((others env 2 ?d1)(p \<mapsto> RegularFile (ap_content (fe_applied fe)) (env_mtime env)))"
    and "tr' = snd (record_read E d' p tr1)"
    using assms b f by (auto simp: edit_file_def Let_def save_text_def atomic_write_def record_write_def
        split: if_splits sum.splits option.splits)
  moreover have "before \<noteq> None \<longrightarrow> check_fresh E ?d1 p tr = (Inr (), tr1)"
    using f fr by (auto split: if_splits dest: ensure_fresh_Inr)
  ultimately show thesis using that [of tr1] b by simp
qed

lemma edit_file_Inl:
  assumes "edit_file E F env p edits describe d tr = (Inl e, d', tr')"
  shows "d' = d \<or> d' = others env 0 d \<or> d' = others env 1 (others env 0 d) \<or> d' = others env 2 (others env 1 (others env 0 d))"
  using assms by (auto simp: edit_file_def Let_def save_text_def atomic_write_def split: if_splits sum.splits option.splits prod.splits)

section \<open>Properties\<close>

text \<open>
  C9. A file that exists is edited only with the content the model saw. If the stamp belongs to the content \<open>seen\<close>,
  the same length and time of change mean the same content, no other content has its digest, and other processes leave
  the file alone between reading and checking it, then the edits of a successful call are applied to \<open>seen\<close>. The
  stamp exists, so files that were never read are not edited.
\<close>

theorem edits_apply_to_what_was_seen:
  assumes "edit_file E F env p edits describe d tr = (Inr fe, d', tr')" "fe_before fe = Some text"
    "\<And>st. tr (identity E p) = Some st \<Longrightarrow> st_len st = length seen \<and> st_mtime st = t \<and> st_digest st = digest_of E seen"
    "others env 1 (others env 0 d) p = others env 0 d p"
    "\<And>b. others env 0 d p = Some (RegularFile b t) \<Longrightarrow> length b = length seen \<Longrightarrow> b = seen"
    "\<And>b. digest_of E b = digest_of E seen \<Longrightarrow> b = seen"
  shows "was_read E p tr \<and> text = seen \<and> apply_edits F (Some seen) edits = Inr (fe_applied fe)"
proof -
  obtain tr1 where l: "load_text E (others env 0 d) p = Inr (Some text)" "apply_edits F (Some text) edits = Inr (fe_applied fe)"
    and c: "check_fresh E (others env 1 (others env 0 d)) p tr = (Inr (), tr1)"
    using assms(2) by (auto intro: edit_file_Inr [OF assms(1)])
  obtain t' where t': "others env 0 d p = Some (RegularFile text t')" using load_text_Some(1) [OF l(1)] by blast
  then obtain st where st: "tr (identity E p) = Some st" "(st_len st = length text \<and> st_mtime st = t') \<or> st_digest st = digest_of E text"
    using check_fresh_content [OF c] assms(4) by metis
  then have "text = seen" using assms(3) [OF st(1)] assms(5,6) t' by metis
  with l st show ?thesis by (simp add: was_read_def)
qed

text \<open>
  A failing call writes nothing: whatever the error, the disk is as the other processes left it.
\<close>

theorem failed_edits_write_nothing:
  assumes "edit_file E F env p edits describe d tr = (Inl e, d', tr')" "\<And>i disk. others env i disk q = disk q"
  shows "d' q = d q"
  using edit_file_Inl [OF assms(1)] assms(2) by auto

text \<open>
  A successful edit stores exactly the result of the edits, changes no other file, and leaves the file fresh, so that
  the next edit needs no new read, if no other process interferes.
\<close>

theorem successful_edits_store_the_result:
  assumes "edit_file E F env p edits describe d tr = (Inr fe, d', tr')" "\<And>i disk. others env i disk = disk"
  shows "d' = d(p \<mapsto> RegularFile (ap_content (fe_applied fe)) (env_mtime env)) \<and> fst (check_fresh E d' p tr') = Inr ()"
proof -
  obtain tr1 where d': "d' = d(p \<mapsto> RegularFile (ap_content (fe_applied fe)) (env_mtime env))" and "tr' = snd (record_read E d' p tr1)"
    by (rule edit_file_Inr [OF assms(1)]) (simp add: assms(2))
  moreover have "d' p = Some (RegularFile (ap_content (fe_applied fe)) (env_mtime env))" by (simp add: d')
  ultimately show ?thesis using record_read_fresh [of d' p] by metis
qed

text \<open>
  Text is loaded for editing only when it is the whole content of the file, byte for byte, and at most 16 MiB long.
\<close>

theorem loaded_text_is_the_file:
  "load_text E d p = Inr (Some text) \<Longrightarrow> (\<exists>t. d p = Some (RegularFile text t)) \<and> length text \<le> 16777216"
  using load_text_Some [of E d p] by (simp add: MAX_EDIT_BYTES_def)

section \<open>Examples\<close>

definition plain_lib :: "string edit_lib" where
  "plain_lib = \<lparr>digest_of = \<lambda>b. b, identity = \<lambda>p. p, display = path_str\<rparr>"

definition quiet_env :: edit_env where
  "quiet_env = \<lparr>others = \<lambda>_ d. d, env_cancelled = False, env_join_error = None, env_write_fault = None, env_mtime = Some 9\<rparr>"

abbreviation demo_path :: path where "demo_path \<equiv> [RootDir, Normal ''f'']"

definition demo_disk :: disk where "demo_disk = [demo_path \<mapsto> RegularFile ''one'' (Some 5)]"

definition demo_tracker :: "string tracker" where "demo_tracker = snd (record_read plain_lib demo_disk demo_path Map.empty)"

abbreviation demo_edit :: edit_spec where "demo_edit \<equiv> \<lparr>es_old = ''one'', es_new = ''1'', es_replace_all = False\<rparr>"

definition demo_file_edit :: "nat file_edit" where
  "demo_file_edit = \<lparr>fe_before = Some ''one'', fe_applied = \<lparr>ap_content = ''1'', ap_reports = [\<lparr>replacements = 1, er_kind = Exact\<rparr>]\<rparr>\<rparr>"

lemma demo_tracker_simp: "demo_tracker = [demo_path \<mapsto> \<lparr>st_len = 3, st_mtime = Some 5, st_digest = ''one''\<rparr>]"
  by (simp add: demo_tracker_def record_read_def stamp_capture_def metadata_of_def read_bytes_def demo_disk_def plain_lib_def
      numeral_3_eq_3)

lemma demo_load: "load_text plain_lib demo_disk demo_path = Inr (Some ''one'')"
proof -
  have "decode_text ''one'' False = (''one'', False)" by code_simp
  then show ?thesis by (simp add: load_text_def read_text_def demo_disk_def MAX_EDIT_BYTES_def)
qed

lemma demo_run: "edit_file plain_lib permille quiet_env demo_path [demo_edit] ef_message demo_disk demo_tracker =
  (Inr demo_file_edit, demo_disk(demo_path \<mapsto> RegularFile ''1'' (Some 9)),
   demo_tracker(demo_path \<mapsto> \<lparr>st_len = 1, st_mtime = Some 9, st_digest = ''1''\<rparr>))"
proof -
  have a: "apply_edits permille (Some ''one'') [demo_edit] = Inr (fe_applied demo_file_edit)" by code_simp
  have x: "extension demo_path = None" by code_simp
  show ?thesis using demo_load a x
    by (simp add: edit_file_def quiet_env_def ensure_fresh_def check_fresh_def demo_tracker_simp observe_def metadata_of_def demo_disk_def
        metadata_matches_def save_text_def atomic_write_def record_write_def record_read_def stamp_capture_def read_bytes_def
        plain_lib_def demo_file_edit_def)
qed

theorem edits_apply_to_what_was_seen_witness:
  "was_read plain_lib demo_path demo_tracker \<and> ''one'' = ''one'' \<and> apply_edits permille (Some ''one'') [demo_edit] = Inr (fe_applied demo_file_edit)"
  by (rule edits_apply_to_what_was_seen [OF demo_run, where t = "Some 5"])
    (simp_all add: demo_file_edit_def demo_tracker_simp plain_lib_def quiet_env_def demo_disk_def)

theorem failed_edits_write_nothing_witness:
  "fst (snd (edit_file plain_lib permille quiet_env demo_path [demo_edit] ef_message demo_disk Map.empty)) demo_path = demo_disk demo_path"
proof -
  have x: "extension demo_path = None" by code_simp
  obtain e where e: "fst (edit_file plain_lib permille quiet_env demo_path [demo_edit] ef_message demo_disk Map.empty) = Inl e"
    using demo_load x by (simp add: edit_file_def quiet_env_def ensure_fresh_def check_fresh_def)
  obtain d' tr' where "edit_file plain_lib permille quiet_env demo_path [demo_edit] ef_message demo_disk Map.empty = (Inl e, d', tr')"
    using e by (metis prod.collapse)
  from failed_edits_write_nothing [OF this, of demo_path] this show ?thesis by (simp add: quiet_env_def)
qed

theorem successful_edits_store_the_result_witness:
  "demo_disk(demo_path \<mapsto> RegularFile ''1'' (Some 9)) = demo_disk(demo_path \<mapsto> RegularFile (ap_content (fe_applied demo_file_edit)) (env_mtime quiet_env)) \<and>
   fst (check_fresh plain_lib (demo_disk(demo_path \<mapsto> RegularFile ''1'' (Some 9))) demo_path
     (demo_tracker(demo_path \<mapsto> \<lparr>st_len = 1, st_mtime = Some 9, st_digest = ''1''\<rparr>))) = Inr ()"
  by (rule successful_edits_store_the_result [OF demo_run]) (simp add: quiet_env_def)

theorem loaded_text_is_the_file_witness:
  "(\<exists>t. demo_disk demo_path = Some (RegularFile ''one'' t)) \<and> length ''one'' \<le> 16777216"
  by (rule loaded_text_is_the_file [OF demo_load])

text \<open>
  The stamp of an own write is taken after the write: what another process writes in between counts as seen, and the next
  edit overwrites it.
\<close>

lemma racing_write_counts_as_seen:
  "let env = quiet_env\<lparr>others := \<lambda>i d. if i = 3 then d(demo_path \<mapsto> RegularFile ''theirs'' (Some 10)) else d\<rparr>;
       (r, d', tr') = edit_file plain_lib permille env demo_path [demo_edit] ef_message demo_disk demo_tracker in
   d' demo_path = Some (RegularFile ''theirs'' (Some 10)) \<and> fst (check_fresh plain_lib d' demo_path tr') = Inr ()"
proof -
  have a: "apply_edits permille (Some ''one'') [demo_edit] = Inr (fe_applied demo_file_edit)" by code_simp
  have x: "extension demo_path = None" by code_simp
  show ?thesis using demo_load a x
    by (simp add: edit_file_def quiet_env_def ensure_fresh_def check_fresh_def demo_tracker_simp observe_def metadata_of_def demo_disk_def
        metadata_matches_def save_text_def atomic_write_def record_write_def record_read_def stamp_capture_def read_bytes_def
        plain_lib_def demo_file_edit_def)
qed

end
