(* ===== verification/Hooks.thy ===== *)
theory Hooks
  imports Protocol Edit_File
begin

text \<open>
  \<open>crates/z-engine-engine/src/hooks\<close>: how the runs of configured hooks are read (\<open>outcome.rs\<close>), the payload they
  get (\<open>event.rs\<close>) and the loop over the hooks of an event (\<open>runner.rs\<close>).

  \<open>json\<close> is \<open>serde_json::Value\<close> with the fields of an object as an association list, whose order does not matter here, and numbers as their text. The record
  \<open>hook_lib\<close> holds what is outside: the crate \<open>regex\<close>, the derived parser of \<open>HookJson\<close>, and the run of
  a hook's command on a payload.
\<close>

section \<open>JSON values\<close>

datatype json =
    JNull
  | JBool bool
  | JNumber string
  | JString string
  | JArray "json list"
  | JObject "(string \<times> json) list"

fun is_object :: "json \<Rightarrow> bool" where
  "is_object (JObject _) = True"
| "is_object _ = False"

definition json_insert :: "string \<Rightarrow> json \<Rightarrow> (string \<times> json) list \<Rightarrow> (string \<times> json) list" where
  "json_insert k v fs = (if k \<in> fst ` set fs then map (\<lambda>(k', v'). (k', if k' = k then v else v')) fs else fs @ [(k, v)])"

section \<open>Events (event.rs)\<close>

datatype hook_event =
    SessionStart | UserPromptSubmit | PreToolUse | PostToolUse | Stop | SubagentStop | PreCompact | Notification | SessionEnd

fun event_name :: "hook_event \<Rightarrow> string" where
  "event_name SessionStart = ''SessionStart''"
| "event_name UserPromptSubmit = ''UserPromptSubmit''"
| "event_name PreToolUse = ''PreToolUse''"
| "event_name PostToolUse = ''PostToolUse''"
| "event_name Stop = ''Stop''"
| "event_name SubagentStop = ''SubagentStop''"
| "event_name PreCompact = ''PreCompact''"
| "event_name Notification = ''Notification''"
| "event_name SessionEnd = ''SessionEnd''"

definition stdout_is_context :: "hook_event \<Rightarrow> bool" where
  "stdout_is_context event \<longleftrightarrow> event = UserPromptSubmit \<or> event = SessionStart"

record hook_input =
  hi_target :: "string option"
  hi_fields :: "(string \<times> json) list"

definition new_input :: hook_input where "new_input = \<lparr>hi_target = None, hi_fields = []\<rparr>"

definition with_field :: "string \<Rightarrow> json \<Rightarrow> hook_input \<Rightarrow> hook_input" where
  "with_field k v i = i\<lparr>hi_fields := json_insert k v (hi_fields i)\<rparr>"

definition tool_input :: "string \<Rightarrow> json \<Rightarrow> hook_input" where
  "tool_input name input =
     with_field ''tool_input'' input (with_field ''tool_name'' (JString name) (new_input\<lparr>hi_target := Some name\<rparr>))"

record hook_config =
  hc_matcher :: "string option"
  hc_command :: string

record hook_env =
  he_hooks :: "string \<Rightarrow> hook_config list option"
  he_session_id :: string
  he_transcript_path :: string
  he_cwd :: string
  he_mode :: permission_mode

definition payload :: "hook_env \<Rightarrow> hook_event \<Rightarrow> hook_input \<Rightarrow> json" where
  "payload env event input = JObject (foldl (\<lambda>fs (k, v). json_insert k v fs)
     [(''session_id'', JString (he_session_id env)), (''transcript_path'', JString (he_transcript_path env)),
      (''cwd'', JString (he_cwd env)), (''hook_event_name'', JString (event_name event)),
      (''permission_mode'', JString (label (he_mode env)))] (hi_fields input))"

section \<open>Outcomes (outcome.rs)\<close>

datatype permission_override = ForceAllow | ForceAsk | ForceDeny

record hook_outcome =
  ho_blocked :: "string option"
  ho_stop :: "string option"
  ho_context :: "string list"
  ho_permission :: "(permission_override \<times> string option) option"
  ho_updated_input :: "json option"

definition default_outcome :: hook_outcome where
  "default_outcome = \<lparr>ho_blocked = None, ho_stop = None, ho_context = [], ho_permission = None, ho_updated_input = None\<rparr>"

record run_summary =
  rs_blocked :: bool
  rs_message :: "string option"
  rs_warning :: "string option"

definition default_summary :: run_summary where
  "default_summary = \<lparr>rs_blocked = False, rs_message = None, rs_warning = None\<rparr>"

record specific_output =
  so_permission_decision :: "string option"
  so_permission_decision_reason :: "string option"
  so_updated_input :: "json option"
  so_additional_context :: "string option"

record hook_json =
  hj_decision :: "string option"
  hj_reason :: "string option"
  hj_proceed :: "bool option"
  hj_stop_reason :: "string option"
  hj_specific :: "specific_output option"

definition default_specific :: specific_output where
  "default_specific = \<lparr>so_permission_decision = None, so_permission_decision_reason = None, so_updated_input = None,
     so_additional_context = None\<rparr>"

text \<open>The fields of \<open>RunOutput\<close> that hooks read.\<close>

record run_output =
  ro_exit_code :: "int option"
  ro_stdout :: string
  ro_stderr :: string
  ro_timed_out :: bool

record hook_lib =
  regex_match :: "string \<Rightarrow> string \<Rightarrow> string + bool"
  parse_hook_json :: "string \<Rightarrow> hook_json option"
  run_hook :: "hook_config \<Rightarrow> json \<Rightarrow> host_error + run_output"

fun int_str :: "int \<Rightarrow> string" where
  "int_str i = (if i < 0 then CHR ''-'' # nat_str (nat (- i)) else nat_str (nat i))"

definition hook_warn :: "string \<Rightarrow> run_summary" where
  "hook_warn warning = \<lparr>rs_blocked = False, rs_message = Some warning, rs_warning = Some warning\<rparr>"

definition non_empty :: "string \<Rightarrow> string option" where
  "non_empty t = (if t \<noteq> [] then Some t else None)"

fun override_rank :: "permission_override \<Rightarrow> nat" where
  "override_rank ForceAllow = 0"
| "override_rank ForceAsk = 1"
| "override_rank ForceDeny = 2"

definition strictest ::
  "(permission_override \<times> string option) option \<Rightarrow> permission_override \<times> string option \<Rightarrow> permission_override \<times> string option" where
  "strictest current new = (case current of
     Some c \<Rightarrow> if override_rank (fst c) \<ge> override_rank (fst new) then c else new
   | None \<Rightarrow> new)"

definition forced_of :: "hook_json \<Rightarrow> specific_output \<Rightarrow> permission_override option" where
  "forced_of j specific =
     (let decision = (case so_permission_decision specific of
          Some d \<Rightarrow> Some d
        | None \<Rightarrow> if hj_decision j = Some ''approve'' then Some ''allow'' else None) in
      if decision = Some ''allow'' then Some ForceAllow
      else if decision = Some ''ask'' then Some ForceAsk
      else if decision = Some ''deny'' then Some ForceDeny else None)"

definition hook_success :: "hook_lib \<Rightarrow> hook_event \<Rightarrow> string \<Rightarrow> hook_outcome \<Rightarrow> run_summary \<times> hook_outcome" where
  "hook_success H event stdout outcome =
     (case (if starts_with ''{'' stdout then parse_hook_json H stdout else None) of
        None \<Rightarrow>
          (default_summary,
           if stdout_is_context event \<and> stdout \<noteq> [] then outcome\<lparr>ho_context := ho_context outcome @ [stdout]\<rparr> else outcome)
      | Some j \<Rightarrow>
          let specific = (case hj_specific j of Some s \<Rightarrow> s | None \<Rightarrow> default_specific);
              o1 = (case Option.bind (so_additional_context specific) non_empty of
                      Some context \<Rightarrow> outcome\<lparr>ho_context := ho_context outcome @ [context]\<rparr> | None \<Rightarrow> outcome);
              o2 = (case so_updated_input specific of
                      Some input \<Rightarrow> if is_object input then o1\<lparr>ho_updated_input := Some input\<rparr> else o1 | None \<Rightarrow> o1);
              o3 = (case forced_of j specific of
                      Some forced \<Rightarrow>
                        o2\<lparr>ho_permission := Some (strictest (ho_permission o2)
                          (forced, case so_permission_decision_reason specific of Some r \<Rightarrow> Some r | None \<Rightarrow> hj_reason j))\<rparr>
                    | None \<Rightarrow> o2);
              block_reason = (case hj_reason j of Some r \<Rightarrow> r | None \<Rightarrow> ''blocked by hook'');
              (s4, o4) = (if hj_decision j = Some ''block''
                 then (default_summary\<lparr>rs_blocked := True, rs_message := Some block_reason\<rparr>, o3\<lparr>ho_blocked := Some block_reason\<rparr>)
                 else (default_summary, o3));
              stop_reason = (case hj_stop_reason j of Some r \<Rightarrow> r | None \<Rightarrow> ''stopped by hook'')
          in if hj_proceed j = Some False
             then (s4\<lparr>rs_message := Some stop_reason\<rparr>, o4\<lparr>ho_stop := Some stop_reason\<rparr>)
             else (s4, o4))"

definition interpret_run :: "hook_lib \<Rightarrow> hook_event \<Rightarrow> run_output \<Rightarrow> hook_outcome \<Rightarrow> run_summary \<times> hook_outcome" where
  "interpret_run H event run outcome =
     (if ro_timed_out run then (hook_warn ''timed out'', outcome)
      else (case ro_exit_code run of
        None \<Rightarrow> (hook_warn ''was stopped before it finished'', outcome)
      | Some c \<Rightarrow>
          if c = 0 then hook_success H event (trim (ro_stdout run)) outcome
          else if c = 2 then
            let reason = (case non_empty (trim (ro_stderr run)) of Some r \<Rightarrow> r | None \<Rightarrow> ''blocked by hook'') in
            (\<lparr>rs_blocked = True, rs_message = Some reason, rs_warning = None\<rparr>, outcome\<lparr>ho_blocked := Some reason\<rparr>)
          else (hook_warn (''exited with '' @ int_str c @ '': '' @ trim (ro_stderr run)), outcome)))"

section \<open>Running hooks (runner.rs)\<close>

datatype hook_note = HookNotice string | HookRan string string bool "string option"

definition hook_matches :: "hook_lib \<Rightarrow> string option \<Rightarrow> string option \<Rightarrow> string + bool" where
  "hook_matches H matcher target =
     (let pattern = (case matcher of Some m \<Rightarrow> trim m | None \<Rightarrow> []) in
      if pattern = [] \<or> pattern = ''*'' then Inr True
      else (case target of None \<Rightarrow> Inr True | Some t \<Rightarrow> regex_match H (''^(?:'' @ pattern @ '')$'') t))"

definition hook_failed :: "host_error \<Rightarrow> run_summary" where
  "hook_failed e = hook_warn (''could not run: '' @ host_error_text e)"

primrec hook_loop ::
  "hook_lib \<Rightarrow> hook_env \<Rightarrow> hook_event \<Rightarrow> hook_config list \<Rightarrow> hook_input \<Rightarrow> hook_outcome \<Rightarrow> hook_note list \<Rightarrow>
   hook_outcome \<times> hook_note list" where
  "hook_loop H env event [] input outcome notes = (outcome, notes)"
| "hook_loop H env event (hook # hooks) input outcome notes =
     (case hook_matches H (hc_matcher hook) (hi_target input) of
        Inl e \<Rightarrow>
          hook_loop H env event hooks input outcome
            (notes @ [HookNotice (event_name event @ '' hook matcher '' @
              ticked (case hc_matcher hook of Some m \<Rightarrow> m | None \<Rightarrow> []) @ '' is invalid: '' @ e)])
      | Inr False \<Rightarrow> hook_loop H env event hooks input outcome notes
      | Inr True \<Rightarrow>
          let (summary, o') = (case run_hook H hook (payload env event input) of
                Inr output \<Rightarrow> interpret_run H event output outcome
              | Inl e \<Rightarrow> (hook_failed e, outcome));
              notes' = notes @
                (case rs_warning summary of
                   Some warning \<Rightarrow> [HookNotice (event_name event @ '' hook '' @ ticked (hc_command hook) @ '' '' @ warning)]
                 | None \<Rightarrow> []) @
                [HookRan (event_name event) (hc_command hook) (rs_blocked summary) (rs_message summary)];
              input' = (case ho_updated_input o' of Some v \<Rightarrow> with_field ''tool_input'' v input | None \<Rightarrow> input)
          in if ho_blocked o' \<noteq> None \<or> ho_stop o' \<noteq> None then (o', notes')
             else hook_loop H env event hooks input' o' notes')"

definition run_hooks :: "hook_lib \<Rightarrow> hook_env \<Rightarrow> hook_event \<Rightarrow> hook_input \<Rightarrow> hook_outcome \<times> hook_note list" where
  "run_hooks H env event input = (case he_hooks env (event_name event) of
     None \<Rightarrow> (default_outcome, [])
   | Some hooks \<Rightarrow> hook_loop H env event (filter (\<lambda>hook. trim (hc_command hook) \<noteq> []) hooks) input default_outcome [])"

end
