(* ===== verification/Batch.thy ===== *)
theory Batch
  imports Hooks Examples
begin

text \<open>
  \<open>crates/z-engine-engine/src/batch\<close>: one batch of tool calls. Every call passes the gate (\<open>gate.rs\<close>:
  schema, hooks, policy, review), approvals are resolved together (\<open>approval.rs\<close>), and the calls run in order with
  neighbouring safe ones together (\<open>execute.rs\<close>). \<open>scope.rs\<close> and \<open>settings/policy.rs\<close> choose the
  policy.

  A tool is the record of the trait's methods. Fresh request ids, the review by decision uses, the answers of the user, and
  the result of running a tool are arguments.
\<close>

section \<open>Calls, verdicts and requests\<close>

datatype tool_status = StatusOk | StatusError | StatusDenied | StatusCancelled

datatype preview =
    DiffPreview string string
  | CommandPreview string "string option"
  | TextPreview string

record tool_call =
  tc_id :: string
  tc_name :: string
  tc_input :: json

record tool =
  t_name :: string
  t_input_schema :: json
  t_is_read_only :: "json \<Rightarrow> bool"
  t_is_concurrency_safe :: "json \<Rightarrow> bool"
  t_action :: "json \<Rightarrow> action"
  t_title :: "json \<Rightarrow> string"
  t_preview :: "json \<Rightarrow> preview option"

record approval_request =
  ar_request_id :: string
  ar_agent_id :: string
  ar_call_id :: string
  ar_tool :: string
  ar_title :: string
  ar_input :: json
  ar_preview :: "preview option"
  ar_reason :: string
  ar_suggested_rule :: "string option"
  ar_can_persist :: bool

datatype approval_decision =
    AllowOnce
  | AllowSession string
  | AllowProject string
  | DenyApproval "string option"

fun approval_allows :: "approval_decision \<Rightarrow> bool" where
  "approval_allows (DenyApproval _) = False"
| "approval_allows _ = True"

datatype verdict =
    Run tool
  | Refuse tool_status string
  | AskUser tool approval_request

record gated =
  g_call :: tool_call
  g_verdict :: verdict

section \<open>The structural check (schema.rs)\<close>

fun json_get :: "string \<Rightarrow> json \<Rightarrow> json option" where
  "json_get k (JObject fs) = map_of fs k"
| "json_get k _ = None"

definition required_keys :: "json \<Rightarrow> string list" where
  "required_keys schema = (case json_get ''required'' schema of
     Some (JArray vs) \<Rightarrow> List.map_filter (\<lambda>v. case v of JString s \<Rightarrow> Some s | _ \<Rightarrow> None) vs
   | _ \<Rightarrow> [])"

definition schema_check :: "json \<Rightarrow> json \<Rightarrow> string + unit" where
  "schema_check schema input =
     (if \<not> is_object input then Inl ''The tool input must be a JSON object.''
      else (case filter (\<lambda>k. json_get k input = None \<or> json_get k input = Some JNull) (required_keys schema) of
        [] \<Rightarrow> Inr ()
      | [one] \<Rightarrow> Inl (''Missing required parameter '' @ ticked one @ ''.'')
      | many \<Rightarrow> Inl (''Missing required parameters: '' @ join_with '', '' (map ticked many) @ ''.'')))"

section \<open>The policy of the session (settings/policy.rs, scope.rs)\<close>

record session_settings =
  ss_config :: policy_config
  ss_additional_dirs :: "path list"

fun push_dirs :: "path list \<Rightarrow> path list \<Rightarrow> path list" where
  "push_dirs dirs [] = dirs"
| "push_dirs dirs (d # ds) = push_dirs (if d \<in> set dirs then dirs else dirs @ [d]) ds"

fun grant_rules :: "glob_lib \<Rightarrow> policy \<Rightarrow> policy_error list \<Rightarrow> string list \<Rightarrow> policy \<times> policy_error list" where
  "grant_rules G p errors [] = (p, errors)"
| "grant_rules G p errors (r # rs) = (case add_session_rule G r p of
     Inl e \<Rightarrow> grant_rules G p (errors @ [e]) rs
   | Inr p' \<Rightarrow> grant_rules G p' errors rs)"

definition build_policy ::
  "glob_lib \<Rightarrow> session_settings \<Rightarrow> path \<Rightarrow> path option \<Rightarrow> string list \<Rightarrow> path list \<Rightarrow> policy \<times> policy_error list" where
  "build_policy G settings root home_dir granted added =
     (let (p, errors) = new_policy G (ss_config settings)
            \<lparr>project_root = root, additional_dirs = push_dirs (ss_additional_dirs settings) added, home = home_dir\<rparr>
      in grant_rules G p errors granted)"

record gate_env =
  ge_globs :: glob_lib
  ge_policy :: policy
  ge_mode :: permission_mode
  ge_worktree :: "path option"
  ge_root :: path
  ge_settings :: session_settings
  ge_home :: "path option"
  ge_added_dirs :: "path list"
  ge_agent_id :: string
  ge_hooks :: hook_lib
  ge_hook_env :: hook_env
  ge_review :: "tool_call \<Rightarrow> string option"
  ge_request_id :: "tool_call \<Rightarrow> string"

text \<open>\<open>ge_worktree\<close> is the project of an agent that works in a worktree, whose root is \<open>ge_root\<close>.\<close>

definition in_project :: "path \<Rightarrow> path \<Rightarrow> path \<Rightarrow> bool" where
  "in_project project worktree p \<longleftrightarrow> starts_with project p \<and> \<not> starts_with worktree p"

definition scope_decide :: "gate_env \<Rightarrow> string \<Rightarrow> action \<Rightarrow> decision" where
  "scope_decide e tool a = (case ge_worktree e of
     None \<Rightarrow> decide (ge_globs e) (ge_policy e) tool a (ge_mode e)
   | Some project \<Rightarrow>
       (case a of
          Write paths \<Rightarrow>
            if \<exists>p \<in> set paths. in_project project (ge_root e) p
            then Deny (''this agent works in the isolated worktree '' @ path_str (ge_root e) @ ''; it may change files only there'')
            else decide (ge_globs e) (fst (build_policy (ge_globs e) (ge_settings e) (ge_root e) (ge_home e)
                (session_rules (ge_policy e)) (ge_added_dirs e))) tool a (ge_mode e)
        | Read paths \<Rightarrow>
            if paths \<noteq> [] \<and> (\<forall>p \<in> set paths. in_project project (ge_root e) p)
            then decide (ge_globs e) (ge_policy e) tool a (ge_mode e)
            else decide (ge_globs e) (fst (build_policy (ge_globs e) (ge_settings e) (ge_root e) (ge_home e)
                (session_rules (ge_policy e)) (ge_added_dirs e))) tool a (ge_mode e)
        | _ \<Rightarrow> decide (ge_globs e) (fst (build_policy (ge_globs e) (ge_settings e) (ge_root e) (ge_home e)
                (session_rules (ge_policy e)) (ge_added_dirs e))) tool a (ge_mode e)))"

section \<open>The gate (gate.rs, seams/tool_gate.rs)\<close>

definition with_override :: "decision \<Rightarrow> (permission_override \<times> string option) option \<Rightarrow> decision" where
  "with_override decision forced = (case forced of
     None \<Rightarrow> decision
   | Some (f, r) \<Rightarrow>
       let hook_reason = (\<lambda>default. case r of Some t \<Rightarrow> t | None \<Rightarrow> default) in
       (case (f, decision) of
          (_, Deny why) \<Rightarrow> Deny why
        | (ForceDeny, _) \<Rightarrow> Deny (hook_reason ''a PreToolUse hook denied it'')
        | (ForceAllow, _) \<Rightarrow> Allow (hook_reason ''a PreToolUse hook allowed it'')
        | (ForceAsk, Ask why rule persist) \<Rightarrow> Ask why rule persist
        | (ForceAsk, Allow _) \<Rightarrow> Ask (hook_reason ''a PreToolUse hook asks for approval'') None False))"

definition escalate :: "decision \<Rightarrow> string option \<Rightarrow> decision" where
  "escalate decision why = (case (decision, why) of
     (Allow _, Some r) \<Rightarrow> Ask r None False
   | (d, _) \<Rightarrow> d)"

definition review_call :: "gate_env \<Rightarrow> tool_call \<Rightarrow> decision \<Rightarrow> decision" where
  "review_call e call decision = (case decision of Allow _ \<Rightarrow> escalate decision (ge_review e call) | _ \<Rightarrow> decision)"

definition refused_call :: "tool_call \<Rightarrow> tool_status \<Rightarrow> string \<Rightarrow> gated" where
  "refused_call call status message = \<lparr>g_call = call, g_verdict = Refuse status message\<rparr>"

definition verdict_of :: "gate_env \<Rightarrow> tool \<Rightarrow> tool_call \<Rightarrow> decision \<Rightarrow> verdict" where
  "verdict_of e t call decision = (case decision of
     Allow _ \<Rightarrow> Run t
   | Deny why \<Rightarrow> Refuse StatusDenied (''Permission denied: '' @ why)
   | Ask why rule persist \<Rightarrow>
       AskUser t \<lparr>ar_request_id = ge_request_id e call, ar_agent_id = ge_agent_id e, ar_call_id = tc_id call,
         ar_tool = tc_name call, ar_title = t_title t (tc_input call), ar_input = tc_input call,
         ar_preview = t_preview t (tc_input call), ar_reason = why, ar_suggested_rule = rule, ar_can_persist = persist\<rparr>)"

definition gate :: "gate_env \<Rightarrow> tool list \<Rightarrow> (string \<times> string) list \<Rightarrow> tool_call \<Rightarrow> gated" where
  "gate e tools malformed call =
     (case List.find (\<lambda>bad. fst bad = tc_id call) malformed of
        Some bad \<Rightarrow>
          refused_call call StatusError (''The input for '' @ tc_name call @ '' is not a valid JSON object ('' @ snd bad @
            ''). Send the call again with valid JSON.'')
      | None \<Rightarrow>
          (case List.find (\<lambda>t. t_name t = tc_name call) tools of
             None \<Rightarrow> refused_call call StatusError (''Unknown tool '' @ ticked (tc_name call) @ ''. Available tools: '' @
               join_with '', '' (map t_name tools) @ ''.'')
           | Some t \<Rightarrow>
               (case schema_check (t_input_schema t) (tc_input call) of
                  Inl message \<Rightarrow> refused_call call StatusError message
                | Inr _ \<Rightarrow>
                    let hooks = fst (run_hooks (ge_hooks e) (ge_hook_env e) PreToolUse (tool_input (tc_name call) (tc_input call)));
                        call = (case ho_updated_input hooks of Some v \<Rightarrow> call\<lparr>tc_input := v\<rparr> | None \<Rightarrow> call) in
                    (case ho_blocked hooks of
                       Some why \<Rightarrow> refused_call call StatusDenied (''A PreToolUse hook blocked this call: '' @ why)
                     | None \<Rightarrow>
                         let decision = with_override (scope_decide e (t_name t) (t_action t (tc_input call))) (ho_permission hooks) in
                         \<lparr>g_call = call, g_verdict = verdict_of e t call (review_call e call decision)\<rparr>))))"

section \<open>Approvals (approval.rs)\<close>

definition CANCELLED :: string where "CANCELLED = ''cancelled by user''"

definition denial :: "string option \<Rightarrow> string" where
  "denial feedback = (case feedback of
     Some f \<Rightarrow> if trim f \<noteq> [] then ''The user denied this action.'' @ [NL] @ ''Feedback from the user: '' @ trim f
              else ''The user denied this action.''
   | None \<Rightarrow> ''The user denied this action.'')"

text \<open>\<open>reply\<close> is the answer to a request, \<open>None\<close> when the wait was cancelled or the request dropped.\<close>

definition resolve_one :: "(approval_request \<Rightarrow> approval_decision option) \<Rightarrow> gated \<Rightarrow> gated" where
  "resolve_one reply g = (case g_verdict g of
     AskUser t request \<Rightarrow>
       g\<lparr>g_verdict := (case reply request of
          Some (DenyApproval feedback) \<Rightarrow> Refuse StatusDenied (denial feedback)
        | Some _ \<Rightarrow> Run t
        | None \<Rightarrow> Refuse StatusCancelled CANCELLED)\<rparr>
   | _ \<Rightarrow> g)"

definition resolve_approvals :: "(approval_request \<Rightarrow> approval_decision option) \<Rightarrow> gated list \<Rightarrow> gated list" where
  "resolve_approvals reply gs = map (resolve_one reply) gs"

section \<open>Running one call (call.rs)\<close>

record effects =
  files_written :: "path list"
  files_read :: "path list"
  ran_command :: bool

definition no_effects :: effects where "no_effects = \<lparr>files_written = [], files_read = [], ran_command = False\<rparr>"

record tool_output =
  to_content :: "tool_result_part list"
  to_summary :: string
  to_is_error :: bool
  to_effects :: effects

record call_result =
  cr_block :: "json content_block"
  cr_mutated :: bool
  cr_touched :: "path list"
  cr_written :: "path list"

fun tool_error_text :: "tool_error \<Rightarrow> string" where
  "tool_error_text (InvalidInput m) = ''invalid input: '' @ m"
| "tool_error_text (Failed m) = m"
| "tool_error_text ToolCancelled = ''cancelled by user''"
| "tool_error_text (Unavailable m) = m"

definition wrap_reminder :: "string \<Rightarrow> string" where
  "wrap_reminder body = ''<system-reminder>'' @ [NL] @ trim body @ [NL] @ ''</system-reminder>''"

definition parts_text :: "tool_result_part list \<Rightarrow> string" where
  "parts_text content = join_with [NL] (List.map_filter (\<lambda>p. case p of PartText t \<Rightarrow> Some t | PartImage _ \<Rightarrow> None) content)"

definition post_hooks :: "hook_lib \<Rightarrow> hook_env \<Rightarrow> tool_call \<Rightarrow> tool_result_part list \<Rightarrow> bool \<Rightarrow> tool_result_part list" where
  "post_hooks H env call content is_error =
     (let input = with_field ''tool_response'' (JObject [(''content'', JString (parts_text content)), (''is_error'', JBool is_error)])
            (tool_input (tc_name call) (tc_input call));
          outcome = fst (run_hooks H env PostToolUse input);
          notes = ho_context outcome @ (case ho_blocked outcome of Some b \<Rightarrow> [b] | None \<Rightarrow> [])
      in map (\<lambda>note. PartText (wrap_reminder (''PostToolUse hook feedback:'' @ [NL] @ note))) notes)"

text \<open>The \<open>match\<close> on the result of the tool, for a run that is cancelled by then or not.\<close>

definition read_result :: "tool_error + tool_output \<Rightarrow> bool \<Rightarrow> tool_result_part list \<times> bool \<times> tool_status \<times> effects" where
  "read_result result cancelled = (case result of
     Inr out \<Rightarrow>
       (if cancelled then to_content out @ [PartText CANCELLED] else to_content out, to_is_error out \<or> cancelled,
        if cancelled then StatusCancelled else if to_is_error out then StatusError else StatusOk, to_effects out)
   | Inl e \<Rightarrow>
       if cancelled \<or> e = ToolCancelled then ([PartText CANCELLED], True, StatusCancelled, no_effects)
       else ([PartText (tool_error_text e)], True, StatusError, no_effects))"

text \<open>
  What is outside of a batch's execution: the result of calling the tool at a place (after the grace period), whether the
  run is cancelled when it returns, the hooks, the notes of decision uses, the tests for cancellation, and the language
  server.
\<close>

record exec_env =
  ee_call :: "nat \<Rightarrow> tool_call \<Rightarrow> tool_error + tool_output"
  ee_call_cancelled :: "nat \<Rightarrow> bool"
  ee_hooks :: hook_lib
  ee_hook_env :: hook_env
  ee_annotate :: "tool_call \<Rightarrow> tool_status \<Rightarrow> tool_result_part list \<Rightarrow> tool_result_part list"
  ee_is_cancelled :: "nat \<Rightarrow> bool"
  ee_cancelled_at_end :: bool
  ee_lsp_worker :: bool
  ee_lsp_covers :: "path \<Rightarrow> bool"
  ee_lsp_notes :: "path set \<Rightarrow> path \<Rightarrow> string option"

definition run_call :: "exec_env \<Rightarrow> nat \<Rightarrow> tool \<Rightarrow> tool_call \<Rightarrow> call_result" where
  "run_call X at t call =
     (let (content, is_error, status, eff) = read_result (ee_call X at call) (ee_call_cancelled X at);
          content = (if status \<noteq> StatusCancelled
            then ee_annotate X call status (content @ post_hooks (ee_hooks X) (ee_hook_env X) call content is_error) else content)
      in \<lparr>cr_block = ToolResult (tc_id call) content is_error,
          cr_mutated = (files_written eff \<noteq> [] \<or> (ran_command eff \<and> \<not> t_is_read_only t (tc_input call) \<and> t_name t \<noteq> ''Verify'')),
          cr_touched = files_read eff @ files_written eff, cr_written = files_written eff\<rparr>)"

text \<open>The files a call wrote are stamped again, so that its own writes do not make them stale.\<close>

definition restamp_written :: "'d edit_lib \<Rightarrow> disk \<Rightarrow> call_result \<Rightarrow> 'd tracker \<Rightarrow> 'd tracker" where
  "restamp_written E d r tr = fold (\<lambda>p tr. snd (record_write E d p tr)) (cr_written r) tr"

section \<open>Execution (execute.rs)\<close>

record batch_outcome =
  bo_results :: "json content_block list"
  bo_cancelled :: bool
  bo_mutated :: bool
  bo_used_todo_write :: bool
  bo_written :: "path list"

definition refused_block :: "tool_call \<Rightarrow> string \<Rightarrow> json content_block" where
  "refused_block call message = ToolResult (tc_id call) [PartText message] True"

text \<open>The inner loop from \<open>at\<close> on: the calls to run together, where to go on, and the results of refused calls.\<close>

primrec scan_segment ::
  "gated list \<Rightarrow> nat \<Rightarrow> nat list \<Rightarrow> json content_block option list \<Rightarrow> nat list \<times> nat \<times> json content_block option list" where
  "scan_segment [] at segment results = (segment, at, results)"
| "scan_segment (g # gs) at segment results = (case g_verdict g of
     Refuse status message \<Rightarrow> scan_segment gs (Suc at) segment (results[at := Some (refused_block (g_call g) message)])
   | AskUser t request \<Rightarrow> scan_segment gs (Suc at) segment (results[at := Some (refused_block (g_call g) CANCELLED)])
   | Run t \<Rightarrow>
       if t_is_concurrency_safe t (tc_input (g_call g)) then scan_segment gs (Suc at) (segment @ [at]) results
       else if segment = [] then ([at], Suc at, results)
       else (segment, at, results))"

text \<open>
  The trace lists the calls that ran together. \<open>ee_is_cancelled X i\<close> says whether the run is cancelled when the
  outer loop tests it for the \<open>i\<close>th time.
\<close>

record exec_state =
  xs_results :: "json content_block option list"
  xs_mutated :: bool
  xs_touched :: "path list"
  xs_written :: "(nat \<times> path list) list"
  xs_trace :: "nat list list"

definition collect_result :: "exec_env \<Rightarrow> gated list \<Rightarrow> nat \<Rightarrow> exec_state \<Rightarrow> exec_state" where
  "collect_result X gs at s = (case g_verdict (gs ! at) of
     Run t \<Rightarrow>
       let r = run_call X at t (g_call (gs ! at)) in
       s\<lparr>xs_results := (xs_results s)[at := Some (cr_block r)], xs_mutated := xs_mutated s \<or> cr_mutated r,
         xs_touched := xs_touched s @ cr_touched r,
         xs_written := (if cr_written r \<noteq> [] then xs_written s @ [(at, cr_written r)] else xs_written s)\<rparr>
   | _ \<Rightarrow> s)"

lemma scan_segment_progress:
  assumes "scan_segment gs at segment results = (seg, n, rs)"
  shows "at \<le> n \<and> n \<le> at + length gs \<and> (segment = [] \<longrightarrow> gs \<noteq> [] \<longrightarrow> at < n)"
  using assms
proof (induction gs arbitrary: at segment results)
  case (Cons g gs)
  then show ?case by (fastforce split: verdict.splits if_splits)
qed simp

function exec_loop :: "exec_env \<Rightarrow> gated list \<Rightarrow> nat \<Rightarrow> nat \<Rightarrow> exec_state \<Rightarrow> exec_state" where
  "exec_loop X gs i index s =
     (if length gs \<le> index \<or> ee_is_cancelled X i then s
      else case scan_segment (drop index gs) index [] (xs_results s) of
        (segment, n, results) \<Rightarrow>
          exec_loop X gs (Suc i) n
            ((fold (collect_result X gs) segment (s\<lparr>xs_results := results\<rparr>))\<lparr>xs_trace := xs_trace s @ [segment]\<rparr>))"
  by pat_completeness auto
termination
  by (relation "measure (\<lambda>(X, gs, i, index, s). length gs - index)") 
    (auto dest!: scan_segment_progress [OF sym])

declare exec_loop.simps [simp del]

definition add_notes ::
  "(path \<Rightarrow> string option) \<Rightarrow> nat \<times> path list \<Rightarrow> json content_block option list \<Rightarrow> json content_block option list" where
  "add_notes notes wrote results = (case results ! fst wrote of
     Some (ToolResult use_id content is_error) \<Rightarrow>
       results[fst wrote := Some (ToolResult use_id (content @ map PartText (List.map_filter notes (snd wrote))) is_error)]
   | _ \<Rightarrow> results)"

definition append_lsp_errors :: "exec_env \<Rightarrow> exec_state \<Rightarrow> json content_block option list" where
  "append_lsp_errors X s =
     (let files = set (filter (ee_lsp_covers X) (concat (map snd (xs_written s)))) in
      if \<not> ee_lsp_worker X \<or> files = {} then xs_results s
      else fold (add_notes (ee_lsp_notes X files)) (xs_written s) (xs_results s))"

definition execute :: "exec_env \<Rightarrow> gated list \<Rightarrow> batch_outcome \<times> nat list list" where
  "execute X gs =
     (let s = exec_loop X gs 0 0 \<lparr>xs_results = map (\<lambda>_. None) gs, xs_mutated = False, xs_touched = [], xs_written = [], xs_trace = []\<rparr>;
          results = (if xs_written s \<noteq> [] \<and> \<not> ee_cancelled_at_end X then append_lsp_errors X s else xs_results s)
      in (\<lparr>bo_results = map (\<lambda>(r, g). case r of Some b \<Rightarrow> b | None \<Rightarrow> refused_block (g_call g) CANCELLED) (zip results gs),
           bo_cancelled = ee_cancelled_at_end X, bo_mutated = xs_mutated s, bo_used_todo_write = False,
           bo_written = concat (map snd (xs_written s))\<rparr>, xs_trace s))"

text \<open>\<open>env i\<close> is the state of the session when the \<open>i\<close>th call is gated, \<open>None\<close> when the run is cancelled by then.\<close>

definition gate_all ::
  "(nat \<Rightarrow> gate_env option) \<Rightarrow> tool list \<Rightarrow> (string \<times> string) list \<Rightarrow> tool_call list \<Rightarrow> gated list" where
  "gate_all env tools malformed calls = map (\<lambda>(i, call). case env i of
     None \<Rightarrow> refused_call call StatusCancelled CANCELLED
   | Some e \<Rightarrow> gate e tools malformed call) (enumerate 0 calls)"

definition run_batch ::
  "(nat \<Rightarrow> gate_env option) \<Rightarrow> exec_env \<Rightarrow> (approval_request \<Rightarrow> approval_decision option) \<Rightarrow> tool list \<Rightarrow>
   (string \<times> string) list \<Rightarrow> tool_call list \<Rightarrow> batch_outcome \<times> nat list list" where
  "run_batch env X reply tools malformed calls =
     (let used = (\<exists>call \<in> set calls. tc_name call = ''TodoWrite'');
          (outcome, trace) = execute X (resolve_approvals reply (gate_all env tools malformed calls))
      in (outcome\<lparr>bo_used_todo_write := used\<rparr>, trace))"

section \<open>Hooks only tighten\<close>

definition rank_of :: "(permission_override \<times> string option) option \<Rightarrow> nat" where
  "rank_of p = (case p of None \<Rightarrow> 0 | Some (f, _) \<Rightarrow> override_rank f)"

lemma override_rank_2: "2 \<le> override_rank a \<longleftrightarrow> a = ForceDeny"
  by (cases a) simp_all

lemma strictest_rank: "rank_of p \<le> rank_of (Some (strictest p q))"
  by (auto simp: rank_of_def strictest_def split: option.splits prod.splits)

lemma hook_success_rank: "rank_of (ho_permission outcome) \<le> rank_of (ho_permission (snd (hook_success H event out outcome)))"
  by (auto simp: hook_success_def Let_def strictest_rank split: option.split prod.split)

lemma interpret_run_rank: "rank_of (ho_permission outcome) \<le> rank_of (ho_permission (snd (interpret_run H event run outcome)))"
  by (auto simp: interpret_run_def Let_def hook_success_rank split: option.split)

lemma hook_loop_rank:
  "rank_of (ho_permission outcome) \<le> rank_of (ho_permission (fst (hook_loop H env event hooks input outcome ns)))"
proof (induction hooks arbitrary: input outcome ns)
  case (Cons hook hooks)
  show ?case
  proof (cases "hook_matches H (hc_matcher hook) (hi_target input) = Inr True")
    case True
    define r where "r = (case run_hook H hook (payload env event input) of
        Inr output \<Rightarrow> interpret_run H event output outcome | Inl e \<Rightarrow> (hook_failed e, outcome))"
    have "rank_of (ho_permission outcome) \<le> rank_of (ho_permission (snd r))"
      using interpret_run_rank by (auto simp: r_def split: sum.split)
    also have "\<dots> \<le> rank_of (ho_permission (fst (hook_loop H env event (hook # hooks) input outcome ns)))"
      using True Cons.IH by (simp add: r_def [symmetric] Let_def split: prod.split)
    finally show ?thesis .
  next
    case False
    then show ?thesis using Cons.IH by (auto split: sum.split bool.split)
  qed
qed simp

section \<open>Scheduling\<close>

definition is_run :: "gated \<Rightarrow> bool" where
  "is_run g = (case g_verdict g of Run _ \<Rightarrow> True | _ \<Rightarrow> False)"

definition safe_run :: "gated \<Rightarrow> bool" where
  "safe_run g = (case g_verdict g of Run t \<Rightarrow> t_is_concurrency_safe t (tc_input (g_call g)) | _ \<Rightarrow> False)"

text \<open>One step of the scan: a refused call, a safe one, or one that ends the segment.\<close>

lemma scan_segment_cases:
  assumes "scan_segment (g # gs) at segment results = (seg, n, rs)"
  obtains (refused) message where "\<not> is_run g"
      "scan_segment gs (Suc at) segment (results[at := Some (refused_block (g_call g) message)]) = (seg, n, rs)"
    | (safe) "is_run g" "safe_run g" "scan_segment gs (Suc at) (segment @ [at]) results = (seg, n, rs)"
    | (alone) "is_run g" "segment = []" "seg = [at]" "n = Suc at" "rs = results"
    | (barrier) "segment \<noteq> []" "seg = segment" "n = at" "rs = results"
  using assms by (auto simp: is_run_def safe_run_def split: verdict.splits if_splits)

lemma drop_Cons_iff: "g # gs = drop at all \<Longrightarrow> at < length all \<and> all ! at = g \<and> gs = drop (Suc at) all"
  by (metis drop_Suc drop_eq_Nil2 leI list.distinct(1) list.sel(3) nth_via_drop tl_drop)

lemma filter_upt_Suc: "at < n \<Longrightarrow> filter P [at..<n] = (if P at then [at] else []) @ filter P [Suc at..<n]"
  by (simp add: upt_conv_Cons)

lemma scan_segment_runs:
  assumes "gs = drop at all" "scan_segment gs at segment results = (seg, n, rs)"
  shows "seg = segment @ filter (\<lambda>i. is_run (all ! i)) [at..<n]"
  using assms
proof (induction gs arbitrary: at segment results)
  case (Cons g gs)
  note d = drop_Cons_iff [OF Cons.prems(1)]
  from Cons.prems(2) show ?case
  proof (cases rule: scan_segment_cases)
    case (refused message)
    then show ?thesis using Cons.IH [of "Suc at"] d scan_segment_progress [OF refused(2)]
      by (simp add: filter_upt_Suc Suc_le_eq)
  next
    case safe
    then show ?thesis using Cons.IH [of "Suc at" "segment @ [at]" results] d scan_segment_progress [OF safe(3)]
      by (simp add: filter_upt_Suc Suc_le_eq)
  qed (use d in auto)
qed simp

lemma scan_segment_safe:
  assumes "gs = drop at all" "scan_segment gs at segment results = (seg, n, rs)" "\<forall>i \<in> set segment. safe_run (all ! i)"
  shows "length seg \<le> 1 \<or> (\<forall>i \<in> set seg. safe_run (all ! i))"
  using assms
proof (induction gs arbitrary: at segment results)
  case (Cons g gs)
  note d = drop_Cons_iff [OF Cons.prems(1)]
  from Cons.prems(2) show ?case
    by (cases rule: scan_segment_cases) (use d Cons in auto)
qed simp

lemma fold_collect_trace: "xs_trace (fold (collect_result X gs) seg s) = xs_trace s"
  by (induction seg arbitrary: s) (auto simp: collect_result_def Let_def split: verdict.split)

lemma exec_loop_trace:
  assumes "index \<le> length gs"
  obtains segs m where "xs_trace (exec_loop X gs i index s) = xs_trace s @ segs" "index \<le> m" "m \<le> length gs"
    "concat segs = filter (\<lambda>i. is_run (gs ! i)) [index..<m]"
    "\<forall>seg \<in> set segs. length seg \<le> 1 \<or> (\<forall>i \<in> set seg. safe_run (gs ! i))"
    "(\<forall>i. \<not> ee_is_cancelled X i) \<longrightarrow> m = length gs"
  using assms
proof (induction X gs i index s arbitrary: thesis rule: exec_loop.induct)
  case (1 X gs i index s)
  show ?case
  proof (cases "length gs \<le> index \<or> ee_is_cancelled X i")
    case True
    then have "exec_loop X gs i index s = s" by (subst exec_loop.simps) simp
    then show ?thesis using 1(2) [of "[]" index] 1(3) True by auto
  next
    case False
    obtain seg n rs where sc: "scan_segment (drop index gs) index [] (xs_results s) = (seg, n, rs)" by (metis prod_cases3)
    let ?s = "(fold (collect_result X gs) seg (s\<lparr>xs_results := rs\<rparr>))\<lparr>xs_trace := xs_trace s @ [seg]\<rparr>"
    have n: "index < n" "n \<le> length gs" using scan_segment_progress [OF sc] False by auto
    have e: "exec_loop X gs i index s = exec_loop X gs (Suc i) n ?s" using False sc by (subst exec_loop.simps) simp
    obtain segs m where r: "xs_trace (exec_loop X gs (Suc i) n ?s) = xs_trace ?s @ segs" "n \<le> m" "m \<le> length gs"
      "concat segs = filter (\<lambda>i. is_run (gs ! i)) [n..<m]" "\<forall>seg \<in> set segs. length seg \<le> 1 \<or> (\<forall>i \<in> set seg. safe_run (gs ! i))"
      "(\<forall>i. \<not> ee_is_cancelled X i) \<longrightarrow> m = length gs"
      using 1(1) [OF False sc [symmetric] refl _ n(2)] by metis
    have "[index..<m] = [index..<n] @ [n..<m]" using n r(2) by (metis le_add_diff_inverse less_imp_le upt_add_eq_append)
    then show ?thesis using 1(2) [of "seg # segs" m] r e n scan_segment_runs [OF refl sc] scan_segment_safe [OF refl sc] by simp
  qed
qed

section \<open>Results\<close>

text \<open>A result that answers the call: it carries the call's id, and it is an error unless the call may run.\<close>

definition answers_call :: "gated \<Rightarrow> json content_block \<Rightarrow> bool" where
  "answers_call g b \<longleftrightarrow> (\<exists>content is_error. b = ToolResult (tc_id (g_call g)) content is_error \<and> (is_error \<or> is_run g))"

definition results_ok :: "gated list \<Rightarrow> json content_block option list \<Rightarrow> bool" where
  "results_ok gs rs \<longleftrightarrow> length rs = length gs \<and> (\<forall>i < length gs. \<forall>b. rs ! i = Some b \<longrightarrow> answers_call (gs ! i) b)"

lemma results_ok_update: "results_ok gs rs \<Longrightarrow> answers_call (gs ! i) b \<Longrightarrow> results_ok gs (rs[i := Some b])"
  by (cases "i < length rs") (auto simp: results_ok_def nth_list_update split: if_splits)

lemma answers_refused: "answers_call g (refused_block (g_call g) m)"
  by (auto simp: answers_call_def refused_block_def)

lemma scan_segment_results:
  assumes "gs = drop at all" "scan_segment gs at segment results = (seg, n, rs)" "results_ok all results"
  shows "results_ok all rs"
  using assms
proof (induction gs arbitrary: at segment results)
  case (Cons g gs)
  note d = drop_Cons_iff [OF Cons.prems(1)]
  from Cons.prems(2) show ?case
  proof (cases rule: scan_segment_cases)
    case (refused message)
    then show ?thesis using Cons.IH [OF _ refused(2)] d Cons.prems(3) results_ok_update answers_refused by metis
  next
    case safe
    then show ?thesis using Cons.IH [OF _ safe(3)] d Cons.prems(3) by blast
  qed (use Cons.prems in auto)
qed simp

lemma collect_result_ok: "results_ok gs (xs_results s) \<Longrightarrow> results_ok gs (xs_results (collect_result X gs at s))"
  by (auto simp: collect_result_def run_call_def Let_def answers_call_def is_run_def intro!: results_ok_update
      split: verdict.split prod.split)

lemma fold_collect_ok: "results_ok gs (xs_results s) \<Longrightarrow> results_ok gs (xs_results (fold (collect_result X gs) seg s))"
  by (induction seg arbitrary: s) (simp_all add: collect_result_ok)

lemma exec_loop_ok: "results_ok gs (xs_results s) \<Longrightarrow> results_ok gs (xs_results (exec_loop X gs i index s))"
proof (induction X gs i index s rule: exec_loop.induct)
  case (1 X gs i index s)
  show ?case
  proof (cases "length gs \<le> index \<or> ee_is_cancelled X i")
    case True
    then show ?thesis using 1(2) by (subst exec_loop.simps) simp
  next
    case False
    obtain seg n rs where sc: "scan_segment (drop index gs) index [] (xs_results s) = (seg, n, rs)" by (metis prod_cases3)
    have "results_ok gs rs" using scan_segment_results [OF refl sc 1(2)] .
    then show ?thesis using 1(1) [OF False sc [symmetric] refl] False sc fold_collect_ok [of gs "s\<lparr>xs_results := rs\<rparr>"]
      by (subst exec_loop.simps) simp
  qed
qed

lemma add_notes_ok:
  assumes "results_ok gs rs"
  shows "results_ok gs (add_notes notes wrote rs)"
proof (cases "fst wrote < length rs")
  case True
  have "answers_call (gs ! fst wrote) (ToolResult u (c @ d) e)" if "rs ! fst wrote = Some (ToolResult u c e)" for u c d e
    using assms True that by (auto simp: results_ok_def answers_call_def)
  then show ?thesis using assms by (auto simp: add_notes_def intro!: results_ok_update split: option.split content_block.split)
next
  case False
  then show ?thesis using assms by (auto simp: add_notes_def not_less list_update_beyond split: option.split content_block.split)
qed

lemma append_lsp_ok: "results_ok gs (xs_results s) \<Longrightarrow> results_ok gs (append_lsp_errors X s)"
proof -
  have "results_ok gs rs \<Longrightarrow> results_ok gs (fold (add_notes F) ws rs)" for F ws rs
    by (induction ws arbitrary: rs) (simp_all add: add_notes_ok)
  then show "results_ok gs (xs_results s) \<Longrightarrow> ?thesis" by (simp add: append_lsp_errors_def Let_def)
qed

lemma execute_results: "list_all2 answers_call gs (bo_results (fst (execute X gs)))"
proof -
  let ?s0 = "\<lparr>xs_results = map (\<lambda>_. None) gs, xs_mutated = False, xs_touched = [], xs_written = [], xs_trace = []\<rparr>"
  let ?s = "exec_loop X gs 0 0 ?s0"
  have "results_ok gs (xs_results ?s)" by (rule exec_loop_ok) (simp add: results_ok_def)
  then have "results_ok gs (if xs_written ?s \<noteq> [] \<and> \<not> ee_cancelled_at_end X then append_lsp_errors X ?s else xs_results ?s)"
    by (simp add: append_lsp_ok)
  then show ?thesis
    by (auto simp: execute_def Let_def results_ok_def list_all2_conv_all_nth answers_refused split: option.split)
qed

section \<open>What the gate lets through\<close>

lemma gate_id: "tc_id (g_call (gate e tools malformed call)) = tc_id call"
  by (simp add: gate_def refused_call_def Let_def split: option.split sum.split)

lemma with_override_Deny [simp]: "with_override (Deny w) forced = Deny w"
  by (auto simp: with_override_def Let_def split: option.split permission_override.split)

lemma review_call_Deny [simp]: "review_call e call (Deny w) = Deny w"
  by (simp add: review_call_def)

text \<open>The decision on a call after hooks and review, on the input that would run.\<close>

definition final_decision :: "gate_env \<Rightarrow> tool_call \<Rightarrow> tool \<Rightarrow> tool_call \<Rightarrow> decision" where
  "final_decision e call t call' = review_call e call'
     (with_override (scope_decide e (t_name t) (t_action t (tc_input call')))
       (ho_permission (fst (run_hooks (ge_hooks e) (ge_hook_env e) PreToolUse (tool_input (tc_name call) (tc_input call))))))"

lemma final_decision_permitted:
  assumes "\<forall>why. final_decision e call t call' \<noteq> Deny why"
  shows "scope_decide e (t_name t) (t_action t (tc_input call')) \<noteq> Deny why"
  using assms by (auto simp: final_decision_def)

lemma gate_cases:
  assumes "g = gate e tools malformed call"
  obtains (refused) status message where "g_verdict g = Refuse status message"
    | (run) t why where "g_verdict g = Run t" "t \<in> set tools" "t_name t = tc_name call" "final_decision e call t (g_call g) = Allow why"
    | (ask) t request why rule persist where "g_verdict g = AskUser t request" "t \<in> set tools" "t_name t = tc_name call"
        "final_decision e call t (g_call g) = Ask why rule persist" "ar_call_id request = tc_id call" "ar_input request = tc_input (g_call g)"
proof (cases "List.find (\<lambda>bad. fst bad = tc_id call) malformed")
  case None
  note bad = None
  show thesis
  proof (cases "List.find (\<lambda>t. t_name t = tc_name call) tools")
    case None
    then show thesis using refused assms bad by (simp add: gate_def refused_call_def)
  next
    case (Some t)
    then have t: "t \<in> set tools" "t_name t = tc_name call" by (auto simp: find_Some_iff)
    show thesis
    proof (cases "schema_check (t_input_schema t) (tc_input call)")
      case (Inl m)
      then show thesis using refused assms bad Some by (simp add: gate_def refused_call_def)
    next
      case (Inr u)
      define hooks where "hooks = fst (run_hooks (ge_hooks e) (ge_hook_env e) PreToolUse (tool_input (tc_name call) (tc_input call)))"
      define call' where "call' = (case ho_updated_input hooks of Some v \<Rightarrow> call\<lparr>tc_input := v\<rparr> | None \<Rightarrow> call)"
      show thesis
      proof (cases "ho_blocked hooks")
        case (Some b)
        then show thesis using refused assms bad \<open>List.find _ tools = Some t\<close> Inr
          by (simp add: gate_def refused_call_def Let_def hooks_def [symmetric])
      next
        case None
        then have g: "g_call g = call'" "g_verdict g = verdict_of e t call' (final_decision e call t call')"
          using assms bad \<open>List.find _ tools = Some t\<close> Inr
          by (simp_all add: gate_def Let_def final_decision_def hooks_def [symmetric] call'_def)
        have "tc_id call' = tc_id call" by (simp add: call'_def split: option.split)
        then show thesis using refused run ask t g by (cases "final_decision e call t call'") (auto simp: verdict_of_def)
      qed
    qed
  qed
qed (use refused assms in \<open>simp add: gate_def refused_call_def\<close>)

lemma gate_all_nth: "i < length calls \<Longrightarrow> gate_all env tools malformed calls ! i =
    (case env i of None \<Rightarrow> refused_call (calls ! i) StatusCancelled CANCELLED | Some e \<Rightarrow> gate e tools malformed (calls ! i))"
  by (simp add: gate_all_def nth_enumerate_eq)

lemma length_gate_all [simp]: "length (gate_all env tools malformed calls) = length calls"
  by (simp add: gate_all_def)

lemma gate_all_id: "i < length calls \<Longrightarrow> tc_id (g_call (gate_all env tools malformed calls ! i)) = tc_id (calls ! i)"
  by (simp add: gate_all_nth gate_id refused_call_def split: option.split)

lemma resolve_one_call [simp]: "g_call (resolve_one reply g) = g_call g"
  by (simp add: resolve_one_def split: verdict.split option.split)

lemma resolve_one_Run:
  "g_verdict (resolve_one reply g) = Run t \<Longrightarrow>
     g_verdict g = Run t \<or> (\<exists>request answer. g_verdict g = AskUser t request \<and> reply request = Some answer \<and> approval_allows answer)"
  by (auto simp: resolve_one_def split: verdict.splits option.splits approval_decision.splits)

text \<open>The calls of a batch after approval, and the trace of its execution.\<close>

definition batch_gated where
  "batch_gated env reply tools malformed calls = resolve_approvals reply (gate_all env tools malformed calls)"

lemma run_batch_simps:
  "bo_results (fst (run_batch env X reply tools malformed calls)) = bo_results (fst (execute X (batch_gated env reply tools malformed calls)))"
  "snd (run_batch env X reply tools malformed calls) = snd (execute X (batch_gated env reply tools malformed calls))"
  by (simp_all add: run_batch_def batch_gated_def Let_def split: prod.split)

lemma length_batch_gated [simp]: "length (batch_gated env reply tools malformed calls) = length calls"
  by (simp add: batch_gated_def resolve_approvals_def)

lemma batch_gated_nth:
  "i < length calls \<Longrightarrow> batch_gated env reply tools malformed calls ! i = resolve_one reply (gate_all env tools malformed calls ! i)"
  by (simp add: batch_gated_def resolve_approvals_def)

lemma execute_trace:
  obtains m where "m \<le> length gs" "concat (snd (execute X gs)) = filter (\<lambda>i. is_run (gs ! i)) [0..<m]"
    "\<forall>seg \<in> set (snd (execute X gs)). length seg \<le> 1 \<or> (\<forall>i \<in> set seg. safe_run (gs ! i))"
    "(\<forall>i. \<not> ee_is_cancelled X i) \<longrightarrow> m = length gs"
  by (rule exec_loop_trace [of 0 gs X 0 "\<lparr>xs_results = map (\<lambda>_. None) gs, xs_mutated = False, xs_touched = [], xs_written = [], xs_trace = []\<rparr>"])
    (auto simp: execute_def Let_def)

lemma executed_call:
  assumes "i \<in> set (concat (snd (run_batch env X reply tools malformed calls)))"
  obtains e t where "i < length calls" "env i = Some e" "t \<in> set tools" "t_name t = tc_name (calls ! i)"
    "\<nexists>why. scope_decide e (t_name t) (t_action t (tc_input (g_call (gate e tools malformed (calls ! i))))) = Deny why"
    "(\<exists>why. final_decision e (calls ! i) t (g_call (gate e tools malformed (calls ! i))) = Allow why) \<or>
     (\<exists>request answer. reply request = Some answer \<and> approval_allows answer \<and> ar_call_id request = tc_id (calls ! i) \<and>
       ar_input request = tc_input (g_call (gate e tools malformed (calls ! i))))"
proof -
  let ?gs = "batch_gated env reply tools malformed calls"
  have "i < length ?gs \<and> is_run (?gs ! i)"
    by (rule execute_trace [of ?gs X]) (use assms in \<open>auto simp: run_batch_simps\<close>)
  then have i: "i < length calls" and r: "is_run (resolve_one reply (gate_all env tools malformed calls ! i))"
    by (auto simp: batch_gated_nth)
  then obtain t where t: "g_verdict (resolve_one reply (gate_all env tools malformed calls ! i)) = Run t"
    by (auto simp: is_run_def split: verdict.splits)
  obtain e where e: "env i = Some e"
    using t i by (cases "env i") (auto simp: gate_all_nth refused_call_def resolve_one_def)
  then have g: "gate_all env tools malformed calls ! i = gate e tools malformed (calls ! i)" using i by (simp add: gate_all_nth)
  from refl [of "gate e tools malformed (calls ! i)"] show thesis
  proof (cases rule: gate_cases)
    case (refused status message)
    then show thesis using resolve_one_Run [OF t] g by simp
  next
    case (run u why)
    show thesis by (rule that [OF i e run(2,3)]) (use run(4) final_decision_permitted [of e "calls ! i" u] in auto)
  next
    case (ask u request why rule persist)
    then obtain answer where "reply request = Some answer" "approval_allows answer" using resolve_one_Run [OF t] g by auto
    with ask(5,6) show thesis
      by (intro that [OF i e ask(2,3)]) (use ask(4) final_decision_permitted [of e "calls ! i" u] in auto)
  qed
qed

section \<open>Properties\<close>

text \<open>
  C3. A tool runs only if the policy does not deny its action on the very input that runs, after hooks rewrote it, and
  if hooks, policy and review together allow it or the user approved this input.
\<close>

theorem executed_calls_were_permitted:
  assumes "i \<in> set (concat (snd (run_batch env X reply tools malformed calls)))"
  shows "\<exists>e t call'. i < length calls \<and> env i = Some e \<and> t \<in> set tools \<and> t_name t = tc_name (calls ! i) \<and>
    call' = g_call (gate e tools malformed (calls ! i)) \<and>
    (\<nexists>why. scope_decide e (t_name t) (t_action t (tc_input call')) = Deny why) \<and>
    ((\<exists>why. final_decision e (calls ! i) t call' = Allow why) \<or>
     (\<exists>request answer. reply request = Some answer \<and> approval_allows answer \<and> ar_call_id request = tc_id (calls ! i) \<and>
       ar_input request = tc_input call'))"
  by (rule executed_call [OF assms]) blast

lemma grant_rules_deny: "deny (fst (grant_rules G p errors rs)) = deny p"
  by (induction G p errors rs rule: grant_rules.induct) (auto simp: add_session_rule_def split: sum.splits)

lemma build_policy_deny:
  assumes "t \<in> set (c_deny (ss_config settings))" "rule_parse G t = Inr r"
  shows "r \<in> set (deny (fst (build_policy G settings root home_dir granted added)))"
proof -
  let ?c = "\<lparr>project_root = root, additional_dirs = push_dirs (ss_additional_dirs settings) added, home = home_dir\<rparr>"
  obtain p errors where p: "new_policy G (ss_config settings) ?c = (p, errors)" by fastforce
  obtain al e1 ak e2 dn e3 where l: "parse_rules G (c_allow (ss_config settings)) [] [] = (al, e1)"
    "parse_rules G (c_ask (ss_config settings)) [] e1 = (ak, e2)" "parse_rules G (c_deny (ss_config settings)) [] e2 = (dn, e3)"
    by (metis surj_pair)
  have "deny p = dn" using p l by (auto simp: new_policy_def)
  moreover have "r \<in> set dn" using parse_rules_spec(2) [OF l(3)] assms by auto
  ultimately show ?thesis by (simp add: build_policy_def p grant_rules_deny)
qed

text \<open>
  The policy by which an action of an agent is decided: the policy of the session or, for an agent in a worktree, the one
  rebuilt for the worktree, unless the agent only reads files of the project.
\<close>

definition deciding_policy :: "gate_env \<Rightarrow> action \<Rightarrow> policy" where
  "deciding_policy e a = (case ge_worktree e of
     None \<Rightarrow> ge_policy e
   | Some project \<Rightarrow>
       if (\<exists>paths. a = Read paths \<and> paths \<noteq> [] \<and> (\<forall>p \<in> set paths. in_project project (ge_root e) p)) then ge_policy e
       else fst (build_policy (ge_globs e) (ge_settings e) (ge_root e) (ge_home e) (session_rules (ge_policy e)) (ge_added_dirs e)))"

lemma scope_decide_deny:
  assumes "r \<in> set (deny (deciding_policy e a))" "rule_restricts (ge_globs e) (deciding_policy e a) tool a (facts_of a) r"
  shows "\<exists>why. scope_decide e tool a = Deny why"
proof -
  have "restricting (ge_globs e) (deciding_policy e a) (deny (deciding_policy e a)) tool a (facts_of a) \<noteq> None"
    using assms by (auto simp: restricting_None)
  then obtain why where d: "decide (ge_globs e) (deciding_policy e a) tool a (ge_mode e) = Deny why" using decide_deny by blast
  show ?thesis
  proof (cases "ge_worktree e")
    case None
    then show ?thesis using d by (simp add: scope_decide_def deciding_policy_def)
  next
    case (Some project)
    then show ?thesis using d by (cases a) (auto simp: scope_decide_def deciding_policy_def split: if_splits)
  qed
qed

text \<open>
  C4. No hook, no review and no answer of the user makes a call run that a deny rule restricts. For an agent in the session's
  root the rule is any deny rule of the session's policy; for an agent in a worktree, whose calls are decided by a policy
  rebuilt from the settings, it is any that the settings' \<open>permissions.deny\<close> list and that the session's policy holds. What
  the rule restricts is read with the paths of the policy that decides.
\<close>

theorem deny_rules_hold_in_every_batch:
  assumes "env i = Some e" "r \<in> set (deny (ge_policy e))"
    "ge_worktree e \<noteq> None \<Longrightarrow> \<exists>txt \<in> set (c_deny (ss_config (ge_settings e))). rule_parse (ge_globs e) txt = Inr r"
    "\<And>(t :: tool) a. t \<in> set tools \<Longrightarrow> t_name t = tc_name (calls ! i) \<Longrightarrow>
       a = t_action t (tc_input (g_call (gate e tools malformed (calls ! i)))) \<Longrightarrow>
       rule_restricts (ge_globs e) (deciding_policy e a) (t_name t) a (facts_of a) r"
  shows "i \<notin> set (concat (snd (run_batch env X reply tools malformed calls)))"
proof
  assume "i \<in> set (concat (snd (run_batch env X reply tools malformed calls)))"
  then show False
  proof (rule executed_call)
    fix e' and t :: tool
    assume E: "env i = Some e'" and m: "t \<in> set tools" and t: "t_name t = tc_name (calls ! i)"
      and ok': "\<nexists>why. scope_decide e' (t_name t) (t_action t (tc_input (g_call (gate e' tools malformed (calls ! i))))) = Deny why"
    have e: "e' = e" using E assms(1) by (metis option.inject)
    note ok = ok' [unfolded e]
    let ?a = "t_action t (tc_input (g_call (gate e tools malformed (calls ! i))))"
    have "r \<in> set (deny (deciding_policy e ?a))"
      using assms(2,3) build_policy_deny unfolding deciding_policy_def by (cases "ge_worktree e") auto
    then show False using ok scope_decide_deny assms(4) [OF m t refl] by blast
  qed
qed

text \<open>
  C10. Every call of a batch ends with exactly one result, in the order of the calls, whatever is refused, denied or
  cancelled.
\<close>

theorem every_call_gets_one_result:
  "list_all2 (\<lambda>call b. \<exists>content is_error. b = ToolResult (tc_id call) content is_error) calls
     (bo_results (fst (run_batch env X reply tools malformed calls)))"
  using execute_results [of "batch_gated env reply tools malformed calls" X]
  by (auto simp: run_batch_simps list_all2_conv_all_nth answers_call_def batch_gated_nth gate_all_id) (metis batch_gated_nth gate_all_id resolve_one_call)

text \<open>
  C11. Calls run in their order, each at most once; calls run together only if all of them are safe to run concurrently.
\<close>

theorem calls_run_in_order:
  "sorted_wrt (<) (concat (snd (run_batch env X reply tools malformed calls))) \<and>
   list_all (\<lambda>seg. length seg \<le> 1 \<or> list_all (\<lambda>i. safe_run (batch_gated env reply tools malformed calls ! i)) seg)
     (snd (run_batch env X reply tools malformed calls))"
  by (rule execute_trace [of "batch_gated env reply tools malformed calls" X])
    (simp add: run_batch_simps list_all_iff strict_sorted_iff sorted_wrt_filter)

text \<open>
  C35. A batch that is never cancelled runs every call that was allowed or approved.
\<close>

theorem uncancelled_batches_run_everything:
  assumes "\<And>n. \<not> ee_is_cancelled X n"
  shows "concat (snd (run_batch env X reply tools malformed calls)) =
    filter (\<lambda>i. is_run (batch_gated env reply tools malformed calls ! i)) [0..<length calls]"
  by (rule execute_trace [of "batch_gated env reply tools malformed calls" X]) (use assms in \<open>simp add: run_batch_simps\<close>)

text \<open>
  A hook that denies a call is not overruled by a later hook.
\<close>

theorem hook_denials_stick:
  assumes "ho_permission outcome = Some (ForceDeny, why)"
  shows "\<exists>why'. ho_permission (fst (hook_loop H env event hooks input outcome sent)) = Some (ForceDeny, why')"
proof -
  have "2 \<le> rank_of (ho_permission (fst (hook_loop H env event hooks input outcome sent)))"
    using hook_loop_rank [of outcome H env event hooks input sent] assms by (simp add: rank_of_def)
  then show ?thesis
    by (cases "ho_permission (fst (hook_loop H env event hooks input outcome sent))")
      (auto simp: rank_of_def override_rank_2)
qed

section \<open>Examples\<close>

definition demo_tool :: tool where
  "demo_tool = \<lparr>t_name = ''WebSearch'', t_input_schema = JObject [], t_is_read_only = \<lambda>_. True, t_is_concurrency_safe = \<lambda>_. True,
     t_action = \<lambda>_. Search, t_title = \<lambda>_. [], t_preview = \<lambda>_. None\<rparr>"

definition no_hooks :: hook_env where
  "no_hooks = \<lparr>he_hooks = \<lambda>_. None, he_session_id = [], he_transcript_path = [], he_cwd = [], he_mode = Bypass\<rparr>"

definition no_hook_lib :: hook_lib where
  "no_hook_lib = \<lparr>regex_match = \<lambda>_ _. Inr True, parse_hook_json = \<lambda>_. None, run_hook = \<lambda>_ _. Inl HostTimeout\<rparr>"

definition demo_gate :: "rule list \<Rightarrow> gate_env" where
  "demo_gate dn = \<lparr>ge_globs = literal_globs, ge_policy = demo_policy [] [] dn False, ge_mode = Bypass, ge_worktree = None,
     ge_root = [RootDir, Normal ''w''], ge_settings = \<lparr>ss_config = default_config, ss_additional_dirs = []\<rparr>, ge_home = None,
     ge_added_dirs = [], ge_agent_id = ''main'', ge_hooks = no_hook_lib, ge_hook_env = no_hooks, ge_review = \<lambda>_. None,
     ge_request_id = tc_id\<rparr>"

definition demo_exec :: exec_env where
  "demo_exec = \<lparr>ee_call = \<lambda>_ _. Inr \<lparr>to_content = [], to_summary = [], to_is_error = False, to_effects = no_effects\<rparr>,
     ee_call_cancelled = \<lambda>_. False, ee_hooks = no_hook_lib, ee_hook_env = no_hooks, ee_annotate = \<lambda>_ _ c. c,
     ee_is_cancelled = \<lambda>_. False, ee_cancelled_at_end = False, ee_lsp_worker = False, ee_lsp_covers = \<lambda>_. False,
     ee_lsp_notes = \<lambda>_ _. None\<rparr>"

definition demo_call :: tool_call where "demo_call = \<lparr>tc_id = ''c1'', tc_name = ''WebSearch'', tc_input = JObject []\<rparr>"

abbreviation demo_trace :: "rule list \<Rightarrow> nat list list" where
  "demo_trace dn \<equiv> snd (run_batch (\<lambda>_. Some (demo_gate dn)) demo_exec (\<lambda>_. None) [demo_tool] [] [demo_call])"

lemma demo_decide: "decide literal_globs (demo_policy [] [] [] False) ''WebSearch'' Search Bypass = Allow ''bypass mode''"
proof -
  have "restricting literal_globs (demo_policy [] [] [] False) [] ''WebSearch'' Search None = None" by (simp add: restricting_None)
  then show ?thesis by (simp add: decide_def Let_def facts_of_def policy_simps)
qed

lemma demo_gated: "gate (demo_gate []) [demo_tool] [] demo_call = \<lparr>g_call = demo_call, g_verdict = Run demo_tool\<rparr>"
proof -
  have "scope_decide (demo_gate []) ''WebSearch'' Search = Allow ''bypass mode''" by (simp add: scope_decide_def demo_gate_def demo_decide)
  moreover have "fst (run_hooks (ge_hooks (demo_gate [])) (ge_hook_env (demo_gate [])) PreToolUse i) = default_outcome" for i
    by (simp add: run_hooks_def demo_gate_def no_hooks_def)
  moreover have "schema_check (JObject []) (JObject []) = Inr ()" by (simp add: schema_check_def required_keys_def)
  moreover have "review_call (demo_gate []) c d = d" for c d by (simp add: review_call_def escalate_def demo_gate_def split: decision.split)
  ultimately show ?thesis
    by (simp add: gate_def demo_tool_def demo_call_def default_outcome_def with_override_def verdict_of_def)
qed

lemma demo_trace_simp: "concat (demo_trace []) = [0]"
  by (rule execute_trace [of "batch_gated (\<lambda>_. Some (demo_gate [])) (\<lambda>_. None) [demo_tool] [] [demo_call]" demo_exec])
    (simp add: run_batch_simps batch_gated_nth gate_all_nth demo_gated demo_exec_def is_run_def resolve_one_def)

theorem executed_calls_were_permitted_witness:
  "\<exists>e t call'. (0 :: nat) < length [demo_call] \<and> Some (demo_gate []) = Some e \<and> t \<in> set [demo_tool] \<and>
    t_name t = tc_name ([demo_call] ! 0) \<and> call' = g_call (gate e [demo_tool] [] ([demo_call] ! 0)) \<and>
    (\<nexists>why. scope_decide e (t_name t) (t_action t (tc_input call')) = Deny why) \<and>
    ((\<exists>why. final_decision e ([demo_call] ! 0) t call' = Allow why) \<or>
     (\<exists>(request :: approval_request) answer. None = Some answer \<and> approval_allows answer \<and> ar_call_id request = tc_id ([demo_call] ! 0) \<and>
       ar_input request = tc_input call'))"
  by (rule executed_calls_were_permitted [of 0 "\<lambda>_. Some (demo_gate [])" demo_exec "\<lambda>_. None" "[demo_tool]" "[]" "[demo_call]"])
    (simp only: demo_trace_simp list.set insertI1)

definition worktree_gate :: gate_env where
  "worktree_gate = (demo_gate [WebSearchRule]) \<lparr>ge_worktree := Some [RootDir, Normal ''p''],
     ge_settings := \<lparr>ss_config = default_config\<lparr>c_deny := [''WebSearch'']\<rparr>, ss_additional_dirs = []\<rparr>\<rparr>"

theorem deny_rules_hold_in_every_batch_witness:
  "0 \<notin> set (concat (snd (run_batch (\<lambda>_. Some worktree_gate) demo_exec (\<lambda>_. None) [demo_tool] [] [demo_call])))"
proof (rule deny_rules_hold_in_every_batch [of _ 0 worktree_gate WebSearchRule])
  show "\<exists>txt \<in> set (c_deny (ss_config (ge_settings worktree_gate))). rule_parse (ge_globs worktree_gate) txt = Inr WebSearchRule"
    by (simp add: worktree_gate_def parse_WebSearch)
  show "rule_restricts (ge_globs worktree_gate) (deciding_policy worktree_gate a) (t_name t) a (facts_of a) WebSearchRule"
    if "t \<in> set [demo_tool]" "a = t_action t (tc_input (g_call (gate worktree_gate [demo_tool] [] ([demo_call] ! 0))))"
    for t :: tool and a using that by (simp add: demo_tool_def facts_of_def rule_restricts_def matches_call_def)
qed (simp_all add: worktree_gate_def demo_gate_def policy_simps)

theorem uncancelled_batches_run_everything_witness:
  "concat (demo_trace []) = filter (\<lambda>i. is_run (batch_gated (\<lambda>_. Some (demo_gate [])) (\<lambda>_. None) [demo_tool] [] [demo_call] ! i)) [0..<length [demo_call]]"
  by (rule uncancelled_batches_run_everything) (simp add: demo_exec_def)

theorem hook_denials_stick_witness:
  "\<exists>why'. ho_permission (fst (hook_loop no_hook_lib no_hooks PreToolUse [\<lparr>hc_matcher = None, hc_command = ''x''\<rparr>] new_input
     (default_outcome\<lparr>ho_permission := Some (ForceDeny, None)\<rparr>) [])) = Some (ForceDeny, why')"
  by (rule hook_denials_stick) simp

end
