(* ===== verification/Rpc.thy ===== *)
theory Rpc
  imports Framing Batch "HOL-Library.Multiset"
begin

text \<open>
  \<open>crates/z-engine-integrations/src/jsonrpc\<close>: messages (\<open>message.rs\<close>), answers to the server's requests
  (\<open>replies.rs\<close>), the state shared by a client and whatever reads its transport (\<open>dispatch.rs\<close>), and the life of one
  request (\<open>client.rs\<close>).

  JSON values are those of \<open>Hooks\<close>; a number is its text, and an \<open>i64\<close> is a 64-bit word read by \<open>sint\<close>. What
  \<open>serde_json\<close> does outside the source is a parameter: the parser \<open>from_slice\<close> and the text \<open>serde_text\<close> of an error.
  The one-shot channels of the dispatcher are numbered in the order they are made; an outcome that is sent is recorded
  in \<open>dp_delivered\<close>, a sender that is dropped unused in \<open>dp_dropped\<close>. Each operation of \<open>Dispatcher\<close> holds its lock, so
  a run of concurrent tasks is a sequence of operations. What \<open>close\<close> does after it released the lock, sending the error to
  each waiter it took and cancelling the token, is part of its step: no other operation reaches those waiters any more.
\<close>

type_synonym i64 = "64 word"

section \<open>Messages (message.rs)\<close>

definition METHOD_NOT_FOUND :: i64 where "METHOD_NOT_FOUND = - 32601"

datatype request_id = IdNumber i64 | IdString string

record rpc_error_object =
  eo_code :: i64
  eo_message :: string
  eo_data :: "json option"

record rpc_request =
  rq_id :: request_id
  rq_method :: string
  rq_params :: "json option"

record rpc_notification =
  rn_method :: string
  rn_params :: "json option"

record rpc_response =
  rs_id :: "request_id option"
  rs_result :: "rpc_error_object + json"

datatype rpc_message =
    RpcRequest rpc_request
  | RpcNotification rpc_notification
  | RpcResponse rpc_response
  | RpcInvalid "request_id option" string

definition new_error :: "i64 \<Rightarrow> string \<Rightarrow> rpc_error_object" where
  "new_error c m = \<lparr>eo_code = c, eo_message = m, eo_data = None\<rparr>"

text \<open>\<open>Number::as_i64\<close>: \<open>-0\<close>, fractions and exponents are floating-point numbers.\<close>

definition i64_of_number :: "string \<Rightarrow> i64 option" where
  "i64_of_number s =
     (let negative = starts_with ''-'' s;
          ds = (if negative then tl s else s);
          v = foldl (\<lambda>v c. v * 10 + (code c - 48)) 0 ds in
      if ds = [] \<or> \<not> (\<forall>c \<in> set ds. is_ascii_digit c) then None
      else if negative then (if 0 < v \<and> v \<le> 2 ^ 63 then Some (- of_nat v) else None)
      else if v < 2 ^ 63 then Some (of_nat v) else None)"

definition number_of_i64 :: "i64 \<Rightarrow> json" where
  "number_of_i64 n = JNumber (int_str (sint n))"

fun id_of_value :: "json \<Rightarrow> request_id option" where
  "id_of_value (JNumber s) = map_option IdNumber (i64_of_number s)"
| "id_of_value (JString s) = Some (IdString s)"
| "id_of_value _ = None"

text \<open>An \<open>Option\<close> field reads \<open>null\<close> as absent; the derived reader also accepts the fields as an array.\<close>

definition data_of :: "json option \<Rightarrow> json option" where
  "data_of v = (if v = Some JNull then None else v)"

definition error_of_fields :: "json option \<Rightarrow> json option \<Rightarrow> json option \<Rightarrow> rpc_error_object option" where
  "error_of_fields c m d =
     (case (c, m) of
        (Some (JNumber s), Some (JString t)) \<Rightarrow>
          map_option (\<lambda>n. \<lparr>eo_code = n, eo_message = t, eo_data = data_of d\<rparr>) (i64_of_number s)
      | _ \<Rightarrow> None)"

fun error_of_value :: "json \<Rightarrow> rpc_error_object option" where
  "error_of_value (JObject fs) = error_of_fields (map_of fs ''code'') (map_of fs ''message'') (map_of fs ''data'')"
| "error_of_value (JArray [c, m]) = error_of_fields (Some c) (Some m) None"
| "error_of_value (JArray [c, m, d]) = error_of_fields (Some c) (Some m) (Some d)"
| "error_of_value _ = None"

definition invalid :: "request_id option \<Rightarrow> string \<Rightarrow> rpc_message" where
  "invalid i why = RpcInvalid i why"

definition response_message :: "(json \<Rightarrow> string) \<Rightarrow> request_id option \<Rightarrow> (string \<times> json) list \<Rightarrow> rpc_message" where
  "response_message serde_text i fs =
     (case map_of fs ''error'' of
        Some e \<Rightarrow>
          if e \<noteq> JNull then
            (case error_of_value e of
               Some eo \<Rightarrow> RpcResponse \<lparr>rs_id = i, rs_result = Inl eo\<rparr>
             | None \<Rightarrow> invalid i (''malformed error object: '' @ serde_text e))
          else (case map_of fs ''result'' of
               Some r \<Rightarrow> RpcResponse \<lparr>rs_id = i, rs_result = Inr r\<rparr>
             | None \<Rightarrow> invalid i ''the message has no method, result or error'')
      | None \<Rightarrow> (case map_of fs ''result'' of
               Some r \<Rightarrow> RpcResponse \<lparr>rs_id = i, rs_result = Inr r\<rparr>
             | None \<Rightarrow> invalid i ''the message has no method, result or error''))"

text \<open>\<open>Map::remove\<close> takes a field out of the object.\<close>

definition without_field :: "string \<Rightarrow> (string \<times> json) list \<Rightarrow> (string \<times> json) list" where
  "without_field k fs = filter (\<lambda>(k', _). k' \<noteq> k) fs"

definition read_method :: "(json \<Rightarrow> string) \<Rightarrow> request_id option \<Rightarrow> (string \<times> json) list \<Rightarrow> rpc_message" where
  "read_method serde_text i fs =
     (case map_of fs ''method'' of
        Some (JString m) \<Rightarrow>
          let params = map_of (without_field ''method'' fs) ''params'' in
          (case i of
             Some n \<Rightarrow> RpcRequest \<lparr>rq_id = n, rq_method = m, rq_params = params\<rparr>
           | None \<Rightarrow> RpcNotification \<lparr>rn_method = m, rn_params = params\<rparr>)
      | Some _ \<Rightarrow> invalid i ''the method is not a string''
      | None \<Rightarrow> response_message serde_text i fs)"

definition from_value :: "(json \<Rightarrow> string) \<Rightarrow> json \<Rightarrow> rpc_message" where
  "from_value serde_text v =
     (case v of
        JObject fs \<Rightarrow>
          let rest = without_field ''id'' fs in
          (case map_of fs ''id'' of
             None \<Rightarrow> read_method serde_text None rest
           | Some JNull \<Rightarrow> read_method serde_text None rest
           | Some raw \<Rightarrow> (case id_of_value raw of
                 Some i \<Rightarrow> read_method serde_text (Some i) rest
               | None \<Rightarrow> invalid None ''the id is neither a number nor a string''))
      | _ \<Rightarrow> invalid None ''a JSON-RPC message must be an object'')"

definition parse_frame :: "(string \<Rightarrow> string + json) \<Rightarrow> (json \<Rightarrow> string) \<Rightarrow> string \<Rightarrow> rpc_message list" where
  "parse_frame from_slice serde_text bytes =
     (case from_slice bytes of
        Inr (JArray items) \<Rightarrow>
          if items \<noteq> [] then map (from_value serde_text) items else [from_value serde_text (JArray items)]
      | Inr v \<Rightarrow> [from_value serde_text v]
      | Inl e \<Rightarrow> [invalid None (''invalid JSON: '' @ e)])"

definition envelope :: "(string \<times> json) list" where
  "envelope = [(''jsonrpc'', JString ''2.0'')]"

fun id_value :: "request_id \<Rightarrow> json" where
  "id_value (IdNumber n) = number_of_i64 n"
| "id_value (IdString s) = JString s"

definition error_value :: "rpc_error_object \<Rightarrow> json" where
  "error_value e =
     (let fs = [(''code'', number_of_i64 (eo_code e)), (''message'', JString (eo_message e))] in
      JObject (case eo_data e of Some d \<Rightarrow> json_insert ''data'' d fs | None \<Rightarrow> fs))"

definition with_params :: "json option \<Rightarrow> (string \<times> json) list \<Rightarrow> (string \<times> json) list" where
  "with_params params fs = (case params of Some p \<Rightarrow> json_insert ''params'' p fs | None \<Rightarrow> fs)"

definition request_value :: "rpc_request \<Rightarrow> json" where
  "request_value r = JObject (with_params (rq_params r)
     (json_insert ''method'' (JString (rq_method r)) (json_insert ''id'' (id_value (rq_id r)) envelope)))"

definition notification_value :: "rpc_notification \<Rightarrow> json" where
  "notification_value n = JObject (with_params (rn_params n) (json_insert ''method'' (JString (rn_method n)) envelope))"

definition response_value :: "rpc_response \<Rightarrow> json" where
  "response_value r =
     (let fs = json_insert ''id'' (case rs_id r of None \<Rightarrow> JNull | Some i \<Rightarrow> id_value i) envelope in
      JObject (case rs_result r of
          Inr result \<Rightarrow> json_insert ''result'' result fs
        | Inl e \<Rightarrow> json_insert ''error'' (error_value e) fs))"

section \<open>Answers to the server (replies.rs)\<close>

definition default_reply :: "string \<Rightarrow> json option \<Rightarrow> rpc_error_object + json" where
  "default_reply m params =
     (if m = ''ping'' then Inr (JObject [])
      else if m = ''workspace/configuration'' then
        (let items = (case params of
               Some p \<Rightarrow> (case json_get ''items'' p of Some (JArray vs) \<Rightarrow> length vs | _ \<Rightarrow> 0)
             | None \<Rightarrow> 0) in Inr (JArray (replicate items JNull)))
      else if m \<in> set [''client/registerCapability'', ''client/unregisterCapability'',
          ''window/workDoneProgress/create'', ''window/showMessageRequest''] then Inr JNull
      else Inl (new_error METHOD_NOT_FOUND (''method not found: '' @ m)))"

section \<open>The dispatcher (dispatch.rs)\<close>

type_synonym outcome = "integration_error + json"

record dispatcher =
  dp_pending :: "(request_id \<times> nat) list"
  dp_close_reason :: "string option"
  dp_next_id :: i64
  dp_closed :: bool
  dp_channels :: nat
  dp_delivered :: "(nat \<times> outcome) list"
  dp_dropped :: "nat list"
  dp_replies :: "json list"
  dp_notified :: "rpc_notification list"

definition new_dispatcher :: dispatcher where
  "new_dispatcher = \<lparr>dp_pending = [], dp_close_reason = None, dp_next_id = 1, dp_closed = False, dp_channels = 0,
     dp_delivered = [], dp_dropped = [], dp_replies = [], dp_notified = []\<rparr>"

definition next_id :: "dispatcher \<Rightarrow> request_id \<times> dispatcher" where
  "next_id d = (IdNumber (dp_next_id d), d\<lparr>dp_next_id := dp_next_id d + 1\<rparr>)"

text \<open>\<open>HashMap::remove\<close>, with the sender it took out.\<close>

definition take_waiter :: "request_id \<Rightarrow> dispatcher \<Rightarrow> nat option \<times> dispatcher" where
  "take_waiter i d = (map_of (dp_pending d) i, d\<lparr>dp_pending := filter (\<lambda>(j, _). j \<noteq> i) (dp_pending d)\<rparr>)"

definition drop_waiter :: "nat option \<Rightarrow> dispatcher \<Rightarrow> dispatcher" where
  "drop_waiter w d = d\<lparr>dp_dropped := dp_dropped d @ (case w of Some n \<Rightarrow> [n] | None \<Rightarrow> [])\<rparr>"

definition deliver :: "nat option \<Rightarrow> outcome \<Rightarrow> dispatcher \<Rightarrow> dispatcher" where
  "deliver w r d = d\<lparr>dp_delivered := dp_delivered d @ (case w of Some n \<Rightarrow> [(n, r)] | None \<Rightarrow> [])\<rparr>"

text \<open>\<open>insert\<close> drops the sender it replaces.\<close>

definition register :: "request_id \<Rightarrow> dispatcher \<Rightarrow> (integration_error + nat) \<times> dispatcher" where
  "register i d =
     (case dp_close_reason d of
        Some why \<Rightarrow> (Inl (NotSent why), d)
      | None \<Rightarrow>
          let w = dp_channels d; (old, d') = take_waiter i (d\<lparr>dp_channels := Suc w\<rparr>); d'' = drop_waiter old d' in
          (Inr w, d''\<lparr>dp_pending := (i, w) # dp_pending d''\<rparr>))"

definition forget :: "request_id \<Rightarrow> dispatcher \<Rightarrow> dispatcher" where
  "forget i d = (let (w, d') = take_waiter i d in drop_waiter w d')"

definition fail :: "request_id \<Rightarrow> integration_error \<Rightarrow> dispatcher \<Rightarrow> dispatcher" where
  "fail i e d = (let (w, d') = take_waiter i d in deliver w (Inl e) d')"

definition close :: "string \<Rightarrow> dispatcher \<Rightarrow> dispatcher" where
  "close why d =
     (if dp_close_reason d \<noteq> None then d
      else d\<lparr>dp_close_reason := Some why, dp_pending := [],
             dp_delivered := dp_delivered d @ map (\<lambda>(_, w). (w, Inl (Disconnected why))) (dp_pending d),
             dp_closed := True\<rparr>)"

definition resolve_response :: "rpc_response \<Rightarrow> dispatcher \<Rightarrow> dispatcher" where
  "resolve_response r d =
     (case rs_id r of
        None \<Rightarrow> d
      | Some i \<Rightarrow>
          let (w, d') = take_waiter i d in
          deliver w (case rs_result r of Inr v \<Rightarrow> Inr v | Inl e \<Rightarrow> Inl (Rpc (sint (eo_code e)) (eo_message e))) d')"

definition reply :: "rpc_request \<Rightarrow> dispatcher \<Rightarrow> dispatcher" where
  "reply r d = d\<lparr>dp_replies := dp_replies d @
     [response_value \<lparr>rs_id = Some (rq_id r), rs_result = default_reply (rq_method r) (rq_params r)\<rparr>]\<rparr>"

fun dispatch :: "rpc_message \<Rightarrow> dispatcher \<Rightarrow> dispatcher" where
  "dispatch (RpcResponse r) d = resolve_response r d"
| "dispatch (RpcNotification n) d = d\<lparr>dp_notified := dp_notified d @ [n]\<rparr>"
| "dispatch (RpcRequest r) d = reply r d"
| "dispatch (RpcInvalid (Some i) why) d = fail i (Protocol why) d"
| "dispatch (RpcInvalid None why) d = d"

text \<open>
  The task of \<open>drain\<close> over the items its stream yields; \<open>seen\<close> is the last invalid message without an id. The list
  ends where the stream does, and the closed token wins over the next item.
\<close>

primrec drain_loop :: "(integration_error + rpc_message) list \<Rightarrow> string option \<Rightarrow> request_id option \<Rightarrow> dispatcher \<Rightarrow> dispatcher" where
  "drain_loop [] seen req d =
     (if dp_closed d then d
      else (case req of
          Some i \<Rightarrow> fail i (case seen of Some why \<Rightarrow> Protocol why
                       | None \<Rightarrow> Disconnected ''the response stream ended before the response'') d
        | None \<Rightarrow> d))"
| "drain_loop (item # items) seen req d =
     (if dp_closed d then d
      else (case item of
          Inr m \<Rightarrow> (case m of
              RpcInvalid None why \<Rightarrow> drain_loop items (Some why) req d
            | _ \<Rightarrow> drain_loop items seen req (dispatch m d))
        | Inl e \<Rightarrow> (case req of Some i \<Rightarrow> fail i e d | None \<Rightarrow> d)))"

definition drain :: "(integration_error + rpc_message) list \<Rightarrow> request_id option \<Rightarrow> dispatcher \<Rightarrow> dispatcher" where
  "drain items req d = drain_loop items None req d"

section \<open>One request (client.rs)\<close>

datatype cancel_style = Silent | McpCancel | LspCancel

text \<open>\<open>request\<close> up to the wait: an id, a channel for it, and the message to send.\<close>

definition begin_request ::
  "bool \<Rightarrow> string \<Rightarrow> json option \<Rightarrow> dispatcher \<Rightarrow> (integration_error + request_id \<times> nat \<times> json) \<times> dispatcher" where
  "begin_request cancelled m params d =
     (if cancelled then (Inl Cancelled, d)
      else let (i, d1) = next_id d in
           (case register i d1 of
              (Inl e, d2) \<Rightarrow> (Inl e, d2)
            | (Inr w, d2) \<Rightarrow> (Inr (i, w, request_value \<lparr>rq_id = i, rq_method = m, rq_params = params\<rparr>), d2)))"

text \<open>
  What ends the wait: the channel (\<open>None\<close> when its sender was dropped), a failed send, the caller's token or the
  deadline.
\<close>

datatype race = ChannelReady "outcome option" | SendFailed integration_error | CancelFired | DeadlineFired nat

definition flatten :: "outcome option \<Rightarrow> outcome" where
  "flatten r = (case r of Some v \<Rightarrow> v | None \<Rightarrow> Inl (Disconnected ''the connection dropped the request''))"

definition announce_cancel :: "cancel_style \<Rightarrow> request_id \<Rightarrow> string \<Rightarrow> string \<Rightarrow> json option" where
  "announce_cancel style i m why =
     (case style of
        Silent \<Rightarrow> None
      | McpCancel \<Rightarrow>
          if m = ''initialize'' then None
          else Some (notification_value \<lparr>rn_method = ''notifications/cancelled'',
                 rn_params = Some (JObject [(''requestId'', id_value i), (''reason'', JString why)])\<rparr>)
      | LspCancel \<Rightarrow> Some (notification_value \<lparr>rn_method = ''$/cancelRequest'',
                 rn_params = Some (JObject [(''id'', id_value i)])\<rparr>))"

definition end_request ::
  "cancel_style \<Rightarrow> string \<Rightarrow> request_id \<Rightarrow> race \<Rightarrow> dispatcher \<Rightarrow> outcome \<times> json option \<times> dispatcher" where
  "end_request style m i r d =
     (let (result, d1) = (case r of
            ChannelReady v \<Rightarrow> (flatten v, d)
          | SendFailed e \<Rightarrow> (Inl e, forget i d)
          | CancelFired \<Rightarrow> (Inl Cancelled, d)
          | DeadlineFired ms \<Rightarrow> (Inl (Timeout m ms), d)) in
      (case result of
         Inl Cancelled \<Rightarrow> (result, announce_cancel style i m ''cancelled by the client'', forget i d1)
       | Inl (Timeout _ _) \<Rightarrow> (result, announce_cancel style i m ''timed out'', forget i d1)
       | _ \<Rightarrow> (result, None, d1)))"

section \<open>Lemmas on messages\<close>

lemma i64_round_trip: "i64_of_number (int_str (sint n)) = Some n"
proof (cases "sint n < 0")
  case True
  let ?k = "nat (- sint n)"
  have k: "0 < ?k" "?k \<le> 2 ^ 63" using True sint_ge [of n] by (simp_all add: nat_le_iff)
  have "(of_nat ?k :: i64) = of_int (- sint n)" using True by (simp only: of_nat_nat)
  also have "\<dots> = - n" by (simp only: of_int_minus of_int_sint scast_id)
  finally have "- word_of_nat ?k = n" by simp
  then show ?thesis
    using True k nat_str_digits [of ?k] nat_str_value [of ?k]
    by (simp add: i64_of_number_def Let_def starts_with_def)
next
  case False
  let ?k = "nat (sint n)"
  have k: "?k < 2 ^ 63" using False sint_lt [of n] by (simp add: nat_less_iff)
  have eq: "word_of_nat ?k = n" using False by simp
  obtain c t where ds: "nat_str ?k = c # t" using nat_str_digits(2) [of ?k] by (cases "nat_str ?k") auto
  then have "c \<noteq> CHR ''-''" using nat_str_digits(1) [of ?k] by (auto simp: is_ascii_digit_def)
  then have "\<not> starts_with ''-'' (nat_str ?k)" using ds by simp
  then show ?thesis
    using False k eq nat_str_digits [of ?k] nat_str_value [of ?k] by (simp add: i64_of_number_def Let_def)
qed

lemma id_round_trip [simp]: "id_of_value (id_value i) = Some i"
  by (cases i) (simp_all add: number_of_i64_def i64_round_trip del: int_str.simps)

lemma id_value_not_null [simp]: "id_value i \<noteq> JNull"
  by (cases i) (simp_all add: number_of_i64_def)

lemma error_round_trip: "eo_data e \<noteq> Some JNull \<Longrightarrow> error_of_value (error_value e) = Some e"
  by (cases "eo_data e")
     (auto simp: error_value_def error_of_fields_def number_of_i64_def i64_round_trip json_insert_def data_of_def
        simp del: int_str.simps)

lemmas message_values = from_value_def read_method_def without_field_def json_insert_def envelope_def with_params_def
  Let_def

lemma error_value_not_null [simp]: "error_value e \<noteq> JNull"
  by (simp add: error_value_def Let_def)

lemma from_value_id:
  assumes "map_of fs ''id'' = Some (id_value i)"
  shows "from_value t (JObject fs) = read_method t (Some i) (without_field ''id'' fs)"
  using assms by (cases i) (simp_all add: from_value_def number_of_i64_def i64_round_trip Let_def del: int_str.simps)

lemma request_round_trip: "from_value t (request_value r) = RpcRequest r"
  unfolding request_value_def
  by (subst from_value_id [where i = "rq_id r"]) (cases "rq_params r"; simp add: message_values)+

lemma notification_round_trip: "from_value t (notification_value n) = RpcNotification n"
  by (cases "rn_params n") (simp_all add: notification_value_def message_values)

lemma response_round_trip:
  assumes "\<And>e. rs_result p = Inl e \<Longrightarrow> eo_data e \<noteq> Some JNull"
  shows "from_value t (response_value p) = RpcResponse p"
proof (cases "rs_id p")
  case None
  then show ?thesis
    by (cases "rs_result p") (use assms in \<open>simp_all add: response_value_def message_values response_message_def error_round_trip\<close>)
next
  case (Some i)
  then show ?thesis
    unfolding response_value_def Let_def
    by (cases "rs_result p"; subst from_value_id [where i = i])
       (use assms in \<open>simp_all add: message_values response_message_def error_round_trip\<close>)
qed

section \<open>Lemmas on the dispatcher\<close>

text \<open>Where the operations of concurrent tasks can lead.\<close>

inductive evolves :: "dispatcher \<Rightarrow> dispatcher \<Rightarrow> bool" for d where
  evolves_refl: "evolves d d"
| evolves_begin: "evolves d e \<Longrightarrow> evolves d (snd (begin_request c m ps e))"
| evolves_end: "evolves d e \<Longrightarrow> end_request style m i r e = (v, notice, e') \<Longrightarrow> evolves d e'"
| evolves_dispatch: "evolves d e \<Longrightarrow> evolves d (dispatch msg e)"
| evolves_fail: "evolves d e \<Longrightarrow> evolves d (fail i err e)"
| evolves_close: "evolves d e \<Longrightarrow> evolves d (close why e)"

text \<open>What the primitive operations keep, every run keeps.\<close>

locale dispatcher_law =
  fixes I :: "dispatcher \<Rightarrow> bool"
  assumes next_id_keeps: "I d \<Longrightarrow> I (snd (next_id d))"
    and register_keeps: "I d \<Longrightarrow> I (snd (register i d))"
    and forget_keeps: "I d \<Longrightarrow> I (forget i d)"
    and deliver_keeps: "I d \<Longrightarrow> I (case take_waiter i d of (w, d') \<Rightarrow> deliver w r d')"
    and close_keeps: "I d \<Longrightarrow> I (close why d)"
    and output_keeps: "I d \<Longrightarrow> I (d\<lparr>dp_replies := replies\<rparr>)" "I d \<Longrightarrow> I (d\<lparr>dp_notified := notes\<rparr>)"
begin

lemma fail_keeps: "I d \<Longrightarrow> I (fail i e d)"
  using deliver_keeps by (simp add: fail_def)

lemma dispatch_keeps: "I d \<Longrightarrow> I (dispatch m d)"
proof (cases m)
  case (RpcResponse r)
  assume "I d"
  then show ?thesis using RpcResponse deliver_keeps by (cases "rs_id r") (simp_all add: resolve_response_def)
next
  case (RpcInvalid i why)
  assume "I d"
  then show ?thesis using RpcInvalid fail_keeps by (cases i) simp_all
qed (use output_keeps in \<open>simp_all add: reply_def\<close>)

lemma drain_keeps: "I d \<Longrightarrow> I (drain_loop items seen req d)"
proof (induction items arbitrary: seen d)
  case Nil
  then show ?case using fail_keeps by (cases req) simp_all
next
  case (Cons item items)
  show ?case
    using Cons.prems Cons.IH dispatch_keeps [OF Cons.prems] fail_keeps [OF Cons.prems]
    by (auto simp del: dispatch.simps split: sum.splits option.splits rpc_message.splits)
qed

lemma begin_keeps: "I d \<Longrightarrow> I (snd (begin_request c m ps d))"
proof -
  assume "I d"
  then have k: "I (snd (register (fst (next_id d)) (snd (next_id d))))" using next_id_keeps register_keeps by blast
  show ?thesis
  proof (cases "register (fst (next_id d)) (snd (next_id d))")
    case (Pair r d2)
    then show ?thesis using k \<open>I d\<close> by (cases r) (auto simp: begin_request_def split: prod.splits)
  qed
qed

lemma end_keeps: "I d \<Longrightarrow> end_request style m i r d = (v, notice, d') \<Longrightarrow> I d'"
  using forget_keeps
  by (cases r) (auto simp: end_request_def Let_def split: sum.splits integration_error.splits)

lemma evolves_keeps: "evolves d e \<Longrightarrow> I d \<Longrightarrow> I e"
  by (induction rule: evolves.induct) (auto intro: begin_keeps end_keeps dispatch_keeps fail_keeps close_keeps)

end

text \<open>The account of every channel handed out, in one list.\<close>

definition channels_of :: "dispatcher \<Rightarrow> nat list" where
  "channels_of d = map snd (dp_pending d) @ map fst (dp_delivered d) @ dp_dropped d"

definition accounted :: "dispatcher \<Rightarrow> bool" where
  "accounted d \<longleftrightarrow> distinct (map fst (dp_pending d)) \<and> mset (channels_of d) = mset [0..<dp_channels d]"

definition shut :: "dispatcher \<Rightarrow> bool" where
  "shut d \<longleftrightarrow> dp_closed d = (dp_close_reason d \<noteq> None) \<and> (dp_closed d \<longrightarrow> dp_pending d = [])"

lemma accounted_iff:
  "accounted d \<longleftrightarrow> distinct (map fst (dp_pending d)) \<and>
     image_mset snd (mset (dp_pending d)) + image_mset fst (mset (dp_delivered d)) + mset (dp_dropped d) =
     mset [0..<dp_channels d]"
  by (simp add: accounted_def channels_of_def ac_simps)

lemma take_waiter_mset:
  assumes "distinct (map fst ps)"
  shows "image_mset snd (mset ps) = (case map_of ps i of Some w \<Rightarrow> {#w#} | None \<Rightarrow> {#}) +
     image_mset snd (mset (filter (\<lambda>(j, _). j \<noteq> i) ps))"
  using assms
proof (induction ps)
  case (Cons p ps)
  have "i \<notin> fst ` set ps \<Longrightarrow> filter (\<lambda>(j, _). j \<noteq> i) ps = ps" by (force simp: filter_id_conv)
  moreover have "i \<notin> fst ` set ps \<Longrightarrow> map_of ps i = None" by (simp add: map_of_eq_None_iff)
  ultimately show ?case using Cons by (cases p) (auto simp del: mset_filter split: option.splits)
qed simp

lemma filter_keys_distinct: "distinct (map fst ps) \<Longrightarrow> distinct (map fst (filter P ps))"
  by (induction ps) auto

lemmas dispatcher_ops = register_def forget_def take_waiter_def drop_waiter_def deliver_def next_id_def close_def

lemma accounted_taken:
  assumes "accounted d" and "take_waiter i d = (w, d')"
  shows "distinct (map fst (dp_pending d'))" "i \<notin> fst ` set (dp_pending d')"
    and "(case w of Some n \<Rightarrow> {#n#} | None \<Rightarrow> {#}) + image_mset snd (mset (dp_pending d')) +
         image_mset fst (mset (dp_delivered d')) + mset (dp_dropped d') = mset [0..<dp_channels d]"
    and "dp_channels d' = dp_channels d"
  using assms take_waiter_mset [of "dp_pending d" i]
  by (auto simp: take_waiter_def accounted_iff filter_keys_distinct simp del: mset_filter mset_upt)

lemma accounted_take:
  assumes "accounted d"
  shows "accounted (forget i d)" "accounted (case take_waiter i d of (w, d') \<Rightarrow> deliver w r d')"
proof -
  obtain w d' where t: "take_waiter i d = (w, d')" by fastforce
  note taken = accounted_taken [OF assms t]
  show "accounted (forget i d)" "accounted (case take_waiter i d of (w, d') \<Rightarrow> deliver w r d')"
    using taken t by (cases w; simp add: accounted_iff forget_def drop_waiter_def deliver_def ac_simps del: mset_upt)+
qed

lemma accounted_register: "accounted d \<Longrightarrow> accounted (snd (register i d))"
proof (cases "dp_close_reason d")
  case None
  assume a: "accounted d"
  obtain w d' where t: "take_waiter i d = (w, d')" by fastforce
  then have r: "snd (register i d) = (drop_waiter w d')\<lparr>dp_channels := Suc (dp_channels d),
      dp_pending := (i, dp_channels d) # dp_pending d'\<rparr>"
    using None by (auto simp: register_def take_waiter_def drop_waiter_def Let_def)
  show ?thesis
    using accounted_taken [OF a t] unfolding r by (cases w) (simp_all add: accounted_iff drop_waiter_def ac_simps)
qed (simp add: register_def)

lemma accounted_close: "accounted d \<Longrightarrow> accounted (close why d)"
proof -
  have "image_mset fst (image_mset (\<lambda>(_, w). (w, Inl (Disconnected why) :: outcome)) (mset ps)) = image_mset snd (mset ps)" for ps :: "(request_id \<times> nat) list"
    by (simp add: image_mset.compositionality comp_def case_prod_beta)
  then show "accounted d \<Longrightarrow> accounted (close why d)"
    by (simp add: accounted_iff close_def ac_simps)
qed

lemma accounted_next_id: "accounted d \<Longrightarrow> accounted (snd (next_id d))"
  by (simp add: accounted_iff next_id_def)

lemma accounted_output: "accounted d \<Longrightarrow> accounted (d\<lparr>dp_replies := x\<rparr>)" "accounted d \<Longrightarrow> accounted (d\<lparr>dp_notified := y\<rparr>)"
  by (simp_all add: accounted_iff)

interpretation accounted: dispatcher_law accounted
  by unfold_locales
     (intro accounted_next_id accounted_register accounted_take accounted_close accounted_output; assumption)+

interpretation shut: dispatcher_law shut
  by unfold_locales (auto simp: shut_def dispatcher_ops Let_def split: option.splits prod.splits)

text \<open>Once closed, a connection keeps its reason and takes no request.\<close>

interpretation closed: dispatcher_law "\<lambda>d. dp_close_reason d = Some why \<and> dp_channels d = n" for why n
  by unfold_locales (auto simp: dispatcher_ops Let_def split: option.splits prod.splits)

lemma new_dispatcher_laws: "accounted new_dispatcher" "shut new_dispatcher"
  by (simp_all add: accounted_def channels_of_def shut_def new_dispatcher_def)

lemmas run_laws = accounted.evolves_keeps [OF _ new_dispatcher_laws(1)] shut.evolves_keeps [OF _ new_dispatcher_laws(2)]

lemma deliver_pending [simp]: "dp_pending (deliver w r d) = dp_pending d"
  by (simp add: deliver_def)

lemma fail_pending: "map_of (dp_pending (fail i e d)) i = None"
  by (auto simp: fail_def take_waiter_def map_of_eq_None_iff)

lemma drain_ends_request: "shut d \<Longrightarrow> map_of (dp_pending (drain_loop items seen (Some i) d)) i = None"
proof (induction items arbitrary: seen d)
  case Nil
  then show ?case using fail_pending by (simp add: shut_def)
next
  case (Cons item items)
  show ?case
    using Cons.IH [OF Cons.prems] Cons.IH [OF shut.dispatch_keeps [OF Cons.prems]] Cons.prems fail_pending
    by (auto simp: shut_def simp del: dispatch.simps split: sum.splits option.splits rpc_message.splits)
qed

section \<open>Properties\<close>

text \<open>
  What is written to a server reads back as what was meant: a request, a notification and a response each survive
  \<open>to_value\<close> and \<open>from_value\<close>, with their ids over the whole range of \<open>i64\<close>. The exception is an error whose \<open>data\<close> is
  \<open>null\<close>, which reads back without it.
\<close>

theorem rpc_messages_round_trip:
  "from_value t (request_value r) = RpcRequest r \<and> from_value t (notification_value n) = RpcNotification n \<and>
   ((\<forall>e. rs_result p = Inl e \<longrightarrow> eo_data e \<noteq> Some JNull) \<longrightarrow> from_value t (response_value p) = RpcResponse p)"
  using request_round_trip notification_round_trip response_round_trip [of p t] by blast

text \<open>
  C21. Every request of a connection ends exactly once. However the operations of its tasks interleave, each channel
  handed out is waiting, answered, or abandoned, one of them and once; and a closed connection has nothing waiting, keeps
  its first reason and hands out no channel any more.
\<close>

theorem requests_end_once:
  assumes "evolves new_dispatcher d"
  shows "distinct (channels_of d) \<and> set (channels_of d) = {..<dp_channels d} \<and>
         (dp_close_reason d = Some why \<longrightarrow> dp_pending d = [] \<and>
            (\<forall>d'. evolves d d' \<longrightarrow> dp_close_reason d' = Some why \<and> dp_channels d' = dp_channels d))"
proof (intro conjI impI)
  have m: "mset (channels_of d) = mset [0..<dp_channels d]" using run_laws(1) [OF assms] by (simp add: accounted_def)
  then show "distinct (channels_of d)" by (metis distinct_upt mset_eq_imp_distinct_iff)
  show "set (channels_of d) = {..<dp_channels d}" using m by (metis mset_eq_setD set_upt atLeast0LessThan)
next
  assume c: "dp_close_reason d = Some why"
  then show "dp_pending d = []" using run_laws(2) [OF assms] by (simp add: shut_def)
  show "\<forall>d'. evolves d d' \<longrightarrow> dp_close_reason d' = Some why \<and> dp_channels d' = dp_channels d"
    using c closed.evolves_keeps by blast
qed

text \<open>
  A waiting request is not left hanging by what the server sends: a message with its id and no method, however
  malformed its result, gives its waiter an outcome; and when the stream of its own reply is over, it is no longer
  waiting.
\<close>

theorem waiting_requests_are_answered:
  assumes "evolves new_dispatcher d"
  shows "(map_of (dp_pending d) i = Some w \<longrightarrow> map_of fs ''id'' = Some (id_value i) \<longrightarrow> map_of fs ''method'' = None \<longrightarrow>
           (\<exists>r. dp_delivered (dispatch (from_value t (JObject fs)) d) = dp_delivered d @ [(w, r)]) \<and>
           map_of (dp_pending (dispatch (from_value t (JObject fs)) d)) i = None) \<and>
         map_of (dp_pending (drain items (Some i) d)) i = None"
proof (intro conjI impI)
  show "map_of (dp_pending (drain items (Some i) d)) i = None"
    using drain_ends_request run_laws(2) [OF assms] by (simp add: drain_def)
next
  assume w: "map_of (dp_pending d) i = Some w" and fs: "map_of fs ''id'' = Some (id_value i)" "map_of fs ''method'' = None"
  let ?gs = "without_field ''id'' fs"
  have "map_of ?gs ''method'' = None" using fs(2) by (auto simp: without_field_def map_of_eq_None_iff)
  then have "from_value t (JObject fs) = response_message t (Some i) ?gs"
    by (simp add: from_value_id [OF fs(1)] read_method_def)
  then have kind: "(\<exists>p. from_value t (JObject fs) = RpcResponse p \<and> rs_id p = Some i) \<or>
      (\<exists>why. from_value t (JObject fs) = RpcInvalid (Some i) why)"
    by (auto simp: response_message_def invalid_def split: option.splits)
  show "\<exists>r. dp_delivered (dispatch (from_value t (JObject fs)) d) = dp_delivered d @ [(w, r)]"
    using kind w by (auto simp: resolve_response_def fail_def take_waiter_def deliver_def)
  show "map_of (dp_pending (dispatch (from_value t (JObject fs)) d)) i = None"
    using kind
  proof (elim disjE exE conjE)
    fix p assume "from_value t (JObject fs) = RpcResponse p" "rs_id p = Some i"
    then show ?thesis by (auto simp: resolve_response_def take_waiter_def map_of_eq_None_iff)
  qed (simp add: fail_pending)
qed

section \<open>Witnesses\<close>

theorem rpc_messages_round_trip_witness:
  "from_value (\<lambda>_. []) (response_value \<lparr>rs_id = Some (IdNumber (- 3)), rs_result = Inl (new_error METHOD_NOT_FOUND ''no'')\<rparr>) =
     RpcResponse \<lparr>rs_id = Some (IdNumber (- 3)), rs_result = Inl (new_error METHOD_NOT_FOUND ''no'')\<rparr>"
  using rpc_messages_round_trip [of "\<lambda>_. []" undefined undefined
      "\<lparr>rs_id = Some (IdNumber (- 3)), rs_result = Inl (new_error METHOD_NOT_FOUND ''no'')\<rparr>"]
  by (simp add: new_error_def)

text \<open>One request in flight, then the connection closes.\<close>

definition demo_rpc :: dispatcher where
  "demo_rpc = close ''end'' (snd (begin_request False ''ping'' None new_dispatcher))"

lemma demo_rpc_run: "evolves new_dispatcher (snd (begin_request False ''ping'' None new_dispatcher))"
  by (rule evolves_begin [OF evolves_refl])

theorem requests_end_once_witness:
  "distinct (channels_of demo_rpc) \<and> channels_of demo_rpc = [0] \<and> dp_delivered demo_rpc = [(0, Inl (Disconnected ''end''))] \<and>
   dp_pending demo_rpc = []"
proof -
  have run: "evolves new_dispatcher demo_rpc" unfolding demo_rpc_def by (intro evolves_close demo_rpc_run)
  have "channels_of demo_rpc = [0]" "dp_delivered demo_rpc = [(0, Inl (Disconnected ''end''))]" "dp_close_reason demo_rpc = Some ''end''"
    by (simp_all add: demo_rpc_def begin_request_def dispatcher_ops new_dispatcher_def channels_of_def)
  then show ?thesis using requests_end_once [OF run, of "''end''"] by simp
qed

definition demo_answer :: "(string \<times> json) list" where
  "demo_answer = [(''id'', id_value (IdNumber 1)), (''error'', JString ''x'')]"

theorem waiting_requests_are_answered_witness:
  "map_of (dp_pending (drain [] (Some (IdNumber 1)) (snd (begin_request False ''ping'' None new_dispatcher)))) (IdNumber 1) = None \<and>
   (\<exists>r. dp_delivered (dispatch (from_value (\<lambda>_. []) (JObject demo_answer)) (snd (begin_request False ''ping'' None new_dispatcher))) =
      dp_delivered (snd (begin_request False ''ping'' None new_dispatcher)) @ [(0, r)])"
proof -
  have "map_of (dp_pending (snd (begin_request False ''ping'' None new_dispatcher))) (IdNumber 1) = Some 0"
    by (simp add: begin_request_def dispatcher_ops new_dispatcher_def)
  moreover have "map_of demo_answer ''id'' = Some (id_value (IdNumber 1))" "map_of demo_answer ''method'' = None"
    unfolding demo_answer_def by simp_all
  ultimately show ?thesis
    using waiting_requests_are_answered [OF demo_rpc_run, of "IdNumber 1" 0 demo_answer "\<lambda>_. []" "[]"] by blast
qed

end
