(* ===== verification/Template.thy ===== *)
theory Template
  imports Prelude
begin

text \<open>
  \<open>crates/z-engine-context/src/template.rs\<close>: substitution of \<open>{{name}}\<close> placeholders, line by line. \<open>str::find\<close>
  followed by the two slices around the occurrence is \<open>split_once\<close>.
\<close>

section \<open>Rendering\<close>

abbreviation LBRACES :: string where "LBRACES \<equiv> ''{{''"
abbreviation RBRACES :: string where "RBRACES \<equiv> ''}}''"

definition is_placeholder :: "string \<Rightarrow> bool" where
  "is_placeholder name =
     (let key = (case strip_suffix ''?'' name of Some k \<Rightarrow> k | None \<Rightarrow> name) in
      key \<noteq> [] \<and> (\<forall>c \<in> set key. is_ascii_alphanumeric c \<or> c = CHR ''_''))"

function render_rest :: "(string \<times> string) list \<Rightarrow> string \<Rightarrow> string option" where
  "render_rest values rest =
     (case split_once LBRACES rest of
        None \<Rightarrow> Some rest
      | Some (pre, after) \<Rightarrow>
          (case split_once RBRACES after of
             Some (name, tail) \<Rightarrow>
               if is_placeholder name then
                 (let (key, optional) = (case strip_suffix ''?'' name of Some k \<Rightarrow> (k, True) | None \<Rightarrow> (name, False)) in
                  case map_of values key of
                    Some v \<Rightarrow> if \<not> (optional \<and> trim v = []) then map_option (\<lambda>t. pre @ v @ t) (render_rest values tail) else None
                  | None \<Rightarrow> if \<not> optional then map_option (\<lambda>t. pre @ LBRACES @ name @ RBRACES @ t) (render_rest values tail)
                            else None)
               else map_option (\<lambda>t. pre @ LBRACES @ t) (render_rest values after)
           | None \<Rightarrow> map_option (\<lambda>t. pre @ LBRACES @ t) (render_rest values after)))"
  by pat_completeness auto
termination
  by (relation "measure (\<lambda>(values, rest). length rest)") (auto dest!: split_once_length)

declare render_rest.simps [simp del]

definition render_line :: "string \<Rightarrow> (string \<times> string) list \<Rightarrow> string option" where
  "render_line line values = render_rest values line"

definition render_template :: "string \<Rightarrow> (string \<times> string) list \<Rightarrow> string" where
  "render_template template values =
     join_with [NL] (List.map_filter (\<lambda>line. render_line line values) (split_on NL template))"

section \<open>Lemmas\<close>

lemma split_on_join:
  "ls \<noteq> [] \<Longrightarrow> \<forall>l \<in> set ls. d \<notin> set l \<Longrightarrow> split_on d (join_with [d] ls) = ls"
proof (induction "[d]" ls rule: join_with.induct)
  case (3 t u ts)
  have app: "d \<notin> set a \<Longrightarrow> split_on d (a @ d # b) = a # split_on d b" for a b
    by (induction a) auto
  show ?case using 3 by (simp add: app)
qed (simp_all add: split_on_notin)

lemma render_line_plain: "split_once LBRACES line = None \<Longrightarrow> render_line line values = Some line"
  by (simp add: render_line_def render_rest.simps)

text \<open>A line that is one required placeholder becomes its value, which is not read again.\<close>

lemma render_line_value:
  assumes "is_placeholder key" and "CHR ''?'' \<notin> set key" and "map_of values key = Some v"
  shows "render_line (LBRACES @ key @ RBRACES) values = Some v"
proof -
  have no_brace: "CHR ''}'' \<notin> set key"
    using assms(1,2) by (auto simp: is_placeholder_def Let_def ascii_simps strip_suffix_Some_iff split: option.splits)
  have "split_once RBRACES (key @ RBRACES) = Some (key, [])" if "CHR ''}'' \<notin> set key" for key
    using that by (induction key) (auto simp: split_once.simps)
  moreover have "split_once LBRACES (LBRACES @ key @ RBRACES) = Some ([], key @ RBRACES)"
    by (simp add: split_once.simps)
  moreover have "strip_suffix ''?'' key = None"
    using assms(2) by (cases "strip_suffix ''?'' key") (auto simp: strip_suffix_Some_iff)
  ultimately show ?thesis
    using assms no_brace by (simp add: render_line_def render_rest.simps split_once.simps [of _ "[]"])
qed

text \<open>White space at the end is cut only behind the last other character.\<close>

lemma uchars_append_ascii: "code c < 128 \<Longrightarrow> uchars (a @ c # b) = uchars a @ uchars (c # b)"
proof (induction a rule: uchars.induct)
  case (2 x xs)
  have c: "\<not> is_continuation c" using 2(2) by (simp add: is_continuation_def)
  have t: "takeWhile is_continuation (xs @ c # b) = takeWhile is_continuation xs"
    and d: "dropWhile is_continuation (xs @ c # b) = dropWhile is_continuation xs @ c # b"
    using c by (induction xs) auto
  show ?case using 2 by (simp add: t d)
qed simp

lemma trim_end_keeps:
  assumes "code c < 128" and "\<not> is_whitespace [c]" and "b = [] \<or> \<not> is_continuation (hd b)"
  shows "\<exists>t. trim_end (a @ c # b) = a @ c # t"
proof -
  have hd: "uchars (c # b) = [c] # uchars b"
    using assms(3) by (cases b) auto
  have u: "uchars (a @ c # b) = uchars a @ [c] # uchars b"
    using uchars_append_ascii [OF assms(1)] hd by simp
  have "dropWhile is_whitespace (rev (uchars b) @ [c] # rev (uchars a)) =
      dropWhile is_whitespace (rev (uchars b)) @ [c] # rev (uchars a)" 
    using assms(2) by (simp add: dropWhile_append)
  then show ?thesis by (simp add: trim_end_def u)
qed

end
