(* ===== verification/Compaction.thy ===== *)
theory Compaction
  imports Template Batch
begin

text \<open>
  \<open>crates/z-engine-context/src/compaction\<close>: how the history of a session is made smaller before it is sent. Old tool
  results are cleared in place (\<open>micro.rs\<close>, \<open>ranked.rs\<close>, with the results kept whatever the decision model says of
  \<open>keeps.rs\<close>), older messages are replaced by a summary (\<open>summary.rs\<close>, \<open>transcript.rs\<close>), and exchanges a new task does
  not need are set aside (\<open>exchanges.rs\<close>, \<open>task_view.rs\<close>). What a call touched is read from its input (\<open>touch.rs\<close>).

  Outside the source are the Unicode table of \<open>char::is_alphanumeric\<close> (\<open>alphanumeric\<close>, on one encoded scalar value)
  and the compact text of a JSON value (\<open>json_text\<close>). A \<open>HashMap\<close> filled by \<open>insert\<close> in the order of a list is \<open>map_of\<close> of the
  reversed list, one filled by \<open>entry().or_insert\<close> is \<open>map_of\<close> of the list itself.
\<close>

type_synonym jmessage = "json message"

section \<open>What a call touched (touch.rs)\<close>

definition EDIT_TOOLS :: "string list" where "EDIT_TOOLS = [''Edit'', ''MultiEdit'', ''Write'', ''NotebookEdit'']"
definition CHECK_TOOLS :: "string list" where "CHECK_TOOLS = [''Bash'', ''Verify'']"
definition PATH_FIELDS :: "string list" where "PATH_FIELDS = [''file_path'', ''notebook_path'', ''path'']"

definition is_edit :: "string \<Rightarrow> bool" where "is_edit name \<longleftrightarrow> name \<in> set EDIT_TOOLS"
definition is_check :: "string \<Rightarrow> bool" where "is_check name \<longleftrightarrow> name \<in> set CHECK_TOOLS"

definition get_str :: "string \<Rightarrow> json \<Rightarrow> string option" where
  "get_str k v = (case json_get k v of Some (JString s) \<Rightarrow> Some s | _ \<Rightarrow> None)"

definition call_paths :: "json \<Rightarrow> string list" where
  "call_paths input = filter (\<lambda>p. p \<noteq> []) (map trim (List.map_filter (\<lambda>f. get_str f input) PATH_FIELDS))"

definition call_command :: "json \<Rightarrow> string option" where
  "call_command input = get_str ''command'' input"

definition OPEN_REMINDER :: string where "OPEN_REMINDER = ''<system-reminder>''"
definition CLOSE_REMINDER :: string where "CLOSE_REMINDER = ''</system-reminder>''"

function strip_reminders :: "string \<Rightarrow> string" where
  "strip_reminders s =
     (case split_once OPEN_REMINDER s of
        None \<Rightarrow> s
      | Some (pre, after) \<Rightarrow>
          pre @ (case split_once CLOSE_REMINDER (OPEN_REMINDER @ after) of
                   Some (_, tail) \<Rightarrow> strip_reminders tail
                 | None \<Rightarrow> []))"
  by pat_completeness auto
termination
  by (relation "measure length") (auto dest!: split_once_length simp: CLOSE_REMINDER_def)

declare strip_reminders.simps [simp del]

text \<open>\<open>str::rsplit_once\<close>: around the last occurrence of a character.\<close>

definition rsplit_char :: "char \<Rightarrow> string \<Rightarrow> (string \<times> string) option" where
  "rsplit_char c s = (if c \<in> set s
     then Some (rev (tl (dropWhile (\<lambda>x. x \<noteq> c) (rev s))), rev (takeWhile (\<lambda>x. x \<noteq> c) (rev s))) else None)"

definition looks_like_path :: "(string \<Rightarrow> bool) \<Rightarrow> string \<Rightarrow> bool" where
  "looks_like_path alphanumeric word =
     (if length word < 3 \<or> contains_str ''://'' word \<or> starts_with ''-'' word then False
      else if CHR ''/'' \<in> set word then (\<exists>u \<in> set (uchars word). alphanumeric u)
      else (case rsplit_char (CHR ''.'') word of
          None \<Rightarrow> False
        | Some (stem, ext) \<Rightarrow>
            2 \<le> char_count stem \<and> 1 \<le> length ext \<and> length ext \<le> 8 \<and>
            (ext \<noteq> [] \<and> is_ascii_alphabetic (hd ext)) \<and> (\<forall>c \<in> set ext. is_ascii_alphanumeric c)))"

text \<open>\<open>str::split\<close> on a class of characters.\<close>

fun split_chars :: "(string \<Rightarrow> bool) \<Rightarrow> string list \<Rightarrow> string list" where
  "split_chars P [] = [[]]"
| "split_chars P (u # us) =
     (if P u then [] # split_chars P us
      else (case split_chars P us of w # ws \<Rightarrow> (u @ w) # ws | [] \<Rightarrow> [u]))"

definition WORD_ENDS :: "string list" where
  "WORD_ENDS = map (\<lambda>c. [c]) (DQUOTE # QUOTE # BACKTICK # ''()[]{}<>,;'')"

definition named_paths :: "(string \<Rightarrow> bool) \<Rightarrow> string \<Rightarrow> string list" where
  "named_paths alphanumeric t = foldl (\<lambda>named word.
       let word = trim_end_matches (\<lambda>c. c \<in> set ''.:!?'') word;
           word = (case strip_prefix ''./'' word of Some w \<Rightarrow> w | None \<Rightarrow> word) in
       if looks_like_path alphanumeric word \<and> word \<notin> set named then named @ [word] else named)
     [] (split_chars (\<lambda>u. is_whitespace u \<or> u \<in> set WORD_ENDS) (uchars (strip_reminders t)))"

definition names_path :: "string list \<Rightarrow> string \<Rightarrow> bool" where
  "names_path named path =
     (let path = (case strip_prefix ''./'' path of Some p \<Rightarrow> p | None \<Rightarrow> path);
          file_name = (case rsplit_char (CHR ''/'') path of Some (_, f) \<Rightarrow> f | None \<Rightarrow> path) in
      \<exists>name \<in> set named.
        let name = trim_end_matches (\<lambda>c. c = CHR ''/'') name in
        name \<noteq> [] \<and>
        (path = name \<or> ends_with (''/'' @ name) path \<or> (CHR ''/'' \<notin> set name \<and> file_name = name) \<or>
         contains_str (''/'' @ name @ ''/'') path \<or> starts_with (name @ ''/'') path))"

fun is_result_block :: "json content_block \<Rightarrow> bool" where
  "is_result_block (ToolResult _ _ _) = True"
| "is_result_block _ = False"

definition request_text :: "jmessage \<Rightarrow> string" where
  "request_text m = trim (join_with [NL] (filter (\<lambda>t. trim t \<noteq> [])
     (List.map_filter (\<lambda>b. case b of TextBlock t \<Rightarrow> Some (strip_reminders t) | _ \<Rightarrow> None) (msg_content m))))"

definition latest_request :: "jmessage list \<Rightarrow> jmessage option" where
  "latest_request ms = find (\<lambda>m. msg_role m = User \<and> msg_content m \<noteq> [] \<and> \<not> (\<exists>b \<in> set (msg_content m). is_result_block b)) (rev ms)"

section \<open>Where the history may be cut (summary.rs)\<close>

definition SUMMARY_OPENING :: string where
  "SUMMARY_OPENING = ''This session continues an earlier conversation that was summarized to fit the context window. The summary below replaces the earlier messages; the most recent messages follow it unchanged.''"

definition SUMMARY_ADVICE :: string where
  "SUMMARY_ADVICE = ''Use the summary as context for the rest of the conversation. If the summary ends in the middle of a task, continue that task from the messages that follow. Details in it may be out of date, so read files again before you edit them.''"

definition SUMMARY_LINES :: "string list" where
  "SUMMARY_LINES = [SUMMARY_OPENING, [], ''<summary>'', LBRACES @ ''summary'' @ RBRACES, ''</summary>'', [], SUMMARY_ADVICE, []]"

definition COMPACTION_SUMMARY :: string where "COMPACTION_SUMMARY = join_with [NL] SUMMARY_LINES"

definition MIN_SUMMARIZED :: nat where "MIN_SUMMARIZED = 2"

definition is_split_point :: "jmessage \<Rightarrow> bool" where
  "is_split_point m =
     (case msg_role m of
        Assistant \<Rightarrow> True
      | User \<Rightarrow> msg_content m \<noteq> [] \<and> \<not> (\<exists>b \<in> set (msg_content m). is_result_block b))"

text \<open>The calls and the results of a history, in order, with the index of their message.\<close>

definition uses_at :: "jmessage list \<Rightarrow> (string \<times> nat) list" where
  "uses_at ms = concat (map (\<lambda>(index, m). map (\<lambda>(i, _, _). (i, index)) (tool_uses m)) (List.enumerate 0 ms))"

definition results_at :: "jmessage list \<Rightarrow> (string \<times> nat) list" where
  "results_at ms = concat (map (\<lambda>(index, m). List.map_filter (\<lambda>b. case b of ToolResult i _ _ \<Rightarrow> Some (i, index) | _ \<Rightarrow> None)
     (msg_content m)) (List.enumerate 0 ms))"

definition mark_pair :: "(string \<times> nat) list \<Rightarrow> int list \<Rightarrow> string \<times> nat \<Rightarrow> int list" where
  "mark_pair uses delta r =
     (case map_of uses (fst r) of
        None \<Rightarrow> delta
      | Some use_index \<Rightarrow>
          let lo = min use_index (snd r); hi = max use_index (snd r) in
          if lo < hi then (let d = delta[lo + 1 := delta ! (lo + 1) + 1] in d[hi + 1 := d ! (hi + 1) - 1]) else delta)"

primrec open_after :: "int list \<Rightarrow> int \<Rightarrow> bool list" where
  "open_after [] opened = []"
| "open_after (change # changes) opened = (opened + change > 0) # open_after changes (opened + change)"

definition crossed_splits :: "jmessage list \<Rightarrow> bool list" where
  "crossed_splits ms = open_after
     (take (length ms + 1) (foldl (mark_pair (uses_at ms)) (replicate (length ms + 2) 0) (results_at ms))) 0"

definition plan_summary :: "jmessage list \<Rightarrow> nat \<Rightarrow> nat option" where
  "plan_summary ms keep_recent_messages =
     (let crossed = crossed_splits ms;
          splits = filter (\<lambda>split. \<not> crossed ! split \<and> is_split_point (ms ! split)) (rev [MIN_SUMMARIZED..<length ms]) in
      (case splits of
         [] \<Rightarrow> None
       | latest # _ \<Rightarrow> Some (case find (\<lambda>split. length ms - split \<ge> keep_recent_messages) splits of
             Some split \<Rightarrow> split | None \<Rightarrow> latest)))"

text \<open>\<open>Message::user_text\<close>; \<open>fresh\<close> is the identifier and the time that \<open>Message::new\<close> draws.\<close>

definition user_text :: "string \<times> u64 \<Rightarrow> string \<Rightarrow> jmessage" where
  "user_text fresh t = \<lparr>msg_id = fst fresh, msg_role = User, msg_content = [TextBlock t], msg_created_at = snd fresh\<rparr>"

definition summary_message :: "string \<times> u64 \<Rightarrow> string \<Rightarrow> jmessage" where
  "summary_message fresh summary = user_text fresh (trim_end (render_template COMPACTION_SUMMARY [(''summary'', trim summary)]))"

text \<open>\<open>split("{{").next()\<close>, trimmed.\<close>

definition template_head :: "string \<Rightarrow> string" where
  "template_head t = trim (case split_once LBRACES t of Some (pre, _) \<Rightarrow> pre | None \<Rightarrow> t)"

definition is_summary :: "jmessage \<Rightarrow> bool" where
  "is_summary m = (let head = template_head COMPACTION_SUMMARY in
     msg_role m = User \<and> head \<noteq> [] \<and> starts_with head (message_text m))"

definition apply_summary :: "jmessage list \<Rightarrow> nat \<Rightarrow> jmessage \<Rightarrow> jmessage list" where
  "apply_summary ms split summary = summary # drop (min split (length ms)) ms"

section \<open>Clearing old results (micro.rs, ranked.rs)\<close>

definition CLEARED_PREFIX :: string where "CLEARED_PREFIX = ''[cleared''"

record clear_target =
  ct_message :: nat
  ct_block :: nat
  ct_call_id :: string
  ct_chars :: nat

definition result_blocks :: "jmessage list \<Rightarrow> (nat \<times> nat \<times> string \<times> tool_result_part list) list" where
  "result_blocks ms = concat (map (\<lambda>(i, m). List.map_filter (\<lambda>(j, b). case b of
       ToolResult call parts _ \<Rightarrow> Some (i, j, call, parts) | _ \<Rightarrow> None) (List.enumerate 0 (msg_content m)))
     (List.enumerate 0 ms))"

definition older_results :: "jmessage list \<Rightarrow> nat \<Rightarrow> clear_target list" where
  "older_results ms keep_recent =
     (let results = result_blocks ms in
      List.map_filter (\<lambda>(i, j, call, parts).
          let t = parts_text parts in
          if \<not> starts_with CLEARED_PREFIX (trim_start t)
          then Some \<lparr>ct_message = i, ct_block = j, ct_call_id = call, ct_chars = char_count t\<rparr> else None)
        (take (length results - keep_recent) results))"

definition plan_microcompact :: "jmessage list \<Rightarrow> nat \<Rightarrow> nat \<Rightarrow> clear_target list" where
  "plan_microcompact ms keep_recent min_chars = filter (\<lambda>t. ct_chars t > min_chars) (older_results ms keep_recent)"

definition IRRELEVANT_FLOOR_DIVISOR :: nat where "IRRELEVANT_FLOOR_DIVISOR = 4"

definition plan_microcompact_ranked ::
  "jmessage list \<Rightarrow> nat \<Rightarrow> nat \<Rightarrow> (string \<Rightarrow> bool option) \<Rightarrow> (string \<Rightarrow> bool) \<Rightarrow> clear_target list" where
  "plan_microcompact_ranked ms keep_recent min_chars relevance protected =
     (let floor = min_chars div IRRELEVANT_FLOOR_DIVISOR in
      filter (\<lambda>t. case relevance (ct_call_id t) of
            Some True \<Rightarrow> False
          | Some False \<Rightarrow> ct_chars t > floor
          | None \<Rightarrow> ct_chars t > min_chars)
        (filter (\<lambda>t. \<not> protected (ct_call_id t)) (older_results ms keep_recent)))"

fun is_image :: "tool_result_part \<Rightarrow> bool" where
  "is_image (PartImage _) = True"
| "is_image (PartText _) = False"

definition clear_one ::
  "(clear_target \<Rightarrow> string \<Rightarrow> string) \<Rightarrow> jmessage list \<times> nat \<Rightarrow> clear_target \<Rightarrow> jmessage list \<times> nat" where
  "clear_one replacement acc t =
     (let (ms, applied) = acc; i = ct_message t; j = ct_block t in
      if i < length ms \<and> j < length (msg_content (ms ! i)) then
        (case msg_content (ms ! i) ! j of
           ToolResult call parts is_error \<Rightarrow>
             if call \<noteq> ct_call_id t then acc
             else (ms[i := (ms ! i)\<lparr>msg_content := (msg_content (ms ! i))[j :=
                      ToolResult call (PartText (replacement t (parts_text parts)) # filter is_image parts) is_error]\<rparr>],
                   Suc applied)
         | _ \<Rightarrow> acc)
      else acc)"

definition apply_microcompact ::
  "jmessage list \<Rightarrow> clear_target list \<Rightarrow> (clear_target \<Rightarrow> string \<Rightarrow> string) \<Rightarrow> jmessage list \<times> nat" where
  "apply_microcompact ms planned replacement = foldl (clear_one replacement) (ms, 0) planned"

section \<open>Results kept whatever the model says (keeps.rs)\<close>

datatype keep_reason = NamedFile | FailingCheck | EditedSince

fun keep_label :: "keep_reason \<Rightarrow> string" where
  "keep_label NamedFile = ''file named by the user''"
| "keep_label FailingCheck = ''latest failing check output''"
| "keep_label EditedSince = ''file edited since''"

definition all_calls :: "jmessage list \<Rightarrow> (string \<times> string \<times> json) list" where
  "all_calls ms = concat (map tool_uses ms)"

definition edited_at :: "jmessage list \<Rightarrow> (string \<times> nat) list" where
  "edited_at ms = concat (map (\<lambda>(index, m). concat (map (\<lambda>(_, name, input).
       if is_edit name then map (\<lambda>p. (p, index)) (call_paths input) else []) (tool_uses m))) (List.enumerate 0 ms))"

definition protect_block ::
  "jmessage list \<Rightarrow> string list \<Rightarrow> nat \<Rightarrow> (string \<rightharpoonup> keep_reason) \<times> string option \<Rightarrow> json content_block \<Rightarrow>
   (string \<rightharpoonup> keep_reason) \<times> string option" where
  "protect_block ms named index acc b =
     (case b of
        ToolResult i _ is_error \<Rightarrow>
          (case map_of (rev (all_calls ms)) i of
             None \<Rightarrow> acc
           | Some (name, input) \<Rightarrow>
               let (protected, failing) = acc;
                   failing = (if is_error \<and> is_check name then Some i else failing);
                   paths = call_paths input in
               if \<exists>p \<in> set paths. names_path named p then (protected(i \<mapsto> NamedFile), failing)
               else if \<exists>p \<in> set paths. (case map_of (rev (edited_at ms)) p of Some at \<Rightarrow> at > index | None \<Rightarrow> False)
               then (protected(i \<mapsto> EditedSince), failing)
               else (protected, failing))
      | _ \<Rightarrow> acc)"

definition protected_results :: "jmessage list \<Rightarrow> string list \<Rightarrow> string \<rightharpoonup> keep_reason" where
  "protected_results ms named =
     (let (protected, failing) = foldl (\<lambda>acc (index, m). foldl (protect_block ms named index) acc (msg_content m))
            (Map.empty, None) (List.enumerate 0 ms) in
      (case failing of Some i \<Rightarrow> protected(i \<mapsto> FailingCheck) | None \<Rightarrow> protected))"

section \<open>The transcript (transcript.rs, text.rs)\<close>

definition single_line :: "string \<Rightarrow> string" where
  "single_line t = join_with [SPACE] (split_whitespace t)"

text \<open>The first \<open>n\<close> characters of a text, and what follows them.\<close>

definition take_chars :: "nat \<Rightarrow> string \<Rightarrow> string" where
  "take_chars n t = concat (take n (uchars t))"

definition drop_chars :: "nat \<Rightarrow> string \<Rightarrow> string" where
  "drop_chars n t = concat (drop n (uchars t))"

abbreviation ELLIPSIS :: string where "ELLIPSIS \<equiv> [CHR 0xE2, CHR 0x80, CHR 0xA6]"

definition truncate_text :: "string \<Rightarrow> nat \<Rightarrow> string" where
  "truncate_text t max_chars =
     (let total = char_count t in
      if total \<le> max_chars then t
      else let tail = max_chars div 2 in
        take_chars (max_chars - tail) t @ [NL] @ ''['' @ ELLIPSIS @ '' '' @ nat_str (total - max_chars) @
        '' chars truncated '' @ ELLIPSIS @ '']'' @ [NL] @ drop_chars (total - tail) t)"

definition result_body :: "tool_result_part list \<Rightarrow> string" where
  "result_body parts = join_with [NL] (map (\<lambda>p. case p of PartText t \<Rightarrow> t | PartImage _ \<Rightarrow> ''[image]'') parts)"

fun clip_strings :: "nat \<Rightarrow> json \<Rightarrow> json" where
  "clip_strings n (JString t) = JString (truncate_text t n)"
| "clip_strings n (JArray items) = JArray (map (clip_strings n) items)"
| "clip_strings n (JObject fs) = JObject (map (\<lambda>(k, v). (k, clip_strings n v)) fs)"
| "clip_strings n v = v"

definition transcript_entry ::
  "(json \<Rightarrow> string) \<Rightarrow> (string \<times> string) list \<Rightarrow> nat \<Rightarrow> role \<Rightarrow> json content_block \<Rightarrow> string option" where
  "transcript_entry json_text names n r b =
     (let speaker = (case r of User \<Rightarrow> ''User'' | Assistant \<Rightarrow> ''Assistant'') in
      (case b of
         TextBlock t \<Rightarrow> if trim t = [] then None else Some (speaker @ '': '' @ trim t)
       | ImageBlock _ \<Rightarrow> Some (speaker @ '': [image]'')
       | DocumentBlock _ (Some title) \<Rightarrow> Some (speaker @ '': [document: '' @ title @ '']'')
       | DocumentBlock _ None \<Rightarrow> Some (speaker @ '': [document]'')
       | ThinkingBlock _ _ \<Rightarrow> None
       | RedactedThinking _ \<Rightarrow> None
       | ToolUse _ name input \<Rightarrow> Some (''Tool call '' @ name @ '' '' @ json_text (clip_strings n input))
       | ToolResult i parts is_error \<Rightarrow>
           Some ((if is_error then ''Tool error'' else ''Tool result'') @
                 (case map_of names i of Some name \<Rightarrow> '' ('' @ name @ '')'' | None \<Rightarrow> []) @
                 '': '' @ truncate_text (result_body parts) n)))"

definition render_for_summary :: "(json \<Rightarrow> string) \<Rightarrow> jmessage list \<Rightarrow> nat \<Rightarrow> string" where
  "render_for_summary json_text ms n =
     (let names = rev (map (\<lambda>(i, name, _). (i, name)) (all_calls ms)) in
      join_with [NL, NL] (concat (map (\<lambda>m. List.map_filter (transcript_entry json_text names n (msg_role m)) (msg_content m)) ms)))"

section \<open>Lemmas on splits\<close>

lemma sum_take_update:
  "i < length xs \<Longrightarrow> sum_list (take k (xs[i := xs ! i + v])) = sum_list (take k xs) + (if i < k then v else (0::int))"
proof (induction xs arbitrary: i k)
  case (Cons x xs)
  then show ?case by (cases i; cases k) auto
qed simp

lemma enumerate_index: "(i, x) \<in> set (List.enumerate 0 xs) \<Longrightarrow> i < length xs \<and> xs ! i = x"
  by (auto simp: in_set_enumerate_eq)

lemma map_filter_set: "set (List.map_filter f xs) = {y. \<exists>x \<in> set xs. f x = Some y}"
  by (force simp: List.map_filter_def)

lemma uses_at_bound: "map_of (uses_at ms) i = Some a \<Longrightarrow> a < length ms"
  by (drule map_of_SomeD) (auto simp: uses_at_def dest!: enumerate_index)

lemma results_at_bound: "(i, b) \<in> set (results_at ms) \<Longrightarrow> b < length ms"
proof -
  assume "(i, b) \<in> set (results_at ms)"
  then obtain index m and blk :: "json content_block" where e: "(index, m) \<in> set (List.enumerate 0 ms)"
    and blk: "(case blk of ToolResult k _ _ \<Rightarrow> Some (k, index) | _ \<Rightarrow> None) = Some (i, b)"
    by (auto simp: results_at_def map_filter_set)
  then show ?thesis using enumerate_index [OF e] by (cases blk) auto
qed

text \<open>A result on the other side of a split than its call.\<close>

definition covers :: "(string \<times> nat) list \<Rightarrow> nat \<Rightarrow> string \<times> nat \<Rightarrow> bool" where
  "covers uses s r \<longleftrightarrow> (\<exists>a. map_of uses (fst r) = Some a \<and> min a (snd r) < s \<and> s \<le> max a (snd r))"

lemma mark_pair_length [simp]: "length (mark_pair uses delta r) = length delta"
  by (simp add: mark_pair_def Let_def split: option.splits)

lemma mark_pair_sum:
  assumes "\<And>a. map_of uses (fst r) = Some a \<Longrightarrow> a + 1 < length delta" and "snd r + 1 < length delta"
  shows "sum_list (take (Suc s) (mark_pair uses delta r)) = sum_list (take (Suc s) delta) + (if covers uses s r then 1 else 0)"
proof (cases "map_of uses (fst r)")
  case (Some a)
  let ?lo = "min a (snd r)" let ?hi = "max a (snd r)"
  have len: "?hi + 1 < length delta" "?lo + 1 < length delta" using assms Some by auto
  show ?thesis
  proof (cases "?lo < ?hi")
    case True
    let ?d = "delta[?lo + 1 := delta ! (?lo + 1) + 1]"
    have "sum_list (take (Suc s) (?d[?hi + 1 := ?d ! (?hi + 1) - 1])) =
        sum_list (take (Suc s) delta) + (if ?lo + 1 < Suc s then 1 else 0) + (if ?hi + 1 < Suc s then - 1 else 0)"
      using sum_take_update [of "?hi + 1" ?d "Suc s" "- 1"] sum_take_update [of "?lo + 1" delta "Suc s" 1] len by simp
    then show ?thesis using Some True by (auto simp: mark_pair_def covers_def Let_def)
  next
    case False
    then show ?thesis using Some by (auto simp: mark_pair_def covers_def Let_def)
  qed
qed (simp add: mark_pair_def covers_def)

lemma marked_sum:
  assumes "\<And>i a. map_of uses i = Some a \<Longrightarrow> a + 1 < n" and "\<forall>r \<in> set rs. snd r + 1 < n" and "length delta = n"
  shows "sum_list (take (Suc s) (foldl (mark_pair uses) delta rs)) =
         sum_list (take (Suc s) delta) + int (length (filter (covers uses s) rs))"
  using assms(2,3)
proof (induction rs arbitrary: delta)
  case (Cons r rs)
  have "sum_list (take (Suc s) (mark_pair uses delta r)) = sum_list (take (Suc s) delta) + (if covers uses s r then 1 else 0)"
    using Cons.prems assms(1) by (intro mark_pair_sum) auto
  then show ?case using Cons by simp
qed simp

lemma foldl_mark_length: "length (foldl (mark_pair uses) delta rs) = length delta"
  by (induction rs arbitrary: delta) simp_all

lemma open_after_nth: "s < length d \<Longrightarrow> open_after d k ! s = (k + sum_list (take (Suc s) d) > 0)"
proof (induction d arbitrary: k s)
  case (Cons x d)
  then show ?case by (cases s) (simp_all add: add.assoc)
qed simp

lemma crossed_splits_iff:
  assumes "s \<le> length ms"
  shows "crossed_splits ms ! s \<longleftrightarrow> (\<exists>r \<in> set (results_at ms). covers (uses_at ms) s r)"
proof -
  let ?d = "foldl (mark_pair (uses_at ms)) (replicate (length ms + 2) 0) (results_at ms)"
  have len: "length ?d = length ms + 2" by (simp add: foldl_mark_length)
  have zero: "sum_list (take (Suc s) (replicate (length ms + 2) 0)) = (0::int)"
    by (simp only: take_replicate sum_list_replicate)
  have "sum_list (take (Suc s) ?d) =
      sum_list (take (Suc s) (replicate (length ms + 2) 0)) + int (length (filter (covers (uses_at ms) s) (results_at ms)))"
    using uses_at_bound results_at_bound by (intro marked_sum [where n = "length ms + 2"]) fastforce+
  then have "crossed_splits ms ! s \<longleftrightarrow> 0 < length (filter (covers (uses_at ms) s) (results_at ms))"
    unfolding crossed_splits_def using assms len zero by (simp add: open_after_nth min_def del: replicate.simps replicate_Suc take_replicate)
  then show ?thesis by (auto simp: filter_empty_conv)
qed

text \<open>No call and its result on opposite sides of \<open>s\<close>.\<close>

definition keeps_pairs :: "jmessage list \<Rightarrow> nat \<Rightarrow> bool" where
  "keeps_pairs ms s \<longleftrightarrow> (\<forall>i a b. map_of (uses_at ms) i = Some a \<longrightarrow> (i, b) \<in> set (results_at ms) \<longrightarrow> (a < s \<longleftrightarrow> b < s))"

lemma crossed_iff_keeps_pairs: "s \<le> length ms \<Longrightarrow> crossed_splits ms ! s \<longleftrightarrow> \<not> keeps_pairs ms s"
  unfolding crossed_splits_iff keeps_pairs_def covers_def by (force simp: min_def max_def)

definition admissible :: "jmessage list \<Rightarrow> nat \<Rightarrow> bool" where
  "admissible ms s \<longleftrightarrow> MIN_SUMMARIZED \<le> s \<and> s < length ms \<and> is_split_point (ms ! s) \<and> keeps_pairs ms s"

lemma find_sorted:
  assumes "sorted_wrt (>) xs" and "find P xs = Some s"
  shows "s \<in> set xs \<and> P s \<and> (\<forall>t \<in> set xs. P t \<longrightarrow> t \<le> (s::nat))"
  using assms by (induction xs) (auto split: if_splits)

lemma plan_summary_splits:
  "filter (\<lambda>s. \<not> crossed_splits ms ! s \<and> is_split_point (ms ! s)) (rev [MIN_SUMMARIZED..<length ms]) =
   filter (admissible ms) (rev [MIN_SUMMARIZED..<length ms])"
  by (rule filter_cong) (auto simp: admissible_def crossed_iff_keeps_pairs)

lemma plan_summary_spec:
  shows "plan_summary ms k = None \<longleftrightarrow> (\<forall>s. \<not> admissible ms s)"
    and "plan_summary ms k = Some s \<Longrightarrow> admissible ms s \<and>
      (\<forall>t. admissible ms t \<longrightarrow> length ms - s < k \<or> k \<le> length ms - t \<longrightarrow> t \<le> s) \<and>
      (length ms - s < k \<longrightarrow> (\<forall>t. admissible ms t \<longrightarrow> length ms - t < k))"
proof -
  let ?xs = "filter (admissible ms) (rev [MIN_SUMMARIZED..<length ms])"
  have set: "set ?xs = {s. admissible ms s}" by (auto simp: admissible_def)
  have sorted: "sorted_wrt (>) ?xs"
    by (rule sorted_wrt_filter) (simp add: sorted_wrt_rev del: upt_Suc)
  have plan: "plan_summary ms k = (case ?xs of [] \<Rightarrow> None
       | latest # _ \<Rightarrow> Some (case find (\<lambda>s. k \<le> length ms - s) ?xs of Some s \<Rightarrow> s | None \<Rightarrow> latest))"
    unfolding plan_summary_def Let_def plan_summary_splits by simp
  show "plan_summary ms k = None \<longleftrightarrow> (\<forall>s. \<not> admissible ms s)"
    using set unfolding plan by (cases ?xs) auto
  show "admissible ms s \<and> (\<forall>t. admissible ms t \<longrightarrow> length ms - s < k \<or> k \<le> length ms - t \<longrightarrow> t \<le> s) \<and>
      (length ms - s < k \<longrightarrow> (\<forall>t. admissible ms t \<longrightarrow> length ms - t < k))" if p: "plan_summary ms k = Some s"
  proof (cases "find (\<lambda>s. k \<le> length ms - s) ?xs")
    case None
    then have none: "\<forall>t. admissible ms t \<longrightarrow> length ms - t < k" using None unfolding find_None_iff set by auto
    obtain ys where xs: "?xs = s # ys" using p None unfolding plan by (cases ?xs) auto
    have "\<forall>t \<in> set ?xs. t \<le> s" using sorted unfolding xs by auto
    moreover have "s \<in> set ?xs" unfolding xs by simp
    ultimately show ?thesis using none unfolding set by blast
  next
    case (Some u)
    then have "u = s" using p unfolding plan by (cases ?xs) auto
    then show ?thesis using find_sorted [OF sorted Some] set by auto
  qed
qed

section \<open>Lemmas on cleared results\<close>

text \<open>A history seen through the places of its blocks.\<close>

definition block_at :: "jmessage list \<Rightarrow> nat \<times> nat \<Rightarrow> json content_block option" where
  "block_at ms p = (if fst p < length ms \<and> snd p < length (msg_content (ms ! fst p))
     then Some (msg_content (ms ! fst p) ! snd p) else None)"

definition places :: "jmessage list \<Rightarrow> (nat \<times> nat) list" where
  "places ms = concat (map (\<lambda>i. map (Pair i) [0..<length (msg_content (ms ! i))]) [0..<length ms])"

definition frame_of :: "jmessage list \<Rightarrow> (string \<times> role \<times> u64 \<times> nat) list" where
  "frame_of ms = map (\<lambda>m. (msg_id m, msg_role m, msg_created_at m, length (msg_content m))) ms"

definition target_place :: "clear_target \<Rightarrow> nat \<times> nat" where
  "target_place t = (ct_message t, ct_block t)"

definition result_at :: "jmessage list \<Rightarrow> nat \<times> nat \<Rightarrow> (nat \<times> nat \<times> string \<times> tool_result_part list) option" where
  "result_at ms p = (case block_at ms p of Some (ToolResult call parts _) \<Rightarrow> Some (fst p, snd p, call, parts) | _ \<Rightarrow> None)"

lemma enumerate_nth: "List.enumerate 0 xs = map (\<lambda>i. (i, xs ! i)) [0..<length xs]"
  by (rule nth_equalityI) (simp_all add: nth_enumerate_eq)

lemma map_filter_concat: "List.map_filter f (concat xss) = concat (map (List.map_filter f) xss)"
  by (induction xss) (simp_all add: List.map_filter_def)

lemma map_filter_map: "List.map_filter f (map g xs) = List.map_filter (\<lambda>x. f (g x)) xs"
  by (induction xs) (simp_all add: List.map_filter_def)

lemma map_filter_cong: "(\<And>x. x \<in> set xs \<Longrightarrow> f x = g x) \<Longrightarrow> List.map_filter f xs = List.map_filter g xs"
  by (induction xs) (auto simp: List.map_filter_def)

lemma map_map_filter_inverse:
  "(\<And>x y. f x = Some y \<Longrightarrow> g y = x) \<Longrightarrow> map g (List.map_filter f xs) = filter (\<lambda>x. f x \<noteq> None) xs"
  by (induction xs) (auto simp: List.map_filter_def)

lemma result_blocks_places: "result_blocks ms = List.map_filter (result_at ms) (places ms)"
  unfolding result_blocks_def places_def enumerate_nth map_filter_concat map_map comp_def map_filter_map prod.case
  by (rule arg_cong [where f = concat], rule map_cong [OF refl], rule map_filter_cong)
     (auto simp: result_at_def block_at_def split: content_block.splits)

lemma distinct_pairs: "distinct xs \<Longrightarrow> distinct (concat (map (\<lambda>i. map (Pair i) [0..<f i]) xs))"
  by (induction xs) (auto simp: distinct_map inj_on_def)

lemma distinct_places: "distinct (places ms)"
  unfolding places_def by (rule distinct_pairs) simp

lemma places_frame: "frame_of ms' = frame_of ms \<Longrightarrow> places ms' = places ms"
proof -
  assume f: "frame_of ms' = frame_of ms"
  have l: "length ms' = length ms" using arg_cong [OF f, of length] by (simp add: frame_of_def)
  have "length (msg_content (ms' ! i)) = length (msg_content (ms ! i))" if "i < length ms" for i
    using arg_cong [OF f, of "\<lambda>xs. snd (snd (snd (xs ! i)))"] that l by (simp add: frame_of_def)
  then show ?thesis unfolding places_def l by (intro arg_cong [where f = concat] map_cong) auto
qed

definition cleared :: "(clear_target \<Rightarrow> string \<Rightarrow> string) \<Rightarrow> clear_target \<Rightarrow> json content_block \<Rightarrow> json content_block" where
  "cleared replacement t b =
     (case b of
        ToolResult call parts is_error \<Rightarrow>
          if call \<noteq> ct_call_id t then b
          else ToolResult call (PartText (replacement t (parts_text parts)) # filter is_image parts) is_error
      | _ \<Rightarrow> b)"

lemma frame_update:
  "i < length ms \<Longrightarrow> frame_of (ms[i := (ms ! i)\<lparr>msg_content := (msg_content (ms ! i))[j := b]\<rparr>]) = frame_of ms"
  by (simp add: frame_of_def map_update list_update_same_conv)

lemma block_at_update:
  assumes "i < length ms" "j < length (msg_content (ms ! i))"
  shows "block_at (ms[i := (ms ! i)\<lparr>msg_content := (msg_content (ms ! i))[j := b]\<rparr>]) p =
         (if p = (i, j) then Some b else block_at ms p)"
  using assms by (cases p; cases "fst p = i") (auto simp: block_at_def)

lemma clear_one_effect:
  assumes "clear_one r (ms, n) t = (ms', n')"
  shows "frame_of ms' = frame_of ms"
    and "block_at ms' p = (if p = target_place t then map_option (cleared r t) (block_at ms p) else block_at ms p)"
    and "n' = (case block_at ms (target_place t) of
                 Some (ToolResult call _ _) \<Rightarrow> if call = ct_call_id t then Suc n else n | _ \<Rightarrow> n)"
proof -
  let ?i = "ct_message t" and ?j = "ct_block t"
  have same: "frame_of ms' = frame_of ms \<and>
      block_at ms' p = (if p = target_place t then map_option (cleared r t) (block_at ms p) else block_at ms p) \<and>
      n' = (case block_at ms (target_place t) of
                 Some (ToolResult call _ _) \<Rightarrow> if call = ct_call_id t then Suc n else n | _ \<Rightarrow> n)"
  proof (cases "block_at ms (target_place t)")
    case None
    then show ?thesis using assms by (auto simp: clear_one_def block_at_def target_place_def Let_def split: if_splits)
  next
    case (Some b)
    then have b: "?i < length ms" "?j < length (msg_content (ms ! ?i))" "b = msg_content (ms ! ?i) ! ?j"
      by (auto simp: block_at_def target_place_def split: if_splits)
    have at: "block_at ms (?i, ?j) = Some b" using Some by (simp add: target_place_def)
    show ?thesis
    proof (cases "\<exists>parts e. b = ToolResult (ct_call_id t) parts e")
      case True
      then obtain parts e where tr: "b = ToolResult (ct_call_id t) parts e" by blast
      have tr': "msg_content (ms ! ?i) ! ?j = ToolResult (ct_call_id t) parts e" using tr b(3) by simp
      have "(ms', n') = (ms[?i := (ms ! ?i)\<lparr>msg_content := (msg_content (ms ! ?i))[?j := cleared r t b]\<rparr>], Suc n)"
        using assms b(1,2) tr' by (simp add: clear_one_def cleared_def tr Let_def)
      then show ?thesis
        using frame_update [OF b(1)] block_at_update [OF b(1,2)] at tr by (auto simp: target_place_def)
    next
      case False
      then have "cleared r t b = b" by (auto simp: cleared_def split: content_block.splits)
      moreover have "(ms', n') = (ms, n)" using assms False b(1,2)
      by (simp add: clear_one_def Let_def flip: b(3)) (cases b; auto split: if_splits)
      ultimately show ?thesis using at False by (auto simp: target_place_def split: content_block.splits)
    qed
  qed
  then show "frame_of ms' = frame_of ms"
    and "block_at ms' p = (if p = target_place t then map_option (cleared r t) (block_at ms p) else block_at ms p)"
    and "n' = (case block_at ms (target_place t) of
                 Some (ToolResult call _ _) \<Rightarrow> if call = ct_call_id t then Suc n else n | _ \<Rightarrow> n)"
    by auto
qed

text \<open>A target that names a result of the history.\<close>

definition aims_at :: "jmessage list \<Rightarrow> clear_target \<Rightarrow> bool" where
  "aims_at ms t \<longleftrightarrow> (\<exists>parts e. block_at ms (target_place t) = Some (ToolResult (ct_call_id t) parts e))"

lemma clear_all_effect:
  assumes "distinct (map target_place ts)" and "\<forall>t \<in> set ts. aims_at ms t"
    and "foldl (clear_one r) (ms, n) ts = (ms', n')"
  shows "frame_of ms' = frame_of ms \<and> n' = n + length ts \<and>
    (\<forall>p. block_at ms' p = (case find (\<lambda>t. target_place t = p) ts of
        Some t \<Rightarrow> map_option (cleared r t) (block_at ms p) | None \<Rightarrow> block_at ms p))"
  using assms
proof (induction ts arbitrary: ms n)
  case (Cons t ts)
  obtain ms1 n1 where one: "clear_one r (ms, n) t = (ms1, n1)" by fastforce
  note eff = clear_one_effect [OF one]
  have other: "target_place u \<noteq> target_place t" if "u \<in> set ts" for u using Cons.prems(1) that by (metis distinct.simps(2) image_eqI list.set_map list.simps(9))
  have "\<forall>u \<in> set ts. aims_at ms1 u" using Cons.prems(2) other by (auto simp: aims_at_def eff(2))
  then have ih: "frame_of ms' = frame_of ms1 \<and> n' = n1 + length ts \<and>
    (\<forall>p. block_at ms' p = (case find (\<lambda>t. target_place t = p) ts of
        Some t \<Rightarrow> map_option (cleared r t) (block_at ms1 p) | None \<Rightarrow> block_at ms1 p))"
    using Cons.IH [of ms1 n1] Cons.prems one by simp
  have "find (\<lambda>u. target_place u = target_place t) ts = None" using other by (auto simp: find_None_iff)
  moreover have "n1 = Suc n" using Cons.prems(2) eff(3) by (auto simp: aims_at_def)
  ultimately show ?case using ih eff(1) by (auto simp: eff(2) split: option.splits)
qed simp

text \<open>The targets of a plan.\<close>

definition target_of :: "nat \<times> nat \<times> string \<times> tool_result_part list \<Rightarrow> clear_target option" where
  "target_of x = (case x of (i, j, call, parts) \<Rightarrow>
     if \<not> starts_with CLEARED_PREFIX (trim_start (parts_text parts))
     then Some \<lparr>ct_message = i, ct_block = j, ct_call_id = call, ct_chars = char_count (parts_text parts)\<rparr> else None)"

definition place_of :: "nat \<times> nat \<times> string \<times> tool_result_part list \<Rightarrow> nat \<times> nat" where
  "place_of x = (fst x, fst (snd x))"

lemma older_results_alt:
  "older_results ms k = List.map_filter target_of (take (length (result_blocks ms) - k) (result_blocks ms))"
  unfolding older_results_def Let_def
  by (rule map_filter_cong) (auto simp: target_of_def split: prod.splits)

lemma result_at_place: "result_at ms p = Some x \<Longrightarrow> place_of x = p"
  by (auto simp: result_at_def place_of_def split: option.splits content_block.splits)

lemma result_at_Some_iff:
  "result_at ms p = Some (i, j, call, parts) \<longleftrightarrow> p = (i, j) \<and> (\<exists>e. block_at ms p = Some (ToolResult call parts e))"
  by (cases p) (auto simp: result_at_def split: option.splits content_block.splits)

lemma distinct_result_places: "distinct (map place_of (result_blocks ms))"
  unfolding result_blocks_places
  by (subst map_map_filter_inverse) (auto simp: result_at_place distinct_places)

lemma result_block_at: "x \<in> set (result_blocks ms) \<Longrightarrow> result_at ms (place_of x) = Some x"
proof -
  assume "x \<in> set (result_blocks ms)"
  then obtain p where p: "result_at ms p = Some x" unfolding result_blocks_places map_filter_set by blast
  then show ?thesis using result_at_place [OF p] by simp
qed

lemma target_of_place: "target_of x = Some t \<Longrightarrow> target_place t = place_of x"
  by (auto simp: target_of_def target_place_def place_of_def split: prod.splits if_splits)

lemma older_aims: "t \<in> set (older_results ms k) \<Longrightarrow> aims_at ms t"
proof -
  assume "t \<in> set (older_results ms k)"
  then obtain x where x: "x \<in> set (result_blocks ms)" "target_of x = Some t"
    unfolding older_results_alt map_filter_set by (auto dest: in_set_takeD)
  obtain i j call parts where xs: "x = (i, j, call, parts)" by (cases x)
  have "\<exists>e. block_at ms (i, j) = Some (ToolResult call parts e)"
    using result_block_at [OF x(1)] unfolding xs by (simp add: result_at_Some_iff place_of_def)
  then show ?thesis using x(2) xs by (auto simp: aims_at_def target_of_def target_place_def split: if_splits)
qed

lemma older_distinct: "distinct (map target_place (older_results ms k))"
proof -
  have "map target_place (List.map_filter target_of xs) = map place_of (filter (\<lambda>x. target_of x \<noteq> None) xs)" for xs
    by (induction xs) (auto simp: List.map_filter_def target_of_place)
  moreover have "distinct (map place_of (filter P (take n (result_blocks ms))))" for P n
    by (rule distinct_map_filter [OF distinct_take [OF distinct_result_places, unfolded take_map]])
  ultimately show ?thesis by (simp add: older_results_alt)
qed

lemma older_not_recent:
  assumes "t \<in> set (older_results ms k)"
  shows "target_place t \<notin> set (map place_of (drop (length (result_blocks ms) - k) (result_blocks ms)))"
proof -
  let ?n = "length (result_blocks ms) - k"
  obtain x where x: "x \<in> set (take ?n (result_blocks ms))" "target_of x = Some t"
    using assms unfolding older_results_alt map_filter_set by auto
  have "distinct (map place_of (take ?n (result_blocks ms)) @ map place_of (drop ?n (result_blocks ms)))"
    unfolding map_append [symmetric] append_take_drop_id by (rule distinct_result_places)
  then show ?thesis unfolding target_of_place [OF x(2)] using x(1) by auto
qed

abbreviation ranked :: "jmessage list \<Rightarrow> nat \<Rightarrow> nat \<Rightarrow> (string \<Rightarrow> bool option) \<Rightarrow> (string \<Rightarrow> bool) \<Rightarrow> clear_target list" where
  "ranked \<equiv> plan_microcompact_ranked"

lemma ranked_subset: "set (ranked ms k n rel prot) \<subseteq> set (older_results ms k)"
  by (auto simp: plan_microcompact_ranked_def Let_def)

lemma ranked_distinct: "distinct (map target_place (ranked ms k n rel prot))"
  unfolding plan_microcompact_ranked_def Let_def by (intro distinct_map_filter older_distinct)

lemma ranked_unprotected: "t \<in> set (ranked ms k n rel prot) \<Longrightarrow> \<not> prot (ct_call_id t)"
  by (auto simp: plan_microcompact_ranked_def Let_def)

lemma ranked_without_verdicts: "ranked ms k n (\<lambda>_. None) (\<lambda>_. False) = plan_microcompact ms k n"
  by (simp add: plan_microcompact_ranked_def plan_microcompact_def Let_def)

lemma find_by_key: "distinct (map f xs) \<Longrightarrow> x \<in> set xs \<Longrightarrow> find (\<lambda>y. f y = f x) xs = Some x"
  by (induction xs) (auto simp: image_iff)

lemma apply_ranked:
  assumes "apply_microcompact ms (ranked ms k n rel prot) r = (ms', m)"
  shows "frame_of ms' = frame_of ms \<and> m = length (ranked ms k n rel prot) \<and>
    (\<forall>p. block_at ms' p = (case find (\<lambda>t. target_place t = p) (ranked ms k n rel prot) of
        Some t \<Rightarrow> map_option (cleared r t) (block_at ms p) | None \<Rightarrow> block_at ms p))"
proof -
  have "\<forall>t \<in> set (ranked ms k n rel prot). aims_at ms t" using older_aims ranked_subset by blast
  from clear_all_effect [OF ranked_distinct this assms [unfolded apply_microcompact_def]] show ?thesis by simp
qed

text \<open>What the results become.\<close>

definition result_after ::
  "(clear_target \<Rightarrow> string \<Rightarrow> string) \<Rightarrow> clear_target list \<Rightarrow> nat \<times> nat \<times> string \<times> tool_result_part list \<Rightarrow>
   nat \<times> nat \<times> string \<times> tool_result_part list" where
  "result_after r ts x = (case find (\<lambda>t. target_place t = place_of x) ts of
     Some t \<Rightarrow> (case x of (i, j, call, parts) \<Rightarrow> (i, j, call, PartText (r t (parts_text parts)) # filter is_image parts))
   | None \<Rightarrow> x)"

lemma result_blocks_after:
  assumes "apply_microcompact ms (ranked ms k n rel prot) r = (ms', m)"
  shows "result_blocks ms' = map (result_after r (ranked ms k n rel prot)) (result_blocks ms)"
proof -
  let ?ts = "ranked ms k n rel prot"
  note eff = apply_ranked [OF assms]
  have "result_at ms' p = map_option (result_after r ?ts) (result_at ms p)" for p
  proof (cases "find (\<lambda>t. target_place t = p) ?ts")
    case None
    then have "block_at ms' p = block_at ms p" using eff by (cases p) simp
    moreover have "result_after r ?ts x = x" if "result_at ms p = Some x" for x
      using result_at_place [OF that] None by (simp add: result_after_def)
    ultimately show ?thesis by (cases "result_at ms p") (simp_all add: result_at_def)
  next
    case (Some t)
    then have t: "t \<in> set ?ts" "target_place t = p" by (auto simp: find_Some_iff)
    then obtain parts e where b: "block_at ms p = Some (ToolResult (ct_call_id t) parts e)"
      using older_aims ranked_subset unfolding aims_at_def by blast
    then have "block_at ms' p = Some (ToolResult (ct_call_id t) (PartText (r t (parts_text parts)) # filter is_image parts) e)"
      using eff Some by (cases p) (simp add: cleared_def)
    then show ?thesis using b Some by (simp add: result_at_def result_after_def place_of_def)
  qed
  then have "List.map_filter (result_at ms') ps = map (result_after r ?ts) (List.map_filter (result_at ms) ps)" for ps
    by (induction ps) (auto simp: List.map_filter_def split: option.splits)
  then show ?thesis unfolding result_blocks_places places_frame [OF conjunct1 [OF eff]] .
qed

lemma parts_text_cleared: "parts_text (PartText s # filter is_image parts) = s"
proof -
  have "List.map_filter (\<lambda>p. case p of PartText t \<Rightarrow> Some t | PartImage _ \<Rightarrow> None) (filter is_image parts) = []"
    by (induction parts) (auto simp: List.map_filter_def split: tool_result_part.splits)
  then show ?thesis by (simp add: parts_text_def List.map_filter_def)
qed

lemma marked_trim_start: "starts_with CLEARED_PREFIX s \<Longrightarrow> starts_with CLEARED_PREFIX (trim_start s)"
proof -
  assume a: "starts_with CLEARED_PREFIX s"
  then obtain c where c: "s = CHR ''['' # CHR ''c'' # c"
    by (cases s; cases "tl s") (auto simp: CLEARED_PREFIX_def)
  have "\<not> is_whitespace [CHR ''['']" "\<not> is_continuation (CHR ''c'')" by (simp_all add: is_whitespace_def is_continuation_def)
  then have "trim_start s = s" using concat_uchars [of s] unfolding c by (simp add: trim_start_def)
  then show ?thesis using a by simp
qed

section \<open>Lemmas on summary messages\<close>

lemma summary_words:
  "NL \<notin> set SUMMARY_OPENING" "CHR ''{'' \<notin> set SUMMARY_OPENING" "NL \<notin> set SUMMARY_ADVICE" "CHR ''{'' \<notin> set SUMMARY_ADVICE"
  "SUMMARY_OPENING = CHR ''T'' # CHR ''h'' # drop 2 SUMMARY_OPENING"
  by (simp_all add: SUMMARY_OPENING_def SUMMARY_ADVICE_def)

lemma summary_placeholder: "is_placeholder ''summary''"
  by (simp add: is_placeholder_def Let_def strip_suffix_def ends_with_def ascii_simps)

lemma no_brace: "CHR ''{'' \<notin> set l \<Longrightarrow> split_once LBRACES l = None"
  by (induction l) (auto simp: split_once.simps)

lemma first_braces: "CHR ''{'' \<notin> set a \<Longrightarrow> split_once LBRACES (a @ LBRACES @ b) = Some (a, b)"
  by (induction a) (auto simp: split_once.simps)

text \<open>The words before the placeholder, without the line breaks around them.\<close>

lemma NL_white: "is_whitespace [NL]"
  by (simp add: is_whitespace_def)

lemma trim_end_breaks:
  assumes "code d < 128" "\<not> is_whitespace [d]"
  shows "trim_end (a @ d # replicate n NL) = a @ [d]"
proof -
  have w: "uchars (replicate n NL) = replicate n [NL]"
    by (induction n) (auto simp: is_continuation_def takeWhile_replicate dropWhile_replicate)
  have "uchars (a @ d # replicate n NL) = uchars a @ [d] # replicate n [NL]"
    using uchars_append_ascii [OF assms(1), of a] w by (cases n) (simp_all add: is_continuation_def takeWhile_replicate dropWhile_replicate)
  moreover have "dropWhile is_whitespace (replicate n [NL] @ us) = dropWhile is_whitespace us" for us
    by (induction n) (simp_all add: NL_white)
  ultimately show ?thesis using assms(2) by (simp add: trim_end_def replicate_append_same)
qed

lemma trim_start_ascii:
  "code c < 128 \<Longrightarrow> \<not> is_whitespace [c] \<Longrightarrow> s = [] \<or> code (hd s) < 128 \<Longrightarrow> trim_start (c # s) = c # s"
  using concat_uchars [of "c # s"] by (cases s) (auto simp: trim_start_def is_continuation_def)

lemma template_head_words:
  assumes "T = (c # a @ [d]) @ replicate n NL @ LBRACES @ b" and "CHR ''{'' \<notin> set (c # a @ [d])"
    and "code c < 128" "\<not> is_whitespace [c]" "code d < 128" "\<not> is_whitespace [d]" "code (hd (a @ [d])) < 128"
  shows "template_head T = c # a @ [d]"
proof -
  have "split_once LBRACES T = Some (c # a @ d # replicate n NL, b)"
    using first_braces [of "c # a @ d # replicate n NL" b] assms(1,2) by simp
  moreover have "trim_start (c # a @ d # replicate n NL) = c # a @ d # replicate n NL"
    using assms(3,4,7) by (intro trim_start_ascii) (cases a; simp)+
  moreover have "trim_end (c # a @ d # replicate n NL) = c # a @ [d]"
    using trim_end_breaks [OF assms(5,6), of "c # a" n] by simp
  ultimately show ?thesis by (simp add: template_head_def trim_def)
qed

lemma message_text_user [simp]: "message_text (user_text f t) = t"
  by (simp add: message_text_def user_text_def)

lemma rendered_head:
  assumes "code d < 128" "\<not> is_whitespace [d]" "b = [] \<or> \<not> is_continuation (hd b)"
  shows "starts_with (a @ [d]) (trim_end (a @ d # b))"
  using trim_end_keeps [OF assms, of a] by (auto simp: starts_with_prefix prefix_def)


section \<open>Properties\<close>

text \<open>
  C37. The history is cut at the best place there is. A split is admissible when it summarizes at least two messages,
  lands on the start of a turn or on an assistant message, and leaves no call and its result on opposite sides.
  \<open>plan_summary\<close> gives none only when none is admissible; otherwise it gives the latest admissible split that keeps the
  wanted number of messages, and the latest of all when none keeps that many.
\<close>

theorem plan_summary_best:
  "(plan_summary ms k = None \<longleftrightarrow> (\<forall>s. \<not> admissible ms s)) \<and>
   (plan_summary ms k = Some s \<longrightarrow> admissible ms s \<and>
      (\<forall>t. admissible ms t \<longrightarrow> length ms - s < k \<or> k \<le> length ms - t \<longrightarrow> t \<le> s) \<and>
      (length ms - s < k \<longrightarrow> (\<forall>t. admissible ms t \<longrightarrow> length ms - t < k)))"
  using plan_summary_spec by blast

text \<open>
  C25. Clearing old results does what was planned and changes nothing else. The messages keep their order, roles and numbers of
  blocks; every planned result has its text replaced and keeps its call, its error flag and its images; none of them is
  protected, and none is among the newest results that are to be kept; every other block is as it was.
\<close>

theorem microcompact_clears_only_planned:
  assumes "apply_microcompact ms (ranked ms k n rel prot) r = (ms', m)"
  shows "frame_of ms' = frame_of ms \<and> m = length (ranked ms k n rel prot) \<and>
    (\<forall>t \<in> set (ranked ms k n rel prot). \<not> prot (ct_call_id t) \<and>
       target_place t \<notin> set (map place_of (drop (length (result_blocks ms) - k) (result_blocks ms))) \<and>
       (\<exists>parts e. block_at ms (target_place t) = Some (ToolResult (ct_call_id t) parts e) \<and>
          block_at ms' (target_place t) =
            Some (ToolResult (ct_call_id t) (PartText (r t (parts_text parts)) # filter is_image parts) e))) \<and>
    (\<forall>p. p \<notin> set (map target_place (ranked ms k n rel prot)) \<longrightarrow> block_at ms' p = block_at ms p)"
proof (intro conjI ballI allI impI)
  note eff = apply_ranked [OF assms]
  show "frame_of ms' = frame_of ms" "m = length (ranked ms k n rel prot)" using eff by blast+
  show "block_at ms' p = block_at ms p" if "p \<notin> set (map target_place (ranked ms k n rel prot))" for p
  proof -
    have "find (\<lambda>t. target_place t = p) (ranked ms k n rel prot) = None" using that by (auto simp: find_None_iff)
    then show ?thesis using eff by (cases p) simp
  qed
  fix t assume t: "t \<in> set (ranked ms k n rel prot)"
  then have old: "t \<in> set (older_results ms k)" using ranked_subset by blast
  show "\<not> prot (ct_call_id t)" by (rule ranked_unprotected [OF t])
  show "target_place t \<notin> set (map place_of (drop (length (result_blocks ms) - k) (result_blocks ms)))"
    by (rule older_not_recent [OF old])
  obtain parts e where b: "block_at ms (target_place t) = Some (ToolResult (ct_call_id t) parts e)"
    using older_aims [OF old] unfolding aims_at_def by blast
  moreover have "block_at ms' (target_place t) = map_option (cleared r t) (block_at ms (target_place t))"
    using eff find_by_key [OF ranked_distinct t] by (cases "target_place t") simp
  ultimately show "\<exists>parts e. block_at ms (target_place t) = Some (ToolResult (ct_call_id t) parts e) \<and>
      block_at ms' (target_place t) = Some (ToolResult (ct_call_id t) (PartText (r t (parts_text parts)) # filter is_image parts) e)"
    by (simp add: cleared_def)
qed

text \<open>
  Clearing settles at once: when every replacement starts with the marker, planning again on the result finds nothing
  more to clear.
\<close>

theorem microcompact_settles:
  assumes "\<And>t x. starts_with CLEARED_PREFIX (r t x)"
    and "apply_microcompact ms (plan_microcompact_ranked ms k n rel prot) r = (ms', m)"
  shows "plan_microcompact_ranked ms' k n rel prot = []"
proof -
  let ?ts = "ranked ms k n rel prot"
  have after: "result_blocks ms' = map (result_after r ?ts) (result_blocks ms)" by (rule result_blocks_after [OF assms(2)])
  have "\<not> (\<exists>t. t \<in> set (older_results ms' k) \<and> t \<in> set (ranked ms' k n rel prot))"
  proof (intro notI, elim exE conjE)
    fix t assume t: "t \<in> set (older_results ms' k)" "t \<in> set (ranked ms' k n rel prot)"
    then obtain x where x: "x \<in> set (take (length (result_blocks ms) - k) (result_blocks ms))"
        "target_of (result_after r ?ts x) = Some t"
      unfolding older_results_alt map_filter_set after by (auto simp: take_map)
    show False
    proof (cases "find (\<lambda>t. target_place t = place_of x) ?ts")
      case None
      then have "target_of x = Some t" using x(2) by (simp add: result_after_def)
      then have "t \<in> set (older_results ms k)" using x(1) unfolding older_results_alt map_filter_set by blast
      then have "t \<in> set ?ts" using t(2) by (simp add: plan_microcompact_ranked_def Let_def)
      then show False using None target_of_place [OF \<open>target_of x = Some t\<close>] by (auto simp: find_None_iff)
    next
      case (Some u)
      then show False using x(2) marked_trim_start [OF assms(1)]
        by (auto simp: result_after_def target_of_def parts_text_cleared split: prod.splits)
    qed
  qed
  then show ?thesis using ranked_subset [of ms' k n rel prot] by (cases "ranked ms' k n rel prot") auto
qed

lemma summary_rendered:
  "render_template COMPACTION_SUMMARY [(''summary'', v)] =
   (SUMMARY_OPENING @ [NL, NL] @ ''<summary'') @ CHR ''>'' # (NL # v @ NL # ''</summary>'' @ NL # NL # SUMMARY_ADVICE @ [NL])"
proof -
  have split: "split_on NL COMPACTION_SUMMARY = SUMMARY_LINES"
    unfolding COMPACTION_SUMMARY_def by (rule split_on_join) (use summary_words in \<open>simp_all add: SUMMARY_LINES_def\<close>)
  have plain: "render_line l vs = Some l" if "CHR ''{'' \<notin> set l" for l vs
    by (rule render_line_plain) (rule no_brace [OF that])
  have filled: "render_line (LBRACES @ ''summary'' @ RBRACES) [(''summary'', v)] = Some v"
    by (rule render_line_value) (simp_all add: summary_placeholder)
  have "List.map_filter (\<lambda>l. render_line l [(''summary'', v)]) SUMMARY_LINES =
      [SUMMARY_OPENING, [], ''<summary>'', v, ''</summary>'', [], SUMMARY_ADVICE, []]"
    using filled plain [OF summary_words(2)] plain [OF summary_words(4)] plain [of "[]"] plain [of "''<summary>''"] plain [of "''</summary>''"]
    by (simp add: SUMMARY_LINES_def List.map_filter_def)
  then show ?thesis by (simp add: render_template_def split)
qed

lemma summary_head: "template_head COMPACTION_SUMMARY = SUMMARY_OPENING @ [NL, NL] @ ''<summary>''"
proof -
  let ?a = "CHR ''h'' # drop 2 SUMMARY_OPENING @ [NL, NL] @ ''<summary''"
  have eq: "CHR ''T'' # ?a @ ''>'' = SUMMARY_OPENING @ [NL, NL] @ ''<summary>''" using summary_words(5) by (metis append_Cons append_assoc append_Nil)
  have "COMPACTION_SUMMARY = (CHR ''T'' # ?a @ ''>'') @ replicate 1 NL @ LBRACES @
      (''summary'' @ RBRACES @ NL # ''</summary>'' @ NL # NL # SUMMARY_ADVICE @ [NL])"
    unfolding eq COMPACTION_SUMMARY_def SUMMARY_LINES_def by simp
  moreover have "CHR ''{'' \<notin> set (CHR ''T'' # ?a @ ''>'')" unfolding eq using summary_words(2) by simp
  ultimately have "template_head COMPACTION_SUMMARY = CHR ''T'' # ?a @ ''>''"
    by (rule template_head_words) (simp_all add: is_whitespace_def)
  then show ?thesis unfolding eq .
qed

text \<open>
  A message made from a summary, and only by its opening words, is recognized as a summary again, whatever the summary
  says: braces in it are not read as placeholders and white space is cut only behind the template's own text.
\<close>

theorem summaries_are_recognized: "is_summary (summary_message fresh summary)"
proof -
  have "starts_with (template_head COMPACTION_SUMMARY) (trim_end (render_template COMPACTION_SUMMARY [(''summary'', trim summary)]))"
    using rendered_head [of "CHR ''>''" "NL # trim summary @ NL # ''</summary>'' @ NL # NL # SUMMARY_ADVICE @ [NL]"
        "SUMMARY_OPENING @ [NL, NL] @ ''<summary''"]
    by (simp add: summary_head summary_rendered is_whitespace_def is_continuation_def)
  then show ?thesis by (simp add: is_summary_def summary_message_def summary_head) (simp add: user_text_def)
qed

section \<open>Witnesses\<close>

text \<open>A request, a call, its result and an answer.\<close>

definition demo_history :: "jmessage list" where
  "demo_history =
     [\<lparr>msg_id = ''a'', msg_role = User, msg_content = [TextBlock ''go''], msg_created_at = 0\<rparr>,
      \<lparr>msg_id = ''b'', msg_role = Assistant, msg_content = [ToolUse ''c1'' ''Read'' (JObject [])], msg_created_at = 1\<rparr>,
      \<lparr>msg_id = ''c'', msg_role = User, msg_content = [ToolResult ''c1'' [PartText ''long''] False], msg_created_at = 2\<rparr>,
      \<lparr>msg_id = ''d'', msg_role = Assistant, msg_content = [TextBlock ''done''], msg_created_at = 3\<rparr>]"

theorem plan_summary_best_witness: "plan_summary demo_history 1 = Some 3 \<and> admissible demo_history 3"
proof -
  have "plan_summary demo_history 1 = Some 3" by code_simp
  then show ?thesis using plan_summary_best [of demo_history 1 3] by blast
qed

definition demo_plan :: "clear_target list" where
  "demo_plan = ranked demo_history 0 2 (\<lambda>_. None) (\<lambda>_. False)"

definition demo_mark :: "clear_target \<Rightarrow> string \<Rightarrow> string" where "demo_mark t x = ''[cleared]''"

theorem microcompact_clears_only_planned_witness:
  "length demo_plan = 1 \<and> \<not> (\<exists>t \<in> set demo_plan. \<not> (\<exists>parts e.
     block_at demo_history (target_place t) = Some (ToolResult (ct_call_id t) parts e) \<and>
     block_at (fst (apply_microcompact demo_history demo_plan demo_mark)) (target_place t) =
       Some (ToolResult (ct_call_id t) (PartText (demo_mark t (parts_text parts)) # filter is_image parts) e)))"
proof
  show "length demo_plan = 1" by code_simp
  show "\<not> (\<exists>t \<in> set demo_plan. \<not> (\<exists>parts e.
     block_at demo_history (target_place t) = Some (ToolResult (ct_call_id t) parts e) \<and>
     block_at (fst (apply_microcompact demo_history demo_plan demo_mark)) (target_place t) =
       Some (ToolResult (ct_call_id t) (PartText (demo_mark t (parts_text parts)) # filter is_image parts) e)))"
    (is "\<not> (\<exists>t \<in> set demo_plan. \<not> ?done t)")
  proof
    assume "\<exists>t \<in> set demo_plan. \<not> ?done t"
    then obtain t where t: "t \<in> set demo_plan" "\<not> ?done t" ..
    from microcompact_clears_only_planned [OF surjective_pairing, THEN conjunct2, THEN conjunct2, THEN conjunct1, THEN bspec,
        OF t(1) [unfolded demo_plan_def]] t(2)
    show False unfolding demo_plan_def by blast
  qed
qed

theorem microcompact_settles_witness:
  "demo_plan \<noteq> [] \<and>
   plan_microcompact_ranked (fst (apply_microcompact demo_history demo_plan demo_mark)) 0 2 (\<lambda>_. None) (\<lambda>_. False) = []"
proof
  show "demo_plan \<noteq> []" by code_simp
  show "plan_microcompact_ranked (fst (apply_microcompact demo_history demo_plan demo_mark)) 0 2 (\<lambda>_. None) (\<lambda>_. False) = []"
    by (rule microcompact_settles [where r = demo_mark and m = "snd (apply_microcompact demo_history demo_plan demo_mark)"])
       (simp_all add: demo_mark_def demo_plan_def CLEARED_PREFIX_def)
qed

end
