(* ===== verification/Task_View.thy ===== *)
theory Task_View
  imports Compaction
begin

text \<open>
  \<open>crates/z-engine-context/src/compaction/exchanges.rs\<close> and \<open>task_view.rs\<close>: the exchanges of a history, what is read
  off each, which of them stay whatever the decision model says, and the view that leaves the others out.
\<close>

section \<open>Exchanges (exchanges.rs)\<close>

definition MAX_LIST :: nat where "MAX_LIST = 12"
definition MAX_COMMANDS :: nat where "MAX_COMMANDS = 6"
definition MAX_REQUEST_CHARS :: nat where "MAX_REQUEST_CHARS = 600"
definition MAX_REPLY_CHARS :: nat where "MAX_REPLY_CHARS = 300"
definition MAX_COMMAND_CHARS :: nat where "MAX_COMMAND_CHARS = 120"

record exchange =
  ex_start :: nat
  ex_end :: nat
  ex_lead :: bool
  ex_request :: string
  ex_files_edited :: "string list"
  ex_files_read :: "string list"
  ex_tools :: "(string \<times> nat) list"
  ex_commands :: "string list"
  ex_checks :: "(string \<times> bool) list"
  ex_reply :: string

definition INDEX_OPENING :: string where
  "INDEX_OPENING = ''Earlier exchanges of this chat were set aside because the current task does not need them. Each line names one exchange and the file that holds its full text; read that file if you need what happened there.''"

definition TASK_VIEW_INDEX :: string where
  "TASK_VIEW_INDEX = join_with [NL] [INDEX_OPENING, [], LBRACES @ ''exchanges'' @ RBRACES, []]"

definition task_view_index :: "string \<times> u64 \<Rightarrow> string list \<Rightarrow> jmessage" where
  "task_view_index fresh ls =
     user_text fresh (trim_end (render_template TASK_VIEW_INDEX [(''exchanges'', join_with [NL] ls)]))"

definition is_task_view_index :: "jmessage \<Rightarrow> bool" where
  "is_task_view_index m = (let head = template_head TASK_VIEW_INDEX in head \<noteq> [] \<and> starts_with head (message_text m))"

definition check_key :: "(json \<Rightarrow> string) \<Rightarrow> string \<Rightarrow> json \<Rightarrow> string" where
  "check_key json_text name input =
     (case call_command input of
        Some cmd \<Rightarrow> truncate_text (trim cmd) MAX_COMMAND_CHARS
      | None \<Rightarrow> name @ '' '' @ json_text input)"

definition last_sentence :: "string \<Rightarrow> string option" where
  "last_sentence t =
     (let t = trim t in
      if t = [] then None
      else let body = trim_end_matches (\<lambda>c. c \<in> set ''.!?'') t;
               start = length (dropWhile (\<lambda>c. c \<notin> set (NL # ''.!?'')) (rev body)) in
           Some (single_line (drop start t)))"

text \<open>\<open>Exchange::call\<close> and \<open>Exchange::check_result\<close>.\<close>

definition count_tool :: "string \<Rightarrow> (string \<times> nat) list \<Rightarrow> (string \<times> nat) list" where
  "count_tool name tools =
     (case position (\<lambda>(seen, _). seen = name) tools of
        Some i \<Rightarrow> tools[i := (name, Suc (snd (tools ! i)))]
      | None \<Rightarrow> tools @ [(name, 1)])"

definition push_paths :: "string list \<Rightarrow> string list \<Rightarrow> string list" where
  "push_paths fs paths = foldl (\<lambda>fs p. if p \<in> set fs then fs else fs @ [p]) fs paths"

definition exchange_call :: "string \<Rightarrow> json \<Rightarrow> exchange \<Rightarrow> exchange" where
  "exchange_call name input e =
     (let e = e\<lparr>ex_tools := count_tool name (ex_tools e)\<rparr>;
          e = (if is_edit name then e\<lparr>ex_files_edited := push_paths (ex_files_edited e) (call_paths input)\<rparr>
               else e\<lparr>ex_files_read := push_paths (ex_files_read e) (call_paths input)\<rparr>) in
      case call_command input of Some cmd \<Rightarrow> e\<lparr>ex_commands := ex_commands e @ [trim cmd]\<rparr> | None \<Rightarrow> e)"

definition check_result :: "(json \<Rightarrow> string) \<Rightarrow> string \<Rightarrow> json \<Rightarrow> bool \<Rightarrow> exchange \<Rightarrow> exchange" where
  "check_result json_text name input failed e =
     (if \<not> is_check name then e
      else let key = check_key json_text name input in
           e\<lparr>ex_checks := filter (\<lambda>(seen, _). seen \<noteq> key) (ex_checks e) @ [(key, failed)]\<rparr>)"

definition digest_block ::
  "(json \<Rightarrow> string) \<Rightarrow> (string \<rightharpoonup> string \<times> json) \<Rightarrow> role \<Rightarrow> exchange \<Rightarrow> json content_block \<Rightarrow> exchange" where
  "digest_block json_text names r e b =
     (case b of
        ToolUse _ name input \<Rightarrow> exchange_call name input e
      | ToolResult i _ is_error \<Rightarrow>
          (case names i of Some (name, input) \<Rightarrow> check_result json_text name input is_error e | None \<Rightarrow> e)
      | TextBlock t \<Rightarrow>
          if r = Assistant then (case last_sentence t of Some s \<Rightarrow> e\<lparr>ex_reply := s\<rparr> | None \<Rightarrow> e) else e
      | _ \<Rightarrow> e)"

definition digest_messages :: "(json \<Rightarrow> string) \<Rightarrow> jmessage list \<Rightarrow> (string \<rightharpoonup> string \<times> json) \<Rightarrow> exchange" where
  "digest_messages json_text ms names =
     foldl (\<lambda>e m. foldl (digest_block json_text names (msg_role m)) e (msg_content m))
       \<lparr>ex_start = 0, ex_end = 0, ex_lead = False,
        ex_request = (case ms of m # _ \<Rightarrow> request_text m | [] \<Rightarrow> []),
        ex_files_edited = [], ex_files_read = [], ex_tools = [], ex_commands = [], ex_checks = [], ex_reply = []\<rparr> ms"

text \<open>The messages that open an exchange: real user turns that are neither a summary nor an index.\<close>

definition turn_starts :: "jmessage list \<Rightarrow> nat list" where
  "turn_starts ms = filter (\<lambda>i. msg_role (ms ! i) = User \<and> is_split_point (ms ! i) \<and> \<not> crossed_splits ms ! i \<and>
     \<not> is_summary (ms ! i) \<and> \<not> is_task_view_index (ms ! i)) [0..<length ms]"

definition has_lead :: "jmessage list \<Rightarrow> bool" where
  "has_lead ms \<longleftrightarrow> (case turn_starts ms of i # _ \<Rightarrow> i \<noteq> 0 | [] \<Rightarrow> True) \<and> ms \<noteq> []"

definition exchange_starts :: "jmessage list \<Rightarrow> nat list" where
  "exchange_starts ms = (if has_lead ms then 0 # turn_starts ms else turn_starts ms)"

definition sub_list :: "nat \<Rightarrow> nat \<Rightarrow> 'a list \<Rightarrow> 'a list" where
  "sub_list a b xs = drop a (take b xs)"

definition exchanges :: "(json \<Rightarrow> string) \<Rightarrow> jmessage list \<Rightarrow> exchange list" where
  "exchanges json_text ms =
     (let starts = exchange_starts ms; names = map_of (rev (all_calls ms)) in
      map (\<lambda>(pos, start).
          let end_at = (if Suc pos < length starts then starts ! Suc pos else length ms) in
          (digest_messages json_text (sub_list start end_at ms) names)
            \<lparr>ex_start := start, ex_end := end_at, ex_lead := has_lead ms \<and> pos = 0\<rparr>)
        (List.enumerate 0 starts))"

definition files_of :: "exchange \<Rightarrow> string list" where
  "files_of e = ex_files_edited e @ ex_files_read e"

definition relative_path :: "string \<Rightarrow> string \<Rightarrow> string" where
  "relative_path path root =
     (let root = trim_end_matches (\<lambda>c. c = CHR ''/'') root in
      case strip_prefix root path of
        Some r \<Rightarrow> if root \<noteq> [] then (case strip_prefix ''/'' r of Some q \<Rightarrow> q | None \<Rightarrow> path) else path
      | None \<Rightarrow> path)"

definition exchange_digest :: "string \<Rightarrow> exchange \<Rightarrow> json" where
  "exchange_digest root e =
     (let paths = (\<lambda>ps. JArray (map (\<lambda>p. JString (relative_path p root)) (take MAX_LIST ps)));
          tools = map (\<lambda>(name, n). if n = 1 then name else name @ '' x'' @ nat_str n) (take MAX_LIST (ex_tools e));
          commands = map (\<lambda>c. truncate_text c MAX_COMMAND_CHARS) (take MAX_COMMANDS (ex_commands e));
          failed = take MAX_COMMANDS (map fst (filter snd (ex_checks e))) in
      JObject
        [(''request'', JString (truncate_text (ex_request e) MAX_REQUEST_CHARS)),
         (''files_edited'', paths (ex_files_edited e)), (''files_read'', paths (ex_files_read e)),
         (''tools'', JString (join_with '', '' tools)), (''commands'', JArray (map JString commands)),
         (''failed_checks'', JArray (map JString failed)),
         (''reply'', JString (truncate_text (ex_reply e) MAX_REPLY_CHARS))])"

section \<open>The view of a task (task_view.rs)\<close>

definition MIN_HISTORY_TOKENS :: u64 where "MIN_HISTORY_TOKENS = 30000"
definition MAX_VIEW_PERCENT :: u64 where "MAX_VIEW_PERCENT = 60"
definition INDEX_REQUEST_CHARS :: nat where "INDEX_REQUEST_CHARS = 80"
definition INDEX_FILES :: nat where "INDEX_FILES = 4"

datatype task_keep = KeepLead | KeepRecent | KeepNamedFile | KeepFailingCheck | KeepOpenTodos

fun task_keep_label :: "task_keep \<Rightarrow> string" where
  "task_keep_label KeepLead = ''latest summary''"
| "task_keep_label KeepRecent = ''recent exchange''"
| "task_keep_label KeepNamedFile = ''file named in the new request''"
| "task_keep_label KeepFailingCheck = ''check still failing''"
| "task_keep_label KeepOpenTodos = ''open todos''"

definition still_failing :: "exchange list \<Rightarrow> nat \<Rightarrow> bool" where
  "still_failing exs index \<longleftrightarrow> (\<exists>(key, failed) \<in> set (ex_checks (exs ! index)). failed \<and>
     \<not> (\<exists>later \<in> set (drop (index + 1) exs). \<exists>(seen, _) \<in> set (ex_checks later). seen = key))"

definition last_position :: "('a \<Rightarrow> bool) \<Rightarrow> 'a list \<Rightarrow> nat option" where
  "last_position P xs = map_option (\<lambda>i. length xs - 1 - i) (position P (rev xs))"

definition task_keeps :: "exchange list \<Rightarrow> nat \<Rightarrow> string list \<Rightarrow> bool \<Rightarrow> task_keep option list" where
  "task_keeps exs keep_recent named todos_open =
     (let recent_from = length exs - keep_recent;
          todo_writer = (if todos_open
            then last_position (\<lambda>e. \<exists>(name, _) \<in> set (ex_tools e). name = ''TodoWrite'') exs else None) in
      map (\<lambda>(index, e).
          if ex_lead e then Some KeepLead
          else if index \<ge> recent_from then Some KeepRecent
          else if \<exists>p \<in> set (files_of e). names_path named p then Some KeepNamedFile
          else if still_failing exs index then Some KeepFailingCheck
          else if todo_writer = Some index then Some KeepOpenTodos
          else None) (List.enumerate 0 exs))"

record task_view_plan =
  tv_set_aside :: "nat list"
  tv_pinned :: "nat list"

definition plan_task_view :: "task_keep option list \<Rightarrow> (nat \<Rightarrow> bool option) \<Rightarrow> (nat \<Rightarrow> bool) \<Rightarrow> task_view_plan" where
  "plan_task_view hard needed pinned =
     (let set_aside = filter (\<lambda>i. hard ! i = None \<and> needed i = Some False) [0..<length hard] in
      \<lparr>tv_set_aside = set_aside, tv_pinned = filter pinned set_aside\<rparr>)"

primrec view_loop ::
  "jmessage list \<Rightarrow> task_view_plan \<Rightarrow> nat \<Rightarrow> jmessage option \<Rightarrow> exchange list \<Rightarrow> jmessage list" where
  "view_loop ms plan pos index [] = (case index of Some m \<Rightarrow> [m] | None \<Rightarrow> [])"
| "view_loop ms plan pos index (e # es) =
     (let (before, index') = (if \<not> ex_lead e then ((case index of Some m \<Rightarrow> [m] | None \<Rightarrow> []), None) else ([], index));
          part = (if pos \<notin> set (tv_set_aside plan) then sub_list (ex_start e) (min (ex_end e) (length ms)) ms
                  else if pos \<in> set (tv_pinned plan) then (if ex_start e < length ms then [ms ! ex_start e] else [])
                  else []) in
      before @ part @ view_loop ms plan (Suc pos) index' es)"

definition apply_task_view :: "jmessage list \<Rightarrow> exchange list \<Rightarrow> task_view_plan \<Rightarrow> jmessage \<Rightarrow> jmessage list" where
  "apply_task_view ms exs plan index = view_loop ms plan 0 (Some index) exs"

definition clip_text :: "string \<Rightarrow> nat \<Rightarrow> string" where
  "clip_text t max_chars = (if max_chars < char_count t then take_chars max_chars t @ ''...'' else t)"

definition index_line :: "nat \<Rightarrow> exchange \<Rightarrow> string \<Rightarrow> string \<Rightarrow> string" where
  "index_line number e root artifact =
     ''Turn '' @ nat_str number @ '': '' @ [DQUOTE] @ clip_text (single_line (ex_request e)) INDEX_REQUEST_CHARS @ [DQUOTE] @
     (if ex_files_edited e \<noteq> []
      then ''; edited '' @ join_with '', '' (map (\<lambda>p. relative_path p root) (take INDEX_FILES (ex_files_edited e))) else []) @
     (case find snd (ex_checks e) of
        Some (key, _) \<Rightarrow> ''; check failed: '' @ clip_text key INDEX_REQUEST_CHARS | None \<Rightarrow> []) @
     '' - full text at '' @ artifact"

definition worth_rebuilding :: "u64 \<Rightarrow> u64 \<Rightarrow> bool \<Rightarrow> bool" where
  "worth_rebuilding history_tokens view_tokens cache_cold \<longleftrightarrow>
     view_tokens < history_tokens \<and>
     (cache_cold \<or> (history_tokens \<ge> MIN_HISTORY_TOKENS \<and> view_tokens * 100 \<le> history_tokens * MAX_VIEW_PERCENT))"

section \<open>Lemmas on the index\<close>

lemma index_words:
  "NL \<notin> set INDEX_OPENING" "CHR ''{'' \<notin> set INDEX_OPENING"
  "INDEX_OPENING = CHR ''E'' # CHR ''a'' # butlast (drop 2 INDEX_OPENING) @ ''.''"
  by (simp_all add: INDEX_OPENING_def)

lemma index_rendered:
  "render_template TASK_VIEW_INDEX [(''exchanges'', v)] = INDEX_OPENING @ NL # NL # v @ [NL]"
proof -
  have split: "split_on NL TASK_VIEW_INDEX = [INDEX_OPENING, [], LBRACES @ ''exchanges'' @ RBRACES, []]"
    unfolding TASK_VIEW_INDEX_def by (rule split_on_join) (use index_words in simp_all)
  have plain: "render_line l vs = Some l" if "CHR ''{'' \<notin> set l" for l vs
    by (rule render_line_plain) (rule no_brace [OF that])
  have "is_placeholder ''exchanges''"
    by (simp add: is_placeholder_def Let_def strip_suffix_def ends_with_def ascii_simps)
  then have "render_line (LBRACES @ ''exchanges'' @ RBRACES) [(''exchanges'', v)] = Some v"
    by (rule render_line_value) simp_all
  then show ?thesis
    using plain [OF index_words(2)] plain [of "[]"] by (simp add: render_template_def split List.map_filter_def)
qed

lemma index_head: "template_head TASK_VIEW_INDEX = INDEX_OPENING"
proof -
  let ?a = "CHR ''a'' # butlast (drop 2 INDEX_OPENING)"
  have eq: "CHR ''E'' # ?a @ ''.'' = INDEX_OPENING" using index_words(3) by (metis append_Cons)
  have "TASK_VIEW_INDEX = (CHR ''E'' # ?a @ ''.'') @ replicate 2 NL @ LBRACES @ (''exchanges'' @ RBRACES @ [NL])"
    unfolding eq TASK_VIEW_INDEX_def by (simp add: numeral_2_eq_2)
  moreover have "CHR ''{'' \<notin> set (CHR ''E'' # ?a @ ''.'')" unfolding eq using index_words(2) .
  ultimately have "template_head TASK_VIEW_INDEX = CHR ''E'' # ?a @ ''.''"
    by (rule template_head_words) (simp_all add: is_whitespace_def)
  then show ?thesis unfolding eq .
qed

lemma index_recognized: "is_task_view_index (task_view_index fresh ls)"
proof -
  have "starts_with INDEX_OPENING (trim_end (INDEX_OPENING @ NL # NL # join_with [NL] ls @ [NL]))"
    using rendered_head [of "CHR ''.''" "NL # NL # join_with [NL] ls @ [NL]" "butlast INDEX_OPENING"] index_words(3)
    by (simp add: is_whitespace_def is_continuation_def) (metis append_Cons append_Nil append_assoc butlast_snoc)
  then show ?thesis
    using index_words(3) by (simp add: is_task_view_index_def task_view_index_def index_head index_rendered) (metis list.distinct(1))
qed

section \<open>Lemmas on exchanges\<close>

fun spans :: "nat \<Rightarrow> nat list \<Rightarrow> (nat \<times> nat) list" where
  "spans n [] = []"
| "spans n [s] = [(s, n)]"
| "spans n (s # t # starts) = (s, t) # spans n (t # starts)"

lemma spans_length [simp]: "length (spans n starts) = length starts"
  by (induction n starts rule: spans.induct) simp_all

lemma spans_nth:
  "i < length starts \<Longrightarrow> spans n starts ! i = (starts ! i, if Suc i < length starts then starts ! Suc i else n)"
proof (induction n starts arbitrary: i rule: spans.induct)
  case (3 n s t starts)
  then show ?case by (cases i) auto
qed auto

lemma exchange_spans:
  "map (\<lambda>e. (ex_start e, ex_end e)) (exchanges jt ms) = spans (length ms) (exchange_starts ms)"
  by (rule nth_equalityI) (simp_all add: exchanges_def Let_def nth_enumerate_eq spans_nth)

lemma exchanges_length: "length (exchanges jt ms) = length (exchange_starts ms)"
  by (simp add: exchanges_def Let_def)

lemma exchange_lead: "i < length (exchanges jt ms) \<Longrightarrow> ex_lead (exchanges jt ms ! i) \<longleftrightarrow> has_lead ms \<and> i = 0"
  by (simp add: exchanges_def Let_def nth_enumerate_eq)

lemma turn_starts_sorted: "sorted_wrt (<) (turn_starts ms)" "\<forall>s \<in> set (turn_starts ms). s < length ms"
  by (auto simp: turn_starts_def sorted_wrt_filter)

lemma exchange_starts_sorted:
  "sorted_wrt (<) (exchange_starts ms)" "\<forall>s \<in> set (exchange_starts ms). s < length ms"
  "ms \<noteq> [] \<Longrightarrow> exchange_starts ms \<noteq> [] \<and> hd (exchange_starts ms) = 0" "ms = [] \<Longrightarrow> exchange_starts ms = []"
proof -
  have pos: "\<forall>s \<in> set (turn_starts ms). 0 < s" if "has_lead ms"
    using that turn_starts_sorted(1) [of ms] by (cases "turn_starts ms") (auto simp: has_lead_def)
  then show "sorted_wrt (<) (exchange_starts ms)" using turn_starts_sorted(1) by (simp add: exchange_starts_def)
  show "\<forall>s \<in> set (exchange_starts ms). s < length ms"
    using turn_starts_sorted(2) by (auto simp: exchange_starts_def has_lead_def)
  show "ms \<noteq> [] \<Longrightarrow> exchange_starts ms \<noteq> [] \<and> hd (exchange_starts ms) = 0"
    by (cases "turn_starts ms") (auto simp: exchange_starts_def has_lead_def)
  show "ms = [] \<Longrightarrow> exchange_starts ms = []"
    by (simp add: exchange_starts_def has_lead_def turn_starts_def)
qed

lemma slices_cover:
  "sorted_wrt (<) starts \<Longrightarrow> \<forall>s \<in> set starts. s < length xs \<Longrightarrow> starts \<noteq> [] \<Longrightarrow>
   concat (map (\<lambda>(a, b). sub_list a b xs) (spans (length xs) starts)) = drop (hd starts) xs"
proof (induction "length xs" starts rule: spans.induct)
  case (3 s t starts)
  have "sub_list s t xs @ drop t xs = drop s xs"
  proof -
    have "s < t" "t < length xs" using 3 by auto
    then have "drop s xs = drop s (take t xs @ drop t xs)" by simp
    then show ?thesis using \<open>s < t\<close> \<open>t < length xs\<close> by (simp only: drop_append sub_list_def) simp
  qed
  then show ?case using 3 by simp
qed (simp_all add: sub_list_def)

lemma keeps_pairs_start: "s \<in> set (exchange_starts ms) \<Longrightarrow> keeps_pairs ms s"
proof -
  assume s: "s \<in> set (exchange_starts ms)"
  show ?thesis
  proof (cases "s = 0")
    case False
    then have "s \<in> set (turn_starts ms)" using s by (auto simp: exchange_starts_def split: if_splits)
    then have "\<not> crossed_splits ms ! s" "s < length ms" by (auto simp: turn_starts_def)
    then show ?thesis using crossed_iff_keeps_pairs [of s ms] by simp
  qed (simp add: keeps_pairs_def)
qed

lemma keeps_pairs_end: "keeps_pairs ms (length ms)"
  using uses_at_bound results_at_bound by (auto simp: keeps_pairs_def)

lemma span_facts:
  assumes "(a, b) \<in> set (spans (length ms) (exchange_starts ms))"
  shows "a < b" "b \<le> length ms" "keeps_pairs ms a" "keeps_pairs ms b"
proof -
  let ?st = "exchange_starts ms"
  obtain i where i: "i < length ?st" "(a, b) = spans (length ms) ?st ! i" using assms by (auto simp: in_set_conv_nth)
  then have ab: "a = ?st ! i" "b = (if Suc i < length ?st then ?st ! Suc i else length ms)" using spans_nth [OF i(1), of "length ms"] by auto
  have "?st ! i < ?st ! Suc i" if "Suc i < length ?st"
    using sorted_wrt_nth_less [OF exchange_starts_sorted(1), of i "Suc i" ms] that by simp
  then show "a < b" "b \<le> length ms" using ab i(1) exchange_starts_sorted(2) [of ms] by (auto simp: less_imp_le)
  show "keeps_pairs ms a" "keeps_pairs ms b" using ab i(1) keeps_pairs_start keeps_pairs_end by auto
qed

section \<open>Lemmas on the view\<close>

definition view_part :: "jmessage list \<Rightarrow> task_view_plan \<Rightarrow> nat \<Rightarrow> exchange \<Rightarrow> jmessage list" where
  "view_part ms plan i e =
     (if i \<notin> set (tv_set_aside plan) then sub_list (ex_start e) (ex_end e) ms
      else if i \<in> set (tv_pinned plan) then [ms ! ex_start e] else [])"

lemma exchange_nth_span: "i < length (exchanges jt ms) \<Longrightarrow>
   (ex_start (exchanges jt ms ! i), ex_end (exchanges jt ms ! i)) \<in> set (spans (length ms) (exchange_starts ms))"
  unfolding exchange_spans [of jt ms, symmetric] by simp

lemma view_loop_placed:
  "\<forall>e \<in> set es. ex_start e < length ms \<and> ex_end e \<le> length ms \<Longrightarrow>
   view_loop ms plan i None es = concat (map (\<lambda>(j, e). view_part ms plan j e) (List.enumerate i es))"
  by (induction es arbitrary: i) (simp_all add: view_part_def min_def)

lemma view_loop_spec:
  assumes "\<forall>e \<in> set es. ex_start e < length ms \<and> ex_end e \<le> length ms" and "\<forall>e \<in> set es. \<not> ex_lead e"
  shows "view_loop ms plan i (Some m) es = m # concat (map (\<lambda>(j, e). view_part ms plan j e) (List.enumerate i es))"
proof (cases es)
  case (Cons e es')
  then show ?thesis using assms view_loop_placed [of es' ms plan "Suc i"] by (simp add: view_part_def min_def)
qed simp

lemma apply_task_view_spec:
  fixes ms :: "jmessage list" and jt :: "json \<Rightarrow> string"
  defines "exs \<equiv> exchanges jt ms"
  shows "apply_task_view ms exs plan m =
    (let parts = map (\<lambda>(i, e). view_part ms plan i e) (List.enumerate 0 exs); n = (if has_lead ms then 1 else 0) in
     concat (take n parts) @ m # concat (drop n parts))"
proof -
  have placed: "\<forall>e \<in> set exs. ex_start e < length ms \<and> ex_end e \<le> length ms"
  proof
    fix e assume "e \<in> set exs"
    then obtain i where "i < length exs" "e = exs ! i" by (auto simp: in_set_conv_nth)
    then show "ex_start e < length ms \<and> ex_end e \<le> length ms"
      using span_facts [OF exchange_nth_span [of i jt ms]] unfolding exs_def by (meson less_le_trans)
  qed
  show ?thesis
  proof (cases "has_lead ms")
    case True
    then have "exchange_starts ms \<noteq> []" by (simp add: exchange_starts_def)
    then obtain e es where es: "exs = e # es" using exchanges_length [of jt ms] unfolding exs_def by (cases "exchanges jt ms") auto
    have "ex_lead e" using exchange_lead [of 0 jt ms] es True by (simp add: exs_def)
    moreover have "\<forall>x \<in> set es. \<not> ex_lead x"
    proof
      fix x assume "x \<in> set es"
      then obtain i where "i < length es" "x = es ! i" by (auto simp: in_set_conv_nth)
      then show "\<not> ex_lead x" using exchange_lead [of "Suc i" jt ms] es by (simp add: exs_def)
    qed
    ultimately show ?thesis
      using placed True view_loop_spec [of es ms plan "Suc 0" m] by (simp add: apply_task_view_def es view_part_def min_def)
  next
    case False
    then have "\<forall>x \<in> set exs. \<not> ex_lead x"
      using exchange_lead [of _ jt ms] by (auto simp: exs_def in_set_conv_nth)
    then show ?thesis using placed False view_loop_spec [of exs ms plan 0 m] by (simp add: apply_task_view_def)
  qed
qed

section \<open>Properties\<close>

text \<open>
  The exchanges of a history cover every message, in order and once, and none of them is empty; a call and its result
  are always in the same exchange.
\<close>

theorem exchanges_cover_the_history:
  "concat (map (\<lambda>e. sub_list (ex_start e) (ex_end e) ms) (exchanges jt ms)) = ms \<and>
   (\<forall>e \<in> set (exchanges jt ms). ex_start e < ex_end e \<and> ex_end e \<le> length ms \<and>
      (\<forall>i a b. map_of (uses_at ms) i = Some a \<longrightarrow> (i, b) \<in> set (results_at ms) \<longrightarrow>
         (ex_start e \<le> a \<and> a < ex_end e) = (ex_start e \<le> b \<and> b < ex_end e)))"
proof (intro conjI)
  have "concat (map (\<lambda>e. sub_list (ex_start e) (ex_end e) ms) (exchanges jt ms)) =
      concat (map (\<lambda>(a, b). sub_list a b ms) (map (\<lambda>e. (ex_start e, ex_end e)) (exchanges jt ms)))"
    by (simp add: comp_def)
  also have "\<dots> = ms"
    unfolding exchange_spans
    using slices_cover [OF exchange_starts_sorted(1,2), of ms] exchange_starts_sorted(3,4) [of ms] by (cases "ms = []") auto
  finally show "concat (map (\<lambda>e. sub_list (ex_start e) (ex_end e) ms) (exchanges jt ms)) = ms" .
next
  show "\<forall>e \<in> set (exchanges jt ms). ex_start e < ex_end e \<and> ex_end e \<le> length ms \<and>
      (\<forall>i a b. map_of (uses_at ms) i = Some a \<longrightarrow> (i, b) \<in> set (results_at ms) \<longrightarrow>
         (ex_start e \<le> a \<and> a < ex_end e) = (ex_start e \<le> b \<and> b < ex_end e))"
  proof
    fix e assume "e \<in> set (exchanges jt ms)"
    then have "(ex_start e, ex_end e) \<in> set (spans (length ms) (exchange_starts ms))"
      unfolding exchange_spans [of jt ms, symmetric] by force
    then show "ex_start e < ex_end e \<and> ex_end e \<le> length ms \<and>
      (\<forall>i a b. map_of (uses_at ms) i = Some a \<longrightarrow> (i, b) \<in> set (results_at ms) \<longrightarrow>
         (ex_start e \<le> a \<and> a < ex_end e) = (ex_start e \<le> b \<and> b < ex_end e))"
      using span_facts [of "ex_start e" "ex_end e" ms] unfolding keeps_pairs_def by (metis not_less)
  qed
qed

text \<open>
  C38. The view of a task is the lead, the index, and the other exchanges in order: each stays whole unless it has no hard
  keep and the model judged it not needed, and then only its opening message stays if it is pinned. So the lead and the
  newest exchanges always stay, and no answer of the model keeps everything.
\<close>

theorem task_view_keeps_whole_exchanges:
  fixes ms :: "jmessage list" and jt :: "json \<Rightarrow> string" and k :: nat and named :: "string list" and todos_open :: bool
  defines "exs \<equiv> exchanges jt ms" and "hard \<equiv> task_keeps (exchanges jt ms) k named todos_open"
  shows "apply_task_view ms exs (plan_task_view hard needed pin) m =
    (let parts = map (\<lambda>(i, e). if hard ! i = None \<and> needed i = Some False
             then (if pin i then [ms ! ex_start e] else []) else sub_list (ex_start e) (ex_end e) ms) (List.enumerate 0 exs);
         n = (if has_lead ms then 1 else 0) in concat (take n parts) @ m # concat (drop n parts)) \<and>
    (\<forall>i < length exs. ex_lead (exs ! i) \<or> length exs - k \<le> i \<or>
        (\<exists>p \<in> set (files_of (exs ! i)). names_path named p) \<or> still_failing exs i \<longrightarrow> hard ! i \<noteq> None)"
proof (intro conjI)
  have len: "length hard = length exs" by (simp add: hard_def exs_def task_keeps_def Let_def)
  have parts: "map (\<lambda>(i, e). view_part ms (plan_task_view hard needed pin) i e) (List.enumerate 0 exs) =
      map (\<lambda>(i, e). if hard ! i = None \<and> needed i = Some False
             then (if pin i then [ms ! ex_start e] else []) else sub_list (ex_start e) (ex_end e) ms) (List.enumerate 0 exs)"
    by (rule map_cong) (auto simp: view_part_def plan_task_view_def len Let_def dest: enumerate_index)
  show "apply_task_view ms exs (plan_task_view hard needed pin) m =
    (let parts = map (\<lambda>(i, e). if hard ! i = None \<and> needed i = Some False
             then (if pin i then [ms ! ex_start e] else []) else sub_list (ex_start e) (ex_end e) ms) (List.enumerate 0 exs);
         n = (if has_lead ms then 1 else 0) in concat (take n parts) @ m # concat (drop n parts))"
    unfolding exs_def apply_task_view_spec parts [unfolded exs_def] by (rule refl)
next
  show "\<forall>i < length exs. ex_lead (exs ! i) \<or> length exs - k \<le> i \<or>
        (\<exists>p \<in> set (files_of (exs ! i)). names_path named p) \<or> still_failing exs i \<longrightarrow> hard ! i \<noteq> None"
    by (auto simp: hard_def exs_def task_keeps_def Let_def nth_enumerate_eq)
qed

section \<open>Witnesses\<close>

theorem exchanges_cover_the_history_witness:
  "concat (map (\<lambda>e. sub_list (ex_start e) (ex_end e) demo_history) (exchanges (\<lambda>_. []) demo_history)) = demo_history \<and>
   (\<forall>e \<in> set (exchanges (\<lambda>_. []) demo_history). (ex_start e \<le> 1 \<and> 1 < ex_end e) = (ex_start e \<le> 2 \<and> 2 < ex_end e))"
proof -
  have "map_of (uses_at demo_history) ''c1'' = Some 1" "(''c1'', 2) \<in> set (results_at demo_history)" by code_simp+
  then show ?thesis using exchanges_cover_the_history [of demo_history "\<lambda>_. []"] by blast
qed

theorem task_view_keeps_whole_exchanges_witness:
  "exchanges (\<lambda>_. []) demo_history \<noteq> [] \<and> task_keeps (exchanges (\<lambda>_. []) demo_history) 1 [] False ! (length (exchanges (\<lambda>_. []) demo_history) - 1) \<noteq> None"
proof -
  have "demo_history \<noteq> []" by (simp add: demo_history_def)
  then have "exchanges (\<lambda>_. []) demo_history \<noteq> []"
    using exchange_starts_sorted(3) exchanges_length by (metis length_0_conv)
  then show ?thesis using task_view_keeps_whole_exchanges [of demo_history "\<lambda>_. []" 1 "[]" False] by simp
qed

end
