(* ===== verification/Loop_Guard.thy ===== *)
theory Loop_Guard
  imports Compaction
begin

text \<open>
  \<open>crates/z-engine-engine/src/decisions/uses/loop_guard\<close>: what is remembered of a finished call (\<open>steps.rs\<close>), the findings
  over an agent's steps (\<open>detect.rs\<close>), the history of each agent (\<open>watch.rs\<close>), and what the guard does
  (\<open>guard.rs\<close>), with the line a reader sees of a tool input (\<open>uses/digest.rs\<close>).

  Outside the source are the hash of \<open>DefaultHasher\<close> on a sequence of texts (\<open>hash_of\<close>), the Unicode \<open>to_lowercase\<close>
  (\<open>lower\<close>) and the text of a JSON value: the record \<open>guard_lib\<close>. What the decision model answers to the questions that
  are put is the function \<open>answers_of\<close>. The traces the guard writes are not modelled.
\<close>

section \<open>Steps (steps.rs, digest.rs)\<close>

definition EDITS :: "string list" where
  "EDITS = [''Write'', ''Edit'', ''MultiEdit'', ''NotebookEdit'', ''ApplyAgentChanges'']"
definition POLLED :: "string list" where
  "POLLED = [''JobOutput'', ''TodoWrite'', ''AskUserQuestion'', ''ExitPlanMode'']"
definition ERROR_MARKERS :: "string list" where
  "ERROR_MARKERS = [''error'', ''fail'', ''panic'', ''assert'', ''exception'', ''denied'']"
definition ERROR_LINES :: nat where "ERROR_LINES = 8"
definition TAIL_LINES :: nat where "TAIL_LINES = 12"
definition LABEL_CHARS :: nat where "LABEL_CHARS = 120"
definition EXCERPT_CHARS :: nat where "EXCERPT_CHARS = 300"
definition ENVIRONMENT :: "string list" where
  "ENVIRONMENT = [''command not found'', ''is not recognized as'', ''no such file or directory'', ''permission denied'',
     ''cannot find module'', ''no module named'', ''connection refused'', ''could not resolve host'',
     ''address already in use'', ''is not installed'']"
definition RETRY :: "string list" where
  "RETRY = [''timed out'', ''rate limit'', ''too many requests'', ''temporarily unavailable'', ''service unavailable'',
     ''connection reset'', ''resource busy'', ''try again'']"
definition CODE :: "string list" where
  "CODE = [''error[e'', ''assert'', ''panicked'', ''typeerror'', ''syntaxerror'', ''referenceerror'', ''mismatched types'',
     ''test result: failed'', ''tests failed'', ''expected'']"

datatype failure_class = RetryFailure | CodeFailure | EnvironmentFailure

definition class_parse :: "string \<Rightarrow> failure_class option" where
  "class_parse key =
     (if key = ''retry'' then Some RetryFailure
      else if key = ''code'' then Some CodeFailure
      else if key = ''environment'' then Some EnvironmentFailure else None)"

record guard_failure =
  gf_hash :: u64
  gf_class :: "failure_class option"
  gf_excerpt :: string

record guard_step =
  sp_tool :: string
  sp_call :: u64
  sp_result :: u64
  sp_failure :: "guard_failure option"
  sp_edit :: bool
  sp_polled :: bool
  sp_label :: string
  sp_target :: string

record guard_lib =
  hash_of :: "string list \<Rightarrow> u64"
  lower :: "string \<Rightarrow> string"
  json_shown :: "json \<Rightarrow> string"

definition head_chars :: "string \<Rightarrow> nat \<Rightarrow> string" where
  "head_chars t n = (if n < char_count t then take_chars n t @ ELLIPSIS else t)"

definition input_digest :: "guard_lib \<Rightarrow> string \<Rightarrow> json \<Rightarrow> string" where
  "input_digest L name input =
     (let main = (if name = ''Bash'' then get_str ''command'' input
                  else if name = ''WebFetch'' then get_str ''url'' input
                  else if name = ''WebSearch'' then get_str ''query'' input
                  else (case get_str ''file_path'' input of Some p \<Rightarrow> Some p | None \<Rightarrow> get_str ''path'' input)) in
      head_chars (case main of Some t \<Rightarrow> t | None \<Rightarrow> json_shown L input) 300)"

definition mask_text :: "string \<Rightarrow> string" where
  "mask_text t = join_with [SPACE] (split_whitespace (map (\<lambda>c. if is_ascii_digit c then CHR ''#'' else c) t))"

definition classify_failure :: "guard_lib \<Rightarrow> string \<Rightarrow> failure_class option" where
  "classify_failure L t =
     (let has = (\<lambda>markers. \<exists>m \<in> set markers. contains_str m (lower L t)) in
      if has ENVIRONMENT then Some EnvironmentFailure
      else if has RETRY then Some RetryFailure
      else if has CODE then Some CodeFailure else None)"

definition failure_of :: "guard_lib \<Rightarrow> string \<Rightarrow> string \<Rightarrow> guard_failure" where
  "failure_of L name t =
     (let ls = filter (\<lambda>l. l \<noteq> []) (map trim (str_lines t));
          marked = take ERROR_LINES (filter (\<lambda>l. \<exists>m \<in> set ERROR_MARKERS. contains_str m (lower L l)) ls);
          tail = join_with [NL] (drop (length ls - TAIL_LINES) ls);
          joined = (if marked = [] then tail else join_with [NL] marked) in
      \<lparr>gf_hash = hash_of L [name, mask_text joined], gf_class = classify_failure L (joined @ [NL] @ tail),
       gf_excerpt = head_chars joined EXCERPT_CHARS\<rparr>)"

definition guard_step_of :: "guard_lib \<Rightarrow> tool_call \<Rightarrow> tool_status \<Rightarrow> tool_result_part list \<Rightarrow> guard_step option" where
  "guard_step_of L call status output =
     (if status = StatusCancelled then None
      else
        let t = parts_text output;
            failed = (status \<noteq> StatusOk);
            failure = (if failed then Some (failure_of L (tc_name call) t) else None);
            target = head_chars (input_digest L (tc_name call) (tc_input call)) LABEL_CHARS;
            ended = (case failure of Some f \<Rightarrow> ''failed: '' @ head_chars (gf_excerpt f) LABEL_CHARS | None \<Rightarrow> ''ok'') in
        Some \<lparr>sp_tool = tc_name call, sp_call = hash_of L [tc_name call, json_shown L (tc_input call)],
              sp_result = hash_of L [mask_text t], sp_failure = failure,
              sp_edit = (\<not> failed \<and> tc_name call \<in> set EDITS), sp_polled = (tc_name call \<in> set POLLED),
              sp_label = tc_name call @ '' '' @ target @ '' -> '' @ ended, sp_target = target\<rparr>)"

section \<open>Findings (detect.rs)\<close>

definition REPEAT_LIMIT :: nat where "REPEAT_LIMIT = 3"
definition STUCK_FAILURES :: nat where "STUCK_FAILURES = 3"
definition RECENT :: nat where "RECENT = 6"
definition RECENT_FAILURES :: nat where "RECENT_FAILURES = 4"

datatype finding =
    RepeatFound string nat u64
  | FailedAfterEdit string nat u64 "failure_class option"
  | Suspect string nat bool "failure_class option"

fun is_clear :: "finding \<Rightarrow> bool" where
  "is_clear (Suspect _ _ _ _) = False"
| "is_clear _ = True"

definition same_failure :: "guard_failure \<Rightarrow> guard_step \<Rightarrow> bool" where
  "same_failure f s \<longleftrightarrow> (case sp_failure s of Some g \<Rightarrow> gf_hash g = gf_hash f | None \<Rightarrow> False)"

text \<open>\<open>rposition\<close> and the slice behind the index it gives.\<close>

definition after_last :: "(guard_step \<Rightarrow> bool) \<Rightarrow> guard_step list \<Rightarrow> guard_step list" where
  "after_last P steps = rev (takeWhile (\<lambda>s. \<not> P s) (rev steps))"

definition failed_after_edit :: "guard_step list \<Rightarrow> guard_failure \<Rightarrow> bool" where
  "failed_after_edit steps f \<longleftrightarrow>
     (\<exists>s \<in> set (butlast steps). same_failure f s) \<and>
     (\<exists>s \<in> set (after_last (same_failure f) (butlast steps) @ [last steps]). sp_edit s)"

definition detect :: "guard_step list \<Rightarrow> finding option" where
  "detect steps =
     (if steps = [] then None
      else
        let last_step = last steps; since_edit = after_last sp_edit steps;
            repeats = length (filter (\<lambda>s. sp_call s = sp_call last_step \<and> sp_result s = sp_result last_step) since_edit) in
        if sp_polled last_step then None
        else (case sp_failure last_step of
          Some f \<Rightarrow>
            if failed_after_edit steps f
            then Some (FailedAfterEdit (sp_tool last_step) (length (filter (same_failure f) steps)) (gf_hash f) (gf_class f))
            else if repeats \<ge> REPEAT_LIMIT \<and> repeats mod REPEAT_LIMIT = 0
            then Some (RepeatFound (sp_tool last_step) repeats (sp_call last_step))
            else
              let stuck = length (filter (same_failure f) since_edit);
                  recent = length (filter (\<lambda>s. sp_failure s \<noteq> None) (take RECENT (rev steps))) in
              if stuck \<ge> STUCK_FAILURES then Some (Suspect (sp_tool last_step) stuck True (gf_class f))
              else if recent \<ge> RECENT_FAILURES then Some (Suspect (sp_tool last_step) recent False (gf_class f))
              else None
        | None \<Rightarrow>
            if repeats \<ge> REPEAT_LIMIT \<and> repeats mod REPEAT_LIMIT = 0
            then Some (RepeatFound (sp_tool last_step) repeats (sp_call last_step)) else None))"

section \<open>The history of each agent (watch.rs)\<close>

definition WINDOW :: nat where "WINDOW = 16"
definition AGENTS :: nat where "AGENTS = 64"

record guard_history =
  gh_turn :: nat
  gh_steps :: "guard_step list"
  gh_seen :: nat
  gh_checked :: "nat option"
  gh_reminders :: nat
  gh_ask :: bool

definition default_history :: guard_history where
  "default_history = \<lparr>gh_turn = 0, gh_steps = [], gh_seen = 0, gh_checked = None, gh_reminders = 0, gh_ask = False\<rparr>"

definition push_step :: "guard_step \<Rightarrow> guard_history \<Rightarrow> guard_history" where
  "push_step s h =
     (let steps = gh_steps h @ [s] in
      h\<lparr>gh_steps := (if length steps > WINDOW then tl steps else steps), gh_seen := gh_seen h + 1\<rparr>)"

definition check_due :: "nat \<Rightarrow> guard_history \<Rightarrow> bool" where
  "check_due every h = (case gh_checked h of None \<Rightarrow> True | Some c \<Rightarrow> gh_seen h - c \<ge> every)"

type_synonym loop_watch = "(string \<times> guard_history) list"

definition with_history :: "string \<Rightarrow> nat \<Rightarrow> (guard_history \<Rightarrow> 'r \<times> guard_history) \<Rightarrow> loop_watch \<Rightarrow> 'r \<times> loop_watch" where
  "with_history agent turn change w =
     (let w = (if length w \<ge> AGENTS \<and> map_of w agent = None then [] else w);
          h = (case map_of w agent of Some h \<Rightarrow> h | None \<Rightarrow> default_history);
          h = (if gh_turn h \<noteq> turn then default_history\<lparr>gh_turn := turn\<rparr> else h);
          (r, h') = change h in
      (r, (agent, h') # filter (\<lambda>(a, _). a \<noteq> agent) w))"

section \<open>The guard (guard.rs)\<close>

definition DIGEST_STEPS :: nat where "DIGEST_STEPS = 8"
definition CHECK_EVERY :: nat where "CHECK_EVERY = 4"
definition PROGRESS :: string where "PROGRESS = ''loop_guard_progress''"
definition FAILURE :: string where "FAILURE = ''loop_guard_failure''"

record guard_look =
  gl_steps :: "string list"
  gl_tool :: string
  gl_target :: string
  gl_error :: string

definition look_at :: "guard_step list \<Rightarrow> guard_look" where
  "look_at steps =
     \<lparr>gl_steps = map sp_label (drop (length steps - DIGEST_STEPS) steps),
      gl_tool = (if steps = [] then [] else sp_tool (last steps)),
      gl_target = (if steps = [] then [] else sp_target (last steps)),
      gl_error = (if steps = [] then [] else case sp_failure (last steps) of Some f \<Rightarrow> gf_excerpt f | None \<Rightarrow> [])\<rparr>"

text \<open>The first part of \<open>after_call\<close>, under the lock: a step is pushed, and a finding that is worth acting on is taken.\<close>

definition observe_step :: "guard_step \<Rightarrow> guard_history \<Rightarrow> (finding \<times> guard_look) option \<times> guard_history" where
  "observe_step s h =
     (let h = push_step s h in
      case detect (gh_steps h) of
        None \<Rightarrow> (None, h)
      | Some f \<Rightarrow>
          if is_clear f then (Some (f, look_at (gh_steps h)), h)
          else if \<not> check_due CHECK_EVERY h then (None, h)
          else (Some (f, look_at (gh_steps h)), h\<lparr>gh_checked := Some (gh_seen h)\<rparr>))"

record guard_answer =
  ga_question :: string
  ga_yes :: "bool option"
  ga_choice :: "string option"

definition answer_to :: "string \<Rightarrow> guard_answer list \<Rightarrow> guard_answer option" where
  "answer_to name answers = find (\<lambda>a. ga_question a = name) answers"

text \<open>\<open>confirm\<close>: \<open>answers_of look suspect classify\<close> are the answers to the questions on progress and on the failure, each put when its
  flag is set. \<open>None\<close> drops the finding; otherwise the class of the failure is given.\<close>

definition confirm_finding ::
  "(guard_look \<Rightarrow> bool \<Rightarrow> bool \<Rightarrow> guard_answer list) \<Rightarrow> finding \<Rightarrow> guard_look \<Rightarrow> failure_class option option" where
  "confirm_finding answers_of f look =
     (case f of
        RepeatFound _ _ _ \<Rightarrow> Some None
      | _ \<Rightarrow>
          let (suspect, known, classify) = (case f of
                 Suspect _ _ same class \<Rightarrow>
                   let class = (if same then class else None) in (True, class, same \<and> class = None)
               | FailedAfterEdit _ _ _ class \<Rightarrow> (False, class, class = None)
               | RepeatFound _ _ _ \<Rightarrow> (False, None, False)) in
          if \<not> suspect \<and> \<not> classify then Some known
          else
            let answers = answers_of look suspect classify;
                stuck = (\<not> suspect \<or> (case answer_to PROGRESS answers of Some a \<Rightarrow> ga_yes a = Some False | None \<Rightarrow> False)) in
            if \<not> stuck then None
            else Some (case known of
                   Some c \<Rightarrow> Some c
                 | None \<Rightarrow> (case answer_to FAILURE answers of
                       Some a \<Rightarrow> (case ga_choice a of Some k \<Rightarrow> class_parse k | None \<Rightarrow> None)
                     | None \<Rightarrow> None)))"

definition max_reminders :: "nat \<Rightarrow> nat" where
  "max_reminders setting = min (max setting 1) 10"

text \<open>The change \<open>respond\<close> makes under the lock.\<close>

definition give_reminder :: "nat \<Rightarrow> bool \<Rightarrow> bool \<Rightarrow> guard_history \<Rightarrow> nat option \<times> guard_history" where
  "give_reminder maximum shadow bypass h =
     (if gh_reminders h < maximum
      then (Some (gh_reminders h + 1), h\<lparr>gh_reminders := gh_reminders h + 1\<rparr>)
      else (None, h\<lparr>gh_reminders := 0, gh_ask := \<not> shadow \<and> \<not> bypass\<rparr>))"

definition LOOP_REPEAT :: string where
  "LOOP_REPEAT = ''You have called {{tool}} with the same input {{count}} times, with the same result each time and nothing changed in between. Calling it again will give the same result. Use what you already have, or try a different approach; if you are stuck, say what is blocking you.'' @ [NL]"

definition LOOP_NO_PROGRESS :: string where
  "LOOP_NO_PROGRESS = ''Your last {{count}} steps do not seem to get closer to the goal. Before the next call, state in one or two sentences what you have learned, what you will try now and why it should work. If it would only repeat earlier steps, choose a different approach or ask the user.'' @ [NL]"

definition LOOP_FAILURE_CODE :: string where
  "LOOP_FAILURE_CODE = ''{{tool}} failed the same way again after your edit ({{count}} times now): the change did not fix it. Read the error again closely, check that your edit reached the code that fails, and form a new hypothesis before you edit again. Do not repeat the same fix.'' @ [NL]"

definition LOOP_FAILURE_ENVIRONMENT :: string where
  "LOOP_FAILURE_ENVIRONMENT = ''{{tool}} keeps failing the same way ({{count}} times now), and the error points at the environment (a missing tool or dependency, a permission, a path or a service), not at the code. Editing code will not fix it. Check the setup instead: is the tool installed, is the path right, is the service running? If you cannot fix it, tell the user what is missing.'' @ [NL]"

definition LOOP_FAILURE_RETRY :: string where
  "LOOP_FAILURE_RETRY = ''{{tool}} keeps failing the same way ({{count}} times now), and the error looks transient (a timeout, a rate limit, a lock held by another process or a flaky network). Retry at most once more, after a short wait or in the background if it is slow. If it fails again, stop retrying and tell the user.'' @ [NL]"

definition fill_template :: "string \<Rightarrow> string \<Rightarrow> nat \<Rightarrow> string" where
  "fill_template template name count = render_template template [(''tool'', name), (''count'', nat_str count)]"

definition reminder_text :: "finding \<Rightarrow> failure_class option \<Rightarrow> string" where
  "reminder_text f class =
     (case f of
        RepeatFound name count _ \<Rightarrow> fill_template LOOP_REPEAT name count
      | _ \<Rightarrow>
          let (name, count, after_edit) = (case f of
                 FailedAfterEdit name count _ _ \<Rightarrow> (name, count, True)
               | Suspect name count _ _ \<Rightarrow> (name, count, False)
               | RepeatFound name count _ \<Rightarrow> (name, count, False));
              template = (case class of
                 Some EnvironmentFailure \<Rightarrow> LOOP_FAILURE_ENVIRONMENT
               | Some RetryFailure \<Rightarrow> LOOP_FAILURE_RETRY
               | _ \<Rightarrow> if after_edit then LOOP_FAILURE_CODE else LOOP_NO_PROGRESS) in
          fill_template template name count)"

fun summary_text :: "finding \<Rightarrow> string" where
  "summary_text (RepeatFound name count _) = name @ '' ran '' @ nat_str count @ '' times with the same input and result''"
| "summary_text (FailedAfterEdit name count _ _) =
     name @ '' failed the same way after an edit ('' @ nat_str count @ '' times)''"
| "summary_text (Suspect _ count _ _) = ''the last '' @ nat_str count @ '' steps made no progress''"

record guard_settings =
  gs_max_reminders :: nat
  gs_shadow :: bool
  gs_bypass :: bool

text \<open>\<open>respond\<close>: the reminders for the agent, the notice for the user, and the watch.\<close>

definition respond ::
  "guard_settings \<Rightarrow> string \<Rightarrow> nat \<Rightarrow> finding \<Rightarrow> failure_class option \<Rightarrow> loop_watch \<Rightarrow> string list \<times> string option \<times> loop_watch" where
  "respond S agent turn f class w =
     (let maximum = max_reminders (gs_max_reminders S);
          (given, w') = with_history agent turn (give_reminder maximum (gs_shadow S) (gs_bypass S)) w;
          notice = (case given of
              Some n \<Rightarrow> ''Loop guard: '' @ summary_text f @ ''. Reminded the agent ('' @ nat_str n @ '' of '' @ nat_str maximum @ '').''
            | None \<Rightarrow>
                if \<not> gs_bypass S
                then ''Loop guard: '' @ summary_text f @ '', still after '' @ nat_str maximum @ '' reminders. Its next call asks you first.''
                else ''Loop guard: '' @ summary_text f @ '', still after '' @ nat_str maximum @
                     '' reminders. Bypass mode does not ask; stop the turn if it keeps going.'') in
      ((case given of Some _ \<Rightarrow> [reminder_text f class] | None \<Rightarrow> []), if gs_shadow S then None else Some notice, w'))"

definition after_call ::
  "guard_lib \<Rightarrow> (guard_look \<Rightarrow> bool \<Rightarrow> bool \<Rightarrow> guard_answer list) \<Rightarrow> guard_settings \<Rightarrow> string option \<Rightarrow> nat \<Rightarrow> tool_call \<Rightarrow>
   tool_status \<Rightarrow> tool_result_part list \<Rightarrow> loop_watch \<Rightarrow> string list \<times> string option \<times> loop_watch" where
  "after_call L answers_of S agent turn call status output w =
     (case (agent, guard_step_of L call status output) of
        (Some a, Some s) \<Rightarrow>
          let (found, w1) = with_history a turn (observe_step s) w in
          (case found of
             None \<Rightarrow> ([], None, w1)
           | Some (f, look) \<Rightarrow>
               (case confirm_finding answers_of f look of
                  None \<Rightarrow> ([], None, w1)
                | Some class \<Rightarrow> respond S a turn f class w1))
      | _ \<Rightarrow> ([], None, w))"

definition take_ask :: "guard_history \<Rightarrow> bool \<times> guard_history" where
  "take_ask h = (gh_ask h, h\<lparr>gh_ask := False\<rparr>)"

definition loop_gate :: "string option \<Rightarrow> nat \<Rightarrow> tool_call \<Rightarrow> loop_watch \<Rightarrow> string option \<times> loop_watch" where
  "loop_gate agent turn call w =
     (case agent of
        None \<Rightarrow> (None, w)
      | Some a \<Rightarrow>
          let (armed, w') = with_history a turn take_ask w in
          (if armed then Some (''Loop guard: the agent kept repeating itself after its reminders. Allow lets this '' @
                tc_name call @ '' call run; deny it with a note to tell the agent what to do instead.'') else None, w'))"

section \<open>Lemmas\<close>

text \<open>What holds of every history, whatever the calls.\<close>

definition history_ok :: "guard_history \<Rightarrow> bool" where
  "history_ok h \<longleftrightarrow> length (gh_steps h) \<le> WINDOW \<and> length (gh_steps h) \<le> gh_seen h \<and> gh_reminders h \<le> 10 \<and>
     (\<forall>c. gh_checked h = Some c \<longrightarrow> c \<le> gh_seen h)"

definition watch_ok :: "loop_watch \<Rightarrow> bool" where
  "watch_ok w \<longleftrightarrow> length w \<le> AGENTS \<and> distinct (map fst w) \<and> (\<forall>(a, h) \<in> set w. history_ok h)"

lemma default_history_ok: "history_ok default_history" "history_ok (default_history\<lparr>gh_turn := t\<rparr>)"
  by (simp_all add: history_ok_def default_history_def)

lemma push_step_ok: "history_ok h \<Longrightarrow> history_ok (push_step s h)"
  by (auto simp: history_ok_def push_step_def Let_def split: option.splits)

lemma observe_step_ok: "history_ok h \<Longrightarrow> history_ok (snd (observe_step s h))"
  using push_step_ok [of h s] by (auto simp: observe_step_def Let_def history_ok_def split: option.splits)

lemma give_reminder_ok: "history_ok h \<Longrightarrow> history_ok (snd (give_reminder (max_reminders n) shadow bypass h))"
  by (auto simp: give_reminder_def history_ok_def max_reminders_def)

lemma take_ask_ok: "history_ok h \<Longrightarrow> history_ok (snd (take_ask h))"
  by (simp add: take_ask_def history_ok_def)

text \<open>The history \<open>with_history\<close> works on.\<close>

definition current :: "string \<Rightarrow> nat \<Rightarrow> loop_watch \<Rightarrow> guard_history" where
  "current agent turn w =
     (let w = (if length w \<ge> AGENTS \<and> map_of w agent = None then [] else w);
          h = (case map_of w agent of Some h \<Rightarrow> h | None \<Rightarrow> default_history) in
      if gh_turn h \<noteq> turn then default_history\<lparr>gh_turn := turn\<rparr> else h)"

lemma with_history_current:
  "with_history a t change w = (r, w') \<Longrightarrow> r = fst (change (current a t w)) \<and> map_of w' a = Some (snd (change (current a t w)))"
  by (auto simp: with_history_def current_def Let_def split: prod.splits)

lemma current_after:
  "map_of w a = Some h \<Longrightarrow> gh_turn h = t \<Longrightarrow> current a t w = h"
  by (simp add: current_def)

lemma current_turn [simp]: "gh_turn (current a t w) = t"
  by (simp add: current_def default_history_def Let_def)

lemma filter_keys: "distinct (map fst w) \<Longrightarrow> distinct (map fst (filter P w))"
  by (induction w) auto

lemma filter_other_length:
  "map_of w a \<noteq> None \<Longrightarrow> length (filter (\<lambda>(b, _). b \<noteq> a) w) < length w"
proof (induction w)
  case (Cons x w)
  then show ?case using length_filter_le [of "\<lambda>(b, _). b \<noteq> a" w] by (cases x) (auto simp: less_Suc_eq_le split: if_splits)
qed simp

lemma with_history_ok:
  assumes "watch_ok w" and "\<And>h. history_ok h \<Longrightarrow> history_ok (snd (change h))"
  shows "watch_ok (snd (with_history a t change w))"
proof -
  define v where "v = (if length w \<ge> AGENTS \<and> map_of w a = None then [] else w)"
  have v: "distinct (map fst v)" "\<forall>(a, h) \<in> set v. history_ok h" "length v < AGENTS \<or> map_of v a \<noteq> None \<and> length v \<le> AGENTS"
    using assms(1) by (auto simp: v_def watch_ok_def AGENTS_def)
  have h: "history_ok (current a t w)"
  proof (cases "map_of v a")
    case None
    then show ?thesis using default_history_ok by (simp add: current_def v_def [symmetric])
  next
    case (Some h)
    then have "history_ok h" using v(2) by (auto dest: map_of_SomeD)
    then show ?thesis using Some default_history_ok by (simp add: current_def v_def [symmetric])
  qed
  have len: "length (filter (\<lambda>(b, _). b \<noteq> a) v) < AGENTS"
    using v(3) filter_other_length [of v a] length_filter_le [of "\<lambda>(b, _). b \<noteq> a" v] by linarith
  have eq: "snd (with_history a t change w) = (a, snd (change (current a t w))) # filter (\<lambda>(b, _). b \<noteq> a) v"
    by (simp add: with_history_def current_def v_def Let_def split: prod.splits)
  show ?thesis
    unfolding eq watch_ok_def using len v(1,2) assms(2) [OF h] by (auto simp: filter_keys Suc_le_eq)
qed

lemma respond_watch: "snd (snd (respond S a t f c w)) =
    snd (with_history a t (give_reminder (max_reminders (gs_max_reminders S)) (gs_shadow S) (gs_bypass S)) w)"
  by (simp add: respond_def Let_def split: prod.splits)

lemma respond_ok: "watch_ok w \<Longrightarrow> watch_ok (snd (snd (respond S a t f c w)))"
  unfolding respond_watch by (intro with_history_ok give_reminder_ok)

lemma after_call_ok: "watch_ok w \<Longrightarrow> watch_ok (snd (snd (after_call L q S agent t call status output w)))"
proof (cases "agent = None \<or> guard_step_of L call status output = None")
  case False
  then obtain a s where as: "agent = Some a" "guard_step_of L call status output = Some s" by auto
  assume w: "watch_ok w"
  obtain found w1 where o: "with_history a t (observe_step s) w = (found, w1)" by fastforce
  have "watch_ok w1" using with_history_ok [OF w, of "observe_step s" a t] observe_step_ok o by simp
  then show ?thesis using respond_ok by (simp add: after_call_def as o split: option.splits)
qed (auto simp: after_call_def split: option.splits)

lemma loop_gate_ok: "watch_ok w \<Longrightarrow> watch_ok (snd (loop_gate agent t call w))"
proof (cases agent)
  case (Some a)
  assume "watch_ok w"
  then have "watch_ok (snd (with_history a t take_ask w))" by (intro with_history_ok take_ask_ok)
  then show ?thesis using Some by (cases "with_history a t take_ask w") (simp add: loop_gate_def)
qed (simp add: loop_gate_def)

text \<open>The watches that the calls of any agents, in any order, lead to.\<close>

inductive watched :: "guard_lib \<Rightarrow> loop_watch \<Rightarrow> bool" for L where
  watched_none: "watched L []"
| watched_call: "watched L w \<Longrightarrow> watched L (snd (snd (after_call L q S agent t call status output w)))"
| watched_gate: "watched L w \<Longrightarrow> watched L (snd (loop_gate agent t call w))"

lemma watched_ok: "watched L w \<Longrightarrow> watch_ok w"
proof (induction rule: watched.induct)
  case watched_none
  show ?case by (simp add: watch_ok_def)
qed (intro after_call_ok loop_gate_ok; assumption)+

text \<open>A call repeated without a change.\<close>

lemma pushed_steps: "gh_steps ((push_step s ^^ n) default_history) = replicate (min n WINDOW) s"
proof (induction n)
  case (Suc n)
  have app: "replicate k s @ [s] = replicate (Suc k) s" for k by (simp add: replicate_append_same)
  show ?case using Suc by (auto simp: push_step_def Let_def app min_def)
qed (simp add: default_history_def)

lemma after_last_none: "\<forall>s \<in> set steps. \<not> P s \<Longrightarrow> after_last P steps = steps"
proof -
  assume "\<forall>s \<in> set steps. \<not> P s"
  then have "takeWhile (\<lambda>s. \<not> P s) (rev steps) = rev steps" by (simp add: takeWhile_eq_all_conv)
  then show ?thesis unfolding after_last_def by (simp only: rev_rev_ident)
qed

lemma detect_replicate:
  assumes "k > 0" "\<not> sp_polled s" "\<not> sp_edit s" "sp_failure s = None"
  shows "detect (replicate k s) = (if k \<ge> 3 \<and> k mod 3 = 0 then Some (RepeatFound (sp_tool s) k (sp_call s)) else None)"
proof -
  have "after_last sp_edit (replicate k s) = replicate k s"
    by (rule after_last_none) (simp add: assms(3))
  then show ?thesis using assms by (simp add: detect_def Let_def REPEAT_LIMIT_def last_replicate)
qed

section \<open>Properties\<close>

text \<open>
  The guard's memory stays bounded and its counters consistent. Whatever agents call whatever tools in whatever order, at
  most 64 agents are remembered, each once, with at most 16 steps and at most 10 reminders, and the count at the last
  look never exceeds the count of steps, so the subtraction of the two counts never underflows.
\<close>

theorem loop_watch_stays_bounded:
  assumes "watched L w"
  shows "length w \<le> 64 \<and> distinct (map fst w) \<and>
    (\<forall>(a, h) \<in> set w. length (gh_steps h) \<le> 16 \<and> gh_reminders h \<le> 10 \<and>
       (\<forall>c. gh_checked h = Some c \<longrightarrow> c \<le> gh_seen h))"
  using watched_ok [OF assms] by (auto simp: watch_ok_def history_ok_def AGENTS_def WINDOW_def)

text \<open>
  The guard asks the user only after its reminders, and once. A confirmed finding reminds the agent while reminders are
  left in the turn; the next one gives none, and then the agent's next call asks the user, unless the guard only shadows
  or the mode is bypass; the call after that does not ask again.
\<close>

theorem asks_once_after_the_reminders:
  assumes "respond S a t f class w = (msgs, notice, w')"
  shows "(gh_reminders (current a t w) < max_reminders (gs_max_reminders S) \<longrightarrow> msgs = [reminder_text f class]) \<and>
    (gh_reminders (current a t w) \<ge> max_reminders (gs_max_reminders S) \<longrightarrow> msgs = [] \<and>
       (fst (loop_gate (Some a) t call w') \<noteq> None \<longleftrightarrow> \<not> gs_shadow S \<and> \<not> gs_bypass S)) \<and>
    fst (loop_gate (Some a) t call' (snd (loop_gate (Some a) t call w'))) = None"
proof -
  let ?m = "max_reminders (gs_max_reminders S)"
  let ?h = "current a t w"
  obtain given v where v: "with_history a t (give_reminder ?m (gs_shadow S) (gs_bypass S)) w = (given, v)" by fastforce
  have w': "w' = v" and msgs: "msgs = (case given of Some _ \<Rightarrow> [reminder_text f class] | None \<Rightarrow> [])"
    using assms v by (auto simp: respond_def Let_def)
  have g: "given = fst (give_reminder ?m (gs_shadow S) (gs_bypass S) ?h)"
    and m: "map_of w' a = Some (snd (give_reminder ?m (gs_shadow S) (gs_bypass S) ?h))"
    using with_history_current [OF v] w' by auto
  have cur: "current a t w' = snd (give_reminder ?m (gs_shadow S) (gs_bypass S) ?h)"
    by (rule current_after [OF m]) (simp add: give_reminder_def)
  obtain armed u where u: "with_history a t take_ask w' = (armed, u)" by fastforce
  have armed: "armed = gh_ask (current a t w')" and mu: "map_of u a = Some (snd (take_ask (current a t w')))"
    using with_history_current [OF u] by (auto simp: take_ask_def)
  have cu: "current a t u = snd (take_ask (current a t w'))" by (rule current_after [OF mu]) (simp add: take_ask_def)
  have gate: "loop_gate (Some a) t call w' = (if armed then Some (''Loop guard: the agent kept repeating itself after its reminders. Allow lets this '' @
                tc_name call @ '' call run; deny it with a note to tell the agent what to do instead.'') else None, u)" for call
    by (simp add: loop_gate_def u)
  have "fst (loop_gate (Some a) t call' u) = None"
    using with_history_current [of a t take_ask u] cu
    by (cases "with_history a t take_ask u") (simp add: loop_gate_def take_ask_def)
  then show ?thesis
    using g cur armed unfolding msgs by (auto simp: gate give_reminder_def)
qed

text \<open>
  A call repeated with the same result is reported at its third, sixth, ninth, twelfth and fifteenth run, and never
  again: only 16 steps are remembered and 16 is no multiple of 3, so from the sixteenth run on the guard stays silent.
\<close>

theorem repeats_beyond_the_window_are_silent:
  assumes "\<not> sp_polled s" and "\<not> sp_edit s" and "sp_failure s = None"
  shows "detect (gh_steps ((push_step s ^^ n) default_history)) =
    (if n \<in> {3, 6, 9, 12, 15} then Some (RepeatFound (sp_tool s) n (sp_call s)) else None)"
proof (cases "n = 0")
  case True
  then show ?thesis by (simp add: detect_def default_history_def)
next
  case False
  let ?k = "min n WINDOW"
  have k: "?k > 0" using False by (simp add: WINDOW_def)
  have "detect (replicate ?k s) = (if ?k \<ge> 3 \<and> ?k mod 3 = 0 then Some (RepeatFound (sp_tool s) ?k (sp_call s)) else None)"
    by (rule detect_replicate [OF k assms])
  moreover have "(?k \<ge> 3 \<and> ?k mod 3 = 0) = (n \<in> {3, 6, 9, 12, 15})"
    by (simp add: WINDOW_def min_def) presburger
  ultimately show ?thesis unfolding pushed_steps by (auto simp: WINDOW_def min_def)
qed

section \<open>Witnesses\<close>

definition demo_lib :: guard_lib where
  "demo_lib = \<lparr>hash_of = (\<lambda>ts. of_nat (length (concat ts))), lower = id, json_shown = (\<lambda>_. [])\<rparr>"

definition demo_step :: guard_step where
  "demo_step = \<lparr>sp_tool = ''Read'', sp_call = 1, sp_result = 2, sp_failure = None, sp_edit = False, sp_polled = False,
     sp_label = [], sp_target = []\<rparr>"

definition demo_settings :: guard_settings where
  "demo_settings = \<lparr>gs_max_reminders = 1, gs_shadow = False, gs_bypass = False\<rparr>"

definition demo_tool_call :: tool_call where
  "demo_tool_call = \<lparr>tc_id = ''c1'', tc_name = ''Read'', tc_input = JObject []\<rparr>"

theorem loop_watch_stays_bounded_witness: "length (snd (loop_gate (Some ''a'') 1 demo_tool_call [])) \<le> 64"
  using loop_watch_stays_bounded [OF watched_gate [OF watched_none [of demo_lib], of "Some ''a''" 1 demo_tool_call]] by blast

theorem asks_once_after_the_reminders_witness:
  "fst (loop_gate (Some ''a'') 0 demo_tool_call (snd (snd (respond demo_settings ''a'' 0 (RepeatFound ''Read'' 6 1) None
     [(''a'', default_history\<lparr>gh_reminders := 1\<rparr>)])))) \<noteq> None"
proof -
  let ?w = "[(''a'', default_history\<lparr>gh_reminders := 1\<rparr>)]"
  have "current ''a'' 0 ?w = default_history\<lparr>gh_reminders := 1\<rparr>"
    by (rule current_after) (simp_all add: default_history_def)
  then have "gh_reminders (current ''a'' 0 ?w) \<ge> max_reminders (gs_max_reminders demo_settings)"
    by (simp add: demo_settings_def max_reminders_def)
  moreover obtain msgs notice w' where r: "respond demo_settings ''a'' 0 (RepeatFound ''Read'' 6 1) None ?w = (msgs, notice, w')"
    by (metis prod_cases3)
  ultimately show ?thesis
    using asks_once_after_the_reminders [OF r, of demo_tool_call demo_tool_call] by (simp add: demo_settings_def)
qed

theorem repeats_beyond_the_window_are_silent_witness:
  "detect (gh_steps ((push_step demo_step ^^ 18) default_history)) = None \<and>
   detect (gh_steps ((push_step demo_step ^^ 15) default_history)) = Some (RepeatFound ''Read'' 15 1)"
  using repeats_beyond_the_window_are_silent [of demo_step 18] repeats_beyond_the_window_are_silent [of demo_step 15]
  by (simp add: demo_step_def)

end
