(* ===== verification/Model_Events.thy ===== *)
theory Model_Events
  imports Batch "HOL-Library.AList"
begin

text \<open>
  \<open>crates/z-engine-llm/src/types.rs\<close>, \<open>error.rs\<close> and \<open>accumulate.rs\<close>: the events of a model's response, whatever the
  provider, and how they are assembled into content blocks.

  \<open>CallId::new()\<close> is \<open>fresh\<close> of the index of the call it names; \<open>parse_json\<close> is \<open>serde_json::from_str\<close> with the text of
  its error, \<open>json_text\<close> the compact text of a value.
\<close>

section \<open>Events and errors (types.rs, error.rs)\<close>

datatype stop_reason = EndTurn | ToolUseStop | MaxTokensStop | StopSequence | Refusal | OtherStop string

datatype model_event =
    TextDelta string
  | ThinkingDelta string
  | ThinkingSignature string
  | RedactedDelta string
  | ToolUseStart nat string string
  | ToolUseDelta nat string
  | ToolUseEnd nat
  | UsageEvent usage
  | StopEvent stop_reason
  | Retrying nat nat string

datatype llm_error =
    ConfigError string
  | HttpError nat string
  | RateLimited nat string
  | Overloaded nat string
  | ConnectError nat string
  | StreamError string
  | DecodeError string
  | LlmCancelled

fun is_retryable :: "llm_error \<Rightarrow> bool" where
  "is_retryable (RateLimited _ _) = True"
| "is_retryable (Overloaded _ _) = True"
| "is_retryable (ConnectError _ _) = True"
| "is_retryable (StreamError _) = True"
| "is_retryable (HttpError status _) = (status = 408 \<or> status = 429 \<or> status \<ge> 500)"
| "is_retryable _ = False"

definition OVERFLOW_MARKERS :: "string list" where
  "OVERFLOW_MARKERS = [''context length'', ''context_length'', ''maximum context'', ''prompt is too long'',
     ''too many tokens'', ''context window'']"

fun is_context_overflow :: "llm_error \<Rightarrow> bool" where
  "is_context_overflow (HttpError status body) =
     ((status = 400 \<or> status = 413) \<and> (\<exists>m \<in> set OVERFLOW_MARKERS. contains_str m (to_ascii_lowercase body)))"
| "is_context_overflow _ = False"

section \<open>Assembling a response (accumulate.rs)\<close>

record malformed_tool_use =
  mf_id :: string
  mf_name :: string
  mf_raw :: string
  mf_error :: string

record assistant_turn =
  at_content :: "json content_block list"
  at_usage :: usage
  at_stop :: "stop_reason option"
  at_malformed :: "malformed_tool_use list"

datatype building =
    BText string
  | BThinking string "string option"
  | BRedacted string
  | BTool string string string

record accumulator =
  ac_blocks :: "building list"
  ac_tools :: "nat \<rightharpoonup> nat"
  ac_usage :: usage
  ac_stop :: "stop_reason option"

definition new_accumulator :: accumulator where
  "new_accumulator = \<lparr>ac_blocks = [], ac_tools = Map.empty, ac_usage = no_usage, ac_stop = None\<rparr>"

definition push_block :: "building \<Rightarrow> accumulator \<Rightarrow> accumulator" where
  "push_block b a = a\<lparr>ac_blocks := ac_blocks a @ [b]\<rparr>"

definition set_last :: "building \<Rightarrow> accumulator \<Rightarrow> accumulator" where
  "set_last b a = a\<lparr>ac_blocks := butlast (ac_blocks a) @ [b]\<rparr>"

definition last_block :: "accumulator \<Rightarrow> building option" where
  "last_block a = (if ac_blocks a = [] then None else Some (last (ac_blocks a)))"

definition open_tool :: "nat \<Rightarrow> string \<Rightarrow> string \<Rightarrow> accumulator \<Rightarrow> accumulator" where
  "open_tool index i name a =
     push_block (BTool i name []) (a\<lparr>ac_tools := (ac_tools a)(index \<mapsto> length (ac_blocks a))\<rparr>)"

definition extend_tool :: "nat \<Rightarrow> string \<Rightarrow> accumulator \<Rightarrow> accumulator" where
  "extend_tool slot part a =
     (if slot < length (ac_blocks a) then
        (case ac_blocks a ! slot of
           BTool i name js \<Rightarrow> a\<lparr>ac_blocks := (ac_blocks a)[slot := BTool i name (js @ part)]\<rparr>
         | _ \<Rightarrow> a)
      else a)"

primrec absorb :: "(nat \<Rightarrow> string) \<Rightarrow> accumulator \<Rightarrow> model_event \<Rightarrow> accumulator" where
  "absorb fresh a (TextDelta d) =
     (case last_block a of Some (BText t) \<Rightarrow> set_last (BText (t @ d)) a | _ \<Rightarrow> push_block (BText d) a)"
| "absorb fresh a (ThinkingDelta d) =
     (case last_block a of
        Some (BThinking t None) \<Rightarrow> set_last (BThinking (t @ d) None) a
      | _ \<Rightarrow> push_block (BThinking d None) a)"
| "absorb fresh a (ThinkingSignature sig) =
     (case last_block a of
        Some (BThinking t _) \<Rightarrow> set_last (BThinking t (Some sig)) a
      | _ \<Rightarrow> push_block (BThinking [] (Some sig)) a)"
| "absorb fresh a (RedactedDelta d) = push_block (BRedacted d) a"
| "absorb fresh a (ToolUseStart index i name) = open_tool index i name a"
| "absorb fresh a (ToolUseDelta index part) =
     (case ac_tools a index of
        Some slot \<Rightarrow> extend_tool slot part a
      | None \<Rightarrow> extend_tool (length (ac_blocks a)) part (open_tool index (fresh index) [] a))"
| "absorb fresh a (ToolUseEnd index) = a"
| "absorb fresh a (UsageEvent u) = a\<lparr>ac_usage := u\<rparr>"
| "absorb fresh a (StopEvent r) = a\<lparr>ac_stop := Some r\<rparr>"
| "absorb fresh a (Retrying n ms why) = a"

definition absorb_all :: "(nat \<Rightarrow> string) \<Rightarrow> accumulator \<Rightarrow> model_event list \<Rightarrow> accumulator" where
  "absorb_all fresh a events = foldl (absorb fresh) a events"

definition text_so_far :: "accumulator \<Rightarrow> string" where
  "text_so_far a = concat (List.map_filter (\<lambda>b. case b of BText t \<Rightarrow> Some t | _ \<Rightarrow> None) (ac_blocks a))"

definition parse_input :: "(string \<Rightarrow> string + json) \<Rightarrow> (json \<Rightarrow> string) \<Rightarrow> string \<Rightarrow> string + json" where
  "parse_input parse_json json_text js =
     (if trim js = [] then Inr (JObject [])
      else (case parse_json js of
          Inr (JObject fs) \<Rightarrow> Inr (JObject fs)
        | Inr other \<Rightarrow> Inl (''expected a JSON object, got '' @ json_text other)
        | Inl e \<Rightarrow> Inl e))"

text \<open>One block of \<open>finish\<close>: the content it adds and the malformed call it records.\<close>

definition finish_block ::
  "(string \<Rightarrow> string + json) \<Rightarrow> (json \<Rightarrow> string) \<Rightarrow> building \<Rightarrow> json content_block list \<times> malformed_tool_use list" where
  "finish_block parse_json json_text b =
     (case b of
        BText t \<Rightarrow> (if t \<noteq> [] then [TextBlock t] else [], [])
      | BThinking t sig \<Rightarrow> (if t \<noteq> [] \<or> sig \<noteq> None then [ThinkingBlock t sig] else [], [])
      | BRedacted d \<Rightarrow> ([RedactedThinking d], [])
      | BTool i name js \<Rightarrow>
          (case parse_input parse_json json_text js of
             Inr input \<Rightarrow> ([ToolUse i name input], [])
           | Inl e \<Rightarrow> ([ToolUse i name (JObject [])], [\<lparr>mf_id = i, mf_name = name, mf_raw = js, mf_error = e\<rparr>])))"

definition finish_turn :: "(string \<Rightarrow> string + json) \<Rightarrow> (json \<Rightarrow> string) \<Rightarrow> accumulator \<Rightarrow> assistant_turn" where
  "finish_turn parse_json json_text a =
     (let parts = map (finish_block parse_json json_text) (ac_blocks a) in
      \<lparr>at_content = concat (map fst parts), at_usage = ac_usage a, at_stop = ac_stop a,
       at_malformed = concat (map snd parts)\<rparr>)"

text \<open>\<open>AssistantTurn::text\<close> and \<open>has_tool_use\<close>.\<close>

definition turn_text :: "assistant_turn \<Rightarrow> string" where
  "turn_text t = concat (List.map_filter (\<lambda>b. case b of TextBlock s \<Rightarrow> Some s | _ \<Rightarrow> None) (at_content t))"

definition has_tool_use :: "assistant_turn \<Rightarrow> bool" where
  "has_tool_use t = list_ex (\<lambda>b. case b of ToolUse _ _ _ \<Rightarrow> True | _ \<Rightarrow> False) (at_content t)"

section \<open>Lemmas\<close>

lemma absorb_all_simps [simp]:
  "absorb_all fresh a [] = a" "absorb_all fresh a (e # es) = absorb_all fresh (absorb fresh a e) es"
  "absorb_all fresh a (es @ fs) = absorb_all fresh (absorb_all fresh a es) fs"
  by (simp_all add: absorb_all_def)

text \<open>What the deltas of each kind say, in order.\<close>

definition text_part :: "model_event \<Rightarrow> string" where
  "text_part e = (case e of TextDelta d \<Rightarrow> d | _ \<Rightarrow> [])"

definition thinking_part :: "model_event \<Rightarrow> string" where
  "thinking_part e = (case e of ThinkingDelta d \<Rightarrow> d | _ \<Rightarrow> [])"

definition tool_part :: "nat \<Rightarrow> model_event \<Rightarrow> string" where
  "tool_part i e = (case e of ToolUseDelta j d \<Rightarrow> if j = i then d else [] | _ \<Rightarrow> [])"

fun block_text :: "building \<Rightarrow> string" where
  "block_text (BText t) = t"
| "block_text _ = []"

fun block_thinking :: "building \<Rightarrow> string" where
  "block_thinking (BThinking t _) = t"
| "block_thinking _ = []"

definition texts :: "accumulator \<Rightarrow> string" where "texts a = concat (map block_text (ac_blocks a))"
definition thoughts :: "accumulator \<Rightarrow> string" where "thoughts a = concat (map block_thinking (ac_blocks a))"

lemma text_so_far_texts: "text_so_far a = texts a"
proof -
  have "concat (List.map_filter (\<lambda>b. case b of BText t \<Rightarrow> Some t | _ \<Rightarrow> None) bs) = concat (map block_text bs)" for bs
    by (induction bs) (auto simp: List.map_filter_def split: building.splits)
  then show ?thesis by (simp add: text_so_far_def texts_def)
qed

lemma set_last_concat:
  assumes "last_block a = Some b" and "f b' = f b @ d"
  shows "concat (map f (ac_blocks (set_last b' a))) = concat (map f (ac_blocks a)) @ d"
proof -
  obtain bs where "ac_blocks a = bs @ [b]"
    using assms(1) by (cases "ac_blocks a" rule: rev_cases) (auto simp: last_block_def split: if_splits)
  then show ?thesis using assms(2) by (simp add: set_last_def)
qed

lemma push_concat: "concat (map f (ac_blocks (push_block b a))) = concat (map f (ac_blocks a)) @ f b"
  by (simp add: push_block_def)

lemma extend_tool_concat:
  assumes "\<And>i n js js'. f (BTool i n js) = f (BTool i n js')"
  shows "concat (map f (ac_blocks (extend_tool slot part a))) = concat (map f (ac_blocks a))"
proof (cases "slot < length (ac_blocks a)")
  case True
  have "map f ((ac_blocks a)[slot := BTool i n (js @ part)]) = map f (ac_blocks a)" if "ac_blocks a ! slot = BTool i n js" for i n js
    using True that assms by (metis list_update_id map_update nth_map)
  then show ?thesis using True by (auto simp: extend_tool_def split: building.splits)
qed (simp add: extend_tool_def)

lemma open_tool_concat: "concat (map f (ac_blocks (open_tool i n name a))) = concat (map f (ac_blocks a)) @ f (BTool n name [])"
  by (simp add: open_tool_def push_concat)

lemma absorb_texts: "texts (absorb fresh a e) = texts a @ text_part e"
  unfolding texts_def text_part_def
  by (cases e) (auto simp: push_concat open_tool_concat extend_tool_concat split: option.splits building.splits
      intro!: set_last_concat [of _ _ block_text, THEN trans])

lemma absorb_thoughts: "thoughts (absorb fresh a e) = thoughts a @ thinking_part e"
  unfolding thoughts_def thinking_part_def
  by (cases e) (auto simp: push_concat open_tool_concat extend_tool_concat split: option.splits building.splits
      intro!: set_last_concat [of _ _ block_thinking, THEN trans])

lemma absorb_all_texts: "texts (absorb_all fresh a es) = texts a @ concat (map text_part es)"
  by (induction es arbitrary: a) (simp_all add: absorb_texts)

lemma absorb_all_thoughts: "thoughts (absorb_all fresh a es) = thoughts a @ concat (map thinking_part es)"
  by (induction es arbitrary: a) (simp_all add: absorb_thoughts)


subsection \<open>What a finished turn holds\<close>

declare map_filter_append [simp]

lemma finish_block_text:
  "concat (List.map_filter (\<lambda>b. case b of TextBlock s \<Rightarrow> Some s | _ \<Rightarrow> None) (fst (finish_block pj jt b))) = block_text b"
  by (cases b) (auto simp: finish_block_def List.map_filter_def split: sum.splits)

lemma finish_text: "turn_text (finish_turn pj jt a) = texts a"
proof -
  have "concat (List.map_filter (\<lambda>b. case b of TextBlock s \<Rightarrow> Some s | _ \<Rightarrow> None) (concat (map (\<lambda>b. fst (finish_block pj jt b)) bs)))
      = concat (map block_text bs)" for bs
    by (induction bs) (simp_all add: finish_block_text List.map_filter_simps)
  then show ?thesis by (simp add: turn_text_def finish_turn_def texts_def Let_def comp_def)
qed

definition content_thinking :: "json content_block list \<Rightarrow> string" where
  "content_thinking bs = concat (map (\<lambda>b. case b of ThinkingBlock t _ \<Rightarrow> t | _ \<Rightarrow> []) bs)"

lemma finish_thoughts: "content_thinking (at_content (finish_turn pj jt a)) = thoughts a"
proof -
  have one: "content_thinking (fst (finish_block pj jt b)) = block_thinking b" for b
    by (cases b) (auto simp: finish_block_def content_thinking_def split: sum.splits)
  have "content_thinking (concat (map (\<lambda>b. fst (finish_block pj jt b)) bs)) = concat (map block_thinking bs)" for bs
    using one by (induction bs) (simp_all add: content_thinking_def)
  then show ?thesis by (simp add: finish_turn_def thoughts_def Let_def comp_def)
qed

text \<open>The tool calls under construction, and those of a finished turn.\<close>

definition built_calls :: "building list \<Rightarrow> (string \<times> string \<times> string) list" where
  "built_calls bs = List.map_filter (\<lambda>b. case b of BTool i name js \<Rightarrow> Some (i, name, js) | _ \<Rightarrow> None) bs"

definition turn_calls :: "json content_block list \<Rightarrow> (string \<times> string \<times> json) list" where
  "turn_calls bs = List.map_filter (\<lambda>b. case b of ToolUse i name v \<Rightarrow> Some (i, name, v) | _ \<Rightarrow> None) bs"

definition input_of :: "(string \<Rightarrow> string + json) \<Rightarrow> (json \<Rightarrow> string) \<Rightarrow> string \<Rightarrow> json" where
  "input_of pj jt js = (case parse_input pj jt js of Inr v \<Rightarrow> v | Inl _ \<Rightarrow> JObject [])"

lemma parse_input_object: "parse_input pj jt js = Inr v \<Longrightarrow> \<exists>fs. v = JObject fs"
  by (auto simp: parse_input_def split: if_splits sum.splits json.splits)

lemma input_of_object: "\<exists>fs. input_of pj jt js = JObject fs"
  by (auto simp: input_of_def split: sum.splits dest: parse_input_object)

lemma finish_calls:
  "turn_calls (at_content (finish_turn pj jt a)) = map (\<lambda>(i, name, js). (i, name, input_of pj jt js)) (built_calls (ac_blocks a))"
proof -
  have one: "turn_calls (fst (finish_block pj jt b)) = map (\<lambda>(i, name, js). (i, name, input_of pj jt js)) (built_calls [b])" for b
    by (cases b) (auto simp: finish_block_def turn_calls_def built_calls_def input_of_def List.map_filter_def split: sum.splits)
  have app: "turn_calls (xs @ ys) = turn_calls xs @ turn_calls ys" "built_calls (b # bs) = built_calls [b] @ built_calls bs" for xs ys b bs
    by (simp_all add: turn_calls_def built_calls_def List.map_filter_def)
  have nil: "turn_calls [] = []" "built_calls [] = []"
    by (simp_all add: turn_calls_def built_calls_def List.map_filter_def)
  have "turn_calls (concat (map (\<lambda>b. fst (finish_block pj jt b)) bs)) = map (\<lambda>(i, name, js). (i, name, input_of pj jt js)) (built_calls bs)" for bs
  proof (induction bs)
    case (Cons b bs)
    show ?case by (subst app(2)) (simp add: app(1) one Cons.IH)
  qed (simp add: nil)
  then show ?thesis by (simp add: finish_turn_def Let_def comp_def)
qed

lemma finish_malformed:
  "at_malformed (finish_turn pj jt a) =
   List.map_filter (\<lambda>(i, name, js). case parse_input pj jt js of
       Inl e \<Rightarrow> Some \<lparr>mf_id = i, mf_name = name, mf_raw = js, mf_error = e\<rparr> | Inr _ \<Rightarrow> None) (built_calls (ac_blocks a))"
proof -
  have one: "snd (finish_block pj jt b) = List.map_filter (\<lambda>(i, name, js). case parse_input pj jt js of
       Inl e \<Rightarrow> Some \<lparr>mf_id = i, mf_name = name, mf_raw = js, mf_error = e\<rparr> | Inr _ \<Rightarrow> None) (built_calls [b])" for b
    by (cases b) (auto simp: finish_block_def built_calls_def List.map_filter_def split: sum.splits)
  have app: "built_calls (b # bs) = built_calls [b] @ built_calls bs" "built_calls [] = []" for b bs
    by (simp_all add: built_calls_def List.map_filter_def)
  have "concat (map (\<lambda>b. snd (finish_block pj jt b)) bs) = List.map_filter (\<lambda>(i, name, js). case parse_input pj jt js of
       Inl e \<Rightarrow> Some \<lparr>mf_id = i, mf_name = name, mf_raw = js, mf_error = e\<rparr> | Inr _ \<Rightarrow> None) (built_calls bs)" for bs
  proof (induction bs)
    case (Cons b bs)
    show ?case by (subst app(1), insert Cons.IH) (simp only: list.map concat.simps map_filter_append one)
  qed (simp add: app(2) List.map_filter_simps)
  then show ?thesis by (simp add: finish_turn_def Let_def comp_def)
qed

subsection \<open>Tool calls\<close>

text \<open>Every open index points to the block of its call, and no two of them to the same.\<close>

definition tools_ok :: "accumulator \<Rightarrow> bool" where
  "tools_ok a \<longleftrightarrow>
     (\<forall>i s. ac_tools a i = Some s \<longrightarrow> s < length (ac_blocks a) \<and> (\<exists>n m js. ac_blocks a ! s = BTool n m js)) \<and>
     (\<forall>i j s. ac_tools a i = Some s \<and> ac_tools a j = Some s \<longrightarrow> i = j)"

definition call_at :: "nat \<Rightarrow> string \<Rightarrow> string \<Rightarrow> string \<Rightarrow> accumulator \<Rightarrow> bool" where
  "call_at i n name js a \<longleftrightarrow>
     (\<exists>s. ac_tools a i = Some s \<and> s < length (ac_blocks a) \<and> ac_blocks a ! s = BTool n name js)"

lemma tools_ok_new [simp]: "tools_ok new_accumulator"
  by (simp add: tools_ok_def new_accumulator_def)

lemma tools_ok_push: "tools_ok a \<Longrightarrow> tools_ok (push_block b a)"
  by (auto simp: tools_ok_def push_block_def nth_append less_Suc_eq)

lemma set_last_nth:
  assumes "last_block a = Some b" "\<And>n m js. b \<noteq> BTool n m js" "s < length (ac_blocks a)" "ac_blocks a ! s = BTool n m js"
  shows "s < length (ac_blocks (set_last b' a))" "ac_blocks (set_last b' a) ! s = BTool n m js"
proof -
  obtain bs where "ac_blocks a = bs @ [b]"
    using assms(1) by (cases "ac_blocks a" rule: rev_cases) (auto simp: last_block_def split: if_splits)
  then show "s < length (ac_blocks (set_last b' a))" "ac_blocks (set_last b' a) ! s = BTool n m js"
    using assms(2-4) by (auto simp: set_last_def nth_append split: if_splits)
qed

lemma tools_ok_set_last:
  assumes "tools_ok a" "last_block a = Some b" "\<And>n m js. b \<noteq> BTool n m js"
  shows "tools_ok (set_last b' a)"
proof -
  have same: "ac_tools (set_last b' a) = ac_tools a" by (simp add: set_last_def)
  show ?thesis
    using assms(1) set_last_nth [OF assms(2,3), where b' = b'] unfolding tools_ok_def same by blast
qed

lemma tools_ok_open: "tools_ok a \<Longrightarrow> tools_ok (open_tool i n name a)"
  by (auto simp: tools_ok_def open_tool_def push_block_def nth_append less_Suc_eq split: if_splits)

lemma tools_ok_extend: "tools_ok a \<Longrightarrow> tools_ok (extend_tool s part a)"
  by (auto simp: tools_ok_def extend_tool_def nth_list_update split: building.splits)

lemma tools_ok_frame: "tools_ok a \<Longrightarrow> tools_ok (a\<lparr>ac_usage := u\<rparr>)" "tools_ok a \<Longrightarrow> tools_ok (a\<lparr>ac_stop := r\<rparr>)"
  by (simp_all add: tools_ok_def)

lemma tools_ok_absorb: "tools_ok a \<Longrightarrow> tools_ok (absorb fresh a e)"
  by (cases e) (auto simp: tools_ok_push tools_ok_open tools_ok_extend tools_ok_frame split: option.splits building.splits
      intro: tools_ok_set_last)


lemma call_at_push: "call_at i n name js a \<Longrightarrow> call_at i n name js (push_block b a)"
  by (auto simp: call_at_def push_block_def nth_append)

lemma call_at_set_last:
  assumes "call_at i n name js a" "last_block a = Some b" "\<And>n m js. b \<noteq> BTool n m js"
  shows "call_at i n name js (set_last b' a)"
proof -
  have same: "ac_tools (set_last b' a) = ac_tools a" by (simp add: set_last_def)
  show ?thesis using assms(1) set_last_nth [OF assms(2,3), where b' = b'] unfolding call_at_def same by blast
qed

lemma call_at_open: "call_at i n name js a \<Longrightarrow> j \<noteq> i \<Longrightarrow> call_at i n name js (open_tool j m nm a)"
  by (auto simp: call_at_def open_tool_def push_block_def nth_append)

lemma open_call_at: "call_at i n name [] (open_tool i n name a)"
  by (simp add: call_at_def open_tool_def push_block_def)

lemma call_at_extend_other:
  assumes "tools_ok a" "call_at i n name js a" "ac_tools a j = Some s" "j \<noteq> i"
  shows "call_at i n name js (extend_tool s part a)"
proof -
  obtain t where t: "ac_tools a i = Some t" "t < length (ac_blocks a)" "ac_blocks a ! t = BTool n name js"
    using assms(2) by (auto simp: call_at_def)
  have "t \<noteq> s" using assms(1,3,4) t(1) by (auto simp: tools_ok_def)
  with t show ?thesis by (auto simp: call_at_def extend_tool_def split: building.splits)
qed

lemma call_at_extend: "call_at i n name js a \<Longrightarrow> ac_tools a i = Some s \<Longrightarrow> call_at i n name (js @ part) (extend_tool s part a)"
  by (auto simp: call_at_def extend_tool_def)

lemma call_at_frame: "call_at i n name js (a\<lparr>ac_usage := u\<rparr>) = call_at i n name js a"
  "call_at i n name js (a\<lparr>ac_stop := r\<rparr>) = call_at i n name js a"
  by (simp_all add: call_at_def)

fun is_start :: "nat \<Rightarrow> model_event \<Rightarrow> bool" where
  "is_start i (ToolUseStart j _ _) = (j = i)"
| "is_start i _ = False"

lemma absorb_call_at:
  assumes ok: "tools_ok a" and at: "call_at i n name js a" and other: "\<not> is_start i e"
  shows "call_at i n name (js @ tool_part i e) (absorb fresh a e)"
proof (cases e)
  case (TextDelta d)
  then show ?thesis using at
    by (auto simp: tool_part_def call_at_push split: option.splits building.splits intro: call_at_set_last)
next
  case (ThinkingDelta d)
  then show ?thesis using at
    by (auto simp: tool_part_def call_at_push split: option.splits building.splits intro: call_at_set_last)
next
  case (ThinkingSignature d)
  then show ?thesis using at
    by (auto simp: tool_part_def call_at_push split: option.splits building.splits intro: call_at_set_last)
next
  case (ToolUseStart j m nm)
  then show ?thesis using at other by (simp add: tool_part_def call_at_open)
next
  case (ToolUseDelta j part)
  show ?thesis
  proof (cases "j = i")
    case True
    then show ?thesis using at ToolUseDelta
      by (auto simp: tool_part_def call_at_extend call_at_def [of _ _ _ _ a] split: option.splits
          intro: call_at_extend [OF at])
  next
    case False
    then show ?thesis
    proof (cases "ac_tools a j")
      case None
      then have "call_at i n name js (extend_tool (length (ac_blocks a)) part (open_tool j (fresh j) [] a))"
        using call_at_extend_other [where j = j, OF tools_ok_open [OF ok] call_at_open [OF at False]] False
        by (simp add: open_tool_def push_block_def)
      with None ToolUseDelta False show ?thesis by (simp add: tool_part_def)
    next
      case (Some s)
      with call_at_extend_other [OF ok at Some False] ToolUseDelta False show ?thesis by (simp add: tool_part_def)
    qed
  qed
qed (use at in \<open>simp_all add: tool_part_def call_at_push call_at_frame\<close>)

lemma absorb_all_tools_ok: "tools_ok a \<Longrightarrow> tools_ok (absorb_all fresh a es)"
  by (induction es arbitrary: a) (simp_all add: tools_ok_absorb)

lemma absorb_all_call_at:
  assumes "tools_ok a" "call_at i n name js a" "\<forall>e \<in> set es. \<not> is_start i e"
  shows "call_at i n name (js @ concat (map (tool_part i) es)) (absorb_all fresh a es)"
  using assms
proof (induction es arbitrary: a js)
  case (Cons e es)
  from Cons.prems have "call_at i n name (js @ tool_part i e) (absorb fresh a e)" "tools_ok (absorb fresh a e)"
    by (simp_all add: absorb_call_at tools_ok_absorb)
  with Cons.IH [of "absorb fresh a e" "js @ tool_part i e"] Cons.prems show ?case by simp
qed simp

lemma started_call_at:
  assumes "\<forall>e \<in> set es. \<not> is_start i e"
  shows "call_at i n name (concat (map (tool_part i) es)) (absorb_all fresh new_accumulator (pre @ ToolUseStart i n name # es))"
proof -
  let ?a = "absorb_all fresh new_accumulator pre"
  have "tools_ok (open_tool i n name ?a)" by (simp add: absorb_all_tools_ok tools_ok_open)
  from absorb_all_call_at [OF this open_call_at assms, of fresh] show ?thesis by simp
qed

lemma call_at_built: "call_at i n name js a \<Longrightarrow> (n, name, js) \<in> set (built_calls (ac_blocks a))"
  by (force simp: call_at_def built_calls_def List.map_filter_def image_iff dest: nth_mem)


section \<open>Properties\<close>

text \<open>
  What a response says is what was streamed. For any events, in any order and with tool calls in between, the text of
  the finished turn is the text deltas in order, its thinking the thinking deltas in order, and the text shown after an
  interruption (\<open>text_so_far\<close>) is the same as that of the turn.
\<close>

theorem response_says_what_was_streamed:
  "turn_text (finish_turn pj jt (absorb_all fresh new_accumulator es)) = concat (map text_part es) \<and>
   content_thinking (at_content (finish_turn pj jt (absorb_all fresh new_accumulator es))) = concat (map thinking_part es) \<and>
   text_so_far (absorb_all fresh new_accumulator es) = concat (map text_part es)"
proof -
  have "texts new_accumulator = []" "thoughts new_accumulator = []"
    by (simp_all add: texts_def thoughts_def new_accumulator_def)
  then show ?thesis
    by (simp add: finish_text finish_thoughts text_so_far_texts absorb_all_texts absorb_all_thoughts)
qed

text \<open>
  Tool calls are put together from their own deltas. When a call starts at an index and no later call reuses the index,
  the finished turn has the call with its id and name, and its input is what the concatenation of exactly the deltas of
  this index parses to, whatever text, thinking and deltas of other calls come between them.
\<close>

theorem calls_hold_their_streamed_input:
  assumes "\<forall>e \<in> set es. \<not> is_start i e"
  shows "(n, name, input_of pj jt (concat (map (tool_part i) es)))
     \<in> set (turn_calls (at_content (finish_turn pj jt (absorb_all fresh new_accumulator (pre @ ToolUseStart i n name # es)))))"
  using call_at_built [OF started_call_at [OF assms]] by (force simp: finish_calls)

theorem calls_hold_their_streamed_input_witness:
  "(''a'', ''read'', JObject [])
     \<in> set (turn_calls (at_content (finish_turn (\<lambda>t. Inl ''eof'') (\<lambda>v. [])
         (absorb_all (\<lambda>i. ''call'') new_accumulator
           ([TextDelta ''x''] @ ToolUseStart 0 ''a'' ''read'' # [ToolUseStart 1 ''b'' ''grep'', ToolUseDelta 0 ''{'', ToolUseDelta 1 ''}''])))))"
proof -
  have "input_of (\<lambda>t. Inl ''eof'') (\<lambda>v. []) ''{'' = JObject []"
    by (simp add: input_of_def parse_input_def trim_def)
  then show ?thesis
    using calls_hold_their_streamed_input [where i = 0 and n = "''a''" and name = "''read''" and pj = "\<lambda>t. Inl ''eof''"
        and jt = "\<lambda>v. []" and fresh = "\<lambda>i. ''call''" and pre = "[TextDelta ''x'']"
        and es = "[ToolUseStart 1 ''b'' ''grep'', ToolUseDelta 0 ''{'', ToolUseDelta 1 ''}'']"]
    by (simp add: tool_part_def)
qed

text \<open>
  Calls whose input is not a JSON object stay in the turn. Every call of a finished turn has an object as its input; the
  calls that are reported as malformed are those of the turn whose streamed text is no object, with that text, and each of
  them is also in the content, with the empty object, so that it can be answered.
\<close>

theorem malformed_calls_stay_in_the_turn:
  "(\<forall>c \<in> set (turn_calls (at_content (finish_turn pj jt a))). \<exists>fs. snd (snd c) = JObject fs) \<and>
   (\<forall>m \<in> set (at_malformed (finish_turn pj jt a)).
      (mf_id m, mf_name m, JObject []) \<in> set (turn_calls (at_content (finish_turn pj jt a))) \<and>
      (mf_id m, mf_name m, mf_raw m) \<in> set (built_calls (ac_blocks a)) \<and> parse_input pj jt (mf_raw m) = Inl (mf_error m)) \<and>
   length (turn_calls (at_content (finish_turn pj jt a))) = length (built_calls (ac_blocks a))"
proof -
  have bad: "(mf_id m, mf_name m, mf_raw m) \<in> set (built_calls (ac_blocks a)) \<and> parse_input pj jt (mf_raw m) = Inl (mf_error m)"
    if "m \<in> set (at_malformed (finish_turn pj jt a))" for m
    using that unfolding finish_malformed by (auto simp: List.map_filter_def split: sum.splits)
  have paired: "(mf_id m, mf_name m, JObject []) \<in> set (turn_calls (at_content (finish_turn pj jt a)))"
    if "m \<in> set (at_malformed (finish_turn pj jt a))" for m
    using bad [OF that] by (force simp: finish_calls input_of_def)
  have "\<exists>fs. snd (snd c) = JObject fs" if "c \<in> set (turn_calls (at_content (finish_turn pj jt a)))" for c
    using that by (auto simp: finish_calls input_of_object)
  with bad paired show ?thesis by (simp add: finish_calls)
qed

theorem malformed_calls_stay_in_the_turn_witness:
  "(''a'', ''read'', JObject []) \<in> set (turn_calls (at_content (finish_turn (\<lambda>t. Inl ''eof'') (\<lambda>v. [])
     (absorb_all (\<lambda>i. ''call'') new_accumulator [ToolUseStart 0 ''a'' ''read'', ToolUseDelta 0 ''{'']))))"
proof -
  let ?t = "finish_turn (\<lambda>t. Inl ''eof'') (\<lambda>v. []) (absorb_all (\<lambda>i. ''call'') new_accumulator [ToolUseStart 0 ''a'' ''read'', ToolUseDelta 0 ''{''])"
  have "\<lparr>mf_id = ''a'', mf_name = ''read'', mf_raw = ''{'', mf_error = ''eof''\<rparr> \<in> set (at_malformed ?t)"
    by (simp add: finish_turn_def finish_block_def parse_input_def trim_def trim_start_def trim_end_def new_accumulator_def
        open_tool_def extend_tool_def push_block_def is_whitespace_def)
  then show ?thesis
    using malformed_calls_stay_in_the_turn [of "\<lambda>t. Inl ''eof''" "\<lambda>v. []"] by fastforce
qed

end
