(* ===== verification/Sse.thy ===== *)
theory Sse
  imports Framing
begin

text \<open>
  The two incremental decoders of \<open>text/event-stream\<close>: \<open>crates/z-engine-llm/src/sse.rs\<close> for model
  providers and \<open>crates/z-engine-integrations/src/mcp/sse.rs\<close> for MCP servers. Both collect the bytes of
  the current line and process a line once its \<open>\n\<close> arrived.

  The byte stream of \<open>sse_messages\<close> is the list of the chunks it yields, an error being a chunk that
  failed, and \<open>RpcMessage::parse_frame\<close> is the argument \<open>parse_frame\<close>.
\<close>

section \<open>Lines\<close>

record line_buffer =
  line :: string

type_synonym ('a, 'e) line_process = "string \<Rightarrow> 'a line_buffer_scheme \<Rightarrow> 'a line_buffer_scheme \<times> 'e list"

text \<open>The loop of \<open>feed\<close>, on the bytes that are left.\<close>

function feed_lines :: "('a, 'e) line_process \<Rightarrow> 'a line_buffer_scheme \<Rightarrow> string \<Rightarrow> 'a line_buffer_scheme \<times> 'e list" where
  "feed_lines process d bytes =
     (case split_once [NL] bytes of
        None \<Rightarrow> (d\<lparr>line := line d @ bytes\<rparr>, [])
      | Some (before, after) \<Rightarrow>
          let (d1, out1) = process (line d @ before) (d\<lparr>line := []\<rparr>);
              (d2, out2) = feed_lines process d1 after
          in (d2, out1 @ out2))"
  by pat_completeness auto
termination
  by (relation "measure (\<lambda>(_, _, bytes). length bytes)") (auto dest!: split_once_Some)

declare feed_lines.simps [simp del]

definition strip_cr :: "string \<Rightarrow> string" where
  "strip_cr raw = (case strip_suffix [CR] raw of Some r \<Rightarrow> r | None \<Rightarrow> raw)"

definition split_field :: "string \<Rightarrow> string \<times> string" where
  "split_field l = (case split_once '':'' l of
     Some (field, val) \<Rightarrow> (field, case strip_prefix '' '' val of Some v \<Rightarrow> v | None \<Rightarrow> val)
   | None \<Rightarrow> (l, []))"

section \<open>The decoder of the model adapters (llm/src/sse.rs)\<close>

record sse_event =
  ev_event :: "string option"
  ev_data :: string

definition is_done :: "sse_event \<Rightarrow> bool" where
  "is_done e \<longleftrightarrow> trim (ev_data e) = ''[DONE]''"

record sse_decoder = line_buffer +
  event :: "string option"
  data :: string
  has_data :: bool

definition new_decoder :: sse_decoder where
  "new_decoder = \<lparr>line = [], event = None, data = [], has_data = False\<rparr>"

definition dispatch :: "sse_decoder \<Rightarrow> sse_decoder \<times> sse_event list" where
  "dispatch d =
     (if has_data d then (d\<lparr>event := None, data := [], has_data := False\<rparr>, [\<lparr>ev_event = event d, ev_data = data d\<rparr>])
      else (d\<lparr>event := None\<rparr>, []))"

definition process_line :: "string \<Rightarrow> sse_decoder \<Rightarrow> sse_decoder \<times> sse_event list" where
  "process_line raw0 d =
     (let raw = strip_cr raw0 in
      if raw = [] then dispatch d
      else let l = from_utf8_lossy raw in
        if starts_with '':'' l then (d, [])
        else let (field, val) = split_field l in
          if field = ''data'' then
            (d\<lparr>data := (if has_data d then data d @ [NL] else data d) @ val, has_data := True\<rparr>, [])
          else if field = ''event'' then (d\<lparr>event := if val \<noteq> [] then Some val else None\<rparr>, [])
          else (d, []))"

definition feed :: "sse_decoder \<Rightarrow> string \<Rightarrow> sse_decoder \<times> sse_event list" where
  "feed d bytes = feed_lines process_line d bytes"

definition finish_decoder :: "sse_decoder \<Rightarrow> sse_decoder \<times> sse_event list" where
  "finish_decoder d =
     (let (d1, out1) = (if line d \<noteq> [] then process_line (line d) (d\<lparr>line := []\<rparr>) else (d, []));
          (d2, out2) = dispatch d1
      in (d2, out1 @ out2))"

section \<open>The decoder of MCP over HTTP (mcp/sse.rs)\<close>

definition MAX_EVENT_BYTES :: nat where "MAX_EVENT_BYTES = 64 * 1024 * 1024"

record mcp_decoder = line_buffer +
  mdata :: string
  mhas_data :: bool

definition new_mcp_decoder :: mcp_decoder where
  "new_mcp_decoder = \<lparr>line = [], mdata = [], mhas_data = False\<rparr>"

definition mcp_dispatch :: "mcp_decoder \<Rightarrow> mcp_decoder \<times> string list" where
  "mcp_dispatch d = (if mhas_data d then (d\<lparr>mdata := [], mhas_data := False\<rparr>, [mdata d]) else (d, []))"

definition mcp_process :: "string \<Rightarrow> mcp_decoder \<Rightarrow> mcp_decoder \<times> string list" where
  "mcp_process raw0 d =
     (let raw = strip_cr raw0 in
      if raw = [] then mcp_dispatch d
      else let l = from_utf8_lossy raw in
        if starts_with '':'' l then (d, [])
        else let (field, val) = split_field l in
          if field = ''data'' then
            (d\<lparr>mdata := (if mhas_data d then mdata d @ [NL] else mdata d) @ val, mhas_data := True\<rparr>, [])
          else (d, []))"

definition event_too_large :: integration_error where
  "event_too_large = Protocol ''an event exceeds the 67108864-byte limit''"

definition mcp_feed :: "mcp_decoder \<Rightarrow> string \<Rightarrow> mcp_decoder \<times> (integration_error + string list)" where
  "mcp_feed d bytes =
     (let (d1, events) = feed_lines mcp_process d bytes in
      (d1, if length (line d1) + length (mdata d1) > MAX_EVENT_BYTES then Inl event_too_large else Inr events))"

definition mcp_finish :: "mcp_decoder \<Rightarrow> string list" where
  "mcp_finish d =
     (let (d1, out1) = (if line d \<noteq> [] then mcp_process (line d) (d\<lparr>line := []\<rparr>) else (d, []));
          (d2, out2) = mcp_dispatch d1
      in out1 @ out2)"

definition enqueue :: "(string \<Rightarrow> 'm list) \<Rightarrow> string list \<Rightarrow> 'm list" where
  "enqueue parse_frame events = concat (map parse_frame (filter (\<lambda>d. trim d \<noteq> []) events))"

fun sse_messages ::
  "(string \<Rightarrow> 'm list) \<Rightarrow> mcp_decoder \<Rightarrow> (integration_error + string) list \<Rightarrow> (integration_error + 'm) list" where
  "sse_messages parse_frame d [] = map Inr (enqueue parse_frame (mcp_finish d))"
| "sse_messages parse_frame d (Inl e # chunks) = [Inl e]"
| "sse_messages parse_frame d (Inr bytes # chunks) =
     (case mcp_feed d bytes of
        (d1, Inl e) \<Rightarrow> [Inl e]
      | (d1, Inr events) \<Rightarrow> map Inr (enqueue parse_frame events) @ sse_messages parse_frame d1 chunks)"

section \<open>Decoders that do not depend on the chunks\<close>

fun feed_all :: "('s \<Rightarrow> string \<Rightarrow> 's \<times> 'e list) \<Rightarrow> 's \<Rightarrow> string list \<Rightarrow> 's \<times> 'e list" where
  "feed_all f s [] = (s, [])"
| "feed_all f s (c # cs) = (let (s1, e1) = f s c; (s2, e2) = feed_all f s1 cs in (s2, e1 @ e2))"

locale chunk_decoder =
  fixes take_bytes :: "'s \<Rightarrow> string \<Rightarrow> 's \<times> 'e list"
  assumes take_Nil: "take_bytes s [] = (s, [])"
    and take_append: "take_bytes s (a @ b) = (let (s1, e1) = take_bytes s a; (s2, e2) = take_bytes s1 b in (s2, e1 @ e2))"
begin

lemma feed_all_concat: "feed_all take_bytes s cs = take_bytes s (concat cs)"
  by (induction cs arbitrary: s) (simp_all add: take_Nil take_append split: prod.split)

text \<open>How the input was cut into chunks does not matter.\<close>

lemma chunks_do_not_matter: "concat cs = concat cs' \<Longrightarrow> feed_all take_bytes s cs = feed_all take_bytes s cs'"
  by (simp add: feed_all_concat)

end

lemma feed_lines_no_newline: "NL \<notin> set bytes \<Longrightarrow> feed_lines process d bytes = (d\<lparr>line := line d @ bytes\<rparr>, [])"
  by (simp add: feed_lines.simps split_once_char_notin)

lemma feed_lines_newline:
  "NL \<notin> set l \<Longrightarrow> feed_lines process d (l @ NL # r) =
     (let (d1, out1) = process (line d @ l) (d\<lparr>line := []\<rparr>); (d2, out2) = feed_lines process d1 r in (d2, out1 @ out2))"
  by (simp add: feed_lines.simps [of process d "l @ NL # r"] split_once_char)

lemma lines_cases [case_names partial full]:
  fixes bytes :: string
  obtains (partial) "NL \<notin> set bytes" | (full) l r where "bytes = l @ NL # r" "NL \<notin> set l"
  by (metis split_list_first)

lemma feed_lines_append:
  "feed_lines process d (a @ b) =
     (let (d1, e1) = feed_lines process d a; (d2, e2) = feed_lines process d1 b in (d2, e1 @ e2))"
proof (induction a arbitrary: d rule: length_induct)
  case (1 a)
  show ?case
  proof (cases a rule: lines_cases)
    case partial
    show ?thesis
    proof (cases b rule: lines_cases)
      case partial': partial
      then show ?thesis using partial by (simp add: feed_lines_no_newline)
    next
      case (full l r)
      have "a @ b = (a @ l) @ NL # r" using full by simp
      then show ?thesis using full partial feed_lines_newline [of "a @ l" process d r]
        by (simp add: feed_lines_no_newline feed_lines_newline)
    qed
  next
    case (full l r)
    obtain d1 e1 where p: "process (line d @ l) (d\<lparr>line := []\<rparr>) = (d1, e1)" by fastforce
    have "length r < length a" using full by simp
    then have "feed_lines process d1 (r @ b) =
        (let (d1, e1) = feed_lines process d1 r; (d2, e2) = feed_lines process d1 b in (d2, e1 @ e2))"
      using 1 by blast
    then show ?thesis using full p feed_lines_newline [OF full(2), of process d "r @ b"]
      by (simp add: feed_lines_newline split: prod.split)
  qed
qed

interpretation model_stream: chunk_decoder feed
  by unfold_locales (simp_all add: feed_def feed_lines_no_newline feed_lines_append)

interpretation mcp_stream: chunk_decoder "feed_lines mcp_process"
  by unfold_locales (simp_all add: feed_lines_no_newline feed_lines_append)

lemma strip_cr_none: "CR \<notin> set s \<Longrightarrow> strip_cr s = s"
  by (auto simp: strip_cr_def strip_suffix_Some_iff split: option.split)

text \<open>A \<open>data:\<close> line adds its text to the event.\<close>

lemma process_data_line:
  assumes "from_utf8_lossy l = l" "CR \<notin> set l"
  shows "process_line (''data: '' @ l) d =
    (d\<lparr>data := (if has_data d then data d @ [NL] else data d) @ l, has_data := True\<rparr>, [])"
proof -
  have "from_utf8_lossy (''data: '' @ l) = ''data: '' @ l" using assms(1) by (simp add: from_utf8_lossy_ascii del: from_utf8_lossy.simps)
  moreover have "split_field (''data: '' @ l) = (''data'', l)"
    using split_once_char [of "CHR '':''" "''data''" "'' '' @ l"] by (simp add: split_field_def)
  ultimately show ?thesis using assms(2) by (simp add: process_line_def strip_cr_none del: from_utf8_lossy.simps)
qed

abbreviation data_lines :: "string list \<Rightarrow> string" where
  "data_lines ls \<equiv> concat (map (\<lambda>l. ''data: '' @ l @ [NL]) ls)"

abbreviation text_line :: "string \<Rightarrow> bool" where
  "text_line l \<equiv> from_utf8_lossy l = l \<and> NL \<notin> set l \<and> CR \<notin> set l"

lemma feed_silent_line:
  assumes "NL \<notin> set s" "line d = []" "process s d = (d', [])"
  shows "feed_lines process d (s @ NL # r) = feed_lines process d' r"
proof -
  have "d\<lparr>line := []\<rparr> = d" using assms(2) by (cases d) simp
  then have "process (line d @ s) (d\<lparr>line := []\<rparr>) = (d', [])" unfolding \<open>d\<lparr>line := []\<rparr> = d\<close> using assms(2,3) by simp
  then show ?thesis using assms(1) by (simp add: feed_lines_newline split: prod.split)
qed

lemma feed_data_lines:
  assumes "\<forall>l \<in> set ls. text_line l" "line d = []" "has_data d"
  shows "feed d (data_lines ls @ r) = feed (d\<lparr>data := data d @ concat (map (\<lambda>l. NL # l) ls)\<rparr>) r"
  using assms
proof (induction ls arbitrary: d)
  case (Cons l ls)
  let ?d = "d\<lparr>data := data d @ NL # l\<rparr>"
  have d: "d\<lparr>data := x, has_data := True\<rparr> = d\<lparr>data := x\<rparr>" for x using Cons.prems(3) by (cases d) simp
  have "process_line (''data: '' @ l) d = (?d, [])"
    using process_data_line [of l d] Cons.prems(1,3) d by simp
  then have "feed d ((''data: '' @ l) @ NL # (data_lines ls @ r)) = feed ?d (data_lines ls @ r)"
    using Cons.prems unfolding feed_def by (intro feed_silent_line) simp_all
  also have "\<dots> = feed (?d\<lparr>data := data ?d @ concat (map (\<lambda>l. NL # l) ls)\<rparr>) r"
    using Cons.prems by (intro Cons.IH) simp_all
  finally show ?case by simp
qed simp

lemma join_with_concat: "join_with [c] (x # xs) = x @ concat (map (\<lambda>l. c # l) xs)"
  by (induction xs arbitrary: x) auto

lemma feed_event:
  assumes "ls \<noteq> []" "\<forall>l \<in> set ls. text_line l"
  shows "feed new_decoder (data_lines ls @ [NL]) = (new_decoder, [\<lparr>ev_event = None, ev_data = join_with [NL] ls\<rparr>])"
proof -
  obtain l ls' where ls: "ls = l # ls'" using assms(1) by (cases ls) auto
  let ?d = "new_decoder\<lparr>data := l, has_data := True\<rparr>"
  have "process_line (''data: '' @ l) new_decoder = (?d, [])"
    using process_data_line [of l new_decoder] assms(2) ls by (simp add: new_decoder_def)
  then have "feed new_decoder ((''data: '' @ l) @ NL # (data_lines ls' @ [NL])) = feed ?d (data_lines ls' @ [NL])"
    using assms(2) ls unfolding feed_def by (intro feed_silent_line) (simp_all add: new_decoder_def)
  also have "\<dots> = feed (?d\<lparr>data := join_with [NL] ls\<rparr>) [NL]"
    using feed_data_lines [of ls' ?d "[NL]"] assms(2) ls by (simp add: new_decoder_def join_with_concat)
  also have "\<dots> = (new_decoder, [\<lparr>ev_event = None, ev_data = join_with [NL] ls\<rparr>])"
    using feed_lines_newline [of "[]" process_line "?d\<lparr>data := join_with [NL] ls\<rparr>" "[]"]
    by (simp add: feed_def feed_lines_no_newline process_line_def strip_cr_none dispatch_def new_decoder_def)
  finally show ?thesis by (simp add: ls)
qed

text \<open>What the bounded decoder of MCP says when no limit is reached.\<close>

lemma mcp_feed_Inr:
  "mcp_feed d b = (d1, Inr ev) \<longleftrightarrow>
     feed_lines mcp_process d b = (d1, ev) \<and> length (line d1) + length (mdata d1) \<le> MAX_EVENT_BYTES"
  by (auto simp: mcp_feed_def Let_def split: prod.splits if_splits)

lemma sse_messages_unbounded:
  assumes "\<not> (\<exists>e. Inl e \<in> set (sse_messages pf d (map Inr cs)))" "feed_lines mcp_process d (concat cs) = (d', evs)"
  shows "sse_messages pf d (map Inr cs) = map Inr (enqueue pf (evs @ mcp_finish d'))"
  using assms
proof (induction cs arbitrary: d evs)
  case Nil
  then show ?case by (simp add: feed_lines_no_newline enqueue_def)
next
  case (Cons c cs d evs)
  obtain d1 o1 where f: "mcp_feed d c = (d1, o1)" by fastforce
  with Cons.prems(1) obtain ev1 where o1: "o1 = Inr ev1" by (cases o1) auto
  obtain d2 ev2 where s: "feed_lines mcp_process d1 (concat cs) = (d2, ev2)" by fastforce
  have "feed_lines mcp_process d c = (d1, ev1)" using f o1 by (simp add: mcp_feed_Inr)
  then have e: "d2 = d'" "evs = ev1 @ ev2"
    using Cons.prems(2) s by (auto simp: feed_lines_append)
  have "sse_messages pf d1 (map Inr cs) = map Inr (enqueue pf (ev2 @ mcp_finish d'))"
    using Cons.prems(1) f o1 s e(1) by (intro Cons.IH) auto
  then show ?case using f o1 e(2) by (simp add: enqueue_def)
qed

text \<open>The bounded decoder never keeps more than the limit after a chunk it accepts.\<close>

lemma mcp_feed_bound: "mcp_feed d b = (d1, Inr ev) \<Longrightarrow> length (line d1) + length (mdata d1) \<le> MAX_EVENT_BYTES"
  by (simp add: mcp_feed_Inr)

section \<open>Properties\<close>

text \<open>
  C31. The events a model stream yields, and the state of its decoder, depend on the bytes received only, not on how the network
  cuts them into chunks.
\<close>

theorem event_streams_ignore_chunks:
  assumes "concat chunks = concat chunks'"
  shows "feed_all feed d chunks = feed_all feed d chunks'"
  using assms by (rule model_stream.chunks_do_not_matter)

theorem event_streams_ignore_chunks_witness:
  "feed_all feed new_decoder [''dat'', ''a: 1'' @ [NL], [NL]] = feed_all feed new_decoder [''data: 1'' @ [NL, NL]]"
  using event_streams_ignore_chunks [of "[''dat'', ''a: 1'' @ [NL], [NL]]" "[''data: 1'' @ [NL, NL]]"] by simp

text \<open>
  An event written as one \<open>data:\<close> line per line of its text and a blank line is decoded to exactly that text, and the decoder
  is ready for the next event.
\<close>

theorem events_round_trip:
  assumes "ls \<noteq> []" "\<forall>l \<in> set ls. from_utf8_lossy l = l \<and> NL \<notin> set l \<and> CR \<notin> set l"
  shows "feed new_decoder (concat (map (\<lambda>l. ''data: '' @ l @ [NL]) ls) @ [NL]) =
    (new_decoder, [\<lparr>ev_event = None, ev_data = join_with [NL] ls\<rparr>])"
  using assms by (rule feed_event)

theorem events_round_trip_witness:
  "feed new_decoder (''data: {'' @ [NL] @ ''data: }'' @ [NL, NL]) = (new_decoder, [\<lparr>ev_event = None, ev_data = ''{'' @ [NL] @ ''}''\<rparr>])"
proof -
  have "from_utf8_lossy ''{'' = ''{''" "from_utf8_lossy ''}'' = ''}''" by code_simp+
  then show ?thesis using events_round_trip [of "[''{'', ''}'']"] by (simp del: from_utf8_lossy.simps)
qed

text \<open>
  As long as no error ends the stream, the messages an MCP server sends are those of the whole byte stream: they do not depend
  on the chunks.
\<close>

theorem mcp_messages_ignore_chunks:
  assumes "concat chunks = concat chunks'"
    "\<not> (\<exists>e. Inl e \<in> set (sse_messages parse_frame new_mcp_decoder (map Inr chunks)))"
    "\<not> (\<exists>e. Inl e \<in> set (sse_messages parse_frame new_mcp_decoder (map Inr chunks')))"
  shows "sse_messages parse_frame new_mcp_decoder (map Inr chunks) = sse_messages parse_frame new_mcp_decoder (map Inr chunks')"
proof -
  obtain d evs where "feed_lines mcp_process new_mcp_decoder (concat chunks) = (d, evs)" by fastforce
  then show ?thesis using sse_messages_unbounded assms by metis
qed

theorem mcp_messages_ignore_chunks_witness:
  "sse_messages (\<lambda>s. [s]) new_mcp_decoder (map Inr [''da'', ''ta: {}'' @ [NL, NL]]) =
   sse_messages (\<lambda>s. [s]) new_mcp_decoder (map Inr [''data: {}'' @ [NL, NL]])"
proof (rule mcp_messages_ignore_chunks)
  let ?d = "new_mcp_decoder\<lparr>line := ''da''\<rparr>"
  have e: "feed_lines mcp_process new_mcp_decoder ''da'' = (?d, [])"
    "feed_lines mcp_process ?d (''ta: {}'' @ [NL, NL]) = (new_mcp_decoder, [''{}''])"
    "feed_lines mcp_process new_mcp_decoder (''data: {}'' @ [NL, NL]) = (new_mcp_decoder, [''{}''])" by code_simp+
  have "length (line new_mcp_decoder) + length (mdata new_mcp_decoder) \<le> MAX_EVENT_BYTES"
    "length (line ?d) + length (mdata ?d) \<le> MAX_EVENT_BYTES" by (simp_all add: new_mcp_decoder_def MAX_EVENT_BYTES_def)
  with e have f: "mcp_feed new_mcp_decoder ''da'' = (?d, Inr [])"
    "mcp_feed ?d (''ta: {}'' @ [NL, NL]) = (new_mcp_decoder, Inr [''{}''])"
    "mcp_feed new_mcp_decoder (''data: {}'' @ [NL, NL]) = (new_mcp_decoder, Inr [''{}''])" unfolding mcp_feed_Inr by blast+
  then show "\<not> (\<exists>e. Inl e \<in> set (sse_messages (\<lambda>s. [s]) new_mcp_decoder (map Inr [''da'', ''ta: {}'' @ [NL, NL]])))"
    "\<not> (\<exists>e. Inl e \<in> set (sse_messages (\<lambda>s. [s]) new_mcp_decoder (map Inr [''data: {}'' @ [NL, NL]])))"
    by auto
qed simp

end
