(* ===== verification/Transport.thy ===== *)
theory Transport
  imports Model_Events Sse
begin

text \<open>
  Model requests over HTTP: \<open>crates/z-engine-llm/src/retry.rs\<close> (retries before a response), \<open>transport.rs\<close> (decoding a
  response into a stream of items), \<open>client.rs\<close> (draining a stream) and \<open>fallback.rs\<close> (replaying on another model).

  reqwest is a parameter: what each send, body read and sleep of a request gives is a record \<open>attempt_env\<close>, cancellation
  included; a response is the record \<open>response\<close> of what the code asks of it. Durations are nanoseconds. The floating-point
  operations of \<open>server_delay\<close> are the record \<open>f64_ops\<close>, the text of a status is the argument \<open>status_text\<close>. A channel is a
  \<open>sink\<close>: what it delivered and how many more items its consumer takes before it leaves.
\<close>

section \<open>Errors as text (error.rs)\<close>

fun error_text :: "llm_error \<Rightarrow> string" where
  "error_text (ConfigError s) = ''provider misconfigured: '' @ s"
| "error_text (HttpError st b) = ''provider returned HTTP '' @ nat_str st @ '': '' @ b"
| "error_text (RateLimited n d) = ''rate limited after '' @ nat_str n @ '' attempts: '' @ d"
| "error_text (Overloaded n d) = ''provider overloaded after '' @ nat_str n @ '' attempts: '' @ d"
| "error_text (ConnectError n c) = ''connection failed after '' @ nat_str n @ '' attempts: '' @ c"
| "error_text (StreamError s) = ''stream interrupted: '' @ s"
| "error_text (DecodeError s) = ''could not decode provider response: '' @ s"
| "error_text LlmCancelled = ''request cancelled''"

section \<open>Retries before a response (retry.rs)\<close>

definition ERROR_BODY_LIMIT :: nat where "ERROR_BODY_LIMIT = 2000"

definition MILLIS :: nat where "MILLIS = 1000000"
definition SECONDS :: nat where "SECONDS = 1000000000"
definition DURATION_MAX :: nat where "DURATION_MAX = (2 ^ 64 - 1) * 1000000000 + 999999999"

record retry_policy =
  max_attempts :: nat
  base_backoff :: nat
  max_backoff :: nat
  max_server_delay :: nat

definition default_retry_policy :: retry_policy where
  "default_retry_policy = \<lparr>max_attempts = 5, base_backoff = 500 * MILLIS, max_backoff = 16 * SECONDS, max_server_delay = 60 * SECONDS\<rparr>"

definition backoff :: "retry_policy \<Rightarrow> nat \<Rightarrow> nat" where
  "backoff p retry =
     (let factor = min (2 ^ (retry - 1)) (2 ^ 32 - 1)
      in min (min (base_backoff p * factor) DURATION_MAX) (max_backoff p))"

text \<open>\<open>fo_number\<close> trims, parses as \<open>f64\<close> and keeps finite values that are not negative.\<close>

record 'f f64_ops =
  fo_number :: "string \<Rightarrow> 'f option"
  fo_thousandth :: "'f \<Rightarrow> 'f"
  fo_min :: "'f \<Rightarrow> 'f \<Rightarrow> 'f"
  fo_of_duration :: "nat \<Rightarrow> 'f"
  fo_to_duration :: "'f \<Rightarrow> nat"

record response =
  rs_status :: nat
  rs_header :: "string \<Rightarrow> string option"
  rs_whole :: "string + string"
  rs_chunks :: "(string + string) list"

definition server_delay :: "'f f64_ops \<Rightarrow> retry_policy \<Rightarrow> response \<Rightarrow> nat option" where
  "server_delay f p r =
     (let number = (\<lambda>name. Option.bind (rs_header r name) (fo_number f));
          seconds = (case number ''retry-after-ms'' of
              Some millis \<Rightarrow> Some (fo_thousandth f millis) | None \<Rightarrow> number ''retry-after'')
      in map_option (\<lambda>s. fo_to_duration f (fo_min f s (fo_of_duration f (max_server_delay p)))) seconds)"

record retry_notice =
  rn_attempt :: nat
  rn_delay :: nat
  rn_reason :: string

definition notice_event :: "retry_notice \<Rightarrow> model_event" where
  "notice_event n = Retrying (rn_attempt n) (min (rn_delay n div MILLIS) (2 ^ 64 - 1)) (rn_reason n)"

definition error_body :: "response \<Rightarrow> string" where
  "error_body r = (case rs_whole r of
     Inr s \<Rightarrow> concat (take ERROR_BODY_LIMIT (uchars s))
   | Inl e \<Rightarrow> ''(unreadable response body: '' @ e @ '')'')"

definition is_retryable_status :: "nat \<Rightarrow> bool" where
  "is_retryable_status st \<longleftrightarrow> st \<in> set [408, 429, 500, 502, 503, 504, 529]"

definition retry_reason :: "nat \<Rightarrow> string" where
  "retry_reason c =
     (if c = 429 then ''rate limited (HTTP '' @ nat_str c @ '')''
      else if c \<in> set [503, 529] then ''provider overloaded (HTTP '' @ nat_str c @ '')''
      else if c = 408 then ''request timed out (HTTP '' @ nat_str c @ '')''
      else ''server error (HTTP '' @ nat_str c @ '')'')"

definition status_error :: "(nat \<Rightarrow> string) \<Rightarrow> nat \<Rightarrow> string \<Rightarrow> nat \<Rightarrow> llm_error" where
  "status_error status_text st body attempts =
     (let detail = if trim body = [] then status_text st else body in
      if st = 429 then RateLimited attempts detail
      else if st \<in> set [503, 529] then Overloaded attempts detail
      else HttpError st detail)"

text \<open>What one round of the loop meets: the result of the send and where cancellation strikes.\<close>

datatype sent =
    Responded response
  | BuilderError string
  | SendError bool string

record attempt_env =
  ae_cancel_send :: bool
  ae_sent :: sent
  ae_cancel_body :: bool
  ae_cancel_sleep :: bool

definition is_success :: "response \<Rightarrow> bool" where
  "is_success r \<longleftrightarrow> 200 \<le> rs_status r \<and> rs_status r < 300"

text \<open>One round up to its retry notice: the outcome of the request, or the delay and reason of a retry.\<close>

definition attempt_once ::
  "'f f64_ops \<Rightarrow> (nat \<Rightarrow> string) \<Rightarrow> retry_policy \<Rightarrow> nat \<Rightarrow> attempt_env \<Rightarrow> (llm_error + response) + (nat \<times> string)" where
  "attempt_once f status_text p attempt env =
     (if ae_cancel_send env then Inl (Inl LlmCancelled)
      else (case ae_sent env of
          Responded r \<Rightarrow>
            (if is_success r then Inl (Inr r)
             else let delay_asked = server_delay f p r in
               if ae_cancel_body env then Inl (Inl LlmCancelled)
               else if \<not> is_retryable_status (rs_status r) \<or> attempt \<ge> max_attempts p then
                 Inl (Inl (status_error status_text (rs_status r) (error_body r) attempt))
               else Inr (case delay_asked of Some d \<Rightarrow> d | None \<Rightarrow> backoff p attempt, retry_reason (rs_status r)))
        | BuilderError e \<Rightarrow> Inl (Inl (ConfigError (''invalid request: '' @ e)))
        | SendError connect_or_timeout cause \<Rightarrow>
            (if \<not> connect_or_timeout \<or> attempt \<ge> max_attempts p then Inl (Inl (ConnectError attempt cause))
             else Inr (backoff p attempt, ''connection failed: '' @ cause))))"

lemma attempt_once_retries: "attempt_once f st p n env = Inr d \<Longrightarrow> n < max_attempts p"
  by (auto simp: attempt_once_def Let_def split: if_splits sent.splits)

function send_loop ::
  "'f f64_ops \<Rightarrow> (nat \<Rightarrow> string) \<Rightarrow> retry_policy \<Rightarrow> (nat \<Rightarrow> attempt_env) \<Rightarrow> nat \<Rightarrow> retry_notice list \<times> (llm_error + response)" where
  "send_loop f status_text p env attempt =
     (case attempt_once f status_text p attempt (env attempt) of
        Inl outcome \<Rightarrow> ([], outcome)
      | Inr (delay, why) \<Rightarrow>
          let notice = \<lparr>rn_attempt = attempt, rn_delay = delay, rn_reason = why\<rparr> in
          if ae_cancel_sleep (env attempt) then ([notice], Inl LlmCancelled)
          else let (notices, outcome) = send_loop f status_text p env (attempt + 1) in (notice # notices, outcome))"
  by pat_completeness auto
termination
  by (relation "measure (\<lambda>(_, _, p, _, attempt). max_attempts p - attempt)") (auto dest!: attempt_once_retries)

declare send_loop.simps [simp del]

definition send_with_retry ::
  "'f f64_ops \<Rightarrow> (nat \<Rightarrow> string) \<Rightarrow> retry_policy \<Rightarrow> (nat \<Rightarrow> attempt_env) \<Rightarrow> retry_notice list \<times> (llm_error + response)" where
  "send_with_retry f status_text p env = send_loop f status_text p env 1"

section \<open>Streams of items (transport.rs)\<close>

type_synonym stream_item = "llm_error + model_event"

definition ends_stream :: "stream_item \<Rightarrow> bool" where
  "ends_stream item = (case item of Inr (StopEvent _) \<Rightarrow> True | Inl _ \<Rightarrow> True | _ \<Rightarrow> False)"

record sink =
  sk_delivered :: "stream_item list"
  sk_left :: "nat option"

definition open_sink :: sink where "open_sink = \<lparr>sk_delivered = [], sk_left = None\<rparr>"

text \<open>\<open>tx.send\<close>: whether the item was taken.\<close>

definition send_item :: "sink \<Rightarrow> stream_item \<Rightarrow> sink \<times> bool" where
  "send_item s item =
     (case sk_left s of
        None \<Rightarrow> (s\<lparr>sk_delivered := sk_delivered s @ [item]\<rparr>, True)
      | Some 0 \<Rightarrow> (s, False)
      | Some (Suc n) \<Rightarrow> (s\<lparr>sk_delivered := sk_delivered s @ [item], sk_left := Some n\<rparr>, True))"

fun forward :: "sink \<Rightarrow> stream_item list \<Rightarrow> sink \<times> bool" where
  "forward s [] = (s, False)"
| "forward s (item # items) =
     (let (s1, taken) = send_item s item in
      if \<not> taken \<or> ends_stream item then (s1, True) else forward s1 items)"

text \<open>The trait \<open>StreamParser\<close>, with its parser as explicit state.\<close>

record 'p stream_parser =
  sp_push :: "'p \<Rightarrow> sse_event \<Rightarrow> 'p \<times> stream_item list"
  sp_finish :: "'p \<Rightarrow> 'p \<times> stream_item list"

definition is_json :: "response \<Rightarrow> bool" where
  "is_json r = (case rs_header r ''content-type'' of
     Some v \<Rightarrow> starts_with ''application/json'' (trim_start v) | None \<Rightarrow> False)"

fun push_events :: "'p stream_parser \<Rightarrow> 'p \<Rightarrow> sink \<Rightarrow> sse_event list \<Rightarrow> 'p \<times> sink \<times> bool" where
  "push_events ops p s [] = (p, s, False)"
| "push_events ops p s (e # es) =
     (let (p1, items) = sp_push ops p e; (s1, stop) = forward s items in
      if stop then (p1, s1, True) else push_events ops p1 s1 es)"

text \<open>The loop over the chunks of the body and what follows it.\<close>

fun read_body :: "'p stream_parser \<Rightarrow> 'p \<Rightarrow> sse_decoder \<Rightarrow> sink \<Rightarrow> (string + string) list \<Rightarrow> sink" where
  "read_body ops p d s (Inr bytes # chunks) =
     (let (d1, events) = feed d bytes; (p1, s1, stop) = push_events ops p s events in
      if stop then s1 else read_body ops p1 d1 s1 chunks)"
| "read_body ops p d s (Inl cause # chunks) = fst (forward s [Inl (StreamError cause)])"
| "read_body ops p d s [] =
     (let (d1, events) = finish_decoder d; (p1, s1, stop) = push_events ops p s events in
      if stop then s1 else fst (forward s1 (snd (sp_finish ops p1))))"

definition json_items :: "'p stream_parser \<Rightarrow> 'p \<Rightarrow> response \<Rightarrow> stream_item list" where
  "json_items ops p r =
     (case rs_whole r of
        Inr body \<Rightarrow>
          (let (p1, items) = sp_push ops p \<lparr>ev_event = None, ev_data = body\<rparr> in
           if list_ex ends_stream items then items else items @ snd (sp_finish ops p1))
      | Inl e \<Rightarrow> [Inl (StreamError e)])"

definition run_response :: "'p stream_parser \<Rightarrow> 'p \<Rightarrow> sink \<Rightarrow> llm_error + response \<Rightarrow> sink" where
  "run_response ops p s sent =
     (case sent of
        Inl e \<Rightarrow> fst (forward s [Inl e])
      | Inr r \<Rightarrow>
          if is_json r then fst (forward s (json_items ops p r))
          else read_body ops p new_decoder s (rs_chunks r))"

definition run_stream ::
  "'f f64_ops \<Rightarrow> (nat \<Rightarrow> string) \<Rightarrow> retry_policy \<Rightarrow> (nat \<Rightarrow> attempt_env) \<Rightarrow> 'p stream_parser \<Rightarrow> 'p \<Rightarrow> sink \<Rightarrow> sink" where
  "run_stream f status_text policy env ops p s =
     (let (notices, sent) = send_with_retry f status_text policy env;
          s1 = foldl (\<lambda>s n. fst (send_item s (Inr (notice_event n)))) s notices
      in run_response ops p s1 sent)"

text \<open>
  \<open>spawn_stream\<close>: cancellation may end the run after any number of its items; its error goes out only when the channel has
  room for it.
\<close>

definition spawn_stream :: "(nat \<times> bool) option \<Rightarrow> stream_item list \<Rightarrow> stream_item list" where
  "spawn_stream cancelled items =
     (case cancelled of
        None \<Rightarrow> items
      | Some (sent, has_room) \<Rightarrow>
          if sent < length items then take sent items @ (if has_room then [Inl LlmCancelled] else []) else items)"

section \<open>Draining a stream (client.rs)\<close>

fun collect_loop :: "(nat \<Rightarrow> string) \<Rightarrow> accumulator \<Rightarrow> stream_item list \<Rightarrow> llm_error + accumulator" where
  "collect_loop fresh a [] = Inr a"
| "collect_loop fresh a (Inl e # items) = Inl e"
| "collect_loop fresh a (Inr ev # items) = collect_loop fresh (absorb fresh a ev) items"

definition collect ::
  "(string \<Rightarrow> string + json) \<Rightarrow> (json \<Rightarrow> string) \<Rightarrow> (nat \<Rightarrow> string) \<Rightarrow> stream_item list \<Rightarrow> llm_error + assistant_turn" where
  "collect parse_json json_text fresh items =
     map_sum id (finish_turn parse_json json_text) (collect_loop fresh new_accumulator items)"

section \<open>Falling back to another model (fallback.rs)\<close>

definition is_content :: "model_event \<Rightarrow> bool" where
  "is_content e = (case e of
     TextDelta _ \<Rightarrow> True | ThinkingDelta _ \<Rightarrow> True | ToolUseStart _ _ _ \<Rightarrow> True | RedactedDelta _ \<Rightarrow> True | _ \<Rightarrow> False)"

text \<open>The inner loop over one stream: its error with whether content was streamed, or nothing more to do.\<close>

fun relay :: "bool \<Rightarrow> sink \<Rightarrow> stream_item list \<Rightarrow> sink \<times> (bool \<times> llm_error) option" where
  "relay content s [] = (s, None)"
| "relay content s (Inl e # items) = (s, Some (content, e))"
| "relay content s (Inr ev # items) =
     (let (s1, taken) = send_item s (Inr ev) in
      if taken then relay (content \<or> is_content ev) s1 items else (s1, None))"

definition fallback_notice :: "nat \<Rightarrow> string \<Rightarrow> llm_error \<Rightarrow> model_event" where
  "fallback_notice attempt model e = Retrying attempt 0 (''falling back to '' @ model @ '': '' @ error_text e)"

fun fallback_run ::
  "(nat \<Rightarrow> string \<Rightarrow> stream_item list) \<Rightarrow> (nat \<Rightarrow> bool) \<Rightarrow> nat \<Rightarrow> string \<Rightarrow> string list \<Rightarrow> sink \<Rightarrow> sink" where
  "fallback_run inner cancelled attempt model [] s =
     (case relay False s (inner attempt model) of
        (s1, None) \<Rightarrow> s1
      | (s1, Some (content, e)) \<Rightarrow> fst (send_item s1 (Inl e)))"
| "fallback_run inner cancelled attempt model (m # ms) s =
     (case relay False s (inner attempt model) of
        (s1, None) \<Rightarrow> s1
      | (s1, Some (content, e)) \<Rightarrow>
          if \<not> content \<and> is_retryable e \<and> \<not> cancelled attempt then
            (let (s2, taken) = send_item s1 (Inr (fallback_notice (attempt + 1) m e)) in
             if taken then fallback_run inner cancelled (attempt + 1) m ms s2 else s2)
          else fst (send_item s1 (Inl e)))"

definition fallback_stream ::
  "(nat \<Rightarrow> string \<Rightarrow> stream_item list) \<Rightarrow> (nat \<Rightarrow> bool) \<Rightarrow> string \<Rightarrow> string list \<Rightarrow> stream_item list" where
  "fallback_stream inner cancelled model fallbacks =
     (if fallbacks = [] then inner 0 model
      else sk_delivered (fallback_run inner cancelled 0 model fallbacks open_sink))"


section \<open>Lemmas on retries\<close>

definition transient :: "sent \<Rightarrow> bool" where
  "transient s = (case s of
     Responded r \<Rightarrow> \<not> is_success r \<and> is_retryable_status (rs_status r)
   | BuilderError _ \<Rightarrow> False
   | SendError connect_or_timeout _ \<Rightarrow> connect_or_timeout)"

text \<open>The floating-point law the delay rests on: the minimum with the cap converts back to at most the cap.\<close>

definition caps_delay :: "'f f64_ops \<Rightarrow> retry_policy \<Rightarrow> bool" where
  "caps_delay f p \<longleftrightarrow> (\<forall>x. fo_to_duration f (fo_min f x (fo_of_duration f (max_server_delay p))) \<le> max_server_delay p)"

lemma attempt_once_delay:
  assumes "caps_delay f p" "attempt_once f st p n env = Inr (d, why)"
  shows "d \<le> max (max_backoff p) (max_server_delay p)" "transient (ae_sent env)"
proof -
  have b: "backoff p n \<le> max_backoff p" by (simp add: backoff_def Let_def)
  have s: "d' \<le> max_server_delay p" if "server_delay f p r = Some d'" for r d'
    using assms(1) that by (auto simp: server_delay_def Let_def caps_delay_def)
  show "transient (ae_sent env)"
    using assms(2) by (auto simp: attempt_once_def Let_def transient_def split: if_splits sent.splits)
  show "d \<le> max (max_backoff p) (max_server_delay p)"
    using assms(2) b by (auto simp: attempt_once_def Let_def le_max_iff_disj split: if_splits sent.splits option.splits dest: s)
qed

lemma attempt_once_Inr_response:
  "attempt_once f st p n env = Inl (Inr r) \<Longrightarrow> is_success r \<and> ae_sent env = Responded r"
  by (auto simp: attempt_once_def Let_def split: if_splits sent.splits)

lemma attempt_once_failure:
  "attempt_once f st p n env = Inl (Inl e) \<Longrightarrow> e = LlmCancelled \<or> \<not> transient (ae_sent env) \<or> n \<ge> max_attempts p"
  by (auto simp: attempt_once_def Let_def transient_def split: if_splits sent.splits)

lemma send_loop_spec:
  assumes "caps_delay f p" "send_loop f st p env a = (ns, r)"
  shows "map rn_attempt ns = [a ..< a + length ns] \<and> a + length ns \<le> max a (max_attempts p) \<and>
    (\<forall>n \<in> set ns. transient (ae_sent (env (rn_attempt n))) \<and> rn_delay n \<le> max (max_backoff p) (max_server_delay p)) \<and>
    (case r of
       Inr resp \<Rightarrow> is_success resp \<and> ae_sent (env (a + length ns)) = Responded resp
     | Inl e \<Rightarrow> e = LlmCancelled \<or> \<not> transient (ae_sent (env (a + length ns))) \<or> a + length ns \<ge> max_attempts p)"
  using assms(2)
proof (induction "max_attempts p - a" arbitrary: a ns r rule: less_induct)
  case less
  show ?case
  proof (cases "attempt_once f st p a (env a)")
    case (Inl out)
    then have "ns = [] \<and> r = out" using less.prems by (simp add: send_loop.simps)
    then show ?thesis using Inl attempt_once_Inr_response attempt_once_failure by (fastforce split: sum.splits)
  next
    case (Inr dw)
    obtain d why where dw: "dw = (d, why)" by fastforce
    note bound = attempt_once_delay [OF assms(1) Inr [unfolded dw]]
    have lt: "a < max_attempts p" using Inr attempt_once_retries by fastforce
    let ?n = "\<lparr>rn_attempt = a, rn_delay = d, rn_reason = why\<rparr>"
    show ?thesis
    proof (cases "ae_cancel_sleep (env a)")
      case True
      then have "ns = [?n] \<and> r = Inl LlmCancelled" using less.prems Inr dw by (simp add: send_loop.simps [of f st p env a])
      then show ?thesis using bound lt by auto
    next
      case False
      obtain ms q where rec: "send_loop f st p env (Suc a) = (ms, q)" by fastforce
      then have ns: "ns = ?n # ms" "r = q" using less.prems Inr dw False by (simp_all add: send_loop.simps [of f st p env a])
      from less.hyps [OF _ rec] lt have ih: "map rn_attempt ms = [Suc a ..< Suc a + length ms]"
        "Suc a + length ms \<le> max (Suc a) (max_attempts p)"
        "\<forall>n \<in> set ms. transient (ae_sent (env (rn_attempt n))) \<and> rn_delay n \<le> max (max_backoff p) (max_server_delay p)"
        "case q of Inr resp \<Rightarrow> is_success resp \<and> ae_sent (env (Suc a + length ms)) = Responded resp
          | Inl e \<Rightarrow> e = LlmCancelled \<or> \<not> transient (ae_sent (env (Suc a + length ms))) \<or> Suc a + length ms \<ge> max_attempts p"
        by auto
      have "[a ..< a + length ns] = a # [Suc a ..< Suc a + length ms]" 
        using upt_conv_Cons [of a "a + length ns"] by (simp add: ns del: upt_Suc)
      then show ?thesis using ih bound lt by (auto simp: ns split: sum.splits)
    qed
  qed
qed

section \<open>Lemmas on streams\<close>

text \<open>The contract of \<open>ModelClient::stream\<close>: a stream ends with one stop or error and has neither before.\<close>

definition ends_once :: "stream_item list \<Rightarrow> bool" where
  "ends_once items \<longleftrightarrow> items \<noteq> [] \<and> ends_stream (last items) \<and> \<not> list_ex ends_stream (butlast items)"

text \<open>Nothing terminal is out yet; what a stream is when its run is over, for a consumer that stays or leaves.\<close>

definition going :: "sink \<Rightarrow> bool" where
  "going s \<longleftrightarrow> \<not> list_ex ends_stream (sk_delivered s)"

definition settled :: "bool \<Rightarrow> sink \<Rightarrow> bool" where
  "settled stays s \<longleftrightarrow> \<not> list_ex ends_stream (butlast (sk_delivered s)) \<and> (stays \<longrightarrow> ends_once (sk_delivered s))"

lemma settled_ends [simp]: "settled True s \<longleftrightarrow> ends_once (sk_delivered s)"
  by (auto simp: settled_def ends_once_def)

lemma open_sink_going [simp]: "going open_sink" "sk_left open_sink = None" "sk_delivered open_sink = []"
  by (simp_all add: open_sink_def going_def)

lemma going_settled: "going s \<Longrightarrow> settled False s"
  by (auto simp: going_def settled_def list_ex_iff dest: in_set_butlastD)

lemma send_item_stays: "sk_left s = None \<Longrightarrow> send_item s i = (s\<lparr>sk_delivered := sk_delivered s @ [i]\<rparr>, True)"
  by (simp add: send_item_def)

lemma send_item_cases:
  assumes "send_item s i = (s1, taken)"
  shows "(if taken then sk_delivered s1 = sk_delivered s @ [i] else s1 = s \<and> sk_left s \<noteq> None)"
    "sk_left s1 = None \<longleftrightarrow> sk_left s = None"
  using assms by (auto simp: send_item_def split: option.splits nat.splits)

lemma forward_spec:
  assumes "going s" "forward s items = (s1, stop)"
  shows "(if stop then settled (sk_left s = None) s1 else going s1 \<and> \<not> list_ex ends_stream items)"
    "sk_left s1 = None \<longleftrightarrow> sk_left s = None"
  using assms
proof (induction s items arbitrary: s1 stop rule: forward.induct)
  case (1 s)
  { case 1 then show ?case by simp next case 2 then show ?case by simp }
next
  case (2 s item items)
  obtain t taken where t: "send_item s item = (t, taken)" by fastforce
  note c = send_item_cases [OF t]
  { case 1
    show ?case
    proof (cases "\<not> taken \<or> ends_stream item")
      case True
      then have "s1 = t" "stop" using 1 t by auto
      moreover have "settled (sk_left s = None) t"
        using True c 1(1) going_settled [OF 1(1)] by (cases taken) (auto simp: settled_def going_def ends_once_def)
      ultimately show ?thesis by simp
    next
      case False
      then have "going t" using c 1(1) by (auto simp: going_def)
      then show ?thesis using 2(1) [OF t [symmetric] refl] 1 t False c by (auto split: if_splits)
    qed
  next
    case 2
    show ?case
    proof (cases "\<not> taken \<or> ends_stream item")
      case True then show ?thesis using 2 t c by auto
    next
      case False
      then have "going t" using c 2(1) by (auto simp: going_def)
      then show ?thesis using "2.IH"(2) [OF t [symmetric] refl] 2 t False c by auto
    qed
  }
qed


subsection \<open>The contract of a parser\<close>

locale closing_parser =
  fixes ops :: "'p stream_parser"
  assumes closes: "list_ex ends_stream (snd (sp_finish ops p))"
begin

lemma push_events_spec:
  assumes "going s" "push_events ops p s es = (p1, s1, stop)"
  shows "(if stop then settled (sk_left s = None) s1 else going s1) \<and> (sk_left s1 = None \<longleftrightarrow> sk_left s = None)"
  using assms
proof (induction es arbitrary: p s)
  case (Cons e es)
  obtain q items where q: "sp_push ops p e = (q, items)" by fastforce
  obtain t st where t: "forward s items = (t, st)" by fastforce
  note f = forward_spec [OF Cons.prems(1) t]
  show ?case
  proof (cases st)
    case True
    then show ?thesis using Cons.prems f q t by auto
  next
    case False
    then show ?thesis using Cons.IH [of t q] Cons.prems f q t by auto
  qed
qed auto

lemma forward_closing:
  assumes "going s" "list_ex ends_stream items"
  shows "settled (sk_left s = None) (fst (forward s items))"
proof -
  obtain t st where t: "forward s items = (t, st)" by fastforce
  show ?thesis using forward_spec [OF assms(1) t] t assms(2) by (auto split: if_splits)
qed

lemma read_body_spec: "going s \<Longrightarrow> settled (sk_left s = None) (read_body ops p d s chunks)"
proof (induction chunks arbitrary: p d s)
  case Nil
  obtain d1 es where d1: "finish_decoder d = (d1, es)" by fastforce
  obtain p1 s1 st where p1: "push_events ops p s es = (p1, s1, st)" by (metis prod_cases3)
  show ?case using push_events_spec [OF Nil p1] d1 p1 forward_closing [OF _ closes, of s1 p1] by (auto split: if_splits)
next
  case (Cons c chunks)
  show ?case
  proof (cases c)
    case (Inl cause)
    have "list_ex ends_stream [Inl (StreamError cause)]" by (simp add: ends_stream_def)
    from forward_closing [OF Cons.prems this] Inl show ?thesis by simp
  next
    case (Inr bytes)
    obtain d1 es where d1: "feed d bytes = (d1, es)" by fastforce
    obtain p1 s1 st where p1: "push_events ops p s es = (p1, s1, st)" by (metis prod_cases3)
    show ?thesis
    proof (cases st)
      case True
      then show ?thesis using push_events_spec [OF Cons.prems p1] d1 p1 Inr by simp
    next
      case False
      with push_events_spec [OF Cons.prems p1] have "going s1" "(sk_left s1 = None) = (sk_left s = None)" by auto
      then show ?thesis using Cons.IH [of s1 p1 d1] d1 p1 Inr False by simp
    qed
  qed
qed

lemma json_items_close: "list_ex ends_stream (json_items ops p r)"
  using closes by (auto simp: json_items_def ends_stream_def [of "Inl _"] split: sum.splits prod.splits)

lemma run_response_spec:
  assumes "going s"
  shows "settled (sk_left s = None) (run_response ops p s outcome)"
  using forward_closing [OF assms, of "[Inl _]"] forward_closing [OF assms json_items_close] read_body_spec [OF assms]
  by (auto simp: run_response_def ends_stream_def split: sum.splits)

lemma run_stream_spec:
  assumes "going s"
  shows "settled (sk_left s = None) (run_stream f st policy env ops p s)"
proof -
  have "going (foldl (\<lambda>s n. fst (send_item s (Inr (notice_event n)))) s ns) \<and>
      (sk_left (foldl (\<lambda>s n. fst (send_item s (Inr (notice_event n)))) s ns) = None \<longleftrightarrow> sk_left s = None)" for ns
    using assms
  proof (induction ns arbitrary: s)
    case (Cons n ns)
    obtain t k where t: "send_item s (Inr (notice_event n)) = (t, k)" by fastforce
    have "going t \<and> (sk_left t = None \<longleftrightarrow> sk_left s = None)"
      using send_item_cases [OF t] Cons.prems by (auto simp: going_def notice_event_def ends_stream_def split: if_splits)
    then show ?case using Cons.IH [of t] t by simp
  qed simp
  note kept = this
  obtain ns outcome where "send_with_retry f st policy env = (ns, outcome)" by fastforce
  then show ?thesis
    using kept [of ns] run_response_spec [of "foldl (\<lambda>s n. fst (send_item s (Inr (notice_event n)))) s ns" p outcome]
    by (simp add: run_stream_def)
qed

end

subsection \<open>The chunks of a response do not matter\<close>

lemma push_events_append:
  "push_events ops p s (es @ fs) =
     (let (p1, s1, stop) = push_events ops p s es in if stop then (p1, s1, True) else push_events ops p1 s1 fs)"
  by (induction es arbitrary: p s) (auto split: prod.splits)

lemma read_body_feed_all:
  "read_body ops p d s (map Inr chunks) =
     (let (d1, es) = feed_all feed d chunks; (p1, s1, stop) = push_events ops p s es in
      if stop then s1 else read_body ops p1 d1 s1 [])"
  by (induction chunks arbitrary: p d s) (auto simp: push_events_append Let_def split: prod.splits)

section \<open>Lemmas on fallback\<close>

text \<open>The events of a stream up to its first error, and this error.\<close>

fun until_error :: "stream_item list \<Rightarrow> model_event list \<times> llm_error option" where
  "until_error [] = ([], None)"
| "until_error (Inl e # items) = ([], Some e)"
| "until_error (Inr ev # items) = (let (evs, err) = until_error items in (ev # evs, err))"

lemma relay_stays:
  "sk_left s = None \<Longrightarrow>
   relay c s items = (s\<lparr>sk_delivered := sk_delivered s @ map Inr (fst (until_error items))\<rparr>,
     map_option (\<lambda>e. (c \<or> list_ex is_content (fst (until_error items)), e)) (snd (until_error items)))"
proof (induction items arbitrary: c s)
  case (Cons i items)
  show ?case
  proof (cases i)
    case (Inr ev)
    obtain evs err where u: "until_error items = (evs, err)" by fastforce
    let ?t = "s\<lparr>sk_delivered := sk_delivered s @ [Inr ev]\<rparr>"
    have "sk_left ?t = None" using Cons.prems by simp
    from Cons.IH [OF this, of "c \<or> is_content ev"] show ?thesis
      using Cons.prems Inr u by (cases err) (simp_all add: send_item_stays disj_ac)
  qed simp
qed simp

lemma ends_once_until_error:
  assumes "ends_once items"
  shows "items = map Inr (fst (until_error items)) @ (case snd (until_error items) of Some e \<Rightarrow> [Inl e] | None \<Rightarrow> [])"
    "snd (until_error items) \<noteq> None \<Longrightarrow> \<not> list_ex (\<lambda>e. ends_stream (Inr e)) (fst (until_error items))"
  using assms
proof (induction items)
  case (Cons i items)
  { case 1
    show ?case
    proof (cases "items = []")
      case True then show ?thesis by (cases i) auto
    next
      case False
      then have "ends_once items" "\<not> ends_stream i" using 1 by (auto simp: ends_once_def)
      then show ?thesis using Cons(1) by (cases i) (auto simp: ends_stream_def split: prod.splits option.splits)
    qed
  next
    case 2
    show ?case
    proof (cases "items = []")
      case True then show ?thesis using 2 by (cases i) auto
    next
      case False
      then have "ends_once items" "\<not> ends_stream i" using 2 by (auto simp: ends_once_def)
      then show ?thesis using Cons(2) 2(1) by (cases i) (auto split: prod.splits option.splits)
    qed
  }
qed (simp_all add: ends_once_def)


text \<open>
  A fallback run, attempt by attempt: the attempts \<open>failed\<close> before the last one, each with its events and its error, and
  what the consumer got from them.
\<close>

definition replayed :: "(nat \<Rightarrow> string \<Rightarrow> stream_item list) \<Rightarrow> (nat \<Rightarrow> bool) \<Rightarrow> nat \<Rightarrow> string list \<Rightarrow> nat \<Rightarrow> bool" where
  "replayed inner cancelled a models n \<longleftrightarrow>
     (\<forall>k < n. \<exists>evs e. until_error (inner (a + k) (models ! k)) = (evs, Some e) \<and>
        \<not> list_ex is_content evs \<and> is_retryable e \<and> \<not> cancelled (a + k))"

definition replay_items :: "(nat \<Rightarrow> string \<Rightarrow> stream_item list) \<Rightarrow> nat \<Rightarrow> string list \<Rightarrow> nat \<Rightarrow> stream_item list" where
  "replay_items inner a models n =
     concat (map (\<lambda>k. case until_error (inner (a + k) (models ! k)) of
         (evs, Some e) \<Rightarrow> map Inr evs @ [Inr (fallback_notice (a + k + 1) (models ! Suc k) e)]
       | (evs, None) \<Rightarrow> map Inr evs) [0 ..< n])"

lemma replay_items_Suc:
  "replay_items inner a (m # models) (Suc n) =
     (case until_error (inner a m) of
        (evs, Some e) \<Rightarrow> map Inr evs @ [Inr (fallback_notice (a + 1) (models ! 0) e)]
      | (evs, None) \<Rightarrow> map Inr evs) @ replay_items inner (Suc a) models n"
proof -
  have "[0 ..< Suc n] = 0 # map Suc [0 ..< n]" by (simp add: map_Suc_upt upt_conv_Cons del: upt_Suc)
  then show ?thesis by (simp add: replay_items_def comp_def split: prod.splits option.splits del: upt_Suc)
qed

lemma in_concat_upt: "i \<in> set (concat (map f [0 ..< n])) \<longleftrightarrow> (\<exists>k < n. i \<in> set (f k))"
  by auto

locale model_client =
  fixes stream :: "nat \<Rightarrow> string \<Rightarrow> stream_item list"
  assumes contract: "ends_once (stream n m)"
begin

lemma fallback_run_spec:
  assumes "sk_left s = None"
  shows "\<exists>n \<le> length fallbacks. replayed stream cancelled a (model # fallbacks) n \<and>
    sk_delivered (fallback_run stream cancelled a model fallbacks s) =
      sk_delivered s @ replay_items stream a (model # fallbacks) n @ stream (a + n) ((model # fallbacks) ! n)"
  using assms
proof (induction fallbacks arbitrary: a model s)
  case Nil
  have "sk_delivered (fallback_run stream cancelled a model [] s) = sk_delivered s @ stream a model"
    using ends_once_until_error(1) [OF contract [of a model]] Nil
    by (auto simp: relay_stays send_item_stays split: option.splits)
  then show ?case by (simp add: replayed_def replay_items_def)
next
  case (Cons m ms)
  obtain evs err where u: "until_error (stream a model) = (evs, err)" by fastforce
  note whole = ends_once_until_error(1) [OF contract [of a model]]
  show ?case
  proof (cases "\<exists>e. err = Some e \<and> \<not> list_ex is_content evs \<and> is_retryable e \<and> \<not> cancelled a")
    case False
    then have "sk_delivered (fallback_run stream cancelled a model (m # ms) s) = sk_delivered s @ stream a model"
      using whole Cons.prems u by (auto simp: relay_stays send_item_stays split: option.splits)
    then have "0 \<le> length (m # ms) \<and> replayed stream cancelled a (model # m # ms) 0 \<and>
      sk_delivered (fallback_run stream cancelled a model (m # ms) s) =
        sk_delivered s @ replay_items stream a (model # m # ms) 0 @ stream (a + 0) ((model # m # ms) ! 0)"
      by (simp add: replayed_def replay_items_def)
    then show ?thesis by blast
  next
    case True
    then obtain e where e: "err = Some e" "\<not> list_ex is_content evs" "is_retryable e" "\<not> cancelled a" by blast
    let ?t = "s\<lparr>sk_delivered := sk_delivered s @ map Inr evs @ [Inr (fallback_notice (a + 1) m e)]\<rparr>"
    have run: "fallback_run stream cancelled a model (m # ms) s = fallback_run stream cancelled (Suc a) m ms ?t"
      using Cons.prems u e by (simp add: relay_stays send_item_stays)
    have "sk_left ?t = None" using Cons.prems by simp
    from Cons.IH [OF this, of "Suc a" m] obtain n where n: "n \<le> length ms" "replayed stream cancelled (Suc a) (m # ms) n"
      "sk_delivered (fallback_run stream cancelled (Suc a) m ms ?t) =
         sk_delivered ?t @ replay_items stream (Suc a) (m # ms) n @ stream (Suc a + n) ((m # ms) ! n)" by blast
    have "replayed stream cancelled a (model # m # ms) (Suc n)"
      using n(2) u e by (auto simp: replayed_def less_Suc_eq_0_disj)
    moreover have "replay_items stream a (model # m # ms) (Suc n) =
        map Inr evs @ [Inr (fallback_notice (a + 1) m e)] @ replay_items stream (Suc a) (m # ms) n"
      by (simp add: replay_items_Suc u e)
    ultimately show ?thesis using n run by (intro exI [of _ "Suc n"]) simp
  qed
qed

lemma fallback_stream_spec:
  "\<exists>n \<le> length fallbacks. replayed stream cancelled 0 (model # fallbacks) n \<and>
    fallback_stream stream cancelled model fallbacks =
      replay_items stream 0 (model # fallbacks) n @ stream n ((model # fallbacks) ! n)"
proof (cases "fallbacks = []")
  case True
  then show ?thesis by (simp add: fallback_stream_def replayed_def replay_items_def)
next
  case False
  then show ?thesis using fallback_run_spec [of open_sink fallbacks cancelled 0 model] by (simp add: fallback_stream_def)
qed

lemma replay_items_go_on: "replayed stream cancelled a models n \<Longrightarrow> \<not> list_ex ends_stream (replay_items stream a models n)"
proof -
  assume r: "replayed stream cancelled a models n"
  have "\<not> ends_stream i" if "i \<in> set (replay_items stream a models n)" for i
  proof -
    from that obtain k where k: "k < n" "i \<in> set (case until_error (stream (a + k) (models ! k)) of
         (evs, Some e) \<Rightarrow> map Inr evs @ [Inr (fallback_notice (a + k + 1) (models ! Suc k) e)] | (evs, None) \<Rightarrow> map Inr evs)"
      using that unfolding replay_items_def in_concat_upt by blast
    from r k(1) obtain evs e where u: "until_error (stream (a + k) (models ! k)) = (evs, Some e)" by (auto simp: replayed_def)
    have "\<not> list_ex (\<lambda>e. ends_stream (Inr e)) evs"
      using ends_once_until_error(2) [OF contract [of "a + k" "models ! k"]] u by simp
    then show ?thesis using k(2) u by (auto simp: list_ex_iff fallback_notice_def ends_stream_def [of "Inr (Retrying _ _ _)"])
  qed
  then show ?thesis by (auto simp: list_ex_iff)
qed

lemma ends_once_append: "\<not> list_ex ends_stream xs \<Longrightarrow> ends_once ys \<Longrightarrow> ends_once (xs @ ys)"
  by (auto simp: ends_once_def butlast_append)

lemma fallback_contract: "ends_once (fallback_stream stream cancelled model fallbacks)"
  using fallback_stream_spec [of fallbacks cancelled model] replay_items_go_on ends_once_append contract by metis

end


subsection \<open>What failed attempts leave in the response\<close>

text \<open>Events that add to a response although they are no content for \<open>is_content\<close>; streams that have content before them.\<close>

definition continues :: "model_event \<Rightarrow> bool" where
  "continues e = (case e of ThinkingSignature _ \<Rightarrow> True | ToolUseDelta _ _ \<Rightarrow> True | _ \<Rightarrow> False)"

fun content_first :: "stream_item list \<Rightarrow> bool" where
  "content_first [] = True"
| "content_first (Inl e # items) = True"
| "content_first (Inr ev # items) = (is_content ev \<or> \<not> continues ev \<and> content_first items)"

definition same_blocks :: "accumulator \<Rightarrow> accumulator \<Rightarrow> bool" where
  "same_blocks a b \<longleftrightarrow> ac_blocks a = ac_blocks b \<and> ac_tools a = ac_tools b"

lemma absorb_silent: "\<not> is_content e \<Longrightarrow> \<not> continues e \<Longrightarrow> same_blocks (absorb fresh a e) a"
  by (cases e) (simp_all add: is_content_def continues_def same_blocks_def)

lemma absorb_all_silent:
  "content_first items \<Longrightarrow> \<not> list_ex is_content (fst (until_error items)) \<Longrightarrow>
   same_blocks (absorb_all fresh a (fst (until_error items))) a"
proof (induction items arbitrary: a rule: until_error.induct)
  case (3 ev items)
  obtain evs err where u: "until_error items = (evs, err)" by fastforce
  have "same_blocks (absorb_all fresh (absorb fresh a ev) evs) (absorb fresh a ev)"
    using 3 u by auto
  moreover have "same_blocks (absorb fresh a ev) a" using 3 u by (intro absorb_silent) auto
  ultimately show ?case using u by (simp add: same_blocks_def)
qed (simp_all add: same_blocks_def)

lemma same_blocks_absorb: "same_blocks a b \<Longrightarrow> same_blocks (absorb fresh a e) (absorb fresh b e)"
proof -
  assume s: "same_blocks a b"
  then have l: "last_block a = last_block b" by (simp add: same_blocks_def last_block_def)
  have step: "same_blocks (push_block x a) (push_block x b)" "same_blocks (set_last x a) (set_last x b)"
    "same_blocks (open_tool i n nm a) (open_tool i n nm b)" for x i n nm
    using s by (simp_all add: same_blocks_def push_block_def set_last_def open_tool_def)
  have ext: "same_blocks (extend_tool k part c) (extend_tool k part d)" if "same_blocks c d" for k part c d
    using that by (auto simp: same_blocks_def extend_tool_def split: building.splits)
  show ?thesis
  proof (cases e)
    case (ToolUseDelta i part)
    then show ?thesis using s step(3) ext by (auto simp: same_blocks_def [of a b] split: option.splits)
  qed (use s l step in \<open>auto simp: same_blocks_def [of "_\<lparr>ac_usage := _\<rparr>"] same_blocks_def [of "_\<lparr>ac_stop := _\<rparr>"]
      same_blocks_def [of a b] split: option.splits building.splits\<close>)
qed

lemma collect_loop_events: "collect_loop fresh a (map Inr evs @ items) = collect_loop fresh (absorb_all fresh a evs) items"
  by (induction evs arbitrary: a) simp_all

lemma same_blocks_collect:
  "same_blocks a b \<Longrightarrow>
   (\<exists>e. collect_loop fresh a items = Inl e \<and> collect_loop fresh b items = Inl e) \<or>
   (\<exists>c d. collect_loop fresh a items = Inr c \<and> collect_loop fresh b items = Inr d \<and> same_blocks c d)"
  by (induction fresh a items arbitrary: b rule: collect_loop.induct) (auto simp: same_blocks_absorb)

lemma same_blocks_finish:
  "same_blocks a b \<Longrightarrow> at_content (finish_turn pj jt a) = at_content (finish_turn pj jt b) \<and>
     at_malformed (finish_turn pj jt a) = at_malformed (finish_turn pj jt b)"
  by (simp add: same_blocks_def finish_turn_def Let_def)

definition turn_answer :: "llm_error + assistant_turn \<Rightarrow> llm_error + json content_block list \<times> malformed_tool_use list" where
  "turn_answer r = map_sum id (\<lambda>t. (at_content t, at_malformed t)) r"

lemma collect_replay:
  assumes "replayed inner cancelled a models n" "\<And>k m. content_first (inner k m)" "same_blocks acc acc0"
  shows "\<exists>acc'. same_blocks acc' acc0 \<and>
    collect_loop fresh acc (replay_items inner a models n @ items) = collect_loop fresh acc' items"
  using assms(1)
proof (induction n arbitrary: items)
  case 0
  then show ?case using assms(3) by (auto simp: replay_items_def)
next
  case (Suc n)
  obtain evs e where u: "until_error (inner (a + n) (models ! n)) = (evs, Some e)" "\<not> list_ex is_content evs"
    using Suc.prems by (auto simp: replayed_def)
  let ?piece = "map Inr (evs @ [fallback_notice (a + n + 1) (models ! Suc n) e])"
  have split: "replay_items inner a models (Suc n) = replay_items inner a models n @ ?piece"
    by (simp add: replay_items_def u)
  from Suc obtain acc' where acc': "same_blocks acc' acc0"
    "collect_loop fresh acc (replay_items inner a models n @ ?piece @ items) = collect_loop fresh acc' (?piece @ items)"
    by (auto simp: replayed_def)
  have "same_blocks (absorb_all fresh acc' evs) acc'"
    using absorb_all_silent [OF assms(2) [of "a + n" "models ! n"], of fresh acc'] u by simp
  then have "same_blocks (absorb_all fresh acc' (evs @ [fallback_notice (a + n + 1) (models ! Suc n) e])) acc0"
    using acc'(1) by (simp add: same_blocks_def fallback_notice_def)
  then show ?case using acc'(2) by (auto simp: split collect_loop_events simp del: map_append)
qed

lemma collect_answer:
  assumes "same_blocks acc new_accumulator" "collect_loop fresh new_accumulator items' = collect_loop fresh acc items"
  shows "turn_answer (collect pj jt fresh items') = turn_answer (collect pj jt fresh items)"
  using same_blocks_collect [OF assms(1), of fresh items] assms(2) same_blocks_finish
  by (auto simp: collect_def turn_answer_def)


text \<open>A step of a parser, which may have content behind it, emits nothing that continues content before there is some.\<close>

definition opens :: "bool \<Rightarrow> stream_item list \<Rightarrow> bool \<Rightarrow> bool" where
  "opens before items after \<longleftrightarrow>
     (before \<or> content_first items) \<and> (after \<longrightarrow> before \<or> (\<exists>e. Inr e \<in> set items \<and> is_content e))"

lemma content_first_append:
  "content_first (xs @ ys) \<longleftrightarrow> content_first xs \<and>
     (content_first ys \<or> (\<exists>e. Inr e \<in> set xs \<and> is_content e) \<or> (\<exists>e. Inl e \<in> set xs))"
proof (induction xs rule: content_first.induct)
  case (3 ev items)
  then show ?case by (auto simp: continues_def is_content_def split: model_event.splits)
qed auto

lemma opens_append: "opens a xs b \<Longrightarrow> opens b ys c \<Longrightarrow> opens a (xs @ ys) c"
  by (auto simp: opens_def content_first_append)

lemma opens_refl [simp]: "opens a [] a"
  by (simp add: opens_def)

lemma opens_plain:
  assumes "\<forall>e. Inr e \<in> set items \<longrightarrow> \<not> continues e"
  shows "opens a items a"
proof -
  have "content_first items" using assms by (induction items rule: content_first.induct) auto
  then show ?thesis by (simp add: opens_def)
qed

lemma forward_prefix:
  "forward s items = (s1, stop) \<Longrightarrow>
   \<exists>k. sk_delivered s1 = sk_delivered s @ take k items \<and> (\<not> stop \<longrightarrow> take k items = items)"
proof (induction s items arbitrary: s1 stop rule: forward.induct)
  case (2 s item items)
  obtain t taken where t: "send_item s item = (t, taken)" by fastforce
  note c = send_item_cases(1) [OF t]
  show ?case
  proof (cases "\<not> taken \<or> ends_stream item")
    case True
    then have "s1 = t \<and> stop" using 2 t by auto
    then show ?thesis using c by (cases taken) (auto intro: exI [of _ 0] exI [of _ 1])
  next
    case False
    with "2.IH" [OF t [symmetric] refl] "2.prems" t obtain k where
      "sk_delivered s1 = sk_delivered t @ take k items" "\<not> stop \<longrightarrow> take k items = items" by auto
    then show ?thesis using False c by (intro exI [of _ "Suc k"]) auto
  qed
qed simp

text \<open>
  A parser with an invariant between its state and what the stream delivered so far, whatever the consumer does: every
  operation keeps it, and it implies a property of the delivered items that their prefixes share.
\<close>

locale traced_parser = closing_parser ops for ops :: "'p stream_parser" +
  fixes inv :: "'p \<Rightarrow> stream_item list \<Rightarrow> bool" and good :: "stream_item list \<Rightarrow> bool"
  assumes inv_good: "inv p out \<Longrightarrow> good out"
    and good_prefix: "good (out @ later) \<Longrightarrow> good out"
    and good_error: "good out \<Longrightarrow> good (out @ [Inl e])"
    and notice_inv: "inv p out \<Longrightarrow> inv p (out @ [Inr (Retrying n ms why)])"
    and push_inv: "inv p out \<Longrightarrow> sp_push ops p ev = (q, items) \<Longrightarrow> inv q (out @ items)"
    and finish_inv: "inv p out \<Longrightarrow> sp_finish ops p = (q, items) \<Longrightarrow> inv q (out @ items)"
begin

lemma forward_good:
  assumes "good (sk_delivered s @ items)" "forward s items = (s1, stop)"
  shows "good (sk_delivered s1) \<and> (\<not> stop \<longrightarrow> sk_delivered s1 = sk_delivered s @ items)"
proof -
  obtain k where k: "sk_delivered s1 = sk_delivered s @ take k items" "\<not> stop \<longrightarrow> take k items = items"
    using forward_prefix [OF assms(2)] by blast
  have "good ((sk_delivered s @ take k items) @ drop k items)" using assms(1) by simp
  from good_prefix [OF this] k show ?thesis by auto
qed

lemma forward_good_fst: "good (sk_delivered s @ items) \<Longrightarrow> good (sk_delivered (fst (forward s items)))"
  using forward_good by (metis prod.collapse)

lemma push_events_good:
  assumes "inv p (sk_delivered s)" "push_events ops p s es = (p1, s1, stop)"
  shows "good (sk_delivered s1) \<and> (\<not> stop \<longrightarrow> inv p1 (sk_delivered s1))"
  using assms
proof (induction es arbitrary: p s)
  case (Cons e es)
  obtain q items where q: "sp_push ops p e = (q, items)" by fastforce
  obtain t st where t: "forward s items = (t, st)" by fastforce
  note i = push_inv [OF Cons.prems(1) q]
  note f = forward_good [OF inv_good [OF i] t]
  show ?case
  proof (cases st)
    case True
    then show ?thesis using Cons.prems f q t by auto
  next
    case False
    then show ?thesis using Cons.IH [of q t] Cons.prems f i q t by auto
  qed
qed (auto simp: inv_good)

lemma read_body_good: "inv p (sk_delivered s) \<Longrightarrow> good (sk_delivered (read_body ops p d s chunks))"
proof (induction chunks arbitrary: p d s)
  case Nil
  obtain d1 es where d1: "finish_decoder d = (d1, es)" by fastforce
  obtain p1 s1 st where p1: "push_events ops p s es = (p1, s1, st)" by (metis prod_cases3)
  obtain q items where q: "sp_finish ops p1 = (q, items)" by fastforce
  show ?case
  proof (cases st)
    case True
    then show ?thesis using push_events_good [OF Nil p1] d1 p1 by simp
  next
    case False
    with push_events_good [OF Nil p1] have "inv p1 (sk_delivered s1)" by simp
    from forward_good_fst [OF inv_good [OF finish_inv [OF this q]]] False show ?thesis using d1 p1 q by simp
  qed
next
  case (Cons c chunks)
  show ?case
  proof (cases c)
    case (Inl cause)
    from forward_good_fst [OF good_error [OF inv_good [OF Cons.prems]]] Inl show ?thesis by simp
  next
    case (Inr bytes)
    obtain d1 es where d1: "feed d bytes = (d1, es)" by fastforce
    obtain p1 s1 st where p1: "push_events ops p s es = (p1, s1, st)" by (metis prod_cases3)
    show ?thesis using push_events_good [OF Cons.prems p1] Cons.IH [of p1 s1 d1] d1 p1 Inr by (cases st) simp_all
  qed
qed

lemma json_items_good:
  assumes "inv p out"
  shows "good (out @ json_items ops p r)"
proof (cases "rs_whole r")
  case (Inl e)
  then show ?thesis using good_error [OF inv_good [OF assms]] by (simp add: json_items_def)
next
  case (Inr body)
  obtain p1 items where 1: "sp_push ops p \<lparr>ev_event = None, ev_data = body\<rparr> = (p1, items)" by fastforce
  obtain p2 last where 2: "sp_finish ops p1 = (p2, last)" by fastforce
  note i = push_inv [OF assms 1]
  from inv_good [OF i] inv_good [OF finish_inv [OF i 2]] Inr 1 2 show ?thesis by (simp add: json_items_def)
qed

lemma run_response_good:
  assumes "inv p (sk_delivered s)"
  shows "good (sk_delivered (run_response ops p s outcome))"
  using forward_good_fst [OF good_error [OF inv_good [OF assms]]] forward_good_fst [OF json_items_good [OF assms]]
    read_body_good [OF assms] by (auto simp: run_response_def split: sum.splits)

lemma run_stream_good:
  assumes "inv p (sk_delivered s)"
  shows "good (sk_delivered (run_stream f st policy env ops p s))"
proof -
  have kept: "inv p (sk_delivered (foldl (\<lambda>s n. fst (send_item s (Inr (notice_event n)))) s ns))" for ns
    using assms
  proof (induction ns arbitrary: s)
    case (Cons n ns)
    obtain t k where t: "send_item s (Inr (notice_event n)) = (t, k)" by fastforce
    have "inv p (sk_delivered t)"
      using send_item_cases(1) [OF t] Cons.prems notice_inv [OF Cons.prems] by (auto simp: notice_event_def split: if_splits)
    then show ?case using Cons.IH [of t] t by simp
  qed simp
  obtain ns outcome where "send_with_retry f st policy env = (ns, outcome)" by fastforce
  then show ?thesis using run_response_good [OF kept [of ns]] by (simp add: run_stream_def)
qed

end

text \<open>
  The answer of a fallback run is that of one model. If every inner stream keeps the contract and has content before any
  signature or tool input, the drained result of the fallback stream (its content blocks and malformed calls, or its error)
  is the drained result of the last attempt alone.
\<close>

lemma fallback_turns_come_from_one_model:
  assumes "\<And>n m. ends_once (inner n m)" "\<And>n m. content_first (inner n m)"
  shows "\<exists>n \<le> length fallbacks. replayed inner cancelled 0 (model # fallbacks) n \<and>
    turn_answer (collect pj jt fresh (fallback_stream inner cancelled model fallbacks)) =
    turn_answer (collect pj jt fresh (inner n ((model # fallbacks) ! n)))"
proof -
  have "model_client inner" using assms(1) by (rule model_client.intro)
  from model_client.fallback_stream_spec [OF this, of fallbacks cancelled model] obtain n where n: "n \<le> length fallbacks" "replayed inner cancelled 0 (model # fallbacks) n"
    "fallback_stream inner cancelled model fallbacks =
      replay_items inner 0 (model # fallbacks) n @ inner n ((model # fallbacks) ! n)" by blast
  from collect_replay [OF n(2) assms(2), of new_accumulator new_accumulator fresh "inner n ((model # fallbacks) ! n)"]
  obtain acc where "same_blocks acc new_accumulator"
    "collect_loop fresh new_accumulator (fallback_stream inner cancelled model fallbacks) =
     collect_loop fresh acc (inner n ((model # fallbacks) ! n))"
    unfolding n(3) by (auto simp: same_blocks_def)
  from collect_answer [OF this] n(1,2) show ?thesis by blast
qed

section \<open>Properties\<close>

text \<open>
  C20. Requests are retried a bounded number of times and only after transient failures. For any course of the network and of
  cancellation \<open>send_with_retry\<close> ends with at most \<open>max_attempts\<close> requests (one at least); its notices are numbered from one,
  each follows a connection failure or a retryable status and announces a delay within the two caps; a response it returns
  is the successful one of the last request, and an error other than cancellation comes from a failure that is not
  transient or from the last attempt.
\<close>

theorem retries_are_bounded:
  assumes "caps_delay f p" "send_with_retry f st p env = (ns, r)"
  shows "map rn_attempt ns = [1 ..< 1 + length ns] \<and> 1 + length ns \<le> max 1 (max_attempts p) \<and>
    (\<forall>n \<in> set ns. transient (ae_sent (env (rn_attempt n))) \<and> rn_delay n \<le> max (max_backoff p) (max_server_delay p)) \<and>
    (case r of
       Inr resp \<Rightarrow> is_success resp \<and> ae_sent (env (1 + length ns)) = Responded resp
     | Inl e \<Rightarrow> e = LlmCancelled \<or> \<not> transient (ae_sent (env (1 + length ns))) \<or> 1 + length ns \<ge> max_attempts p)"
  by (rule send_loop_spec [OF assms(1) assms(2) [unfolded send_with_retry_def]])

definition sample_f64 :: "nat f64_ops" where
  "sample_f64 = \<lparr>fo_number = (\<lambda>s. if s = ''2'' then Some 2 else None), fo_thousandth = (\<lambda>x. x div 1000), fo_min = min,
     fo_of_duration = (\<lambda>d. d div SECONDS), fo_to_duration = (\<lambda>x. x * SECONDS)\<rparr>"

definition sample_response :: "nat \<Rightarrow> string option \<Rightarrow> (string + string) list \<Rightarrow> response" where
  "sample_response status after chunks =
     \<lparr>rs_status = status, rs_header = (\<lambda>n. if n = ''retry-after'' then after else None), rs_whole = Inr [], rs_chunks = chunks\<rparr>"

definition calm :: "sent \<Rightarrow> attempt_env" where
  "calm s = \<lparr>ae_cancel_send = False, ae_sent = s, ae_cancel_body = False, ae_cancel_sleep = False\<rparr>"

definition busy_then_ok :: "nat \<Rightarrow> attempt_env" where
  "busy_then_ok n = calm (if n = 1 then SendError True ''refused''
     else if n = 2 then Responded (sample_response 429 (Some ''2'') []) else Responded (sample_response 200 None []))"

theorem retries_are_bounded_witness:
  "map rn_delay (fst (send_with_retry sample_f64 (\<lambda>n. []) default_retry_policy busy_then_ok)) = [500 * MILLIS, 2 * SECONDS] \<and>
   list_all (\<lambda>n. rn_delay n \<le> 60 * SECONDS) (fst (send_with_retry sample_f64 (\<lambda>n. []) default_retry_policy busy_then_ok))"
proof -
  have run: "send_with_retry sample_f64 (\<lambda>n. []) default_retry_policy busy_then_ok =
      ([\<lparr>rn_attempt = 1, rn_delay = 500 * MILLIS, rn_reason = ''connection failed: refused''\<rparr>,
        \<lparr>rn_attempt = 2, rn_delay = 2 * SECONDS, rn_reason = retry_reason 429\<rparr>], Inr (sample_response 200 None []))"
    by (simp add: send_with_retry_def send_loop.simps attempt_once_def busy_then_ok_def calm_def default_retry_policy_def
        sample_response_def sample_f64_def is_success_def is_retryable_status_def server_delay_def backoff_def Let_def
        MILLIS_def SECONDS_def DURATION_MAX_def)
  have "caps_delay sample_f64 default_retry_policy"
    by (simp add: caps_delay_def sample_f64_def default_retry_policy_def SECONDS_def)
  from retries_are_bounded [OF this run] run show ?thesis by (simp add: default_retry_policy_def SECONDS_def)
qed

text \<open>
  How the network cuts a response does not matter. For any parser, policy and consumer, a streamed response whose chunks
  concatenate to the same bytes delivers the same items.
\<close>

theorem responses_ignore_chunks:
  assumes "concat chunks = concat chunks'" "\<not> is_json r"
  shows "run_response ops p s (Inr (r\<lparr>rs_chunks := map Inr chunks\<rparr>)) = run_response ops p s (Inr (r\<lparr>rs_chunks := map Inr chunks'\<rparr>))"
proof -
  have "feed_all feed new_decoder chunks = feed_all feed new_decoder chunks'"
    by (rule model_stream.chunks_do_not_matter [OF assms(1)])
  then show ?thesis using assms(2) by (simp add: run_response_def is_json_def read_body_feed_all)
qed

definition echo_parser :: "unit stream_parser" where
  "echo_parser = \<lparr>sp_push = (\<lambda>p e. (p, [Inr (TextDelta (ev_data e))])), sp_finish = (\<lambda>p. (p, [Inl (StreamError ''end'')]))\<rparr>"

theorem responses_ignore_chunks_witness:
  "run_response echo_parser () open_sink (Inr (sample_response 200 None [Inr ''data: a'', Inr [NL, NL]])) =
   run_response echo_parser () open_sink (Inr (sample_response 200 None [Inr (''data: a'' @ [NL, NL])]))"
  using responses_ignore_chunks [of "[''data: a'', [NL, NL]]" "[''data: a'' @ [NL, NL]]" "sample_response 200 None []" echo_parser "()" open_sink]
  by (simp add: sample_response_def is_json_def)

text \<open>
  A fallback replays only what nobody has seen. Over any client that keeps the contract of streams, what a consumer gets
  is the events of some failed attempts, each followed by the notice of the next model, then the whole stream of the last
  attempt; every failed attempt streamed no content, failed with a retryable error and was not cancelled; and the result
  keeps the contract of streams again.
\<close>

theorem fallbacks_replay_only_before_content:
  assumes "\<And>n m. ends_once (inner n m)"
  shows "(\<exists>n \<le> length fallbacks. replayed inner cancelled 0 (model # fallbacks) n \<and>
      fallback_stream inner cancelled model fallbacks =
        replay_items inner 0 (model # fallbacks) n @ inner n ((model # fallbacks) ! n)) \<and>
    ends_once (fallback_stream inner cancelled model fallbacks)"
  using model_client.fallback_stream_spec model_client.fallback_contract assms by (metis model_client.intro)

definition two_models :: "nat \<Rightarrow> string \<Rightarrow> stream_item list" where
  "two_models n m = (if m = ''big'' then [Inr (UsageEvent no_usage), Inl (Overloaded 5 ''busy'')]
     else [Inr (TextDelta ''hi''), Inr (StopEvent EndTurn)])"

theorem fallbacks_replay_only_before_content_witness:
  "ends_once (fallback_stream two_models (\<lambda>n. False) ''big'' [''small'']) \<and>
   length (fallback_stream two_models (\<lambda>n. False) ''big'' [''small'']) = 4"
proof -
  have "ends_once (two_models n m)" for n m
    by (simp add: two_models_def ends_once_def ends_stream_def)
  note whole = fallbacks_replay_only_before_content
    [where inner = two_models and cancelled = "\<lambda>n. False" and model = "''big''" and fallbacks = "[''small'']", OF this]
  have "length (fallback_stream two_models (\<lambda>n. False) ''big'' [''small'']) = 4"
    by (simp add: fallback_stream_def two_models_def open_sink_def send_item_def is_content_def)
  with whole show ?thesis by blast
qed

text \<open>
  Without content first the answer mixes models: \<open>is_content\<close> does not count signatures, so a first model that streamed
  only the signature of its thinking and then broke is replayed, and the turn has its signature beside the text of the
  second model.
\<close>

theorem signatures_of_failed_models_survive:
  "turn_answer (collect (\<lambda>t. Inl []) (\<lambda>v. []) (\<lambda>i. [])
     (fallback_stream (\<lambda>n m. if m = ''big'' then [Inr (ThinkingSignature ''sig''), Inl (StreamError ''reset'')]
         else [Inr (TextDelta ''hi''), Inr (StopEvent EndTurn)]) (\<lambda>n. False) ''big'' [''small''])) =
   Inr ([ThinkingBlock [] (Some ''sig''), TextBlock ''hi''], [])"
  by (simp add: fallback_stream_def open_sink_def send_item_def is_content_def collect_def turn_answer_def fallback_notice_def
      finish_turn_def finish_block_def new_accumulator_def last_block_def push_block_def)

text \<open>
  A stream that is cancelled while its channel is full ends without a stop or an error, and draining it gives the partial
  response as a complete turn.
\<close>

theorem cancelled_streams_may_look_complete:
  "spawn_stream (Some (1, False)) [Inr (TextDelta ''half''), Inr (TextDelta ''whole''), Inr (StopEvent EndTurn)] = [Inr (TextDelta ''half'')] \<and>
   turn_answer (collect (\<lambda>t. Inl []) (\<lambda>v. []) (\<lambda>i. []) [Inr (TextDelta ''half'')]) = Inr ([TextBlock ''half''], [])"
  by (simp add: spawn_stream_def collect_def turn_answer_def finish_turn_def finish_block_def new_accumulator_def
      last_block_def push_block_def)

end
