(* ===== verification/Openai.thy ===== *)
theory Openai
  imports Transport
begin

text \<open>
  \<open>crates/z-engine-llm/src/openai/stream.rs\<close>: chunks of the Chat Completions API as events of a model response.

  \<open>parse_json\<close> is \<open>serde_json::from_str\<close>, \<open>json_text\<close> the compact text of a value and \<open>fresh\<close> the \<open>CallId::new\<close> of a call
  by its index. The \<open>BTreeMap\<close> of calls is an association list in the order of its keys.
\<close>

section \<open>Reading values\<close>

fun as_str :: "json \<Rightarrow> string option" where
  "as_str (JString s) = Some s"
| "as_str _ = None"

text \<open>Numbers are kept as the text of the JSON source; only plain digits in range are a \<open>u64\<close>.\<close>

fun as_u64 :: "json \<Rightarrow> nat option" where
  "as_u64 (JNumber s) = (if list_all is_ascii_digit s then parse_usize s else None)"
| "as_u64 _ = None"

fun as_array :: "json \<Rightarrow> json list option" where
  "as_array (JArray vs) = Some vs"
| "as_array _ = None"

definition str_field :: "string \<Rightarrow> json \<Rightarrow> string option" where
  "str_field k v = Option.bind (json_get k v) as_str"

text \<open>A field that is a string and not empty.\<close>

definition text_field :: "string \<Rightarrow> json \<Rightarrow> string option" where
  "text_field k v = (case str_field k v of Some s \<Rightarrow> if s = [] then None else Some s | None \<Rightarrow> None)"

definition or_else :: "'a option \<Rightarrow> 'a option \<Rightarrow> 'a option" where
  "or_else x y = (case x of Some v \<Rightarrow> Some v | None \<Rightarrow> y)"

definition emit :: "('a \<Rightarrow> model_event) \<Rightarrow> 'a option \<Rightarrow> stream_item list" where
  "emit ev x = (case x of Some v \<Rightarrow> [Inr (ev v)] | None \<Rightarrow> [])"

section \<open>The parser\<close>

record chat_tool =
  ct_id :: "string option"
  ct_name :: string
  ct_pending :: string
  ct_started :: bool
  ct_ended :: bool

definition default_tool :: chat_tool where
  "default_tool = \<lparr>ct_id = None, ct_name = [], ct_pending = [], ct_started = False, ct_ended = False\<rparr>"

record chat_parser =
  cp_tools :: "(nat \<times> chat_tool) list"
  cp_finish :: "string option"
  cp_usage :: "usage option"

definition new_chat_parser :: chat_parser where
  "new_chat_parser = \<lparr>cp_tools = [], cp_finish = None, cp_usage = None\<rparr>"

fun put_tool :: "nat \<Rightarrow> 'v \<Rightarrow> (nat \<times> 'v) list \<Rightarrow> (nat \<times> 'v) list" where
  "put_tool k v [] = [(k, v)]"
| "put_tool k v ((k', v') # ts) =
     (if k < k' then (k, v) # (k', v') # ts else if k = k' then (k, v) # ts else (k', v') # put_tool k v ts)"

fun argument_text :: "(json \<Rightarrow> string) \<Rightarrow> json \<Rightarrow> string" where
  "argument_text json_text (JString s) = s"
| "argument_text json_text JNull = []"
| "argument_text json_text v = json_text v"

definition call_index :: "nat \<Rightarrow> json \<Rightarrow> nat" where
  "call_index pos call = (case Option.bind (json_get ''index'' call) as_u64 of Some i \<Rightarrow> i | None \<Rightarrow> pos)"

definition call_arguments :: "(json \<Rightarrow> string) \<Rightarrow> json \<Rightarrow> string" where
  "call_arguments json_text call =
     (case Option.bind (json_get ''function'' call) (json_get ''arguments'') of
        Some a \<Rightarrow> argument_text json_text a | None \<Rightarrow> [])"

definition tool_delta ::
  "(json \<Rightarrow> string) \<Rightarrow> (nat \<Rightarrow> string) \<Rightarrow> nat \<Rightarrow> json \<Rightarrow> chat_parser \<Rightarrow> chat_parser \<times> stream_item list" where
  "tool_delta json_text fresh pos call p =
     (let index = call_index pos call;
          tool0 = (case map_of (cp_tools p) index of Some t \<Rightarrow> t | None \<Rightarrow> default_tool);
          tool = (if ct_id tool0 = None then tool0\<lparr>ct_id := text_field ''id'' call\<rparr> else tool0);
          arguments = call_arguments json_text call;
          put = (\<lambda>t. p\<lparr>cp_tools := put_tool index t (cp_tools p)\<rparr>)
      in if ct_started tool then (put tool, if arguments \<noteq> [] then [Inr (ToolUseDelta index arguments)] else [])
         else let pending = ct_pending tool @ arguments in
           case Option.bind (json_get ''function'' call) (text_field ''name'') of
             None \<Rightarrow> (put (tool\<lparr>ct_pending := pending\<rparr>), [])
           | Some name \<Rightarrow>
               (put (tool\<lparr>ct_name := name, ct_started := True, ct_pending := []\<rparr>),
                Inr (ToolUseStart index (case ct_id tool of Some i \<Rightarrow> i | None \<Rightarrow> fresh index) name) #
                (if pending \<noteq> [] then [Inr (ToolUseDelta index pending)] else [])))"

fun tool_deltas ::
  "(json \<Rightarrow> string) \<Rightarrow> (nat \<Rightarrow> string) \<Rightarrow> nat \<Rightarrow> json list \<Rightarrow> chat_parser \<Rightarrow> chat_parser \<times> stream_item list" where
  "tool_deltas json_text fresh pos [] p = (p, [])"
| "tool_deltas json_text fresh pos (call # calls) p =
     (let (p1, out1) = tool_delta json_text fresh pos call p;
          (p2, out2) = tool_deltas json_text fresh (pos + 1) calls p1
      in (p2, out1 @ out2))"

definition delta_step ::
  "(json \<Rightarrow> string) \<Rightarrow> (nat \<Rightarrow> string) \<Rightarrow> json \<Rightarrow> chat_parser \<Rightarrow> chat_parser \<times> stream_item list" where
  "delta_step json_text fresh delta p =
     (let thinking = or_else (str_field ''reasoning_content'' delta) (str_field ''reasoning'' delta);
          out1 = (case thinking of Some t \<Rightarrow> if t \<noteq> [] then [Inr (ThinkingDelta t)] else [] | None \<Rightarrow> []);
          out2 = emit TextDelta (text_field ''content'' delta)
      in case Option.bind (json_get ''tool_calls'' delta) as_array of
           Some calls \<Rightarrow> (let (p1, out3) = tool_deltas json_text fresh 0 calls p in (p1, out1 @ out2 @ out3))
         | None \<Rightarrow> (p, out1 @ out2))"

definition end_tool :: "chat_tool \<Rightarrow> chat_tool" where
  "end_tool t = t\<lparr>ct_ended := True\<rparr>"

definition end_tools :: "chat_parser \<Rightarrow> chat_parser \<times> stream_item list" where
  "end_tools p =
     (p\<lparr>cp_tools := map (\<lambda>(i, t). (i, end_tool t)) (cp_tools p)\<rparr>,
      concat (map (\<lambda>(i, t). if ct_started t \<and> \<not> ct_ended t then [Inr (ToolUseEnd i)] else []) (cp_tools p)))"

definition chat_stop_reason :: "string \<Rightarrow> bool \<Rightarrow> stop_reason" where
  "chat_stop_reason r saw_tools =
     (if r = ''stop'' \<and> saw_tools then ToolUseStop
      else if r = ''stop'' then EndTurn
      else if r \<in> set [''tool_calls'', ''function_call''] then ToolUseStop
      else if r = ''length'' then MaxTokensStop
      else if r = ''content_filter'' then Refusal
      else OtherStop r)"

definition complete :: "chat_parser \<Rightarrow> chat_parser \<times> stream_item list" where
  "complete p =
     (let (p1, out) = end_tools p;
          saw_tools = list_ex (\<lambda>(i, t). ct_started t) (cp_tools p1);
          stop = (case cp_finish p1 of
              Some r \<Rightarrow> chat_stop_reason r saw_tools
            | None \<Rightarrow> if saw_tools then ToolUseStop else EndTurn)
      in (p1\<lparr>cp_usage := None, cp_finish := None\<rparr>, out @ emit UsageEvent (cp_usage p1) @ [Inr (StopEvent stop)]))"

definition not_null :: "json option \<Rightarrow> json option" where
  "not_null v = (case v of Some JNull \<Rightarrow> None | _ \<Rightarrow> v)"

definition chunk_error :: "(json \<Rightarrow> string) \<Rightarrow> json \<Rightarrow> llm_error" where
  "chunk_error json_text e =
     (let c = Option.bind (json_get ''code'' e) (\<lambda>c. or_else (as_u64 c) (Option.bind (as_str c) parse_usize));
          status = (case c of Some n \<Rightarrow> if 100 \<le> n \<and> n \<le> 599 then n else 500 | None \<Rightarrow> 500);
          body = (case or_else (str_field ''message'' e) (as_str e) of Some s \<Rightarrow> s | None \<Rightarrow> json_text e)
      in HttpError status body)"

definition saturating_sub :: "u64 \<Rightarrow> u64 \<Rightarrow> u64" where
  "saturating_sub x y = (if y \<le> x then x - y else 0)"

definition parse_usage :: "json \<Rightarrow> usage option" where
  "parse_usage u =
     (let count = (\<lambda>v. case Option.bind v as_u64 of Some n \<Rightarrow> (of_nat n :: u64) | None \<Rightarrow> 0);
          details = json_get ''prompt_tokens_details'' u;
          cached = or_else (Option.bind details (json_get ''cached_tokens'')) (json_get ''prompt_cache_hit_tokens'' u);
          cache_read = count cached;
          cache_write = count (Option.bind details (json_get ''cache_write_tokens''));
          thought = Option.bind (json_get ''completion_tokens_details'' u) (json_get ''reasoning_tokens'');
          parsed = \<lparr>input_tokens = saturating_sub (saturating_sub (count (json_get ''prompt_tokens'' u)) cache_read) cache_write,
             output_tokens = count (json_get ''completion_tokens'' u), cache_read_tokens = cache_read,
             cache_write_tokens = cache_write, reasoning_tokens = count thought\<rparr>
      in if usage_is_empty parsed then None else Some parsed)"

definition first_choice :: "json \<Rightarrow> json option" where
  "first_choice chunk = (case Option.bind (json_get ''choices'' chunk) as_array of Some (c # cs) \<Rightarrow> Some c | _ \<Rightarrow> None)"

definition chat_choice ::
  "(json \<Rightarrow> string) \<Rightarrow> (nat \<Rightarrow> string) \<Rightarrow> json \<Rightarrow> chat_parser \<Rightarrow> chat_parser \<times> stream_item list" where
  "chat_choice json_text fresh choice p =
     (let (p1, out1) = (case or_else (json_get ''delta'' choice) (json_get ''message'' choice) of
              Some delta \<Rightarrow> delta_step json_text fresh delta p | None \<Rightarrow> (p, []))
      in case str_field ''finish_reason'' choice of
           Some r \<Rightarrow> (let (p2, out2) = end_tools (p1\<lparr>cp_finish := Some r\<rparr>) in (p2, out1 @ out2))
         | None \<Rightarrow> (p1, out1))"

definition chat_push ::
  "(string \<Rightarrow> string + json) \<Rightarrow> (json \<Rightarrow> string) \<Rightarrow> (nat \<Rightarrow> string) \<Rightarrow> chat_parser \<Rightarrow> sse_event \<Rightarrow> chat_parser \<times> stream_item list" where
  "chat_push parse_json json_text fresh p e =
     (if is_done e then complete p
      else case parse_json (ev_data e) of
        Inl _ \<Rightarrow> (p, [])
      | Inr chunk \<Rightarrow>
          (case not_null (json_get ''error'' chunk) of
             Some err \<Rightarrow> (p, [Inl (chunk_error json_text err)])
           | None \<Rightarrow>
               (let usage = or_else (not_null (json_get ''usage'' chunk))
                      (Option.bind (json_get ''x_groq'' chunk) (json_get ''usage''));
                    p1 = (case Option.bind usage parse_usage of Some u \<Rightarrow> p\<lparr>cp_usage := Some u\<rparr> | None \<Rightarrow> p)
                in case first_choice chunk of
                     Some choice \<Rightarrow> chat_choice json_text fresh choice p1
                   | None \<Rightarrow> (p1, []))))"

definition stream_ended :: llm_error where
  "stream_ended = StreamError ''stream ended unexpectedly''"

definition chat_finish :: "chat_parser \<Rightarrow> chat_parser \<times> stream_item list" where
  "chat_finish p = (if cp_finish p \<noteq> None then complete p else (p, [Inl stream_ended]))"

definition chat_ops ::
  "(string \<Rightarrow> string + json) \<Rightarrow> (json \<Rightarrow> string) \<Rightarrow> (nat \<Rightarrow> string) \<Rightarrow> chat_parser stream_parser" where
  "chat_ops parse_json json_text fresh =
     \<lparr>sp_push = chat_push parse_json json_text fresh, sp_finish = chat_finish\<rparr>"

section \<open>The contract of streams\<close>

lemma complete_stops: "\<exists>pre stop. snd (complete p) = pre @ [Inr (StopEvent stop)]"
  by (auto simp: complete_def Let_def split: prod.splits)

lemma chat_finish_closes: "list_ex ends_stream (snd (chat_finish p))"
  using complete_stops [of p] by (auto simp: chat_finish_def ends_stream_def)

interpretation chat_closing: closing_parser "chat_ops parse_json json_text fresh" for parse_json json_text fresh
  by unfold_locales (simp add: chat_ops_def chat_finish_closes)


section \<open>One call through the stream\<close>

lemma map_of_put_tool [simp]: "map_of (put_tool k v ts) = (map_of ts)(k \<mapsto> v)"
  by (induction ts) auto

definition tool_of :: "chat_parser \<Rightarrow> nat \<Rightarrow> chat_tool" where
  "tool_of p i = (case map_of (cp_tools p) i of Some t \<Rightarrow> t | None \<Rightarrow> default_tool)"

fun item_part :: "nat \<Rightarrow> stream_item \<Rightarrow> string" where
  "item_part i (Inr e) = tool_part i e"
| "item_part i (Inl e) = []"

fun item_start :: "nat \<Rightarrow> stream_item \<Rightarrow> bool" where
  "item_start i (Inr e) = is_start i e"
| "item_start i (Inl e) = False"

definition input_parts :: "nat \<Rightarrow> stream_item list \<Rightarrow> string" where
  "input_parts i items = concat (map (item_part i) items)"

definition quiet :: "nat \<Rightarrow> stream_item list \<Rightarrow> bool" where
  "quiet i items \<longleftrightarrow> list_all (\<lambda>x. \<not> item_start i x \<and> item_part i x = []) items"

lemma input_parts_simps [simp]:
  "input_parts i [] = []" "input_parts i (x # xs) = item_part i x @ input_parts i xs"
  "input_parts i (xs @ ys) = input_parts i xs @ input_parts i ys"
  by (simp_all add: input_parts_def)

lemma quiet_simps [simp]:
  "quiet i []" "quiet i (x # xs) \<longleftrightarrow> \<not> item_start i x \<and> item_part i x = [] \<and> quiet i xs"
  "quiet i (xs @ ys) \<longleftrightarrow> quiet i xs \<and> quiet i ys"
  by (simp_all add: quiet_def)

lemma quiet_parts: "quiet i items \<Longrightarrow> input_parts i items = [] \<and> list_all (\<lambda>x. \<not> item_start i x) items"
  by (induction items) auto

text \<open>
  What the items say of the call at index \<open>i\<close> while its state goes from \<open>t\<close> to \<open>t'\<close> and the provider sends \<open>args\<close> for it:
  the start comes once, before any input, and all input that came is passed on or still pending.
\<close>

definition tool_run :: "nat \<Rightarrow> chat_tool \<Rightarrow> stream_item list \<Rightarrow> chat_tool \<Rightarrow> string \<Rightarrow> bool" where
  "tool_run i t items t' args \<longleftrightarrow>
     (if ct_started t then
        list_all (\<lambda>x. \<not> item_start i x) items \<and> ct_started t' \<and> ct_name t' = ct_name t \<and> input_parts i items = args
      else if ct_started t' then
        (\<exists>pre n post. items = pre @ Inr (ToolUseStart i n (ct_name t')) # post \<and> quiet i pre \<and>
           list_all (\<lambda>x. \<not> item_start i x) post \<and> input_parts i post = ct_pending t @ args)
      else quiet i items \<and> ct_pending t' = ct_pending t @ args)"

lemma tool_run_startI:
  assumes "\<not> ct_started t" "ct_started t'" "items = pre @ Inr (ToolUseStart i n (ct_name t')) # post" "quiet i pre"
    "list_all (\<lambda>x. \<not> item_start i x) post" "input_parts i post = ct_pending t @ args"
  shows "tool_run i t items t' args"
  using assms unfolding tool_run_def by auto

lemma tool_run_append:
  assumes "tool_run i t xs u as" "tool_run i u ys v bs"
  shows "tool_run i t (xs @ ys) v (as @ bs)"
proof (cases "ct_started t")
  case True
  then show ?thesis using assms by (simp add: tool_run_def)
next
  case notyet: False
  show ?thesis
  proof (cases "ct_started u")
    case True
    with notyet assms(1) obtain pre n post where x: "xs = pre @ Inr (ToolUseStart i n (ct_name u)) # post" "quiet i pre"
      "list_all (\<lambda>x. \<not> item_start i x) post" "input_parts i post = ct_pending t @ as" by (auto simp: tool_run_def)
    from True assms(2) have y: "list_all (\<lambda>x. \<not> item_start i x) ys" "ct_started v" "ct_name v = ct_name u" "input_parts i ys = bs"
      by (simp_all add: tool_run_def)
    have "xs @ ys = pre @ Inr (ToolUseStart i n (ct_name v)) # (post @ ys)" using x(1) y(3) by simp
    moreover have "list_all (\<lambda>x. \<not> item_start i x) (post @ ys)" "input_parts i (post @ ys) = ct_pending t @ as @ bs"
      using x y by simp_all
    ultimately show ?thesis using tool_run_startI [OF notyet y(2)] x(2) by blast
  next
    case False
    with notyet assms(1) have x: "quiet i xs" "ct_pending u = ct_pending t @ as" by (simp_all add: tool_run_def)
    show ?thesis
    proof (cases "ct_started v")
      case True
      with False assms(2) obtain pre n post where y: "ys = pre @ Inr (ToolUseStart i n (ct_name v)) # post" "quiet i pre"
        "list_all (\<lambda>x. \<not> item_start i x) post" "input_parts i post = ct_pending u @ bs" by (auto simp: tool_run_def)
      have "xs @ ys = (xs @ pre) @ Inr (ToolUseStart i n (ct_name v)) # post" "quiet i (xs @ pre)" using x y by simp_all
      then show ?thesis using tool_run_startI [OF notyet True _ _ y(3), of "xs @ ys" "xs @ pre" n "as @ bs"] y(4) x(2) by simp
    next
      case f: False
      then show ?thesis using x assms(2) False notyet by (simp add: tool_run_def)
    qed
  qed
qed

lemma tool_run_quiet:
  assumes "quiet i items" "ct_started t' = ct_started t" "ct_name t' = ct_name t" "ct_pending t' = ct_pending t"
  shows "tool_run i t items t' []"
  using assms quiet_parts by (auto simp: tool_run_def)

definition fragment :: "(json \<Rightarrow> string) \<Rightarrow> nat \<Rightarrow> nat \<Rightarrow> json \<Rightarrow> string" where
  "fragment json_text i pos call = (if call_index pos call = i then call_arguments json_text call else [])"

fun fragments :: "(json \<Rightarrow> string) \<Rightarrow> nat \<Rightarrow> nat \<Rightarrow> json list \<Rightarrow> string" where
  "fragments json_text i pos [] = []"
| "fragments json_text i pos (call # calls) = fragment json_text i pos call @ fragments json_text i (pos + 1) calls"

lemma tool_delta_run:
  assumes "tool_delta jt fresh pos call p = (q, items)"
  shows "tool_run i (tool_of p i) items (tool_of q i) (fragment jt i pos call)"
proof (cases "call_index pos call = i")
  case False
  then have "quiet i items" "tool_of q i = tool_of p i"
    using assms by (auto simp: tool_delta_def Let_def tool_of_def tool_part_def split: if_splits option.splits)
  then show ?thesis using False by (simp add: fragment_def tool_run_quiet)
next
  case True
  define t0 where "t0 = tool_of p i"
  define t where "t = (if ct_id t0 = None then t0\<lparr>ct_id := text_field ''id'' call\<rparr> else t0)"
  have t: "ct_started t = ct_started t0" "ct_name t = ct_name t0" "ct_pending t = ct_pending t0" by (simp_all add: t_def)
  define args where "args = call_arguments jt call"
  have unf: "tool_delta jt fresh pos call p =
      (let put = (\<lambda>t. p\<lparr>cp_tools := put_tool i t (cp_tools p)\<rparr>)
      in if ct_started t then (put t, if args \<noteq> [] then [Inr (ToolUseDelta i args)] else [])
         else let pending = ct_pending t @ args in
           case Option.bind (json_get ''function'' call) (text_field ''name'') of
             None \<Rightarrow> (put (t\<lparr>ct_pending := pending\<rparr>), [])
           | Some name \<Rightarrow>
               (put (t\<lparr>ct_name := name, ct_started := True, ct_pending := []\<rparr>),
                Inr (ToolUseStart i (case ct_id t of Some i \<Rightarrow> i | None \<Rightarrow> fresh i) name) #
                (if pending \<noteq> [] then [Inr (ToolUseDelta i pending)] else [])))"
    by (simp only: tool_delta_def t_def t0_def tool_of_def args_def Let_def True)
  have frag: "fragment jt i pos call = args" using True by (simp add: fragment_def args_def)
  consider (started) "ct_started t" | (unnamed) "\<not> ct_started t" "Option.bind (json_get ''function'' call) (text_field ''name'') = None"
    | (named) name where "\<not> ct_started t" "Option.bind (json_get ''function'' call) (text_field ''name'') = Some name"
    by fastforce
  then show ?thesis
  proof cases
    case started
    then have "tool_of q i = t" "items = (if args \<noteq> [] then [Inr (ToolUseDelta i args)] else [])"
      using assms unf by (auto simp: tool_of_def)
    then show ?thesis using started t by (auto simp: tool_run_def frag t0_def [symmetric] tool_part_def)
  next
    case unnamed
    then have "tool_of q i = t\<lparr>ct_pending := ct_pending t @ args\<rparr>" "items = []"
      using assms unf by (auto simp: tool_of_def)
    then show ?thesis using unnamed t by (auto simp: tool_run_def frag t0_def [symmetric])
  next
    case named
    then have q: "tool_of q i = t\<lparr>ct_name := name, ct_started := True, ct_pending := []\<rparr>"
      and items: "items = [] @ Inr (ToolUseStart i (case ct_id t of Some i \<Rightarrow> i | None \<Rightarrow> fresh i) name) #
         (if ct_pending t @ args \<noteq> [] then [Inr (ToolUseDelta i (ct_pending t @ args))] else [])"
      using assms unf by (auto simp: tool_of_def Let_def)
    show ?thesis unfolding frag t0_def [symmetric]
    proof (rule tool_run_startI)
      show "\<not> ct_started t0" using named t by simp
      show "ct_started (tool_of q i)" using q by simp
      show "items = [] @ Inr (ToolUseStart i (case ct_id t of Some i \<Rightarrow> i | None \<Rightarrow> fresh i) (ct_name (tool_of q i))) #
         (if ct_pending t @ args \<noteq> [] then [Inr (ToolUseDelta i (ct_pending t @ args))] else [])"
        using items q by simp
    qed (simp_all add: t tool_part_def)
  qed
qed

lemma tool_deltas_run:
  "tool_deltas jt fresh pos calls p = (q, items) \<Longrightarrow> tool_run i (tool_of p i) items (tool_of q i) (fragments jt i pos calls)"
proof (induction calls arbitrary: pos p q items)
  case Nil
  then show ?case by (auto intro: tool_run_quiet)
next
  case (Cons call calls)
  obtain p1 out1 where 1: "tool_delta jt fresh pos call p = (p1, out1)" by fastforce
  obtain p2 out2 where 2: "tool_deltas jt fresh (pos + 1) calls p1 = (p2, out2)" by fastforce
  have "q = p2" "items = out1 @ out2" using Cons.prems 1 2 by simp_all
  then show ?case using tool_run_append [OF tool_delta_run [OF 1] Cons.IH [OF 2]] by simp
qed


lemma end_tools_run:
  assumes "end_tools p = (q, items)"
  shows "tool_run i (tool_of p i) items (tool_of q i) []"
proof (rule tool_run_quiet)
  have "quiet i (concat (map (\<lambda>(i, t). if ct_started t \<and> \<not> ct_ended t then [Inr (ToolUseEnd i)] else []) ts))" for ts
    by (induction ts) (auto simp: tool_part_def)
  then show "quiet i items" using assms by (auto simp: end_tools_def)
  have "map_of (map (\<lambda>(i, t). (i, end_tool t)) ts) i = map_option end_tool (map_of ts i)" for ts
    by (induction ts) auto
  then have "tool_of q i = (case map_of (cp_tools p) i of Some t \<Rightarrow> end_tool t | None \<Rightarrow> default_tool)"
    using assms by (auto simp: end_tools_def tool_of_def split: option.splits)
  then show "ct_started (tool_of q i) = ct_started (tool_of p i)" "ct_name (tool_of q i) = ct_name (tool_of p i)"
    "ct_pending (tool_of q i) = ct_pending (tool_of p i)"
    by (auto simp: tool_of_def end_tool_def split: option.splits)
qed

lemma tool_of_frame [simp]: "tool_of (p\<lparr>cp_finish := f\<rparr>) i = tool_of p i" "tool_of (p\<lparr>cp_usage := u\<rparr>) i = tool_of p i"
  by (simp_all add: tool_of_def)

lemma quiet_emit [simp]: "quiet i (emit TextDelta t)" "quiet i (emit UsageEvent u)"
  by (auto simp: emit_def tool_part_def split: option.splits)

lemma complete_run:
  assumes "complete p = (q, items)"
  shows "tool_run i (tool_of p i) items (tool_of q i) []"
proof -
  obtain p1 out where 1: "end_tools p = (p1, out)" by fastforce
  obtain tail where "items = out @ tail" "quiet i tail" "tool_of q i = tool_of p1 i"
    using assms 1 by (auto simp: complete_def Let_def tool_part_def)
  then show ?thesis using tool_run_append [OF end_tools_run [OF 1] tool_run_quiet, of i tail "tool_of p1 i"] by simp
qed

definition delta_calls :: "json \<Rightarrow> json list" where
  "delta_calls delta = (case Option.bind (json_get ''tool_calls'' delta) as_array of Some cs \<Rightarrow> cs | None \<Rightarrow> [])"

lemma delta_step_run:
  assumes "delta_step jt fresh delta p = (q, items)"
  shows "tool_run i (tool_of p i) items (tool_of q i) (fragments jt i 0 (delta_calls delta))"
proof -
  define out1 where "out1 = (case or_else (str_field ''reasoning_content'' delta) (str_field ''reasoning'' delta) of
      Some t \<Rightarrow> if t \<noteq> [] then [Inr (ThinkingDelta t)] else [] | None \<Rightarrow> ([] :: stream_item list))"
  have 1: "quiet i (out1 @ emit TextDelta (text_field ''content'' delta))"
    by (auto simp: out1_def tool_part_def split: option.splits)
  obtain p1 out3 where 3: "tool_deltas jt fresh 0 (delta_calls delta) p = (p1, out3)" by fastforce
  have "q = p1" "items = (out1 @ emit TextDelta (text_field ''content'' delta)) @ out3"
    using assms 3 by (auto simp: delta_step_def delta_calls_def out1_def Let_def split: option.splits)
  then show ?thesis using tool_run_append [OF tool_run_quiet [OF 1] tool_deltas_run [OF 3]] by simp
qed

definition choice_calls :: "json \<Rightarrow> json list" where
  "choice_calls choice =
     (case or_else (json_get ''delta'' choice) (json_get ''message'' choice) of Some d \<Rightarrow> delta_calls d | None \<Rightarrow> [])"

lemma chat_choice_run:
  assumes "chat_choice jt fresh choice p = (q, items)"
  shows "tool_run i (tool_of p i) items (tool_of q i) (fragments jt i 0 (choice_calls choice))"
proof -
  obtain p1 out1 where 1: "(case or_else (json_get ''delta'' choice) (json_get ''message'' choice) of
      Some delta \<Rightarrow> delta_step jt fresh delta p | None \<Rightarrow> (p, [])) = (p1, out1)" by fastforce
  then have r1: "tool_run i (tool_of p i) out1 (tool_of p1 i) (fragments jt i 0 (choice_calls choice))"
    by (auto simp: choice_calls_def tool_run_quiet delta_step_run split: option.splits)
  show ?thesis
  proof (cases "str_field ''finish_reason'' choice")
    case None
    then show ?thesis using assms 1 r1 by (simp add: chat_choice_def)
  next
    case (Some r)
    obtain p2 out2 where 2: "end_tools (p1\<lparr>cp_finish := Some r\<rparr>) = (p2, out2)" by fastforce
    have "q = p2" "items = out1 @ out2" using assms 1 2 Some by (simp_all add: chat_choice_def)
    then show ?thesis using tool_run_append [OF r1, of out2 "tool_of p2 i" "[]"] end_tools_run [OF 2, of i] by simp
  qed
qed

text \<open>The calls a server-sent event carries, and the input the provider sent for the call at an index.\<close>

definition event_calls :: "(string \<Rightarrow> string + json) \<Rightarrow> sse_event \<Rightarrow> json list" where
  "event_calls parse_json e =
     (if is_done e then []
      else case parse_json (ev_data e) of
        Inl _ \<Rightarrow> []
      | Inr chunk \<Rightarrow>
          if not_null (json_get ''error'' chunk) \<noteq> None then []
          else (case first_choice chunk of Some choice \<Rightarrow> choice_calls choice | None \<Rightarrow> []))"

definition sent_input :: "(string \<Rightarrow> string + json) \<Rightarrow> (json \<Rightarrow> string) \<Rightarrow> nat \<Rightarrow> sse_event list \<Rightarrow> string" where
  "sent_input parse_json json_text i es = concat (map (\<lambda>e. fragments json_text i 0 (event_calls parse_json e)) es)"

lemma chat_push_run:
  assumes "chat_push pj jt fresh p e = (q, items)"
  shows "tool_run i (tool_of p i) items (tool_of q i) (fragments jt i 0 (event_calls pj e))"
proof (cases "is_done e")
  case True
  then show ?thesis using assms complete_run by (simp add: chat_push_def event_calls_def)
next
  case False
  show ?thesis
  proof (cases "pj (ev_data e)")
    case (Inl x)
    then show ?thesis using assms False by (auto simp: chat_push_def event_calls_def intro: tool_run_quiet)
  next
    case (Inr chunk)
    show ?thesis
    proof (cases "not_null (json_get ''error'' chunk)")
      case (Some err)
      then show ?thesis using assms False Inr by (auto simp: chat_push_def event_calls_def intro: tool_run_quiet)
    next
      case None
      define u where "u = Option.bind (or_else (not_null (json_get ''usage'' chunk))
          (Option.bind (json_get ''x_groq'' chunk) (json_get ''usage''))) parse_usage"
      define p1 where "p1 = (case u of Some u \<Rightarrow> p\<lparr>cp_usage := Some u\<rparr> | None \<Rightarrow> p)"
      have same: "tool_of p1 i = tool_of p i" by (simp add: p1_def split: option.splits)
      have "(case first_choice chunk of Some choice \<Rightarrow> chat_choice jt fresh choice p1 | None \<Rightarrow> (p1, [])) = (q, items)"
        using assms False Inr None unfolding p1_def u_def by (simp add: chat_push_def Let_def)
      then show ?thesis
        using False Inr None same chat_choice_run [where p = p1 and i = i]
        by (auto simp: event_calls_def tool_run_quiet split: option.splits)
    qed
  qed
qed

fun chat_run ::
  "(string \<Rightarrow> string + json) \<Rightarrow> (json \<Rightarrow> string) \<Rightarrow> (nat \<Rightarrow> string) \<Rightarrow> chat_parser \<Rightarrow> sse_event list \<Rightarrow> chat_parser \<times> stream_item list" where
  "chat_run parse_json json_text fresh p [] = (p, [])"
| "chat_run parse_json json_text fresh p (e # es) =
     (let (p1, out1) = chat_push parse_json json_text fresh p e;
          (p2, out2) = chat_run parse_json json_text fresh p1 es
      in (p2, out1 @ out2))"

lemma chat_run_tools:
  "chat_run pj jt fresh p es = (q, items) \<Longrightarrow> tool_run i (tool_of p i) items (tool_of q i) (sent_input pj jt i es)"
proof (induction es arbitrary: p q items)
  case Nil
  then show ?case by (auto simp: sent_input_def intro: tool_run_quiet)
next
  case (Cons e es)
  obtain p1 out1 where 1: "chat_push pj jt fresh p e = (p1, out1)" by fastforce
  obtain p2 out2 where 2: "chat_run pj jt fresh p1 es = (p2, out2)" by fastforce
  have "q = p2" "items = out1 @ out2" using Cons.prems 1 2 by simp_all
  then show ?case using tool_run_append [OF chat_push_run [OF 1] Cons.IH [OF 2]] by (simp add: sent_input_def)
qed


section \<open>Content comes first\<close>

text \<open>Input of calls comes only when a call is open, and a call opens with content.\<close>

definition opened :: "chat_parser \<Rightarrow> bool" where
  "opened p \<longleftrightarrow> list_ex (\<lambda>(i, t). ct_started t) (cp_tools p)"

lemma opened_put: "opened (p\<lparr>cp_tools := put_tool i t (cp_tools p)\<rparr>) \<Longrightarrow> opened p \<or> ct_started t"
proof -
  have "list_ex (\<lambda>(i, t). ct_started t) (put_tool i t ts) \<Longrightarrow> list_ex (\<lambda>(i, t). ct_started t) ts \<or> ct_started t" for ts
    by (induction ts) (auto split: if_splits)
  then show "opened (p\<lparr>cp_tools := put_tool i t (cp_tools p)\<rparr>) \<Longrightarrow> opened p \<or> ct_started t" by (simp add: opened_def)
qed

lemma opened_tool: "ct_started (tool_of p i) \<Longrightarrow> opened p"
  by (auto simp: tool_of_def opened_def default_tool_def list_ex_iff split: option.splits dest: map_of_SomeD)

lemma tool_delta_opens:
  assumes "tool_delta jt fresh pos call p = (q, items)"
  shows "opens (opened p) items (opened q)"
proof -
  define i where "i = call_index pos call"
  define t where "t = (if ct_id (tool_of p i) = None then (tool_of p i)\<lparr>ct_id := text_field ''id'' call\<rparr> else tool_of p i)"
  have t: "ct_started t = ct_started (tool_of p i)" by (simp add: t_def)
  have unf: "tool_delta jt fresh pos call p =
      (let put = (\<lambda>t. p\<lparr>cp_tools := put_tool i t (cp_tools p)\<rparr>)
      in if ct_started t then (put t, if call_arguments jt call \<noteq> [] then [Inr (ToolUseDelta i (call_arguments jt call))] else [])
         else let pending = ct_pending t @ call_arguments jt call in
           case Option.bind (json_get ''function'' call) (text_field ''name'') of
             None \<Rightarrow> (put (t\<lparr>ct_pending := pending\<rparr>), [])
           | Some name \<Rightarrow>
               (put (t\<lparr>ct_name := name, ct_started := True, ct_pending := []\<rparr>),
                Inr (ToolUseStart i (case ct_id t of Some i \<Rightarrow> i | None \<Rightarrow> fresh i) name) #
                (if pending \<noteq> [] then [Inr (ToolUseDelta i pending)] else [])))"
    by (simp only: tool_delta_def t_def tool_of_def Let_def i_def)
  show ?thesis
  proof (cases "ct_started t")
    case True
    then have "opened p" using t opened_tool by simp
    then show ?thesis by (simp add: opens_def)
  next
    case False
    show ?thesis
    proof (cases "Option.bind (json_get ''function'' call) (text_field ''name'')")
      case None
      with False unf assms have "items = []" "q = p\<lparr>cp_tools := put_tool i (t\<lparr>ct_pending := ct_pending t @ call_arguments jt call\<rparr>) (cp_tools p)\<rparr>"
        by simp_all
      then show ?thesis using False opened_put [where p = p and i = i and t = "t\<lparr>ct_pending := ct_pending t @ call_arguments jt call\<rparr>"] by (auto simp: opens_def)
    next
      case (Some name)
      with False unf assms obtain n more where "items = Inr (ToolUseStart i n name) # more" by (simp add: Let_def)
      moreover have "is_content (ToolUseStart i n name)" by (simp add: is_content_def)
      ultimately show ?thesis by (auto simp: opens_def)
    qed
  qed
qed

lemma tool_deltas_opens: "tool_deltas jt fresh pos calls p = (q, items) \<Longrightarrow> opens (opened p) items (opened q)"
proof (induction calls arbitrary: pos p q items)
  case (Cons call calls)
  obtain p1 out1 where 1: "tool_delta jt fresh pos call p = (p1, out1)" by fastforce
  obtain p2 out2 where 2: "tool_deltas jt fresh (pos + 1) calls p1 = (p2, out2)" by fastforce
  have "q = p2" "items = out1 @ out2" using Cons.prems 1 2 by simp_all
  then show ?case using opens_append [OF tool_delta_opens [OF 1] Cons.IH [OF 2]] by simp
qed simp

lemma end_tools_opens:
  assumes "end_tools p = (q, items)"
  shows "opens (opened p) items (opened q)"
proof -
  have "list_ex (\<lambda>(i, t). ct_started t) (map (\<lambda>(i, t). (i, end_tool t)) ts) = list_ex (\<lambda>(i, t). ct_started t) ts" for ts
    by (induction ts) (auto simp: end_tool_def)
  note same = this [of "cp_tools p"]
  have tools: "cp_tools q = map (\<lambda>(i, t). (i, end_tool t)) (cp_tools p)" using assms by (auto simp: end_tools_def)
  have "opened q = opened p" unfolding opened_def tools by (rule same)
  moreover have "\<forall>e. Inr e \<in> set items \<longrightarrow> \<not> continues e"
    using assms by (auto simp: end_tools_def continues_def split: if_splits)
  ultimately show ?thesis by (simp add: opens_plain)
qed

lemma opened_frame [simp]: "opened (p\<lparr>cp_finish := f\<rparr>) = opened p" "opened (p\<lparr>cp_usage := u\<rparr>) = opened p"
  by (simp_all add: opened_def)

lemma complete_opens:
  assumes "complete p = (q, items)"
  shows "opens (opened p) items (opened q)"
proof -
  obtain p1 out where 1: "end_tools p = (p1, out)" by fastforce
  obtain tail where "items = out @ tail" "\<forall>e. Inr e \<in> set tail \<longrightarrow> \<not> continues e" "opened q = opened p1"
    using assms 1 by (auto simp: complete_def Let_def emit_def continues_def split: option.splits)
  then show ?thesis using opens_append [OF end_tools_opens [OF 1] opens_plain] by simp
qed

lemma delta_step_opens:
  assumes "delta_step jt fresh delta p = (q, items)"
  shows "opens (opened p) items (opened q)"
proof -
  define out where "out = (case or_else (str_field ''reasoning_content'' delta) (str_field ''reasoning'' delta) of
      Some t \<Rightarrow> if t \<noteq> [] then [Inr (ThinkingDelta t)] else [] | None \<Rightarrow> ([] :: stream_item list)) @
      emit TextDelta (text_field ''content'' delta)"
  have 1: "opens (opened p) out (opened p)"
    by (rule opens_plain) (auto simp: out_def emit_def continues_def split: option.splits if_splits)
  obtain p1 out3 where 3: "tool_deltas jt fresh 0 (delta_calls delta) p = (p1, out3)" by fastforce
  have "q = p1" "items = out @ out3"
    using assms 3 by (auto simp: delta_step_def delta_calls_def out_def Let_def split: option.splits)
  then show ?thesis using opens_append [OF 1 tool_deltas_opens [OF 3]] by simp
qed

lemma chat_choice_opens:
  assumes "chat_choice jt fresh choice p = (q, items)"
  shows "opens (opened p) items (opened q)"
proof -
  obtain p1 out1 where 1: "(case or_else (json_get ''delta'' choice) (json_get ''message'' choice) of
      Some delta \<Rightarrow> delta_step jt fresh delta p | None \<Rightarrow> (p, [])) = (p1, out1)" by fastforce
  then have r1: "opens (opened p) out1 (opened p1)"
    by (auto simp: delta_step_opens split: option.splits)
  show ?thesis
  proof (cases "str_field ''finish_reason'' choice")
    case None
    then show ?thesis using assms 1 r1 by (simp add: chat_choice_def)
  next
    case (Some r)
    obtain p2 out2 where 2: "end_tools (p1\<lparr>cp_finish := Some r\<rparr>) = (p2, out2)" by fastforce
    have "q = p2" "items = out1 @ out2" using assms 1 2 Some by (simp_all add: chat_choice_def)
    then show ?thesis using opens_append [OF r1] end_tools_opens [OF 2] by simp
  qed
qed

lemma chat_push_opens:
  assumes "chat_push pj jt fresh p e = (q, items)"
  shows "opens (opened p) items (opened q)"
proof (cases "\<exists>chunk. \<not> is_done e \<and> pj (ev_data e) = Inr chunk \<and> not_null (json_get ''error'' chunk) = None")
  case False
  then consider "is_done e" | x where "\<not> is_done e" "pj (ev_data e) = Inl x"
    | chunk err where "\<not> is_done e" "pj (ev_data e) = Inr chunk" "not_null (json_get ''error'' chunk) = Some err"
    by (cases "pj (ev_data e)") auto
  then show ?thesis
    using assms complete_opens by cases (auto simp: chat_push_def intro!: opens_plain)
next
  case True
  then obtain chunk where c: "\<not> is_done e" "pj (ev_data e) = Inr chunk" "not_null (json_get ''error'' chunk) = None" by blast
  define u where "u = Option.bind (or_else (not_null (json_get ''usage'' chunk))
      (Option.bind (json_get ''x_groq'' chunk) (json_get ''usage''))) parse_usage"
  define p1 where "p1 = (case u of Some u \<Rightarrow> p\<lparr>cp_usage := Some u\<rparr> | None \<Rightarrow> p)"
  have same: "opened p1 = opened p" by (simp add: p1_def split: option.splits)
  have "(case first_choice chunk of Some choice \<Rightarrow> chat_choice jt fresh choice p1 | None \<Rightarrow> (p1, [])) = (q, items)"
    using assms c unfolding p1_def u_def by (simp add: chat_push_def Let_def)
  then show ?thesis using same chat_choice_opens [where p = p1] by (auto split: option.splits)
qed

lemma chat_finish_opens: "chat_finish p = (q, items) \<Longrightarrow> opens (opened p) items (opened q)"
  using complete_opens by (auto simp: chat_finish_def intro: opens_plain split: if_splits)


interpretation chat_opening: traced_parser "chat_ops parse_json json_text fresh" "\<lambda>p out. opens False out (opened p)" content_first
  for parse_json json_text fresh
proof
  fix p q :: chat_parser and out items :: "stream_item list" and later e n ms why ev
  show "content_first (out @ later) \<Longrightarrow> content_first out" "content_first out \<Longrightarrow> content_first (out @ [Inl e])"
    by (simp_all add: content_first_append)
  show "opens False out (opened p) \<Longrightarrow> content_first out" by (simp add: opens_def)
  show "opens False out (opened p) \<Longrightarrow> opens False (out @ [Inr (Retrying n ms why)]) (opened p)"
    by (rule opens_append [OF _ opens_plain]) (simp_all add: continues_def)
  show "opens False out (opened p) \<Longrightarrow> sp_push (chat_ops parse_json json_text fresh) p ev = (q, items) \<Longrightarrow>
      opens False (out @ items) (opened q)"
    by (rule opens_append [OF _ chat_push_opens]) (simp_all add: chat_ops_def)
  show "opens False out (opened p) \<Longrightarrow> sp_finish (chat_ops parse_json json_text fresh) p = (q, items) \<Longrightarrow>
      opens False (out @ items) (opened q)"
    by (rule opens_append [OF _ chat_finish_opens]) (simp_all add: chat_ops_def)
qed

text \<open>
  What \<open>run\<close> of \<open>transport.rs\<close> sends with the Chat Completions parser to a consumer that stays. A cancellation while it runs
  is \<open>spawn_stream\<close>, on top of it.
\<close>

definition chat_stream ::
  "'f f64_ops \<Rightarrow> (nat \<Rightarrow> string) \<Rightarrow> retry_policy \<Rightarrow> (string \<Rightarrow> string + json) \<Rightarrow> (json \<Rightarrow> string) \<Rightarrow> (nat \<Rightarrow> string) \<Rightarrow>
   (nat \<Rightarrow> attempt_env) \<Rightarrow> stream_item list" where
  "chat_stream f status_text policy parse_json json_text fresh env =
     sk_delivered (run_stream f status_text policy env (chat_ops parse_json json_text fresh) new_chat_parser open_sink)"

interpretation chat_client: model_client "\<lambda>n m. chat_stream f st policy pj jt fresh (env n m)" for f st policy pj jt fresh env
proof
  show "ends_once (chat_stream f st policy pj jt fresh (env n m))" for n m
    using chat_closing.run_stream_spec [OF open_sink_going(1)] by (simp add: chat_stream_def)
qed

lemma chat_stream_content_first: "content_first (chat_stream f st policy pj jt fresh env)"
  using chat_opening.run_stream_good [where p = new_chat_parser and s = open_sink]
  by (simp add: chat_stream_def opened_def new_chat_parser_def)


section \<open>Properties\<close>

lemma item_part_events: "input_parts i items = concat (map (tool_part i) (List.map_filter (\<lambda>x. case x of Inr e \<Rightarrow> Some e | Inl _ \<Rightarrow> None) items))"
  by (induction items) (auto simp: List.map_filter_simps split: sum.splits)

definition streamed_events :: "stream_item list \<Rightarrow> model_event list" where
  "streamed_events items = List.map_filter (\<lambda>x. case x of Inr e \<Rightarrow> Some e | Inl _ \<Rightarrow> None) items"

text \<open>
  C18. The input of a tool call arrives whole. For any server-sent events of a Chat Completions stream, however the provider
  splits a call, and also when input comes before its name, every call that got a name is in the assembled turn with this
  name, and its input is what the concatenation of everything the provider sent for its index parses to.
\<close>

theorem chat_tool_calls_arrive_whole:
  assumes "chat_run pj jt fresh new_chat_parser es = (p, items)" "ct_started (tool_of p i)"
  shows "\<exists>n. (n, ct_name (tool_of p i), input_of pj jt (sent_input pj jt i es))
    \<in> set (turn_calls (at_content (finish_turn pj jt (absorb_all fresh new_accumulator (streamed_events items)))))"
proof -
  have "tool_of new_chat_parser i = default_tool" by (simp add: tool_of_def new_chat_parser_def)
  with chat_run_tools [OF assms(1), of i] have "tool_run i default_tool items (tool_of p i) (sent_input pj jt i es)" by simp
  with assms(2) obtain pre n post where items: "items = pre @ Inr (ToolUseStart i n (ct_name (tool_of p i))) # post"
    "list_all (\<lambda>x. \<not> item_start i x) post" "input_parts i post = sent_input pj jt i es"
    by (auto simp: tool_run_def default_tool_def)
  have "\<forall>e \<in> set (streamed_events post). \<not> is_start i e"
    using items(2) by (auto simp: streamed_events_def List.map_filter_def list_all_iff split: sum.splits)
  from call_at_built [OF started_call_at [OF this]]
  have "(n, ct_name (tool_of p i), input_parts i post) \<in> set (built_calls (ac_blocks (absorb_all fresh new_accumulator (streamed_events items))))"
    unfolding items(1) item_part_events streamed_events_def
    by (simp add: List.map_filter_def)
  then show ?thesis unfolding items(3) by (force simp: finish_calls)
qed

definition chunk_of :: "(string \<times> json) list \<Rightarrow> json" where
  "chunk_of call = JObject [(''choices'', JArray [JObject [(''delta'', JObject [(''tool_calls'', JArray [JObject call])])]])]"

definition sample_json :: "string \<Rightarrow> string + json" where
  "sample_json s =
     (if s = ''1'' then Inr (chunk_of [(''id'', JString ''a''), (''function'', JObject [(''arguments'', JString ''{'')])])
      else if s = ''2'' then Inr (chunk_of [(''function'', JObject [(''name'', JString ''read''), (''arguments'', JString ''}'')])])
      else if s = ''{}'' then Inr (JObject [])
      else Inl ''bad'')"

theorem chat_tool_calls_arrive_whole_witness:
  "\<exists>n. (n, ''read'', JObject []) \<in> set (turn_calls (at_content (finish_turn sample_json (\<lambda>v. []) (absorb_all (\<lambda>i. []) new_accumulator
     (streamed_events (snd (chat_run sample_json (\<lambda>v. []) (\<lambda>i. []) new_chat_parser
        [\<lparr>ev_event = None, ev_data = ''1''\<rparr>, \<lparr>ev_event = None, ev_data = ''2''\<rparr>])))))))"
proof -
  let ?es = "[\<lparr>ev_event = None, ev_data = ''1''\<rparr>, \<lparr>ev_event = None, ev_data = ''2''\<rparr>]"
  obtain p items where run: "chat_run sample_json (\<lambda>v. []) (\<lambda>i. []) new_chat_parser ?es = (p, items)" by fastforce
  have nd: "\<not> is_done \<lparr>ev_event = None, ev_data = ''1''\<rparr>" "\<not> is_done \<lparr>ev_event = None, ev_data = ''2''\<rparr>"
    by code_simp+
  have "p = \<lparr>cp_tools = [(0, \<lparr>ct_id = Some ''a'', ct_name = ''read'', ct_pending = [], ct_started = True, ct_ended = False\<rparr>)],
      cp_finish = None, cp_usage = None\<rparr>"
    using run nd by (simp add: chat_push_def sample_json_def chunk_of_def not_null_def or_else_def first_choice_def chat_choice_def
        delta_step_def tool_delta_def call_index_def call_arguments_def new_chat_parser_def default_tool_def text_field_def
        str_field_def emit_def)
  then have started: "ct_started (tool_of p 0)" "ct_name (tool_of p 0) = ''read''" by (simp_all add: tool_of_def)
  have sent: "sent_input sample_json (\<lambda>v. []) 0 ?es = ''{}''"
    using nd by (simp add: sent_input_def event_calls_def sample_json_def chunk_of_def not_null_def or_else_def first_choice_def
        choice_calls_def delta_calls_def fragment_def call_index_def call_arguments_def)
  have "trim ''{}'' \<noteq> []" by code_simp
  then have "input_of sample_json (\<lambda>v. []) ''{}'' = JObject []"
    by (simp add: input_of_def parse_input_def sample_json_def)
  with chat_tool_calls_arrive_whole [OF run started(1)] started(2) sent run show ?thesis by simp
qed

text \<open>
  C17. The answer of a fallback run over the Chat Completions adapter is that of one model. For any requests, retries, network,
  cancellation between attempts and list of fallbacks, the stream ends with exactly one stop or error, and its drained result
  (the content blocks and malformed calls, or the error) is the drained result of one attempt alone: the attempts before it
  failed with a retryable error, before any content.
\<close>

theorem chat_fallbacks_answer_from_one_model:
  "ends_once (fallback_stream (\<lambda>n m. chat_stream f st policy pj jt fresh (env n m)) cancelled model fallbacks) \<and>
   (\<exists>n \<le> length fallbacks.
      replayed (\<lambda>n m. chat_stream f st policy pj jt fresh (env n m)) cancelled 0 (model # fallbacks) n \<and>
      turn_answer (collect pj jt fresh (fallback_stream (\<lambda>n m. chat_stream f st policy pj jt fresh (env n m)) cancelled model fallbacks)) =
      turn_answer (collect pj jt fresh (chat_stream f st policy pj jt fresh (env n ((model # fallbacks) ! n)))))"
proof -
  let ?inner = "\<lambda>n m. chat_stream f st policy pj jt fresh (env n m)"
  have ends: "ends_once (?inner n m)" for n m by (rule chat_client.contract)
  have first: "content_first (?inner n m)" for n m by (rule chat_stream_content_first)
  show ?thesis
    using chat_client.fallback_contract [of f st policy pj jt fresh env cancelled model fallbacks]
      fallback_turns_come_from_one_model [where inner = ?inner, OF ends first] by blast
qed

text \<open>
  A call that gets its name only after the chunk with the finish reason was already marked as ended: it is started, but its
  end is never reported.
\<close>

lemma late_names_have_no_end:
  assumes "cp_tools p = [(0, default_tool\<lparr>ct_ended := True\<rparr>)]" "text_field ''name'' fn = Some name" "json_get ''arguments'' fn = None"
    "json_get ''function'' call = Some fn" "json_get ''index'' call = None" "text_field ''id'' call = Some n"
  shows "snd (complete (fst (tool_delta jt fresh 0 call p))) =
    emit UsageEvent (cp_usage p) @ [Inr (StopEvent (case cp_finish p of Some r \<Rightarrow> chat_stop_reason r True | None \<Rightarrow> ToolUseStop))]"
    "snd (tool_delta jt fresh 0 call p) = [Inr (ToolUseStart 0 n name)]"
  using assms by (simp_all add: tool_delta_def call_index_def call_arguments_def default_tool_def Let_def complete_def end_tools_def end_tool_def split: option.split)

end
