(* ===== verification/Anthropic.thy ===== *)
theory Anthropic
  imports Openai
begin

text \<open>
  \<open>crates/z-engine-llm/src/anthropic/stream.rs\<close>: the event stream of the Anthropic Messages API as events of a model
  response. The \<open>BTreeSet\<close> of open calls is its list of indices in order.
\<close>

section \<open>The parser\<close>

record messages_parser =
  mp_open :: "nat list"
  mp_usage :: usage
  mp_stop :: "stop_reason option"

definition new_messages_parser :: messages_parser where
  "new_messages_parser = \<lparr>mp_open = [], mp_usage = no_usage, mp_stop = None\<rparr>"

definition block_index :: "json \<Rightarrow> nat option" where
  "block_index v = Option.bind (json_get ''index'' v) as_u64"

definition messages_stop_reason :: "string \<Rightarrow> stop_reason" where
  "messages_stop_reason r =
     (if r = ''end_turn'' then EndTurn
      else if r = ''tool_use'' then ToolUseStop
      else if r = ''max_tokens'' then MaxTokensStop
      else if r = ''stop_sequence'' then StopSequence
      else if r = ''refusal'' then Refusal
      else OtherStop r)"

definition messages_error :: "(json \<Rightarrow> string) \<Rightarrow> json \<Rightarrow> llm_error" where
  "messages_error json_text e =
     (let detail = (case str_field ''message'' e of Some m \<Rightarrow> m | None \<Rightarrow> json_text e);
          kind = (case str_field ''type'' e of Some k \<Rightarrow> k | None \<Rightarrow> [])
      in if kind = ''overloaded_error'' then Overloaded 1 detail
         else if kind = ''rate_limit_error'' then RateLimited 1 detail
         else HttpError
           (if kind = ''invalid_request_error'' then 400
            else if kind = ''authentication_error'' then 401
            else if kind = ''permission_error'' then 403
            else if kind = ''not_found_error'' then 404
            else if kind = ''request_too_large'' then 413
            else 500) detail)"

definition block_start :: "json \<Rightarrow> messages_parser \<Rightarrow> messages_parser \<times> stream_item list" where
  "block_start msg p =
     (case (block_index msg, json_get ''content_block'' msg) of
        (Some i, Some block) \<Rightarrow>
          (let kind = str_field ''type'' block;
               or_empty = (\<lambda>k. case text_field k block of Some s \<Rightarrow> s | None \<Rightarrow> [])
           in if kind = Some ''text'' then (p, emit TextDelta (text_field ''text'' block))
              else if kind = Some ''thinking'' then
                (p, emit ThinkingDelta (text_field ''thinking'' block) @ emit ThinkingSignature (text_field ''signature'' block))
              else if kind = Some ''redacted_thinking'' then (p, [Inr (RedactedDelta (or_empty ''data''))])
              else if kind = Some ''tool_use'' then
                (p\<lparr>mp_open := insort_insert i (mp_open p)\<rparr>, [Inr (ToolUseStart i (or_empty ''id'') (or_empty ''name''))])
              else (p, []))
      | _ \<Rightarrow> (p, []))"

definition block_delta :: "json \<Rightarrow> stream_item list" where
  "block_delta msg =
     (case (block_index msg, json_get ''delta'' msg) of
        (Some i, Some delta) \<Rightarrow>
          (let kind = str_field ''type'' delta
           in if kind = Some ''text_delta'' then emit TextDelta (text_field ''text'' delta)
              else if kind = Some ''thinking_delta'' then emit ThinkingDelta (text_field ''thinking'' delta)
              else if kind = Some ''signature_delta'' then emit ThinkingSignature (text_field ''signature'' delta)
              else if kind = Some ''input_json_delta'' then emit (ToolUseDelta i) (text_field ''partial_json'' delta)
              else [])
      | _ \<Rightarrow> [])"

definition block_stop :: "json \<Rightarrow> messages_parser \<Rightarrow> messages_parser \<times> stream_item list" where
  "block_stop msg p =
     (case block_index msg of
        Some i \<Rightarrow> if i \<in> set (mp_open p) then (p\<lparr>mp_open := remove1 i (mp_open p)\<rparr>, [Inr (ToolUseEnd i)]) else (p, [])
      | None \<Rightarrow> (p, []))"

definition update_usage :: "json \<Rightarrow> messages_parser \<Rightarrow> messages_parser" where
  "update_usage v p =
     (let field = (\<lambda>name old. case Option.bind (json_get name v) as_u64 of Some n \<Rightarrow> (of_nat n :: u64) | None \<Rightarrow> old);
          u = mp_usage p
      in p\<lparr>mp_usage := u\<lparr>input_tokens := field ''input_tokens'' (input_tokens u),
           cache_write_tokens := field ''cache_creation_input_tokens'' (cache_write_tokens u),
           cache_read_tokens := field ''cache_read_input_tokens'' (cache_read_tokens u),
           output_tokens := field ''output_tokens'' (output_tokens u)\<rparr>\<rparr>)"

definition messages_complete :: "stop_reason \<Rightarrow> messages_parser \<Rightarrow> messages_parser \<times> stream_item list" where
  "messages_complete fallback p =
     (p\<lparr>mp_open := [], mp_stop := None\<rparr>,
      map (\<lambda>i. Inr (ToolUseEnd i)) (mp_open p) @
      (if usage_is_empty (mp_usage p) then [] else [Inr (UsageEvent (mp_usage p))]) @
      [Inr (StopEvent (case mp_stop p of Some r \<Rightarrow> r | None \<Rightarrow> fallback))])"

definition event_kind :: "sse_event \<Rightarrow> json \<Rightarrow> string" where
  "event_kind e msg = (case or_else (str_field ''type'' msg) (ev_event e) of Some k \<Rightarrow> k | None \<Rightarrow> [])"

definition messages_push ::
  "(string \<Rightarrow> string + json) \<Rightarrow> (json \<Rightarrow> string) \<Rightarrow> messages_parser \<Rightarrow> sse_event \<Rightarrow> messages_parser \<times> stream_item list" where
  "messages_push parse_json json_text p e =
     (case parse_json (ev_data e) of
        Inl _ \<Rightarrow> (p, [])
      | Inr msg \<Rightarrow>
          (let kind = event_kind e msg
           in if kind = ''message_start'' then
                (case Option.bind (json_get ''message'' msg) (json_get ''usage'') of
                   Some u \<Rightarrow> update_usage u p | None \<Rightarrow> p, [])
              else if kind = ''content_block_start'' then block_start msg p
              else if kind = ''content_block_delta'' then (p, block_delta msg)
              else if kind = ''content_block_stop'' then block_stop msg p
              else if kind = ''message_delta'' then
                (let p1 = (case Option.bind (json_get ''delta'' msg) (str_field ''stop_reason'') of
                        Some r \<Rightarrow> p\<lparr>mp_stop := Some (messages_stop_reason r)\<rparr> | None \<Rightarrow> p)
                 in (case json_get ''usage'' msg of Some u \<Rightarrow> update_usage u p1 | None \<Rightarrow> p1, []))
              else if kind = ''message_stop'' then messages_complete EndTurn p
              else if kind = ''error'' then
                (p, [Inl (messages_error json_text (case json_get ''error'' msg of Some err \<Rightarrow> err | None \<Rightarrow> msg))])
              else (p, [])))"

definition messages_finish :: "messages_parser \<Rightarrow> messages_parser \<times> stream_item list" where
  "messages_finish p = (if mp_stop p \<noteq> None then messages_complete EndTurn p else (p, [Inl stream_ended]))"

definition messages_ops ::
  "(string \<Rightarrow> string + json) \<Rightarrow> (json \<Rightarrow> string) \<Rightarrow> messages_parser stream_parser" where
  "messages_ops parse_json json_text =
     \<lparr>sp_push = messages_push parse_json json_text, sp_finish = messages_finish\<rparr>"

section \<open>The contract of streams\<close>

interpretation messages_closing: closing_parser "messages_ops parse_json json_text" for parse_json json_text
  by unfold_locales (simp add: messages_ops_def messages_finish_def messages_complete_def ends_stream_def)

text \<open>What \<open>run\<close> sends with the Messages parser to a consumer that stays.\<close>

definition messages_stream ::
  "'f f64_ops \<Rightarrow> (nat \<Rightarrow> string) \<Rightarrow> retry_policy \<Rightarrow> (string \<Rightarrow> string + json) \<Rightarrow> (json \<Rightarrow> string) \<Rightarrow>
   (nat \<Rightarrow> attempt_env) \<Rightarrow> stream_item list" where
  "messages_stream f status_text policy parse_json json_text env =
     sk_delivered (run_stream f status_text policy env (messages_ops parse_json json_text) new_messages_parser open_sink)"

interpretation messages_client: model_client "\<lambda>n m. messages_stream f st policy pj jt (env n m)" for f st policy pj jt env
proof
  show "ends_once (messages_stream f st policy pj jt (env n m))" for n m
    using messages_closing.run_stream_spec [OF open_sink_going(1)] by (simp add: messages_stream_def)
qed

section \<open>Open calls\<close>

text \<open>
  The calls that are open after some items; items are balanced when each end is that of an open call and no call is open at
  a stop.
\<close>

fun open_calls :: "nat set \<Rightarrow> stream_item list \<Rightarrow> nat set" where
  "open_calls s [] = s"
| "open_calls s (Inr (ToolUseStart i _ _) # items) = open_calls (insert i s) items"
| "open_calls s (Inr (ToolUseEnd i) # items) = open_calls (s - {i}) items"
| "open_calls s (_ # items) = open_calls s items"

fun balanced :: "nat set \<Rightarrow> stream_item list \<Rightarrow> bool" where
  "balanced s [] = True"
| "balanced s (Inr (ToolUseStart i _ _) # items) = balanced (insert i s) items"
| "balanced s (Inr (ToolUseEnd i) # items) = (i \<in> s \<and> balanced (s - {i}) items)"
| "balanced s (Inr (StopEvent r) # items) = (s = {} \<and> balanced s items)"
| "balanced s (_ # items) = balanced s items"

lemma open_calls_append [simp]: "open_calls s (xs @ ys) = open_calls (open_calls s xs) ys"
  by (induction s xs rule: open_calls.induct) auto

lemma balanced_append [simp]: "balanced s (xs @ ys) \<longleftrightarrow> balanced s xs \<and> balanced (open_calls s xs) ys"
  by (induction s xs rule: balanced.induct) auto

definition tracks :: "messages_parser \<Rightarrow> stream_item list \<Rightarrow> messages_parser \<Rightarrow> bool" where
  "tracks p items q \<longleftrightarrow> (distinct (mp_open p) \<longrightarrow>
     distinct (mp_open q) \<and> open_calls (set (mp_open p)) items = set (mp_open q) \<and> balanced (set (mp_open p)) items)"

lemma tracks_append: "tracks p xs q \<Longrightarrow> tracks q ys r \<Longrightarrow> tracks p (xs @ ys) r"
  by (simp add: tracks_def)

lemma emit_plain [simp]:
  "open_calls s (emit TextDelta t) = s" "balanced s (emit TextDelta t)"
  "open_calls s (emit ThinkingDelta t) = s" "balanced s (emit ThinkingDelta t)"
  "open_calls s (emit ThinkingSignature t) = s" "balanced s (emit ThinkingSignature t)"
  "open_calls s (emit (ToolUseDelta i) t) = s" "balanced s (emit (ToolUseDelta i) t)"
  by (auto simp: emit_def split: option.splits)

lemma block_start_tracks: "block_start msg p = (q, items) \<Longrightarrow> tracks p items q"
  by (auto simp: block_start_def tracks_def Let_def set_insort_insert distinct_insort_insert split: option.splits if_splits)

lemma block_delta_tracks: "tracks p (block_delta msg) p"
  by (auto simp: block_delta_def tracks_def Let_def split: option.splits)

lemma block_stop_tracks: "block_stop msg p = (q, items) \<Longrightarrow> tracks p items q"
  by (auto simp: block_stop_def tracks_def split: option.splits if_splits)

lemma closing_ends:
  "distinct js \<Longrightarrow> open_calls (set js) (map (\<lambda>i. Inr (ToolUseEnd i)) js) = {} \<and>
     balanced (set js) (map (\<lambda>i. Inr (ToolUseEnd i)) js)"
proof -
  have "distinct js \<Longrightarrow> set js \<subseteq> s \<Longrightarrow> open_calls s (map (\<lambda>i. Inr (ToolUseEnd i)) js) = s - set js \<and>
     balanced s (map (\<lambda>i. Inr (ToolUseEnd i)) js)" for s
  proof (induction js arbitrary: s)
    case (Cons a js)
    then have "set js \<subseteq> s - {a}" by auto
    with Cons.IH [of "s - {a}"] Cons.prems show ?case by auto
  qed simp
  then show "distinct js \<Longrightarrow> ?thesis" by simp
qed

lemma complete_tracks: "messages_complete d p = (q, items) \<Longrightarrow> tracks p items q"
  using closing_ends [of "mp_open p"] by (auto simp: messages_complete_def tracks_def split: if_splits)

lemma update_usage_open [simp]: "mp_open (update_usage v p) = mp_open p"
  by (simp add: update_usage_def Let_def)

lemma push_tracks:
  assumes "messages_push pj jt p e = (q, items)"
  shows "tracks p items q"
proof (cases "pj (ev_data e)")
  case (Inl x)
  then show ?thesis using assms by (simp add: messages_push_def tracks_def)
next
  case (Inr msg)
  then show ?thesis
    using assms block_start_tracks block_stop_tracks complete_tracks
    by (auto simp: messages_push_def Let_def block_delta_tracks split: if_splits)
      (auto simp: tracks_def split: option.splits)
qed


lemma finish_tracks: "messages_finish p = (q, items) \<Longrightarrow> tracks p items q"
  using complete_tracks by (auto simp: messages_finish_def tracks_def split: if_splits)

definition tracked :: "messages_parser \<Rightarrow> stream_item list \<Rightarrow> bool" where
  "tracked p out \<longleftrightarrow> distinct (mp_open p) \<and> open_calls {} out = set (mp_open p) \<and> balanced {} out"

lemma tracked_tracks: "tracked p out \<Longrightarrow> tracks p items q \<Longrightarrow> tracked q (out @ items)"
  by (simp add: tracked_def tracks_def)

interpretation messages_tracked: traced_parser "messages_ops parse_json json_text" tracked "balanced {}" for parse_json json_text
proof
  fix p q :: messages_parser and out items :: "stream_item list" and later e n ms why ev
  show "balanced {} (out @ later) \<Longrightarrow> balanced {} out" "balanced {} out \<Longrightarrow> balanced {} (out @ [Inl e])" by simp_all
  show "tracked p out \<Longrightarrow> balanced {} out" by (simp add: tracked_def)
  show "tracked p out \<Longrightarrow> tracked p (out @ [Inr (Retrying n ms why)])" by (simp add: tracked_def)
  show "tracked p out \<Longrightarrow> sp_push (messages_ops parse_json json_text) p ev = (q, items) \<Longrightarrow> tracked q (out @ items)"
    by (rule tracked_tracks [OF _ push_tracks]) (simp_all add: messages_ops_def)
  show "tracked p out \<Longrightarrow> sp_finish (messages_ops parse_json json_text) p = (q, items) \<Longrightarrow> tracked q (out @ items)"
    by (rule tracked_tracks [OF _ finish_tracks]) (simp_all add: messages_ops_def)
qed

text \<open>Cancelling a stream.\<close>

lemma spawn_stream_butlast:
  assumes "\<not> list_ex ends_stream (butlast items)"
  shows "\<not> list_ex ends_stream (butlast (spawn_stream cancelled items))"
proof (cases "\<exists>sent has_room. cancelled = Some (sent, has_room) \<and> sent < length items")
  case True
  then obtain sent has_room where c: "cancelled = Some (sent, has_room)" "sent < length items" by blast
  have "take sent items = take sent (butlast items)" using c(2) by (simp add: take_butlast)
  then have "\<not> list_ex ends_stream (take sent items)" using assms by (auto simp: list_ex_iff dest: in_set_takeD)
  then have "\<not> list_ex ends_stream (butlast (take sent items))" by (auto simp: list_ex_iff dest: in_set_butlastD)
  then show ?thesis using c \<open>\<not> list_ex ends_stream (take sent items)\<close> by (simp add: spawn_stream_def)
qed (use assms in \<open>auto simp: spawn_stream_def split: option.splits\<close>)

lemma spawn_stream_ends:
  assumes "ends_once items"
  shows "if \<exists>n. cancelled = Some (n, False) then \<not> list_ex ends_stream (butlast (spawn_stream cancelled items))
    else ends_once (spawn_stream cancelled items)"
proof -
  have i: "items \<noteq> []" "ends_stream (last items)" "\<not> list_ex ends_stream (butlast items)" using assms by (auto simp: ends_once_def)
  have "ends_once (spawn_stream cancelled items)" if "\<nexists>n. cancelled = Some (n, False)"
  proof (cases "\<exists>n. cancelled = Some (n, True) \<and> n < length items")
    case True
    then obtain n where c: "cancelled = Some (n, True)" "n < length items" by blast
    then have "spawn_stream cancelled items = take n items @ [Inl LlmCancelled]" by (simp add: spawn_stream_def)
    then show ?thesis using spawn_stream_butlast [OF i(3), of cancelled] by (simp add: ends_once_def ends_stream_def)
  qed (use that assms in \<open>auto simp: spawn_stream_def split: option.splits\<close>)
  then show ?thesis using spawn_stream_butlast [OF i(3)] by simp
qed

section \<open>Properties\<close>

text \<open>
  C19. A stream of a provider adapter ends exactly once, unless it is cancelled while its channel is full. For any retries,
  responses, chunks, read errors, events and any moment of cancellation, what a consumer that stays gets from the Chat
  Completions and the Messages adapter ends with one stop or one error and has neither before, except that the error of a
  cancellation is lost when the channel has no room for it; in that case, and for a consumer that leaves, there is at most
  one stop or error, as the last item.
\<close>

theorem provider_streams_end_once:
  "(if \<exists>n. cancelled = Some (n, False)
    then \<not> list_ex ends_stream (butlast (spawn_stream cancelled (chat_stream f st policy pj jt fresh env))) \<and>
      \<not> list_ex ends_stream (butlast (spawn_stream cancelled (messages_stream f st policy pj jt env)))
    else ends_once (spawn_stream cancelled (chat_stream f st policy pj jt fresh env)) \<and>
      ends_once (spawn_stream cancelled (messages_stream f st policy pj jt env))) \<and>
   \<not> list_ex ends_stream (butlast (spawn_stream cancelled (sk_delivered
      (run_stream f st policy env (chat_ops pj jt fresh) new_chat_parser \<lparr>sk_delivered = [], sk_left = Some k\<rparr>)))) \<and>
   \<not> list_ex ends_stream (butlast (spawn_stream cancelled (sk_delivered
      (run_stream f st policy env (messages_ops pj jt) new_messages_parser \<lparr>sk_delivered = [], sk_left = Some k\<rparr>))))"
proof -
  let ?left = "\<lparr>sk_delivered = [], sk_left = Some k\<rparr>"
  have "going ?left" by (simp add: going_def)
  then have "settled False (run_stream f st policy env (chat_ops pj jt fresh) new_chat_parser ?left)"
    "settled False (run_stream f st policy env (messages_ops pj jt) new_messages_parser ?left)"
    using chat_closing.run_stream_spec [of ?left] messages_closing.run_stream_spec [of ?left] by fastforce+
  then have left:
    "\<not> list_ex ends_stream (butlast (sk_delivered (run_stream f st policy env (chat_ops pj jt fresh) new_chat_parser ?left)))"
    "\<not> list_ex ends_stream (butlast (sk_delivered (run_stream f st policy env (messages_ops pj jt) new_messages_parser ?left)))"
    by (simp_all add: settled_def)
  have stays: "ends_once (chat_stream f st policy pj jt fresh env)" "ends_once (messages_stream f st policy pj jt env)"
    by (rule chat_client.contract) (rule messages_client.contract)
  show ?thesis
    using spawn_stream_ends [OF stays(1), of cancelled] spawn_stream_ends [OF stays(2), of cancelled]
      spawn_stream_butlast [OF left(1), of cancelled] spawn_stream_butlast [OF left(2), of cancelled]
    by (cases "\<exists>n. cancelled = Some (n, False)") simp_all
qed

text \<open>
  Tool calls of the Messages adapter are closed before the response stops. In every stream each end names a call that is
  open, and when the stop comes every call that was started has ended, also when the provider never stopped its block.
\<close>

theorem messages_calls_are_closed:
  "balanced {} (messages_stream f st policy pj jt env)"
  using messages_tracked.run_stream_good [where p = new_messages_parser and s = open_sink]
  by (simp add: messages_stream_def tracked_def new_messages_parser_def)

end
