(* ===== verification/Settings_Layers.thy ===== *)
theory Settings_Layers
  imports Batch Examples "HOL-Library.Sublist"
begin

text \<open>
  Layered settings: \<open>crates/z-engine-config/src/merge.rs\<close> (the merge of two TOML tables), the layering of \<open>loader.rs\<close> and
  the schema of \<open>document.rs\<close>.

  A table is an association list with distinct keys (\<open>wf_toml\<close>); the order of keys is not observed. A float is the shortest
  text of its value. \<open>deserialize\<close> of the settings type by serde is an argument; a source of a layer is what reading its
  file gave (\<open>layer_source\<close>): conversion of v1 files, unknown keys and the normalization at the end are not modelled here.
\<close>

section \<open>TOML values\<close>

datatype toml =
    TString string
  | TInteger int
  | TFloat string
  | TBoolean bool
  | TDatetime string
  | TArray "toml list"
  | TTable "(string \<times> toml) list"

type_synonym table = "(string \<times> toml) list"

definition float_eq :: "string \<Rightarrow> string \<Rightarrow> bool" where
  "float_eq x y \<longleftrightarrow> x = y \<and> x \<noteq> ''nan'' \<or> x \<in> {''0.0'', ''-0.0''} \<and> y \<in> {''0.0'', ''-0.0''}"

text \<open>\<open>PartialEq\<close> of values: tables as maps.\<close>

fun toml_eq :: "toml \<Rightarrow> toml \<Rightarrow> bool" and arrays_eq :: "toml list \<Rightarrow> toml list \<Rightarrow> bool" and table_eq :: "table \<Rightarrow> table \<Rightarrow> bool" where
  "toml_eq (TString s) v = (v = TString s)"
| "toml_eq (TInteger i) v = (v = TInteger i)"
| "toml_eq (TFloat x) v = (case v of TFloat y \<Rightarrow> float_eq x y | _ \<Rightarrow> False)"
| "toml_eq (TBoolean b) v = (v = TBoolean b)"
| "toml_eq (TDatetime d) v = (v = TDatetime d)"
| "toml_eq (TArray xs) v = (case v of TArray ys \<Rightarrow> arrays_eq xs ys | _ \<Rightarrow> False)"
| "toml_eq (TTable t) v = (case v of TTable u \<Rightarrow> length t = length u \<and> table_eq t u | _ \<Rightarrow> False)"
| "arrays_eq [] ys = (ys = [])"
| "arrays_eq (x # xs) ys = (case ys of [] \<Rightarrow> False | z # zs \<Rightarrow> toml_eq x z \<and> arrays_eq xs zs)"
| "table_eq [] u = True"
| "table_eq ((k, v) # t) u = ((case map_of u k of Some w \<Rightarrow> toml_eq v w | None \<Rightarrow> False) \<and> table_eq t u)"

fun toml_as_str :: "toml \<Rightarrow> string option" where
  "toml_as_str (TString s) = Some s"
| "toml_as_str _ = None"

fun toml_get :: "string \<Rightarrow> toml \<Rightarrow> toml option" where
  "toml_get k (TTable t) = map_of t k"
| "toml_get k _ = None"

fun put_key :: "string \<Rightarrow> toml \<Rightarrow> table \<Rightarrow> table" where
  "put_key k v [] = [(k, v)]"
| "put_key k v ((k', v') # t) = (if k' = k then (k, v) # t else (k', v') # put_key k v t)"

section \<open>Merging two layers (merge.rs)\<close>

definition UNION_ARRAYS :: "string list list" where
  "UNION_ARRAYS = [[''permissions'', ''allow''], [''permissions'', ''ask''], [''permissions'', ''deny''],
     [''permissions'', ''additional_directories''], [''shell'', ''env_passthrough''], [''shell'', ''sandbox'', ''extra_writable'']]"

datatype merge_rule = Deep | Union | Concat | ById | Replace

definition rule_for :: "string list \<Rightarrow> merge_rule" where
  "rule_for path =
     (if path \<in> set UNION_ARRAYS then Union
      else case path of
        [s, k] \<Rightarrow>
          if s = ''hooks'' then Concat
          else if s = ''decisions'' \<and> k = ''rules'' then Concat
          else if s = ''verification'' \<and> k = ''checks'' then ById
          else Deep
      | [s, servers, name] \<Rightarrow> if (s = ''mcp'' \<or> s = ''lsp'') \<and> servers = ''servers'' then Replace else Deep
      | _ \<Rightarrow> Deep)"

fun union_items :: "toml list \<Rightarrow> toml list \<Rightarrow> toml list" where
  "union_items items [] = items"
| "union_items items (v # vs) = union_items (if list_ex (\<lambda>old. toml_eq old v) items then items else items @ [v]) vs"

definition toml_id :: "toml \<Rightarrow> string option" where
  "toml_id v = Option.bind (toml_get ''id'' v) toml_as_str"

fun index_of_id :: "string \<Rightarrow> toml list \<Rightarrow> nat option" where
  "index_of_id i [] = None"
| "index_of_id i (v # vs) = (if toml_id v = Some i then Some 0 else map_option Suc (index_of_id i vs))"

fun merge_by_id :: "toml list \<Rightarrow> toml list \<Rightarrow> toml list" where
  "merge_by_id items [] = items"
| "merge_by_id items (v # vs) =
     (case Option.bind (toml_id v) (\<lambda>i. index_of_id i items) of
        Some n \<Rightarrow> merge_by_id (items[n := v]) vs
      | None \<Rightarrow> merge_by_id (items @ [v]) vs)"

fun merge_tables :: "string list \<Rightarrow> table \<Rightarrow> table \<Rightarrow> table" and combine :: "string list \<Rightarrow> toml \<Rightarrow> toml \<Rightarrow> toml" where
  "merge_tables path base [] = base"
| "merge_tables path base ((key, v) # overlay) =
     merge_tables path
       (put_key key
         (case map_of base key of
            Some slot \<Rightarrow> combine (path @ [key]) slot v
          | None \<Rightarrow>
              (case v of
                 TArray _ \<Rightarrow> combine (path @ [key]) (TArray []) v
               | TTable _ \<Rightarrow> combine (path @ [key]) (TTable []) v
               | _ \<Rightarrow> v)) base) overlay"
| "combine path slot (TArray incoming) =
     (case slot of
        TArray items \<Rightarrow>
          (case rule_for path of
             Union \<Rightarrow> TArray (union_items items incoming)
           | Concat \<Rightarrow> TArray (items @ incoming)
           | ById \<Rightarrow> TArray (merge_by_id items incoming)
           | _ \<Rightarrow> TArray incoming)
      | _ \<Rightarrow> TArray incoming)"
| "combine path slot (TTable incoming) =
     (case slot of
        TTable t \<Rightarrow> if rule_for path = Deep then TTable (merge_tables path t incoming) else TTable incoming
      | _ \<Rightarrow> TTable incoming)"
| "combine path slot v = v"

definition merge_layer :: "table \<Rightarrow> table \<Rightarrow> table" where
  "merge_layer base overlay = merge_tables [] base overlay"

definition nested :: "string list \<Rightarrow> toml \<Rightarrow> table" where
  "nested path v = (case path of
     [] \<Rightarrow> []
   | k # ks \<Rightarrow> [(k, foldr (\<lambda>key inner. TTable [(key, inner)]) ks v)])"

section \<open>Schemas (document.rs)\<close>

definition SCHEMA_VERSION :: int where "SCHEMA_VERSION = 2"

datatype schema = V1 | CurrentSchema | Newer int | InvalidSchema

definition schema_of :: "table \<Rightarrow> schema" where
  "schema_of t = (case map_of t ''schema'' of
     None \<Rightarrow> if t = [] then CurrentSchema else V1
   | Some (TInteger v) \<Rightarrow> if v < SCHEMA_VERSION then V1 else if v = SCHEMA_VERSION then CurrentSchema else Newer v
   | Some _ \<Rightarrow> InvalidSchema)"

definition new_table :: table where "new_table = [(''schema'', TInteger SCHEMA_VERSION)]"

section \<open>Layers (loader.rs)\<close>

datatype layer_scope = DefaultLayer | UserLayer | ProjectLayer | ProjectLocalLayer | EnvLayer

datatype config_error =
    ConfigParse string string
  | ConfigIo string string
  | TooLarge string nat
  | OtherConfig string

definition without_path :: "config_error \<Rightarrow> string" where
  "without_path e = (case e of
     ConfigParse _ message \<Rightarrow> message
   | ConfigIo _ cause \<Rightarrow> cause
   | TooLarge _ limit \<Rightarrow> ''larger than '' @ nat_str limit @ '' bytes''
   | OtherConfig t \<Rightarrow> t)"

record layer_info =
  li_scope :: layer_scope
  li_path :: "string option"
  li_exists :: bool
  li_error :: "string option"
  li_note :: "string option"

record 's layering =
  lt_merged :: table
  lt_settings :: 's
  lt_layers :: "layer_info list"
  lt_warnings :: "string list"

record env_overrides =
  eo_model :: "string option"
  eo_base_url :: "string option"
  eo_provider :: "string option"
  eo_shell :: "string option"

definition env_table :: "env_overrides \<Rightarrow> table" where
  "env_table e =
     foldl (\<lambda>t (path, v). case v of Some s \<Rightarrow> merge_layer t (nested path (TString s)) | None \<Rightarrow> t) []
       [([''model'', ''main''], eo_model e), ([''provider'', ''base_url''], eo_base_url e),
        ([''provider'', ''kind''], eo_provider e), ([''shell'', ''path''], eo_shell e)]"

definition apply_layer :: "(table \<Rightarrow> string + 's) \<Rightarrow> table \<Rightarrow> 's layering \<Rightarrow> 's layering \<times> string option" where
  "apply_layer deserialize layer l =
     (let candidate = merge_layer (lt_merged l) layer in
      case deserialize candidate of
        Inl e \<Rightarrow> (l, Some e)
      | Inr s \<Rightarrow> (l\<lparr>lt_settings := s, lt_merged := candidate\<rparr>, None))"

text \<open>What \<open>read\<close> or \<open>read_legacy\<close> gave for a file: its v2 table, and the warnings on the way.\<close>

record layer_source =
  so_path :: string
  so_read :: "config_error + table option"
  so_warnings :: "string list"

definition import_note :: "string \<Rightarrow> string \<Rightarrow> string" where
  "import_note legacy goal =
     ''imported from the v1 file '' @ legacy @ '' in memory; saved to '' @ goal @ '' on the first change''"

definition layer_file ::
  "(table \<Rightarrow> string + 's) \<Rightarrow> layer_scope \<Rightarrow> layer_source \<Rightarrow> layer_source option \<Rightarrow> 's layering \<Rightarrow> 's layering" where
  "layer_file deserialize scope file legacy l0 =
     (let info0 = \<lparr>li_scope = scope, li_path = Some (so_path file), li_exists = False, li_error = None, li_note = None\<rparr>;
          l1 = l0\<lparr>lt_warnings := lt_warnings l0 @ so_warnings file\<rparr>;
          (read, info1, l2) =
            (case (so_read file, legacy) of
               (Inr None, Some old) \<Rightarrow>
                 (case so_read old of
                    Inl e \<Rightarrow> (Inl e, info0\<lparr>li_path := Some (so_path old)\<rparr>, l1\<lparr>lt_warnings := lt_warnings l1 @ so_warnings old\<rparr>)
                  | Inr None \<Rightarrow> (Inr None, info0, l1)
                  | Inr (Some t) \<Rightarrow>
                      (let note = import_note (so_path old) (so_path file) in
                       (Inr (Some t), info0\<lparr>li_path := Some (so_path old), li_note := Some note\<rparr>,
                        l1\<lparr>lt_warnings := lt_warnings l1 @ [note] @ so_warnings old\<rparr>)))
             | _ \<Rightarrow> (so_read file, info0, l1));
          (l3, info2) =
            (case read of
               Inr None \<Rightarrow> (l2, info1)
             | Inr (Some t) \<Rightarrow> (let (l, e) = apply_layer deserialize t l2 in (l, info1\<lparr>li_exists := True, li_error := e\<rparr>))
             | Inl e \<Rightarrow> (l2, info1\<lparr>li_exists := True, li_error := Some (without_path e)\<rparr>));
          l4 = (case (li_error info2, li_path info2) of
                  (Some e, Some where_read) \<Rightarrow> l3\<lparr>lt_warnings := lt_warnings l3 @ [where_read @ '' was skipped: '' @ e]\<rparr>
                | _ \<Rightarrow> l3)
      in l4\<lparr>lt_layers := lt_layers l4 @ [info2]\<rparr>)"

definition env_layer :: "(table \<Rightarrow> string + 's) \<Rightarrow> env_overrides \<Rightarrow> 's layering \<Rightarrow> 's layering" where
  "env_layer deserialize env l =
     (let t = env_table env; exists = t \<noteq> [];
          (l1, e) = (if exists then apply_layer deserialize t l else (l, None));
          l2 = (case e of Some why \<Rightarrow> l1\<lparr>lt_warnings := lt_warnings l1 @ [''environment overrides were skipped: '' @ why]\<rparr> | None \<Rightarrow> l1)
      in l2\<lparr>lt_layers := lt_layers l2 @ [\<lparr>li_scope = EnvLayer, li_path = None, li_exists = exists, li_error = e, li_note = None\<rparr>]\<rparr>)"

definition load_layers ::
  "(table \<Rightarrow> string + 's) \<Rightarrow> 's \<Rightarrow> layer_source \<Rightarrow> layer_source option \<Rightarrow>
   (layer_source \<times> layer_source option \<times> layer_source) option \<Rightarrow> env_overrides \<Rightarrow> 's layering" where
  "load_layers deserialize default_settings user user_legacy project env =
     (let l0 = \<lparr>lt_merged = [], lt_settings = default_settings,
                lt_layers = [\<lparr>li_scope = DefaultLayer, li_path = None, li_exists = True, li_error = None, li_note = None\<rparr>],
                lt_warnings = []\<rparr>;
          l1 = layer_file deserialize UserLayer user user_legacy l0;
          l2 = (case project of
                  Some (file, legacy, own) \<Rightarrow>
                    layer_file deserialize ProjectLocalLayer own None (layer_file deserialize ProjectLayer file legacy l1)
                | None \<Rightarrow> l1)
      in env_layer deserialize env l2)"


section \<open>Lookups in merged tables\<close>

fun wf_toml :: "toml \<Rightarrow> bool" where
  "wf_toml (TTable t) = (distinct (map fst t) \<and> (\<forall>e \<in> set t. wf_toml (snd e)))"
| "wf_toml _ = True"

definition wf_table :: "table \<Rightarrow> bool" where "wf_table t = wf_toml (TTable t)"

lemma wf_table_Nil [simp]: "wf_table []"
  by (simp add: wf_table_def)

lemma wf_table_at: "wf_table t \<Longrightarrow> map_of t k = Some (TTable u) \<Longrightarrow> wf_table u"
  by (fastforce simp: wf_table_def dest!: map_of_SomeD)

lemma map_of_put_key [simp]: "map_of (put_key k v t) = (map_of t)(k \<mapsto> v)"
  by (induction t) auto

definition merged_value :: "string list \<Rightarrow> toml option \<Rightarrow> toml \<Rightarrow> toml" where
  "merged_value path slot v =
     (case slot of
        Some old \<Rightarrow> combine path old v
      | None \<Rightarrow> (case v of TArray _ \<Rightarrow> combine path (TArray []) v | TTable _ \<Rightarrow> combine path (TTable []) v | _ \<Rightarrow> v))"

lemma map_of_merge_tables:
  "distinct (map fst overlay) \<Longrightarrow>
   map_of (merge_tables path base overlay) k =
     (case map_of overlay k of None \<Rightarrow> map_of base k | Some v \<Rightarrow> Some (merged_value (path @ [k]) (map_of base k) v))"
proof (induction overlay arbitrary: base)
  case (Cons e overlay)
  obtain key v where e: "e = (key, v)" by fastforce
  have "map_of overlay key = None" using Cons.prems e by (simp add: map_of_eq_None_iff)
  then show ?case
    using Cons.IH [of "put_key key (merged_value (path @ [key]) (map_of base key) v) base"] Cons.prems e
    by (auto simp: merged_value_def split: option.splits)
qed simp

fun get_path :: "string list \<Rightarrow> table \<Rightarrow> toml option" where
  "get_path [] t = Some (TTable t)"
| "get_path (k # ks) t = (case map_of t k of
     None \<Rightarrow> None
   | Some v \<Rightarrow> if ks = [] then Some v else (case v of TTable u \<Rightarrow> get_path ks u | _ \<Rightarrow> None))"

fun is_scalar :: "toml \<Rightarrow> bool" where
  "is_scalar (TArray _) = False"
| "is_scalar (TTable _) = False"
| "is_scalar _ = True"

text \<open>The overlay says nothing about the value at a path, nor about a table around it as a whole.\<close>

fun untouched :: "string list \<Rightarrow> table \<Rightarrow> bool" where
  "untouched [] t = False"
| "untouched (k # ks) t = (case map_of t k of None \<Rightarrow> True | Some (TTable u) \<Rightarrow> ks \<noteq> [] \<and> untouched ks u | Some _ \<Rightarrow> False)"

lemma merged_scalar: "is_scalar v \<Longrightarrow> merged_value path slot v = v"
  by (cases v) (auto simp: merged_value_def split: option.splits)

lemma merged_table:
  "merged_value path slot (TTable u) =
     (case slot of
        None \<Rightarrow> if rule_for path = Deep then TTable (merge_tables path [] u) else TTable u
      | Some (TTable t) \<Rightarrow> if rule_for path = Deep then TTable (merge_tables path t u) else TTable u
      | Some _ \<Rightarrow> TTable u)"
  by (auto simp: merged_value_def split: option.splits toml.splits)

lemma merge_scalar_at:
  "wf_table overlay \<Longrightarrow> get_path ks overlay = Some v \<Longrightarrow> is_scalar v \<Longrightarrow>
   get_path ks (merge_tables path base overlay) = Some v"
proof (induction ks arbitrary: path base overlay)
  case (Cons k ks)
  have d: "distinct (map fst overlay)" using Cons.prems by (simp add: wf_table_def)
  from Cons.prems(2) obtain w where w: "map_of overlay k = Some w" by (auto split: option.splits)
  show ?case
  proof (cases "ks = []")
    case True
    then show ?thesis using Cons.prems w d by (simp add: map_of_merge_tables merged_scalar)
  next
    case False
    with Cons.prems(2) w obtain u where u: "w = TTable u" "get_path ks u = Some v" by (auto split: toml.splits)
    have "wf_table u" using wf_table_at Cons.prems(1) w u by blast
    note ih = Cons.IH [OF this u(2) Cons.prems(3)]
    show ?thesis using d w u False ih by (auto simp: map_of_merge_tables merged_table split: option.splits toml.splits)
  qed
qed auto

lemma merge_untouched_at:
  assumes "wf_table overlay" "untouched ks overlay" "get_path ks base = Some v"
    and "\<forall>n. 0 < n \<and> n < length ks \<longrightarrow> rule_for (path @ take n ks) = Deep"
  shows "get_path ks (merge_tables path base overlay) = Some v"
  using assms
proof (induction ks arbitrary: path base overlay)
  case (Cons k ks)
  have d: "distinct (map fst overlay)" using Cons.prems by (simp add: wf_table_def)
  show ?case
  proof (cases "map_of overlay k")
    case None
    then show ?thesis using Cons.prems d by (simp add: map_of_merge_tables)
  next
    case (Some w)
    with Cons.prems(2) obtain u where u: "w = TTable u" "ks \<noteq> []" "untouched ks u" by (auto split: toml.splits)
    from Cons.prems(3) u(2) obtain t where t: "map_of base k = Some (TTable t)" "get_path ks t = Some v"
      by (auto split: option.splits toml.splits)
    have deep: "rule_for (path @ [k]) = Deep" using Cons.prems(4) [rule_format, of 1] u(2) by simp
    have "\<forall>n. 0 < n \<and> n < length ks \<longrightarrow> rule_for ((path @ [k]) @ take n ks) = Deep"
    proof (intro allI impI)
      fix n assume "0 < n \<and> n < length ks"
      then show "rule_for ((path @ [k]) @ take n ks) = Deep" using Cons.prems(4) [rule_format, of "Suc n"] by simp
    qed
    from Cons.IH [OF wf_table_at [OF Cons.prems(1)] u(3) t(2) this] Some u have
      "get_path ks (merge_tables (path @ [k]) t u) = Some v" by simp
    then show ?thesis using d Some u t deep by (simp add: map_of_merge_tables merged_table)
  qed
qed simp

subsection \<open>Lists that union\<close>

lemma toml_eq_string: "toml_eq old (TString s) \<longleftrightarrow> old = TString s"
  by (cases old) auto

lemma union_strings: "TString s \<in> set (union_items items vs) \<longleftrightarrow> TString s \<in> set items \<or> TString s \<in> set vs"
  by (induction items vs rule: union_items.induct) (auto simp: toml_eq_string list_ex_iff)

text \<open>The strings of a list of a section, and a section and list of the types the schema asks for.\<close>

definition array_strings :: "toml option \<Rightarrow> string set" where
  "array_strings v = (case v of Some (TArray vs) \<Rightarrow> {s. TString s \<in> set vs} | _ \<Rightarrow> {})"

lemma array_strings_simps [simp]: "array_strings None = {}" "TString s \<in> set vs \<Longrightarrow> s \<in> array_strings (Some (TArray vs))"
  by (simp_all add: array_strings_def)

definition list_strings :: "string \<Rightarrow> string \<Rightarrow> table \<Rightarrow> string set" where
  "list_strings sec key t = array_strings (get_path [sec, key] t)"

lemma list_strings_table:
  "map_of t sec = Some (TTable u) \<Longrightarrow> list_strings sec key t = array_strings (map_of u key)"
  "map_of t sec = None \<Longrightarrow> list_strings sec key t = {}"
  by (auto simp: list_strings_def array_strings_def split: option.splits)

definition list_fits :: "string \<Rightarrow> string \<Rightarrow> table \<Rightarrow> bool" where
  "list_fits sec key t = (case map_of t sec of
     None \<Rightarrow> True
   | Some (TTable u) \<Rightarrow> (case map_of u key of None \<Rightarrow> True | Some (TArray _) \<Rightarrow> True | Some _ \<Rightarrow> False)
   | Some _ \<Rightarrow> False)"

lemma list_strings_Nil [simp]: "list_strings sec key [] = {}" "list_fits sec key []"
  by (simp_all add: list_strings_def list_fits_def array_strings_def)

lemma merged_union_array:
  assumes "rule_for path = Union"
  shows "merged_value path slot (TArray vs) = (case slot of
      None \<Rightarrow> TArray (union_items [] vs) | Some (TArray items) \<Rightarrow> TArray (union_items items vs) | Some _ \<Rightarrow> TArray vs)"
  using assms by (auto simp: merged_value_def split: option.splits toml.splits)

lemma inner_union:
  assumes "distinct (map fst u)" "rule_for (path @ [key]) = Union"
    and fits: "case map_of t key of None \<Rightarrow> True | Some (TArray _) \<Rightarrow> True | Some _ \<Rightarrow> False"
      "case map_of (merge_tables path t u) key of None \<Rightarrow> True | Some (TArray _) \<Rightarrow> True | Some _ \<Rightarrow> False"
  shows "array_strings (map_of (merge_tables path t u) key) =
    array_strings (map_of t key) \<union>
    array_strings (map_of u key)"
proof (cases "map_of u key")
  case None
  then show ?thesis using assms(1) by (simp add: map_of_merge_tables array_strings_def)
next
  case (Some v)
  show ?thesis
  proof (cases "\<exists>vs. v = TArray vs")
    case True
    then show ?thesis using Some assms
      by (auto simp: map_of_merge_tables array_strings_def merged_union_array union_strings split: option.splits toml.splits)
  next
    case False
    have "merged_value (path @ [key]) (map_of t key) v = v"
      using False assms(2) by (cases v) (auto simp: merged_scalar merged_table split: option.splits toml.splits)
    then show ?thesis using Some False assms(1) fits(2) by (cases v) (auto simp: map_of_merge_tables)
  qed
qed

lemma merge_union:
  assumes "wf_table layer" "[sec, key] \<in> set UNION_ARRAYS"
    and "list_fits sec key base" "list_fits sec key (merge_layer base layer)"
  shows "list_strings sec key (merge_layer base layer) = list_strings sec key base \<union> list_strings sec key layer"
proof -
  have d: "distinct (map fst layer)" using assms(1) by (simp add: wf_table_def)
  have rules: "rule_for [sec] = Deep" "rule_for [sec, key] = Union"
    using assms(2) by (auto simp: rule_for_def UNION_ARRAYS_def)
  show ?thesis
  proof (cases "map_of layer sec")
    case None
    then show ?thesis using d by (simp add: list_strings_def merge_layer_def map_of_merge_tables)
  next
    case (Some v)
    note merged = map_of_merge_tables [OF d, of "[]" base sec]
    show ?thesis
    proof (cases "\<exists>u. v = TTable u")
      case True
      then obtain u where u: "v = TTable u" by blast
      have "wf_table u" using wf_table_at [OF assms(1), of sec u] Some u by simp
      then have wu: "distinct (map fst u)" by (simp add: wf_table_def)
      have "map_of base sec = None \<or> (\<exists>t. map_of base sec = Some (TTable t))"
        using assms(3) by (simp add: list_fits_def split: option.splits toml.splits)
      then obtain t where t: "map_of base sec = None \<and> t = [] \<or> map_of base sec = Some (TTable t)" by blast
      have m: "map_of (merge_layer base layer) sec = Some (TTable (merge_tables [sec] t u))"
        using merged Some t u rules(1) by (auto simp: merge_layer_def merged_table)
      have c1: "case map_of t key of None \<Rightarrow> True | Some (TArray _) \<Rightarrow> True | Some _ \<Rightarrow> False"
        using assms(3) t by (auto simp: list_fits_def)
      have c2: "case map_of (merge_tables [sec] t u) key of None \<Rightarrow> True | Some (TArray _) \<Rightarrow> True | Some _ \<Rightarrow> False"
        using assms(4) m by (simp add: list_fits_def)
      have "array_strings (map_of (merge_tables [sec] t u) key) =
        array_strings (map_of t key) \<union>
        array_strings (map_of u key)"
        by (rule inner_union [OF wu _ c1 c2]) (simp add: rules(2))
      moreover have "list_strings sec key base = array_strings (map_of t key)"
        using t list_strings_table [of base sec] by (auto simp: array_strings_def)
      ultimately show ?thesis
        using list_strings_table(1) [OF m] list_strings_table(1) [OF Some [unfolded u]] by simp
    next
      case False
      have "merged_value [sec] (map_of base sec) v = v"
        using False rules(1) by (cases v) (auto simp: merged_value_def split: option.splits toml.splits)
      then have "\<not> list_fits sec key (merge_layer base layer)"
        using merged Some False by (cases v) (auto simp: list_fits_def merge_layer_def)
      then show ?thesis using assms(4) by blast
    qed
  qed
qed


section \<open>Loading as a fold over the layers\<close>

text \<open>The table a source supplies, and one layer on what is merged so far: a layer that does not fit is left out.\<close>

definition supplied :: "layer_source \<Rightarrow> layer_source option \<Rightarrow> table option" where
  "supplied file legacy = (case (so_read file, legacy) of
     (Inr (Some t), _) \<Rightarrow> Some t
   | (Inr None, Some old) \<Rightarrow> (case so_read old of Inr t \<Rightarrow> t | Inl _ \<Rightarrow> None)
   | _ \<Rightarrow> None)"

definition layer_step :: "(table \<Rightarrow> string + 's) \<Rightarrow> table \<times> 's \<Rightarrow> table \<Rightarrow> table \<times> 's" where
  "layer_step deserialize state layer =
     (case deserialize (merge_layer (fst state) layer) of Inl _ \<Rightarrow> state | Inr s \<Rightarrow> (merge_layer (fst state) layer, s))"

definition opt_step :: "(table \<Rightarrow> string + 's) \<Rightarrow> table option \<Rightarrow> table \<times> 's \<Rightarrow> table \<times> 's" where
  "opt_step deserialize layer state = (case layer of None \<Rightarrow> state | Some t \<Rightarrow> layer_step deserialize state t)"

definition lt_state :: "'s layering \<Rightarrow> table \<times> 's" where "lt_state l = (lt_merged l, lt_settings l)"

lemma apply_layer_state: "apply_layer d t l = (l', e) \<Longrightarrow> lt_state l' = layer_step d (lt_state l) t"
  by (auto simp: apply_layer_def layer_step_def lt_state_def Let_def split: sum.splits)

lemma lt_state_frame [simp]: "lt_state (l\<lparr>lt_warnings := w\<rparr>) = lt_state l" "lt_state (l\<lparr>lt_layers := i\<rparr>) = lt_state l"
  by (simp_all add: lt_state_def)

lemma apply_layer_frame: "lt_layers (fst (apply_layer d t l)) = lt_layers l" "lt_warnings (fst (apply_layer d t l)) = lt_warnings l"
  by (simp_all add: apply_layer_def Let_def split: sum.splits)

lemma layer_file_state: "lt_state (layer_file d scope file legacy l) = opt_step d (supplied file legacy) (lt_state l)"
  by (auto simp: layer_file_def Let_def opt_step_def supplied_def split: prod.splits sum.splits option.splits
      dest!: apply_layer_state)

lemma env_layer_state: "lt_state (env_layer d env l) = opt_step d (if env_table env = [] then None else Some (env_table env)) (lt_state l)"
  by (auto simp: env_layer_def Let_def opt_step_def split: prod.splits option.splits dest!: apply_layer_state)

text \<open>The layers a load goes through, lowest precedence first.\<close>

definition load_tables ::
  "layer_source \<Rightarrow> layer_source option \<Rightarrow> (layer_source \<times> layer_source option \<times> layer_source) option \<Rightarrow> env_overrides \<Rightarrow> table list" where
  "load_tables user user_legacy project env =
     List.map_filter id
       ([supplied user user_legacy] @
        (case project of Some (file, legacy, own) \<Rightarrow> [supplied file legacy, supplied own None] | None \<Rightarrow> []) @
        [if env_table env = [] then None else Some (env_table env)])"

lemma load_layers_state:
  "lt_state (load_layers d s0 user user_legacy project env) =
     foldl (layer_step d) ([], s0) (load_tables user user_legacy project env)"
  by (cases project)
    (auto simp: load_layers_def Let_def env_layer_state layer_file_state opt_step_def load_tables_def lt_state_def [of "\<lparr>lt_merged = _, lt_settings = _, lt_layers = _, lt_warnings = _\<rparr>"]
      List.map_filter_simps split: option.splits prod.splits)

text \<open>The layers that count: one that does not fit on top of those before it is left out, and the rest is read without it.\<close>

fun fitting :: "(table \<Rightarrow> string + 's) \<Rightarrow> table \<Rightarrow> table list \<Rightarrow> table list" where
  "fitting d m [] = []"
| "fitting d m (t # ts) = (if isl (d (merge_layer m t)) then fitting d m ts else t # fitting d (merge_layer m t) ts)"

lemma fold_fitting:
  "fst (foldl (layer_step d) (m, s) layers) = foldl merge_layer m (fitting d m layers) \<and>
   (if fitting d m layers = [] then snd (foldl (layer_step d) (m, s) layers) = s
    else d (foldl merge_layer m (fitting d m layers)) = Inr (snd (foldl (layer_step d) (m, s) layers)))"
proof (induction layers arbitrary: m s)
  case (Cons t layers)
  show ?case
  proof (cases "d (merge_layer m t)")
    case (Inl e)
    then have "layer_step d (m, s) t = (m, s)" by (simp add: layer_step_def)
    then show ?thesis using Cons.IH [of m s] Inl by simp
  next
    case (Inr s')
    then have "layer_step d (m, s) t = (merge_layer m t, s')" by (simp add: layer_step_def)
    then show ?thesis using Cons.IH [of "merge_layer m t" s'] Inr by (cases "fitting d (merge_layer m t) layers = []") simp_all
  qed
qed simp

subsection \<open>Records and warnings\<close>

definition skip_warning :: "layer_info \<Rightarrow> string list" where
  "skip_warning i = (case (li_error i, li_path i) of
     (Some e, Some p) \<Rightarrow> [p @ '' was skipped: '' @ e]
   | (Some e, None) \<Rightarrow> [''environment overrides were skipped: '' @ e]
   | _ \<Rightarrow> [])"

text \<open>Every layer has a record, in order, and every record with an error has its warning.\<close>

definition reported :: "layer_scope list \<Rightarrow> 's layering \<Rightarrow> bool" where
  "reported scopes l \<longleftrightarrow> map li_scope (lt_layers l) = scopes \<and> (\<forall>i \<in> set (lt_layers l). set (skip_warning i) \<subseteq> set (lt_warnings l))"

lemma apply_layer_rest:
  "apply_layer d t l = (l', e) \<Longrightarrow> lt_layers l' = lt_layers l \<and> lt_warnings l' = lt_warnings l"
  by (auto simp: apply_layer_def Let_def split: sum.splits)

lemma layer_file_reported:
  assumes "reported scopes l"
  shows "reported (scopes @ [scope]) (layer_file d scope file legacy l)"
proof -
  have "\<exists>i more. lt_layers (layer_file d scope file legacy l) = lt_layers l @ [i] \<and> li_scope i = scope \<and>
    lt_warnings (layer_file d scope file legacy l) = lt_warnings l @ more @ skip_warning i"
    by (auto simp: layer_file_def Let_def skip_warning_def split: prod.splits sum.splits option.splits dest!: apply_layer_rest)
  then show ?thesis using assms unfolding reported_def by (elim exE conjE) (simp add: le_supI1 subset_trans [OF _ Un_upper1] ball_Un; blast)
qed

lemma env_layer_reported:
  assumes "reported scopes l"
  shows "reported (scopes @ [EnvLayer]) (env_layer d env l)"
proof -
  have "\<exists>i. lt_layers (env_layer d env l) = lt_layers l @ [i] \<and> li_scope i = EnvLayer \<and>
    lt_warnings (env_layer d env l) = lt_warnings l @ skip_warning i"
    by (auto simp: env_layer_def Let_def skip_warning_def split: prod.splits option.splits dest!: apply_layer_rest)
  then show ?thesis using assms unfolding reported_def by (elim exE conjE) (simp add: le_supI1 subset_trans [OF _ Un_upper1] ball_Un; blast)
qed

lemma load_layers_reported:
  "reported ([DefaultLayer, UserLayer] @ (if project = None then [] else [ProjectLayer, ProjectLocalLayer]) @ [EnvLayer])
     (load_layers d s0 user user_legacy project env)"
proof -
  have 0: "reported [DefaultLayer] \<lparr>lt_merged = [], lt_settings = s0,
      lt_layers = [\<lparr>li_scope = DefaultLayer, li_path = None, li_exists = True, li_error = None, li_note = None\<rparr>], lt_warnings = []\<rparr>"
    by (simp add: reported_def skip_warning_def)
  note 1 = layer_file_reported [OF 0, of UserLayer]
  show ?thesis
    using env_layer_reported [OF 1] env_layer_reported [OF layer_file_reported [OF layer_file_reported [OF 1, of ProjectLayer], of ProjectLocalLayer]]
    by (cases project) (auto simp: load_layers_def Let_def)
qed

section \<open>Rules of all layers\<close>

text \<open>
  What serde's derived code does with a list of strings of a section: a section or list of another type is refused, and the
  settings hold its items in order. \<open>rules_of\<close> reads the list from the settings.
\<close>

definition reads_list :: "(table \<Rightarrow> string + 's) \<Rightarrow> string \<Rightarrow> string \<Rightarrow> ('s \<Rightarrow> string list) \<Rightarrow> bool" where
  "reads_list d sec key rules_of \<longleftrightarrow>
     (\<forall>t s. d t = Inr s \<longrightarrow> list_fits sec key t \<and> set (rules_of s) = list_strings sec key t)"

lemma fold_keeps_rules:
  assumes "reads_list d sec key rules_of" "[sec, key] \<in> set UNION_ARRAYS"
    and "\<forall>t \<in> set layers. wf_table t" "list_fits sec key m"
  shows "list_fits sec key (fst (foldl (layer_step d) (m, s) layers)) \<and>
    list_strings sec key m \<subseteq> list_strings sec key (fst (foldl (layer_step d) (m, s) layers))"
  using assms(3,4)
proof (induction layers arbitrary: m s)
  case (Cons t layers)
  show ?case
  proof (cases "d (merge_layer m t)")
    case (Inl e)
    then show ?thesis using Cons.IH [of m s] Cons.prems by (simp add: layer_step_def)
  next
    case (Inr s')
    then have fits: "list_fits sec key (merge_layer m t)" using assms(1) by (auto simp: reads_list_def)
    have "list_strings sec key (merge_layer m t) = list_strings sec key m \<union> list_strings sec key t"
      using merge_union [OF _ assms(2) _ fits] Cons.prems by simp
    then show ?thesis using Cons.IH [of "merge_layer m t" s'] Cons.prems fits Inr by (auto simp: layer_step_def)
  qed
qed simp

lemma accepted_rules_stay:
  assumes "reads_list d sec key rules_of" "[sec, key] \<in> set UNION_ARRAYS"
    and "\<forall>t \<in> set (before @ layer # after). wf_table t"
    and "foldl (layer_step d) ([], s0) before = (m, s)" "d (merge_layer m layer) = Inr s1"
    and "foldl (layer_step d) ([], s0) (before @ layer # after) = (m2, s2)"
  shows "list_strings sec key layer \<subseteq> set (rules_of s2)"
proof -
  have m: "list_fits sec key m" using fold_keeps_rules [OF assms(1,2), of before "[]" s0] assms(3,4) by simp
  have fits: "list_fits sec key (merge_layer m layer)" using assms(1,5) by (auto simp: reads_list_def)
  have "list_strings sec key layer \<subseteq> list_strings sec key (merge_layer m layer)"
    using merge_union [OF _ assms(2) m fits] assms(3) by simp
  moreover have "foldl (layer_step d) (merge_layer m layer, s1) after = (m2, s2)"
    using assms(4,5,6) by (simp add: layer_step_def)
  moreover from this have "list_strings sec key (merge_layer m layer) \<subseteq> list_strings sec key m2"
    using fold_keeps_rules [OF assms(1,2) _ fits, of after s1] assms(3) by simp
  moreover have "d m2 = Inr s2"
  proof -
    show ?thesis using fold_fitting [of d "merge_layer m layer" s1 after] calculation(2) assms(5)
      by (cases "fitting d (merge_layer m layer) after = []") simp_all
  qed
  ultimately show ?thesis using assms(1) by (auto simp: reads_list_def)
qed


section \<open>Properties\<close>

text \<open>
  A later layer overrides exactly what it says. For tables with distinct keys, a scalar at any path of the overlay is the
  value of the merged table at this path; and a value of the base at a path the overlay does not touch stays, when the
  tables around it merge deeply.
\<close>

theorem later_layers_override:
  assumes "wf_table overlay"
  shows "(get_path ks overlay = Some v \<and> is_scalar v \<longrightarrow> get_path ks (merge_layer base overlay) = Some v) \<and>
    (untouched ks overlay \<and> get_path ks base = Some v \<and> (\<forall>n. 0 < n \<and> n < length ks \<longrightarrow> rule_for (take n ks) = Deep) \<longrightarrow>
       get_path ks (merge_layer base overlay) = Some v)"
  using merge_scalar_at [OF assms] merge_untouched_at [OF assms, where path = "[]"] by (auto simp: merge_layer_def)

theorem later_layers_override_witness:
  "get_path [''model'', ''main''] (merge_layer [(''model'', TTable [(''main'', TString ''a''), (''fast'', TString ''f'')])]
      [(''model'', TTable [(''main'', TString ''b'')])]) = Some (TString ''b'') \<and>
   get_path [''model'', ''fast''] (merge_layer [(''model'', TTable [(''main'', TString ''a''), (''fast'', TString ''f'')])]
      [(''model'', TTable [(''main'', TString ''b'')])]) = Some (TString ''f'')"
proof -
  let ?base = "[(''model'', TTable [(''main'', TString ''a''), (''fast'', TString ''f'')])]"
  let ?over = "[(''model'', TTable [(''main'', TString ''b'')])]"
  have wf: "wf_table ?over" by (simp add: wf_table_def)
  have "\<forall>n. 0 < n \<and> n < length [''model'', ''fast''] \<longrightarrow> rule_for (take n [''model'', ''fast'']) = Deep"
    by (auto simp: rule_for_def UNION_ARRAYS_def less_Suc_eq numeral_2_eq_2)
  then show ?thesis
    using later_layers_override [OF wf, of "[''model'', ''main'']" "TString ''b''" ?base]
      later_layers_override [OF wf, of "[''model'', ''fast'']" "TString ''f''" ?base] by simp
qed

text \<open>
  C39. A layer that does not fit changes nothing. For any sources, however broken, loading returns; the merged table is the
  merge, in order, of exactly the layers that fit on top of the fitting ones before them, as if the others had not been
  there; the settings are what this table deserializes to, or the defaults when no layer fits; and every layer has its
  record in order of precedence, each with an error also being reported as a warning.
\<close>

theorem misfit_layers_change_nothing:
  "lt_merged (load_layers d s0 user user_legacy project env) =
     foldl merge_layer [] (fitting d [] (load_tables user user_legacy project env)) \<and>
   (if fitting d [] (load_tables user user_legacy project env) = []
    then lt_settings (load_layers d s0 user user_legacy project env) = s0
    else d (foldl merge_layer [] (fitting d [] (load_tables user user_legacy project env))) =
      Inr (lt_settings (load_layers d s0 user user_legacy project env))) \<and>
   reported ([DefaultLayer, UserLayer] @ (if project = None then [] else [ProjectLayer, ProjectLocalLayer]) @ [EnvLayer])
     (load_layers d s0 user user_legacy project env)"
proof -
  have "lt_merged (load_layers d s0 user user_legacy project env) = fst (foldl (layer_step d) ([], s0) (load_tables user user_legacy project env))"
    "lt_settings (load_layers d s0 user user_legacy project env) = snd (foldl (layer_step d) ([], s0) (load_tables user user_legacy project env))"
    using load_layers_state [of d s0 user user_legacy project env, symmetric] by (simp_all add: lt_state_def)
  then show ?thesis
    using fold_fitting [of d "[]" s0 "load_tables user user_legacy project env"] load_layers_reported [of project d s0 user user_legacy env]
    by simp
qed

text \<open>
  C16. What the user denies stays denied in every project. If the user's settings file fits the schema and its
  \<open>permissions.deny\<close> holds the text of a rule, then whatever the project's files, the project's local file and the
  environment say (also files that do not fit), in the policy built from the loaded settings, with any rules granted in the
  session and directories added, every call that the rule restricts is denied in every mode.
\<close>

theorem user_denials_hold_in_every_project:
  assumes "reads_list d ''permissions'' ''deny'' deny_of"
    and "\<forall>t \<in> set (load_tables user user_legacy project env). wf_table t"
    and "supplied user user_legacy = Some layer" "d (merge_layer [] layer) = Inr s"
    and "text_of_rule \<in> list_strings ''permissions'' ''deny'' layer" "rule_parse G text_of_rule = Inr r"
    and "c_deny (ss_config settings) = deny_of (lt_settings (load_layers d s0 user user_legacy project env))"
    and "p = fst (build_policy G settings root home_dir granted added)"
    and "rule_restricts G p tool a (facts_of a) r"
  shows "\<exists>why. decide G p tool a mode = Deny why"
proof -
  obtain later where tables: "load_tables user user_legacy project env = [] @ layer # later"
    using assms(3) by (auto simp: load_tables_def List.map_filter_simps)
  obtain m2 s2 where fold: "foldl (layer_step d) ([], s0) ([] @ layer # later) = (m2, s2)" by fastforce
  have "lt_settings (load_layers d s0 user user_legacy project env) = s2"
    using load_layers_state [of d s0 user user_legacy project env] fold tables by (simp add: lt_state_def)
  moreover have "list_strings ''permissions'' ''deny'' layer \<subseteq> set (deny_of s2)"
    by (rule accepted_rules_stay [OF assms(1) _ _ _ assms(4) fold]) (use assms(2) tables in \<open>simp_all add: UNION_ARRAYS_def\<close>)
  ultimately have "text_of_rule \<in> set (c_deny (ss_config settings))" using assms(5,7) by auto
  from build_policy_deny [OF this assms(6)] have r: "r \<in> set (deny p)" using assms(8) by simp
  then obtain r' where "restricting G p (deny p) tool a (facts_of a) = Some r'"
    using assms(9) by (cases "restricting G p (deny p) tool a (facts_of a)") (auto simp: restricting_None)
  from decide_deny [OF this] show ?thesis by blast
qed

definition sample_deserialize :: "table \<Rightarrow> string + string list" where
  "sample_deserialize t =
     (if list_fits ''permissions'' ''deny'' t
      then Inr (case get_path [''permissions'', ''deny''] t of Some (TArray vs) \<Rightarrow> List.map_filter toml_as_str vs | _ \<Rightarrow> [])
      else Inl ''bad'')"

definition sample_layer :: "string \<Rightarrow> string list \<Rightarrow> layer_source" where
  "sample_layer key items = \<lparr>so_path = ''settings.toml'',
     so_read = Inr (Some [(''permissions'', TTable [(key, TArray (map TString items))])]), so_warnings = []\<rparr>"

definition sample_load :: "string list layering" where
  "sample_load = load_layers sample_deserialize [] (sample_layer ''deny'' [''WebSearch'']) None
     (Some (sample_layer ''allow'' [''WebSearch''], None, sample_layer ''deny'' []))
     \<lparr>eo_model = None, eo_base_url = None, eo_provider = None, eo_shell = None\<rparr>"

definition sample_settings :: session_settings where
  "sample_settings = \<lparr>ss_config = default_config\<lparr>c_deny := lt_settings sample_load\<rparr>, ss_additional_dirs = []\<rparr>"

lemma sample_reads: "reads_list sample_deserialize ''permissions'' ''deny'' id"
proof -
  have "set (List.map_filter toml_as_str vs) = {s. TString s \<in> set vs}" for vs
    by (induction vs) (auto simp: List.map_filter_simps elim: toml_as_str.elims split: option.splits)
  then show ?thesis
    by (auto simp: reads_list_def sample_deserialize_def list_strings_def array_strings_def split: if_splits option.splits toml.splits)
qed

theorem user_denials_hold_in_every_project_witness:
  "\<exists>why. decide literal_globs (fst (build_policy literal_globs sample_settings [RootDir] None [] [])) ''WebSearch'' Search Bypass = Deny why"
proof (rule user_denials_hold_in_every_project [where r = WebSearchRule and text_of_rule = "''WebSearch''", OF sample_reads])
  let ?user = "sample_layer ''deny'' [''WebSearch'']"
  let ?project = "Some (sample_layer ''allow'' [''WebSearch''], None :: layer_source option, sample_layer ''deny'' [])"
  let ?env = "\<lparr>eo_model = None, eo_base_url = None, eo_provider = None, eo_shell = None\<rparr>"
  show "\<forall>t \<in> set (load_tables ?user None ?project ?env). wf_table t"
    by (simp add: load_tables_def supplied_def sample_layer_def env_table_def wf_table_def List.map_filter_simps)
  show "supplied ?user None = Some [(''permissions'', TTable [(''deny'', TArray [TString ''WebSearch''])])]"
    by (simp add: supplied_def sample_layer_def)
  show "sample_deserialize (merge_layer [] [(''permissions'', TTable [(''deny'', TArray [TString ''WebSearch''])])]) = Inr [''WebSearch'']"
    by code_simp
  show "''WebSearch'' \<in> list_strings ''permissions'' ''deny'' [(''permissions'', TTable [(''deny'', TArray [TString ''WebSearch''])])]"
    by (simp add: list_strings_def)
  show "rule_parse literal_globs ''WebSearch'' = Inr WebSearchRule" by code_simp
  show "c_deny (ss_config sample_settings) = id (lt_settings (load_layers sample_deserialize [] ?user None ?project ?env))"
    by (simp add: sample_settings_def sample_load_def)
  show "rule_restricts literal_globs (fst (build_policy literal_globs sample_settings [RootDir] None [] [])) ''WebSearch'' Search
      (facts_of Search) WebSearchRule"
    by (simp add: rule_restricts_def matches_call_def)
qed (rule refl)

end
