(* ===== verification/Verify.thy ===== *)
theory Verify
  imports Compaction Edit_File
begin

text \<open>
  Verification of a turn: \<open>crates/z-engine-verify/src/select.rs\<close> (which checks run), \<open>narrow.rs\<close> (which of them a change
  cannot affect), \<open>assess.rs\<close> (the outcome of a turn from its check records) and the specifications of \<open>spec.rs\<close>.
\<close>

section \<open>Checks (spec.rs)\<close>

datatype check_source = DiscoveredCheck string | ConfiguredCheck

record check_spec =
  cs_id :: string
  cs_label :: string
  cs_kind :: check_kind
  cs_command :: string
  cs_cwd :: path
  cs_source :: check_source
  cs_timeout_secs :: u64

section \<open>Selecting checks (select.rs)\<close>

fun relative_loop :: "string list \<Rightarrow> path \<Rightarrow> string list option" where
  "relative_loop parts [] = Some parts"
| "relative_loop parts (CurDir # cs) = relative_loop parts cs"
| "relative_loop parts (Normal n # cs) = relative_loop (parts @ [n]) cs"
| "relative_loop parts (ParentDir # cs) = (if parts = [] then None else relative_loop (butlast parts) cs)"
| "relative_loop parts (RootDir # cs) = None"

definition relative_parts :: "path \<Rightarrow> string list option" where
  "relative_parts p = relative_loop [] p"

definition matches_selector :: "check_spec \<Rightarrow> string \<Rightarrow> bool" where
  "matches_selector c selector0 =
     (let selector = trim selector0 in
      selector \<noteq> [] \<and>
      (cs_id c = selector \<or>
       (case rsplit_char (CHR ''/'') (cs_id c) of Some (_, local_id) \<Rightarrow> local_id = selector | None \<Rightarrow> False) \<or>
       strip_prefix ''custom:'' (cs_id c) = Some selector \<or>
       check_kind_parse selector = Some (cs_kind c)))"

fun first_of_each :: "string list \<Rightarrow> check_spec list \<Rightarrow> check_spec list" where
  "first_of_each seen [] = []"
| "first_of_each seen (c # cs) =
     (if cs_id c \<in> set seen then first_of_each seen cs else c # first_of_each (cs_id c # seen) cs)"

text \<open>\<open>max_by_key\<close> of the roots that hold a path.\<close>

definition deepest_root :: "string list list \<Rightarrow> string list \<Rightarrow> string list option" where
  "deepest_root dirs p =
     foldl (\<lambda>best r. if take (length r) p = r \<and> (case best of Some b \<Rightarrow> length b \<le> length r | None \<Rightarrow> True)
        then Some r else best) None dirs"

definition scope_checks :: "check_spec list \<Rightarrow> path list \<Rightarrow> check_spec list" where
  "scope_checks checks changed =
     (let dirs = remdups (List.map_filter (\<lambda>c. relative_parts (cs_cwd c)) checks) in
      if changed = [] \<or> length dirs < 2 then checks
      else
        let preferred = List.map_filter (\<lambda>p. Option.bind (relative_parts p) (deepest_root dirs)) changed;
            scoped = filter (\<lambda>c. case relative_parts (cs_cwd c) of Some d \<Rightarrow> d \<in> set preferred | None \<Rightarrow> False) checks
        in if scoped = [] then checks else scoped)"

definition select_checks :: "check_spec list \<Rightarrow> string list \<Rightarrow> path list \<Rightarrow> check_spec list" where
  "select_checks profile selectors changed =
     scope_checks (first_of_each []
       (filter (\<lambda>c. selectors = [] \<or> list_ex (matches_selector c) selectors) profile)) changed"

section \<open>Narrowing a selection (narrow.rs)\<close>

definition TEST_DIRS :: "string list" where
  "TEST_DIRS = [''test'', ''tests'', ''__tests__'', ''spec'', ''specs'', ''testdata'']"
definition NODE :: "string list" where
  "NODE = [''js'', ''jsx'', ''mjs'', ''cjs'', ''ts'', ''tsx'', ''mts'', ''cts'', ''svelte'', ''vue'', ''astro'', ''json'',
     ''jsonc'', ''css'', ''scss'', ''html'']"
definition PYTHON :: "string list" where "PYTHON = [''py'', ''pyi'', ''toml'', ''cfg'', ''ini'']"
definition JVM :: "string list" where
  "JVM = [''java'', ''kt'', ''kts'', ''groovy'', ''scala'', ''gradle'', ''xml'', ''properties'']"
definition DOTNET :: "string list" where
  "DOTNET = [''cs'', ''fs'', ''vb'', ''csproj'', ''fsproj'', ''vbproj'', ''sln'', ''props'', ''targets'']"
definition NATIVE :: "string list" where
  "NATIVE = [''c'', ''h'', ''cc'', ''cpp'', ''cxx'', ''hh'', ''hpp'', ''cmake'']"

definition path_file_name :: "path \<Rightarrow> string option" where
  "path_file_name p = (if p = [] then None else case last p of Normal n \<Rightarrow> Some n | _ \<Rightarrow> None)"

definition file_stem_of :: "string \<Rightarrow> string" where
  "file_stem_of n = (case rsplit_char (CHR ''.'') n of Some (stem, _) \<Rightarrow> if stem = [] then n else stem | None \<Rightarrow> n)"

definition component_text :: "component \<Rightarrow> string" where
  "component_text c = (case c of RootDir \<Rightarrow> ''/'' | CurDir \<Rightarrow> ''.'' | ParentDir \<Rightarrow> ''..'' | Normal n \<Rightarrow> n)"

definition is_test_path :: "path \<Rightarrow> bool" where
  "is_test_path p =
     (let in_test_dir = list_ex (\<lambda>c. to_ascii_lowercase (component_text c) \<in> set TEST_DIRS) (butlast p) in
      case path_file_name p of
        None \<Rightarrow> in_test_dir
      | Some name \<Rightarrow>
          (let stem = file_stem_of name; lower = to_ascii_lowercase name in
           in_test_dir \<or> starts_with ''test_'' lower \<or> contains_str ''.test.'' lower \<or> contains_str ''.spec.'' lower \<or>
           lower = ''conftest.py'' \<or> ends_with ''_test'' stem \<or> ends_with ''_tests'' stem \<or>
           ends_with ''Test'' stem \<or> ends_with ''Tests'' stem))"

definition touches_tests :: "path list \<Rightarrow> bool" where
  "touches_tests changed = list_ex is_test_path changed"

definition owned_by :: "string \<Rightarrow> path \<Rightarrow> bool" where
  "owned_by tool p =
     (let name = (case path_file_name p of Some n \<Rightarrow> n | None \<Rightarrow> []);
          ext = (case extension p of Some e \<Rightarrow> to_ascii_lowercase e | None \<Rightarrow> [])
      in if tool = ''cargo'' then ext = ''rs'' \<or> starts_with ''Cargo.'' name \<or> starts_with ''rust-toolchain'' name
         else if tool \<in> set [''npm'', ''pnpm'', ''yarn'', ''bun'', ''deno''] then ext \<in> set NODE \<or> ends_with ''.lock'' name
         else if tool = ''go'' then ext = ''go'' \<or> name = ''go.mod'' \<or> name = ''go.sum''
         else if tool = ''python'' then ext \<in> set PYTHON \<or> starts_with ''requirements'' name
         else if tool \<in> set [''gradle'', ''maven''] then ext \<in> set JVM
         else if tool = ''dotnet'' then ext \<in> set DOTNET
         else if tool = ''cmake'' then ext \<in> set NATIVE \<or> name = ''CMakeLists.txt''
         else False)"

definition owns_change :: "check_spec \<Rightarrow> path list \<Rightarrow> bool" where
  "owns_change c changed =
     (let local_id = (case rsplit_char (CHR ''/'') (cs_id c) of Some (_, i) \<Rightarrow> i | None \<Rightarrow> cs_id c);
          tool = (case split_once '':'' local_id of Some (t, _) \<Rightarrow> t | None \<Rightarrow> local_id)
      in list_ex (owned_by tool) changed)"

definition proves :: "check_spec \<Rightarrow> bool" where
  "proves c \<longleftrightarrow> cs_kind c \<in> {Test, Build, Typecheck}"

definition skip_checks :: "check_spec list \<Rightarrow> string list \<Rightarrow> bool \<Rightarrow> check_spec list" where
  "skip_checks selected skip strict =
     (if skip = [] then selected
      else
        let kept = filter (\<lambda>c. cs_id c \<notin> set skip) selected in
        if \<not> strict \<or> list_ex proves kept then kept
        else filter (\<lambda>c. cs_id c \<notin> set skip \<or> proves c) selected)"

section \<open>The outcome of a turn (assess.rs)\<close>

definition MAX_NAMED_FAILURES :: nat where "MAX_NAMED_FAILURES = 3"

definition check_name :: "check_record \<Rightarrow> string" where
  "check_name r = (if trim (cr_label r) = [] then cr_check_id r else cr_label r)"

definition check_detail :: "check_record \<Rightarrow> string" where
  "check_detail r =
     (let how = (if cr_timed_out r then ''timed out''
                 else case cr_exit_code r of Some c \<Rightarrow> ''exit '' @ int_str c | None \<Rightarrow> ''killed'')
      in case cr_tests r of
           Some t \<Rightarrow> if tc_failed t > 0
             then how @ '', '' @ nat_str (unat (tc_failed t)) @ '' '' @ (if tc_failed t = 1 then ''test'' else ''tests'') @ '' failed''
             else how
         | None \<Rightarrow> how)"

definition failure_reason :: "check_record list \<Rightarrow> string" where
  "failure_reason failing =
     join_with ''; ''
       (map (\<lambda>r. check_name r @ '' failed ('' @ check_detail r @ '')'') (take MAX_NAMED_FAILURES failing) @
        (if length failing > MAX_NAMED_FAILURES then [nat_str (length failing - MAX_NAMED_FAILURES) @ '' more failed''] else []))"

fun put_latest :: "check_record \<Rightarrow> check_record list \<Rightarrow> check_record list" where
  "put_latest r [] = [r]"
| "put_latest r (s # ss) =
     (if cr_check_id s = cr_check_id r then (if cr_started_at s \<le> cr_started_at r then r # ss else s # ss)
      else s # put_latest r ss)"

definition latest_per_check :: "check_record list \<Rightarrow> check_record list" where
  "latest_per_check records = foldl (\<lambda>latest r. put_latest r latest) [] records"

definition since_mutation :: "u64 option \<Rightarrow> check_record \<Rightarrow> bool" where
  "since_mutation last_mutation_at r = (case last_mutation_at of None \<Rightarrow> True | Some at \<Rightarrow> at \<le> cr_started_at r)"

definition is_fresh :: "string option \<Rightarrow> check_record \<Rightarrow> bool" where
  "is_fresh current r = (case current of None \<Rightarrow> True | Some now \<Rightarrow> cr_fingerprint_after r = now)"

definition assess :: "check_record list \<Rightarrow> bool \<Rightarrow> u64 option \<Rightarrow> string option \<Rightarrow> verification_outcome" where
  "assess records changed_files last_mutation_at current_fingerprint =
     (if \<not> changed_files then NotApplicable
      else
        let latest = latest_per_check (filter (since_mutation last_mutation_at) records) in
        if latest = [] then Unverified ''no checks have run since the last change''
        else
          let failing = filter (\<lambda>r. \<not> cr_passed r) latest in
          if failing \<noteq> [] then VerificationFailed (failure_reason failing)
          else
            let fresh = filter (is_fresh current_fingerprint) latest in
            if fresh = [] then Unverified ''checks are stale: files changed after they ran''
            else if \<not> list_ex (\<lambda>r. cr_kind r \<in> {Test, Build, Typecheck}) fresh
            then Unverified ''only lint/format checks ran; run tests or a build''
            else Verified (map cr_record_id fresh))"

section \<open>Lemmas on the latest records\<close>

text \<open>A record counts when its list has no newer record of the same check, a later one winning a tie.\<close>

definition newest :: "check_record list \<Rightarrow> check_record set" where
  "newest rs = {r. \<exists>pre post. rs = pre @ r # post \<and>
     (\<forall>s \<in> set pre. cr_check_id s = cr_check_id r \<longrightarrow> cr_started_at s \<le> cr_started_at r) \<and>
     (\<forall>s \<in> set post. cr_check_id s = cr_check_id r \<longrightarrow> cr_started_at s < cr_started_at r)}"

lemma put_latest_set:
  "distinct (map cr_check_id ls) \<Longrightarrow>
   set (put_latest r ls) =
     {s \<in> set ls. cr_check_id s \<noteq> cr_check_id r \<or> cr_started_at r < cr_started_at s} \<union>
     (if \<exists>s \<in> set ls. cr_check_id s = cr_check_id r \<and> cr_started_at r < cr_started_at s then {} else {r})"
proof (induction ls)
  case (Cons s ls)
  have other: "\<forall>x \<in> set ls. cr_check_id x \<noteq> cr_check_id s" using Cons.prems by (auto simp: image_iff)
  show ?case
  proof (cases "cr_check_id s = cr_check_id r")
    case True
    then show ?thesis using other by (auto simp: not_le)
  next
    case False
    then show ?thesis using Cons by auto
  qed
qed simp

lemma put_latest_ids: "set (map cr_check_id (put_latest r ls)) = insert (cr_check_id r) (set (map cr_check_id ls))"
  by (induction ls) auto

lemma put_latest_distinct: "distinct (map cr_check_id ls) \<Longrightarrow> distinct (map cr_check_id (put_latest r ls))"
proof (induction ls)
  case (Cons s ls)
  then show ?case using put_latest_ids [of r ls] by (auto simp del: set_map)
qed simp

lemma newest_snoc:
  "newest (rs @ [r]) = {s \<in> newest rs. cr_check_id s \<noteq> cr_check_id r \<or> cr_started_at r < cr_started_at s} \<union>
     (if \<exists>s \<in> set rs. cr_check_id s = cr_check_id r \<and> cr_started_at r < cr_started_at s then {} else {r})"
proof -
  have "s \<in> newest (rs @ [r]) \<longleftrightarrow>
      s \<in> newest rs \<and> (cr_check_id s \<noteq> cr_check_id r \<or> cr_started_at r < cr_started_at s) \<or>
      s = r \<and> (\<forall>q \<in> set rs. cr_check_id q = cr_check_id r \<longrightarrow> cr_started_at q \<le> cr_started_at r)" (is "_ \<longleftrightarrow> ?old \<or> ?new") for s
  proof
    assume "s \<in> newest (rs @ [r])"
    then obtain pre post where w: "rs @ [r] = pre @ s # post"
      "\<forall>q \<in> set pre. cr_check_id q = cr_check_id s \<longrightarrow> cr_started_at q \<le> cr_started_at s"
      "\<forall>q \<in> set post. cr_check_id q = cr_check_id s \<longrightarrow> cr_started_at q < cr_started_at s"
      unfolding newest_def by blast
    show "?old \<or> ?new"
    proof (cases post rule: rev_cases)
      case Nil
      then show ?thesis using w by simp
    next
      case (snoc post' q)
      then have "q = r" "rs = pre @ s # post'" using w(1) by simp_all
      then show ?thesis using w snoc unfolding newest_def by auto
    qed
  next
    assume "?old \<or> ?new"
    then show "s \<in> newest (rs @ [r])"
    proof
      assume old: ?old
      then obtain pre post where w: "rs = pre @ s # post"
        "\<forall>q \<in> set pre. cr_check_id q = cr_check_id s \<longrightarrow> cr_started_at q \<le> cr_started_at s"
        "\<forall>q \<in> set post. cr_check_id q = cr_check_id s \<longrightarrow> cr_started_at q < cr_started_at s"
        unfolding newest_def by blast
      have "rs @ [r] = pre @ s # (post @ [r])" "\<forall>q \<in> set (post @ [r]). cr_check_id q = cr_check_id s \<longrightarrow> cr_started_at q < cr_started_at s"
        using w old by auto
      then show ?thesis using w(2) unfolding newest_def by blast
    next
      assume ?new
      then show ?thesis unfolding newest_def by force
    qed
  qed
  note members = this
  show ?thesis
  proof (cases "\<exists>s \<in> set rs. cr_check_id s = cr_check_id r \<and> cr_started_at r < cr_started_at s")
    case True
    then have "\<not> (\<forall>q \<in> set rs. cr_check_id q = cr_check_id r \<longrightarrow> cr_started_at q \<le> cr_started_at r)" by (auto simp: not_le)
    then show ?thesis using members True by auto
  next
    case False
    then have "\<forall>q \<in> set rs. cr_check_id q = cr_check_id r \<longrightarrow> cr_started_at q \<le> cr_started_at r" by (auto simp: not_less)
    then show ?thesis using members False by auto
  qed
qed

lemma newest_in: "r \<in> newest rs \<Longrightarrow> r \<in> set rs"
  by (auto simp: newest_def)

lemma latest_spec:
  "distinct (map cr_check_id (latest_per_check rs)) \<and> set (latest_per_check rs) = newest rs \<and>
   (\<forall>r \<in> set rs. \<exists>s \<in> newest rs. cr_check_id s = cr_check_id r \<and> cr_started_at r \<le> cr_started_at s)"
proof (induction rs rule: rev_induct)
  case Nil
  then show ?case by (simp add: latest_per_check_def newest_def)
next
  case (snoc r rs)
  let ?l = "latest_per_check rs"
  have step: "latest_per_check (rs @ [r]) = put_latest r ?l" by (simp add: latest_per_check_def)
  have newer: "(\<exists>s \<in> set rs. cr_check_id s = cr_check_id r \<and> cr_started_at r < cr_started_at s) \<longleftrightarrow>
      (\<exists>s \<in> newest rs. cr_check_id s = cr_check_id r \<and> cr_started_at r < cr_started_at s)"
  proof
    assume "\<exists>s \<in> set rs. cr_check_id s = cr_check_id r \<and> cr_started_at r < cr_started_at s"
    then show "\<exists>s \<in> newest rs. cr_check_id s = cr_check_id r \<and> cr_started_at r < cr_started_at s"
      using snoc by (metis order_less_le_trans)
  qed (use newest_in in blast)
  have eq: "set (put_latest r ?l) = newest (rs @ [r])"
    using put_latest_set [of ?l r] snoc newer by (simp add: newest_snoc)
  have "\<exists>s \<in> newest (rs @ [r]). cr_check_id s = cr_check_id q \<and> cr_started_at q \<le> cr_started_at s"
    if "q \<in> set (rs @ [r])" for q
  proof (cases "cr_check_id q = cr_check_id r")
    case False
    then have "q \<in> set rs" using that by auto
    then obtain s where "s \<in> newest rs" "cr_check_id s = cr_check_id q" "cr_started_at q \<le> cr_started_at s"
      using snoc by blast
    then show ?thesis using False by (auto simp: newest_snoc)
  next
    case True
    show ?thesis
    proof (cases "\<exists>s \<in> newest rs. cr_check_id s = cr_check_id r \<and> cr_started_at r < cr_started_at s")
      case newer_one: True
      then obtain s0 where s0: "s0 \<in> newest rs" "cr_check_id s0 = cr_check_id r" "cr_started_at r < cr_started_at s0" by blast
      have "\<exists>s \<in> newest rs. cr_check_id s = cr_check_id q \<and> cr_started_at q \<le> cr_started_at s \<and> cr_started_at r < cr_started_at s"
      proof (cases "q = r")
        case True
        then show ?thesis using s0 by (metis order_less_imp_le)
      next
        case False
        then have "q \<in> set rs" using that by auto
        then obtain s where s: "s \<in> newest rs" "cr_check_id s = cr_check_id q" "cr_started_at q \<le> cr_started_at s"
          using snoc by blast
        have "s = s0"
        proof -
          have "inj_on cr_check_id (newest rs)" using snoc by (metis distinct_map)
          from inj_onD [OF this, of s s0] show ?thesis using s s0 True by simp
        qed
        then show ?thesis using s s0 by blast
      qed
      then show ?thesis by (auto simp: newest_snoc)
    next
      case False
      then have "r \<in> newest (rs @ [r])" using newer by (simp add: newest_snoc)
      moreover have "cr_started_at q \<le> cr_started_at r"
      proof (cases "q = r")
        case f: False
        then have "q \<in> set rs" using that by simp
        then show ?thesis using False newer True by (meson not_le)
      qed simp
      ultimately show ?thesis using True by auto
    qed
  qed
  then show ?case using step eq put_latest_distinct snoc by simp
qed


section \<open>Lemmas on selections\<close>

lemma first_of_each_spec:
  "distinct (map cs_id (first_of_each seen cs)) \<and> set (map cs_id (first_of_each seen cs)) = cs_id ` set cs - set seen \<and>
   set (first_of_each seen cs) \<subseteq> set cs"
  by (induction seen cs rule: first_of_each.induct) (auto simp: image_iff)

lemma deepest_fold:
  "foldl (\<lambda>best r. if take (length r) p = r \<and> (case best of Some b \<Rightarrow> length b \<le> length r | None \<Rightarrow> True) then Some r else best) best dirs = Some r \<Longrightarrow>
   (\<forall>b. best = Some b \<longrightarrow> take (length b) p = b) \<Longrightarrow>
   take (length r) p = r \<and> (best = Some r \<or> r \<in> set dirs) \<and> (\<forall>b. best = Some b \<longrightarrow> length b \<le> length r) \<and>
   (\<forall>d \<in> set dirs. take (length d) p = d \<longrightarrow> length d \<le> length r)"
proof (induction dirs arbitrary: best)
  case (Cons d dirs)
  let ?best = "if take (length d) p = d \<and> (case best of Some b \<Rightarrow> length b \<le> length d | None \<Rightarrow> True) then Some d else best"
  have "\<forall>b. ?best = Some b \<longrightarrow> take (length b) p = b" using Cons.prems(2) by simp
  from Cons.IH [OF _ this] Cons.prems(1) have ih: "take (length r) p = r" "?best = Some r \<or> r \<in> set dirs"
    "\<forall>b. ?best = Some b \<longrightarrow> length b \<le> length r" "\<forall>d \<in> set dirs. take (length d) p = d \<longrightarrow> length d \<le> length r" by simp_all
  have "take (length d) p = d \<longrightarrow> length d \<le> length r" "\<forall>b. best = Some b \<longrightarrow> length b \<le> length r"
    using ih(3) by (cases best; auto split: if_splits)+
  then show ?case using ih by (auto split: if_splits)
qed simp

lemma deepest_fold_some:
  "(\<exists>d \<in> set dirs. take (length d) p = d) \<or> best \<noteq> None \<Longrightarrow>
   foldl (\<lambda>best r. if take (length r) p = r \<and> (case best of Some b \<Rightarrow> length b \<le> length r | None \<Rightarrow> True) then Some r else best) best dirs \<noteq> None"
  by (induction dirs arbitrary: best) (auto split: if_splits option.splits)

lemma deepest_root_is:
  assumes "d \<in> set dirs" "take (length d) p = d" "\<forall>e \<in> set dirs. take (length e) p = e \<longrightarrow> length e \<le> length d"
  shows "deepest_root dirs p = Some d"
proof -
  obtain r where r: "deepest_root dirs p = Some r"
    using deepest_fold_some [of dirs p None] assms unfolding deepest_root_def by blast
  from deepest_fold [OF r [unfolded deepest_root_def]] assms have "take (length r) p = r" "r \<in> set dirs" "length d \<le> length r" by auto
  with assms have "length r = length d" by (simp add: le_antisym)
  then show ?thesis using r \<open>take (length r) p = r\<close> assms(2) by metis
qed

lemma scope_checks_subset: "set (scope_checks checks changed) \<subseteq> set checks \<and> (scope_checks checks changed = [] \<longleftrightarrow> checks = [])"
  by (auto simp: scope_checks_def Let_def split: if_splits)

lemma scope_checks_distinct: "distinct (map f checks) \<Longrightarrow> distinct (map f (scope_checks checks changed))"
  by (auto simp: scope_checks_def Let_def distinct_map_filter)

lemma scope_checks_keep:
  assumes "c \<in> set checks" "relative_parts (cs_cwd c) = Some d" "p \<in> set changed" "relative_parts p = Some q"
    and "take (length d) q = d"
    and "\<forall>e \<in> set checks. \<forall>d'. relative_parts (cs_cwd e) = Some d' \<and> take (length d') q = d' \<longrightarrow> length d' \<le> length d"
  shows "c \<in> set (scope_checks checks changed)"
proof -
  define dirs where "dirs = remdups (List.map_filter (\<lambda>c. relative_parts (cs_cwd c)) checks)"
  have "d \<in> set dirs" using assms(1,2) by (force simp: dirs_def List.map_filter_def image_iff)
  moreover have "\<forall>e \<in> set dirs. take (length e) q = e \<longrightarrow> length e \<le> length d"
    using assms(6) by (auto simp: dirs_def List.map_filter_def)
  ultimately have "deepest_root dirs q = Some d" using assms(5) by (intro deepest_root_is)
  then have "d \<in> set (List.map_filter (\<lambda>p. Option.bind (relative_parts p) (deepest_root dirs)) changed)"
    using assms(3,4) by (force simp: List.map_filter_def image_iff)
  then show ?thesis using assms(1,2) by (auto simp: scope_checks_def Let_def dirs_def [symmetric])
qed

section \<open>Properties\<close>

text \<open>
  C24. The outcome of a turn is its newest evidence. Among the records since the last change, the newest record of each check
  decides (the later one on equal times): the turn counts as failed exactly when the files changed and one of these did not
  pass, and as verified exactly when all of them passed and one that is fresh is of a test, a build or a typecheck; a
  verified outcome names exactly the fresh ones. A failure is never hidden by an older success, nor by staleness.
\<close>

theorem outcome_is_the_newest_evidence:
  fixes records at now changed
  defines "relevant \<equiv> newest (filter (since_mutation at) records)"
  shows "((\<exists>why. assess records changed at now = VerificationFailed why) \<longleftrightarrow> changed \<and> (\<exists>r \<in> relevant. \<not> cr_passed r)) \<and>
    ((\<exists>ids. assess records changed at now = Verified ids) \<longleftrightarrow>
       changed \<and> (\<forall>r \<in> relevant. cr_passed r) \<and> (\<exists>r \<in> relevant. is_fresh now r \<and> cr_kind r \<in> {Test, Build, Typecheck})) \<and>
    (case assess records changed at now of
       Verified ids \<Rightarrow> set ids = cr_record_id ` {r \<in> relevant. is_fresh now r} | _ \<Rightarrow> True)"
proof -
  define latest where "latest = latest_per_check (filter (since_mutation at) records)"
  have l: "set latest = relevant" using latest_spec by (simp add: latest_def relevant_def)
  have a: "assess records changed at now =
      (if \<not> changed then NotApplicable
       else if latest = [] then Unverified ''no checks have run since the last change''
       else if filter (\<lambda>r. \<not> cr_passed r) latest \<noteq> [] then VerificationFailed (failure_reason (filter (\<lambda>r. \<not> cr_passed r) latest))
       else if filter (is_fresh now) latest = [] then Unverified ''checks are stale: files changed after they ran''
       else if \<not> list_ex (\<lambda>r. cr_kind r \<in> {Test, Build, Typecheck}) (filter (is_fresh now) latest)
       then Unverified ''only lint/format checks ran; run tests or a build''
       else Verified (map cr_record_id (filter (is_fresh now) latest)))"
    by (simp add: assess_def Let_def latest_def)
  have failing: "filter (\<lambda>r. \<not> cr_passed r) latest \<noteq> [] \<longleftrightarrow> (\<exists>r \<in> relevant. \<not> cr_passed r)"
    by (auto simp: filter_empty_conv l)
  have fresh: "list_ex (\<lambda>r. cr_kind r \<in> {Test, Build, Typecheck}) (filter (is_fresh now) latest) \<longleftrightarrow>
      (\<exists>r \<in> relevant. is_fresh now r \<and> cr_kind r \<in> {Test, Build, Typecheck})" by (auto simp: list_ex_iff l)
  have some: "filter (is_fresh now) latest = [] \<longleftrightarrow> \<not> (\<exists>r \<in> relevant. is_fresh now r)" "latest = [] \<longleftrightarrow> relevant = {}"
    by (auto simp: filter_empty_conv l [symmetric])
  show ?thesis unfolding a failing fresh some by (auto simp: l)
qed

definition sample_record :: "string \<Rightarrow> check_kind \<Rightarrow> bool \<Rightarrow> u64 \<Rightarrow> check_record" where
  "sample_record i k passed started =
     \<lparr>cr_record_id = i @ nat_str (unat started), cr_check_id = i, cr_label = [], cr_kind = k, cr_command = [], cr_cwd = [],
      cr_agent_id = [], cr_exit_code = Some 0, cr_passed = passed, cr_timed_out = False, cr_started_at = started,
      cr_duration_ms = 0, cr_tests = None, cr_artifact = None, cr_fingerprint_before = ''f'', cr_fingerprint_after = ''f'',
      cr_output_tail = []\<rparr>"

theorem outcome_is_the_newest_evidence_witness:
  "\<exists>why. assess [sample_record ''t'' Test True 5, sample_record ''t'' Test False 7] True (Some 4) (Some ''f'') = VerificationFailed why"
proof -
  let ?rs = "[sample_record ''t'' Test True 5, sample_record ''t'' Test False 7]"
  have "sample_record ''t'' Test False 7 \<in> newest (filter (since_mutation (Some 4)) ?rs)"
    by (simp add: newest_def since_mutation_def sample_record_def)
      (rule exI [of _ "[sample_record ''t'' Test True 5]"], simp add: sample_record_def)
  moreover have "\<not> cr_passed (sample_record ''t'' Test False 7)" by (simp add: sample_record_def)
  ultimately show ?thesis
    using conjunct1 [OF outcome_is_the_newest_evidence [where records = ?rs and at = "Some 4" and now = "Some ''f''" and changed = True]]
    by blast
qed

text \<open>
  Scoping checks to the changed paths loses none that a change calls for. A selection holds only matching checks of the
  profile, no id twice, and is empty only when nothing matches; and a matching check is selected whenever some changed path
  lies in its directory and in no deeper directory of a matching check.
\<close>

theorem selections_keep_the_checks_of_changed_roots:
  fixes profile selectors changed
  defines "matching \<equiv> first_of_each [] (filter (\<lambda>c. selectors = [] \<or> list_ex (matches_selector c) selectors) profile)"
  shows "set (select_checks profile selectors changed) \<subseteq> set matching \<and>
    distinct (map cs_id (select_checks profile selectors changed)) \<and>
    (select_checks profile selectors changed = [] \<longleftrightarrow> matching = []) \<and>
    (\<forall>c \<in> set matching. \<forall>p \<in> set changed. \<forall>d q.
       relative_parts (cs_cwd c) = Some d \<and> relative_parts p = Some q \<and> take (length d) q = d \<and>
       (\<forall>e \<in> set matching. \<forall>d'. relative_parts (cs_cwd e) = Some d' \<and> take (length d') q = d' \<longrightarrow> length d' \<le> length d) \<longrightarrow>
       c \<in> set (select_checks profile selectors changed))"
proof -
  have s: "select_checks profile selectors changed = scope_checks matching changed" by (simp add: select_checks_def matching_def)
  have d: "distinct (map cs_id matching)" using first_of_each_spec by (simp add: matching_def)
  show ?thesis unfolding s
  proof (intro conjI ballI allI impI)
    show "set (scope_checks matching changed) \<subseteq> set matching" "scope_checks matching changed = [] \<longleftrightarrow> matching = []"
      using scope_checks_subset by blast+
    show "distinct (map cs_id (scope_checks matching changed))" by (rule scope_checks_distinct [OF d])
  qed (elim conjE, rule scope_checks_keep)
qed

definition sample_check :: "string \<Rightarrow> path \<Rightarrow> check_spec" where
  "sample_check i cwd = \<lparr>cs_id = i, cs_label = i, cs_kind = Test, cs_command = i, cs_cwd = cwd, cs_source = ConfiguredCheck,
     cs_timeout_secs = 60\<rparr>"

theorem selections_keep_the_checks_of_changed_roots_witness:
  "sample_check ''web/npm:test'' [Normal ''web''] \<in>
     set (select_checks [sample_check ''cargo:test'' [], sample_check ''web/npm:test'' [Normal ''web'']] [] [[Normal ''web'', Normal ''a.ts'']])"
proof -
  let ?a = "sample_check ''cargo:test'' []" and ?b = "sample_check ''web/npm:test'' [Normal ''web'']"
  have all: "first_of_each [] (filter (\<lambda>c. [] = ([] :: string list) \<or> list_ex (matches_selector c) []) [?a, ?b]) = [?a, ?b]"
    by (simp add: sample_check_def)
  have parts: "relative_parts (cs_cwd ?a) = Some []" "relative_parts (cs_cwd ?b) = Some [''web'']"
    "relative_parts [Normal ''web'', Normal ''a.ts''] = Some [''web'', ''a.ts'']"
    by (simp_all add: relative_parts_def sample_check_def)
  note kept = selections_keep_the_checks_of_changed_roots
    [where profile = "[?a, ?b]" and selectors = "[]" and changed = "[[Normal ''web'', Normal ''a.ts'']]", unfolded all,
      THEN conjunct2, THEN conjunct2, THEN conjunct2, rule_format, of ?b "[Normal ''web'', Normal ''a.ts'']" "[''web'']" "[''web'', ''a.ts'']"]
  have "length d' \<le> length [''web'']" if "e \<in> set [?a, ?b]" "relative_parts (cs_cwd e) = Some d'" for e d'
    using that parts(1,2) by auto
  then have "\<forall>e \<in> set [?a, ?b]. \<forall>d'. relative_parts (cs_cwd e) = Some d' \<and> take (length d') [''web'', ''a.ts''] = d' \<longrightarrow>
      length d' \<le> length [''web'']" by blast
  moreover have "?b \<in> set [?a, ?b]" "[Normal ''web'', Normal ''a.ts''] \<in> set [[Normal ''web'', Normal ''a.ts'']]"
    "take (length [''web'']) [''web'', ''a.ts''] = [''web'']" by simp_all
  ultimately show ?thesis using kept parts(2,3) by blast
qed

lemma strict_narrowing_keeps_proof:
  assumes "c \<in> set selected" "proves c"
  shows "\<exists>c \<in> set (skip_checks selected skip True). proves c"
  using assms by (auto simp: skip_checks_def Let_def list_ex_iff)

lemma narrowing_keeps_the_rest: "c \<in> set selected \<Longrightarrow> cs_id c \<notin> set skip \<Longrightarrow> c \<in> set (skip_checks selected skip strict)"
  by (auto simp: skip_checks_def Let_def)

end
