(* ===== verification/Mcp_Entry.thy ===== *)
theory Mcp_Entry
  imports Framing
begin

text \<open>
  One configured MCP server: \<open>crates/z-engine-integrations/src/mcp/entry.rs\<close> and \<open>status.rs\<close>.

  A connection (\<open>Arc<McpClient>\<close>) is a number, never given twice. Around the state of an entry, \<open>mcp_world\<close> holds
  what the connections do: which are opened and not yet shut down, which are closed and why, the tasks that watch them,
  the changes announced, and in \<open>wd_phase\<close> where the holder of the connect lock is. An operation is what the code does
  while it holds the lock of the state; between two operations of a task those of other tasks may run. What opening a
  connection and listing its catalog gives is an \<open>opened_with\<close>. The generation is a natural number.
\<close>

section \<open>Status (status.rs)\<close>

datatype mcp_list_kind = ToolList | ResourceList | PromptList

datatype mcp_change_kind = StatusChange | ToolsChange | ResourcesChange | PromptsChange

fun change_of :: "mcp_list_kind \<Rightarrow> mcp_change_kind" where
  "change_of ToolList = ToolsChange"
| "change_of ResourceList = ResourcesChange"
| "change_of PromptList = PromptsChange"

datatype server_state = Connecting | Ready | FailedServer string | DisabledServer

record mcp_server_status =
  ms_name :: string
  ms_state :: server_state
  ms_tool_count :: nat
  ms_resource_count :: nat
  ms_prompt_count :: nat
  ms_error :: "string option"

section \<open>Entries (entry.rs)\<close>

record mcp_spec =
  sv_name :: string
  sv_enabled :: bool

record 't entry_state =
  en_state :: server_state
  en_client :: "nat option"
  en_tools :: "'t list"
  en_resource_count :: nat
  en_prompt_count :: nat
  en_generation :: nat

record 't catalog =
  ca_tools :: "'t list"
  ca_resource_count :: nat
  ca_prompt_count :: nat

datatype 't opened_with =
    ConnectFails integration_error
  | ToolsFail integration_error
  | Opens "'t list" "integration_error + string list" "integration_error + string list"

text \<open>Where the holder of the connect lock is: nobody holds it; a stale connection is about to be shut down; a new one is
  being opened; it is open and not yet installed; or the entry is shutting down.\<close>

datatype lock_phase = Free | Stopping "nat option" | Opening | Installing nat | Leaving "nat option"

record 't mcp_world =
  wd_entry :: "'t entry_state"
  wd_phase :: lock_phase
  wd_next :: nat
  wd_live :: "nat list"
  wd_closed :: "nat \<Rightarrow> string option"
  wd_watchers :: "(nat \<times> nat) list"
  wd_emitted :: "mcp_change_kind list"

definition new_entry :: "mcp_spec \<Rightarrow> 't entry_state" where
  "new_entry s = \<lparr>en_state = (if sv_enabled s then Connecting else DisabledServer), en_client = None, en_tools = [],
     en_resource_count = 0, en_prompt_count = 0, en_generation = 0\<rparr>"

definition new_world :: "mcp_spec \<Rightarrow> 't mcp_world" where
  "new_world s = \<lparr>wd_entry = new_entry s, wd_phase = Free, wd_next = 0, wd_live = [], wd_closed = (\<lambda>_. None),
     wd_watchers = [], wd_emitted = []\<rparr>"

definition emit :: "mcp_change_kind \<Rightarrow> 't mcp_world \<Rightarrow> 't mcp_world" where
  "emit kind w = w\<lparr>wd_emitted := wd_emitted w @ [kind]\<rparr>"

definition disabled_error :: "mcp_spec \<Rightarrow> integration_error" where
  "disabled_error s = Unsupported (''MCP server `'' @ sv_name s @ ''` is disabled'')"

definition client_closed :: "'t mcp_world \<Rightarrow> nat \<Rightarrow> bool" where
  "client_closed w c \<longleftrightarrow> wd_closed w c \<noteq> None"

definition close_client :: "nat \<Rightarrow> string \<Rightarrow> 't mcp_world \<Rightarrow> 't mcp_world" where
  "close_client c why w = (if client_closed w c then w else w\<lparr>wd_closed := (wd_closed w)(c := Some why)\<rparr>)"

definition stop_client :: "nat option \<Rightarrow> 't mcp_world \<Rightarrow> 't mcp_world" where
  "stop_client c w = (case c of
     None \<Rightarrow> w
   | Some c \<Rightarrow> (close_client c ''the client shut down'' w)\<lparr>wd_live := removeAll c (wd_live w)\<rparr>)"

definition catalog_count :: "integration_error + 'a list \<Rightarrow> nat" where
  "catalog_count listed = (case listed of Inr items \<Rightarrow> length items | Inl _ \<Rightarrow> 0)"

text \<open>The parts of \<open>connect_locked\<close>, each up to the next point where other tasks may run.\<close>

definition connect_begin :: "'t mcp_world \<Rightarrow> 't mcp_world" where
  "connect_begin w = emit StatusChange
     (w\<lparr>wd_entry := (wd_entry w)\<lparr>en_generation := en_generation (wd_entry w) + 1, en_state := Connecting, en_client := None\<rparr>,
        wd_phase := Stopping (en_client (wd_entry w))\<rparr>)"

definition stop_stale :: "nat option \<Rightarrow> 't mcp_world \<Rightarrow> 't mcp_world" where
  "stop_stale stale w = (stop_client stale w)\<lparr>wd_phase := Opening\<rparr>"

definition open_client :: "'t opened_with \<Rightarrow> 't mcp_world \<Rightarrow> (integration_error + nat \<times> 't catalog) \<times> 't mcp_world" where
  "open_client given w =
     (let c = wd_next w; w1 = w\<lparr>wd_next := c + 1, wd_live := wd_live w @ [c]\<rparr> in
      case given of
        ConnectFails e \<Rightarrow> (Inl e, w)
      | ToolsFail e \<Rightarrow> (Inl e, stop_client (Some c) w1)
      | Opens tools resources prompts \<Rightarrow>
          (Inr (c, \<lparr>ca_tools = tools, ca_resource_count = catalog_count resources, ca_prompt_count = catalog_count prompts\<rparr>),
           w1\<lparr>wd_phase := Installing c\<rparr>))"

definition install_client :: "nat \<Rightarrow> 't catalog \<Rightarrow> 't mcp_world \<Rightarrow> 't mcp_world" where
  "install_client c catalog w = emit StatusChange
     (w\<lparr>wd_entry := (wd_entry w)\<lparr>en_state := Ready, en_client := Some c, en_tools := ca_tools catalog,
          en_resource_count := ca_resource_count catalog, en_prompt_count := ca_prompt_count catalog\<rparr>,
        wd_watchers := wd_watchers w @ [(c, en_generation (wd_entry w))], wd_phase := Free\<rparr>)"

definition open_failed :: "(integration_error \<Rightarrow> string) \<Rightarrow> integration_error \<Rightarrow> 't mcp_world \<Rightarrow> 't mcp_world" where
  "open_failed shows_error e w = emit StatusChange
     (w\<lparr>wd_entry := (wd_entry w)\<lparr>en_state := FailedServer (shows_error e)\<rparr>, wd_phase := Free\<rparr>)"

definition shutdown_begin :: "'t mcp_world \<Rightarrow> 't mcp_world" where
  "shutdown_begin w =
     w\<lparr>wd_entry := (wd_entry w)\<lparr>en_generation := en_generation (wd_entry w) + 1, en_client := None\<rparr>,
       wd_phase := Leaving (en_client (wd_entry w))\<rparr>"

definition shutdown_end :: "nat option \<Rightarrow> 't mcp_world \<Rightarrow> 't mcp_world" where
  "shutdown_end c w = (stop_client c w)\<lparr>wd_phase := Free\<rparr>"

text \<open>The task of \<open>watch\<close> once its connection is closed.\<close>

definition watch_step :: "nat \<Rightarrow> nat \<Rightarrow> 't mcp_world \<Rightarrow> 't mcp_world" where
  "watch_step c generation w0 =
     (let w = w0\<lparr>wd_watchers := removeAll (c, generation) (wd_watchers w0)\<rparr>; e = wd_entry w in
      if en_generation e \<noteq> generation \<or> en_state e \<noteq> Ready then w
      else
        let why = (case Option.bind (en_client e) (wd_closed w) of Some r \<Rightarrow> r | None \<Rightarrow> ''the connection closed'')
        in emit StatusChange (w\<lparr>wd_entry := e\<lparr>en_state := FailedServer (''connection lost: '' @ why)\<rparr>\<rparr>))"

definition mark_failed :: "(integration_error \<Rightarrow> string) \<Rightarrow> nat \<Rightarrow> integration_error \<Rightarrow> 't mcp_world \<Rightarrow> 't mcp_world" where
  "mark_failed shows_error c e w =
     (if en_client (wd_entry w) \<noteq> Some c \<or> en_state (wd_entry w) \<noteq> Ready then w
      else emit StatusChange (w\<lparr>wd_entry := (wd_entry w)\<lparr>en_state := FailedServer (shows_error e)\<rparr>\<rparr>))"

definition ready_client :: "'t mcp_world \<Rightarrow> nat option" where
  "ready_client w = (case (en_state (wd_entry w), en_client (wd_entry w)) of
     (Ready, Some c) \<Rightarrow> if client_closed w c then None else Some c
   | _ \<Rightarrow> None)"

text \<open>\<open>tools\<close>: \<open>changed\<close> is the flag of the connection, \<open>listed\<close> what listing again gives, \<open>others\<close> what runs meanwhile.\<close>

definition store_tools :: "nat \<Rightarrow> 't list \<Rightarrow> 't mcp_world \<Rightarrow> 't mcp_world" where
  "store_tools c tools w =
     (if en_client (wd_entry w) = Some c then w\<lparr>wd_entry := (wd_entry w)\<lparr>en_tools := tools\<rparr>\<rparr> else w)"

definition entry_tools ::
  "('t mcp_world \<Rightarrow> 't mcp_world) \<Rightarrow> bool \<Rightarrow> integration_error + 't list \<Rightarrow> 't mcp_world \<Rightarrow> 't list \<times> 't mcp_world" where
  "entry_tools others changed listed w =
     (case ready_client w of
        None \<Rightarrow> ([], w)
      | Some c \<Rightarrow>
          (let w1 = (if changed then (case listed of Inr tools \<Rightarrow> store_tools c tools (others w) | Inl _ \<Rightarrow> others w) else w)
           in (en_tools (wd_entry w1), w1)))"

definition tools_or_last_known ::
  "('t mcp_world \<Rightarrow> 't mcp_world) \<Rightarrow> bool \<Rightarrow> integration_error + 't list \<Rightarrow> 't mcp_world \<Rightarrow> 't list \<times> 't mcp_world" where
  "tools_or_last_known others changed listed w =
     (case en_state (wd_entry w) of
        Ready \<Rightarrow> entry_tools others changed listed w
      | DisabledServer \<Rightarrow> ([], w)
      | _ \<Rightarrow> (en_tools (wd_entry w), w))"

definition entry_status :: "mcp_spec \<Rightarrow> 't mcp_world \<Rightarrow> mcp_server_status" where
  "entry_status s w =
     (let e = wd_entry w;
          current = (if en_state e = Ready
            then (case Option.bind (en_client e) (wd_closed w) of
                    Some why \<Rightarrow> FailedServer (''connection lost: '' @ why) | None \<Rightarrow> Ready)
            else en_state e)
      in \<lparr>ms_name = sv_name s, ms_state = current, ms_tool_count = length (en_tools e),
          ms_resource_count = en_resource_count e, ms_prompt_count = en_prompt_count e,
          ms_error = (case current of FailedServer why \<Rightarrow> Some why | _ \<Rightarrow> None)\<rparr>)"

section \<open>Requests\<close>

text \<open>
  What a request meets, in turn: \<open>rq_others n\<close> is what other tasks do before its \<open>n\<close>-th own step (with the wait for
  the connect lock), \<open>rq_opens n\<close> and \<open>rq_answer n\<close> what its \<open>n\<close>-th opening and sending give.
\<close>

record ('t, 'r) request_env =
  rq_others :: "nat \<Rightarrow> 't mcp_world \<Rightarrow> 't mcp_world"
  rq_opens :: "nat \<Rightarrow> 't opened_with"
  rq_answer :: "nat \<Rightarrow> nat \<Rightarrow> integration_error + 'r"

definition connect_locked ::
  "mcp_spec \<Rightarrow> (integration_error \<Rightarrow> string) \<Rightarrow> ('t, 'r) request_env \<Rightarrow> nat \<Rightarrow> 't mcp_world \<Rightarrow>
   (integration_error + nat) \<times> 't mcp_world" where
  "connect_locked s shows_error env n w0 =
     (if \<not> sv_enabled s then (Inl (disabled_error s), w0)
      else
        let stale = en_client (wd_entry w0);
            w1 = stop_stale stale (rq_others env (4 * n + 1) (connect_begin w0));
            (opened, w2) = open_client (rq_opens env n) (rq_others env (4 * n + 2) w1);
            w3 = rq_others env (4 * n + 3) w2
        in (case opened of
              Inr (c, catalog) \<Rightarrow> (Inr c, install_client c catalog w3)
            | Inl e \<Rightarrow> (Inl e, open_failed shows_error e w3)))"

definition reconnect ::
  "mcp_spec \<Rightarrow> (integration_error \<Rightarrow> string) \<Rightarrow> ('t, 'r) request_env \<Rightarrow> nat \<Rightarrow> nat option \<Rightarrow> 't mcp_world \<Rightarrow>
   (integration_error + nat) \<times> 't mcp_world" where
  "reconnect s shows_error env n stale w0 =
     (let w = rq_others env (4 * n) w0 in
      case (en_state (wd_entry w), en_client (wd_entry w)) of
        (Ready, Some current) \<Rightarrow>
          if stale \<noteq> Some current \<and> \<not> client_closed w current then (Inr current, w)
          else connect_locked s shows_error env n w
      | _ \<Rightarrow> connect_locked s shows_error env n w)"

definition usable_client ::
  "mcp_spec \<Rightarrow> (integration_error \<Rightarrow> string) \<Rightarrow> ('t, 'r) request_env \<Rightarrow> 't mcp_world \<Rightarrow>
   (integration_error + nat \<times> bool) \<times> 't mcp_world" where
  "usable_client s shows_error env w =
     (let e = wd_entry w;
          again = (case reconnect s shows_error env 0 (en_client e) w of (Inl er, w') \<Rightarrow> (Inl er, w') | (Inr c, w') \<Rightarrow> (Inr (c, True), w'))
      in if en_state e = DisabledServer then (Inl (disabled_error s), w)
         else (case (en_state e, en_client e) of
                 (Ready, Some c) \<Rightarrow> if client_closed w c then again else (Inr (c, False), w)
               | _ \<Rightarrow> again))"

text \<open>\<open>run\<close>, which also returns the connections the request was sent on and what came back.\<close>

definition run_request ::
  "mcp_spec \<Rightarrow> (integration_error \<Rightarrow> string) \<Rightarrow> ('t, 'r) request_env \<Rightarrow> 't mcp_world \<Rightarrow>
   (integration_error + 'r) \<times> (nat \<times> (integration_error + 'r)) list \<times> 't mcp_world" where
  "run_request s shows_error env w0 =
     (case usable_client s shows_error env w0 of
        (Inl e, w) \<Rightarrow> (Inl e, [], w)
      | (Inr (c, reconnected), w) \<Rightarrow>
          (let first = rq_answer env 0 c; w1 = rq_others env 8 w in
           case first of
             Inl (NotSent why) \<Rightarrow>
               if reconnected then (first, [(c, first)], w1)
               else (case reconnect s shows_error env 1 (Some c) w1 of
                       (Inl e, w2) \<Rightarrow> (Inl e, [(c, first)], w2)
                     | (Inr c', w2) \<Rightarrow> (rq_answer env 1 c', [(c, first), (c', rq_answer env 1 c')], rq_others env 9 w2))
           | Inl (Disconnected why) \<Rightarrow> (first, [(c, first)], mark_failed shows_error c (Disconnected why) w1)
           | _ \<Rightarrow> (first, [(c, first)], w1)))"

section \<open>Interleavings\<close>

text \<open>A step of any task: by the holder of the connect lock, as far as it is, or by the others.\<close>

inductive mcp_step ::
  "mcp_spec \<Rightarrow> (integration_error \<Rightarrow> string) \<Rightarrow> 't mcp_world \<Rightarrow> 't mcp_world \<Rightarrow> bool" for s shows_error where
  begins: "wd_phase w = Free \<Longrightarrow> sv_enabled s \<Longrightarrow> mcp_step s shows_error w (connect_begin w)"
| stops: "wd_phase w = Stopping c \<Longrightarrow> mcp_step s shows_error w (stop_stale c w)"
| opens: "wd_phase w = Opening \<Longrightarrow> mcp_step s shows_error w (snd (open_client given w))"
| gives_up: "wd_phase w = Opening \<Longrightarrow> mcp_step s shows_error w (open_failed shows_error e w)"
| installs: "wd_phase w = Installing c \<Longrightarrow> mcp_step s shows_error w (install_client c catalog w)"
| leaves: "wd_phase w = Free \<Longrightarrow> mcp_step s shows_error w (shutdown_begin w)"
| left: "wd_phase w = Leaving c \<Longrightarrow> mcp_step s shows_error w (shutdown_end c w)"
| closes: "c < wd_next w \<Longrightarrow> mcp_step s shows_error w (close_client c why w)"
| watches: "(c, g) \<in> set (wd_watchers w) \<Longrightarrow> client_closed w c \<Longrightarrow> mcp_step s shows_error w (watch_step c g w)"
| marks: "mcp_step s shows_error w (mark_failed shows_error c (Disconnected lost) w)"
| refreshes: "mcp_step s shows_error w (store_tools c tools w)"

definition mcp_reachable :: "mcp_spec \<Rightarrow> (integration_error \<Rightarrow> string) \<Rightarrow> 't mcp_world \<Rightarrow> bool" where
  "mcp_reachable s shows_error w \<longleftrightarrow> (mcp_step s shows_error)\<^sup>*\<^sup>* (new_world s) w"

text \<open>Which connections are live at each phase, and which watcher belongs to the current connection.\<close>

definition phase_ok :: "'t mcp_world \<Rightarrow> bool" where
  "phase_ok w \<longleftrightarrow> (case wd_phase w of
     Free \<Rightarrow> set (wd_live w) = set_option (en_client (wd_entry w))
   | Stopping c \<Rightarrow> set (wd_live w) = set_option c \<and> en_client (wd_entry w) = None \<and> en_state (wd_entry w) = Connecting
   | Opening \<Rightarrow> set (wd_live w) = {} \<and> en_client (wd_entry w) = None \<and> en_state (wd_entry w) = Connecting
   | Installing c \<Rightarrow> set (wd_live w) = {c} \<and> en_client (wd_entry w) = None \<and> en_state (wd_entry w) = Connecting
   | Leaving c \<Rightarrow> set (wd_live w) = set_option c \<and> en_client (wd_entry w) = None)"

definition watchers_ok :: "'t mcp_world \<Rightarrow> bool" where
  "watchers_ok w \<longleftrightarrow> (\<forall>(c, g) \<in> set (wd_watchers w). g \<le> en_generation (wd_entry w) \<and>
     (g = en_generation (wd_entry w) \<longrightarrow> en_client (wd_entry w) = Some c))"

definition ids_ok :: "'t mcp_world \<Rightarrow> bool" where
  "ids_ok w \<longleftrightarrow> distinct (wd_live w) \<and> (\<forall>c \<in> set (wd_live w). c < wd_next w) \<and>
     (\<forall>c. en_client (wd_entry w) = Some c \<longrightarrow> c < wd_next w)"

definition enabled_ok :: "mcp_spec \<Rightarrow> 't mcp_world \<Rightarrow> bool" where
  "enabled_ok s w \<longleftrightarrow> (en_state (wd_entry w) = DisabledServer \<longleftrightarrow> \<not> sv_enabled s) \<and>
     (\<not> sv_enabled s \<longrightarrow> en_client (wd_entry w) = None \<and> wd_phase w \<in> {Free, Leaving None})"

lemmas mcp_ops = connect_begin_def stop_stale_def open_client_def install_client_def open_failed_def shutdown_begin_def
  shutdown_end_def close_client_def stop_client_def watch_step_def mark_failed_def store_tools_def emit_def

lemma removeAll_Nil [simp]: "removeAll c xs = [] \<longleftrightarrow> set xs \<subseteq> {c}"
  by (induction xs) auto

lemma mcp_step_keeps:
  assumes "mcp_step s shows_error w w'" "phase_ok w" "watchers_ok w" "ids_ok w" "enabled_ok s w"
  shows "phase_ok w'" "watchers_ok w'" "ids_ok w'" "enabled_ok s w'"
proof -
  have "phase_ok w'" using assms
    by (cases rule: mcp_step.cases)
       (auto simp: mcp_ops phase_ok_def enabled_ok_def Let_def split: option.splits opened_with.splits lock_phase.splits)
  moreover have "watchers_ok w'" using assms
    by (cases rule: mcp_step.cases)
       (auto simp: mcp_ops watchers_ok_def phase_ok_def Let_def split: option.splits opened_with.splits)
  moreover have "ids_ok w'" using assms
    by (cases rule: mcp_step.cases)
       (auto simp: mcp_ops ids_ok_def phase_ok_def Let_def distinct_removeAll split: option.splits opened_with.splits)
  moreover have "enabled_ok s w'" using assms
    by (cases rule: mcp_step.cases)
       (auto simp: mcp_ops enabled_ok_def phase_ok_def Let_def split: option.splits opened_with.splits)
  ultimately show "phase_ok w'" "watchers_ok w'" "ids_ok w'" "enabled_ok s w'" by blast+
qed

lemma mcp_reachable_ok:
  assumes "mcp_reachable s shows_error w"
  shows "phase_ok w \<and> watchers_ok w \<and> ids_ok w \<and> enabled_ok s w"
  using assms unfolding mcp_reachable_def
proof (induction rule: rtranclp_induct)
  case base
  show ?case by (simp add: new_world_def new_entry_def phase_ok_def watchers_ok_def ids_ok_def enabled_ok_def)
next
  case (step w w')
  then show ?case using mcp_step_keeps by blast
qed

lemma mcp_step_next: "mcp_step s shows_error w w' \<Longrightarrow> wd_next w \<le> wd_next w'"
  by (cases rule: mcp_step.cases) (auto simp: mcp_ops Let_def split: option.splits opened_with.splits)

lemma mcp_steps_next: "(mcp_step s shows_error)\<^sup>*\<^sup>* w w' \<Longrightarrow> wd_next w \<le> wd_next w'"
  by (induction rule: rtranclp_induct) (auto dest: mcp_step_next)

lemma mcp_reachable_steps: "mcp_reachable s shows_error w \<Longrightarrow> (mcp_step s shows_error)\<^sup>*\<^sup>* w w' \<Longrightarrow> mcp_reachable s shows_error w'"
  by (auto simp: mcp_reachable_def)

section \<open>Requests as steps\<close>

text \<open>The others make steps of their own: as many as they like before a step of the request, until the connect lock is free
  where the request waits for it (0 and 4), and none of the lock's holder while the request holds it.\<close>

definition fair_env :: "mcp_spec \<Rightarrow> (integration_error \<Rightarrow> string) \<Rightarrow> ('t, 'r) request_env \<Rightarrow> bool" where
  "fair_env s shows_error env \<longleftrightarrow> (\<forall>n w. (mcp_step s shows_error)\<^sup>*\<^sup>* w (rq_others env n w) \<and>
     (n \<in> {0, 4} \<longrightarrow> wd_phase (rq_others env n w) = Free) \<and>
     (n \<notin> {0, 4, 8, 9} \<longrightarrow> wd_phase (rq_others env n w) = wd_phase w))"

lemma fair_envD:
  assumes "fair_env s shows_error env"
  shows "mcp_reachable s shows_error w \<Longrightarrow> mcp_reachable s shows_error (rq_others env n w)"
    and "wd_next w \<le> wd_next (rq_others env n w)"
    and "n \<in> {0, 4} \<Longrightarrow> wd_phase (rq_others env n w) = Free"
    and "n \<notin> {0, 4, 8, 9} \<Longrightarrow> wd_phase (rq_others env n w) = wd_phase w"
  using assms by (auto simp: fair_env_def intro: mcp_reachable_steps mcp_steps_next)

lemma mcp_reachable_step: "mcp_reachable s shows_error w \<Longrightarrow> mcp_step s shows_error w w' \<Longrightarrow> mcp_reachable s shows_error w'"
  by (auto intro: mcp_reachable_steps)

lemma connect_locked_steps:
  assumes fair: "fair_env s shows_error env" and w: "mcp_reachable s shows_error w" "wd_phase w = Free" and n: "n < 2"
    and c: "connect_locked s shows_error env n w = (r, w')"
  shows "mcp_reachable s shows_error w' \<and> wd_next w \<le> wd_next w' \<and> (\<forall>c. r = Inr c \<longrightarrow> wd_next w \<le> c \<and> c < wd_next w')"
proof (cases "sv_enabled s")
  case False
  then show ?thesis using c w by (auto simp: connect_locked_def)
next
  case True
  have other: "4 * n + 1 \<notin> {0, 4, 8, 9}" "4 * n + 2 \<notin> {0, 4, 8, 9}" "4 * n + 3 \<notin> {0, 4, 8, 9}"
    using n by (auto simp: less_Suc_eq numeral_2_eq_2)
  define a where "a = rq_others env (4 * n + 1) (connect_begin w)"
  define b where "b = rq_others env (4 * n + 2) (stop_stale (en_client (wd_entry w)) a)"
  obtain got w2 where o: "open_client (rq_opens env n) b = (got, w2)" by fastforce
  define d where "d = rq_others env (4 * n + 3) w2"
  have r: "(r, w') = (case got of Inr (c, catalog) \<Rightarrow> (Inr c, install_client c catalog d) | Inl e \<Rightarrow> (Inl e, open_failed shows_error e d))"
    using c [symmetric] True o unfolding d_def b_def a_def by (simp add: connect_locked_def Let_def)
  have a: "mcp_reachable s shows_error a" "wd_phase a = Stopping (en_client (wd_entry w))" "wd_next w \<le> wd_next a"
    using fair_envD [OF fair] mcp_reachable_step [OF w(1) begins [OF w(2) True]] other fair_envD(2) [OF fair, of "connect_begin w" "4 * n + 1"]
    by (auto simp: a_def connect_begin_def emit_def)
  have b: "mcp_reachable s shows_error b" "wd_phase b = Opening" "wd_next a \<le> wd_next b"
    using fair_envD [OF fair] mcp_reachable_step [OF a(1) stops [OF a(2)]] other
      mcp_step_next [OF stops [where s = s and shows_error = shows_error, OF a(2)]] fair_envD(2) [OF fair, of "stop_stale (en_client (wd_entry w)) a" "4 * n + 2"]
    by (auto simp: b_def stop_stale_def)
  have w2: "mcp_reachable s shows_error w2" "wd_next b \<le> wd_next w2"
    using mcp_reachable_step [OF b(1) opens [where s = s and shows_error = shows_error and given = "rq_opens env n", OF b(2)]]
      mcp_step_next [OF opens [where s = s and shows_error = shows_error and given = "rq_opens env n", OF b(2)]] o by auto
  have d: "mcp_reachable s shows_error d" "wd_phase d = wd_phase w2" "wd_next w2 \<le> wd_next d"
    using fair_envD [OF fair] w2 other by (auto simp: d_def)
  show ?thesis
  proof (cases got)
    case (Inl e)
    then have "wd_phase d = Opening"
      using o b(2) d(2) by (auto simp: open_client_def Let_def stop_client_def close_client_def split: opened_with.splits if_splits)
    from mcp_reachable_step [OF d(1) gives_up [OF this]] show ?thesis
      using r Inl a(3) b(3) w2(2) d(3) by (auto simp: open_failed_def emit_def)
  next
    case (Inr x)
    obtain c catalog where x: "x = (c, catalog)" by fastforce
    have "wd_phase d = Installing c" "c = wd_next b" "c < wd_next w2"
      using o d(2) Inr x by (auto simp: open_client_def Let_def split: opened_with.splits)
    with mcp_reachable_step [OF d(1) installs] show ?thesis
      using r Inr x a(3) b(3) d(3) by (auto simp: install_client_def emit_def)
  qed
qed

lemma reconnect_steps:
  assumes fair: "fair_env s shows_error env" and w: "mcp_reachable s shows_error w" and n: "n < 2"
    and c: "reconnect s shows_error env n stale w = (r, w')"
  shows "mcp_reachable s shows_error w' \<and> wd_next w \<le> wd_next w' \<and>
    (\<forall>c. r = Inr c \<longrightarrow> c < wd_next w' \<and> (\<forall>st. stale = Some st \<and> st < wd_next w \<longrightarrow> c \<noteq> st))"
proof -
  define a where "a = rq_others env (4 * n) w"
  have a: "mcp_reachable s shows_error a" "wd_phase a = Free" "wd_next w \<le> wd_next a"
    using fair_envD [OF fair] w n by (auto simp: a_def less_Suc_eq numeral_2_eq_2)
  show ?thesis
  proof (cases "connect_locked s shows_error env n a = (r, w')")
    case True
    then show ?thesis using connect_locked_steps [OF fair a(1,2) n True] a(3) by fastforce
  next
    case False
    then obtain current where "en_client (wd_entry a) = Some current" "stale \<noteq> Some current" "r = Inr current" "w' = a"
      using c by (auto simp: reconnect_def Let_def a_def split: server_state.splits option.splits if_splits)
    then show ?thesis using a mcp_reachable_ok [OF a(1)] by (auto simp: ids_ok_def)
  qed
qed

lemma usable_client_steps:
  assumes fair: "fair_env s shows_error env" and w: "mcp_reachable s shows_error w"
    and c: "usable_client s shows_error env w = (r, w')"
  shows "mcp_reachable s shows_error w' \<and> (\<forall>c again. r = Inr (c, again) \<longrightarrow> c < wd_next w')"
proof -
  obtain r1 w1 where re: "reconnect s shows_error env 0 (en_client (wd_entry w)) w = (r1, w1)" by fastforce
  from reconnect_steps [OF fair w _ re] have "mcp_reachable s shows_error w1" "\<forall>c. r1 = Inr c \<longrightarrow> c < wd_next w1" by auto
  then show ?thesis using c w mcp_reachable_ok [OF w] re
    by (auto simp: usable_client_def Let_def ids_ok_def split: sum.splits server_state.splits option.splits if_splits)
qed

lemma at_most_one: "distinct xs \<Longrightarrow> set xs = set_option c \<Longrightarrow> length xs \<le> 1"
  using distinct_card [of xs] by (cases c) auto

section \<open>A server that became ready\<close>

definition sample_mcp :: mcp_spec where "sample_mcp = \<lparr>sv_name = ''fs'', sv_enabled = True\<rparr>"

definition ready_world :: "nat mcp_world" where
  "ready_world = install_client 0 \<lparr>ca_tools = [7], ca_resource_count = 0, ca_prompt_count = 0\<rparr>
     (snd (open_client (Opens [7] (Inr []) (Inr [])) (stop_stale None (connect_begin (new_world sample_mcp)))))"

lemma ready_world_reachable: "mcp_reachable sample_mcp shows_error ready_world"
  unfolding ready_world_def
  by (intro mcp_reachable_step [OF _ installs] mcp_reachable_step [OF _ opens] mcp_reachable_step [OF _ stops]
      mcp_reachable_step [OF _ begins])
     (simp_all add: mcp_reachable_def mcp_ops new_world_def new_entry_def sample_mcp_def)

text \<open>Others that only finish what the holder of the connect lock is doing.\<close>

definition release :: "nat mcp_world \<Rightarrow> nat mcp_world" where
  "release w = (case wd_phase w of
     Free \<Rightarrow> w
   | Stopping c \<Rightarrow> open_failed (\<lambda>_. []) Cancelled (stop_stale c w)
   | Opening \<Rightarrow> open_failed (\<lambda>_. []) Cancelled w
   | Installing c \<Rightarrow> install_client c \<lparr>ca_tools = [], ca_resource_count = 0, ca_prompt_count = 0\<rparr> w
   | Leaving c \<Rightarrow> shutdown_end c w)"

lemma release_steps: "(mcp_step s (\<lambda>_. []))\<^sup>*\<^sup>* w (release w) \<and> wd_phase (release w) = Free"
proof (cases "wd_phase w")
  case (Stopping c)
  have "mcp_step s (\<lambda>_. []) w (stop_stale c w)" by (rule stops [OF Stopping])
  moreover have "mcp_step s (\<lambda>_. []) (stop_stale c w) (open_failed (\<lambda>_. []) Cancelled (stop_stale c w))"
    by (rule gives_up) (simp add: stop_stale_def)
  ultimately show ?thesis using Stopping by (auto simp: release_def open_failed_def emit_def intro: rtranclp.rtrancl_into_rtrancl)
next
  case Opening
  then show ?thesis using gives_up [OF Opening, of s "\<lambda>_. []" Cancelled] by (auto simp: release_def open_failed_def emit_def)
next
  case (Installing c)
  then show ?thesis
    using installs [OF Installing, of s "\<lambda>_. []" "\<lparr>ca_tools = [], ca_resource_count = 0, ca_prompt_count = 0\<rparr>"]
    by (auto simp: release_def install_client_def emit_def)
next
  case (Leaving c)
  then show ?thesis using left [OF Leaving, of s "\<lambda>_. []"] by (auto simp: release_def shutdown_end_def)
qed (simp add: release_def)

definition sample_env :: "(nat, nat) request_env" where
  "sample_env = \<lparr>rq_others = (\<lambda>n. if n \<in> {0, 4} then release else id), rq_opens = (\<lambda>n. Opens [7] (Inr []) (Inr [])),
     rq_answer = (\<lambda>n c. if n = 0 then Inl (NotSent ''gone'') else Inr 5)\<rparr>"

lemma sample_env_fair: "fair_env s (\<lambda>_. []) sample_env"
  using release_steps [of s] by (auto simp: fair_env_def sample_env_def)

section \<open>Properties\<close>

text \<open>
  A server has one connection at a time. However connects, shutdowns, watchers, requests and refreshes of all tasks
  interleave, at most one opened connection is not shut down; when nobody holds the connect lock it is the one the entry
  refers to, so none is forgotten; and a disabled server has none.
\<close>

theorem one_connection_at_a_time:
  assumes "mcp_reachable s shows_error w"
  shows "length (wd_live w) \<le> 1 \<and> (wd_phase w = Free \<longrightarrow> set (wd_live w) = set_option (en_client (wd_entry w))) \<and>
    (\<not> sv_enabled s \<longrightarrow> wd_live w = [] \<and> en_state (wd_entry w) = DisabledServer)"
proof -
  have ok: "phase_ok w" "ids_ok w" "enabled_ok s w" using mcp_reachable_ok [OF assms] by blast+
  obtain c where "set (wd_live w) = set_option c" using ok(1)
    by (cases "wd_phase w") (simp_all add: phase_ok_def, metis option.simps(14), metis option.simps(15))
  then have "length (wd_live w) \<le> 1" using ok(2) by (intro at_most_one) (auto simp: ids_ok_def)
  moreover have "wd_phase w = Free \<longrightarrow> set (wd_live w) = set_option (en_client (wd_entry w))"
    using ok(1) by (simp add: phase_ok_def split: lock_phase.splits)
  moreover have "\<not> sv_enabled s \<longrightarrow> wd_live w = [] \<and> en_state (wd_entry w) = DisabledServer"
    using ok(1,3) by (auto simp: phase_ok_def enabled_ok_def)
  ultimately show ?thesis by blast
qed

theorem one_connection_at_a_time_witness: "length (wd_live ready_world) \<le> 1 \<and> wd_live ready_world \<noteq> []"
  using one_connection_at_a_time [OF ready_world_reachable [of "\<lambda>_. []"]]
  by (simp add: ready_world_def mcp_ops new_world_def new_entry_def)

text \<open>
  C40. A server that is ready is marked as failed only for its current connection: because this one was closed, and then with
  the reason of its own close, or because a request on it found the connection lost, and then with this error. A lost request
  on any other connection changes nothing, and neither does the watcher of one, which only ends.
\<close>

theorem only_the_current_connection_fails_a_server:
  assumes "mcp_reachable s shows_error w"
  shows "(\<forall>c e. en_client (wd_entry w) \<noteq> Some c \<longrightarrow> mark_failed shows_error c e w = w) \<and>
    (\<forall>(c, g) \<in> set (wd_watchers w). en_client (wd_entry w) \<noteq> Some c \<longrightarrow>
       watch_step c g w = w\<lparr>wd_watchers := removeAll (c, g) (wd_watchers w)\<rparr>) \<and>
    (\<forall>w' why. mcp_step s shows_error w w' \<longrightarrow> en_state (wd_entry w) = Ready \<longrightarrow> en_state (wd_entry w') = FailedServer why \<longrightarrow>
       (\<exists>c. en_client (wd_entry w) = Some c \<and> en_client (wd_entry w') = Some c \<and>
         ((\<exists>r. wd_closed w c = Some r \<and> why = ''connection lost: '' @ r) \<or>
          (\<exists>lost. why = shows_error (Disconnected lost) \<and> w' = mark_failed shows_error c (Disconnected lost) w))))"
proof (intro conjI allI impI)
  have ok: "phase_ok w" "watchers_ok w" using mcp_reachable_ok [OF assms(1)] by blast+
  show "mark_failed shows_error c e w = w" if "en_client (wd_entry w) \<noteq> Some c" for c e using that by (simp add: mark_failed_def)
  show "\<forall>(c, g) \<in> set (wd_watchers w). en_client (wd_entry w) \<noteq> Some c \<longrightarrow>
      watch_step c g w = w\<lparr>wd_watchers := removeAll (c, g) (wd_watchers w)\<rparr>"
    using ok(2) by (auto simp: watch_step_def watchers_ok_def Let_def)
  fix w' why
  assume step: "mcp_step s shows_error w w'" and st: "en_state (wd_entry w) = Ready" "en_state (wd_entry w') = FailedServer why"
  show "\<exists>c. en_client (wd_entry w) = Some c \<and> en_client (wd_entry w') = Some c \<and>
    ((\<exists>r. wd_closed w c = Some r \<and> why = ''connection lost: '' @ r) \<or>
     (\<exists>lost. why = shows_error (Disconnected lost) \<and> w' = mark_failed shows_error c (Disconnected lost) w))"
    using step
  proof cases
    case (watches c g)
    then have "en_generation (wd_entry w) = g"
      using st by (cases "en_generation (wd_entry w) = g") (auto simp: watch_step_def Let_def)
    then have "en_client (wd_entry w) = Some c" using watches ok(2) by (auto simp: watchers_ok_def)
    then show ?thesis using watches st \<open>en_generation (wd_entry w) = g\<close>
      by (auto simp: watch_step_def Let_def emit_def client_closed_def)
  next
    case (marks c lost)
    then show ?thesis using st by (auto simp: mark_failed_def emit_def split: if_splits)
  qed (use st ok in \<open>auto simp: mcp_ops phase_ok_def Let_def split: option.splits opened_with.splits if_splits\<close>)
qed

theorem only_the_current_connection_fails_a_server_witness:
  "\<exists>c. en_client (wd_entry (close_client 0 ''eof'' ready_world)) = Some c \<and>
     en_state (wd_entry (watch_step 0 1 (close_client 0 ''eof'' ready_world))) = FailedServer ''connection lost: eof''"
proof -
  let ?w = "close_client 0 ''eof'' ready_world"
  have at: "wd_next ready_world = 1" "wd_watchers ready_world = [(0, 1)]" "wd_closed ready_world = (\<lambda>_. None)"
    "en_state (wd_entry ready_world) = Ready" "en_client (wd_entry ready_world) = Some 0" "en_generation (wd_entry ready_world) = 1"
    by (simp_all add: ready_world_def mcp_ops new_world_def new_entry_def)
  have r: "mcp_reachable sample_mcp (\<lambda>_. []) ?w"
    by (rule mcp_reachable_step [OF ready_world_reachable closes]) (simp add: at)
  have "mcp_step sample_mcp (\<lambda>_. []) ?w (watch_step 0 1 ?w)"
    by (rule watches) (simp_all add: close_client_def client_closed_def at)
  moreover have failed: "en_state (wd_entry (watch_step 0 1 ?w)) = FailedServer ''connection lost: eof''"
    by (simp add: watch_step_def close_client_def client_closed_def emit_def at)
  moreover have "en_state (wd_entry ?w) = Ready" by (simp add: close_client_def at)
  ultimately show ?thesis using only_the_current_connection_fails_a_server [OF r] by blast
qed

text \<open>
  C22. A request takes effect at most once as far as the client can tell. Whatever other tasks do meanwhile, it is sent at most
  twice, the second time only after the first was never delivered, and then on another connection; one that was lost on its
  way is not repeated; and the caller gets what the last sending gave, or the error that left no usable connection.
\<close>

theorem requests_are_not_repeated:
  assumes "fair_env s shows_error env" "mcp_reachable s shows_error w" "run_request s shows_error env w = (res, sends, w')"
  shows "mcp_reachable s shows_error w' \<and> length sends \<le> 2 \<and>
    (\<forall>i < length sends - 1. (\<exists>why. snd (sends ! i) = Inl (NotSent why)) \<and> fst (sends ! i) \<noteq> fst (sends ! Suc i)) \<and>
    (case res of Inr r \<Rightarrow> sends \<noteq> [] \<and> snd (last sends) = Inr r
     | Inl e \<Rightarrow> sends = [] \<or> snd (last sends) = Inl e \<or> (\<exists>why. snd (last sends) = Inl (NotSent why)))"
proof -
  obtain u w1 where u: "usable_client s shows_error env w = (u, w1)" by fastforce
  note u_ok = usable_client_steps [OF assms(1,2) u]
  show ?thesis
  proof (cases u)
    case (Inl e)
    then show ?thesis using assms(3) u u_ok by (auto simp: run_request_def)
  next
    case (Inr x)
    obtain c again where x: "x = (c, again)" by fastforce
    define w2 where "w2 = rq_others env 8 w1"
    have w2: "mcp_reachable s shows_error w2" "c < wd_next w2"
      using fair_envD(1,2) [OF assms(1)] u_ok Inr x by (auto simp: w2_def intro: less_le_trans)
    obtain v w3 where v: "reconnect s shows_error env 1 (Some c) w2 = (v, w3)" by fastforce
    from reconnect_steps [OF assms(1) w2(1) _ v] w2(2)
    have v_ok: "mcp_reachable s shows_error w3" "\<forall>c'. v = Inr c' \<longrightarrow> c' \<noteq> c" by auto
    have marked: "mcp_reachable s shows_error (mark_failed shows_error c (Disconnected lost) w2)" for lost
      by (rule mcp_reachable_step [OF w2(1) marks])
    show ?thesis using assms(3) u Inr x v v_ok w2 marked fair_envD(1) [OF assms(1) v_ok(1), of 9]
      by (auto simp: run_request_def Let_def w2_def [symmetric] split: sum.splits integration_error.splits if_splits)
  qed
qed

theorem requests_are_not_repeated_witness:
  "\<exists>w. run_request sample_mcp (\<lambda>_. []) sample_env ready_world = (Inr 5, [(0, Inl (NotSent ''gone'')), (1, Inr 5)], w) \<and>
     mcp_reachable sample_mcp (\<lambda>_. []) w"
proof -
  obtain w where run: "run_request sample_mcp (\<lambda>_. []) sample_env ready_world = (Inr 5, [(0, Inl (NotSent ''gone'')), (1, Inr 5)], w)"
    by (simp add: run_request_def usable_client_def reconnect_def connect_locked_def sample_env_def release_def ready_world_def
        mcp_ops new_world_def new_entry_def sample_mcp_def client_closed_def Let_def)
  then show ?thesis using requests_are_not_repeated [OF sample_env_fair ready_world_reachable run] by blast
qed

end
