(* ===== verification/Gui_Guard.thy ===== *)
theory Gui_Guard
  imports Edit_File
begin

text \<open>
  Paths that come from the webview: \<open>crates/z-engine-gui/src-tauri/src/guard.rs\<close>.

  A file system is the list of its entries, by the names from the root, and the working directory of the process.
  \<open>follow\<close> resolves a path as the system does: a link is replaced by its target, at most 40 links on the way.
  \<open>fs_canonicalize\<close> is \<open>std::fs::canonicalize\<close>; that resolving fails for other reasons is not modelled. What an
  operation on a path fails with is the argument \<open>io\<close>.
\<close>

section \<open>File systems\<close>

datatype fs_node = DirNode | FileNode | LinkNode path

record file_system =
  fs_nodes :: "(string list \<times> fs_node) list"
  fs_cwd :: path

definition node_at :: "file_system \<Rightarrow> string list \<Rightarrow> fs_node option" where
  "node_at F names = (if names = [] then Some DirNode else map_of (fs_nodes F) names)"

function follow :: "file_system \<Rightarrow> nat \<Rightarrow> string list \<Rightarrow> path \<Rightarrow> string list option" where
  "follow F n at [] = Some at"
| "follow F n at (RootDir # cs) = follow F n [] cs"
| "follow F n at (CurDir # cs) = follow F n at cs"
| "follow F n at (ParentDir # cs) = follow F n (butlast at) cs"
| "follow F n at (Normal s # cs) =
     (case node_at F (at @ [s]) of
        None \<Rightarrow> None
      | Some DirNode \<Rightarrow> follow F n (at @ [s]) cs
      | Some FileNode \<Rightarrow> if cs = [] then Some (at @ [s]) else None
      | Some (LinkNode goal) \<Rightarrow> (case n of 0 \<Rightarrow> None | Suc m \<Rightarrow> follow F m at (goal @ cs)))"
  by pat_completeness auto
termination by (relation "measures [\<lambda>(F, n, at, p). n, \<lambda>(F, n, at, p). length p]") auto

definition MAX_LINKS :: nat where "MAX_LINKS = 40"

definition of_names :: "string list \<Rightarrow> path" where
  "of_names names = RootDir # map Normal names"

definition fs_canonicalize :: "file_system \<Rightarrow> path \<Rightarrow> path option" where
  "fs_canonicalize F p =
     (if p = [] then None else map_option of_names (follow F MAX_LINKS [] (join_path (fs_cwd F) p)))"

text \<open>Where the entry is that a path names, its last component not being followed.\<close>

definition entry_of :: "file_system \<Rightarrow> path \<Rightarrow> string list option" where
  "entry_of F p = (if p = [] then None else case last p of
     Normal n \<Rightarrow> map_option (\<lambda>d. d @ [n]) (follow F MAX_LINKS [] (join_path (fs_cwd F) (butlast p)))
   | _ \<Rightarrow> None)"

definition drop_entry :: "string list \<Rightarrow> file_system \<Rightarrow> file_system" where
  "drop_entry e F = F\<lparr>fs_nodes := filter (\<lambda>x. fst x \<noteq> e) (fs_nodes F)\<rparr>"

definition fs_remove_file :: "(path \<Rightarrow> string option) \<Rightarrow> path \<Rightarrow> file_system \<Rightarrow> (string + unit) \<times> file_system" where
  "fs_remove_file io p F =
     (case io p of
        Some e \<Rightarrow> (Inl e, F)
      | None \<Rightarrow>
          (case entry_of F p of
             None \<Rightarrow> (Inl ''not found'', F)
           | Some e \<Rightarrow>
               (case node_at F e of
                  None \<Rightarrow> (Inl ''not found'', F)
                | Some DirNode \<Rightarrow> (Inl ''is a directory'', F)
                | Some _ \<Rightarrow> (Inr (), drop_entry e F))))"

definition fs_remove_dir :: "(path \<Rightarrow> string option) \<Rightarrow> path \<Rightarrow> file_system \<Rightarrow> (string + unit) \<times> file_system" where
  "fs_remove_dir io p F =
     (case io p of
        Some e \<Rightarrow> (Inl e, F)
      | None \<Rightarrow>
          (case entry_of F p of
             None \<Rightarrow> (Inl ''not found'', F)
           | Some e \<Rightarrow>
               if node_at F e \<noteq> Some DirNode then (Inl ''not a directory'', F)
               else if list_ex (\<lambda>x. strict_prefix e (fst x)) (fs_nodes F) then (Inl ''not empty'', F)
               else (Inr (), drop_entry e F)))"

section \<open>The guard\<close>

definition INSTRUCTION_NAMES :: "string list" where
  "INSTRUCTION_NAMES = [''AGENTS.md'', ''CLAUDE.md'', ''AGENTS.local.md'', ''CLAUDE.local.md'']"

definition SKILL_FILE :: string where "SKILL_FILE = ''SKILL.md''"

definition PROJECT_DIR :: string where "PROJECT_DIR = ''.z-engine''"

datatype extension_kind = AgentFiles | CommandFiles | SkillFiles | RuleFiles | OutputStyleFiles

definition all_kinds :: "extension_kind list" where
  "all_kinds = [AgentFiles, CommandFiles, SkillFiles, RuleFiles, OutputStyleFiles]"

fun kind_dir :: "extension_kind \<Rightarrow> string" where
  "kind_dir AgentFiles = ''agents''"
| "kind_dir CommandFiles = ''commands''"
| "kind_dir SkillFiles = ''skills''"
| "kind_dir RuleFiles = ''rules''"
| "kind_dir OutputStyleFiles = ''output-styles''"

definition plain_name :: "string \<Rightarrow> bool" where
  "plain_name part \<longleftrightarrow>
     part \<noteq> [] \<and> \<not> starts_with ''.'' part \<and> \<not> list_ex (\<lambda>c. c \<in> {CHR ''/'', BACKSLASH, NUL}) part \<and> trim part = part"

definition extension_target :: "path \<Rightarrow> extension_kind \<Rightarrow> string \<Rightarrow> string + path" where
  "extension_target base kind name =
     (let parts = split_on CHR '':'' (trim name) in
      if list_ex (\<lambda>part. \<not> plain_name part) parts then Inl (''invalid extension name `'' @ name @ ''`'')
      else
        let p = join_path base [Normal (kind_dir kind)] in
        if kind = SkillFiles then
          if length parts = 1 then Inr (p @ [Normal (hd parts), Normal SKILL_FILE])
          else Inl ''a skill name cannot contain `:`''
        else Inr (p @ map Normal (butlast parts) @ [Normal (last parts @ ''.md'')]))"

definition extension_bases :: "path \<Rightarrow> path option \<Rightarrow> path list \<Rightarrow> path list" where
  "extension_bases config_dir claude_dir roots =
     config_dir # (case claude_dir of Some d \<Rightarrow> [d] | None \<Rightarrow> []) @
     concat (map (\<lambda>root. [join_path root [Normal PROJECT_DIR], join_path root [Normal ''.claude'']]) roots)"

definition plain_absolute :: "string \<Rightarrow> string + path" where
  "plain_absolute s =
     (let p = components s in
      if is_absolute p \<and> list_all (\<lambda>c. c \<noteq> ParentDir \<and> c \<noteq> CurDir) p then Inr p
      else Inl (s @ '' must be an absolute path''))"

function canonical_prefix :: "file_system \<Rightarrow> string list \<Rightarrow> path \<Rightarrow> path option" where
  "canonical_prefix F below p =
     (case fs_canonicalize F p of
        Some real \<Rightarrow> Some (real @ map Normal below)
      | None \<Rightarrow>
          if p = [] then None
          else (case last p of Normal n \<Rightarrow> canonical_prefix F (n # below) (butlast p) | _ \<Rightarrow> None))"
  by pat_completeness auto
termination by (relation "measure (\<lambda>(F, below, p). length p)") auto

declare canonical_prefix.simps [simp del]

definition contained_in :: "file_system \<Rightarrow> path \<Rightarrow> path \<Rightarrow> bool" where
  "contained_in F p dir \<longleftrightarrow>
     prefix dir p \<and>
     (case canonical_prefix F [] dir of
        None \<Rightarrow> True
      | Some real_dir \<Rightarrow> (case canonical_prefix F [] p of None \<Rightarrow> True | Some real \<Rightarrow> prefix real_dir real))"

definition extension_file :: "file_system \<Rightarrow> string \<Rightarrow> path list \<Rightarrow> string + path" where
  "extension_file F s bases =
     (case plain_absolute s of
        Inl e \<Rightarrow> Inl e
      | Inr p \<Rightarrow>
          if \<not> (case extension p of Some ext \<Rightarrow> eq_ignore_ascii_case ext ''md'' | None \<Rightarrow> False)
          then Inl (s @ '' is not a markdown file'')
          else if list_ex (\<lambda>base. list_ex (\<lambda>kind. contained_in F p (join_path base [Normal (kind_dir kind)])) all_kinds) bases
          then Inr p
          else Inl (s @ '' is not an extension file''))"

definition same_dir :: "file_system \<Rightarrow> path \<Rightarrow> path \<Rightarrow> bool" where
  "same_dir F a b \<longleftrightarrow>
     a = b \<or> (case canonical_prefix F [] a of Some real \<Rightarrow> canonical_prefix F [] b = Some real | None \<Rightarrow> False)"

definition instruction_file :: "file_system \<Rightarrow> string \<Rightarrow> path list \<Rightarrow> string list \<Rightarrow> string + path" where
  "instruction_file F s dirs listed =
     (case plain_absolute s of
        Inl e \<Rightarrow> Inl e
      | Inr p \<Rightarrow>
          if (case last p of Normal n \<Rightarrow> n \<in> set INSTRUCTION_NAMES | _ \<Rightarrow> False) \<and>
             (list_ex (\<lambda>dir. same_dir F (butlast p) dir) dirs \<or> list_ex (\<lambda>known. components known = p) listed)
          then Inr p
          else Inl (s @ '' is not an instruction file''))"

definition project_path :: "file_system \<Rightarrow> (path \<Rightarrow> string) \<Rightarrow> string \<Rightarrow> path list \<Rightarrow> string + path" where
  "project_path F error_of s roots =
     (case plain_absolute s of
        Inl e \<Rightarrow> Inl e
      | Inr p \<Rightarrow>
          (case fs_canonicalize F p of
             None \<Rightarrow> Inl (s @ '': '' @ error_of p)
           | Some real \<Rightarrow>
               if list_ex (\<lambda>root. prefix (case fs_canonicalize F root of Some r \<Rightarrow> r | None \<Rightarrow> root) real) roots
               then Inr real
               else Inl (s @ '' is not inside a project'')))"

definition remove_extension :: "(path \<Rightarrow> string option) \<Rightarrow> path \<Rightarrow> file_system \<Rightarrow> (string + unit) \<times> file_system" where
  "remove_extension io p F =
     (case fs_remove_file io p F of
        (Inl e, F) \<Rightarrow> (Inl e, F)
      | (Inr _, F) \<Rightarrow>
          if p \<noteq> [] \<and> last p = Normal SKILL_FILE
          then (Inr (), snd (fs_remove_dir io (butlast p) F))
          else (Inr (), F))"

section \<open>Lemmas on resolving\<close>

lemma follow_prefix: "follow F n at (p @ q) = Some r \<Longrightarrow> \<exists>x. follow F n at p = Some x"
  by (induction F n at p rule: follow.induct)
     (auto split: option.splits fs_node.splits nat.splits if_splits)

lemma canonicalize_prefix:
  assumes "fs_canonicalize F p = Some real" "prefix d p" "d \<noteq> []"
  shows "\<exists>real_d. fs_canonicalize F d = Some real_d"
proof -
  obtain q where q: "p = d @ q" using assms(2) by (auto simp: prefix_def)
  have "join_path (fs_cwd F) p = join_path (fs_cwd F) d @ q" using q assms(3) by (auto simp: join_path_def is_absolute_def)
  then show ?thesis using assms q by (auto simp: fs_canonicalize_def dest!: follow_prefix)
qed

lemma canonical_prefix_exists: "fs_canonicalize F p = Some real \<Longrightarrow> canonical_prefix F [] p = Some real"
  by (simp add: canonical_prefix.simps)

lemma join_kind: "join_path base [Normal s] = base @ [Normal s]"
  by (simp add: join_path_def is_absolute_def)

lemma contained_resolves:
  assumes "contained_in F p dir" "fs_canonicalize F p = Some real" "dir \<noteq> []"
  shows "\<exists>real_dir. fs_canonicalize F dir = Some real_dir \<and> prefix real_dir real"
proof -
  obtain real_dir where "fs_canonicalize F dir = Some real_dir"
    using canonicalize_prefix [OF assms(2) _ assms(3)] assms(1) by (auto simp: contained_in_def)
  then show ?thesis using assms canonical_prefix_exists by (fastforce simp: contained_in_def)
qed

lemma follow_no_links:
  assumes "\<forall>goal. LinkNode goal \<notin> snd ` set (fs_nodes F)"
  shows "follow F n at (map Normal names) \<in> {None, Some (at @ names)}"
  using assms
proof (induction names arbitrary: at)
  case (Cons s names)
  have "node_at F (at @ [s]) \<noteq> Some (LinkNode goal)" for goal
    using Cons.prems by (force simp: node_at_def dest: map_of_SomeD)
  then show ?case using Cons.IH [OF Cons.prems, of "at @ [s]"] by (auto split: option.splits fs_node.splits)
qed simp

lemma canonicalize_no_links:
  assumes "\<forall>goal. LinkNode goal \<notin> snd ` set (fs_nodes F)"
  shows "fs_canonicalize F (of_names names) \<in> {None, Some (of_names names)}"
  using follow_no_links [OF assms, of MAX_LINKS "[]" names]
  by (auto simp: fs_canonicalize_def of_names_def join_path_def is_absolute_def)

lemma canonical_prefix_no_links:
  assumes "\<forall>goal. LinkNode goal \<notin> snd ` set (fs_nodes F)"
  shows "canonical_prefix F below (of_names names) = Some (of_names (names @ below))"
proof (induction names arbitrary: below rule: rev_induct)
  case Nil
  show ?case by (subst canonical_prefix.simps) (simp add: fs_canonicalize_def of_names_def join_path_def is_absolute_def)
next
  case (snoc s names)
  have "last (of_names (names @ [s])) = Normal s" "butlast (of_names (names @ [s])) = of_names names" "of_names (names @ [s]) \<noteq> []"
    by (simp_all add: of_names_def butlast_append)
  then show ?case using canonicalize_no_links [OF assms, of "names @ [s]"] snoc
    by (subst canonical_prefix.simps) (auto simp: of_names_def)
qed

section \<open>Lemmas on names\<close>

definition name_ok :: "string \<Rightarrow> bool" where
  "name_ok n \<longleftrightarrow> n \<noteq> [] \<and> n \<noteq> ''.'' \<and> n \<noteq> ''..'' \<and> CHR ''/'' \<notin> set n"

lemma split_on_append: "d \<notin> set a \<Longrightarrow> split_on d (a @ d # b) = a # split_on d b"
  by (induction a) auto

lemma split_on_join_with: "ns \<noteq> [] \<Longrightarrow> \<forall>n \<in> set ns. d \<notin> set n \<Longrightarrow> split_on d (join_with [d] ns) = ns"
  by (induction "[d]" ns rule: join_with.induct) (auto simp: split_on_append split_on_notin)

lemma components_of_names:
  assumes "\<forall>n \<in> set ns. name_ok n"
  shows "components (path_str (of_names ns)) = of_names ns"
proof -
  have t: "path_str (of_names ns) = CHR ''/'' # join_with ''/'' ns"
    by (simp add: path_str_def of_names_def is_absolute_def comp_def)
  have b: "body_components ns = map Normal ns"
    using assms by (auto simp: body_components_def name_ok_def component_of_def filter_id_conv)
  show ?thesis
  proof (cases "ns = []")
    case True
    then show ?thesis unfolding components_def t by (simp add: body_components_def of_names_def)
  next
    case False
    then have "split_on CHR ''/'' (join_with ''/'' ns) = ns" using assms by (intro split_on_join_with) (auto simp: name_ok_def)
    then show ?thesis using b unfolding components_def t by (simp add: body_components_def of_names_def)
  qed
qed

lemma plain_name_ok: "plain_name n \<Longrightarrow> name_ok n \<and> name_ok (n @ ''.md'')"
  by (cases n) (auto simp: plain_name_def name_ok_def list_ex_iff)

lemma kind_dir_ok: "name_ok (kind_dir kind)"
  by (cases kind) (simp_all add: name_ok_def)

lemma plain_absolute_of_names: "\<forall>n \<in> set ns. name_ok n \<Longrightarrow> plain_absolute (path_str (of_names ns)) = Inr (of_names ns)"
  by (auto simp: plain_absolute_def components_of_names Let_def) (auto simp: of_names_def is_absolute_def list_all_iff)

lemma extension_md: "n \<noteq> [] \<Longrightarrow> extension (p @ [Normal (n @ ''.md'')]) = Some ''md''"
  by (simp add: extension_def split_once.simps)

text \<open>A created file lies lexically in the folder of its kind, at plain names.\<close>

lemma extension_target_below:
  assumes "extension_target (of_names bs) kind name = Inr p"
  shows "\<exists>ns. p = of_names (bs @ kind_dir kind # ns) \<and> ns \<noteq> [] \<and> (\<forall>n \<in> set ns. name_ok n) \<and> extension p = Some ''md''"
proof -
  define parts where "parts = split_on CHR '':'' (trim name)"
  have plain: "\<forall>x \<in> set parts. plain_name x"
    using assms by (auto simp: extension_target_def Let_def parts_def list_ex_iff join_kind split: if_splits)
  have parts: "parts \<noteq> []" by (simp add: parts_def)
  show ?thesis
  proof (cases "kind = SkillFiles")
    case True
    then have "p = of_names (bs @ kind_dir kind # [hd parts, SKILL_FILE])"
      using assms by (simp add: extension_target_def Let_def parts_def join_kind of_names_def split: if_splits)
    moreover have "name_ok (hd parts)" "name_ok SKILL_FILE"
      using plain parts plain_name_ok by (auto simp: SKILL_FILE_def name_ok_def)
    moreover have "extension (of_names (bs @ kind_dir kind # [hd parts, SKILL_FILE])) = Some ''md''"
      by (simp add: extension_def of_names_def SKILL_FILE_def split_once.simps)
    ultimately show ?thesis by (intro exI [of _ "[hd parts, SKILL_FILE]"]) simp
  next
    case False
    let ?ns = "butlast parts @ [last parts @ ''.md'']"
    have p: "p = of_names (bs @ kind_dir kind # ?ns)"
      using assms False by (auto simp: extension_target_def Let_def parts_def join_kind of_names_def split: if_splits)
    have "last parts \<noteq> []" using plain parts by (simp add: plain_name_def)
    then have "extension p = Some ''md''"
      using extension_md [of "last parts" "of_names (bs @ kind_dir kind # butlast parts)"] by (simp add: p of_names_def)
    moreover have "\<forall>n \<in> set ?ns. name_ok n" using plain parts plain_name_ok by (auto dest: in_set_butlastD)
    ultimately show ?thesis using p by blast
  qed
qed

section \<open>Properties\<close>

text \<open>
  C23. The webview reaches extension files only. An accepted path is plain and absolute, ends in the extension \<open>md\<close>, lies
  lexically in the folder of a kind below one of the bases, and when it exists, that folder exists too and the file that the
  path leads to, all links followed, lies below the folder, all links followed.
\<close>

theorem accepted_files_resolve_below_their_folder:
  assumes "extension_file F s bases = Inr p"
  shows "p = components s \<and> is_absolute p \<and> ParentDir \<notin> set p \<and> CurDir \<notin> set p \<and>
    (\<exists>ext. extension p = Some ext \<and> eq_ignore_ascii_case ext ''md'') \<and>
    (\<exists>base \<in> set bases. \<exists>kind. prefix (base @ [Normal (kind_dir kind)]) p \<and>
       (\<forall>real. fs_canonicalize F p = Some real \<longrightarrow>
          (\<exists>folder. fs_canonicalize F (base @ [Normal (kind_dir kind)]) = Some folder \<and> prefix folder real)))"
proof -
  have plain: "plain_absolute s = Inr p"
    using assms by (auto simp: extension_file_def split: sum.splits if_splits)
  obtain base kind where in_folder: "base \<in> set bases" "contained_in F p (base @ [Normal (kind_dir kind)])"
    using assms by (auto simp: extension_file_def list_ex_iff join_kind split: sum.splits if_splits)
  have "\<exists>ext. extension p = Some ext \<and> eq_ignore_ascii_case ext ''md''"
    using assms by (auto simp: extension_file_def split: sum.splits if_splits option.splits)
  moreover have "p = components s \<and> is_absolute p \<and> ParentDir \<notin> set p \<and> CurDir \<notin> set p"
    using plain by (auto simp: plain_absolute_def Let_def list_all_iff split: if_splits)
  moreover have "prefix (base @ [Normal (kind_dir kind)]) p" using in_folder by (simp add: contained_in_def)
  ultimately show ?thesis using in_folder contained_resolves by blast
qed

definition demo_fs :: file_system where
  "demo_fs = \<lparr>fs_nodes =
     [([''c''], DirNode), ([''c'', ''agents''], DirNode), ([''c'', ''agents'', ''a.md''], FileNode), ([''etc''], DirNode)],
     fs_cwd = [RootDir]\<rparr>"

theorem accepted_files_resolve_below_their_folder_witness:
  "extension_file demo_fs ''/c/agents/a.md'' [of_names [''c'']] = Inr (of_names [''c'', ''agents'', ''a.md'']) \<and>
   ParentDir \<notin> set (of_names [''c'', ''agents'', ''a.md''])"
proof -
  have f: "extension_file demo_fs ''/c/agents/a.md'' [of_names [''c'']] = Inr (of_names [''c'', ''agents'', ''a.md''])" by code_simp
  show ?thesis using accepted_files_resolve_below_their_folder [OF f] f by blast
qed

text \<open>
  A file the guard lets be created can be read and deleted again: for a base at plain names that is among the accepted
  ones, the path of every new extension file is accepted, when no links are in the way.
\<close>

theorem created_files_are_accepted:
  assumes "extension_target (of_names bs) kind name = Inr p" and "of_names bs \<in> set bases" and "\<forall>n \<in> set bs. name_ok n"
    and "\<forall>goal. LinkNode goal \<notin> snd ` set (fs_nodes F)"
  shows "extension_file F (path_str p) bases = Inr p"
proof -
  obtain ns where p: "p = of_names (bs @ kind_dir kind # ns)" "\<forall>n \<in> set ns. name_ok n" "extension p = Some ''md''"
    using extension_target_below [OF assms(1)] by blast
  have plain: "plain_absolute (path_str p) = Inr p"
    unfolding p(1) using p(2) assms(3) kind_dir_ok by (intro plain_absolute_of_names) auto
  have "of_names bs @ [Normal (kind_dir kind)] = of_names (bs @ [kind_dir kind])" by (simp add: of_names_def)
  moreover have "prefix (of_names (bs @ [kind_dir kind])) p" by (simp add: p(1) of_names_def prefix_def)
  ultimately have "contained_in F p (join_path (of_names bs) [Normal (kind_dir kind)])"
    by (simp add: contained_in_def join_kind canonical_prefix_no_links [OF assms(4)] p(1))
  moreover have "kind \<in> set all_kinds" by (cases kind) (simp_all add: all_kinds_def)
  ultimately show ?thesis
    using plain p(3) assms(2) by (auto simp: extension_file_def list_ex_iff eq_ignore_ascii_case_def)
qed

theorem created_files_are_accepted_witness:
  "extension_file demo_fs ''/c/commands/git/commit.md'' [of_names [''c'']] = Inr (of_names [''c'', ''commands'', ''git'', ''commit.md''])"
proof -
  have t: "extension_target (of_names [''c'']) CommandFiles ''git:commit'' = Inr (of_names [''c'', ''commands'', ''git'', ''commit.md''])"
    by code_simp
  have p: "path_str (of_names [''c'', ''commands'', ''git'', ''commit.md'']) = ''/c/commands/git/commit.md''" by code_simp
  show ?thesis using created_files_are_accepted [OF t, of "[of_names [''c'']]" demo_fs]
    by (simp add: p name_ok_def demo_fs_def)
qed

text \<open>
  Only existing paths inside a project are opened: an accepted path comes back with its links followed, and lies below a
  root, with its links followed when the root exists.
\<close>

theorem opened_paths_are_inside_a_project:
  assumes "project_path F error_of s roots = Inr real"
  shows "fs_canonicalize F (components s) = Some real \<and>
    (\<exists>root \<in> set roots. prefix (case fs_canonicalize F root of Some r \<Rightarrow> r | None \<Rightarrow> root) real)"
proof -
  obtain p where p: "plain_absolute s = Inr p" using assms by (auto simp: project_path_def split: sum.splits)
  then have "p = components s" by (auto simp: plain_absolute_def Let_def split: if_splits)
  then show ?thesis using assms p
    by (cases "fs_canonicalize F p") (auto simp: project_path_def list_ex_iff simp del: option.case_eq_if split: if_splits)
qed

theorem opened_paths_are_inside_a_project_witness:
  "project_path demo_fs (\<lambda>_. []) ''/c/agents/a.md'' [of_names [''c'']] = Inr (of_names [''c'', ''agents'', ''a.md'']) \<and>
   fs_canonicalize demo_fs (components ''/c/agents/a.md'') = Some (of_names [''c'', ''agents'', ''a.md''])"
proof -
  have f: "project_path demo_fs (\<lambda>_. []) ''/c/agents/a.md'' [of_names [''c'']] = Inr (of_names [''c'', ''agents'', ''a.md''])" by code_simp
  show ?thesis using opened_paths_are_inside_a_project [OF f] f by blast
qed

text \<open>Deleting takes away the named entry and, for a skill, its folder when nothing is below it; nothing else.\<close>

lemma map_of_drop: "map_of (filter (\<lambda>x. fst x \<noteq> e) es) x = (if x = e then None else map_of es x)"
  by (induction es) auto

lemma node_at_drop: "e \<noteq> [] \<Longrightarrow> node_at (drop_entry e F) x = (if x = e then None else node_at F x)"
  by (simp add: node_at_def drop_entry_def map_of_drop)

lemma entry_of_not_root: "entry_of F p = Some e \<Longrightarrow> e \<noteq> []"
  by (auto simp: entry_of_def split: if_splits component.splits)

lemma fs_remove_file_done:
  assumes "fs_remove_file io p F = (Inr (), F')"
  shows "\<exists>e. entry_of F p = Some e \<and> F' = drop_entry e F"
  using assms by (auto simp: fs_remove_file_def split: option.splits fs_node.splits)

lemma fs_remove_dir_effect:
  "snd (fs_remove_dir io p F) = F \<or>
   (\<exists>e. entry_of F p = Some e \<and> snd (fs_remove_dir io p F) = drop_entry e F \<and> node_at F e = Some DirNode \<and>
      (\<forall>z. node_at F z \<noteq> None \<longrightarrow> \<not> strict_prefix e z))"
proof -
  have "node_at F z \<noteq> None \<Longrightarrow> z = [] \<or> z \<in> fst ` set (fs_nodes F)" for z
    by (auto simp: node_at_def split: if_splits dest!: map_of_SomeD intro: rev_image_eqI)
  then show ?thesis by (fastforce simp: fs_remove_dir_def list_ex_iff split: option.splits)
qed

text \<open>
  Deleting takes away the entry that the path names and, for a skill, the folder of the file when nothing is left below
  it; every other entry is as before.
\<close>

theorem deletions_keep_everything_else:
  assumes "remove_extension io p F = (Inr (), F')"
  shows "\<exists>e. entry_of F p = Some e \<and> node_at F' e = None \<and>
    (\<forall>x. x \<noteq> e \<and> node_at F' x \<noteq> node_at F x \<longrightarrow>
       last p = Normal SKILL_FILE \<and> node_at F x = Some DirNode \<and> (\<forall>z. node_at F' z \<noteq> None \<longrightarrow> \<not> strict_prefix x z))"
proof -
  obtain F1 where F1: "fs_remove_file io p F = (Inr (), F1)"
    using assms by (auto simp: remove_extension_def split: prod.splits sum.splits)
  from fs_remove_file_done [OF F1] obtain e where e: "entry_of F p = Some e" "F1 = drop_entry e F" by blast
  have drop: "node_at F1 x = (if x = e then None else node_at F x)" for x
    using e entry_of_not_root by (simp add: node_at_drop)
  have F': "F' = F1 \<or> last p = Normal SKILL_FILE \<and> F' = snd (fs_remove_dir io (butlast p) F1)"
    using assms F1 by (auto simp: remove_extension_def split: if_splits)
  show ?thesis
  proof (cases "F' = F1")
    case True
    then show ?thesis using e(1) drop by auto
  next
    case False
    then obtain d where d: "last p = Normal SKILL_FILE" "entry_of F1 (butlast p) = Some d" "F' = drop_entry d F1"
      "node_at F1 d = Some DirNode" "\<forall>z. node_at F1 z \<noteq> None \<longrightarrow> \<not> strict_prefix d z"
      using F' fs_remove_dir_effect [of io "butlast p" F1] by metis
    have "node_at F' x = (if x = d then None else node_at F1 x)" for x
      using d(2,3) entry_of_not_root by (simp add: node_at_drop)
    then show ?thesis using e(1) drop d(1,4,5) by (auto split: if_splits)
  qed
qed

text \<open>
  What the guard does not check. New files are written to their target without following its links: the folder of a kind may
  be a link that leads out of the project (one that came with a repository, say). And a deletion is checked by the file the
  path leads to in the end, while the entry that is deleted may lie elsewhere on the way.
\<close>

definition linked_fs :: file_system where
  "linked_fs = \<lparr>fs_nodes =
     [([''r''], DirNode), ([''r'', ''.z-engine''], DirNode), ([''r'', ''.z-engine'', ''agents''], LinkNode [RootDir, Normal ''etc'']),
      ([''etc''], DirNode), ([''c''], DirNode), ([''c'', ''agents''], DirNode), ([''c'', ''agents'', ''a.md''], FileNode),
      ([''c'', ''agents'', ''x''], LinkNode [RootDir, Normal ''etc'']),
      ([''etc'', ''l.md''], LinkNode [RootDir, Normal ''c'', Normal ''agents'', Normal ''a.md''])],
     fs_cwd = [RootDir]\<rparr>"

theorem targets_follow_links:
  "extension_target (of_names [''r'', ''.z-engine'']) AgentFiles ''a'' = Inr (of_names [''r'', ''.z-engine'', ''agents'', ''a.md'']) \<and>
   entry_of linked_fs (of_names [''r'', ''.z-engine'', ''agents'', ''a.md'']) = Some [''etc'', ''a.md'']"
  by code_simp

theorem deletions_follow_links:
  "extension_file linked_fs ''/c/agents/x/l.md'' [of_names [''c'']] = Inr (of_names [''c'', ''agents'', ''x'', ''l.md'']) \<and>
   node_at linked_fs [''etc'', ''l.md''] \<noteq> None \<and>
   node_at (snd (remove_extension (\<lambda>_. None) (of_names [''c'', ''agents'', ''x'', ''l.md'']) linked_fs)) [''etc'', ''l.md''] = None"
  by code_simp

end
