(* ===== verification/Spec2Isabelle.thy ===== *)
theory Spec2Isabelle
  imports Session_Log Wellformed Output Web Commands Sessions Examples Lsp Rpc Task_View Loop_Guard Anthropic Settings_Layers
    Verify Mcp_Entry Gui_Guard
begin

text \<open>
  Verification of the core of z-engine (\<open>src/crates\<close>), a coding agent.

  A turn of the agent loads its settings, sends the messages of a session to a model, receives text and tool calls, asks
  the permission policy about each call, runs what is allowed, checks the changed project, and records everything in a log
  from which the session is replayed. The development follows this path: what the policy decides, how a batch of calls is
  gated and run, how files are edited, how web pages and process output are taken in, how models and other processes are
  talked to, what is kept of a long history, and how the session is stored and replayed.

  \<^bold>\<open>Shared vocabulary.\<close> \<open>Prelude\<close>: the strings, characters and slices of Rust's standard library (a string is
  the list of its UTF-8 bytes), collections of facts, shared lemmas.

  \<^bold>\<open>The permission policy\<close> (\<open>z-engine-policy\<close>), modelled in full. The engine derives an \<open>Action\<close> from a call's
  input and asks \<open>Policy::decide\<close> whether to allow it, ask the user or deny it.

  \<^item> \<open>Paths\<close>: \<open>paths.rs\<close>. A path is its list of Unix components.
  \<^item> \<open>Syntax\<close>, \<open>Lexer\<close>: \<open>shell/syntax.rs\<close> and \<open>shell/lexer/\<close>. The struct \<open>Lexer\<close> is the record
    \<open>lexer\<close>; its mutually recursive methods are one definition each, tied together by \<open>methods_at n\<close>, where
    \<open>n\<close> bounds the nesting of calls.
  \<^item> \<open>Lexer_Total\<close>: every run of the lexer returns. A method call at nesting depth \<open>d\<close> on an input of
    \<open>k\<close> unread characters needs a number of nested calls linear in \<open>k\<close> and in the remaining depth, so
    \<open>lex_fuel\<close> is enough. The contract of the methods is the locale \<open>lexer_calls\<close>, interpreted on
    \<open>methods_at n\<close>.
  \<^item> \<open>Lexer_Static\<close>: what the methods keep of the state (locale \<open>lexer_keeps\<close>); a static line has no nested
    command and an accepted one is not too long.
  \<^item> \<open>Wrappers\<close>: \<open>shell/fields.rs\<close> and \<open>shell/wrappers.rs\<close>, the commands a segment may run indirectly,
    with the inductive relation \<open>may_run\<close> as specification of the bounded search.
  \<^item> \<open>Sed\<close>, \<open>Git\<close>, \<open>Read_Only\<close>: \<open>shell/sed_script.rs\<close>, \<open>sed.rs\<close>, \<open>git.rs\<close>, \<open>read_only.rs\<close>,
    \<open>analysis.rs\<close>, the classification of read-only commands.
  \<^item> \<open>Shell_Writes\<close>: a specification of what a line writes that does not use the classifiers: operands and option values, the
    files of \<open>sed\<close>, calls known to write; and that \<open>parse_call\<close> and \<open>program_is_read_only\<close> miss none of them.
  \<^item> \<open>Fs_Command\<close>: \<open>shell/location.rs\<close>, \<open>operands.rs\<close>, \<open>fs_command.rs\<close>, with \<open>shell_trace\<close> and \<open>mutated\<close> as
    specification of where a line changes files.
  \<^item> \<open>Suggest\<close>: \<open>shell/suggest.rs\<close>, and that quoting is undone by the lexer.
  \<^item> \<open>Domain\<close>, \<open>Rules\<close>: \<open>error.rs\<close>, \<open>action.rs\<close> and \<open>rules/\<close>. \<open>Rule_Text\<close>: parsing and printing as
    interpretations of one locale (\<open>text_form\<close>).
  \<^item> \<open>Policy\<close>: \<open>engine.rs\<close>, \<open>decide/\<close>; \<open>Modes\<close>: the permission modes of \<open>z-engine-protocol\<close>.
  \<^item> \<open>Decisions\<close>: the order of the decision, and files (locale \<open>rooted_policy\<close>, interpreted on every policy
    that \<open>Policy::new\<close> builds on an absolute project root). \<open>Sessions\<close>: how decisions change when a rule is
    granted (locale \<open>session_growth\<close>). \<open>Commands\<close>: shell commands and rules together. \<open>Examples\<close>: concrete
    policies and lexed lines for the witnesses.

  \<^bold>\<open>Tool calls\<close> (\<open>z-engine-engine\<close>, \<open>z-engine-tools\<close>).

  \<^item> \<open>Hooks\<close>: \<open>hooks/\<close> of the engine, the payload, the reading of an exit and the loop over the hooks.
  \<^item> \<open>Batch\<close>: \<open>batch/\<close> of the engine. \<open>gate\<close> is the whole gate of a call, \<open>resolve_approvals\<close> the answers of
    the user, \<open>execute\<close> the scheduling loop, which also returns the trace of the calls that ran together. Its properties join
    the policy with everything that may change its decision.
  \<^item> \<open>Edit\<close>: \<open>edit/engine.rs\<close> and \<open>edit/ladder.rs\<close> of the tools, on the text of a file.
  \<^item> \<open>Edit_File\<close>: \<open>edit/access.rs\<close>, \<open>edit/flow.rs\<close> and \<open>fs/\<close> of \<open>z-engine-host\<close>, on a disk that other processes
    change between the steps of an edit.

  \<^bold>\<open>What comes in and goes out\<close> (\<open>z-engine-host\<close>, \<open>z-engine-context\<close>, \<open>z-engine-integrations\<close>, \<open>z-engine-llm\<close>).

  \<^item> \<open>Web\<close>: \<open>web/guard.rs\<close>, \<open>fetch.rs\<close>, \<open>cache.rs\<close>: public addresses, redirects and the page cache, with the
    inductive predicate \<open>fetched\<close> for the caches that fetches lead to.
  \<^item> \<open>Output\<close>: \<open>process/\<close>, the ring of a background job (refinement of its history), bounded capture and lines.
  \<^item> \<open>Wellformed\<close>: \<open>wellformed.rs\<close> of the context, the shape of the messages a provider accepts.
  \<^item> \<open>Framing\<close>: \<open>jsonrpc/framing.rs\<close>. \<open>Sse\<close>: the two decoders of event streams, as interpretations of one locale.

  \<^bold>\<open>Models\<close> (\<open>z-engine-llm\<close>). Each layer is modelled over the events of the layer below.

  \<^item> \<open>Model_Events\<close>: \<open>types.rs\<close>, \<open>error.rs\<close> and \<open>accumulate.rs\<close>, the assembly of a turn from stream events.
  \<^item> \<open>Transport\<close>: \<open>retry.rs\<close>, \<open>transport.rs\<close>, \<open>client.rs\<close> and \<open>fallback.rs\<close>: attempts, the task that reads a response (locales
    \<open>closing_parser\<close> and \<open>traced_parser\<close> state what it relies on of a parser) and the sequence of models (locale
    \<open>model_client\<close>).
  \<^item> \<open>Openai\<close>, \<open>Anthropic\<close>: \<open>openai/stream.rs\<close> and \<open>anthropic/stream.rs\<close>, the parsers of the two providers; the locales of
    \<open>Transport\<close> are interpreted on them.

  \<^bold>\<open>Other processes\<close> (\<open>z-engine-integrations\<close>).

  \<^item> \<open>Lsp\<close>: \<open>lsp/position.rs\<close> and \<open>lsp/uri.rs\<close>, columns and paths as language servers see them.
  \<^item> \<open>Rpc\<close>: \<open>jsonrpc/\<close>, messages, the dispatcher and the course of a request. The operations of the tasks of a connection are
    the steps of the inductive relation \<open>evolves\<close>; their common laws are the locale \<open>dispatcher_law\<close>.

  \<^item> \<open>Mcp_Entry\<close>: \<open>mcp/entry.rs\<close>, one server of the MCP manager. What a task does while it holds the lock of the state is a
    step of \<open>mcp_step\<close>; requests are functions whose parts are such steps, with those of other tasks between them.

  \<^bold>\<open>Long histories\<close> (\<open>z-engine-context\<close>, \<open>z-engine-engine\<close>).

  \<^item> \<open>Template\<close>: \<open>template.rs\<close>. \<open>Compaction\<close>: \<open>compaction/\<close> without the task view: where the history is cut for a summary
    (\<open>admissible\<close> is the specification), which old results are cleared.
  \<^item> \<open>Task_View\<close>: \<open>compaction/exchanges.rs\<close> and \<open>task_view.rs\<close>, the reduction to the exchanges a task needs.
  \<^item> \<open>Loop_Guard\<close>: \<open>decisions/uses/loop_guard/\<close>, the detection of repetition, with \<open>watched\<close> for the reachable memories.

  \<^bold>\<open>Settings and checks\<close> (\<open>z-engine-config\<close>, \<open>z-engine-verify\<close>).

  \<^item> \<open>Settings_Layers\<close>: \<open>merge.rs\<close>, \<open>loader.rs\<close> and the schema of \<open>document.rs\<close>; its main property leads from the files through
    \<open>build_policy\<close> to the decision.
  \<^item> \<open>Verify\<close>: \<open>select.rs\<close>, \<open>narrow.rs\<close> and \<open>assess.rs\<close>: which checks a change calls for, and the outcome of a turn.
  \<^item> \<open>Gui_Guard\<close>: \<open>guard.rs\<close> of the desktop application, the checks on paths from its web view, over file systems with links.

  \<^bold>\<open>Sessions\<close> (\<open>z-engine-protocol\<close>, \<open>z-engine-store\<close>).

  \<^item> \<open>Protocol\<close>: the data of messages, turns, agents, todos, questions and checks.
  \<^item> \<open>Replay\<close>: \<open>record.rs\<close>, \<open>replay.rs\<close>, \<open>meta.rs\<close>, \<open>heal.rs\<close>, the state a log stands for.
  \<^item> \<open>Session_Log\<close>: \<open>append.rs\<close>, \<open>read.rs\<close>, \<open>log.rs\<close>, the log file with failing system calls and torn tails.

  \<^bold>\<open>What the properties show.\<close> Deny rules win in every mode, reach wrapped commands, and hold in every batch whatever
  hooks and users say; a tool runs only on an input that was decided; every call gets one result and unsafe calls run alone;
  plan mode edits no file and runs nothing that is known to write; protected paths are never written silently; what the sandbox
  rule and the \<open>acceptEdits\<close> rule accept stays inside the project, as far as the words of a command say where it writes;
  edits apply to what was seen and failing ones write nothing; guarded fetches reach public addresses only; acknowledged log
  records survive crashes and reopening; replay keeps what was not rewound; frames and event streams do not depend on how their
  bytes arrive; messages that go out are well formed. What a user denies holds in every project, and a settings layer that does
  not fit changes nothing; retries are bounded, every stream of a model ends once unless its cancellation is lost, its tool
  calls arrive whole, and the answer of a run with fallbacks is that of one model; every request to a server ends once and is
  never sent again once it may have arrived; compaction keeps calls with their results and what is protected; the outcome of a
  turn is its newest evidence.

  \<^bold>\<open>Bounds.\<close> The lexer's fuel is \<open>4 * length input + 400\<close> nested calls: each call reads a character or is
  one of a fixed number of calls at one depth, and there are at most 32 depths. The search for indirect commands
  is the code's own: 256 candidates, depth 8; its termination needs no fuel. Redirects, the page cache, frames and events
  have the code's own limits. The attempts of a request are bounded by its policy and the fallbacks by their list, so their
  loops are structural. The theorem on captured output needs a budget of at least seven bytes and text in UTF-8;
  below that the code reorders its output (\<open>Output.tiny_capture_reorders\<close>). No other definition has fuel.

  \<^bold>\<open>Parameters.\<close> Code outside of the repository is an argument: \<open>globset\<close> (\<open>glob_lib\<close>), \<open>regex\<close> and derived
  \<open>serde\<close> parsers (\<open>hook_lib\<close>, the codec of the log), \<open>url\<close>, \<open>reqwest\<close> and \<open>tokio\<close>'s resolver (\<open>url_lib\<close>,
  \<open>network\<close>), \<open>strsim\<close> and \<open>f64\<close> (\<open>f64_lib\<close>), \<open>sha2\<close> and \<open>fs::canonicalize\<close> (\<open>edit_lib\<close>),
  the floats of the backoff (\<open>f64_ops\<close>), the server behind a request (\<open>attempt_env\<close>), hashing and the classifier of the loop
  guard (\<open>guard_lib\<close>), the derived parser of the settings, parsing and printing of JSON. \<open>serde_json::Value\<close> is a type
  variable where it is only passed on. The hypotheses on them are written in the theorems that use them: parsing undoes
  printing of a log record, changing a scheme keeps the host, equal digests and equal stamps mean equal contents.

  \<^bold>\<open>Limits of the model.\<close> Paths are Unix paths and UTF-8 text; allocation, stack depth and serde attributes are not
  modelled; lengths are natural numbers where the code cannot exceed its integers, words where sums may wrap. A lock is an
  atomic step; what may happen between steps is an argument (\<open>others\<close>, \<open>is_cancelled\<close>).

  \<^bold>\<open>Not modelled.\<close> The asynchronous turns of \<open>z-engine-engine\<close> and the orchestration of agents: they tie the modelled parts
  together over \<open>tokio\<close> tasks and channels, whose scheduling is outside of the repository. The request bodies of the providers
  and their lists of models; the clients of language servers and MCP beyond messages, dispatch and the states of a server;
  the decision providers (embeddings, local models, remote classifiers); the discovery and running of checks; settings files
  beyond their merge (reading, writing, credentials, trust, the conversion of v1 files); directories of the store; prompt
  texts, the desktop application beyond its path checks, and the test kit. This is input and output, calls to third-party
  crates, derived serialization and presentation, which a model of the repository alone cannot say much about.
\<close>

section \<open>Read-only lines\<close>

lemma read_only_line:
  assumes "is_read_only cmd"
  shows "length cmd \<le> MAX_LEN" "concat (map write_targets (all_segments (parse cmd))) = []"
    "all_segments (parse cmd) = segments (parse cmd)" "s \<in> set (segments (parse cmd)) \<Longrightarrow> segment_is_read_only s"
proof -
  have ro: "lok (lex cmd)" "\<not> pdynamic (parse cmd)" "\<forall>s \<in> set (segments (parse cmd)). segment_is_read_only s"
    using assms by (auto simp: is_read_only_def command_is_read_only_def)
  then show "length cmd \<le> MAX_LEN" "all_segments (parse cmd) = segments (parse cmd)"
    "s \<in> set (segments (parse cmd)) \<Longrightarrow> segment_is_read_only s" "concat (map write_targets (all_segments (parse cmd))) = []"
    using lex_ok_length [OF ro(1)] segment_read_only_writes static_all_segments [OF ro(2)] by auto
qed

section \<open>Properties\<close>

text \<open>
  C1. In every mode, bypass included, a tool call that some deny rule restricts is denied, and the reason names a deny rule that
  restricts the call.
\<close>

theorem deny_rule_denies:
  assumes "r \<in> set (deny p)" "rule_restricts G p tool a (facts_of a) r"
  shows "\<exists>r' \<in> set (deny p). rule_restricts G p tool a (facts_of a) r' \<and>
    decide G p tool a mode = Deny (''denied by rule '' @ rule_display r')"
proof (cases "restricting G p (deny p) tool a (facts_of a)")
  case None
  then show ?thesis using assms by (auto simp: restricting_None)
next
  case (Some r')
  then show ?thesis using restricting_Some [OF Some] decide_deny [OF Some] by blast
qed

theorem deny_rule_denies_witness:
  "\<exists>r' \<in> set [WebSearchRule]. rule_restricts literal_globs (demo_policy [] [] [WebSearchRule] False) ''WebSearch'' Search (facts_of Search) r' \<and>
    decide literal_globs (demo_policy [] [] [WebSearchRule] False) ''WebSearch'' Search Bypass = Deny (''denied by rule '' @ rule_display r')"
  using deny_rule_denies [of WebSearchRule "demo_policy [] [] [WebSearchRule] False" literal_globs "''WebSearch''" Search Bypass]
  by (simp add: policy_simps rule_restricts_def matches_call_def)

text \<open>
  C2. A deny rule for a command also denies every line that may run the command indirectly: if a segment of the line (substitutions
  included) may run a command that the rule's pattern restricts, through wrappers, shells, \<open>eval\<close>, \<open>find -exec\<close> or
  parameter expansions, the line is denied in every mode.
\<close>

theorem deny_reaches_wrapped_commands:
  assumes "BashRule (Some pat) \<in> set (deny p)" "s \<in> set (all_segments (parse cmd))"
    "may_run (command_segment s) c" "restricts G pat (words c)"
  shows "\<exists>why. decide G p tool (Execute cmd) mode = Deny why"
proof -
  have "execute_restricts G p (BashRule (Some pat)) tool (command_facts cmd)"
    using candidates_complete [OF assms(2,3)] assms(4) by (intro execute_restricts_pattern) blast
  then have "restricting G p (deny p) tool (Execute cmd) (facts_of (Execute cmd)) \<noteq> None"
    using assms(1) by (auto simp: restricting_None rule_restricts_def facts_of_def)
  then show ?thesis using decide_deny by blast
qed

theorem deny_reaches_wrapped_commands_witness:
  "\<exists>why. decide literal_globs (demo_policy [] [] [BashRule (Some (prefix_pattern [''rm'']))] False) ''Bash'' (Execute ''sudo rm x'') Bypass = Deny why"
proof (rule deny_reaches_wrapped_commands [of "prefix_pattern [''rm'']" _ "simple [''sudo'', ''rm'', ''x'']" _ "simple [''rm'', ''x'']"])
  have "command_segment (simple [''sudo'', ''rm'', ''x'']) = simple [''sudo'', ''rm'', ''x'']"
    by (simp add: command_segment_def command_segment_simple LEADING_KEYWORDS_def)
  then show "may_run (command_segment (simple [''sudo'', ''rm'', ''x''])) (simple [''rm'', ''x''])"
    using may_run_step [OF may_run_self] by (simp add: expand_sudo_rm)
qed (simp_all add: policy_simps all_segments_def lex_sudo_rm restricts_def prefix_pattern_def simple_word may_name_def eq_ignore_ascii_case_def)



text \<open>
  Bypass mode allows a call exactly when no deny rule restricts it.
\<close>

theorem bypass_allows_unless_denied:
  "(\<exists>why. decide G p tool a Bypass = Allow why) \<longleftrightarrow>
   \<not> (\<exists>r \<in> set (deny p). rule_restricts G p tool a (facts_of a) r)"
  by (rule decide_cases [of G p tool a Bypass]) (auto simp: restricting_None dest: restricting_Some)

text \<open>
  Outside bypass mode a call that an ask rule restricts is never allowed without asking, whatever the allow and session rules.
\<close>

theorem ask_rule_never_allows:
  assumes "r \<in> set (ask p)" "rule_restricts G p tool a (facts_of a) r" "mode \<noteq> Bypass"
  shows "decide G p tool a mode \<noteq> Allow why"
  using decide_Allow(4) [OF _ assms(3)] assms(1,2) by (auto simp: restricting_None)

theorem ask_rule_never_allows_witness:
  "decide literal_globs (demo_policy [WebSearchRule] [WebSearchRule] [] False) ''WebSearch'' Search AcceptEdits \<noteq> Allow ''allowed by rule WebSearch''"
  by (rule ask_rule_never_allows [of WebSearchRule]) (simp_all add: decide_eval matches_call_def)

text \<open>
  A denial comes from a deny rule that restricts the call, which the reason names, or from plan mode for a call that changes
  state; nothing else denies.
\<close>

theorem denials_have_a_cause:
  assumes "decide G p tool a mode = Deny why"
  shows "(\<exists>r \<in> set (deny p). rule_restricts G p tool a (facts_of a) r \<and> why = ''denied by rule '' @ rule_display r) \<or>
    mode = Plan \<and> mutates a \<and> why = PLAN_MODE"
proof (rule decide_cases [of G p tool a mode])
  fix r assume r: "restricting G p (deny p) tool a (facts_of a) = Some r"
    "decide G p tool a mode = Deny (''denied by rule '' @ rule_display r)"
  have "why = ''denied by rule '' @ rule_display r" using assms unfolding r(2) by (rule decision.inject(3) [THEN iffD1, symmetric])
  then show ?thesis using restricting_Some [OF r(1)] by blast
qed (use assms action_decide_not_Deny [of G p tool a "facts_of a" mode why] in simp_all)

theorem denials_have_a_cause_witness:
  "(\<exists>r \<in> set [WebSearchRule]. rule_restricts literal_globs (demo_policy [] [] [WebSearchRule] False) ''WebSearch'' Search (facts_of Search) r \<and>
      ''denied by rule WebSearch'' = ''denied by rule '' @ rule_display r) \<or>
    Default = Plan \<and> mutates Search \<and> ''denied by rule WebSearch'' = PLAN_MODE"
  using denials_have_a_cause [of literal_globs "demo_policy [] [] [WebSearchRule] False" "''WebSearch''" Search Default "''denied by rule WebSearch''"]
  by (simp add: decide_eval matches_call_def)

text \<open>
  C6. Outside bypass mode a write that touches a protected path (\<open>.git\<close> anywhere, the engine's settings, MCP settings) below an
  allowed directory is never allowed without asking, whatever the rules.
\<close>

theorem protected_writes_never_allowed:
  assumes "absolute_normal (project_root (ctx p))" "\<forall>q \<in> set paths. wf_path q"
    "q \<in> set (targets p (Write paths) paths)" "protected_path p q" "mode \<noteq> Bypass"
  shows "decide G p tool (Write paths) mode \<noteq> Allow why"
proof
  assume "decide G p tool (Write paths) mode = Allow why"
  from decide_Allow(1) [OF this assms(5)] have "files_decide G p tool (Write paths) paths mode = Allow why"
    by (simp only: action_decide_simps)
  with rooted_policy.protected_write_asks [OF rooted_policy.intro [OF assms(1)] assms(2-4)] show False by blast
qed

theorem protected_writes_never_allowed_witness:
  "decide literal_globs (demo_policy [FilesRule EditScope None] [] [] False) ''Edit'' (Write [[Normal ''.git'', Normal ''config'']]) AcceptEdits \<noteq>
     Allow ''acceptEdits mode allows edits inside the project''"
  by (rule protected_writes_never_allowed [of _ _ "[RootDir, Normal ''w'', Normal ''.git'', Normal ''config'']"])
     (simp_all add: decide_eval absolute_normal_def wf_path_def protected_names_def to_ascii_lowercase_def to_ascii_lower_def
        is_ascii_uppercase_def map_filter_simps)

text \<open>
  C7. Outside bypass mode, reading or writing a path outside the allowed directories is allowed only by an allow or session rule
  whose path pattern matches that path.
\<close>

theorem outside_needs_a_pattern:
  assumes "decide G p tool a mode = Allow why" "mode \<noteq> Bypass" "a = Read paths \<or> a = Write paths"
    "q \<in> set (targets p a paths)" "\<not> is_inside_allowed p q"
  shows "\<exists>r \<in> set (allow_rules p). \<exists>pat. path_scope r tool a = Some (Some pat) \<and> path_matches G pat q (ctx p)"
proof -
  have fd: "files_decide G p tool a paths mode = Allow why"
    using decide_Allow(1) [OF assms(1,2)] assms(3) by (auto simp: action_decide_simps)
  have "is_read a \<or> is_write a" using assms(3) by (auto simp: is_read_def is_write_def)
  from files_decide_Allow [OF fd this] obtain r where "files_allowing G p tool a (targets p a paths) None = Some r"
    using assms(4,5) by blast
  from files_allowing_covers(2) [OF this assms(4)] show ?thesis
    using covers_path_outside assms(5) by blast
qed

theorem outside_needs_a_pattern_witness:
  "\<exists>r \<in> set [FilesRule ReadScope (Some \<lparr>source = ''//etc'', anchors = [Root],
       matcher = [\<lparr>gtext = ''etc'', literal_separator = True, case_insensitive = False\<rparr>]\<rparr>)].
     \<exists>pat. path_scope r ''Read'' (Read [[RootDir, Normal ''etc'']]) = Some (Some pat) \<and>
       path_matches literal_globs pat [RootDir, Normal ''etc''] (ctx (demo_policy [] [] [] False))"
  (is "\<exists>r \<in> set ?al. _ r")
  using outside_needs_a_pattern [of literal_globs "demo_policy ?al [] [] False" "''Read''" "Read [[RootDir, Normal ''etc'']]" Default
     "''allowed by rule Read(//etc)''" "[[RootDir, Normal ''etc'']]" "[RootDir, Normal ''etc'']"]
  by (simp add: decide_eval covers_path_def path_matches_def literal_globs_def root_relative_def path_str_def replace_char_def
     optional_str_def get_or_insert_def)

text \<open>
  Outside bypass mode every path of an allowed write is covered by an allow rule, or it lies inside the allowed directories, is
  not protected and the mode is \<open>acceptEdits\<close>.
\<close>

theorem writes_need_a_rule_or_accept_edits:
  assumes "decide G p tool (Write paths) mode = Allow why" "mode \<noteq> Bypass" "q \<in> set (targets p (Write paths) paths)"
  shows "(\<exists>r \<in> set (allow_rules p). covers_path G p tool (Write paths) q r) \<or>
    is_inside_allowed p q \<and> \<not> protected_path p q \<and> mode = AcceptEdits"
proof -
  have fd: "files_decide G p tool (Write paths) paths mode = Allow why"
    using decide_Allow(1) [OF assms(1,2)] by (simp only: action_decide_simps)
  show ?thesis
    using files_decide_Allow [OF fd] files_allowing_covers(2) [OF _ assms(3)] assms(3)
    by (auto simp: is_write_def)
qed

theorem writes_need_a_rule_or_accept_edits_witness:
  "(\<exists>r \<in> set []. covers_path literal_globs (demo_policy [] [] [] False) ''Edit'' (Write [[Normal ''a'']]) [RootDir, Normal ''w'', Normal ''a''] r) \<or>
   is_inside_allowed (demo_policy [] [] [] False) [RootDir, Normal ''w'', Normal ''a''] \<and>
   \<not> protected_path (demo_policy [] [] [] False) [RootDir, Normal ''w'', Normal ''a''] \<and> AcceptEdits = AcceptEdits"
  using writes_need_a_rule_or_accept_edits [of literal_globs "demo_policy [] [] [] False" "''Edit''" "[[Normal ''a'']]" AcceptEdits
    "''acceptEdits mode allows edits inside the project''" "[RootDir, Normal ''w'', Normal ''a'']"]
  by (simp add: decide_eval protected_names_def to_ascii_lowercase_def to_ascii_lower_def is_ascii_uppercase_def map_filter_simps
     PROTECTED_DIRS_def PROTECTED_FILES_def)

text \<open>
  C13. When the sandbox rule accepts a line, every file that any command the line may run names for writing lies, read from the
  project root, inside the allowed directories and is not protected.
\<close>

theorem sandboxed_writes_contained:
  assumes "absolute_normal (project_root (ctx p))"
    "sandbox_allows p (parse cmd) (candidates (command_facts cmd)) (truncated (command_facts cmd))"
    "s \<in> set (all_segments (parse cmd))" "may_run (command_segment s) c"
    "w \<in> set (write_targets c @ op_writes (operands (command c)))"
  shows "\<exists>q. best_guess p w = Some q \<and> is_inside_allowed p q \<and> \<not> protected_path p q"
proof -
  have "c \<in> set (candidates (command_facts cmd))"
    using candidates_complete [OF assms(3,4)] assms(2) by (auto simp: sandbox_allows_def)
  then have "sandbox_contained p w"
    using assms(2,5) unfolding sandbox_allows_def writes_contained_def by blast
  then show ?thesis by (rule rooted_policy.sandbox_contained_inside [OF rooted_policy.intro [OF assms(1)]])
qed

theorem sandboxed_writes_contained_witness:
  "\<exists>q. best_guess (demo_policy [] [] [] True) (plain_word ''x'') = Some q \<and> is_inside_allowed (demo_policy [] [] [] True) q \<and>
     \<not> protected_path (demo_policy [] [] [] True) q"
proof (rule sandboxed_writes_contained [of _ "''sudo rm x''" "simple [''sudo'', ''rm'', ''x'']" "simple [''rm'', ''x'']"])
  have cs: "command_segment (simple [''sudo'', ''rm'', ''x'']) = simple [''sudo'', ''rm'', ''x'']"
    by (simp add: command_segment_def command_segment_simple LEADING_KEYWORDS_def)
  then show "may_run (command_segment (simple [''sudo'', ''rm'', ''x''])) (simple [''rm'', ''x''])"
    using may_run_step [OF may_run_self] by (simp add: expand_sudo_rm)
  show "absolute_normal (project_root (ctx (demo_policy [] [] [] True)))" by (simp add: policy_simps absolute_normal_def)
  show "simple [''sudo'', ''rm'', ''x''] \<in> set (all_segments (parse ''sudo rm x''))" by (simp add: all_segments_def lex_sudo_rm)
  show "plain_word ''x'' \<in> set (write_targets (simple [''rm'', ''x'']) @ op_writes (operands (command (simple [''rm'', ''x'']))))"
    by (simp add: command_simple LEADING_KEYWORDS_def writes_of_commands positional_names)
  show "sandbox_allows (demo_policy [] [] [] True) (parse ''sudo rm x'') (candidates (command_facts ''sudo rm x'')) (truncated (command_facts ''sudo rm x''))"
    by (simp add: sandbox_allows_def writes_contained_def sandbox_contained_def command_facts_def parse_sudo_rm all_segments_def
       executed_sudo_rm command_simple LEADING_KEYWORDS_def writes_of_commands positional_names Let_def file_eval decide_eval)
qed

text \<open>
  A line that does not parse, or that computes part of itself at run time, is allowed (outside the bypass and
  \<open>acceptEdits\<close> modes) only by a rule for the tool or for the whole line.
\<close>

theorem unparsed_needs_a_line_rule:
  assumes "decide G p tool (Execute cmd) mode = Allow why" "mode \<noteq> Bypass" "mode \<noteq> AcceptEdits"
    "\<not> pok (parse cmd) \<or> pdynamic (parse cmd)"
  shows "\<exists>r \<in> set (allow_rules p). allows_whole tool (command_facts cmd) r"
  using execute_decide_static [OF _ assms(3)] decide_Allow(1) [OF assms(1,2)] assms(4)
  unfolding action_decide_simps by blast

theorem unparsed_needs_a_line_rule_witness:
  "\<exists>r \<in> set (allow_rules (demo_policy [BashRule None] [] [] False)). allows_whole ''Bash'' (command_facts [QUOTE]) r"
  by (rule unparsed_needs_a_line_rule [OF whole_line_allowed]) (simp_all add: lex_unclosed)

text \<open>
  If a command line is allowed (outside the bypass and \<open>acceptEdits\<close> modes) and no rule allows it as a whole, every file it
  opens for writing by a redirection stays inside the allowed directories and is not protected.
\<close>

theorem allowed_redirects_contained:
  assumes "decide G p tool (Execute cmd) mode = Allow why" "mode \<noteq> Bypass" "mode \<noteq> AcceptEdits"
    "\<not> (\<exists>r \<in> set (allow_rules p). allows_whole tool (command_facts cmd) r)" "s \<in> set (all_segments (parse cmd))"
  shows "redirects_contained p s"
proof -
  have ex: "execute_decide G p tool (command_facts cmd) mode = Allow why"
    using decide_Allow(1) [OF assms(1,2)] by (simp only: action_decide_simps)
  have s: "s \<in> set (segments (parse cmd))"
    using execute_decide_static [OF ex assms(3,4)] static_all_segments assms(5) by simp
  from ex show ?thesis
  proof (cases rule: execute_decide_Allow)
    case covered
    then show ?thesis using coverage_writes [of G p s] s by simp
  next
    case reads
    then have "write_targets s = []"
      using segment_read_only_writes s by (simp add: is_read_only_def command_is_read_only_def)
    then show ?thesis by (simp add: redirects_contained_def)
  next
    case sandbox
    then show ?thesis
      using assms(5) by (auto simp: sandbox_allows_def writes_contained_def sandbox_contained_def redirects_contained_def)
  qed (use assms in auto)
qed

theorem allowed_redirects_contained_witness:
  "redirects_contained (demo_policy [BashRule (Some (prefix_pattern [''ls'']))] [] [] False)
     \<lparr>words = [plain_word ''ls''], redirects = [\<lparr>kind = WriteTo, target = plain_word ''a''\<rparr>]\<rparr>"
proof (rule allowed_redirects_contained [of literal_globs _ "''Bash''" "''ls >a''" Default "''allowed by rule Bash(ls:*)''"])
  show "decide literal_globs (demo_policy [BashRule (Some (prefix_pattern [''ls'']))] [] [] False) ''Bash'' (Execute ''ls >a'') Default =
    Allow ''allowed by rule Bash(ls:*)''"
    by (simp add: decide_eval execute_decide_def execute_allowing_def allows_whole_def optional_str_def prefix_pattern_def
      demo_eval matches_line_def covers_argv_def coverage_of_def redirects_contained_def write_targets_def writes_file_def file_eval
      argv_def command_def skip_keywords_stop allows_def get_or_insert_def command_display_def)
qed (simp_all add: policy_simps demo_eval allows_whole_def matches_line_def prefix_pattern_def)

text \<open>
  Granting a session rule never takes a permission away: what was allowed before is still allowed.
\<close>

theorem session_rules_only_widen:
  assumes "add_session_rule G t p = Inr p'" "decide G p tool a mode = Allow why"
  shows "\<exists>why'. decide G p' tool a mode = Allow why'"
  using granted.decide_grows [OF assms(2)] add_session_rule_Inr [OF assms(1)] by metis

theorem session_rules_only_widen_witness:
  "\<exists>why'. decide literal_globs edit_policy ''Read'' (Read []) Default = Allow why'"
  by (rule session_rules_only_widen [OF add_edit, where why = "''reads inside the project''"]) (simp add: decide_eval)

text \<open>
  Granting a session rule changes no denial: the same calls are denied, for the same reason.
\<close>

theorem session_rules_keep_denials:
  assumes "add_session_rule G t p = Inr p'"
  shows "decide G p' tool a mode = Deny why \<longleftrightarrow> decide G p tool a mode = Deny why"
  by (rule add_session_rule_Inr [OF assms]) (simp only: granted.decide_deny_kept)

theorem session_rules_keep_denials_witness:
  "decide literal_globs edit_policy ''Edit'' (Write []) Plan = Deny PLAN_MODE \<longleftrightarrow>
   decide literal_globs (demo_policy [] [] [] False) ''Edit'' (Write []) Plan = Deny PLAN_MODE"
  by (rule session_rules_keep_denials [OF add_edit])

text \<open>
  A granted rule is listed in its canonical form, and granting it again changes nothing.
\<close>

theorem session_rule_granted_once:
  assumes "add_session_rule G t p = Inr p'"
  shows "add_session_rule G t p' = Inr p' \<and> (\<exists>r. rule_parse G t = Inr r \<and> rule_display r \<in> set (session_rules p'))"
proof -
  obtain r where r: "rule_parse G t = Inr r" "p' = p\<lparr>session := push_new rule_eq r (session p)\<rparr>"
    using add_session_rule_Inr [OF assms] .
  have "add_session_rule G t p' = Inr p'" using r by (simp add: add_session_rule_def push_new_idem)
  moreover obtain y where "y \<in> set (session p')" "rule_eq y r" using push_new_mem [of r "session p"] r(2) by auto
  then have "rule_display r \<in> set (session_rules p')" using rule_eq_display [of y r, symmetric] by (auto simp: session_rules_def)
  ultimately show ?thesis using r(1) by blast
qed

theorem session_rule_granted_once_witness:
  "add_session_rule literal_globs ''Edit'' edit_policy = Inr edit_policy \<and>
   (\<exists>r. rule_parse literal_globs ''Edit'' = Inr r \<and> rule_display r \<in> set (session_rules edit_policy))"
  by (rule session_rule_granted_once [OF add_edit])

text \<open>
  The policy built from settings holds, for each list, exactly the rules whose text parses, each once, no session rule, and the
  errors of all other texts in order.
\<close>

theorem new_policy_keeps_what_parses:
  assumes "new_policy G cfg c = (p, errs)"
  shows "set (allow p) = {r. \<exists>t \<in> set (c_allow cfg). rule_parse G t = Inr r} \<and>
    set (ask p) = {r. \<exists>t \<in> set (c_ask cfg). rule_parse G t = Inr r} \<and>
    set (deny p) = {r. \<exists>t \<in> set (c_deny cfg). rule_parse G t = Inr r} \<and>
    distinct (allow p) \<and> distinct (ask p) \<and> distinct (deny p) \<and> session p = [] \<and>
    errs = List.map_filter (\<lambda>t. case rule_parse G t of Inl e \<Rightarrow> Some e | Inr _ \<Rightarrow> None)
      (c_allow cfg @ c_ask cfg @ c_deny cfg)"
proof -
  obtain al e1 ak e2 dn e3 where p: "parse_rules G (c_allow cfg) [] [] = (al, e1)"
    "parse_rules G (c_ask cfg) [] e1 = (ak, e2)" "parse_rules G (c_deny cfg) [] e2 = (dn, e3)"
    by (metis surj_pair)
  note specs = parse_rules_spec [OF p(1)] parse_rules_spec [OF p(2)] parse_rules_spec [OF p(3)]
  have "p = \<lparr>ctx = normal_context c, allow = al, ask = ak, deny = dn, session = [],
      auto_allow_read_only_bash = c_auto_allow_read_only_bash cfg, sandbox_auto_allow = c_sandbox_auto_allow cfg\<rparr>"
    "errs = e3"
    using assms p by (simp_all add: new_policy_def)
  then show ?thesis using specs by (auto simp: map_filter_def)
qed

theorem new_policy_keeps_what_parses_witness:
  "set (allow (fst (new_policy literal_globs (default_config\<lparr>c_allow := [''Edit'', ''Edit'', ''Bash('']\<rparr>) (ctx edit_policy)))) =
     {r. \<exists>t \<in> set [''Edit'', ''Edit'', ''Bash('']. rule_parse literal_globs t = Inr r}"
  using new_policy_keeps_what_parses [OF surjective_pairing,
     of literal_globs "default_config\<lparr>c_allow := [''Edit'', ''Edit'', ''Bash('']\<rparr>" "ctx edit_policy"]
  by (simp add: default_config_def)

text \<open>
  The canonical text of a parsed rule parses back to the same rule.
\<close>

theorem rule_text_round_trip:
  assumes "rule_parse G t = Inr r"
  shows "rule_parse G (rule_display r) = Inr r"
  by (rule rule_text.of_to [OF assms])

theorem rule_text_round_trip_witness:
  "rule_parse literal_globs (rule_display (AgentRule (Some ''x''))) = Inr (AgentRule (Some ''x''))"
  by (rule rule_text_round_trip [OF parse_task])

text \<open>
  On parsed rules the code's equality, which compares path patterns by their source text only, is equality of rules, and two
  rules are equal exactly when their canonical texts are.
\<close>

theorem rule_equality_is_identity:
  assumes "rule_parse G t = Inr r" "rule_parse G u = Inr r'"
  shows "(rule_eq r r' \<longleftrightarrow> r = r') \<and> (r = r' \<longleftrightarrow> rule_display r = rule_display r')"
  using rule_eq_parsed [OF assms] rule_text.to_text_inj [OF assms] by auto

theorem rule_equality_is_identity_witness:
  "(rule_eq (AgentRule (Some ''x'')) (FilesRule EditScope None) \<longleftrightarrow> AgentRule (Some ''x'') = FilesRule EditScope None) \<and>
   (AgentRule (Some ''x'') = FilesRule EditScope None \<longleftrightarrow>
      rule_display (AgentRule (Some ''x'')) = rule_display (FilesRule EditScope None))"
  by (rule rule_equality_is_identity [OF parse_task parse_Edit])

text \<open>
  Every rule offered for \<open>always allow\<close> parses and is its own canonical text.
\<close>

theorem suggestions_are_canonical_rules:
  assumes "decide G p tool a mode = Ask why (Some u) keep"
  shows "\<exists>r. rule_parse G u = Inr r \<and> rule_display r = u"
proof (rule decide_cases [of G p tool a mode])
  assume "decide G p tool a mode = action_decide G p tool a (facts_of a) mode"
  then show ?thesis using assms action_suggestion_parses by metis
qed (use assms in simp_all)

theorem suggestions_are_canonical_rules_witness:
  "\<exists>r. rule_parse literal_globs ''WebSearch'' = Inr r \<and> rule_display r = ''WebSearch''"
  by (rule suggestions_are_canonical_rules [of _ "demo_policy [] [] [] False" "''WebSearch''" Search Default "''searches the web''" _ True])
     (simp add: decide_eval other_decide_def)

text \<open>
  Answering \<open>always allow\<close> to an edit works: after granting the suggested rule \<open>Edit\<close> the same call is allowed.
\<close>

theorem always_allow_edits:
  assumes "decide G p tool (Write paths) mode = Ask why (Some ''Edit'') True"
  shows "\<exists>p' why'. add_session_rule G ''Edit'' p = Inr p' \<and> decide G p' tool (Write paths) mode = Allow why'"
proof -
  let ?p' = "p\<lparr>session := push_new rule_eq (FilesRule EditScope None) (session p)\<rparr>"
  have add: "add_session_rule G ''Edit'' p = Inr ?p'" by (simp add: add_session_rule_def parse_Edit)
  have pipe: "restricting G p (deny p) tool (Write paths) (facts_of (Write paths)) = None"
    "\<not> (mode = Plan \<and> mutates (Write paths))" "mode \<noteq> Bypass"
    "restricting G p (ask p) tool (Write paths) (facts_of (Write paths)) = None"
    "files_decide G p tool (Write paths) paths mode = Ask why (Some ''Edit'') True"
    using assms by (cases rule: decide_cases [of G p tool "Write paths" mode]; simp add: action_decide_simps)+
  let ?ts = "targets p (Write paths) paths"
  have ts: "?ts \<noteq> []" "\<And>q. q \<in> set ?ts \<Longrightarrow> is_inside_allowed p q \<and> \<not> protected_path p q"
    using pipe(5) unfolding files_decide_def Let_def
    by (auto simp: is_read_def find_None_iff split: option.splits if_splits)
  have "\<exists>r. files_allowing G ?p' tool (Write paths) ?ts None = Some r"
  proof (rule files_allowing_Some [OF ts(1)])
    fix q assume q: "q \<in> set ?ts"
    show "\<not> (is_write (Write paths) \<and> is_inside_allowed ?p' q \<and> protected_path ?p' q)" using ts(2) [OF q] by simp
    obtain y where y: "y \<in> set (push_new rule_eq (FilesRule EditScope None) (session p))" "rule_eq y (FilesRule EditScope None)"
      using push_new_mem by blast
    have "y = FilesRule EditScope None" using y(2) by (cases y) auto
    then show "\<exists>r' \<in> set (allow_rules ?p'). covers_path G ?p' tool (Write paths) q r'"
      using y(1) ts(2) [OF q] by (auto simp: allow_rules_def covers_path_def is_write_def intro!: bexI [of _ y])
  qed
  then have "\<exists>why'. files_decide G ?p' tool (Write paths) paths mode = Allow why'" by (auto simp: files_decide_def)
  then show ?thesis
    using add decide_action [of G ?p' tool "Write paths" mode] pipe by (simp add: action_decide_simps)
qed

theorem always_allow_edits_witness:
  "\<exists>p' why'. add_session_rule literal_globs ''Edit'' (demo_policy [] [] [] False) = Inr p' \<and>
     decide literal_globs p' ''Edit'' (Write [[Normal ''a'']]) Default = Allow why'"
  by (rule always_allow_edits [of _ _ _ _ _ "''edits a''"])
     (simp add: decide_eval file_eval describe_def shown_def path_str_def)

text \<open>
  The prefix suggested for a command parses as a prefix rule that allows this command, provided its first word is no reserved
  word, no word holds a NUL, and the prefix is short enough and static for the lexer.
\<close>

theorem suggested_prefix_covers_its_command:
  assumes "prefix_for (command s) = Some pre" "\<forall>w \<in> set (command s). NUL \<notin> set (wtext w)"
    "hd (argv s) \<notin> set LEADING_KEYWORDS" "length pre \<le> MAX_LEN" "\<not> pdynamic (parse pre)"
  shows "\<exists>pat. command_parse (pre @ '':*'') = Inr (Some pat) \<and> allows pat (argv s)"
  by (rule prefix_rule_covers [OF assms])

theorem suggested_prefix_covers_its_command_witness:
  "\<exists>pat. command_parse (''cargo test'' @ '':*'') = Inr (Some pat) \<and> allows pat (argv (simple [''cargo'', ''test'', ''-x'']))"
  by (rule suggested_prefix_covers_its_command)
     (simp_all add: command_simple LEADING_KEYWORDS_def argv_def prefix_for_def NEVER_PREFIX_def picked_args_def PREFIX_SHELLS_def
        INTERPRETERS_def plain_arg_def RUN_VERBS_def quote_def bare_char_def ascii_simps contains_char_def MAX_LEN_def parse_cargo_test)

text \<open>
  C27. The lexer returns on every input: the fuel of the model is enough for all nested calls and loops, and the nesting depth is back
  at zero.
\<close>

theorem lexer_always_returns: "\<exists>segs l. lex_run input = Some (segs, l) \<and> depth l = 0"
  by (rule lex_run_Some)

text \<open>
  C28. Quoting is undone by the lexer: words without NUL, quoted and joined by blanks, are lexed back to one segment with exactly these
  words, without redirections and without anything dynamic.
\<close>

theorem quoted_words_lex_back:
  assumes "ts \<noteq> []" "\<forall>t \<in> set ts. NUL \<notin> set t"
  shows "\<exists>ws. lsegments (lex (join_with '' '' (map quote ts))) = [\<lparr>words = ws, redirects = []\<rparr>] \<and> map wtext ws = ts \<and>
    \<not> ldynamic (lex (join_with '' '' (map quote ts)))"
  by (rule lex_quoted [OF assms]) auto

theorem quoted_words_lex_back_witness:
  "\<exists>ws. lsegments (lex (join_with '' '' (map quote [''a b'', []]))) = [\<lparr>words = ws, redirects = []\<rparr>] \<and>
     map wtext ws = [''a b'', []] \<and> \<not> ldynamic (lex (join_with '' '' (map quote [''a b'', []])))"
  by (rule quoted_words_lex_back) simp_all

text \<open>
  A line that the lexer does not mark dynamic has no command inside a substitution, a backtick or a here-document.
\<close>

theorem static_lines_have_no_nested_commands:
  assumes "\<not> ldynamic (lex input)"
  shows "lnested (lex input) = []"
  using assms by (rule lex_static_nested)

theorem static_lines_have_no_nested_commands_witness: "lnested (lex ''ls'') = []"
  by (rule static_lines_have_no_nested_commands) (simp add: lex_ls)

text \<open>
  C29. A command line classified as read-only is not longer than the lexer's limit, opens no file for writing by redirection, and every
  program it runs is on one of the lists of known programs.
\<close>

theorem read_only_commands_write_nothing:
  assumes "is_read_only cmd"
  shows "length cmd \<le> MAX_LEN \<and> concat (map write_targets (all_segments (parse cmd))) = [] \<and>
    set (map hd (filter (\<lambda>a. a \<noteq> []) (map argv (all_segments (parse cmd))))) \<subseteq> set SAFE \<union> set FLAG_SENSITIVE \<union> set VERSION_PROBES"
proof -
  have "hd (argv s) \<in> set SAFE \<union> set FLAG_SENSITIVE \<union> set VERSION_PROBES"
    if s: "s \<in> set (segments (parse cmd))" "argv s \<noteq> []" for s
  proof -
    obtain name args where cmd: "command s = name # args" using s(2) by (cases "command s") (auto simp: argv_def)
    then have "program_is_read_only (wtext name) args"
      using segment_read_only_program(3) read_only_line(4) [OF assms] s(1) by blast
    then show ?thesis using program_read_only_listed [of "wtext name" args] cmd by (simp add: argv_def)
  qed
  then show ?thesis using read_only_line(1-3) [OF assms] by auto
qed

theorem read_only_commands_write_nothing_witness:
  "length ''ls'' \<le> MAX_LEN \<and> concat (map write_targets (all_segments (parse ''ls''))) = [] \<and>
   set (map hd (filter (\<lambda>a. a \<noteq> []) (map argv (all_segments (parse ''ls''))))) \<subseteq> set SAFE \<union> set FLAG_SENSITIVE \<union> set VERSION_PROBES"
  by (rule read_only_commands_write_nothing)
     (simp add: is_read_only_def command_is_read_only_def segment_is_read_only_def program_is_read_only_def demo_eval
        FLAG_SENSITIVE_def VERSION_PROBES_def SAFE_def)

text \<open>
  C30. When the search for indirectly run commands is not cut off it finds exactly the commands reachable by expansion.
\<close>

theorem executed_commands_are_the_reachable_ones:
  assumes "executed_commands s = (found, False)"
  shows "set found = {c. may_run (command_segment s) c}"
  using executed_commands_sound [of _ s] executed_commands_closed [of s] assms by auto

theorem executed_commands_are_the_reachable_ones_witness:
  "set [simple [''sudo'', ''rm'', ''x''], simple [''x''], simple [''rm'', ''x'']] =
     {c. may_run (command_segment (simple [''sudo'', ''rm'', ''x''])) c}"
  by (rule executed_commands_are_the_reachable_ones [OF executed_sudo_rm])

text \<open>
  The search returns at most 256 commands, without duplicates, the literal command first, and only reachable ones.
\<close>

theorem executed_commands_bounded:
  assumes "executed_commands s = (found, flag)"
  shows "length found \<le> 256 \<and> distinct found \<and> hd found = command_segment s \<and> set found \<subseteq> {c. may_run (command_segment s) c}"
  using executed_commands_length [of s] executed_commands_distinct [of s] executed_commands_hd [of s]
    executed_commands_sound [of _ s] assms by (auto simp: MAX_CANDIDATES_def)

theorem executed_commands_bounded_witness:
  "length [simple [''sudo'', ''rm'', ''x''], simple [''x''], simple [''rm'', ''x'']] \<le> 256 \<and>
   distinct [simple [''sudo'', ''rm'', ''x''], simple [''x''], simple [''rm'', ''x'']] \<and>
   hd [simple [''sudo'', ''rm'', ''x''], simple [''x''], simple [''rm'', ''x'']] = command_segment (simple [''sudo'', ''rm'', ''x'']) \<and>
   set [simple [''sudo'', ''rm'', ''x''], simple [''x''], simple [''rm'', ''x'']] \<subseteq>
     {c. may_run (command_segment (simple [''sudo'', ''rm'', ''x''])) c}"
  by (rule executed_commands_bounded [OF executed_sudo_rm])

text \<open>
  When the search was cut off, every rule with a command pattern or a path pattern for shell operands restricts the line.
\<close>

theorem truncated_expansion_fails_closed:
  assumes "truncated f" "command_pattern_of r \<noteq> None \<or> operand_pattern r False \<noteq> None \<or> operand_pattern r True \<noteq> None"
  shows "execute_restricts G p r tool f"
  using assms by (rule execute_restricts_truncated)

theorem truncated_expansion_fails_closed_witness:
  "execute_restricts literal_globs (demo_policy [] [] [] False) (BashRule (Some (prefix_pattern [''rm'']))) ''Bash''
     \<lparr>fcommand = ''ls'', fparsed = parse ''ls'', candidates = [], truncated = True, fread_only = True\<rparr>"
  by (rule truncated_expansion_fails_closed) simp_all



text \<open>
  A domain rule matches the domain itself and the hosts that end in the domain after a dot, and nothing else.
\<close>

theorem domains_match_at_label_boundaries:
  "matches_host p host \<longleftrightarrow> host = domain p \<or> (\<exists>sub. host = sub @ ''.'' @ domain p)"
  by (rule matches_host_iff)

text \<open>
  A host taken from a URL is not empty, in lower case and without a trailing dot, so the comparison of hosts is exact.
\<close>

theorem url_hosts_are_canonical:
  assumes "url_host url = Some host"
  shows "host \<noteq> [] \<and> to_ascii_lowercase host = host \<and> last host \<noteq> CHR ''.''"
proof -
  obtain h where h: "host = trim_end_matches (\<lambda>c. c = CHR ''.'') (to_ascii_lowercase h)" "host \<noteq> []"
    using assms by (auto simp: url_host_def Let_def split: option.splits if_splits)
  have "set host \<subseteq> set (to_ascii_lowercase h)"
    unfolding h(1) trim_end_matches_def by (auto dest: set_dropWhileD)
  then have "\<forall>c \<in> set host. to_ascii_lower c = c" by (auto simp: to_ascii_lowercase_def)
  then have "to_ascii_lowercase host = host" by (simp add: to_ascii_lowercase_def map_idI)
  moreover have "last host \<noteq> CHR ''.''"
    using trim_end_matches_last [of "\<lambda>c. c = CHR ''.''" "to_ascii_lowercase h"] h by simp
  ultimately show ?thesis using h(2) by simp
qed

theorem url_hosts_are_canonical_witness:
  "''a'' \<noteq> [] \<and> to_ascii_lowercase ''a'' = ''a'' \<and> last ''a'' \<noteq> CHR ''.''"
proof -
  have "trim ''A.'' = ''A.''" "url_rest ''A.'' = Some ''A.''" "percent_decode ''A.'' = ''A.''" "authority_host ''A.'' = ''A.''"
    "trim_end_matches (\<lambda>c. c = CHR ''.'') (to_ascii_lowercase ''A.'') = ''a''" by code_simp+
  then have "url_host ''A.'' = Some ''a''" by (simp add: url_host_def)
  then show ?thesis by (rule url_hosts_are_canonical [of "''A.''"])
qed

text \<open>
  Normalizing a path twice is normalizing it once.
\<close>

theorem normalize_is_idempotent: "normalize (normalize (components t)) = normalize (components t)"
  by (rule normalize_idem [OF wf_components])

text \<open>
  A relative path that never climbs above its start resolves to a path below the base directory.
\<close>

theorem resolved_paths_stay_below:
  assumes "absolute_normal base" "\<not> escapes_start q"
  shows "starts_with base (resolve base q)"
  using assms by (rule resolve_below)

theorem resolved_paths_stay_below_witness:
  "starts_with [RootDir, Normal ''w''] (resolve [RootDir, Normal ''w''] [Normal ''a'', ParentDir, Normal ''x''])"
  by (rule resolved_paths_stay_below) (simp_all add: absolute_normal_def escapes_start_def)

text \<open>
  Whether a path is protected does not depend on the letter case of its names.
\<close>

theorem protection_ignores_case:
  "is_protected (root @ map lower_component q) [root] = is_protected (root @ q) [root]"
  by (simp add: is_protected_def map_filter_def lower_names_lower)

text \<open>
  A sed script of one substitution, with a usable delimiter and parts without special characters, is accepted exactly when all
  its flags are printing or matching flags: \<open>w\<close> (write a file) and \<open>e\<close> (execute) are refused.
\<close>

theorem sed_substitution_flags:
  assumes "usable_delimiter delim" "unescaped delim pat" "unescaped delim rep"
    "\<not> (\<exists>f \<in> set flags. is_blank f \<or> f \<in> {'';'', [NL], ''}'', ''#''})"
  shows "commands (''s'' # delim # pat @ delim # rep @ delim # flags) \<longleftrightarrow> \<not> (\<exists>f \<in> set flags. \<not> sed_flag f)"
proof -
  let ?r = "dropWhile sed_flag flags"
  have r: "set ?r \<subseteq> set flags" by (auto dest: set_dropWhileD)
  then have "?r = [] \<or> \<not> is_blank (hd ?r)"
    using assms(4) by (metis hd_in_set subsetD)
  then have "skip_blanks ?r = ?r" unfolding skip_blanks_def by (rule dropWhile_hd)
  moreover have "ends_command ?r \<longleftrightarrow> ?r = []"
  proof (cases ?r)
    case (Cons c t)
    then have "c \<in> set flags" using r by (metis list.set_intros(1) subsetD)
    then show ?thesis unfolding Cons using assms(4) by (auto simp: ends_command_def)
  qed (simp only: ends_command_def list.case simp_thms)
  ultimately have "commands (''s'' # delim # pat @ delim # rep @ delim # flags) \<longleftrightarrow> ?r = [] \<and> commands ?r"
    using commands_substitution [OF assms(1-3), of flags] by (simp only: Let_def)
  also have "\<dots> \<longleftrightarrow> ?r = []" using commands_Nil by metis
  finally show ?thesis by simp
qed

theorem sed_substitution_flags_witness:
  "commands (''s'' # ''/'' # [''a''] @ ''/'' # [''b''] @ ''/'' # [''w'']) \<longleftrightarrow> \<not> (\<exists>f \<in> set [''w'']. \<not> sed_flag f)"
  by (rule sed_substitution_flags) (simp_all add: usable_delimiter_def unescaped_def is_blank_def)

text \<open>
  \<open>git branch\<close> and \<open>git tag\<close> with a name and no option, which create a ref, are not read-only.
\<close>

theorem git_named_refs_need_approval:
  assumes "skip_globals args = sub # names" "wtext sub = ''branch'' \<or> wtext sub = ''tag''"
    "names \<noteq> []" "\<not> (\<exists>w \<in> set names. starts_with ''-'' (wtext w))"
  shows "\<not> git_is_read_only args"
proof
  assume "git_is_read_only args"
  then have "git_subcommand (wtext sub) (map wtext names)"
    using assms(1) by (auto elim: git_read_only_subcommand)
  then have "lists_only (map wtext names) BRANCH_FLAGS ''arlviq'' \<or> lists_only (map wtext names) TAG_FLAGS ''li''"
    using assms(2) by (auto simp: git_subcommand_def INSPECT_def)
  moreover have "\<forall>t \<in> set (map wtext names). \<not> starts_with ''-'' t" using assms(4) by auto
  moreover have "\<forall>f \<in> set BRANCH_FLAGS. starts_with ''-'' f" "\<forall>f \<in> set TAG_FLAGS. starts_with ''-'' f"
    by (simp_all add: BRANCH_FLAGS_def TAG_FLAGS_def)
  ultimately have "map wtext names = []" using lists_only_names by blast
  then show False using assms(3) by simp
qed

theorem git_named_refs_need_approval_witness: "\<not> git_is_read_only [plain_word ''branch'', plain_word ''x'']"
  by (rule git_named_refs_need_approval [of _ "plain_word ''branch''" "[plain_word ''x'']"]) (simp_all add: GLOBAL_FLAGS_def)

text \<open>
  The label of a permission mode parses back to the mode.
\<close>

theorem mode_labels_parse: "mode_parse (label m) = Some m"
proof -
  have "trim (label m) = label m"
    by (rule all_printable_trim) (cases m; simp add: printable_def)
  then show ?thesis by (cases m) (simp_all add: mode_parse_def)
qed

section \<open>What modelling showed\<close>

text \<open>
  An open parenthesis at the top level that is never closed leaves \<open>parse_ok\<close> set, although its
  documentation in \<open>analysis.rs\<close> says that parentheses were balanced.
\<close>

lemma open_group_parses: "pok (parse ''(ls'')"
  by (simp add: lex_open_group)

text \<open>
  The sandbox rule resolves operands against the project root and ignores \<open>cd\<close>: the line below is allowed
  and removes a protected file.
\<close>

lemma sandbox_ignores_cd:
  "decide literal_globs (demo_policy [] [] [] True) ''Bash'' (Execute ''cd .git && rm config'') Default = Allow ''sandboxed'' \<and>
   [RootDir, Normal ''w'', Normal ''.git'', Normal ''config''] \<in>
     set (concat (map (\<lambda>(d, s). mutated d s) (shell_trace [RootDir, Normal ''w''] (segments (parse ''cd .git && rm config''))))) \<and>
   protected_path (demo_policy [] [] [] True) [RootDir, Normal ''w'', Normal ''.git'', Normal ''config'']"
proof (intro conjI)
  have ro: "\<not> segment_is_read_only (simple [''rm'', ''config''])"
    by (simp add: segment_is_read_only_def program_is_read_only_def command_simple LEADING_KEYWORDS_def FLAG_SENSITIVE_def VERSION_PROBES_def SAFE_def)
  show "decide literal_globs (demo_policy [] [] [] True) ''Bash'' (Execute ''cd .git && rm config'') Default = Allow ''sandboxed''"
    by (simp add: decide_eval execute_decide_def execute_allowing_def demo_eval coverage_of_def command_is_read_only_def ro
      redirects_contained_def argv_def
       sandbox_allows_def writes_contained_def sandbox_contained_def writes_of_commands positional_names file_eval)
qed (simp_all add: demo_eval mutated_def shell_cd_def FS_PROGRAMS_def operand_words_def attached_values_def before_dashes_def after_dashes_def
    option_like_def CD_FLAGS_def file_eval decide_eval)

text \<open>
  \<open>quote\<close> leaves reserved words bare. The prefix suggested for \<open>'then' foo\<close> is \<open>then foo\<close>, and the rule it
  gives is one for \<open>foo\<close>.
\<close>

lemma reserved_word_prefix:
  "quote ''then'' = ''then'' \<and> simple_words (join_with '' '' (map quote [''then'', ''foo''])) = Some [''foo'']"
  by (simp add: quote_def bare_char_def ascii_simps contains_char_def simple_words_def parse_then_foo argv_def command_def
     skip_keywords_skip skip_keywords_stop LEADING_KEYWORDS_def)

text \<open>
  \<open>sort\<close> accepts abbreviated long options; \<open>--out=f\<close> writes \<open>f\<close>, but only \<open>--output\<close> is looked for.
\<close>

lemma sort_abbreviated_output: "is_read_only ''sort --out=f a''"
  by (simp add: is_read_only_def command_is_read_only_def segment_is_read_only_def program_is_read_only_def demo_eval
     FLAG_SENSITIVE_def splits_def has_short_def short_flags_def strip_prefix_def)

text \<open>
  A path attached to a short option is not looked at: \<open>cp -t/etc a\<close> copies into \<open>/etc\<close> and counts as a
  file-system command inside the project.
\<close>

lemma attached_target_ignored: "is_common_fs_command ''cp -t/etc a'' [RootDir, Normal ''w'']"
  by (simp add: is_common_fs_command_def fs_segment_def demo_eval MUTATORS_def mutation_contained_def contained_def file_eval path_eval
     is_protected_def split_once_char_notin)

lemma lex_cp_parent: "lex ''cp --t=.. a'' =
    \<lparr>lsegments = [simple [''cp'', ''--t=..'', ''a'']], lnested = [], lok = True, ldynamic = False\<rparr>"
  unfolding simple_def plain_word_def by (simp add: lex_eval is_name_def is_ascii_alphabetic_def is_ascii_alphanumeric_def
     is_ascii_lowercase_def is_ascii_uppercase_def strip_suffix_def ends_with_def cong: bind_first)

lemma lex_sed_dots: "lex ''sed -i ../x -e p a'' =
    \<lparr>lsegments = [simple [''sed'', ''-i'', ''../x'', ''-e'', ''p'', ''a'']], lnested = [], lok = True, ldynamic = False\<rparr>"
  unfolding simple_def plain_word_def by (simp add: lex_eval cong: bind_first)

lemma expand_new: "expand (simple [''cp'', ''--t=..'', ''a'']) = []" "expand (simple [''sed'', ''-i'', ''../x'', ''-e'', ''p'', ''a'']) = []"
  by (simp_all add: expand_eval)

lemma parse_cp_parent: "parse ''cp --t=.. a'' =
    \<lparr>segments = [simple [''cp'', ''--t=..'', ''a'']], pnested = [], pok = True, pdynamic = False\<rparr>"
  by (simp add: parse_def lex_cp_parent runs_eval_def executed_single expand_new LEADING_KEYWORDS_def Let_def)

lemma parse_sed_dots: "parse ''sed -i ../x -e p a'' =
    \<lparr>segments = [simple [''sed'', ''-i'', ''../x'', ''-e'', ''p'', ''a'']], pnested = [], pok = True, pdynamic = False\<rparr>"
  by (simp add: parse_def lex_sed_dots runs_eval_def executed_single expand_new LEADING_KEYWORDS_def Let_def)

lemma sed_dots_call: "parse_call [plain_word ''-i'', plain_word ''../x'', plain_word ''-e'', plain_word ''p'', plain_word ''a''] =
    Some \<lparr>in_place = True, files = [plain_word ''a'']\<rparr>"
  by code_simp

text \<open>
  Nor is a value without a slash: \<open>cp --t=.. a\<close>, short for \<open>--target-directory\<close>, copies into the directory above the project.
\<close>

lemma parent_target_ignored: "is_common_fs_command ''cp --t=.. a'' [RootDir, Normal ''w'']"
  by (simp add: is_common_fs_command_def fs_segment_def demo_eval parse_cp_parent MUTATORS_def mutation_contained_def contained_def file_eval path_eval
     is_protected_def split_once_equals value_after_equals_def contains_char_def)

text \<open>
  A word after \<open>sed -i\<close> that begins with a dot counts as the suffix of BSD's \<open>sed\<close>; GNU's \<open>sed\<close> edits it as a file.
\<close>

lemma suffix_word_ignored: "is_common_fs_command ''sed -i ../x -e p a'' [RootDir, Normal ''w'']"
  by (simp add: is_common_fs_command_def fs_segment_def demo_eval parse_sed_dots sed_dots_call writable_def contained_def file_eval path_eval
     is_protected_def)

end
